(* ===== verification/Prelude.thy ===== *)
theory Prelude
  imports Main "HOL-Library.Word" "HOL-Library.Monad_Syntax"
begin

text \<open>
  Shared vocabulary of the development: the machine integer types of
  \<^verbatim>\<open>include/LySys/types.h\<close>, the error numbers of \<^verbatim>\<open>include/LySys/errno.h\<close>, the named
  collections of rewrite rules the component theories use, and the generic lemmas on
  lists, options and words that more than one component needs.
\<close>

unbundle bit_operations_syntax

section \<open>Machine integers\<close>

type_synonym u8 = "8 word"
type_synonym u16 = "16 word"
type_synonym u32 = "32 word"
type_synonym u64 = "64 word"

text \<open>\<open>mem_simps\<close>: loads after stores; \<open>buf_simps\<close>: field accesses on byte buffers;
  \<open>bits_simps\<close>: tests after updates of single bits.\<close>

named_theorems mem_simps
named_theorems buf_simps
named_theorems bits_simps

section \<open>Error numbers\<close>

datatype errno = ESUCCESS | EPERM | ENOENT | ESRCH | EINTR | EIO | ENXIO | E2BIG | ENOEXEC
  | EBADF | ECHILD | EAGAIN | ENOMEM | EACCES | EFAULT | EBUSY | EEXIST | ENOTDIR | EINVAL
  | ENOSPC | ENOSYS | ENAMETOOLONG

fun errno_code :: "errno \<Rightarrow> int" where
  "errno_code ESUCCESS = 0"
| "errno_code EPERM = 1"
| "errno_code ENOENT = 2"
| "errno_code ESRCH = 3"
| "errno_code EINTR = 4"
| "errno_code EIO = 5"
| "errno_code ENXIO = 6"
| "errno_code E2BIG = 7"
| "errno_code ENOEXEC = 8"
| "errno_code EBADF = 9"
| "errno_code ECHILD = 10"
| "errno_code EAGAIN = 11"
| "errno_code ENOMEM = 12"
| "errno_code EACCES = 13"
| "errno_code EFAULT = 14"
| "errno_code EBUSY = 16"
| "errno_code EEXIST = 17"
| "errno_code ENOTDIR = 20"
| "errno_code EINVAL = 22"
| "errno_code ENOSPC = 28"
| "errno_code ENOSYS = 38"
| "errno_code ENAMETOOLONG = 36"

text \<open>The value \<^verbatim>\<open>return -E...;\<close> hands to the caller.\<close>

abbreviation err :: "errno \<Rightarrow> int" where
  "err e \<equiv> - errno_code e"

lemma errno_code_inj: "errno_code a = errno_code b \<Longrightarrow> a = b"
  by (cases a; cases b; simp)

lemma errno_code_nonneg: "0 \<le> errno_code e"
  by (cases e) auto

section \<open>Lists\<close>

lemma map_nth_upt_take: "k \<le> length xs \<Longrightarrow> map ((!) xs) [0..<k] = take k xs"
  by (simp add: list_eq_iff_nth_eq)

lemma take_drop_append_same: "length as = i \<Longrightarrow> length bs = n \<Longrightarrow> take n (drop i (as @ bs @ cs)) = bs"
  by simp

lemma nth_take_drop: "i < n \<Longrightarrow> o' + i < length xs \<Longrightarrow> take n (drop o' xs) ! i = xs ! (o' + i)"
  by simp

lemma length_filter_update:
  assumes "i < length xs"
  shows "length (filter P (xs[i := x])) + (if P (xs ! i) then 1 else 0)
       = length (filter P xs) + (if P x then 1 else 0)"
proof -
  have xs: "xs = take i xs @ xs ! i # drop (Suc i) xs"
    using assms by (rule id_take_nth_drop)
  have "xs[i := x] = take i xs @ x # drop (Suc i) xs"
    using assms by (rule upd_conv_take_nth_drop)
  then have "length (filter P (xs[i := x]))
      = length (filter P (take i xs @ x # drop (Suc i) xs))" by simp
  moreover have "length (filter P xs) = length (filter P (take i xs @ xs ! i # drop (Suc i) xs))"
    using xs by simp
  ultimately show ?thesis by simp
qed

section \<open>Words\<close>

lemma unat_of_nat_small [simp]: "n < 2 ^ LENGTH('a) \<Longrightarrow> unat (of_nat n :: 'a::len word) = n"
  by (simp add: unat_of_nat take_bit_nat_eq_self)

lemma unat_plus_small: "unat a + unat b < 2 ^ LENGTH('a) \<Longrightarrow> unat (a + b :: 'a::len word) = unat a + unat b"
  by (simp add: unat_word_ariths)

lemma unat_minus_le: "b \<le> a \<Longrightarrow> unat (a - b :: 'a::len word) = unat a - unat b"
  by (simp add: unat_sub)

lemma unat_lt64 [simp]: "unat (x :: u64) < 18446744073709551616"
proof -
  have "unat x < 2 ^ LENGTH(64)" by (rule unsigned_less)
  then show ?thesis by simp
qed

lemma unat_lt32 [simp]: "unat (x :: u32) < 4294967296"
proof -
  have "unat x < 2 ^ LENGTH(32)" by (rule unsigned_less)
  then show ?thesis by simp
qed

lemma unat_lt16 [simp]: "unat (x :: u16) < 65536"
proof -
  have "unat x < 2 ^ LENGTH(16)" by (rule unsigned_less)
  then show ?thesis by simp
qed

lemma unat_lt8 [simp]: "unat (x :: u8) < 256"
proof -
  have "unat x < 2 ^ LENGTH(8)" by (rule unsigned_less)
  then show ?thesis by simp
qed

lemma unat_nat64: "n < 2 ^ 64 \<Longrightarrow> unat (of_nat n :: u64) = n"
  by (intro unat_of_nat_small) simp

lemma unat_ucast_32_64 [simp]: "unat (ucast (w :: u32) :: u64) = unat w"
proof -
  have "unat w < 2 ^ 64" by (rule less_trans [OF unat_lt32]) simp
  then show ?thesis by (simp add: unsigned_ucast_eq take_bit_nat_eq_self)
qed

lemma unat_ucast_8_32 [simp]: "unat (ucast (w :: u8) :: u32) = unat w"
proof -
  have "unat w < 2 ^ 32" by (rule less_trans [OF unat_lt8]) simp
  then show ?thesis by (simp add: unsigned_ucast_eq take_bit_nat_eq_self)
qed

lemma unat_ucast_16_32 [simp]: "unat (ucast (w :: u16) :: u32) = unat w"
proof -
  have "unat w < 2 ^ 32" by (rule less_trans [OF unat_lt16]) simp
  then show ?thesis by (simp add: unsigned_ucast_eq take_bit_nat_eq_self)
qed

lemma unat_eq_iff: "unat (a :: 'a::len word) = unat b \<longleftrightarrow> a = b"
  by (simp add: word_unat_eq_iff)

text \<open>\<^verbatim>\<open>x & ~0xFFF\<close>, the page-aligning mask, and \<^verbatim>\<open>x & ~15\<close>, the heap's.\<close>

lemma unat_and_not_mask:
  "unat (x AND NOT (mask n) :: 'a::len word) = unat x div 2 ^ n * 2 ^ n"
proof -
  have "x AND NOT (mask n) = push_bit n (drop_bit n x)"
    by (rule bit_word_eqI) (auto simp: bit_simps)
  then have "unat (x AND NOT (mask n)) = take_bit LENGTH('a) (push_bit n (drop_bit n (unat x)))"
    by (simp add: unsigned_push_bit_eq unat_drop_bit_eq)
  also have "push_bit n (drop_bit n (unat x)) = unat x div 2 ^ n * 2 ^ n"
    by (simp add: push_bit_eq_mult drop_bit_eq_div)
  also have "unat x div 2 ^ n * 2 ^ n < 2 ^ LENGTH('a)"
    by (rule le_less_trans [OF div_times_less_eq_dividend unsigned_less])
  then have "take_bit LENGTH('a) (unat x div 2 ^ n * 2 ^ n) = unat x div 2 ^ n * 2 ^ n"
    by (simp add: take_bit_nat_eq_self)
  finally show ?thesis .
qed

end
