(* ===== verification/Bytes.thy ===== *)
theory Bytes
  imports Prelude
begin

text \<open>
  Bytes, buffers and memory. The kernel casts byte arrays and raw addresses to structs, so
  the layout of every field is little-endian bytes at an offset: \<open>le_bytes\<close> and
  \<open>le_word\<close> are the two directions of that encoding. A local array or a disk
  sector is a list of bytes, whose accesses out of range are \<open>None\<close> (the C has no
  defined result there); the kernel's address space is a function from 64-bit addresses to
  bytes.
\<close>

section \<open>Little-endian encoding\<close>

definition le_bytes :: "nat \<Rightarrow> 'a::len word \<Rightarrow> u8 list" where
  "le_bytes n w = map (\<lambda>i. ucast (drop_bit (8 * i) w)) [0..<n]"

fun le_word :: "u8 list \<Rightarrow> 'a::len word" where
  "le_word [] = 0"
| "le_word (b # bs) = ucast b OR push_bit 8 (le_word bs)"

lemma length_le_bytes [simp]: "length (le_bytes n w) = n"
  by (simp add: le_bytes_def)

lemma le_bytes_0 [simp]: "le_bytes 0 w = []"
  by (simp add: le_bytes_def)

lemma le_bytes_Suc: "le_bytes (Suc n) w = ucast w # le_bytes n (drop_bit 8 w)"
proof -
  have "[0..<Suc n] = 0 # map Suc [0..<n]"
    by (simp add: map_Suc_upt upt_conv_Cons del: upt_Suc)
  then show ?thesis
    by (simp add: le_bytes_def add.commute del: upt_Suc)
qed

lemma le_word_le_bytes: "le_word (le_bytes n w) = take_bit (8 * n) w"
proof (induction n arbitrary: w)
  case 0
  then show ?case by simp
next
  case (Suc n)
  have "ucast (ucast w :: u8) OR push_bit 8 (take_bit (8 * n) (drop_bit 8 w)) = take_bit (8 * Suc n) w"
    by (rule bit_word_eqI) (auto simp: bit_simps)
  with Suc show ?case by (simp add: le_bytes_Suc)
qed

lemma le_word_le_bytes_full [simp]:
  "LENGTH('a) \<le> 8 * n \<Longrightarrow> le_word (le_bytes n (w :: 'a::len word)) = w"
  by (simp add: le_word_le_bytes take_bit_word_beyond_length_eq)

lemma le_word_replicate_0 [simp]: "le_word (replicate n 0) = 0"
  by (induction n) auto

section \<open>Buffers\<close>

text \<open>\<open>buf_get\<close> and \<open>buf_put\<close> read and write \<open>n\<close> bytes at offset \<open>o\<close>; \<open>None\<close> is an
  access beyond the array.\<close>

definition buf_get :: "u8 list \<Rightarrow> nat \<Rightarrow> nat \<Rightarrow> u8 list option" where
  "buf_get b off n = (if off + n \<le> length b then Some (take n (drop off b)) else None)"

definition buf_put :: "u8 list \<Rightarrow> nat \<Rightarrow> u8 list \<Rightarrow> u8 list option" where
  "buf_put b off xs =
     (if off + length xs \<le> length b then Some (take off b @ xs @ drop (off + length xs) b) else None)"

definition get8 :: "u8 list \<Rightarrow> nat \<Rightarrow> u8 option" where
  "get8 b off = map_option le_word (buf_get b off 1)"

definition get16 :: "u8 list \<Rightarrow> nat \<Rightarrow> u16 option" where
  "get16 b off = map_option le_word (buf_get b off 2)"

definition get32 :: "u8 list \<Rightarrow> nat \<Rightarrow> u32 option" where
  "get32 b off = map_option le_word (buf_get b off 4)"

definition put8 :: "u8 list \<Rightarrow> nat \<Rightarrow> u8 \<Rightarrow> u8 list option" where
  "put8 b off v = buf_put b off (le_bytes 1 v)"

definition put16 :: "u8 list \<Rightarrow> nat \<Rightarrow> u16 \<Rightarrow> u8 list option" where
  "put16 b off v = buf_put b off (le_bytes 2 v)"

definition put32 :: "u8 list \<Rightarrow> nat \<Rightarrow> u32 \<Rightarrow> u8 list option" where
  "put32 b off v = buf_put b off (le_bytes 4 v)"

lemma buf_put_length: "buf_put b off xs = Some b' \<Longrightarrow> length b' = length b"
  by (auto simp: buf_put_def split: if_splits)

lemma buf_put_Some: "off + length xs \<le> length b \<Longrightarrow> \<exists>b'. buf_put b off xs = Some b'"
  by (simp add: buf_put_def)

lemma buf_get_put_same [buf_simps]:
  "buf_put b off xs = Some b' \<Longrightarrow> n = length xs \<Longrightarrow> buf_get b' off n = Some xs"
  by (auto simp: buf_put_def buf_get_def split: if_splits)

lemma buf_get_nth:
  "buf_get b off n = Some xs \<longleftrightarrow> off + n \<le> length b \<and> length xs = n \<and> (\<forall>i<n. xs ! i = b ! (off + i))"
  by (auto simp: buf_get_def list_eq_iff_nth_eq)

lemma buf_put_nth:
  assumes "buf_put b off xs = Some b'" and "i < length b"
  shows "b' ! i = (if off \<le> i \<and> i < off + length xs then xs ! (i - off) else b ! i)"
proof -
  have le: "off + length xs \<le> length b" and b': "b' = take off b @ xs @ drop (off + length xs) b"
    using assms(1) by (auto simp: buf_put_def split: if_splits)
  show ?thesis
    using le assms(2) by (auto simp: b' nth_append)
qed

lemma buf_get_put_other [buf_simps]:
  assumes "buf_put b off xs = Some b'" and "off' + n \<le> off \<or> off + length xs \<le> off'"
  shows "buf_get b' off' n = buf_get b off' n"
proof (cases "off' + n \<le> length b")
  case True
  have "take n (drop off' b') = take n (drop off' b)"
  proof (rule nth_equalityI)
    fix i assume "i < length (take n (drop off' b'))"
    with True assms buf_put_length [OF assms(1)]
    show "take n (drop off' b') ! i = take n (drop off' b) ! i"
      by (auto simp: buf_put_nth [OF assms(1)])
  qed (simp add: buf_put_length [OF assms(1)])
  with True show ?thesis by (simp add: buf_get_def buf_put_length [OF assms(1)])
qed (simp add: buf_get_def buf_put_length [OF assms(1)])

section \<open>Memory\<close>

type_synonym mem = "u64 \<Rightarrow> u8"

definition ldn :: "mem \<Rightarrow> u64 \<Rightarrow> nat \<Rightarrow> u8 list" where
  "ldn m a n = map (\<lambda>i. m (a + of_nat i)) [0..<n]"

definition stn :: "mem \<Rightarrow> u64 \<Rightarrow> u8 list \<Rightarrow> mem" where
  "stn m a bs = (\<lambda>x. let i = unat (x - a) in if i < length bs then bs ! i else m x)"

definition ld8 :: "mem \<Rightarrow> u64 \<Rightarrow> u8" where
  "ld8 m a = le_word (ldn m a 1)"

definition ld16 :: "mem \<Rightarrow> u64 \<Rightarrow> u16" where
  "ld16 m a = le_word (ldn m a 2)"

definition ld32 :: "mem \<Rightarrow> u64 \<Rightarrow> u32" where
  "ld32 m a = le_word (ldn m a 4)"

definition ld64 :: "mem \<Rightarrow> u64 \<Rightarrow> u64" where
  "ld64 m a = le_word (ldn m a 8)"

definition st8 :: "mem \<Rightarrow> u64 \<Rightarrow> u8 \<Rightarrow> mem" where
  "st8 m a v = stn m a (le_bytes 1 v)"

definition st32 :: "mem \<Rightarrow> u64 \<Rightarrow> u32 \<Rightarrow> mem" where
  "st32 m a v = stn m a (le_bytes 4 v)"

definition st64 :: "mem \<Rightarrow> u64 \<Rightarrow> u64 \<Rightarrow> mem" where
  "st64 m a v = stn m a (le_bytes 8 v)"

text \<open>\<open>apart a n b k\<close>: the \<open>n\<close> bytes at \<open>a\<close> and the \<open>k\<close> bytes at \<open>b\<close> do not meet, on
  the circular 64-bit address space.\<close>

definition apart :: "u64 \<Rightarrow> nat \<Rightarrow> u64 \<Rightarrow> nat \<Rightarrow> bool" where
  "apart a n b k \<longleftrightarrow> n \<le> unat (b - a) \<and> k \<le> unat (a - b)"

lemma apart_sym: "apart a n b k \<Longrightarrow> apart b k a n"
  by (simp add: apart_def)

lemma apart_mono: "apart a n b k \<Longrightarrow> n' \<le> n \<Longrightarrow> k' \<le> k \<Longrightarrow> apart a n' b k'"
  by (simp add: apart_def)

lemma unat_uminus64: "d \<noteq> 0 \<Longrightarrow> unat (- d :: u64) = 2 ^ 64 - unat d"
  using unat_sub_if_size [of "0 :: u64" d] by (simp add: word_size unat_eq_0)

lemma unat_minus_swap: "a \<noteq> b \<Longrightarrow> unat (a - b :: u64) = 2 ^ 64 - unat (b - a)"
  using unat_uminus64 [of "b - a"] by simp

lemma apart_linear:
  assumes "unat a + n \<le> unat b" and "unat b + k \<le> 2 ^ 64" and "0 < n"
  shows "apart a n b k"
proof -
  have "a \<le> b" unfolding word_le_nat_alt using assms(1) by linarith
  then have ba: "unat (b - a) = unat b - unat a" by (rule unat_minus_le)
  have "a \<noteq> b" using assms(1,3) by auto
  then have ab: "unat (a - b) = 2 ^ 64 - (unat b - unat a)"
    using unat_minus_swap [of a b] ba by metis
  show ?thesis unfolding apart_def ab ba using assms by linarith
qed

lemma apart_offset:
  assumes "apart a n b k" and "i < k"
  shows "n \<le> unat (b + of_nat i - a)"
proof (cases "n = 0")
  case False
  then have ne: "a \<noteq> b" using assms(1) by (auto simp: apart_def)
  have d: "n \<le> unat (b - a)" "k \<le> 2 ^ 64 - unat (b - a)"
    using assms(1) unat_minus_swap [OF ne] by (auto simp only: apart_def)
  have small: "unat (b - a) + i < 2 ^ 64" and i: "i < 2 ^ 64"
    using d(2) assms(2) by linarith+
  have "unat ((b - a) + of_nat i) = unat (b - a) + i"
    using small i by (subst unat_plus_small) simp_all
  moreover have "b + of_nat i - a = (b - a) + of_nat i" by (simp only: diff_add_eq)
  ultimately show ?thesis using d(1) by (simp only:)
qed simp

lemma length_ldn [simp]: "length (ldn m a n) = n"
  by (simp add: ldn_def)

lemma stn_outside: "length bs \<le> unat (x - a) \<Longrightarrow> stn m a bs x = m x"
  by (simp add: stn_def)

lemma ldn_stn_other [mem_simps]:
  "apart a (length bs) b n \<Longrightarrow> ldn (stn m a bs) b n = ldn m b n"
  by (auto simp: ldn_def intro!: stn_outside apart_offset)

lemma ldn_stn_same:
  assumes "length bs < 2 ^ 64"
  shows "ldn (stn m a bs) a (length bs) = bs"
proof (rule nth_equalityI)
  fix i assume "i < length (ldn (stn m a bs) a (length bs))"
  then have "i < length bs" by simp
  moreover from this assms have "i < 2 ^ 64" by (rule less_trans)
  ultimately show "ldn (stn m a bs) a (length bs) ! i = bs ! i"
    by (simp add: ldn_def stn_def)
qed simp

lemma ldn_append: "ldn m a (n + k) = ldn m a n @ ldn m (a + of_nat n) k"
  by (rule nth_equalityI) (auto simp: ldn_def nth_append algebra_simps)

lemma ld64_st64 [mem_simps]: "ld64 (st64 m a v) a = v"
  using ldn_stn_same [of "le_bytes 8 v" m a] by (simp add: ld64_def st64_def)

lemma ld32_st32 [mem_simps]: "ld32 (st32 m a v) a = v"
  using ldn_stn_same [of "le_bytes 4 v" m a] by (simp add: ld32_def st32_def)

lemma ld8_st8 [mem_simps]: "ld8 (st8 m a v) a = v"
  using ldn_stn_same [of "le_bytes 1 v" m a] by (simp add: ld8_def st8_def)

lemma ld_st_other [mem_simps]:
  "apart a 8 b 8 \<Longrightarrow> ld64 (st64 m a v) b = ld64 m b"
  "apart a 4 b 8 \<Longrightarrow> ld64 (st32 m a w) b = ld64 m b"
  "apart a 1 b 8 \<Longrightarrow> ld64 (st8 m a x) b = ld64 m b"
  "apart a 8 b 4 \<Longrightarrow> ld32 (st64 m a v) b = ld32 m b"
  "apart a 4 b 4 \<Longrightarrow> ld32 (st32 m a w) b = ld32 m b"
  "apart a 1 b 4 \<Longrightarrow> ld32 (st8 m a x) b = ld32 m b"
  "apart a 8 b 1 \<Longrightarrow> ld8 (st64 m a v) b = ld8 m b"
  "apart a 4 b 1 \<Longrightarrow> ld8 (st32 m a w) b = ld8 m b"
  "apart a 1 b 1 \<Longrightarrow> ld8 (st8 m a x) b = ld8 m b"
  by (simp_all add: ld64_def st64_def ld32_def st32_def ld8_def st8_def mem_simps)

end
