(* ===== verification/Bitmap.thy ===== *)
theory Bitmap
  imports Bytes
begin

text \<open>
  Bitmaps in byte arrays: bit \<open>i\<close> is bit \<open>i mod 8\<close> of byte \<open>i div 8\<close>. The frame allocator
  (\<^verbatim>\<open>kernel/mem/pmm.c\<close>, macros of \<^verbatim>\<open>include/LySys/pmm.h\<close>) and the inode and zone bitmaps of
  the file system use the same three expressions. The locale \<open>bit_array\<close> is the contract
  the clients rely on (what a test returns after a set or a clear), with the counting facts
  proved from it once; it is interpreted on the byte arrays.
\<close>

section \<open>The operations\<close>

definition SET_BIT :: "u8 list \<Rightarrow> nat \<Rightarrow> u8 list" where
  "SET_BIT bm i = bm[i div 8 := bm ! (i div 8) OR push_bit (i mod 8) 1]"

definition CLEAR_BIT :: "u8 list \<Rightarrow> nat \<Rightarrow> u8 list" where
  "CLEAR_BIT bm i = bm[i div 8 := bm ! (i div 8) AND NOT (push_bit (i mod 8) 1)]"

definition TEST_BIT :: "u8 list \<Rightarrow> nat \<Rightarrow> bool" where
  "TEST_BIT bm i \<longleftrightarrow> bm ! (i div 8) AND push_bit (i mod 8) 1 \<noteq> 0"

lemma and_bit_neq_0: "(w :: 'a::len word) AND push_bit k 1 \<noteq> 0 \<longleftrightarrow> bit w k"
proof
  assume "w AND push_bit k 1 \<noteq> 0"
  then obtain j where "bit (w AND push_bit k 1) j" by (auto simp: bit_eq_iff)
  then have "bit w j" and "j = k" by (auto simp: bit_simps)
  then show "bit w k" by simp
next
  assume k: "bit w k"
  then have "k < LENGTH('a)" by (rule bit_imp_le_length)
  with k have "bit (w AND push_bit k 1) k" by (simp add: bit_simps)
  then show "w AND push_bit k 1 \<noteq> 0" by (metis bit_0_eq bot_apply bot_bool_def)
qed

lemma TEST_BIT_bit: "TEST_BIT bm i \<longleftrightarrow> bit (bm ! (i div 8)) (i mod 8)"
  unfolding TEST_BIT_def by (rule and_bit_neq_0)

lemma length_SET_BIT [simp]: "length (SET_BIT bm i) = length bm"
  by (simp add: SET_BIT_def)

lemma length_CLEAR_BIT [simp]: "length (CLEAR_BIT bm i) = length bm"
  by (simp add: CLEAR_BIT_def)

lemma div_mod_8_eq: "i div 8 = j div 8 \<Longrightarrow> i mod 8 = j mod 8 \<longleftrightarrow> i = (j :: nat)"
  by (metis div_mult_mod_eq)

lemma TEST_SET_BIT:
  assumes "i < 8 * length bm"
  shows "TEST_BIT (SET_BIT bm i) j \<longleftrightarrow> i = j \<or> TEST_BIT bm j"
proof (cases "i div 8 = j div 8")
  case True
  moreover have "j div 8 < length bm" using assms True by linarith
  ultimately show ?thesis
    by (auto simp: SET_BIT_def TEST_BIT_bit bit_simps dest: div_mod_8_eq)
next
  case False
  then show ?thesis by (auto simp: SET_BIT_def TEST_BIT_bit)
qed

lemma TEST_CLEAR_BIT:
  assumes "i < 8 * length bm"
  shows "TEST_BIT (CLEAR_BIT bm i) j \<longleftrightarrow> i \<noteq> j \<and> TEST_BIT bm j"
proof (cases "i div 8 = j div 8")
  case True
  moreover have "j div 8 < length bm" using assms True by linarith
  ultimately show ?thesis
    by (auto simp: CLEAR_BIT_def TEST_BIT_bit bit_simps dest: div_mod_8_eq)
next
  case False
  then show ?thesis by (auto simp: CLEAR_BIT_def TEST_BIT_bit)
qed

lemma TEST_BIT_replicate_FF: "i < 8 * n \<Longrightarrow> TEST_BIT (replicate n 255) i"
proof -
  assume "i < 8 * n"
  then have "i div 8 < n" by linarith
  moreover have "bit (255 :: u8) (i mod 8)"
  proof -
    have "(255 :: u8) = - 1" by simp
    moreover have "bit (- 1 :: u8) (i mod 8)" by (simp only: bit_minus_1_iff) simp
    ultimately show ?thesis by (simp only:)
  qed
  ultimately show ?thesis by (simp add: TEST_BIT_bit)
qed

lemma TEST_BIT_replicate_0: "i < 8 * n \<Longrightarrow> \<not> TEST_BIT (replicate n 0) i"
  by (simp add: TEST_BIT_bit)

section \<open>The contract\<close>

locale bit_array =
  fixes tst :: "'b \<Rightarrow> nat \<Rightarrow> bool"
    and sett :: "'b \<Rightarrow> nat \<Rightarrow> 'b"
    and clear :: "'b \<Rightarrow> nat \<Rightarrow> 'b"
    and nbits :: "'b \<Rightarrow> nat"
  assumes tst_sett: "i < nbits b \<Longrightarrow> tst (sett b i) j \<longleftrightarrow> i = j \<or> tst b j"
    and tst_clear: "i < nbits b \<Longrightarrow> tst (clear b i) j \<longleftrightarrow> i \<noteq> j \<and> tst b j"
    and nbits_sett [simp]: "nbits (sett b i) = nbits b"
    and nbits_clear [simp]: "nbits (clear b i) = nbits b"
begin

lemma used_sett:
  "i < nbits b \<Longrightarrow> {j. j < nbits (sett b i) \<and> tst (sett b i) j} = insert i {j. j < nbits b \<and> tst b j}"
  by (auto simp: tst_sett)

lemma used_clear:
  "i < nbits b \<Longrightarrow> {j. j < nbits (clear b i) \<and> tst (clear b i) j} = {j. j < nbits b \<and> tst b j} - {i}"
  by (auto simp: tst_clear)

lemma card_sett:
  "i < nbits b \<Longrightarrow> \<not> tst b i \<Longrightarrow>
    card {j. j < nbits (sett b i) \<and> tst (sett b i) j} = Suc (card {j. j < nbits b \<and> tst b j})"
  by (subst used_sett) auto

lemma card_clear:
  "i < nbits b \<Longrightarrow> tst b i \<Longrightarrow>
    Suc (card {j. j < nbits (clear b i) \<and> tst (clear b i) j}) = card {j. j < nbits b \<and> tst b j}"
  by (simp only: used_clear) (rule card_Suc_Diff1, auto)

lemma card_le: "card {j. j < nbits b \<and> tst b j} \<le> nbits b"
  using card_mono [of "{..<nbits b}" "{j. j < nbits b \<and> tst b j}"] by auto

lemma card_less: "i < nbits b \<Longrightarrow> \<not> tst b i \<Longrightarrow> card {j. j < nbits b \<and> tst b j} < nbits b"
  using psubset_card_mono [of "{..<nbits b}" "{j. j < nbits b \<and> tst b j}"] by auto

lemma clear_sett: "i < nbits b \<Longrightarrow> \<not> tst b i \<Longrightarrow> tst (clear (sett b i) i) j \<longleftrightarrow> tst b j"
  by (auto simp: tst_sett tst_clear)

end

interpretation bytemap: bit_array TEST_BIT SET_BIT CLEAR_BIT "\<lambda>bm. 8 * length bm"
  by unfold_locales (simp_all add: TEST_SET_BIT TEST_CLEAR_BIT)

lemmas bitmap_tests [bits_simps] = bytemap.tst_sett bytemap.tst_clear

section \<open>Search for a clear bit\<close>

text \<open>The first clear bit of \<open>[i, n)\<close>: the loop of \<^verbatim>\<open>pmm_alloc_block\<close>, and the specification
  of the byte-skipping scans of the file system.\<close>

function find_clear :: "u8 list \<Rightarrow> nat \<Rightarrow> nat \<Rightarrow> nat option" where
  "find_clear bm i n =
     (if i < n then (if \<not> TEST_BIT bm i then Some i else find_clear bm (Suc i) n) else None)"
  by pat_completeness auto
termination
  by (relation "measure (\<lambda>(bm, i, n). n - i)") auto

declare find_clear.simps [simp del]

lemma interval_first:
  "i < k \<Longrightarrow> (\<forall>j. i \<le> j \<and> j < k \<longrightarrow> P j) \<longleftrightarrow> P i \<and> (\<forall>j. Suc i \<le> j \<and> j < k \<longrightarrow> P j)"
  by (metis Suc_leD Suc_leI dual_order.refl le_neq_implies_less)

lemma find_clear_Some:
  "find_clear bm i n = Some k \<longleftrightarrow> i \<le> k \<and> k < n \<and> \<not> TEST_BIT bm k \<and> (\<forall>j. i \<le> j \<and> j < k \<longrightarrow> TEST_BIT bm j)"
proof (induction bm i n rule: find_clear.induct)
  case (1 bm i n)
  show ?case
  proof (cases "i < n \<and> TEST_BIT bm i")
    case True
    then have "find_clear bm i n = find_clear bm (Suc i) n"
      by (simp add: find_clear.simps [of bm i n])
    moreover have "find_clear bm (Suc i) n = Some k \<longleftrightarrow>
        Suc i \<le> k \<and> k < n \<and> \<not> TEST_BIT bm k \<and> (\<forall>j. Suc i \<le> j \<and> j < k \<longrightarrow> TEST_BIT bm j)"
      using 1 True by blast
    moreover have "i \<le> k \<and> \<not> TEST_BIT bm k \<longleftrightarrow> Suc i \<le> k \<and> \<not> TEST_BIT bm k"
      using True by (metis Suc_leD Suc_leI le_neq_implies_less)
    ultimately show ?thesis
      using True interval_first [of i k "TEST_BIT bm"] by (metis Suc_le_lessD)
  next
    case False
    then show ?thesis
      by (auto simp: find_clear.simps [of bm i n])
  qed
qed

lemma find_clear_None:
  "find_clear bm i n = None \<longleftrightarrow> (\<forall>j. i \<le> j \<and> j < n \<longrightarrow> TEST_BIT bm j)"
proof (induction bm i n rule: find_clear.induct)
  case (1 bm i n)
  show ?case
  proof (cases "i < n \<and> TEST_BIT bm i")
    case True
    then have "find_clear bm i n = find_clear bm (Suc i) n"
      by (simp add: find_clear.simps [of bm i n])
    with 1 True show ?thesis using interval_first [of i n "TEST_BIT bm"] by metis
  next
    case False
    then show ?thesis by (auto simp: find_clear.simps [of bm i n])
  qed
qed

end
