(* ===== verification/Loops.thy ===== *)
theory Loops
  imports Bytes
begin

text \<open>
  Loops over addresses. \<open>for_pages\<close> is \<^verbatim>\<open>for (a = lo; a < hi; a += 4096) body\<close> on 64-bit
  unsigned integers: the increment wraps, so the loop may run forever and its value is
  \<open>None\<close> then (or when the body has none). When the limit leaves room for one more page
  below \<open>2\<^sup>6\<^sup>4\<close> it is a fold over the list of page addresses.
\<close>

section \<open>Folds that may fail\<close>

fun fold_opt :: "('a \<Rightarrow> 's \<Rightarrow> 's option) \<Rightarrow> 'a list \<Rightarrow> 's \<Rightarrow> 's option" where
  "fold_opt f [] s = Some s"
| "fold_opt f (x # xs) s = (case f x s of None \<Rightarrow> None | Some s' \<Rightarrow> fold_opt f xs s')"

lemma fold_opt_append:
  "fold_opt f (xs @ ys) s = Option.bind (fold_opt f xs s) (fold_opt f ys)"
  by (induction xs arbitrary: s) (auto split: option.splits)

lemma fold_opt_total: "fold_opt (\<lambda>x s. Some (f x s)) xs s = Some (fold f xs s)"
  by (induction xs arbitrary: s) auto

lemma fold_opt_inv:
  assumes "fold_opt f xs s = Some t" and "P s"
    and "\<And>x u v. x \<in> set xs \<Longrightarrow> P u \<Longrightarrow> f x u = Some v \<Longrightarrow> P v"
  shows "P t"
  using assms
proof (induction xs arbitrary: s)
  case (Cons x xs)
  then obtain u where u: "f x s = Some u" "fold_opt f xs u = Some t"
    by (auto split: option.splits)
  have "P u" by (rule Cons.prems(3) [OF _ Cons.prems(2) u(1)]) simp
  then show ?case by (rule Cons.IH [OF u(2)]) (rule Cons.prems(3), simp_all)
qed simp

lemma fold_opt_establish:
  assumes "fold_opt f xs s = Some t" and "x \<in> set xs"
    and "\<And>u v. f x u = Some v \<Longrightarrow> P v"
    and "\<And>y u v. y \<in> set xs \<Longrightarrow> P u \<Longrightarrow> f y u = Some v \<Longrightarrow> P v"
  shows "P t"
proof -
  obtain ys zs where xs: "xs = ys @ x # zs"
    using split_list [OF assms(2)] by blast
  with assms(1) obtain u v where v: "f x u = Some v" "fold_opt f zs v = Some t"
    by (auto simp: fold_opt_append bind_eq_Some_conv split: option.splits)
  have "P v" using assms(3) v(1) .
  with v(2) show ?thesis
    using assms(4) xs by (rule_tac fold_opt_inv) auto
qed

section \<open>The page loop\<close>

partial_function (option) for_pages ::
    "(u64 \<Rightarrow> 's \<Rightarrow> 's option) \<Rightarrow> u64 \<Rightarrow> u64 \<Rightarrow> 's \<Rightarrow> 's option" where
  "for_pages body a lim s =
     (if a < lim then Option.bind (body a s) (\<lambda>s'. for_pages body (a + 4096) lim s') else Some s)"

definition page_count :: "u64 \<Rightarrow> u64 \<Rightarrow> nat" where
  "page_count a lim = (unat lim - unat a + 4095) div 4096"

definition page_range :: "u64 \<Rightarrow> u64 \<Rightarrow> u64 list" where
  "page_range a lim = map (\<lambda>k. a + 4096 * of_nat k) [0..<page_count a lim]"

lemma page_range_Nil: "\<not> a < lim \<Longrightarrow> page_range a lim = []"
  by (simp add: page_range_def page_count_def word_less_nat_alt not_less)

lemma page_steps:
  fixes x y :: nat
  assumes "x < y"
  shows "(y - x + 4095) div 4096 = Suc ((y - (x + 4096) + 4095) div 4096)"
proof -
  define d where "d = y - x - 1"
  have l: "y - x + 4095 = d + 4096" using assms unfolding d_def by arith
  have r: "y - (x + 4096) + 4095 = (if d < 4096 then 4095 else d)" using assms unfolding d_def by arith
  show ?thesis unfolding l r by auto
qed

lemma page_range_Cons:
  assumes "a < lim" and "unat lim + 4096 \<le> 2 ^ 64"
  shows "page_range a lim = a # page_range (a + 4096) lim"
proof -
  have al: "unat a < unat lim" using assms(1) by (simp only: word_less_nat_alt)
  have a': "unat (a + 4096) = unat a + 4096"
    using al assms(2) by (subst unat_plus_small) simp_all
  have cnt: "page_count a lim = Suc (page_count (a + 4096) lim)"
    unfolding page_count_def a' using al by (rule page_steps)
  have "page_range a lim = a # map (\<lambda>k. a + 4096 * of_nat k) (map Suc [0..<page_count (a + 4096) lim])"
    by (simp add: page_range_def cnt upt_conv_Cons map_Suc_upt del: upt_Suc)
  also have "\<dots> = a # page_range (a + 4096) lim"
    by (simp add: page_range_def algebra_simps)
  finally show ?thesis .
qed

lemma for_pages_fold:
  assumes "unat lim + 4096 \<le> 2 ^ 64"
  shows "for_pages body a lim s = fold_opt body (page_range a lim) s"
proof (induction "page_count a lim" arbitrary: a s)
  case 0
  then have "\<not> a < lim" unfolding page_count_def word_less_nat_alt by linarith
  then show ?case by (simp add: for_pages.simps [of body a] page_range_Nil)
next
  case (Suc n)
  show ?case
  proof (cases "a < lim")
    case True
    then have "page_range a lim = a # page_range (a + 4096) lim"
      using assms by (rule page_range_Cons)
    moreover from this have "length (page_range a lim) = Suc (length (page_range (a + 4096) lim))"
      by simp
    then have "n = page_count (a + 4096) lim" using Suc.hyps(2) by (simp add: page_range_def)
    ultimately show ?thesis
      using True Suc.hyps(1) by (simp add: for_pages.simps [of body a] split: option.splits bind_splits)
  next
    case False
    then show ?thesis by (simp add: for_pages.simps [of body a] page_range_Nil)
  qed
qed

lemma page_range_nth_unat:
  assumes "unat lim + 4096 \<le> 2 ^ 64" and "k < page_count a lim"
  shows "unat (a + 4096 * of_nat k :: u64) = unat a + 4096 * k"
proof -
  have "4096 * k < 2 ^ 64" and "unat a + 4096 * k < 2 ^ 64"
    using assms unfolding page_count_def by linarith+
  moreover from this have "unat (4096 * of_nat k :: u64) = 4096 * k"
    by (simp add: unat_word_ariths)
  ultimately show ?thesis by (subst unat_plus_small) simp_all
qed

lemma page_range_mem:
  assumes "unat lim + 4096 \<le> 2 ^ 64"
  shows "x \<in> set (page_range a lim) \<longleftrightarrow>
    (\<exists>k. unat x = unat a + 4096 * k \<and> unat a + 4096 * k < unat lim)"
proof
  assume "x \<in> set (page_range a lim)"
  then obtain k where k: "k < page_count a lim" "x = a + 4096 * of_nat k"
    by (auto simp: page_range_def)
  then show "\<exists>k. unat x = unat a + 4096 * k \<and> unat a + 4096 * k < unat lim"
    using page_range_nth_unat [OF assms k(1)] by (intro exI [of _ k]) (auto simp: page_count_def)
next
  assume "\<exists>k. unat x = unat a + 4096 * k \<and> unat a + 4096 * k < unat lim"
  then obtain k where k: "unat x = unat a + 4096 * k" "unat a + 4096 * k < unat lim" by blast
  then have "k < page_count a lim" unfolding page_count_def by linarith
  moreover from this have "x = a + 4096 * of_nat k"
    using page_range_nth_unat [OF assms, of k a] k(1) by (metis unat_eq_iff)
  ultimately show "x \<in> set (page_range a lim)" by (auto simp: page_range_def)
qed

end
