(* ===== verification/Multiboot.thy ===== *)
theory Multiboot
  imports Loops
begin

text \<open>
  The Multiboot2 information structure the boot loader leaves in memory
  (\<^verbatim>\<open>include/LySys/mbi.h\<close>) and the two nested loops that walk it: over the tags, and over
  the entries of a memory map tag. \<^verbatim>\<open>kernel/mem/pmm.c\<close> and \<^verbatim>\<open>kernel/mbi.c\<close> contain the
  same loops; the body is a parameter here. A tag of rounded size 0 or a memory map with
  \<open>entry_size\<close> 0 makes the C loop forever, so the walks are partial; \<open>tag_chain\<close> and
  \<open>entry_chain\<close> describe the well-formed structures, on which the walks are folds.
\<close>

section \<open>Addresses and structures\<close>

definition KERNEL_VIRTUAL_BASE :: u64 where
  "KERNEL_VIRTUAL_BASE = 0xFFFFFFFF80000000"

definition P2V :: "u64 \<Rightarrow> u64" where
  "P2V a = a + KERNEL_VIRTUAL_BASE"

definition V2P :: "u64 \<Rightarrow> u64" where
  "V2P a = a - KERNEL_VIRTUAL_BASE"

lemma V2P_P2V [simp]: "V2P (P2V a) = a" and P2V_V2P [simp]: "P2V (V2P a) = a"
  by (simp_all add: V2P_def P2V_def)

record mb2_tag =
  tag_type :: u32
  tag_size :: u32

record mb2_mmap_entry =
  e_addr :: u64
  e_len :: u64
  e_type :: u32
  e_zero :: u32

record framebuffer_info =
  fb_addr :: u64
  fb_pitch :: u32
  fb_width :: u32
  fb_height :: u32
  fb_bpp :: u8

definition read_tag :: "mem \<Rightarrow> u64 \<Rightarrow> mb2_tag" where
  "read_tag m a = \<lparr>tag_type = ld32 m a, tag_size = ld32 m (a + 4)\<rparr>"

definition read_mmap_entry :: "mem \<Rightarrow> u64 \<Rightarrow> mb2_mmap_entry" where
  "read_mmap_entry m a = \<lparr>e_addr = ld64 m a, e_len = ld64 m (a + 8),
     e_type = ld32 m (a + 16), e_zero = ld32 m (a + 20)\<rparr>"

text \<open>\<open>entry_size\<close> and \<open>entries\<close> of a memory map tag; the framebuffer tag's fields copied
  into the global \<open>fb\<close>.\<close>

definition mmap_entry_size :: "mem \<Rightarrow> u64 \<Rightarrow> u32" where
  "mmap_entry_size m tag = ld32 m (tag + 8)"

definition mmap_entries :: "u64 \<Rightarrow> u64" where
  "mmap_entries tag = tag + 16"

definition read_framebuffer :: "mem \<Rightarrow> u64 \<Rightarrow> framebuffer_info" where
  "read_framebuffer m tag = \<lparr>fb_addr = ld64 m (tag + 8), fb_pitch = ld32 m (tag + 16),
     fb_width = ld32 m (tag + 20), fb_height = ld32 m (tag + 24), fb_bpp = ld8 m (tag + 28)\<rparr>"

section \<open>The walks\<close>

definition next_tag :: "mem \<Rightarrow> u64 \<Rightarrow> u64" where
  "next_tag m tag = tag + ucast ((tag_size (read_tag m tag) + 7) AND NOT 7)"

partial_function (option) walk_tags ::
    "(u64 \<Rightarrow> 's \<Rightarrow> 's option) \<Rightarrow> mem \<Rightarrow> u64 \<Rightarrow> u64 \<Rightarrow> 's \<Rightarrow> 's option" where
  "walk_tags body m tag lim s =
     (if tag < lim \<and> tag_type (read_tag m tag) \<noteq> 0
      then Option.bind (body tag s) (\<lambda>s'. walk_tags body m (next_tag m tag) lim s')
      else Some s)"

partial_function (option) walk_entries ::
    "(u64 \<Rightarrow> 's \<Rightarrow> 's option) \<Rightarrow> mem \<Rightarrow> u64 \<Rightarrow> u64 \<Rightarrow> 's \<Rightarrow> 's option" where
  "walk_entries body m tag ent s =
     (if ent < tag + ucast (tag_size (read_tag m tag))
      then Option.bind (body ent s)
             (\<lambda>s'. walk_entries body m tag (ent + ucast (mmap_entry_size m tag)) s')
      else Some s)"

text \<open>\<open>for (a = entry->addr; a < entry->addr + entry->len; a += 4096) body\<close> over the available
  entries of a memory map tag: the part common to \<^verbatim>\<open>pmm_init\<close> and \<^verbatim>\<open>mbi_parse\<close>.\<close>

definition available_entry :: "(u64 \<Rightarrow> 's \<Rightarrow> 's option) \<Rightarrow> mem \<Rightarrow> u64 \<Rightarrow> 's \<Rightarrow> 's option" where
  "available_entry body m ent s =
     (let e = read_mmap_entry m ent in
      if e_type e = 1 then for_pages body (e_addr e) (e_addr e + e_len e) s else Some s)"

definition walk_available :: "(u64 \<Rightarrow> 's \<Rightarrow> 's option) \<Rightarrow> mem \<Rightarrow> u64 \<Rightarrow> 's \<Rightarrow> 's option" where
  "walk_available body m tag = walk_entries (available_entry body m) m tag (mmap_entries tag)"

section \<open>Well-formed structures\<close>

fun tag_chain :: "mem \<Rightarrow> u64 \<Rightarrow> u64 \<Rightarrow> u64 list \<Rightarrow> bool" where
  "tag_chain m lim a [] \<longleftrightarrow> \<not> (a < lim \<and> tag_type (read_tag m a) \<noteq> 0)"
| "tag_chain m lim a (t # ts) \<longleftrightarrow>
     t = a \<and> a < lim \<and> tag_type (read_tag m a) \<noteq> 0 \<and> tag_chain m lim (next_tag m a) ts"

fun entry_chain :: "mem \<Rightarrow> u64 \<Rightarrow> u64 \<Rightarrow> u64 list \<Rightarrow> bool" where
  "entry_chain m tag e [] \<longleftrightarrow> \<not> e < tag + ucast (tag_size (read_tag m tag))"
| "entry_chain m tag e (x # xs) \<longleftrightarrow>
     x = e \<and> e < tag + ucast (tag_size (read_tag m tag)) \<and>
     entry_chain m tag (e + ucast (mmap_entry_size m tag)) xs"

lemma walk_tags_fold:
  "tag_chain m lim a ts \<Longrightarrow> walk_tags body m a lim s = fold_opt body ts s"
proof (induction ts arbitrary: a s)
  case Nil
  then show ?case by (auto simp: walk_tags.simps [of body m a])
next
  case (Cons t ts)
  then show ?case
    by (simp add: walk_tags.simps [of body m a] split: option.splits bind_splits)
qed

lemma walk_entries_fold:
  "entry_chain m tag e es \<Longrightarrow> walk_entries body m tag e s = fold_opt body es s"
proof (induction es arbitrary: e s)
  case Nil
  then show ?case by (simp add: walk_entries.simps [of body m tag e])
next
  case (Cons x xs)
  then show ?case
    by (simp add: walk_entries.simps [of body m tag e] split: option.splits bind_splits)
qed

lemma walk_available_fold:
  "entry_chain m tag (mmap_entries tag) es \<Longrightarrow>
    walk_available body m tag s = fold_opt (available_entry body m) es s"
  by (simp add: walk_available_def walk_entries_fold)

text \<open>An available region whose end leaves a page below \<open>2\<^sup>6\<^sup>4\<close> is swept completely.\<close>

definition region_ok :: "mb2_mmap_entry \<Rightarrow> bool" where
  "region_ok e \<longleftrightarrow> e_type e = 1 \<longrightarrow> unat (e_addr e + e_len e) + 4096 \<le> 2 ^ 64"

lemma available_entry_fold:
  assumes "region_ok (read_mmap_entry m ent)"
  shows "available_entry body m ent s =
    (if e_type (read_mmap_entry m ent) = 1
     then fold_opt body (page_range (e_addr (read_mmap_entry m ent))
            (e_addr (read_mmap_entry m ent) + e_len (read_mmap_entry m ent))) s
     else Some s)"
  using assms by (simp add: available_entry_def Let_def region_ok_def for_pages_fold)

text \<open>The regions a structure declares available, as the list of their pages.\<close>

definition entry_pages :: "mem \<Rightarrow> u64 \<Rightarrow> u64 list" where
  "entry_pages m ent = (let e = read_mmap_entry m ent in
     if e_type e = 1 then page_range (e_addr e) (e_addr e + e_len e) else [])"

lemma fold_opt_concat:
  "fold_opt (\<lambda>x. fold_opt f (g x)) xs s = fold_opt f (concat (map g xs)) s"
proof (induction xs arbitrary: s)
  case (Cons x xs)
  then show ?case by (simp add: fold_opt_append split: option.splits bind_splits)
qed simp

lemma fold_opt_cong:
  "(\<And>x s. x \<in> set xs \<Longrightarrow> f x s = g x s) \<Longrightarrow> fold_opt f xs s = fold_opt g xs s"
  by (induction xs arbitrary: s) (auto split: option.splits)

lemma walk_available_pages:
  assumes "entry_chain m tag (mmap_entries tag) es"
    and "\<And>e. e \<in> set es \<Longrightarrow> region_ok (read_mmap_entry m e)"
  shows "walk_available body m tag s = fold_opt body (concat (map (entry_pages m) es)) s"
proof -
  have "walk_available body m tag s = fold_opt (\<lambda>e. fold_opt body (entry_pages m e)) es s"
    unfolding walk_available_fold [OF assms(1)]
    by (rule fold_opt_cong)
      (simp add: assms(2) available_entry_fold entry_pages_def Let_def)
  then show ?thesis by (simp add: fold_opt_concat)
qed

end
