(* ===== verification/Pmm.thy ===== *)
theory Pmm
  imports Bitmap Multiboot
begin

text \<open>
  The physical frame allocator, \<^verbatim>\<open>kernel/mem/pmm.c\<close>, with the RAM statistics of
  \<^verbatim>\<open>include/LySys/ram.h\<close>. One bit per 4 KiB frame of the first 256 MiB; \<open>used_blocks\<close>
  counts the set bits. The addresses of the linker symbols \<^verbatim>\<open>_kernel_start\<close> and
  \<^verbatim>\<open>_kernel_end\<close> are parameters.
\<close>

section \<open>State and operations\<close>

definition PAGE_SIZE :: nat where
  "PAGE_SIZE = 4096"

definition MAX_BLOCKS :: nat where
  "MAX_BLOCKS = 65536"

definition BITMAP_SIZE :: nat where
  "BITMAP_SIZE = MAX_BLOCKS div 8"

record pmm =
  pmm_bitmap :: "u8 list"
  total_blocks :: u32
  used_blocks :: u32

text \<open>The globals before \<^verbatim>\<open>pmm_init\<close> runs.\<close>

definition pmm_static :: pmm where
  "pmm_static = \<lparr>pmm_bitmap = replicate BITMAP_SIZE 0, total_blocks = of_nat MAX_BLOCKS,
     used_blocks = of_nat MAX_BLOCKS\<rparr>"

text \<open>\<^verbatim>\<open>uint32_t block = phys_addr / PAGE_SIZE;\<close>, truncated to 32 bits.\<close>

definition block_of :: "u64 \<Rightarrow> u32" where
  "block_of phys = ucast (phys div 4096)"

definition pmm_mark_used :: "u64 \<Rightarrow> pmm \<Rightarrow> pmm" where
  "pmm_mark_used phys p =
     (let block = block_of phys in
      if total_blocks p \<le> block then p
      else if \<not> TEST_BIT (pmm_bitmap p) (unat block)
      then p\<lparr>pmm_bitmap := SET_BIT (pmm_bitmap p) (unat block), used_blocks := used_blocks p + 1\<rparr>
      else p)"

definition pmm_mark_free :: "u64 \<Rightarrow> pmm \<Rightarrow> pmm" where
  "pmm_mark_free phys p =
     (let block = block_of phys in
      if total_blocks p \<le> block then p
      else if TEST_BIT (pmm_bitmap p) (unat block)
      then p\<lparr>pmm_bitmap := CLEAR_BIT (pmm_bitmap p) (unat block), used_blocks := used_blocks p - 1\<rparr>
      else p)"

text \<open>The body of the sweep in \<^verbatim>\<open>pmm_init\<close>: frames beyond the bitmap are not freed.\<close>

definition pmm_init_free :: "u64 \<Rightarrow> pmm \<Rightarrow> pmm" where
  "pmm_init_free a p = (if a < of_nat (MAX_BLOCKS * PAGE_SIZE) then pmm_mark_free a p else p)"

definition pmm_init_tag :: "mem \<Rightarrow> u64 \<Rightarrow> pmm \<Rightarrow> pmm option" where
  "pmm_init_tag m tag p =
     (if tag_type (read_tag m tag) = 6
      then walk_available (\<lambda>a q. Some (pmm_init_free a q)) m tag p
      else Some p)"

definition pmm_init :: "mem \<Rightarrow> u64 \<Rightarrow> u64 \<Rightarrow> u64 \<Rightarrow> pmm \<Rightarrow> pmm option" where
  "pmm_init m kernel_start kernel_end mbi_phys_addr p0 =
     do { let p1 = p0\<lparr>pmm_bitmap := replicate BITMAP_SIZE 0xFF, used_blocks := total_blocks p0\<rparr>;
          let mbi_virt_addr = P2V mbi_phys_addr;
          let total_size = ld32 m mbi_virt_addr;
          let mbi_end = mbi_virt_addr + ucast total_size;
          p2 \<leftarrow> walk_tags (pmm_init_tag m) m (mbi_virt_addr + 8) mbi_end p1;
          p3 \<leftarrow> for_pages (\<lambda>a q. Some (pmm_mark_used a q)) (V2P kernel_start) (V2P kernel_end) p2;
          p4 \<leftarrow> for_pages (\<lambda>a q. Some (pmm_mark_used a q)) 0 0x100000 p3;
          Some (pmm_mark_used mbi_phys_addr p4) }"

text \<open>The returned pointer is \<open>i * PAGE_SIZE\<close> computed in 32 bits; NULL is 0.\<close>

definition pmm_alloc_block :: "pmm \<Rightarrow> u64 \<times> pmm" where
  "pmm_alloc_block p =
     (case find_clear (pmm_bitmap p) 0 (unat (total_blocks p)) of
        Some i \<Rightarrow> (let phys_addr = ucast (of_nat i * of_nat PAGE_SIZE :: u32)
                   in (phys_addr, pmm_mark_used phys_addr p))
      | None \<Rightarrow> (0, p))"

definition pmm_free_block :: "u64 \<Rightarrow> pmm \<Rightarrow> pmm" where
  "pmm_free_block ptr p = pmm_mark_free ptr p"

section \<open>RAM statistics\<close>

definition GetTotalRam :: "pmm \<Rightarrow> u64" where
  "GetTotalRam p = ucast (total_blocks p) * of_nat PAGE_SIZE"

definition GetTotalRamMB :: "pmm \<Rightarrow> u32" where
  "GetTotalRamMB p = ucast (GetTotalRam p div (1024 * 1024))"

definition GetUsedRam :: "u32 \<Rightarrow> u64" where
  "GetUsedRam used = ucast used * of_nat PAGE_SIZE"

definition GetUsedRamMB :: "u32 \<Rightarrow> u32" where
  "GetUsedRamMB used = ucast (GetUsedRam used div (1024 * 1024))"

definition GetFreeRamMB :: "pmm \<Rightarrow> u32 \<Rightarrow> u32" where
  "GetFreeRamMB p used = GetTotalRamMB p - GetUsedRamMB used"

section \<open>The invariant\<close>

definition frame_used :: "pmm \<Rightarrow> nat \<Rightarrow> bool" where
  "frame_used p i \<longleftrightarrow> TEST_BIT (pmm_bitmap p) i"

definition pmm_inv :: "pmm \<Rightarrow> bool" where
  "pmm_inv p \<longleftrightarrow> length (pmm_bitmap p) = BITMAP_SIZE \<and> total_blocks p = of_nat MAX_BLOCKS \<and>
     unat (used_blocks p) = card {i. i < MAX_BLOCKS \<and> frame_used p i}"

lemmas pmm_consts = PAGE_SIZE_def MAX_BLOCKS_def BITMAP_SIZE_def

lemma nbits_eq: "length bm = BITMAP_SIZE \<Longrightarrow> 8 * length bm = MAX_BLOCKS"
  by (simp add: pmm_consts)

lemma pmm_invD:
  assumes "pmm_inv p"
  shows "length (pmm_bitmap p) = BITMAP_SIZE" "unat (total_blocks p) = MAX_BLOCKS"
    "unat (used_blocks p) = card {i. i < MAX_BLOCKS \<and> frame_used p i}"
  using assms by (auto simp: pmm_inv_def pmm_consts)

lemma block_in_range:
  "pmm_inv p \<Longrightarrow> total_blocks p \<le> b \<longleftrightarrow> MAX_BLOCKS \<le> unat b"
  by (simp add: word_le_nat_alt pmm_invD(2))

lemma pmm_mark_used_inv:
  assumes "pmm_inv p" shows "pmm_inv (pmm_mark_used phys p)"
proof (cases "unat (block_of phys) < MAX_BLOCKS \<and> \<not> frame_used p (unat (block_of phys))")
  case True
  let ?i = "unat (block_of phys)" and ?bm = "pmm_bitmap p"
  have len: "8 * length ?bm = MAX_BLOCKS" using pmm_invD(1) [OF assms] by (rule nbits_eq)
  have c: "card {j. j < MAX_BLOCKS \<and> TEST_BIT (SET_BIT ?bm ?i) j} = Suc (unat (used_blocks p))"
    using bytemap.card_sett [of ?i ?bm] True pmm_invD(3) [OF assms]
    by (simp add: len frame_used_def)
  have le: "Suc (unat (used_blocks p)) \<le> MAX_BLOCKS"
    using bytemap.card_le [of "SET_BIT ?bm ?i"] c by (simp add: len)
  then have "unat (used_blocks p + 1) = Suc (unat (used_blocks p))"
    by (subst unat_plus_small) (simp_all add: pmm_consts)
  with True c show ?thesis
    using assms block_in_range [OF assms, of "block_of phys"]
    by (simp add: pmm_mark_used_def Let_def pmm_inv_def frame_used_def)
next
  case False
  with assms show ?thesis
    using block_in_range [OF assms, of "block_of phys"]
    by (auto simp: pmm_mark_used_def Let_def frame_used_def)
qed

lemma pmm_mark_free_inv:
  assumes "pmm_inv p" shows "pmm_inv (pmm_mark_free phys p)"
proof (cases "unat (block_of phys) < MAX_BLOCKS \<and> frame_used p (unat (block_of phys))")
  case True
  let ?i = "unat (block_of phys)" and ?bm = "pmm_bitmap p"
  have len: "8 * length ?bm = MAX_BLOCKS" using pmm_invD(1) [OF assms] by (rule nbits_eq)
  have c: "Suc (card {j. j < MAX_BLOCKS \<and> TEST_BIT (CLEAR_BIT ?bm ?i) j}) = unat (used_blocks p)"
    using bytemap.card_clear [of ?i ?bm] True pmm_invD(3) [OF assms]
    by (simp add: len frame_used_def)
  then have "unat (used_blocks p - 1) = unat (used_blocks p) - 1"
    by (subst unat_minus_le) (simp_all add: word_le_nat_alt)
  with True c show ?thesis
    using assms block_in_range [OF assms, of "block_of phys"]
    by (simp add: pmm_mark_free_def Let_def pmm_inv_def frame_used_def)
next
  case False
  with assms show ?thesis
    using block_in_range [OF assms, of "block_of phys"]
    by (auto simp: pmm_mark_free_def Let_def frame_used_def)
qed

text \<open>What marking does to each frame.\<close>

lemma frame_used_mark_used:
  assumes "pmm_inv p"
  shows "frame_used (pmm_mark_used a p) i \<longleftrightarrow>
    frame_used p i \<or> (i = unat (block_of a) \<and> unat (block_of a) < MAX_BLOCKS)"
  using block_in_range [OF assms, of "block_of a"] nbits_eq [OF pmm_invD(1) [OF assms]]
  by (auto simp: pmm_mark_used_def Let_def frame_used_def bits_simps)

lemma frame_used_mark_free:
  assumes "pmm_inv p"
  shows "frame_used (pmm_mark_free a p) i \<longleftrightarrow>
    frame_used p i \<and> \<not> (i = unat (block_of a) \<and> unat (block_of a) < MAX_BLOCKS)"
  using block_in_range [OF assms, of "block_of a"] nbits_eq [OF pmm_invD(1) [OF assms]]
  by (auto simp: pmm_mark_free_def Let_def frame_used_def bits_simps)

lemma pmm_alloc_inv: "pmm_inv p \<Longrightarrow> pmm_inv (snd (pmm_alloc_block p))"
  by (simp add: pmm_alloc_block_def Let_def pmm_mark_used_inv split: option.splits)

section \<open>Allocation\<close>

lemma unat_block_of: "unat (block_of a) = unat a div 4096 mod 2 ^ 32"
proof -
  have "unat (a div 4096) = unat a div 4096" by (simp add: unat_div)
  then show ?thesis by (simp add: block_of_def unsigned_ucast_eq take_bit_eq_mod)
qed

lemma unat_block_of_small: "unat a < 2 ^ 44 \<Longrightarrow> unat (block_of a) = unat a div 4096"
  by (simp add: unat_block_of)

definition frame_addr :: "nat \<Rightarrow> u64" where
  "frame_addr i = ucast (of_nat i * of_nat PAGE_SIZE :: u32)"

lemma unat_frame_addr: "i < MAX_BLOCKS \<Longrightarrow> unat (frame_addr i) = 4096 * i"
proof -
  assume "i < MAX_BLOCKS"
  then have i: "4096 * i < 2 ^ 32" by (simp add: pmm_consts)
  then have "unat (of_nat i * of_nat PAGE_SIZE :: u32) = 4096 * i"
    by (simp add: unat_word_ariths PAGE_SIZE_def mult.commute)
  with i show ?thesis by (simp add: frame_addr_def unsigned_ucast_eq take_bit_nat_eq_self)
qed

lemma unat_block_frame_addr: "i < MAX_BLOCKS \<Longrightarrow> unat (block_of (frame_addr i)) = i"
  by (simp add: unat_block_of unat_frame_addr pmm_consts)

lemma CLEAR_SET_same:
  assumes "\<not> TEST_BIT bm i"
  shows "CLEAR_BIT (SET_BIT bm i) i = bm"
proof -
  have "(bm ! (i div 8) OR push_bit (i mod 8) 1) AND NOT (push_bit (i mod 8) 1) = bm ! (i div 8)"
    using assms by (intro bit_word_eqI) (auto simp: bit_simps TEST_BIT_bit)
  then show ?thesis
    by (cases "i div 8 < length bm")
      (simp_all add: CLEAR_BIT_def SET_BIT_def list_update_beyond)
qed

lemma pmm_alloc_Some:
  assumes "pmm_inv p" and "find_clear (pmm_bitmap p) 0 MAX_BLOCKS = Some i"
  shows "pmm_alloc_block p = (frame_addr i, pmm_mark_used (frame_addr i) p)"
  using assms by (simp add: pmm_alloc_block_def pmm_invD(2) frame_addr_def Let_def)

lemma pmm_alloc_None:
  "pmm_inv p \<Longrightarrow> find_clear (pmm_bitmap p) 0 MAX_BLOCKS = None \<Longrightarrow> pmm_alloc_block p = (0, p)"
  by (simp add: pmm_alloc_block_def pmm_invD(2))

lemma pmm_mark_used_new:
  assumes "pmm_inv p" and "i < MAX_BLOCKS" and "\<not> frame_used p i"
  shows "pmm_mark_used (frame_addr i) p =
    p\<lparr>pmm_bitmap := SET_BIT (pmm_bitmap p) i, used_blocks := used_blocks p + 1\<rparr>"
  using assms block_in_range [OF assms(1), of "block_of (frame_addr i)"]
  by (simp add: pmm_mark_used_def Let_def unat_block_frame_addr frame_used_def)

text \<open>C3: The frame allocator hands out the lowest free frame, marks exactly that frame and
  counts it, and giving the frame back restores the allocator's state bit for bit; when no frame
  is free it returns NULL and changes nothing.\<close>

theorem pmm_alloc_lowest_free:
  assumes "pmm_inv p"
  shows "if \<exists>i < MAX_BLOCKS. \<not> frame_used p i
    then \<exists>i p'. i < MAX_BLOCKS \<and> \<not> frame_used p i \<and> (\<forall>j < i. frame_used p j) \<and>
           pmm_alloc_block p = (frame_addr i, p') \<and> unat (frame_addr i) = PAGE_SIZE * i \<and>
           pmm_inv p' \<and> (\<forall>j. frame_used p' j \<longleftrightarrow> frame_used p j \<or> j = i) \<and>
           used_blocks p' = used_blocks p + 1 \<and> pmm_free_block (frame_addr i) p' = p
    else pmm_alloc_block p = (0, p)"
proof (cases "find_clear (pmm_bitmap p) 0 MAX_BLOCKS")
  case None
  then have "\<forall>j < MAX_BLOCKS. frame_used p j"
    by (simp add: find_clear_None frame_used_def)
  with pmm_alloc_None [OF assms None] show ?thesis by auto
next
  case (Some i)
  then have i: "i < MAX_BLOCKS" "\<not> frame_used p i" "\<forall>j < i. frame_used p j"
    by (auto simp: find_clear_Some frame_used_def)
  let ?p' = "pmm_mark_used (frame_addr i) p"
  have p': "?p' = p\<lparr>pmm_bitmap := SET_BIT (pmm_bitmap p) i, used_blocks := used_blocks p + 1\<rparr>"
    using pmm_mark_used_new [OF assms i(1,2)] .
  have inv': "pmm_inv ?p'" using assms by (rule pmm_mark_used_inv)
  have used': "frame_used ?p' j \<longleftrightarrow> frame_used p j \<or> j = i" for j
    using frame_used_mark_used [OF assms] i(1) by (simp add: unat_block_frame_addr)
  have "pmm_free_block (frame_addr i) ?p' = p"
    using block_in_range [OF inv', of "block_of (frame_addr i)"] used' [of i] i
    by (simp add: pmm_free_block_def pmm_mark_free_def Let_def unat_block_frame_addr frame_used_def
        p' CLEAR_SET_same)
  then have "i < MAX_BLOCKS \<and> \<not> frame_used p i \<and> (\<forall>j < i. frame_used p j) \<and>
      pmm_alloc_block p = (frame_addr i, ?p') \<and> unat (frame_addr i) = PAGE_SIZE * i \<and>
      pmm_inv ?p' \<and> (\<forall>j. frame_used ?p' j \<longleftrightarrow> frame_used p j \<or> j = i) \<and>
      used_blocks ?p' = used_blocks p + 1 \<and> pmm_free_block (frame_addr i) ?p' = p"
    using i inv' used' pmm_alloc_Some [OF assms Some] unat_frame_addr [OF i(1)] p'
    by (simp add: PAGE_SIZE_def)
  with i show ?thesis by auto
qed

text \<open>A state for the witnesses: everything used but the lowest byte's upper four frames.\<close>

definition pmm_full :: pmm where
  "pmm_full = \<lparr>pmm_bitmap = replicate BITMAP_SIZE 0xFF, total_blocks = of_nat MAX_BLOCKS,
     used_blocks = of_nat MAX_BLOCKS\<rparr>"

lemma frame_used_full: "i < MAX_BLOCKS \<Longrightarrow> frame_used pmm_full i"
  using TEST_BIT_replicate_FF [of i BITMAP_SIZE]
  by (simp add: frame_used_def pmm_full_def pmm_consts)

lemma pmm_inv_full: "pmm_inv pmm_full"
proof -
  have "{i. i < MAX_BLOCKS \<and> frame_used pmm_full i} = {..<MAX_BLOCKS}"
    using frame_used_full by auto
  then show ?thesis by (simp add: pmm_inv_def pmm_full_def pmm_consts)
qed

theorem pmm_alloc_lowest_free_witness:
  "pmm_inv (pmm_mark_free 0x5000 pmm_full) \<and>
   fst (pmm_alloc_block (pmm_mark_free 0x5000 pmm_full)) = 0x5000"
proof -
  let ?p = "pmm_mark_free 0x5000 pmm_full"
  have inv: "pmm_inv ?p" by (rule pmm_mark_free_inv [OF pmm_inv_full])
  have b: "unat (block_of 0x5000) = 5" by (simp add: unat_block_of)
  have used: "frame_used ?p j \<longleftrightarrow> frame_used pmm_full j \<and> j \<noteq> 5" for j
    using frame_used_mark_free [OF pmm_inv_full, of "0x5000" j] by (auto simp: b pmm_consts)
  have ex: "\<exists>i < MAX_BLOCKS. \<not> frame_used ?p i"
    by (rule exI [of _ 5]) (simp add: used pmm_consts)
  then obtain i p' where i: "i < MAX_BLOCKS" "\<not> frame_used ?p i" "pmm_alloc_block ?p = (frame_addr i, p')"
    using pmm_alloc_lowest_free [OF inv] by auto
  then have "i = 5" using used [of i] frame_used_full [of i] by auto
  with i inv show ?thesis by (simp add: frame_addr_def PAGE_SIZE_def)
qed

section \<open>Initialisation\<close>

text \<open>\<open>mbi_layout m base phys ts es\<close>: the information structure at physical address
  \<open>phys\<close> is well formed, \<open>ts\<close> are its tags and \<open>es t\<close> the entries of the memory map
  tag \<open>t\<close>; \<open>available_pages\<close> are the pages it declares usable.\<close>

definition mbi_layout :: "mem \<Rightarrow> u64 \<Rightarrow> u64 list \<Rightarrow> (u64 \<Rightarrow> u64 list) \<Rightarrow> bool" where
  "mbi_layout m phys ts es \<longleftrightarrow>
     tag_chain m (P2V phys + ucast (ld32 m (P2V phys))) (P2V phys + 8) ts \<and>
     (\<forall>t \<in> set ts. tag_type (read_tag m t) = 6 \<longrightarrow>
        entry_chain m t (mmap_entries t) (es t) \<and> (\<forall>e \<in> set (es t). region_ok (read_mmap_entry m e)))"

definition available_pages :: "mem \<Rightarrow> u64 list \<Rightarrow> (u64 \<Rightarrow> u64 list) \<Rightarrow> u64 list" where
  "available_pages m ts es =
     concat (map (\<lambda>t. if tag_type (read_tag m t) = 6 then concat (map (entry_pages m) (es t)) else []) ts)"

lemma walk_tags_pages:
  assumes "mbi_layout m phys ts es"
  shows "walk_tags (\<lambda>t q. if tag_type (read_tag m t) = 6 then walk_available (\<lambda>a q. Some (f a q)) m t q else Some q)
           m (P2V phys + 8) (P2V phys + ucast (ld32 m (P2V phys))) s
         = Some (fold f (available_pages m ts es) s)"
proof -
  let ?g = "\<lambda>t. if tag_type (read_tag m t) = 6 then concat (map (entry_pages m) (es t)) else []"
  have "fold_opt (\<lambda>t q. if tag_type (read_tag m t) = 6 then walk_available (\<lambda>a q. Some (f a q)) m t q else Some q) ts s
      = fold_opt (\<lambda>t. fold_opt (\<lambda>a q. Some (f a q)) (?g t)) ts s"
    using assms by (intro fold_opt_cong) (auto simp: mbi_layout_def walk_available_pages)
  moreover have "tag_chain m (P2V phys + ucast (ld32 m (P2V phys))) (P2V phys + 8) ts"
    using assms by (simp only: mbi_layout_def)
  ultimately show ?thesis
    by (simp only: walk_tags_fold fold_opt_concat fold_opt_total available_pages_def)
qed

lemma for_pages_total:
  "unat lim + 4096 \<le> 2 ^ 64 \<Longrightarrow> for_pages (\<lambda>a q. Some (f a q)) a lim s = Some (fold f (page_range a lim) s)"
  by (simp add: for_pages_fold fold_opt_total)

definition frames_of :: "u64 list \<Rightarrow> nat set" where
  "frames_of as = {b. b < MAX_BLOCKS \<and> (\<exists>a \<in> set as. unat (block_of a) = b)}"

lemma fold_mark_used:
  "pmm_inv p \<Longrightarrow> pmm_inv (fold pmm_mark_used as p) \<and>
    (frame_used (fold pmm_mark_used as p) i \<longleftrightarrow> frame_used p i \<or> i \<in> frames_of as)"
proof (induction as arbitrary: p)
  case (Cons a as)
  show ?case
    using Cons.IH [OF pmm_mark_used_inv [OF Cons.prems, of a]] frame_used_mark_used [OF Cons.prems, of a i]
    by (auto simp: frames_of_def)
qed (simp add: frames_of_def)

lemma fold_mark_free:
  "pmm_inv p \<Longrightarrow> pmm_inv (fold pmm_mark_free as p) \<and>
    (frame_used (fold pmm_mark_free as p) i \<longleftrightarrow> frame_used p i \<and> i \<notin> frames_of as)"
proof (induction as arbitrary: p)
  case (Cons a as)
  show ?case
    using Cons.IH [OF pmm_mark_free_inv [OF Cons.prems, of a]] frame_used_mark_free [OF Cons.prems, of a i]
    by (auto simp: frames_of_def)
qed (simp add: frames_of_def)

lemma fold_init_free:
  "fold pmm_init_free as p = fold pmm_mark_free (filter (\<lambda>a. a < of_nat (MAX_BLOCKS * PAGE_SIZE)) as) p"
  by (induction as arbitrary: p) (simp_all add: pmm_init_free_def)

lemma pmm_inv_reset:
  "total_blocks p = of_nat MAX_BLOCKS \<Longrightarrow>
    pmm_inv (p\<lparr>pmm_bitmap := replicate BITMAP_SIZE 0xFF, used_blocks := total_blocks p\<rparr>)"
  using pmm_inv_full by (simp add: pmm_inv_def pmm_full_def frame_used_def)

lemma pmm_init_eq:
  assumes "mbi_layout m phys ts es" and "unat (V2P kend) + 4096 \<le> 2 ^ 64"
  shows "pmm_init m kstart kend phys p0 =
    Some (pmm_mark_used phys
      (fold pmm_mark_used (page_range 0 0x100000)
        (fold pmm_mark_used (page_range (V2P kstart) (V2P kend))
          (fold pmm_init_free (available_pages m ts es)
            (p0\<lparr>pmm_bitmap := replicate BITMAP_SIZE 0xFF, used_blocks := total_blocks p0\<rparr>)))))"
proof -
  have tag: "pmm_init_tag m = (\<lambda>t q. if tag_type (read_tag m t) = 6
      then walk_available (\<lambda>a q. Some (pmm_init_free a q)) m t q else Some q)"
    by (simp add: fun_eq_iff pmm_init_tag_def)
  have low: "for_pages (\<lambda>a q. Some (pmm_mark_used a q)) 0 0x100000 q =
      Some (fold pmm_mark_used (page_range 0 0x100000) q)" for q
    by (rule for_pages_total) simp
  show ?thesis
    unfolding pmm_init_def tag Let_def walk_tags_pages [OF assms(1)]
    by (simp only: for_pages_total [OF assms(2)] low Option.bind.simps)
qed

lemma low_memory_frames: "b \<in> frames_of (page_range 0 0x100000) \<longleftrightarrow> b < 256"
proof
  assume "b \<in> frames_of (page_range 0 0x100000)"
  then obtain a where a: "a \<in> set (page_range 0 0x100000)" "unat (block_of a) = b"
    by (auto simp: frames_of_def)
  then have "unat a < 0x100000" by (subst (asm) page_range_mem) auto
  with a(2) show "b < 256" by (auto simp: unat_block_of)
next
  assume b: "b < 256"
  then have u: "unat (frame_addr b) = 4096 * b" by (simp add: unat_frame_addr pmm_consts)
  then have "frame_addr b \<in> set (page_range 0 0x100000)"
    using b by (subst page_range_mem) auto
  moreover have "unat (block_of (frame_addr b)) = b"
    using b by (simp add: unat_block_frame_addr pmm_consts)
  ultimately show "b \<in> frames_of (page_range 0 0x100000)"
    using b unfolding frames_of_def by (auto simp: pmm_consts)
qed

lemma pmm_init_result:
  assumes "mbi_layout m phys ts es" and "unat (V2P kend) + 4096 \<le> 2 ^ 64"
    and "total_blocks p0 = of_nat MAX_BLOCKS"
  shows "\<exists>p. pmm_init m kstart kend phys p0 = Some p \<and> pmm_inv p \<and>
    (\<forall>b < MAX_BLOCKS. \<not> frame_used p b \<longleftrightarrow>
       b \<in> frames_of (filter (\<lambda>a. unat a < MAX_BLOCKS * PAGE_SIZE) (available_pages m ts es)) \<and>
       b \<notin> frames_of (page_range (V2P kstart) (V2P kend)) \<and> 256 \<le> b \<and> b \<noteq> unat (block_of phys))"
proof -
  let ?p1 = "p0\<lparr>pmm_bitmap := replicate BITMAP_SIZE 0xFF, used_blocks := total_blocks p0\<rparr>"
  let ?free = "filter (\<lambda>a. a < of_nat (MAX_BLOCKS * PAGE_SIZE)) (available_pages m ts es)"
  let ?p2 = "fold pmm_mark_free ?free ?p1"
  let ?p3 = "fold pmm_mark_used (page_range (V2P kstart) (V2P kend)) ?p2"
  let ?p4 = "fold pmm_mark_used (page_range 0 0x100000) ?p3"
  have i1: "pmm_inv ?p1" using assms(3) by (rule pmm_inv_reset)
  note f2 = fold_mark_free [OF i1, of ?free]
  note f3 = fold_mark_used [OF conjunct1 [OF f2], of "page_range (V2P kstart) (V2P kend)"]
  note f4 = fold_mark_used [OF conjunct1 [OF f3], of "page_range 0 0x100000"]
  note f5 = frame_used_mark_used [OF conjunct1 [OF f4], of phys]
  have eq: "pmm_init m kstart kend phys p0 = Some (pmm_mark_used phys ?p4)"
    unfolding pmm_init_eq [OF assms(1,2)] fold_init_free ..
  have inv: "pmm_inv (pmm_mark_used phys ?p4)" using f4 by (blast intro: pmm_mark_used_inv)
  have free: "?free = filter (\<lambda>a. unat a < MAX_BLOCKS * PAGE_SIZE) (available_pages m ts es)"
    by (simp add: word_less_nat_alt pmm_consts)
  have all: "frame_used ?p1 b" if "b < MAX_BLOCKS" for b
    using that TEST_BIT_replicate_FF [of b BITMAP_SIZE] by (simp add: frame_used_def pmm_consts)
  have "\<not> frame_used (pmm_mark_used phys ?p4) b \<longleftrightarrow>
       b \<in> frames_of ?free \<and> b \<notin> frames_of (page_range (V2P kstart) (V2P kend)) \<and> 256 \<le> b \<and>
       b \<noteq> unat (block_of phys)" if "b < MAX_BLOCKS" for b
    unfolding f5 conjunct2 [OF f4] conjunct2 [OF f3] conjunct2 [OF f2] low_memory_frames
    using all [OF that] that by auto
  with eq inv free show ?thesis by metis
qed

text \<open>C4: On a well-formed boot structure the frame allocator's initialisation returns, with its
  counter exact, and a frame is free afterwards exactly when the memory map declares it available,
  and it is neither swept as part of the kernel image, nor in the first megabyte, nor the frame of the boot
  structure itself.\<close>

theorem pmm_init_frames:
  assumes "mbi_layout m phys ts es" and "unat (V2P kend) + 4096 \<le> 2 ^ 64"
    and "total_blocks p0 = of_nat MAX_BLOCKS"
  shows "\<exists>p. pmm_init m kstart kend phys p0 = Some p \<and> pmm_inv p \<and>
    (\<forall>b < MAX_BLOCKS. \<not> frame_used p b \<longleftrightarrow>
       b \<in> frames_of (filter (\<lambda>a. unat a < MAX_BLOCKS * PAGE_SIZE) (available_pages m ts es)) \<and>
       b \<notin> frames_of (page_range (V2P kstart) (V2P kend)) \<and> 256 \<le> b \<and> b \<noteq> unat (block_of phys))"
  using assms by (rule pmm_init_result)

text \<open>A small boot structure for the witnesses: one memory map tag with one available region of
  three pages at 1 MiB, then the end tag.\<close>

definition example_mbi :: mem where
  "example_mbi = stn (\<lambda>_. 0) (P2V 0x9000)
     (le_bytes 4 (56 :: u32) @ le_bytes 4 (0 :: u32) @
      le_bytes 4 (6 :: u32) @ le_bytes 4 (40 :: u32) @ le_bytes 4 (24 :: u32) @ le_bytes 4 (0 :: u32) @
      le_bytes 8 (0x100000 :: u64) @ le_bytes 8 (0x3000 :: u64) @ le_bytes 4 (1 :: u32) @ le_bytes 4 (0 :: u32) @
      le_bytes 4 (0 :: u32) @ le_bytes 4 (8 :: u32))"

lemmas example_eval = example_mbi_def read_tag_def read_mmap_entry_def mmap_entries_def
  mmap_entry_size_def next_tag_def ld32_def ld64_def ldn_def stn_def P2V_def KERNEL_VIRTUAL_BASE_def
  le_bytes_def upt_conv_Cons Let_def

lemma example_mbi_layout: "mbi_layout example_mbi 0x9000 [P2V 0x9008] (\<lambda>_. [P2V 0x9018])"
  by (simp add: mbi_layout_def region_ok_def example_eval)

lemma example_mbi_pages:
  "available_pages example_mbi [P2V 0x9008] (\<lambda>_. [P2V 0x9018]) = [0x100000, 0x101000, 0x102000]"
  by (simp add: available_pages_def entry_pages_def page_range_def page_count_def example_eval)

lemma example_blocks:
  "unat (block_of 0x100000) = 0x100" "unat (block_of 0x101000) = 0x101"
  "unat (block_of 0x102000) = 0x102" "unat (block_of 0x9000) = 9"
  by (simp_all add: unat_block_of)

lemma example_total: "total_blocks pmm_static = of_nat MAX_BLOCKS"
  by (simp add: pmm_static_def)

lemma example_kend: "unat (V2P (P2V 0x101000)) + 4096 \<le> 2 ^ 64"
  by simp

lemma example_kernel_pages: "page_range 0x100000 0x101000 = [0x100000]"
  by (simp add: page_range_def page_count_def)

theorem pmm_init_frames_witness:
  "\<exists>p. pmm_init example_mbi (P2V 0x100000) (P2V 0x101000) 0x9000 pmm_static = Some p \<and>
     frame_used p 0x100 \<and> \<not> frame_used p 0x101"
proof -
  obtain p where p: "pmm_init example_mbi (P2V 0x100000) (P2V 0x101000) 0x9000 pmm_static = Some p"
    and free: "\<forall>b < MAX_BLOCKS. \<not> frame_used p b \<longleftrightarrow>
       b \<in> frames_of [0x100000, 0x101000, 0x102000] \<and>
       b \<notin> frames_of [0x100000] \<and> 256 \<le> b \<and> b \<noteq> unat (block_of 0x9000)"
    using pmm_init_frames [OF example_mbi_layout example_kend example_total, of "P2V 0x100000"]
    unfolding example_mbi_pages V2P_P2V example_kernel_pages by (auto simp: pmm_consts)
  have "frame_used p 0x100" "\<not> frame_used p 0x101"
    using free [rule_format, of "0x100"] free [rule_format, of "0x101"]
    by (simp_all add: frames_of_def example_blocks pmm_consts)
  with p show ?thesis by blast
qed

end
