(* ===== verification/Mbi.thy ===== *)
theory Mbi
  imports Pmm
begin

text \<open>
  Parsing of the boot information structure, \<^verbatim>\<open>kernel/mbi.c\<close>. \<^verbatim>\<open>mbi_parse\<close> frees every
  page of every available region once more and records the framebuffer; it runs right after
  \<^verbatim>\<open>pmm_init\<close> in \<^verbatim>\<open>start_kernel\<close>.
\<close>

section \<open>The parser\<close>

record boot_state =
  b_pmm :: pmm
  b_fb :: framebuffer_info

definition boot_mark_free :: "u64 \<Rightarrow> boot_state \<Rightarrow> boot_state" where
  "boot_mark_free a s = s\<lparr>b_pmm := pmm_mark_free a (b_pmm s)\<rparr>"

definition mbi_parse_tag :: "mem \<Rightarrow> u64 \<Rightarrow> boot_state \<Rightarrow> boot_state option" where
  "mbi_parse_tag m tag s =
     (if tag_type (read_tag m tag) = 6
      then walk_available (\<lambda>a q. Some (boot_mark_free a q)) m tag s
      else if tag_type (read_tag m tag) = 8
      then Some (s\<lparr>b_fb := read_framebuffer m tag\<rparr>)
      else Some s)"

definition mbi_parse :: "mem \<Rightarrow> u32 \<Rightarrow> boot_state \<Rightarrow> boot_state option" where
  "mbi_parse m phys_addr s =
     (let mbi_base_virt = P2V (ucast phys_addr);
          total_size = ld32 m mbi_base_virt;
          mbi_end_virt = mbi_base_virt + ucast total_size
      in walk_tags (mbi_parse_tag m) m (mbi_base_virt + 8) mbi_end_virt s)"

section \<open>What it computes\<close>

definition fb_of_tags :: "mem \<Rightarrow> u64 list \<Rightarrow> framebuffer_info \<Rightarrow> framebuffer_info" where
  "fb_of_tags m ts f = fold (\<lambda>t g. if tag_type (read_tag m t) = 8 then read_framebuffer m t else g) ts f"

lemma fold_boot_mark_free:
  "fold boot_mark_free as s = s\<lparr>b_pmm := fold pmm_mark_free as (b_pmm s)\<rparr>"
  by (induction as arbitrary: s) (simp_all add: boot_mark_free_def)

lemma mbi_parse_tags:
  assumes "\<forall>t \<in> set ts. tag_type (read_tag m t) = 6 \<longrightarrow>
        entry_chain m t (mmap_entries t) (es t) \<and> (\<forall>e \<in> set (es t). region_ok (read_mmap_entry m e))"
  shows "fold_opt (mbi_parse_tag m) ts s =
    Some \<lparr>b_pmm = fold pmm_mark_free (available_pages m ts es) (b_pmm s), b_fb = fb_of_tags m ts (b_fb s)\<rparr>"
  using assms
proof (induction ts arbitrary: s)
  case Nil
  then show ?case by (simp add: available_pages_def fb_of_tags_def)
next
  case (Cons t ts)
  have step: "mbi_parse_tag m t s = Some (if tag_type (read_tag m t) = 6
      then s\<lparr>b_pmm := fold pmm_mark_free (concat (map (entry_pages m) (es t))) (b_pmm s)\<rparr>
      else if tag_type (read_tag m t) = 8 then s\<lparr>b_fb := read_framebuffer m t\<rparr> else s)"
    using Cons.prems
    by (auto simp: mbi_parse_tag_def walk_available_pages fold_opt_total fold_boot_mark_free)
  show ?case
    using Cons.IH Cons.prems by (simp add: step available_pages_def fb_of_tags_def)
qed

lemma mbi_parse_eq:
  assumes "mbi_layout m (ucast phys) ts es"
  shows "mbi_parse m phys s =
    Some \<lparr>b_pmm = fold pmm_mark_free (available_pages m ts es) (b_pmm s), b_fb = fb_of_tags m ts (b_fb s)\<rparr>"
proof -
  have "tag_chain m (P2V (ucast phys) + ucast (ld32 m (P2V (ucast phys)))) (P2V (ucast phys) + 8) ts"
    using assms by (simp only: mbi_layout_def)
  then have "mbi_parse m phys s = fold_opt (mbi_parse_tag m) ts s"
    unfolding mbi_parse_def Let_def by (rule walk_tags_fold)
  also have "\<dots> = Some \<lparr>b_pmm = fold pmm_mark_free (available_pages m ts es) (b_pmm s),
      b_fb = fb_of_tags m ts (b_fb s)\<rparr>"
    by (rule mbi_parse_tags) (rule conjunct2 [OF assms [unfolded mbi_layout_def]])
  finally show ?thesis .
qed

lemma frames_of_filter: "frames_of (filter P as) \<subseteq> frames_of as"
  by (auto simp: frames_of_def)

lemma mbi_parse_result:
  assumes "mbi_layout m (ucast phys) ts es" and "unat (V2P kend) + 4096 \<le> 2 ^ 64"
    and "total_blocks p0 = of_nat MAX_BLOCKS"
    and "pmm_init m kstart kend (ucast phys) p0 = Some p"
  shows "\<exists>s. mbi_parse m phys \<lparr>b_pmm = p, b_fb = f\<rparr> = Some s \<and> pmm_inv (b_pmm s) \<and>
    b_fb s = fb_of_tags m ts f \<and>
    (\<forall>b < MAX_BLOCKS. \<not> frame_used (b_pmm s) b \<longleftrightarrow> b \<in> frames_of (available_pages m ts es))"
proof -
  let ?s = "\<lparr>b_pmm = fold pmm_mark_free (available_pages m ts es) p, b_fb = fb_of_tags m ts f\<rparr>"
  obtain inv: "pmm_inv p"
    and free: "\<forall>b < MAX_BLOCKS. \<not> frame_used p b \<longrightarrow>
       b \<in> frames_of (filter (\<lambda>a. unat a < MAX_BLOCKS * PAGE_SIZE) (available_pages m ts es))"
    using pmm_init_result [OF assms(1,2,3), of kstart] assms(4) by auto
  have "mbi_parse m phys \<lparr>b_pmm = p, b_fb = f\<rparr> = Some ?s"
    using mbi_parse_eq [OF assms(1)] by simp
  moreover have "\<not> frame_used (b_pmm ?s) b \<longleftrightarrow> b \<in> frames_of (available_pages m ts es)"
    if "b < MAX_BLOCKS" for b
    using fold_mark_free [OF inv, of "available_pages m ts es" b] free that frames_of_filter by auto
  moreover have "pmm_inv (b_pmm ?s)" using fold_mark_free [OF inv] by simp
  ultimately show ?thesis by (metis boot_state.select_convs(2))
qed

text \<open>On a well-formed boot structure \<open>mbi_parse\<close> returns and, run after
  \<open>pmm_init\<close> as the boot code does, leaves exactly the frames the memory map declares
  available free: every reservation \<open>pmm_init\<close> made inside an available region (kernel image,
  first megabyte, boot structure) is undone. The framebuffer is that of the last framebuffer
  tag.\<close>

theorem mbi_parse_undoes_reservations:
  assumes "mbi_layout m (ucast phys) ts es" and "unat (V2P kend) + 4096 \<le> 2 ^ 64"
    and "total_blocks p0 = of_nat MAX_BLOCKS"
    and "pmm_init m kstart kend (ucast phys) p0 = Some p"
  shows "\<exists>s. mbi_parse m phys \<lparr>b_pmm = p, b_fb = f\<rparr> = Some s \<and> pmm_inv (b_pmm s) \<and>
    b_fb s = fb_of_tags m ts f \<and>
    (\<forall>b < MAX_BLOCKS. \<not> frame_used (b_pmm s) b \<longleftrightarrow> b \<in> frames_of (available_pages m ts es))"
  using assms by (rule mbi_parse_result)

theorem mbi_parse_undoes_reservations_witness:
  "\<exists>p s. pmm_init example_mbi (P2V 0x100000) (P2V 0x101000) 0x9000 pmm_static = Some p \<and>
     frame_used p 0x100 \<and>
     mbi_parse example_mbi 0x9000 \<lparr>b_pmm = p, b_fb = \<lparr>fb_addr = 0, fb_pitch = 0, fb_width = 0,
        fb_height = 0, fb_bpp = 0\<rparr>\<rparr> = Some s \<and> \<not> frame_used (b_pmm s) 0x100"
proof -
  let ?f = "\<lparr>fb_addr = 0, fb_pitch = 0, fb_width = 0, fb_height = 0, fb_bpp = 0\<rparr>"
  have lay: "mbi_layout example_mbi (ucast (0x9000 :: u32)) [P2V 0x9008] (\<lambda>_. [P2V 0x9018])"
    using example_mbi_layout by simp
  have u: "ucast (0x9000 :: u32) = (0x9000 :: u64)" by simp
  obtain p where p: "pmm_init example_mbi (P2V 0x100000) (P2V 0x101000) 0x9000 pmm_static = Some p"
    and free: "\<forall>b < MAX_BLOCKS. \<not> frame_used p b \<longrightarrow> b \<notin> frames_of [0x100000]"
    using pmm_init_result [OF example_mbi_layout example_kend example_total, of "P2V 0x100000"]
    unfolding V2P_P2V example_kernel_pages by blast
  have "frame_used p 0x100"
    using free [rule_format, of "0x100"] by (auto simp: frames_of_def example_blocks pmm_consts)
  moreover obtain s where "mbi_parse example_mbi 0x9000 \<lparr>b_pmm = p, b_fb = ?f\<rparr> = Some s"
    and "\<forall>b < MAX_BLOCKS. \<not> frame_used (b_pmm s) b \<longleftrightarrow> b \<in> frames_of [0x100000, 0x101000, 0x102000]"
    using mbi_parse_undoes_reservations [OF lay example_kend example_total p [folded u], of ?f]
    unfolding example_mbi_pages by blast
  ultimately show ?thesis
    using p by (auto simp: frames_of_def example_blocks pmm_consts)
qed

end
