(* ===== verification/Paging.thy ===== *)
theory Paging
  imports Mbi
begin

text \<open>
  Page tables, \<^verbatim>\<open>kernel/mem/paging.c\<close>. The tables live in memory at \<open>P2V\<close> of the frames
  the frame allocator hands out; \<open>map_page\<close> walks three levels, creating missing tables, and
  writes the leaf entry. \<open>translate\<close> reads the same tables the way the processor does and is
  the abstract view: a mapping adds one translation and keeps all others. The TLB
  (\<^verbatim>\<open>invlpg\<close>, \<^verbatim>\<open>cr3\<close>) is not modelled.
\<close>

section \<open>State\<close>

record mm =
  mm_mem :: mem
  mm_pmm :: pmm
  kernel_pml4 :: u64
  heap_start :: u64

definition PAGE_PRESENT :: u64 where
  "PAGE_PRESENT = 1"

definition PAGE_WRITE :: u64 where
  "PAGE_WRITE = 2"

definition PAGE_USER :: u64 where
  "PAGE_USER = 4"

section \<open>Frames for page tables\<close>

text \<open>\<^verbatim>\<open>while (addr <= phys_kernel_end) addr = pmm_alloc_block();\<close> When no frame is left
  the allocator returns NULL for ever and the loop does not end.\<close>

partial_function (option) safe_alloc_loop :: "u64 \<Rightarrow> u64 \<Rightarrow> pmm \<Rightarrow> (u64 \<times> pmm) option" where
  "safe_alloc_loop phys_kernel_end addr p =
     (if addr \<le> phys_kernel_end
      then safe_alloc_loop phys_kernel_end (fst (pmm_alloc_block p)) (snd (pmm_alloc_block p))
      else Some (addr, p))"

definition safe_pmm_alloc :: "u64 \<Rightarrow> pmm \<Rightarrow> (u64 \<times> pmm) option" where
  "safe_pmm_alloc kernel_end p =
     safe_alloc_loop (V2P kernel_end) (fst (pmm_alloc_block p)) (snd (pmm_alloc_block p))"

section \<open>Mapping one page\<close>

definition page_indices :: "u64 \<Rightarrow> u64 list" where
  "page_indices virt = [drop_bit 39 virt AND 0x1FF, drop_bit 30 virt AND 0x1FF, drop_bit 21 virt AND 0x1FF]"

definition pt_index :: "u64 \<Rightarrow> u64" where
  "pt_index virt = drop_bit 12 virt AND 0x1FF"

text \<open>\<^verbatim>\<open>for (j = 0; j < 512; j++) t[j] = 0;\<close>\<close>

definition clear_table :: "u64 \<Rightarrow> mem \<Rightarrow> mem" where
  "clear_table t m = fold (\<lambda>j m'. st64 m' (t + 8 * of_nat j) 0) [0..<512] m"

fun map_walk :: "u64 \<Rightarrow> u64 list \<Rightarrow> u64 \<Rightarrow> mem \<times> pmm \<Rightarrow> (u64 \<times> mem \<times> pmm) option" where
  "map_walk kernel_end [] current (m, p) = Some (current, m, p)"
| "map_walk kernel_end (i # is) current (m, p) =
     (if ld64 m (current + 8 * i) AND PAGE_PRESENT = 0
      then (case safe_pmm_alloc kernel_end p of
              None \<Rightarrow> None
            | Some (new_phys, p') \<Rightarrow>
                (let new_virt = P2V new_phys;
                     m1 = clear_table new_virt m;
                     m2 = st64 m1 (current + 8 * i) (new_phys OR PAGE_PRESENT OR PAGE_WRITE)
                 in map_walk kernel_end is new_virt (m2, p')))
      else map_walk kernel_end is (P2V (ld64 m (current + 8 * i) AND NOT 0xFFF)) (m, p))"

definition map_page :: "u64 \<Rightarrow> u64 \<Rightarrow> u64 \<Rightarrow> u64 \<Rightarrow> mm \<Rightarrow> mm option" where
  "map_page kernel_end virt phys flags s =
     (case map_walk kernel_end (page_indices virt) (kernel_pml4 s) (mm_mem s, mm_pmm s) of
        None \<Rightarrow> None
      | Some (current, m, p) \<Rightarrow>
          Some (s\<lparr>mm_mem := st64 m (current + 8 * pt_index virt)
                              ((phys AND NOT 0xFFF) OR flags OR PAGE_PRESENT),
                  mm_pmm := p\<rparr>))"

text \<open>The whole initialisation: the kernel's 512 MiB window, the identity map of the first
  16 MiB, and the framebuffer at both places. \<open>fb.pitch * fb.height\<close> is a 32-bit product.\<close>

definition fb_map_size :: "framebuffer_info \<Rightarrow> u64" where
  "fb_map_size f =
     (let sz = ucast (fb_pitch f * fb_height f) :: u64
      in if sz mod 4096 \<noteq> 0 then sz + (4096 - sz mod 4096) else sz)"

definition paging_init :: "u64 \<Rightarrow> framebuffer_info \<Rightarrow> mm \<Rightarrow> mm option" where
  "paging_init kernel_end f s =
     do { (phys_pml4, p) \<leftarrow> safe_pmm_alloc kernel_end (mm_pmm s);
          let s1 = s\<lparr>mm_pmm := p, kernel_pml4 := P2V phys_pml4,
                     mm_mem := clear_table (P2V phys_pml4) (mm_mem s)\<rparr>;
          s2 \<leftarrow> for_pages (\<lambda>p. map_page kernel_end (KERNEL_VIRTUAL_BASE + p) p PAGE_WRITE) 0 0x20000000 s1;
          s3 \<leftarrow> for_pages (\<lambda>i. map_page kernel_end i i PAGE_WRITE) 0 0x1000000 s2;
          if fb_addr f \<noteq> 0
          then for_pages (\<lambda>i q.
                 do { q' \<leftarrow> map_page kernel_end (fb_addr f + i) (fb_addr f + i) PAGE_WRITE q;
                      map_page kernel_end (KERNEL_VIRTUAL_BASE + (fb_addr f + i)) (fb_addr f + i) PAGE_WRITE q' })
                 0 (fb_map_size f) s3
          else Some s3 }"

section \<open>The frame source\<close>

text \<open>What the paging code relies on of the frame allocator: it hands out the lowest free
  frame. \<open>take_below\<close> is the consequence its loop needs.\<close>

locale frame_source =
  fixes alloc :: "'p \<Rightarrow> u64 \<times> 'p"
    and used :: "'p \<Rightarrow> nat \<Rightarrow> bool"
    and ok :: "'p \<Rightarrow> bool"
  assumes alloc_first: "ok p \<Longrightarrow> i < MAX_BLOCKS \<Longrightarrow> \<not> used p i \<Longrightarrow> \<forall>j < i. used p j \<Longrightarrow>
      \<exists>p'. alloc p = (frame_addr i, p') \<and> ok p' \<and> (\<forall>j. used p' j \<longleftrightarrow> used p j \<or> j = i)"
    and alloc_none: "ok p \<Longrightarrow> \<forall>j < MAX_BLOCKS. used p j \<Longrightarrow> alloc p = (0, p)"
begin

lemma least_free:
  assumes "\<not> used p b"
  shows "\<exists>i \<le> b. \<not> used p i \<and> (\<forall>j < i. used p j)"
  using assms ex_least_nat_le [of "\<lambda>i. \<not> used p i" b] by blast

lemma take_below:
  assumes "ok p" and "b < MAX_BLOCKS" and "\<not> used p b"
  shows "\<exists>i p'. i \<le> b \<and> \<not> used p i \<and> (\<forall>j < i. used p j) \<and> alloc p = (frame_addr i, p') \<and> ok p' \<and>
    (\<forall>j. used p' j \<longleftrightarrow> used p j \<or> j = i)"
proof -
  obtain i where i: "i \<le> b" "\<not> used p i" "\<forall>j < i. used p j"
    using least_free [OF assms(3)] by blast
  then show ?thesis using alloc_first [OF assms(1) _ i(2,3)] assms(2) by auto
qed

lemma alloc_ok: "ok p \<Longrightarrow> ok (snd (alloc p))"
  using take_below [of p] alloc_none [of p] by (metis snd_conv)

lemma alloc_used_mono: "ok p \<Longrightarrow> used p j \<Longrightarrow> used (snd (alloc p)) j"
  using take_below [of p] alloc_none [of p] by (metis snd_conv)

lemma alloc_only_free:
  assumes "ok p" and "fst (alloc p) \<noteq> 0"
  shows "\<exists>i < MAX_BLOCKS. fst (alloc p) = frame_addr i \<and> \<not> used p i"
proof -
  obtain b where "b < MAX_BLOCKS" "\<not> used p b"
    using alloc_none [OF assms(1)] assms(2) by force
  then show ?thesis using take_below [OF assms(1)] by force
qed

end

interpretation frames: frame_source pmm_alloc_block frame_used pmm_inv
proof unfold_locales
  fix p i
  assume inv: "pmm_inv p" and i: "i < MAX_BLOCKS" "\<not> frame_used p i" "\<forall>j < i. frame_used p j"
  then have "find_clear (pmm_bitmap p) 0 MAX_BLOCKS = Some i"
    by (simp add: find_clear_Some frame_used_def)
  with inv i show "\<exists>p'. pmm_alloc_block p = (frame_addr i, p') \<and> pmm_inv p' \<and>
      (\<forall>j. frame_used p' j \<longleftrightarrow> frame_used p j \<or> j = i)"
    by (simp add: pmm_alloc_Some pmm_mark_used_inv frame_used_mark_used unat_block_frame_addr)
next
  fix p
  assume "pmm_inv p" and "\<forall>j < MAX_BLOCKS. frame_used p j"
  then show "pmm_alloc_block p = (0, p)"
    by (intro pmm_alloc_None) (simp_all add: find_clear_None frame_used_def)
qed

section \<open>Allocation above the kernel image\<close>

lemma safe_alloc_finds:
  assumes "pmm_inv p" and "b < MAX_BLOCKS" and "\<not> frame_used p b" and "unat kend < 4096 * b"
    and "\<forall>j < b. \<not> frame_used p j \<longrightarrow> 4096 * j \<le> unat kend"
  shows "\<exists>p'. safe_alloc_loop kend (fst (pmm_alloc_block p)) (snd (pmm_alloc_block p)) = Some (frame_addr b, p') \<and>
    pmm_inv p' \<and> (\<forall>j. frame_used p' j \<longleftrightarrow> frame_used p j \<or> j \<le> b)"
  using assms
proof (induction "card {j. j < b \<and> \<not> frame_used p j}" arbitrary: p rule: less_induct)
  case less
  obtain i p1 where i: "i \<le> b" "\<not> frame_used p i" "\<forall>j < i. frame_used p j"
    and p1: "pmm_alloc_block p = (frame_addr i, p1)" "pmm_inv p1"
    and used1: "\<forall>j. frame_used p1 j \<longleftrightarrow> frame_used p j \<or> j = i"
    using frames.take_below [OF less.prems(1,2,3)] by blast
  have ua: "unat (frame_addr i) = 4096 * i" using i(1) less.prems(2) by (simp add: unat_frame_addr)
  show ?case
  proof (cases "i = b")
    case True
    have "\<not> frame_addr i \<le> kend"
      unfolding word_le_nat_alt ua using True less.prems(4) by simp
    then show ?thesis
      using p1 used1 i(3) True
      by (intro exI [of _ p1]) (auto simp: safe_alloc_loop.simps [of kend "frame_addr b"] le_eq_less_or_eq)
  next
    case False
    then have ib: "i < b" using i(1) by simp
    have le: "frame_addr i \<le> kend"
      unfolding word_le_nat_alt ua using less.prems(5) ib i(2) by simp
    have "{j. j < b \<and> \<not> frame_used p1 j} \<subset> {j. j < b \<and> \<not> frame_used p j}"
      using used1 ib i(2) by auto
    then have "card {j. j < b \<and> \<not> frame_used p1 j} < card {j. j < b \<and> \<not> frame_used p j}"
      by (intro psubset_card_mono) auto
    then obtain p' where p': "safe_alloc_loop kend (fst (pmm_alloc_block p1)) (snd (pmm_alloc_block p1)) =
        Some (frame_addr b, p')" "pmm_inv p'" "\<forall>j. frame_used p' j \<longleftrightarrow> frame_used p1 j \<or> j \<le> b"
      using less.hyps [of p1] p1(2) less.prems used1 ib by auto
    then show ?thesis
      using le p1(1) used1 ib by (auto simp: safe_alloc_loop.simps [of kend "frame_addr i"])
  qed
qed

text \<open>Partial correctness of the loop, for the states from which no suitable frame is left.\<close>

lemma safe_alloc_needs_frame:
  assumes "safe_alloc_loop kend a p = Some r"
  shows "pmm_inv p \<longrightarrow> kend < a \<or> (\<exists>b < MAX_BLOCKS. \<not> frame_used p b \<and> unat kend < 4096 * b)"
proof (rule safe_alloc_loop.raw_induct [where P = "\<lambda>kend a p r. pmm_inv p \<longrightarrow> kend < a \<or>
    (\<exists>b < MAX_BLOCKS. \<not> frame_used p b \<and> unat kend < 4096 * b)", OF _ assms])
  fix f kend a p r
  assume IH: "\<And>kend a p r. f kend a p = Some r \<Longrightarrow> pmm_inv p \<longrightarrow> kend < a \<or>
      (\<exists>b < MAX_BLOCKS. \<not> frame_used p b \<and> unat kend < 4096 * b)"
    and eq: "(if a \<le> kend then f kend (fst (pmm_alloc_block p)) (snd (pmm_alloc_block p)) else Some (a, p)) = Some r"
  show "pmm_inv p \<longrightarrow> kend < a \<or> (\<exists>b < MAX_BLOCKS. \<not> frame_used p b \<and> unat kend < 4096 * b)"
  proof (intro impI, cases "a \<le> kend")
    case True
    assume inv: "pmm_inv p"
    let ?a = "fst (pmm_alloc_block p)" and ?p = "snd (pmm_alloc_block p)"
    from True eq IH have "kend < ?a \<or> (\<exists>b < MAX_BLOCKS. \<not> frame_used ?p b \<and> unat kend < 4096 * b)"
      using frames.alloc_ok [OF inv] by simp
    then show "kend < a \<or> (\<exists>b < MAX_BLOCKS. \<not> frame_used p b \<and> unat kend < 4096 * b)"
    proof
      assume k: "kend < ?a"
      then have "?a \<noteq> 0" by auto
      then obtain i where "i < MAX_BLOCKS" "?a = frame_addr i" "\<not> frame_used p i"
        using frames.alloc_only_free [OF inv] by blast
      moreover from this k have "unat kend < 4096 * i"
        by (simp add: word_less_nat_alt unat_frame_addr)
      ultimately show ?thesis by blast
    next
      assume "\<exists>b < MAX_BLOCKS. \<not> frame_used ?p b \<and> unat kend < 4096 * b"
      then show ?thesis using frames.alloc_used_mono [OF inv] by blast
    qed
  qed auto
qed

lemma safe_pmm_alloc_Some:
  assumes "pmm_inv p" and "c < MAX_BLOCKS" and "\<not> frame_used p c" and "unat (V2P kernel_end) < 4096 * c"
  shows "\<exists>b p'. b \<le> c \<and> \<not> frame_used p b \<and> unat (V2P kernel_end) < 4096 * b \<and>
    (\<forall>j < b. frame_used p j \<or> 4096 * j \<le> unat (V2P kernel_end)) \<and>
    safe_pmm_alloc kernel_end p = Some (frame_addr b, p') \<and> pmm_inv p' \<and>
    (\<forall>j. frame_used p' j \<longleftrightarrow> frame_used p j \<or> j \<le> b)"
proof -
  let ?ok = "\<lambda>b. \<not> frame_used p b \<and> unat (V2P kernel_end) < 4096 * b"
  obtain b where b: "b \<le> c" "?ok b" "\<forall>j < b. \<not> ?ok j"
    using ex_least_nat_le [of ?ok c] assms(3,4) by blast
  then have "\<exists>p'. safe_pmm_alloc kernel_end p = Some (frame_addr b, p') \<and>
      pmm_inv p' \<and> (\<forall>j. frame_used p' j \<longleftrightarrow> frame_used p j \<or> j \<le> b)"
    unfolding safe_pmm_alloc_def using assms(2) by (intro safe_alloc_finds [OF assms(1)]) auto
  moreover have "\<forall>j < b. frame_used p j \<or> 4096 * j \<le> unat (V2P kernel_end)" using b(3) by (simp add: not_less)
  ultimately show ?thesis using b(1,2) by blast
qed

lemma safe_pmm_alloc_frame:
  assumes "pmm_inv p" and "safe_pmm_alloc kernel_end p = Some r"
  shows "\<exists>c < MAX_BLOCKS. \<not> frame_used p c \<and> unat (V2P kernel_end) < 4096 * c"
proof -
  have "safe_alloc_loop (V2P kernel_end) 0 p = Some r"
    using assms(2) by (simp add: safe_pmm_alloc_def safe_alloc_loop.simps [of "V2P kernel_end" 0])
  from safe_alloc_needs_frame [OF this] assms(1) show ?thesis by simp
qed

lemma safe_pmm_alloc_result:
  assumes "pmm_inv p" and "safe_pmm_alloc kernel_end p = Some (a, p')"
  shows "\<exists>b < MAX_BLOCKS. a = frame_addr b \<and> \<not> frame_used p b \<and> unat (V2P kernel_end) < 4096 * b \<and>
    pmm_inv p' \<and> (\<forall>j. frame_used p' j \<longleftrightarrow> frame_used p j \<or> j \<le> b)"
proof -
  obtain c where c: "c < MAX_BLOCKS" "\<not> frame_used p c" "unat (V2P kernel_end) < 4096 * c"
    using safe_pmm_alloc_frame [OF assms] by blast
  obtain b p1 where "b \<le> c" "\<not> frame_used p b" "unat (V2P kernel_end) < 4096 * b"
    "safe_pmm_alloc kernel_end p = Some (frame_addr b, p1)" "pmm_inv p1"
    "\<forall>j. frame_used p1 j \<longleftrightarrow> frame_used p j \<or> j \<le> b"
    using safe_pmm_alloc_Some [OF assms(1) c] by blast
  with assms(2) c(1) show ?thesis by (intro exI [of _ b]) simp
qed

text \<open>C5: The page-table allocator returns exactly when a free frame above the kernel image
  exists; it then returns the lowest such frame, and every frame up to it is used afterwards, so the
  reservations lost by the second parse of the memory map hold again. With no such frame left
  the loop never ends.\<close>

theorem safe_pmm_alloc_spec:
  assumes "pmm_inv p"
  shows "if \<exists>b < MAX_BLOCKS. \<not> frame_used p b \<and> unat (V2P kernel_end) < PAGE_SIZE * b
    then \<exists>b p'. b < MAX_BLOCKS \<and> \<not> frame_used p b \<and> unat (V2P kernel_end) < PAGE_SIZE * b \<and>
           (\<forall>j < b. frame_used p j \<or> PAGE_SIZE * j \<le> unat (V2P kernel_end)) \<and>
           safe_pmm_alloc kernel_end p = Some (frame_addr b, p') \<and> pmm_inv p' \<and>
           (\<forall>j. frame_used p' j \<longleftrightarrow> frame_used p j \<or> j \<le> b)
    else safe_pmm_alloc kernel_end p = None"
proof (cases "\<exists>b < MAX_BLOCKS. \<not> frame_used p b \<and> unat (V2P kernel_end) < PAGE_SIZE * b")
  case True
  then obtain c where c: "c < MAX_BLOCKS" "\<not> frame_used p c" "unat (V2P kernel_end) < 4096 * c"
    by (auto simp: PAGE_SIZE_def)
  obtain b p' where "b \<le> c \<and> \<not> frame_used p b \<and> unat (V2P kernel_end) < PAGE_SIZE * b \<and>
      (\<forall>j < b. frame_used p j \<or> PAGE_SIZE * j \<le> unat (V2P kernel_end)) \<and>
      safe_pmm_alloc kernel_end p = Some (frame_addr b, p') \<and> pmm_inv p' \<and>
      (\<forall>j. frame_used p' j \<longleftrightarrow> frame_used p j \<or> j \<le> b)"
    unfolding PAGE_SIZE_def using safe_pmm_alloc_Some [OF assms c] by blast
  with c(1) have "b < MAX_BLOCKS \<and> \<not> frame_used p b \<and> unat (V2P kernel_end) < PAGE_SIZE * b \<and>
      (\<forall>j < b. frame_used p j \<or> PAGE_SIZE * j \<le> unat (V2P kernel_end)) \<and>
      safe_pmm_alloc kernel_end p = Some (frame_addr b, p') \<and> pmm_inv p' \<and>
      (\<forall>j. frame_used p' j \<longleftrightarrow> frame_used p j \<or> j \<le> b)" by simp
  then show ?thesis by (subst if_P [OF True]) blast
next
  case False
  then have "safe_pmm_alloc kernel_end p = None"
    using safe_pmm_alloc_frame [OF assms] by (cases "safe_pmm_alloc kernel_end p") (auto simp: PAGE_SIZE_def)
  then show ?thesis by (subst if_not_P [OF False])
qed

theorem safe_pmm_alloc_spec_witness:
  "pmm_inv (pmm_mark_free 0x300000 (pmm_mark_free 0x5000 pmm_full)) \<and>
   map_option fst (safe_pmm_alloc (P2V 0x200000) (pmm_mark_free 0x300000 (pmm_mark_free 0x5000 pmm_full)))
     = Some 0x300000"
proof -
  let ?p1 = "pmm_mark_free 0x5000 pmm_full"
  let ?p = "pmm_mark_free 0x300000 ?p1"
  have i1: "pmm_inv ?p1" by (rule pmm_mark_free_inv [OF pmm_inv_full])
  then have inv: "pmm_inv ?p" by (rule pmm_mark_free_inv)
  have bl: "unat (block_of 0x5000) = 5" "unat (block_of 0x300000) = 0x300"
    by (simp_all add: unat_block_of)
  have used: "frame_used ?p j \<longleftrightarrow> j \<noteq> 5 \<and> j \<noteq> 0x300" if "j < MAX_BLOCKS" for j
    using frame_used_mark_free [OF i1, of "0x300000" j] frame_used_mark_free [OF pmm_inv_full, of "0x5000" j]
      frame_used_full [OF that] by (auto simp: bl pmm_consts)
  have ex: "\<exists>b < MAX_BLOCKS. \<not> frame_used ?p b \<and> unat (V2P (P2V 0x200000)) < PAGE_SIZE * b"
    by (rule exI [of _ "0x300"]) (simp add: used pmm_consts)
  then obtain b p' where b: "b < MAX_BLOCKS" "\<not> frame_used ?p b" "unat (V2P (P2V 0x200000)) < PAGE_SIZE * b"
    "safe_pmm_alloc (P2V 0x200000) ?p = Some (frame_addr b, p')"
    using safe_pmm_alloc_spec [OF inv, of "P2V 0x200000"] unfolding if_P [OF ex] by blast
  then have "b = 0x300" using used [of b] by (auto simp: PAGE_SIZE_def)
  with b(4) inv show ?thesis by (simp add: frame_addr_def PAGE_SIZE_def)
qed

section \<open>Tables and entries in memory\<close>

abbreviation tbl :: "nat \<Rightarrow> u64" where
  "tbl b \<equiv> P2V (frame_addr b)"

lemma unat_tbl: "b < MAX_BLOCKS \<Longrightarrow> unat (tbl b) = 0xFFFFFFFF80000000 + 4096 * b"
proof -
  assume b: "b < MAX_BLOCKS"
  have "unat (frame_addr b + KERNEL_VIRTUAL_BASE) = unat (frame_addr b) + unat KERNEL_VIRTUAL_BASE"
    using b by (intro unat_plus_small) (simp add: unat_frame_addr KERNEL_VIRTUAL_BASE_def pmm_consts)
  with b show ?thesis by (simp add: P2V_def unat_frame_addr KERNEL_VIRTUAL_BASE_def)
qed

lemma unat_slot:
  assumes "b < MAX_BLOCKS" and "i < (512 :: u64)"
  shows "unat (tbl b + 8 * i) = 0xFFFFFFFF80000000 + 4096 * b + 8 * unat i"
proof -
  have i: "unat i < 512" using assms(2) by (simp add: word_less_nat_alt)
  then have i8: "unat (8 * i) = 8 * unat i" by (simp add: unat_word_ariths)
  have "unat (tbl b) + unat (8 * i) < 2 ^ LENGTH(64)"
    using assms(1) i by (simp add: unat_tbl i8 pmm_consts)
  then show ?thesis using assms(1) by (simp add: unat_plus_small unat_tbl i8)
qed

lemma slot_offsets:
  fixes b c x y :: nat
  shows "4096 * b + 8 * x < 4096 * c + 8 * y \<Longrightarrow> 4096 * b + 8 * x + 8 \<le> 4096 * c + 8 * y"
    and "x < 512 \<Longrightarrow> y < 512 \<Longrightarrow> 4096 * b + 8 * x = 4096 * c + 8 * y \<Longrightarrow> b = c \<and> x = y"
proof -
  have e: "4096 * b + 8 * x = 8 * (512 * b + x)" "4096 * c + 8 * y = 8 * (512 * c + y)" by simp_all
  show "4096 * b + 8 * x < 4096 * c + 8 * y \<Longrightarrow> 4096 * b + 8 * x + 8 \<le> 4096 * c + 8 * y"
  proof (unfold e)
    assume "8 * (512 * b + x) < 8 * (512 * c + y)"
    then have "Suc (512 * b + x) \<le> 512 * c + y" by (simp only: Suc_le_eq mult_less_cancel1)
    then have "8 * Suc (512 * b + x) \<le> 8 * (512 * c + y)" by (rule mult_le_mono2)
    then show "8 * (512 * b + x) + 8 \<le> 8 * (512 * c + y)" by (simp only: mult_Suc_right add.commute)
  qed
  assume xy: "x < 512" "y < 512" and "4096 * b + 8 * x = 4096 * c + 8 * y"
  then have eq: "512 * b + x = 512 * c + y" unfolding e by simp
  have "b = (512 * b + x) div 512" using xy(1) by simp
  also have "\<dots> = c" unfolding eq using xy(2) by simp
  finally show "b = c \<and> x = y" using eq by simp
qed

lemma slot_apart_less:
  assumes "b < MAX_BLOCKS" "c < MAX_BLOCKS" "i < (512 :: u64)" "j < 512"
    and "4096 * b + 8 * unat i < 4096 * c + 8 * unat j"
  shows "apart (tbl b + 8 * i) 8 (tbl c + 8 * j) 8"
proof (rule apart_linear)
  have j: "unat j < 512" using assms(4) by (simp add: word_less_nat_alt)
  show "unat (tbl b + 8 * i) + 8 \<le> unat (tbl c + 8 * j)"
    using slot_offsets(1) [OF assms(5)] assms(1-4) by (simp add: unat_slot)
  show "unat (tbl c + 8 * j) + 8 \<le> 2 ^ 64"
    using assms(2,4) j by (simp add: unat_slot pmm_consts)
qed simp

lemma slot_apart:
  assumes "b < MAX_BLOCKS" "c < MAX_BLOCKS" "i < (512 :: u64)" "j < 512" and "b \<noteq> c \<or> i \<noteq> j"
  shows "apart (tbl b + 8 * i) 8 (tbl c + 8 * j) 8"
proof -
  have ij: "unat i < 512" "unat j < 512" using assms(3,4) by (simp_all add: word_less_nat_alt)
  have "4096 * b + 8 * unat i \<noteq> 4096 * c + 8 * unat j"
    using slot_offsets(2) [OF ij, of b c] assms(5) by (auto simp: unat_eq_iff)
  then consider "4096 * b + 8 * unat i < 4096 * c + 8 * unat j"
    | "4096 * c + 8 * unat j < 4096 * b + 8 * unat i" by linarith
  then show ?thesis
    by cases (auto intro: slot_apart_less apart_sym [OF slot_apart_less] assms)
qed

lemma ld64_st64_slot:
  assumes "b < MAX_BLOCKS" "c < MAX_BLOCKS" "i < (512 :: u64)" "j < 512"
  shows "ld64 (st64 m (tbl b + 8 * i) v) (tbl c + 8 * j)
    = (if b = c \<and> i = j then v else ld64 m (tbl c + 8 * j))"
  using slot_apart [OF assms] by (auto simp: mem_simps)

lemma clear_table_upto:
  assumes "b < MAX_BLOCKS" "c < MAX_BLOCKS" "j < (512 :: u64)" and "n \<le> 512"
  shows "ld64 (fold (\<lambda>k m'. st64 m' (tbl b + 8 * of_nat k) 0) [0..<n] m) (tbl c + 8 * j)
    = (if b = c \<and> unat j < n then 0 else ld64 m (tbl c + 8 * j))"
  using assms(4)
proof (induction n)
  case (Suc n)
  then have n: "of_nat n < (512 :: u64)" by (simp add: word_less_nat_alt)
  have "of_nat n = j \<longleftrightarrow> n = unat j"
    using Suc.prems by (auto simp: word_unat_eq_iff)
  with Suc show ?case
    using ld64_st64_slot [OF assms(1,2) n assms(3)] by (auto simp: less_Suc_eq)
qed simp

lemma ld64_clear_table:
  assumes "b < MAX_BLOCKS" "c < MAX_BLOCKS" "j < (512 :: u64)"
  shows "ld64 (clear_table (tbl b) m) (tbl c + 8 * j) = (if b = c then 0 else ld64 m (tbl c + 8 * j))"
proof -
  have "unat j < 512" using assms(3) by (simp add: word_less_nat_alt)
  then show ?thesis
    using clear_table_upto [OF assms, of 512 m] by (simp add: clear_table_def del: upt_Suc)
qed

lemma table_entry:
  assumes "b < MAX_BLOCKS"
  shows "(frame_addr b OR PAGE_PRESENT OR PAGE_WRITE) AND PAGE_PRESENT \<noteq> 0"
    and "(frame_addr b OR PAGE_PRESENT OR PAGE_WRITE) AND NOT 0xFFF = frame_addr b"
proof -
  have m: "(0xFFF :: u64) = mask 12" by (simp add: mask_eq_exp_minus_1)
  have one: "bit (x AND (1 :: u64)) 0 \<longleftrightarrow> bit x 0" for x by (simp add: bit_simps)
  show "(frame_addr b OR PAGE_PRESENT OR PAGE_WRITE) AND PAGE_PRESENT \<noteq> 0"
    using one [of "frame_addr b OR 1 OR 2"]
    by (metis PAGE_PRESENT_def PAGE_WRITE_def bit_0_eq bit_1_0 bit_or_iff bot_apply bot_bool_def)
  have "unat (frame_addr b AND NOT (mask 12)) = unat (frame_addr b)"
    using assms by (subst unat_and_not_mask) (simp add: unat_frame_addr)
  then have f: "frame_addr b AND NOT (mask 12) = frame_addr b" by (simp add: unat_eq_iff)
  have "(PAGE_PRESENT OR PAGE_WRITE) AND NOT (mask 12) = 0"
    by (simp add: PAGE_PRESENT_def PAGE_WRITE_def mask_eq_exp_minus_1)
  then show "(frame_addr b OR PAGE_PRESENT OR PAGE_WRITE) AND NOT 0xFFF = frame_addr b"
    unfolding m by (simp add: bit.conj_disj_distrib2 f)
qed

section \<open>The abstract view\<close>

text \<open>\<open>pt_lookup m root is\<close>: the table reached from \<open>root\<close> through the entries \<open>is\<close>;
  \<open>leaf\<close>: the present entry of the table the path leads to.\<close>

fun pt_lookup :: "mem \<Rightarrow> u64 \<Rightarrow> u64 list \<Rightarrow> u64 option" where
  "pt_lookup m t [] = Some t"
| "pt_lookup m t (i # is) =
     (let e = ld64 m (t + 8 * i)
      in if e AND PAGE_PRESENT = 0 then None else pt_lookup m (P2V (e AND NOT 0xFFF)) is)"

definition leaf :: "mem \<Rightarrow> u64 \<Rightarrow> u64 list \<Rightarrow> u64 \<Rightarrow> u64 option" where
  "leaf m root is j =
     (case pt_lookup m root is of
        None \<Rightarrow> None
      | Some t \<Rightarrow> (let e = ld64 m (t + 8 * j) in if e AND PAGE_PRESENT = 0 then None else Some e))"

definition translate :: "mm \<Rightarrow> u64 \<Rightarrow> u64 option" where
  "translate s va = leaf (mm_mem s) (kernel_pml4 s) (page_indices va) (pt_index va)"

definition path_ok :: "u64 list \<Rightarrow> bool" where
  "path_ok is \<longleftrightarrow> length is \<le> 3 \<and> (\<forall>i \<in> set is. i < 512)"

definition tree_inv :: "mem \<Rightarrow> pmm \<Rightarrow> u64 \<Rightarrow> bool" where
  "tree_inv m p root \<longleftrightarrow> pmm_inv p \<and>
     (\<forall>is t. path_ok is \<and> pt_lookup m root is = Some t \<longrightarrow>
        (\<exists>b < MAX_BLOCKS. t = tbl b \<and> frame_used p b)) \<and>
     (\<forall>is js t. path_ok is \<and> path_ok js \<and> pt_lookup m root is = Some t \<and>
        pt_lookup m root js = Some t \<longrightarrow> is = js)"

definition pt_inv :: "mm \<Rightarrow> bool" where
  "pt_inv s \<longleftrightarrow> tree_inv (mm_mem s) (mm_pmm s) (kernel_pml4 s)"

lemma tree_invD:
  assumes "tree_inv m p root"
  shows "pmm_inv p"
    and "path_ok is \<Longrightarrow> pt_lookup m root is = Some t \<Longrightarrow> \<exists>b < MAX_BLOCKS. t = tbl b \<and> frame_used p b"
    and "path_ok is \<Longrightarrow> path_ok js \<Longrightarrow> pt_lookup m root is = Some t \<Longrightarrow>
      pt_lookup m root js = Some t \<Longrightarrow> is = js"
  using assms unfolding tree_inv_def by blast+

lemma path_ok_snoc: "path_ok (is @ [j]) \<Longrightarrow> path_ok is \<and> j < 512 \<and> length is \<le> 2"
  by (auto simp: path_ok_def)

lemma pt_lookup_append:
  "pt_lookup m t (is @ js) = Option.bind (pt_lookup m t is) (\<lambda>u. pt_lookup m u js)"
  by (induction "is" arbitrary: t) (simp_all add: Let_def)

lemma pt_lookup_snoc:
  "pt_lookup m t (is @ [j]) =
    (case pt_lookup m t is of
       None \<Rightarrow> None
     | Some u \<Rightarrow> if ld64 m (u + 8 * j) AND PAGE_PRESENT = 0 then None
                 else Some (P2V (ld64 m (u + 8 * j) AND NOT 0xFFF)))"
  by (simp add: pt_lookup_append Let_def split: option.splits)

lemma tbl_inj: "b < MAX_BLOCKS \<Longrightarrow> c < MAX_BLOCKS \<Longrightarrow> tbl b = tbl c \<longleftrightarrow> b = c"
  using unat_tbl [of b] unat_tbl [of c] by (metis add_left_cancel mult_cancel1 zero_neq_numeral)

section \<open>One new table\<close>

text \<open>Linking a cleared fresh table into an absent entry adds exactly one path.\<close>

definition link_table :: "nat \<Rightarrow> u64 \<Rightarrow> u64 \<Rightarrow> mem \<Rightarrow> mem" where
  "link_table b current i m =
     st64 (clear_table (tbl b) m) (current + 8 * i) (frame_addr b OR PAGE_PRESENT OR PAGE_WRITE)"

lemma ld64_link_table:
  assumes "b < MAX_BLOCKS" "c < MAX_BLOCKS" "d < MAX_BLOCKS" "i < (512 :: u64)" "j < 512" "c \<noteq> b"
  shows "ld64 (link_table b (tbl c) i m) (tbl d + 8 * j) =
    (if d = c \<and> j = i then frame_addr b OR PAGE_PRESENT OR PAGE_WRITE
     else if d = b then 0 else ld64 m (tbl d + 8 * j))"
  using assms by (auto simp: link_table_def ld64_st64_slot ld64_clear_table)

lemma link_table_lookup:
  assumes inv: "tree_inv m p root" and ps: "pt_lookup m root ps = Some current" "path_ok (ps @ [i])"
    and absent: "ld64 m (current + 8 * i) AND PAGE_PRESENT = 0"
    and b: "b < MAX_BLOCKS" "\<not> frame_used p b"
  shows "path_ok qs \<Longrightarrow> pt_lookup (link_table b current i m) root qs =
    (if qs = ps @ [i] then Some (tbl b) else pt_lookup m root qs)"
proof (induction qs rule: rev_induct)
  case Nil
  then show ?case by simp
next
  case (snoc j qs)
  note pok = path_ok_snoc [OF ps(2)] and qok = path_ok_snoc [OF snoc.prems]
  obtain c where c: "c < MAX_BLOCKS" "current = tbl c" "frame_used p c"
    using tree_invD(2) [OF inv] ps(1) pok by blast
  have cb: "c \<noteq> b" using c(3) b(2) by auto
  have i: "i < 512" using pok by simp
  have none: "pt_lookup m root (ps @ [i]) = None"
    using ps(1) absent by (simp add: pt_lookup_snoc)
  show ?case
  proof (cases "qs = ps @ [i]")
    case True
    then have new: "pt_lookup (link_table b current i m) root qs = Some (tbl b)"
      using snoc.IH qok by simp
    have "pt_lookup m root qs = None" using True none by simp
    then have "pt_lookup m root (qs @ [j]) = None" by (simp add: pt_lookup_snoc)
    moreover have "qs @ [j] \<noteq> ps @ [i]" using True by simp
    moreover have "pt_lookup (link_table b current i m) root (qs @ [j]) = None"
      using new ld64_link_table [OF b(1) c(1) b(1) i, of j m] cb qok
      by (simp add: pt_lookup_snoc c(2))
    ultimately show ?thesis by simp
  next
    case False
    then have old: "pt_lookup (link_table b current i m) root qs = pt_lookup m root qs"
      using snoc.IH qok by simp
    show ?thesis
    proof (cases "pt_lookup m root qs")
      case None
      then have "qs @ [j] \<noteq> ps @ [i]" using ps(1) by auto
      with None old show ?thesis by (simp add: pt_lookup_snoc)
    next
      case (Some u)
      obtain d where d: "d < MAX_BLOCKS" "u = tbl d" "frame_used p d"
        using tree_invD(2) [OF inv _ Some] qok by blast
      have db: "d \<noteq> b" using d(3) b(2) by auto
      have same: "qs @ [j] = ps @ [i] \<longleftrightarrow> d = c \<and> j = i"
        using tree_invD(3) [OF inv _ _ Some, of ps] ps(1) pok qok Some c(2) d(2)
        by (auto simp: tbl_inj [OF c(1) d(1)] tbl_inj [OF d(1) c(1)])
      note ld = ld64_link_table [OF b(1) c(1) d(1) i conjunct1 [OF conjunct2 [OF qok]] cb, of m]
      show ?thesis
      proof (cases "d = c \<and> j = i")
        case True
        then have e: "ld64 (link_table b current i m) (u + 8 * j) = frame_addr b OR PAGE_PRESENT OR PAGE_WRITE"
          using ld by (simp add: c(2) d(2))
        have "pt_lookup (link_table b current i m) root (qs @ [j]) = Some (tbl b)"
          unfolding pt_lookup_snoc old Some option.case e
          using table_entry [OF b(1)] by (simp only: if_False)
        with True same show ?thesis by simp
      next
        case False
        then have e: "ld64 (link_table b current i m) (u + 8 * j) = ld64 m (u + 8 * j)"
          using ld db by (simp only: c(2) d(2) if_False)
        have "pt_lookup (link_table b current i m) root (qs @ [j]) = pt_lookup m root (qs @ [j])"
          unfolding pt_lookup_snoc old Some option.case e ..
        moreover have "qs @ [j] \<noteq> ps @ [i]" using False same by blast
        ultimately show ?thesis by (simp only: if_False)
      qed
    qed
  qed
qed

lemma link_table_inv:
  assumes inv: "tree_inv m p root" and ps: "pt_lookup m root ps = Some current" "path_ok (ps @ [i])"
    and absent: "ld64 m (current + 8 * i) AND PAGE_PRESENT = 0"
    and b: "b < MAX_BLOCKS" "\<not> frame_used p b"
    and p': "pmm_inv p'" "\<forall>j. frame_used p' j \<longleftrightarrow> frame_used p j \<or> j \<le> b"
  shows "tree_inv (link_table b current i m) p' root"
proof -
  note look = link_table_lookup [OF inv ps absent b]
  have fresh: "pt_lookup m root qs \<noteq> Some (tbl b)" if "path_ok qs" for qs
    using tree_invD(2) [OF inv that, of "tbl b"] b by (auto simp: tbl_inj)
  show ?thesis
    unfolding tree_inv_def
  proof (intro conjI allI impI)
    fix qs t assume "path_ok qs \<and> pt_lookup (link_table b current i m) root qs = Some t"
    then show "\<exists>b < MAX_BLOCKS. t = tbl b \<and> frame_used p' b"
      using look [of qs] tree_invD(2) [OF inv, of qs t] b(1) p'(2) by (auto split: if_splits)
  next
    fix qs rs t
    assume a: "path_ok qs \<and> path_ok rs \<and> pt_lookup (link_table b current i m) root qs = Some t \<and>
      pt_lookup (link_table b current i m) root rs = Some t"
    then show "qs = rs"
      using look [of qs] look [of rs] fresh [of qs] fresh [of rs] tree_invD(3) [OF inv, of qs rs t]
      by (auto split: if_splits)
  qed (rule p'(1))
qed

lemma link_table_leaf:
  assumes inv: "tree_inv m p root" and ps: "pt_lookup m root ps = Some current" "path_ok (ps @ [i])"
    and absent: "ld64 m (current + 8 * i) AND PAGE_PRESENT = 0"
    and b: "b < MAX_BLOCKS" "\<not> frame_used p b"
    and qs: "path_ok qs" "length qs = 3" "j < 512"
  shows "leaf (link_table b current i m) root qs j = leaf m root qs j"
proof -
  note look = link_table_lookup [OF inv ps absent b qs(1)] and pok = path_ok_snoc [OF ps(2)]
  obtain c where c: "c < MAX_BLOCKS" "current = tbl c" "frame_used p c"
    using tree_invD(2) [OF inv] ps(1) pok by blast
  have cb: "c \<noteq> b" using c(3) b(2) by auto
  show ?thesis
  proof (cases "qs = ps @ [i]")
    case True
    then have "pt_lookup m root qs = None"
      using ps(1) absent by (simp add: pt_lookup_snoc)
    with True look show ?thesis
      using ld64_link_table [OF b(1) c(1) b(1) _ qs(3), of i m] cb pok
      by (simp add: leaf_def c(2))
  next
    case False
    then have old: "pt_lookup (link_table b current i m) root qs = pt_lookup m root qs"
      using look by simp
    show ?thesis
    proof (cases "pt_lookup m root qs")
      case (Some u)
      obtain d where d: "d < MAX_BLOCKS" "u = tbl d" "frame_used p d"
        using tree_invD(2) [OF inv qs(1) Some] by blast
      have "d \<noteq> b" using d(3) b(2) by auto
      moreover have "d \<noteq> c"
        using tree_invD(3) [OF inv qs(1) _ Some, of ps] ps(1) pok qs(2) c(2) d(2) by auto
      ultimately show ?thesis
        using old Some ld64_link_table [OF b(1) c(1) d(1) _ qs(3), of i m] cb pok
        by (simp add: leaf_def c(2) d(2))
    qed (simp add: leaf_def old)
  qed
qed

section \<open>Mapping a page\<close>

text \<open>The walk keeps the tree and all leaf entries, and ends at the table of its path.\<close>

lemma map_walk_correct:
  assumes "map_walk ke js current (m, p) = Some (t, m', p')"
    and "tree_inv m p root" and "pt_lookup m root ps = Some current" and "path_ok (ps @ js)"
  shows "tree_inv m' p' root \<and> pt_lookup m' root (ps @ js) = Some t \<and>
    (\<forall>qs j. path_ok qs \<and> length qs = 3 \<and> j < 512 \<longrightarrow> leaf m' root qs j = leaf m root qs j)"
  using assms
proof (induction js arbitrary: ps current m p)
  case Nil
  then show ?case by simp
next
  case (Cons i js)
  have pok: "path_ok (ps @ [i])" and pok': "path_ok ((ps @ [i]) @ js)"
    using Cons.prems(4) by (auto simp: path_ok_def)
  show ?case
  proof (cases "ld64 m (current + 8 * i) AND PAGE_PRESENT = 0")
    case absent: True
    note inv = Cons.prems(2)
    obtain new_phys p1 where a: "safe_pmm_alloc ke p = Some (new_phys, p1)"
      using Cons.prems(1) absent by (auto split: option.splits)
    obtain b where b: "b < MAX_BLOCKS" "\<not> frame_used p b" "new_phys = frame_addr b"
      and p1: "pmm_inv p1" "\<forall>j. frame_used p1 j \<longleftrightarrow> frame_used p j \<or> j \<le> b"
      using safe_pmm_alloc_result [OF tree_invD(1) [OF inv] a] by blast
    let ?m1 = "link_table b current i m"
    have walk: "map_walk ke js (tbl b) (?m1, p1) = Some (t, m', p')"
      using Cons.prems(1) absent a b(3) by (simp add: link_table_def Let_def)
    have "pt_lookup ?m1 root (ps @ [i]) = Some (tbl b)"
      using link_table_lookup [OF inv Cons.prems(3) pok absent b(1,2) pok] by simp
    note ih = Cons.IH [OF walk link_table_inv [OF inv Cons.prems(3) pok absent b(1,2) p1] this pok']
    then show ?thesis
      using link_table_leaf [OF inv Cons.prems(3) pok absent b(1,2)] by simp
  next
    case present: False
    let ?u = "P2V (ld64 m (current + 8 * i) AND NOT 0xFFF)"
    have walk: "map_walk ke js ?u (m, p) = Some (t, m', p')"
      using Cons.prems(1) present by simp
    have "pt_lookup m root (ps @ [i]) = Some ?u"
      using Cons.prems(3) present by (simp add: pt_lookup_snoc)
    from Cons.IH [OF walk Cons.prems(2) this pok'] show ?thesis by simp
  qed
qed

text \<open>Writing a leaf entry changes that entry only, and no path.\<close>

lemma leaf_store:
  assumes inv: "tree_inv m p root" and t: "pt_lookup m root ps = Some t" "path_ok ps" "length ps = 3"
    and i: "i < 512" and v: "v AND PAGE_PRESENT \<noteq> 0"
  shows "tree_inv (st64 m (t + 8 * i) v) p root"
    and "path_ok qs \<Longrightarrow> length qs = 3 \<Longrightarrow> j < 512 \<Longrightarrow> leaf (st64 m (t + 8 * i) v) root qs j =
      (if qs = ps \<and> j = i then Some v else leaf m root qs j)"
proof -
  obtain b where b: "b < MAX_BLOCKS" "t = tbl b"
    using tree_invD(2) [OF inv t(2,1)] by blast
  have look: "path_ok qs \<Longrightarrow> pt_lookup (st64 m (t + 8 * i) v) root qs = pt_lookup m root qs" for qs
  proof (induction qs rule: rev_induct)
    case (snoc j qs)
    note qok = path_ok_snoc [OF snoc.prems]
    show ?case
    proof (cases "pt_lookup m root qs")
      case (Some u)
      obtain d where d: "d < MAX_BLOCKS" "u = tbl d"
        using tree_invD(2) [OF inv _ Some] qok by blast
      have "d \<noteq> b"
        using tree_invD(3) [OF inv _ t(2) Some] t(1,3) qok b(2) d(2) by fastforce
      then show ?thesis
        using snoc.IH qok Some ld64_st64_slot [OF b(1) d(1) i, of j m v]
        by (simp add: pt_lookup_snoc b(2) d(2))
    qed (use snoc.IH qok in \<open>simp add: pt_lookup_snoc\<close>)
  qed simp
  show "tree_inv (st64 m (t + 8 * i) v) p root"
    unfolding tree_inv_def
    using look tree_invD [OF inv] by (metis (no_types, lifting))
  assume qs: "path_ok qs" "length qs = 3" "j < 512"
  show "leaf (st64 m (t + 8 * i) v) root qs j = (if qs = ps \<and> j = i then Some v else leaf m root qs j)"
  proof (cases "pt_lookup m root qs")
    case (Some u)
    obtain d where d: "d < MAX_BLOCKS" "u = tbl d"
      using tree_invD(2) [OF inv qs(1) Some] by blast
    have "qs = ps \<longleftrightarrow> d = b"
      using tree_invD(3) [OF inv qs(1) t(2) Some] t(1) Some b(2) d(2) by (auto simp: tbl_inj [OF d(1) b(1)])
    then show ?thesis
      using look [OF qs(1)] Some ld64_st64_slot [OF b(1) d(1) i qs(3), of m v] v
      by (auto simp: leaf_def b(2) d(2))
  next
    case None
    then show ?thesis using look [OF qs(1)] t(1) by (auto simp: leaf_def)
  qed
qed

lemma and_1FF_less: "(x :: u64) AND 0x1FF < 512"
proof -
  have "(0x1FF :: u64) = mask 9" by (simp add: mask_eq_exp_minus_1)
  then have "x AND 0x1FF = take_bit 9 x" by (simp only: take_bit_eq_mask)
  then have "unat (x AND 0x1FF) < 2 ^ 9"
    by (simp only: unsigned_take_bit_eq take_bit_nat_less_exp)
  then show ?thesis by (simp add: word_less_nat_alt)
qed

lemma page_indices_ok: "path_ok (page_indices va)" "length (page_indices va) = 3" "pt_index va < 512"
  by (simp_all add: path_ok_def page_indices_def pt_index_def and_1FF_less)

text \<open>Two addresses have the same indices exactly when they lie in the same page of the
  48-bit address space.\<close>

definition page_no :: "u64 \<Rightarrow> u64" where
  "page_no va = take_bit 36 (drop_bit 12 va)"

lemma and_1FF_eq: "(x :: u64) AND 0x1FF = take_bit 9 x"
proof -
  have "(0x1FF :: u64) = mask 9" by (simp add: mask_eq_exp_minus_1)
  then show ?thesis by (simp only: take_bit_eq_mask)
qed

lemma index_bits:
  "take_bit 9 (drop_bit k va) = take_bit 9 (drop_bit k (vb :: u64)) \<Longrightarrow> i < 9 \<Longrightarrow> bit va (k + i) = bit vb (k + i)"
  by (drule arg_cong [where f = "\<lambda>x. bit x i"]) (simp add: bit_take_bit_iff bit_drop_bit_eq)

lemma same_indices:
  "page_indices va = page_indices vb \<and> pt_index va = pt_index vb \<longleftrightarrow> page_no va = page_no vb"
proof
  assume "page_indices va = page_indices vb \<and> pt_index va = pt_index vb"
  then have eq: "take_bit 9 (drop_bit 12 va) = take_bit 9 (drop_bit 12 vb)"
      "take_bit 9 (drop_bit 21 va) = take_bit 9 (drop_bit 21 vb)"
      "take_bit 9 (drop_bit 30 va) = take_bit 9 (drop_bit 30 vb)"
      "take_bit 9 (drop_bit 39 va) = take_bit 9 (drop_bit 39 vb)"
    by (simp_all add: page_indices_def pt_index_def and_1FF_eq)
  show "page_no va = page_no vb"
  proof (rule bit_word_eqI)
    fix n assume "n < LENGTH(64)"
    have "bit va (12 + n) = bit vb (12 + n)" if "n < 36"
    proof -
      consider "n < 9" | "9 \<le> n" "n < 18" | "18 \<le> n" "n < 27" | "27 \<le> n" using that by linarith
      then show ?thesis
        using that index_bits [OF eq(1), of n] index_bits [OF eq(2), of "n - 9"]
          index_bits [OF eq(3), of "n - 18"] index_bits [OF eq(4), of "n - 27"]
        by cases simp_all
    qed
    then show "bit (page_no va) n \<longleftrightarrow> bit (page_no vb) n"
      by (auto simp: page_no_def bit_simps)
  qed
next
  assume eq: "page_no va = page_no vb"
  have part: "take_bit 9 (drop_bit (12 + k) va) = take_bit 9 (drop_bit (12 + k) vb)" if "k \<le> 27" for k
  proof -
    have "take_bit 9 (drop_bit (12 + k) v) = take_bit 9 (drop_bit k (page_no v))" for v :: u64
      using that by (intro bit_word_eqI) (auto simp: page_no_def bit_simps add.assoc)
    then show ?thesis using eq by simp
  qed
  show "page_indices va = page_indices vb \<and> pt_index va = pt_index vb"
    using part [of 0] part [of 9] part [of 18] part [of 27]
    by (simp add: page_indices_def pt_index_def and_1FF_eq)
qed

section \<open>When mapping returns\<close>

definition free_above :: "u64 \<Rightarrow> pmm \<Rightarrow> nat" where
  "free_above kernel_end p =
     card {b. b < MAX_BLOCKS \<and> \<not> frame_used p b \<and> unat (V2P kernel_end) < 4096 * b}"

lemma safe_pmm_alloc_total:
  assumes "pmm_inv p" and "0 < free_above ke p"
  shows "\<exists>a p'. safe_pmm_alloc ke p = Some (a, p') \<and> pmm_inv p' \<and> free_above ke p \<le> Suc (free_above ke p')"
proof -
  let ?S = "\<lambda>p. {b. b < MAX_BLOCKS \<and> \<not> frame_used p b \<and> unat (V2P ke) < 4096 * b}"
  have "finite (?S q)" for q by simp
  then obtain c where c: "c < MAX_BLOCKS" "\<not> frame_used p c" "unat (V2P ke) < 4096 * c"
    using assms(2) unfolding free_above_def by (metis (mono_tags, lifting) card_gt_0_iff ex_in_conv mem_Collect_eq)
  let ?ok = "\<lambda>b. \<not> frame_used p b \<and> unat (V2P ke) < 4096 * b"
  obtain b where b: "b \<le> c" "?ok b" "\<forall>j < b. \<not> ?ok j"
    using ex_least_nat_le [of ?ok c] c(2,3) by blast
  have bm: "b < MAX_BLOCKS" using b(1) c(1) by simp
  obtain p' where p': "safe_pmm_alloc ke p = Some (frame_addr b, p')" "pmm_inv p'"
    "\<forall>j. frame_used p' j \<longleftrightarrow> frame_used p j \<or> j \<le> b"
    using safe_alloc_finds [OF assms(1) bm, of "V2P ke"] b(2,3) unfolding safe_pmm_alloc_def by force
  have "?S p \<subseteq> insert b (?S p')"
  proof
    fix x assume x: "x \<in> ?S p"
    then have "\<not> x < b" using b(3) by blast
    then have "x = b \<or> b < x" by auto
    with x p'(3) show "x \<in> insert b (?S p')" by auto
  qed
  then have "card (?S p) \<le> card (insert b (?S p'))" by (rule card_mono [rotated]) simp
  also have "\<dots> \<le> Suc (card (?S p'))" by (simp add: card_insert_if)
  finally show ?thesis using p'(1,2) by (simp add: free_above_def)
qed

lemma map_walk_total:
  "pmm_inv p \<Longrightarrow> length js \<le> free_above ke p \<Longrightarrow>
    \<exists>t m' p'. map_walk ke js current (m, p) = Some (t, m', p') \<and> pmm_inv p' \<and>
      free_above ke p \<le> length js + free_above ke p' \<and> (\<forall>j. frame_used p j \<longrightarrow> frame_used p' j)"
proof (induction js arbitrary: current m p)
  case (Cons i js)
  show ?case
  proof (cases "ld64 m (current + 8 * i) AND PAGE_PRESENT = 0")
    case True
    obtain a p' where a: "safe_pmm_alloc ke p = Some (a, p')" "pmm_inv p'" "free_above ke p \<le> Suc (free_above ke p')"
      using safe_pmm_alloc_total [OF Cons.prems(1), of ke] Cons.prems(2) by auto
    have mono: "frame_used p j \<longrightarrow> frame_used p' j" for j
      using safe_pmm_alloc_result [OF Cons.prems(1) a(1)] by auto
    have le: "length js \<le> free_above ke p'" using Cons.prems(2) a(3) by simp
    let ?m = "st64 (clear_table (P2V a) m) (current + 8 * i) (a OR PAGE_PRESENT OR PAGE_WRITE)"
    obtain t m' p'' where r: "map_walk ke js (P2V a) (?m, p') = Some (t, m', p'')" "pmm_inv p''"
      "free_above ke p' \<le> length js + free_above ke p''" "\<forall>j. frame_used p' j \<longrightarrow> frame_used p'' j"
      using Cons.IH [OF a(2) le] by blast
    then show ?thesis using True a(1,3) mono by (simp add: Let_def)
  next
    case False
    then show ?thesis using Cons.IH [OF Cons.prems(1)] Cons.prems(2) by fastforce
  qed
qed simp

lemma map_page_total:
  assumes "pmm_inv (mm_pmm s)" and "3 \<le> free_above ke (mm_pmm s)"
  shows "\<exists>s'. map_page ke virt phys flags s = Some s' \<and>
    free_above ke (mm_pmm s) \<le> 3 + free_above ke (mm_pmm s') \<and>
    (\<forall>j. frame_used (mm_pmm s) j \<longrightarrow> frame_used (mm_pmm s') j)"
  using map_walk_total [OF assms(1), of "page_indices virt" ke "kernel_pml4 s" "mm_mem s"] assms(2)
  by (auto simp: map_page_def page_indices_ok(2))

lemma map_page_correct:
  assumes "pt_inv s" and "map_page kernel_end virt phys flags s = Some s'"
  shows "pt_inv s' \<and> kernel_pml4 s' = kernel_pml4 s \<and> heap_start s' = heap_start s \<and>
    (\<forall>va. translate s' va =
       (if page_no va = page_no virt then Some ((phys AND NOT 0xFFF) OR flags OR PAGE_PRESENT)
        else translate s va))"
proof -
  define v where "v = (phys AND NOT 0xFFF) OR flags OR PAGE_PRESENT"
  obtain t m p where w: "map_walk kernel_end (page_indices virt) (kernel_pml4 s) (mm_mem s, mm_pmm s) = Some (t, m, p)"
    and s': "s' = s\<lparr>mm_mem := st64 m (t + 8 * pt_index virt) v, mm_pmm := p\<rparr>"
    using assms(2) by (auto simp: map_page_def v_def split: option.splits)
  have mw: "tree_inv m p (kernel_pml4 s)" "pt_lookup m (kernel_pml4 s) (page_indices virt) = Some t"
    "path_ok qs \<Longrightarrow> length qs = 3 \<Longrightarrow> j < 512 \<Longrightarrow>
       leaf m (kernel_pml4 s) qs j = leaf (mm_mem s) (kernel_pml4 s) qs j" for qs j
    using map_walk_correct [OF w, of "kernel_pml4 s" "[]"] assms(1) page_indices_ok
    by (auto simp: pt_inv_def)
  have "bit (v AND PAGE_PRESENT) 0" by (simp add: v_def PAGE_PRESENT_def bit_simps)
  then have v: "v AND PAGE_PRESENT \<noteq> 0" by (metis bit_0_eq bot_apply bot_bool_def)
  note store = leaf_store [OF mw(1,2) page_indices_ok(1,2,3) v]
  have "translate s' va = (if page_no va = page_no virt then Some v else translate s va)" for va
    using store(2) [OF page_indices_ok(1) [of va] page_indices_ok(2) page_indices_ok(3) [of va]]
      mw(3) [OF page_indices_ok(1) [of va] page_indices_ok(2) page_indices_ok(3) [of va]]
      same_indices [of va virt]
    by (simp add: s' translate_def)
  with store(1) show ?thesis by (simp add: s' pt_inv_def v_def)
qed

text \<open>C6: Mapping a page keeps the page-table tree well formed and changes the address
  translation at that page only: every address of the page then translates to the given frame
  with the given flags and the present bit, and every other page translates as before, created tables
  included.\<close>

theorem map_page_translation:
  assumes "pt_inv s" and "map_page kernel_end virt phys flags s = Some s'"
  shows "pt_inv s' \<and> kernel_pml4 s' = kernel_pml4 s \<and> heap_start s' = heap_start s \<and>
    (\<forall>va. translate s' va =
       (if page_no va = page_no virt then Some ((phys AND NOT 0xFFF) OR flags OR PAGE_PRESENT)
        else translate s va))"
  by (rule map_page_correct [OF assms])

text \<open>A start state for the witness: an empty root table in frame \<open>0x200\<close>, four free frames.\<close>

definition example_pmm :: pmm where
  "example_pmm = fold pmm_mark_free [0x201000, 0x202000, 0x203000, 0x204000] pmm_full"

definition example_mm :: mm where
  "example_mm = \<lparr>mm_mem = (\<lambda>_. 0), mm_pmm = example_pmm, kernel_pml4 = tbl 0x200, heap_start = 0\<rparr>"

lemma example_pmm_facts:
  "pmm_inv example_pmm"
  "i < MAX_BLOCKS \<Longrightarrow> \<not> frame_used example_pmm i \<longleftrightarrow> i \<in> {0x201, 0x202, 0x203, 0x204}"
proof -
  have "frames_of [0x201000, 0x202000, 0x203000, 0x204000] = {0x201, 0x202, 0x203, 0x204}"
    by (auto simp: frames_of_def unat_block_of pmm_consts)
  then show "pmm_inv example_pmm"
    "i < MAX_BLOCKS \<Longrightarrow> \<not> frame_used example_pmm i \<longleftrightarrow> i \<in> {0x201, 0x202, 0x203, 0x204}"
    unfolding example_pmm_def
    using fold_mark_free [OF pmm_inv_full, of "[0x201000, 0x202000, 0x203000, 0x204000]" i] frame_used_full [of i]
    by auto
qed

lemma example_mm_inv: "pt_inv example_mm"
proof -
  have none: "pt_lookup (\<lambda>_. 0) t (i # is) = None" for t i "is"
    by (simp add: ld64_def ldn_def upt_conv_Cons)
  have "frame_used example_pmm 0x200"
    using example_pmm_facts(2) [of "0x200"] by (simp add: pmm_consts)
  moreover have "pt_lookup (\<lambda>_. 0) t qs = Some u \<longleftrightarrow> qs = [] \<and> t = u" for t qs u
    using none by (cases qs) auto
  ultimately show ?thesis
    by (auto simp: pt_inv_def tree_inv_def example_mm_def example_pmm_facts(1) pmm_consts intro!: exI [of _ "0x200"])
qed

lemma example_free_above: "4 \<le> free_above (P2V 0x100000) example_pmm"
proof -
  have "{0x201, 0x202, 0x203, 0x204} \<subseteq> {b. b < MAX_BLOCKS \<and> \<not> frame_used example_pmm b \<and> unat (V2P (P2V 0x100000)) < 4096 * b}"
    using example_pmm_facts(2) [of "0x204"] example_pmm_facts(2) [of "0x201"] example_pmm_facts(2) [of "0x202"] example_pmm_facts(2) [of "0x203"]
    by (auto simp: pmm_consts)
  then have "card {0x201, 0x202, 0x203, 0x204 :: nat} \<le> free_above (P2V 0x100000) example_pmm"
    unfolding free_above_def by (rule card_mono [rotated]) simp
  then show ?thesis by simp
qed

theorem map_page_translation_witness:
  "\<exists>s'. map_page (P2V 0x100000) 0x400000 0x5000 PAGE_WRITE example_mm = Some s' \<and>
     translate s' 0x400123 = Some 0x5003 \<and> translate s' 0x401000 = translate example_mm 0x401000"
proof -
  have "pmm_inv (mm_pmm example_mm)" "3 \<le> free_above (P2V 0x100000) (mm_pmm example_mm)"
    using example_pmm_facts(1) example_free_above by (simp_all add: example_mm_def)
  then obtain s' where s': "map_page (P2V 0x100000) 0x400000 0x5000 PAGE_WRITE example_mm = Some s'"
    using map_page_total by blast
  have "page_no 0x400123 = page_no 0x400000" "page_no 0x401000 \<noteq> page_no 0x400000"
    by (simp_all add: page_no_def)
  then show ?thesis
    using s' map_page_translation [OF example_mm_inv s'] by (auto simp: PAGE_WRITE_def PAGE_PRESENT_def)
qed

end
