(* ===== verification/AddressSpace.thy ===== *)
theory AddressSpace
  imports Paging
begin

text \<open>
  The address space \<^verbatim>\<open>paging_init\<close> of \<^verbatim>\<open>kernel/mem/paging.c\<close> sets up, computed from
  the sequence of its calls of \<^verbatim>\<open>map_page\<close>, and how many frames the page tables take.
\<close>

section \<open>Sequences of mappings\<close>

text \<open>A mapping is a pair of page numbers, virtual and physical.\<close>

definition page_addr :: "nat \<Rightarrow> u64" where
  "page_addr a = of_nat (4096 * a)"

definition map_pair :: "u64 \<Rightarrow> nat \<times> nat \<Rightarrow> mm \<Rightarrow> mm option" where
  "map_pair kernel_end ak = map_page kernel_end (page_addr (fst ak)) (page_addr (snd ak)) PAGE_WRITE"

definition pte :: "nat \<Rightarrow> u64" where
  "pte k = page_addr k OR PAGE_WRITE OR PAGE_PRESENT"

definition mapped :: "mm \<Rightarrow> u64 list set" where
  "mapped s = {page_indices va |va. translate s va \<noteq> None}"

lemma map_walk_present: "pt_lookup m current is = Some t \<Longrightarrow> map_walk ke is current (m, p) = Some (t, m, p)"
  by (induction "is" arbitrary: current) (auto simp: Let_def split: if_splits)

text \<open>No frame is taken where the table exists.\<close>

lemma map_page_present:
  assumes "page_indices virt \<in> mapped s"
  shows "\<exists>s'. map_page ke virt phys flags s = Some s' \<and> mm_pmm s' = mm_pmm s"
proof -
  obtain va where "page_indices va = page_indices virt" "translate s va \<noteq> None" using assms unfolding mapped_def by fastforce
  then obtain t where "pt_lookup (mm_mem s) (kernel_pml4 s) (page_indices virt) = Some t"
    by (auto simp: translate_def leaf_def split: option.splits)
  from map_walk_present [OF this] show ?thesis by (simp add: map_page_def)
qed

lemma unat_page_addr_mod: "unat (page_addr a) = 4096 * (a mod 2 ^ 52)"
proof -
  have "unat (page_addr a) = (4096 * a) mod 2 ^ 64" unfolding page_addr_def by (simp only: unsigned_of_nat take_bit_eq_mod len_num0 len_num1 len_bit0 len_bit1) simp
  then show ?thesis using mult_mod_right [of 4096 a "2 ^ 52"] by simp
qed

lemma unat_page_number: "unat (page_no (page_addr a)) = a mod 2 ^ 36"
proof -
  have "unat (page_no (page_addr a)) = unat (page_addr a) div 2 ^ 12 mod 2 ^ 36"
    unfolding page_no_def by (simp only: unsigned_take_bit_eq unat_drop_bit_eq) (simp only: take_bit_eq_mod drop_bit_eq_div)
  then show ?thesis unfolding unat_page_addr_mod by (simp add: mod_mod_cancel)
qed

lemma page_no_less: "unat (page_no va) < 2 ^ 36"
  unfolding page_no_def by (simp only: unsigned_take_bit_eq take_bit_nat_less_exp)

lemma page_addr_aligned: "page_addr k AND NOT 0xFFF = page_addr k"
proof -
  have m: "NOT (0xFFF :: u64) = NOT (mask 12)" by (simp add: mask_eq_exp_minus_1)
  have "unat (page_addr k AND NOT (mask 12)) = unat (page_addr k)" by (simp add: unat_and_not_mask unat_page_addr_mod)
  then show ?thesis unfolding m by (simp only: unat_eq_iff)
qed

lemma map_pair_correct:
  assumes "pt_inv s" and "map_pair ke ak s = Some s'"
  shows "pt_inv s' \<and> kernel_pml4 s' = kernel_pml4 s \<and> heap_start s' = heap_start s \<and>
    (\<forall>va. translate s' va = (if unat (page_no va) = fst ak mod 2 ^ 36 then Some (pte (snd ak)) else translate s va))"
proof -
  have "page_no va = page_no (page_addr (fst ak)) \<longleftrightarrow> unat (page_no va) = fst ak mod 2 ^ 36" for va
    unfolding unat_page_number [symmetric] by (rule word_unat_eq_iff)
  then show ?thesis
    using map_page_correct [OF assms(1) assms(2) [unfolded map_pair_def], unfolded page_addr_aligned] by (simp add: pte_def)
qed

text \<open>The tables of the lowest level: one for 512 pages.\<close>

definition region :: "nat \<times> nat \<Rightarrow> nat" where
  "region ak = fst ak div 512 mod 2 ^ 27"

lemma region_indices:
  assumes "region ak = region bk"
  shows "page_indices (page_addr (fst ak)) = page_indices (page_addr (fst bk))"
proof -
  have r: "unat (take_bit 27 (drop_bit 21 (page_addr a))) = a div 512 mod 2 ^ 27" for a
  proof -
    have "unat (take_bit 27 (drop_bit 21 (page_addr a))) = unat (page_addr a) div 2 ^ 21 mod 2 ^ 27"
      by (simp only: unsigned_take_bit_eq unat_drop_bit_eq) (simp only: take_bit_eq_mod drop_bit_eq_div)
    also have "unat (page_addr a) div 2 ^ 21 = a mod 2 ^ 52 div 512"
      unfolding unat_page_addr_mod using div_mult_mult1 [of 4096 "a mod 2 ^ 52" 512] by simp
    also have "\<dots> = a div 512 mod 2 ^ 43" using mod_mult2_eq [of a 512 "2 ^ 43"] by simp
    finally show ?thesis by (simp add: mod_mod_cancel)
  qed
  have eq: "take_bit 27 (drop_bit 21 (page_addr (fst ak))) = take_bit 27 (drop_bit 21 (page_addr (fst bk)))"
    unfolding word_unat_eq_iff r using assms by (simp add: region_def)
  have part: "take_bit 9 (drop_bit (21 + k) v) = take_bit 9 (drop_bit k (take_bit 27 (drop_bit 21 v)))" if "k \<le> 18" for k and v :: u64
    using that by (intro bit_word_eqI) (auto simp: bit_simps add.assoc)
  have "take_bit 9 (drop_bit (21 + k) (page_addr (fst ak))) = take_bit 9 (drop_bit (21 + k) (page_addr (fst bk)))" if "k \<le> 18" for k
    by (simp only: part [OF that] eq)
  from this [of 0] this [of 9] this [of 18] show ?thesis by (simp add: page_indices_def and_1FF_eq)
qed

definition regions :: "mm \<Rightarrow> (nat \<times> nat) list \<Rightarrow> nat set" where
  "regions s ps = {r \<in> region ` set ps. \<forall>ak. region ak = r \<longrightarrow> page_indices (page_addr (fst ak)) \<notin> mapped s}"

lemma finite_regions [simp]: "finite (regions s ps)"
  by (simp add: regions_def)

lemma mapped_mono: "(\<And>va. translate s va \<noteq> None \<Longrightarrow> translate s' va \<noteq> None) \<Longrightarrow> mapped s \<subseteq> mapped s'"
  by (fastforce simp: mapped_def)

text \<open>\<open>takes ke n p p'\<close>: on the way from \<open>p\<close> to \<open>p'\<close> frames were only taken, at most \<open>n\<close> of those above the kernel.\<close>

definition takes :: "u64 \<Rightarrow> nat \<Rightarrow> pmm \<Rightarrow> pmm \<Rightarrow> bool" where
  "takes ke n p p' \<longleftrightarrow> free_above ke p \<le> n + free_above ke p' \<and> (\<forall>j. frame_used p j \<longrightarrow> frame_used p' j)"

lemma takes_refl [simp]: "takes ke n p p"
  by (simp add: takes_def)

lemma takes_trans: "takes ke a p q \<Longrightarrow> takes ke b q r \<Longrightarrow> a + b \<le> n \<Longrightarrow> takes ke n p r"
  by (auto simp: takes_def)

text \<open>A sequence of mappings returns when three frames are free for every new region. The translation is then given by the last mapping of
  each page.\<close>

lemma map_pairs_total:
  assumes "pt_inv s" and "3 * card (regions s ps) \<le> free_above ke (mm_pmm s)"
  shows "\<exists>s'. fold_opt (map_pair ke) ps s = Some s' \<and> pt_inv s' \<and> kernel_pml4 s' = kernel_pml4 s \<and> heap_start s' = heap_start s \<and>
    takes ke (3 * card (regions s ps)) (mm_pmm s) (mm_pmm s') \<and>
    (\<forall>va. translate s' va = (case map_of (rev (map (\<lambda>(a, k). (a mod 2 ^ 36, k)) ps)) (unat (page_no va)) of
       Some k \<Rightarrow> Some (pte k) | None \<Rightarrow> translate s va))"
  using assms
proof (induction ps arbitrary: s)
  case Nil
  then show ?case by simp
next
  case (Cons ak ps)
  let ?v = "page_addr (fst ak)"
  have inv: "pmm_inv (mm_pmm s)" using Cons.prems(1) by (simp add: pt_inv_def tree_inv_def)
  have step: "\<exists>s1 n. map_pair ke ak s = Some s1 \<and> takes ke n (mm_pmm s) (mm_pmm s1) \<and>
      n + 3 * card (regions s1 ps) \<le> 3 * card (regions s (ak # ps))"
  proof (cases "page_indices ?v \<in> mapped s")
    case True
    obtain s1 where s1: "map_pair ke ak s = Some s1" "mm_pmm s1 = mm_pmm s"
      using map_page_present [OF True] unfolding map_pair_def by blast
    have "mapped s \<subseteq> mapped s1" using map_pair_correct [OF Cons.prems(1) s1(1)] by (intro mapped_mono) auto
    then have "regions s1 ps \<subseteq> regions s (ak # ps)" by (auto simp: regions_def)
    then have "card (regions s1 ps) \<le> card (regions s (ak # ps))" by (rule card_mono [rotated]) simp
    then show ?thesis using s1 by (intro exI [of _ s1] exI [of _ 0]) simp
  next
    case False
    have "\<forall>bk. region bk = region ak \<longrightarrow> page_indices (page_addr (fst bk)) \<notin> mapped s" using False region_indices by metis
    then have new: "region ak \<in> regions s (ak # ps)" by (simp add: regions_def)
    then have "0 < card (regions s (ak # ps))" by (metis card_gt_0_iff empty_iff finite_regions)
    then have "3 \<le> free_above ke (mm_pmm s)" using Cons.prems(2) by linarith
    then obtain s1 where s1: "map_pair ke ak s = Some s1" "takes ke 3 (mm_pmm s) (mm_pmm s1)"
      using map_page_total [OF inv] unfolding map_pair_def takes_def by blast
    note c = map_pair_correct [OF Cons.prems(1) s1(1)]
    have sub: "mapped s \<subseteq> mapped s1" using c by (intro mapped_mono) auto
    have "translate s1 ?v \<noteq> None" using c by (simp add: unat_page_number)
    then have "page_indices ?v \<in> mapped s1" unfolding mapped_def by blast
    then have "region ak \<notin> regions s1 ps" unfolding regions_def by blast
    moreover have "regions s1 ps \<subseteq> regions s (ak # ps)" using sub by (auto simp: regions_def)
    ultimately have "regions s1 ps \<subseteq> regions s (ak # ps) - {region ak}" by blast
    then have "card (regions s1 ps) \<le> card (regions s (ak # ps) - {region ak})" by (rule card_mono [rotated]) simp
    also have "\<dots> = card (regions s (ak # ps)) - 1" using new by simp
    finally have "3 + 3 * card (regions s1 ps) \<le> 3 * card (regions s (ak # ps))"
      using \<open>0 < card (regions s (ak # ps))\<close> by simp
    then show ?thesis using s1 by blast
  qed
  then obtain s1 n where s1: "map_pair ke ak s = Some s1" "takes ke n (mm_pmm s) (mm_pmm s1)"
    "n + 3 * card (regions s1 ps) \<le> 3 * card (regions s (ak # ps))" by blast
  have room: "3 * card (regions s1 ps) \<le> free_above ke (mm_pmm s1)" using s1(2,3) Cons.prems(2) by (simp add: takes_def)
  note c = map_pair_correct [OF Cons.prems(1) s1(1)]
  obtain s' where s': "fold_opt (map_pair ke) ps s1 = Some s'" "pt_inv s'" "kernel_pml4 s' = kernel_pml4 s1" "heap_start s' = heap_start s1"
    "takes ke (3 * card (regions s1 ps)) (mm_pmm s1) (mm_pmm s')"
    "\<forall>va. translate s' va = (case map_of (rev (map (\<lambda>(a, k). (a mod 2 ^ 36, k)) ps)) (unat (page_no va)) of
       Some k \<Rightarrow> Some (pte k) | None \<Rightarrow> translate s1 va)"
    using Cons.IH [OF _ room] c by blast
  then show ?case
    using s1(1) c takes_trans [OF s1(2) s'(5) s1(3)] by (intro exI [of _ s']) (auto simp: map_add_def split_def split: option.split)
qed

lemma card_regions: "card (regions s (map (\<lambda>k. (a + k, f k)) [0..<N])) \<le> N div 512 + 2"
proof -
  let ?I = "{a div 512 .. (a + N) div 512}"
  have "regions s (map (\<lambda>k. (a + k, f k)) [0..<N]) \<subseteq> (\<lambda>q. q mod 2 ^ 27) ` ?I"
    by (auto simp: regions_def region_def intro!: imageI div_le_mono)
  then have "card (regions s (map (\<lambda>k. (a + k, f k)) [0..<N])) \<le> card ((\<lambda>q. q mod 2 ^ 27) ` ?I)" by (rule card_mono [rotated]) simp
  also have "\<dots> \<le> card ?I" by (rule card_image_le) simp
  also have "\<dots> \<le> N div 512 + 2" by simp
  finally show ?thesis .
qed

section \<open>The sequence paging_init runs\<close>

definition window_pages :: "(nat \<times> nat) list" where
  "window_pages = map (\<lambda>k. (0xFFFFFFFF80000 + k, 0 + k)) [0..<131072]"

definition identity_pages :: "(nat \<times> nat) list" where
  "identity_pages = map (\<lambda>k. (0 + k, 0 + k)) [0..<4096]"

definition fb_pages :: "nat \<Rightarrow> nat \<Rightarrow> (nat \<times> nat) list" where
  "fb_pages F M = concat (map (\<lambda>k. [(F + k, F + k), (0xFFFFFFFF80000 + F + k, F + k)]) [0..<M])"

lemma page_addr_add: "page_addr a + page_addr b = page_addr (a + b)"
  by (simp add: page_addr_def algebra_simps)

lemma fold_opt_map: "fold_opt f (map g xs) s = fold_opt (\<lambda>x. f (g x)) xs s"
  by (induction xs arbitrary: s) (auto split: option.splits)

lemma fold_opt_pair:
  "fold_opt (\<lambda>x s. do { s1 \<leftarrow> f (g x) s; f (h x) s1 }) xs s = fold_opt f (concat (map (\<lambda>x. [g x, h x]) xs)) s"
  by (induction xs arbitrary: s) (auto split: option.splits bind_splits)

lemma page_range_map: "unat lim = 4096 * N \<Longrightarrow> page_range 0 lim = map page_addr [0..<N]"
proof -
  assume lim: "unat lim = 4096 * N"
  have "page_count 0 lim = N" unfolding page_count_def lim by simp
  then show ?thesis by (simp add: page_range_def page_addr_def)
qed

lemma KVB_pages: "KERNEL_VIRTUAL_BASE = page_addr 0xFFFFFFFF80000"
  by (simp add: KERNEL_VIRTUAL_BASE_def page_addr_def)

lemma window_loop:
  "for_pages (\<lambda>p. map_page ke (KERNEL_VIRTUAL_BASE + p) p PAGE_WRITE) 0 0x20000000 s = fold_opt (map_pair ke) window_pages s"
proof -
  have r: "page_range 0 0x20000000 = map page_addr [0..<131072]" by (rule page_range_map) simp
  have "fold_opt (\<lambda>p. map_page ke (KERNEL_VIRTUAL_BASE + p) p PAGE_WRITE) (map page_addr xs) s =
      fold_opt (map_pair ke) (map (\<lambda>k. (0xFFFFFFFF80000 + k, 0 + k)) xs) s" for xs
    unfolding fold_opt_map map_pair_def KVB_pages page_addr_add by simp
  then show ?thesis unfolding window_pages_def r [symmetric] by (subst for_pages_fold) (simp_all add: r)
qed

lemma identity_loop:
  "for_pages (\<lambda>i. map_page ke i i PAGE_WRITE) 0 0x1000000 s = fold_opt (map_pair ke) identity_pages s"
proof -
  have r: "page_range 0 0x1000000 = map page_addr [0..<4096]" by (rule page_range_map) simp
  have "fold_opt (\<lambda>p. map_page ke p p PAGE_WRITE) (map page_addr xs) s = fold_opt (map_pair ke) (map (\<lambda>k. (0 + k, 0 + k)) xs) s" for xs
    unfolding fold_opt_map map_pair_def by simp
  then show ?thesis unfolding identity_pages_def by (subst for_pages_fold) (simp_all add: r)
qed

lemma fb_loop:
  assumes "A = page_addr F" and "unat S = 4096 * M" and "unat S < 2 ^ 63"
  shows "for_pages (\<lambda>i q. do { q' \<leftarrow> map_page ke (A + i) (A + i) PAGE_WRITE q;
      map_page ke (KERNEL_VIRTUAL_BASE + (A + i)) (A + i) PAGE_WRITE q' }) 0 S s = fold_opt (map_pair ke) (fb_pages F M) s"
proof -
  have r: "page_range 0 S = map page_addr [0..<M]" by (rule page_range_map [OF assms(2)])
  have "fold_opt (\<lambda>i q. do { q' \<leftarrow> map_page ke (A + i) (A + i) PAGE_WRITE q;
      map_page ke (KERNEL_VIRTUAL_BASE + (A + i)) (A + i) PAGE_WRITE q' }) (map page_addr xs) s =
      fold_opt (map_pair ke) (concat (map (\<lambda>k. [(F + k, F + k), (0xFFFFFFFF80000 + F + k, F + k)]) xs)) s" for xs
    unfolding fold_opt_map fold_opt_pair [symmetric] map_pair_def KVB_pages page_addr_add assms(1) by (simp add: add.assoc)
  then show ?thesis unfolding fb_pages_def using assms(3) by (subst for_pages_fold) (simp_all add: r)
qed

section \<open>The tables it needs\<close>

lemma card_regions_append: "card (regions s (ps @ qs)) \<le> card (regions s ps) + card (regions s qs)"
proof -
  have "regions s (ps @ qs) = regions s ps \<union> regions s qs" by (auto simp: regions_def)
  then show ?thesis by (simp add: card_Un_le)
qed

lemma card_fb_regions: "card (regions s (fb_pages F M)) \<le> 2 * (M div 512) + 4"
proof -
  let ?ps = "map (\<lambda>k. (F + k, F + k)) [0..<M]" and ?qs = "map (\<lambda>k. (0xFFFFFFFF80000 + F + k, F + k)) [0..<M]"
  have "regions s (fb_pages F M) = regions s (?ps @ ?qs)" by (auto simp: regions_def fb_pages_def)
  then show ?thesis
    using card_regions_append [of s ?ps ?qs] card_regions [of s F "\<lambda>k. F + k" M] card_regions [of s "0xFFFFFFFF80000 + F" "\<lambda>k. F + k" M] by simp
qed

lemma card_boot_regions: "card (regions s (window_pages @ identity_pages @ fb_pages F M)) \<le> 272 + 2 * (M div 512)"
proof -
  have "card (regions s window_pages) \<le> 258" "card (regions s identity_pages) \<le> 10"
    using card_regions [of s "0xFFFFFFFF80000" "\<lambda>k. 0 + k" 131072] card_regions [of s 0 "\<lambda>k. 0 + k" 4096]
    unfolding window_pages_def identity_pages_def by simp_all
  then show ?thesis
    using card_regions_append [of s window_pages "identity_pages @ fb_pages F M"] card_regions_append [of s identity_pages "fb_pages F M"]
      card_fb_regions [of s F M] by linarith
qed

section \<open>The address space\<close>

text \<open>Which physical page a virtual page leads to, from the first page \<open>F\<close> and the number \<open>M\<close> of pages of the framebuffer. The
  kernel's half is the physical page number shifted by \<open>2\<^sup>1\<^sup>9\<close> pages, modulo the 36 bits of a page number.\<close>

definition kernel_space :: "nat \<Rightarrow> nat \<Rightarrow> nat \<Rightarrow> nat option" where
  "kernel_space F M n =
     (let m = (n + 2 ^ 19) mod 2 ^ 36
      in if F \<le> n \<and> n < F + M then Some n
         else if F \<le> m \<and> m < F + M then Some m
         else if n < 4096 then Some n
         else if m < 131072 then Some m
         else None)"

lemma alias_page:
  assumes "n < 2 ^ 36" and "k < 2 ^ 36"
  shows "(0xFFFFFFFF80000 + k) mod 2 ^ 36 = n \<longleftrightarrow> k = (n + 2 ^ 19) mod (2 ^ 36 :: nat)"
proof -
  have "(0xFFFFFFFF80000 + k) mod 2 ^ 36 = (if k < 2 ^ 19 then k + (2 ^ 36 - 2 ^ 19) else k - 2 ^ 19)"
  proof (cases "k < 2 ^ 19")
    case True
    have "0xFFFFFFFF80000 + k = (k + (2 ^ 36 - 2 ^ 19)) + 0xFFFF * 2 ^ 36" by simp
    then have "(0xFFFFFFFF80000 + k) mod 2 ^ 36 = (k + (2 ^ 36 - 2 ^ 19)) mod 2 ^ 36" by (simp only: mod_mult_self1)
    then show ?thesis using True by simp
  next
    case False
    then have "0xFFFFFFFF80000 + k = (k - 2 ^ 19) + 0x10000 * 2 ^ 36" by simp
    then have "(0xFFFFFFFF80000 + k) mod 2 ^ 36 = (k - 2 ^ 19) mod 2 ^ 36" by (simp only: mod_mult_self1)
    then show ?thesis using False assms(2) by simp
  qed
  moreover have "(n + 2 ^ 19) mod 2 ^ 36 = (if n < 2 ^ 36 - 2 ^ 19 then n + 2 ^ 19 else n - (2 ^ 36 - 2 ^ 19))"
  proof (cases "n < 2 ^ 36 - 2 ^ 19")
    case False
    then have "n + 2 ^ 19 = (n - (2 ^ 36 - 2 ^ 19)) + 1 * 2 ^ 36" by simp
    then have "(n + 2 ^ 19) mod 2 ^ 36 = (n - (2 ^ 36 - 2 ^ 19)) mod 2 ^ 36" by (simp only: mod_mult_self1)
    then show ?thesis using False assms(1) by simp
  qed simp
  ultimately show ?thesis using assms by auto
qed

lemma map_of_functional: "(\<And>a b. (a, b) \<in> set L \<Longrightarrow> b = g a) \<Longrightarrow> map_of L x = (if x \<in> fst ` set L then Some (g x) else None)"
  by (induction L) (auto simp: rev_image_eqI)

abbreviation page_keys :: "(nat \<times> nat) list \<Rightarrow> (nat \<times> nat) list" where
  "page_keys ps \<equiv> rev (map (\<lambda>(a, k). (a mod 2 ^ 36, k)) ps)"

lemma window_keys: "n < 2 ^ 36 \<Longrightarrow> map_of (page_keys window_pages) n = (let m = (n + 2 ^ 19) mod 2 ^ 36 in if m < 131072 then Some m else None)"
proof -
  assume n: "n < 2 ^ 36"
  have e: "(0xFFFFFFFF80000 + k) mod 2 ^ 36 = a \<longleftrightarrow> k = (a + 2 ^ 19) mod 2 ^ 36" if "k < 131072" "a < 2 ^ 36" for a k :: nat
    using that by (intro alias_page) simp_all
  have "map_of (page_keys window_pages) n =
      (if n \<in> fst ` set (page_keys window_pages) then Some ((n + 2 ^ 19) mod 2 ^ 36) else None)"
  proof (rule map_of_functional)
    fix a b assume "(a, b) \<in> set (page_keys window_pages)"
    then have "b < 131072" "a = (0xFFFFFFFF80000 + b) mod 2 ^ 36" unfolding window_pages_def by auto
    then show "b = (a + 2 ^ 19) mod 2 ^ 36" using e [of b a] by simp
  qed
  moreover have "n \<in> fst ` set (page_keys window_pages) \<longleftrightarrow> (n + 2 ^ 19) mod 2 ^ 36 < 131072"
  proof -
    have "n \<in> fst ` set (page_keys window_pages) \<longleftrightarrow> (\<exists>k < 131072. (0xFFFFFFFF80000 + k) mod 2 ^ 36 = n)"
      unfolding window_pages_def by (auto simp: image_iff)
    then show ?thesis using e [OF _ n] by auto
  qed
  ultimately show ?thesis by (simp add: Let_def)
qed

lemma identity_keys: "map_of (page_keys identity_pages) n = (if n < 4096 then Some n else None)"
proof -
  have "map_of (page_keys identity_pages) n = (if n \<in> fst ` set (page_keys identity_pages) then Some n else None)"
    by (rule map_of_functional) (auto simp: identity_pages_def)
  moreover have "n \<in> fst ` set (page_keys identity_pages) \<longleftrightarrow> n < 4096" by (auto simp: identity_pages_def image_iff)
  ultimately show ?thesis by simp
qed

lemma in_page_keys: "(a, b) \<in> set (page_keys ps) \<longleftrightarrow> (\<exists>c. (c, b) \<in> set ps \<and> a = c mod 2 ^ 36)"
  by (auto simp: rev_image_eqI)

lemma in_fb_pages: "(c, b) \<in> set (fb_pages F M) \<longleftrightarrow> (\<exists>k < M. b = F + k \<and> (c = F + k \<or> c = 0xFFFFFFFF80000 + (F + k)))"
  unfolding fb_pages_def by (auto simp: add.assoc)

lemma fb_keys:
  assumes "n < 2 ^ 36" and "F + M \<le> 2 ^ 28" and "M \<le> 2 ^ 19"
  shows "map_of (page_keys (fb_pages F M)) n =
    (let m = (n + 2 ^ 19) mod 2 ^ 36 in if F \<le> n \<and> n < F + M then Some n else if F \<le> m \<and> m < F + M then Some m else None)"
proof -
  let ?g = "\<lambda>n. if F \<le> n \<and> n < F + M then n else (n + 2 ^ 19) mod 2 ^ 36"
  have e: "(0xFFFFFFFF80000 + k) mod 2 ^ 36 = a \<longleftrightarrow> k = (a + 2 ^ 19) mod 2 ^ 36" if "k < F + M" "a < 2 ^ 36" for a k :: nat
    using that assms(2) by (intro alias_page) simp_all
  have keys: "(a, b) \<in> set (page_keys (fb_pages F M)) \<longleftrightarrow> F \<le> b \<and> b < F + M \<and> (a = b \<or> a = (0xFFFFFFFF80000 + b) mod 2 ^ 36)" for a b
  proof -
    have "(a, b) \<in> set (page_keys (fb_pages F M)) \<longleftrightarrow> (\<exists>k < M. b = F + k \<and> (a = (F + k) mod 2 ^ 36 \<or> a = (0xFFFFFFFF80000 + (F + k)) mod 2 ^ 36))"
      unfolding in_page_keys in_fb_pages by blast
    also have "\<dots> \<longleftrightarrow> F \<le> b \<and> b < F + M \<and> (a = b mod 2 ^ 36 \<or> a = (0xFFFFFFFF80000 + b) mod 2 ^ 36)"
      by (auto intro!: exI [of _ "b - F"])
    finally show ?thesis using assms(2) by auto
  qed
  have "map_of (page_keys (fb_pages F M)) n = (if n \<in> fst ` set (page_keys (fb_pages F M)) then Some (?g n) else None)"
  proof (rule map_of_functional)
    fix a b assume "(a, b) \<in> set (page_keys (fb_pages F M))"
    then have b: "F \<le> b" "b < F + M" "a = b \<or> a = (0xFFFFFFFF80000 + b) mod 2 ^ 36" unfolding keys by auto
    show "b = ?g a"
    proof (cases "a = b")
      case False
      then have a: "a = (0xFFFFFFFF80000 + b) mod 2 ^ 36" using b(3) by simp
      then have "b = (a + 2 ^ 19) mod 2 ^ 36" using e [OF b(2), of a] by simp
      moreover have "\<not> (F \<le> a \<and> a < F + M)"
      proof
        assume r: "F \<le> a \<and> a < F + M"
        then have "(a + 2 ^ 19) mod 2 ^ 36 = a + 2 ^ 19" using assms(2) by simp
        then show False using calculation b(2) r assms(3) by linarith
      qed
      ultimately show ?thesis by auto
    qed (use b in simp)
  qed
  moreover have "n \<in> fst ` set (page_keys (fb_pages F M)) \<longleftrightarrow>
      F \<le> n \<and> n < F + M \<or> (let m = (n + 2 ^ 19) mod 2 ^ 36 in F \<le> m \<and> m < F + M)"
  proof -
    have "n \<in> fst ` set (page_keys (fb_pages F M)) \<longleftrightarrow> (\<exists>b. (n, b) \<in> set (page_keys (fb_pages F M)))" by force
    moreover define m where "m = (n + 2 ^ 19) mod (2 ^ 36 :: nat)"
    have "n = (0xFFFFFFFF80000 + b) mod 2 ^ 36 \<longleftrightarrow> b = m" if "b < F + M" for b using e [OF that assms(1)] by (auto simp: m_def)
    ultimately show ?thesis unfolding keys Let_def m_def [symmetric] by blast
  qed
  ultimately show ?thesis by (auto simp: Let_def)
qed

section \<open>What paging_init sets up\<close>

definition fb_page_count :: "framebuffer_info \<Rightarrow> nat" where
  "fb_page_count f = (if fb_addr f = 0 then 0 else (unat (fb_pitch f * fb_height f) + 4095) div 4096)"

lemma unat_fb_map_size: "fb_addr f \<noteq> 0 \<Longrightarrow> unat (fb_map_size f) = 4096 * fb_page_count f \<and> unat (fb_map_size f) < 2 ^ 33"
proof -
  assume f: "fb_addr f \<noteq> 0"
  define x where "x = unat (fb_pitch f * fb_height f)"
  define sz where "sz = (ucast (fb_pitch f * fb_height f) :: u64)"
  have x: "x < 2 ^ 32" unfolding x_def using unsigned_less [of "fb_pitch f * fb_height f"] by simp
  have u: "unat sz = x" unfolding sz_def x_def by simp
  have md: "unat (sz mod 4096) = x mod 4096" by (simp add: unat_mod u)
  have "unat (fb_map_size f) = 4096 * ((x + 4095) div 4096)"
  proof (cases "x mod 4096 = 0")
    case True
    then have "sz mod 4096 = 0" using md by (simp add: unat_eq_0)
    moreover obtain q where "x = 4096 * q" using True by (metis mod_0_imp_dvd dvdE)
    ultimately show ?thesis using u by (simp add: fb_map_size_def sz_def [symmetric] Let_def)
  next
    case False
    then have "sz mod 4096 \<noteq> 0" using md by (metis unat_0)
    then have "unat (fb_map_size f) = unat (sz + (4096 - sz mod 4096))" by (simp add: fb_map_size_def sz_def [symmetric] Let_def)
    also have "unat (4096 - sz mod 4096) = 4096 - x mod 4096" using md by (subst unat_sub) (simp_all add: word_le_nat_alt less_imp_le)
    then have "unat (sz + (4096 - sz mod 4096)) = x + (4096 - x mod 4096)" using u x by (subst unat_plus_small) simp_all
    also have "\<dots> = 4096 * ((x + 4095) div 4096)"
    proof -
      define q r where "q = x div 4096" and "r = x mod 4096"
      have "x = 4096 * q + r" "r < 4096" "r \<noteq> 0" using False by (simp_all add: q_def r_def)
      moreover from this have "x + 4095 = (r - 1) + 4096 * (q + 1)" by simp
      then have "(x + 4095) div 4096 = (q + 1) + (r - 1) div 4096" by (simp only: div_mult_self2 zero_neq_numeral not_False_eq_True)
      ultimately show ?thesis by (simp add: r_def [symmetric])
    qed
    finally show ?thesis .
  qed
  moreover have "4096 * ((x + 4095) div 4096) < 2 ^ 33" using x by (simp add: div_less_iff_less_mult mult.commute)
  ultimately show ?thesis using f by (simp add: fb_page_count_def x_def [symmetric])
qed

lemma root_inv:
  assumes "pmm_inv p" and "b < MAX_BLOCKS" and "frame_used p b"
  shows "pt_inv (s\<lparr>mm_pmm := p, kernel_pml4 := tbl b, mm_mem := clear_table (tbl b) m\<rparr>)"
    and "translate (s\<lparr>mm_pmm := p, kernel_pml4 := tbl b, mm_mem := clear_table (tbl b) m\<rparr>) va = None"
proof -
  have none: "pt_lookup (clear_table (tbl b) m) (tbl b) (i # is) = None" if "i < 512" for i "is"
    using ld64_clear_table [OF assms(2,2) that] by simp
  have "pt_lookup (clear_table (tbl b) m) (tbl b) qs = Some u \<longleftrightarrow> qs = [] \<and> tbl b = u" if "path_ok qs" for qs u
    using none that by (cases qs) (auto simp: path_ok_def)
  then show "pt_inv (s\<lparr>mm_pmm := p, kernel_pml4 := tbl b, mm_mem := clear_table (tbl b) m\<rparr>)"
    using assms by (auto simp: pt_inv_def tree_inv_def)
  have "pt_lookup (clear_table (tbl b) m) (tbl b) (page_indices va) = None"
    using none and_1FF_less by (simp add: page_indices_def del: pt_lookup.simps)
  then show "translate (s\<lparr>mm_pmm := p, kernel_pml4 := tbl b, mm_mem := clear_table (tbl b) m\<rparr>) va = None"
    by (simp add: translate_def leaf_def)
qed

lemma paging_init_result:
  assumes "pmm_inv (mm_pmm s)" and fb: "fb_addr f = page_addr F" "F + fb_page_count f \<le> 2 ^ 28" "fb_page_count f \<le> 2 ^ 19"
    and frames: "3 * (272 + 2 * (fb_page_count f div 512)) < free_above kernel_end (mm_pmm s)"
  shows "\<exists>s'. paging_init kernel_end f s = Some s' \<and> pt_inv s' \<and>
    (\<exists>b. unat (V2P kernel_end) < 4096 * b \<and> (\<forall>j \<le> b. frame_used (mm_pmm s') j)) \<and>
    takes kernel_end (1 + 3 * (272 + 2 * (fb_page_count f div 512))) (mm_pmm s) (mm_pmm s') \<and>
    (\<forall>va. translate s' va = map_option pte (kernel_space F (fb_page_count f) (unat (page_no va))))"
proof -
  let ?M = "fb_page_count f"
  have "0 < free_above kernel_end (mm_pmm s)" using frames by simp
  from safe_pmm_alloc_total [OF assms(1) this] obtain a p where
    a: "safe_pmm_alloc kernel_end (mm_pmm s) = Some (a, p)" "free_above kernel_end (mm_pmm s) \<le> Suc (free_above kernel_end p)" by blast
  from safe_pmm_alloc_result [OF assms(1) a(1)] obtain b where
    b: "b < MAX_BLOCKS" "a = frame_addr b" "pmm_inv p" "frame_used p b" "unat (V2P kernel_end) < 4096 * b"
      "\<forall>j. frame_used p j \<longleftrightarrow> frame_used (mm_pmm s) j \<or> j \<le> b" by auto
  define s1 where "s1 = s\<lparr>mm_pmm := p, kernel_pml4 := P2V a, mm_mem := clear_table (P2V a) (mm_mem s)\<rparr>"
  have s1: "pt_inv s1" "\<And>va. translate s1 va = None" "mm_pmm s1 = p"
    using root_inv [OF b(3,1,4)] unfolding s1_def b(2) by auto
  let ?ps = "window_pages @ identity_pages @ fb_pages F ?M"
  have need: "3 * card (regions s1 ?ps) \<le> 3 * (272 + 2 * (?M div 512))" by (rule mult_le_mono2 [OF card_boot_regions])
  have "3 * (272 + 2 * (?M div 512)) \<le> free_above kernel_end p" using frames a(2) by linarith
  then have "3 * card (regions s1 ?ps) \<le> free_above kernel_end (mm_pmm s1)" using need unfolding s1(3) by (rule order_trans [rotated])
  from map_pairs_total [OF s1(1) this] obtain s' where s': "fold_opt (map_pair kernel_end) ?ps s1 = Some s'" "pt_inv s'"
    "takes kernel_end (3 * card (regions s1 ?ps)) p (mm_pmm s')"
    "\<forall>va. translate s' va = (case map_of (page_keys ?ps) (unat (page_no va)) of Some k \<Rightarrow> Some (pte k) | None \<Rightarrow> translate s1 va)"
    unfolding s1(3) by blast
  have tr: "translate s' va = map_option pte (kernel_space F ?M (unat (page_no va)))" for va
  proof -
    let ?n = "unat (page_no va)"
    have n: "?n < 2 ^ 36" by (rule page_no_less)
    have "map_of (page_keys ?ps) ?n = kernel_space F ?M ?n"
      using window_keys [OF n] identity_keys [of ?n] fb_keys [OF n fb(2,3)]
      by (auto simp: kernel_space_def map_add_def Let_def)
    then show ?thesis using s'(4) s1(2) by (simp split: option.split)
  qed
  have app: "fold_opt (map_pair kernel_end) (xs @ ys) = (\<lambda>s. Option.bind (fold_opt (map_pair kernel_end) xs s) (fold_opt (map_pair kernel_end) ys))"
    for xs ys by (rule ext) (rule fold_opt_append)
  have "paging_init kernel_end f s = Some s'"
  proof (cases "fb_addr f = 0")
    case True
    then have "?ps = window_pages @ identity_pages" by (simp add: fb_page_count_def fb_pages_def)
    then show ?thesis using s'(1) True a(1)
      unfolding paging_init_def window_loop identity_loop by (simp add: s1_def [symmetric] Let_def app)
  next
    case False
    note m = unat_fb_map_size [OF False]
    then have "unat (fb_map_size f) < 2 ^ 63" by simp
    note loop = fb_loop [OF fb(1) conjunct1 [OF m] this]
    show ?thesis using s'(1) False a(1)
      unfolding paging_init_def window_loop identity_loop loop by (simp add: s1_def [symmetric] Let_def app)
  qed
  moreover have "takes kernel_end 1 (mm_pmm s) p" using a(2) b(6) by (simp add: takes_def)
  then have "takes kernel_end (1 + 3 * (272 + 2 * (?M div 512))) (mm_pmm s) (mm_pmm s')"
    by (rule takes_trans [OF _ s'(3)]) (rule add_left_mono [OF need])
  moreover have "\<forall>j \<le> b. frame_used (mm_pmm s') j" using s'(3) b(6) by (simp add: takes_def)
  ultimately show ?thesis using s'(2) tr b(5) by blast
qed

text \<open>C7: The address space. With enough free frames for the tables, counted per 512 pages mapped, \<^verbatim>\<open>paging_init\<close> returns, and the
  translation of every virtual address is \<open>kernel_space\<close> of its page number, present and writable: the first 512 MiB in the kernel's half, the first
  16 MiB at their own addresses, and the framebuffer at both places. The second place of a framebuffer at 2 GiB or above wraps around into the lower
  half; for one that starts in the 16 MiB above 2 GiB it takes the place of the identity map.\<close>

theorem paging_init_address_space:
  assumes "pmm_inv (mm_pmm s)" and fb: "fb_addr f = page_addr F" "F + fb_page_count f \<le> 2 ^ 28" "fb_page_count f \<le> 2 ^ 19"
    and frames: "3 * (272 + 2 * (fb_page_count f div 512)) < free_above kernel_end (mm_pmm s)"
  shows "\<exists>s'. paging_init kernel_end f s = Some s' \<and> pt_inv s' \<and>
    (\<forall>va. translate s' va = map_option pte (kernel_space F (fb_page_count f) (unat (page_no va))))"
  using paging_init_result [OF assms] by blast

section \<open>An example machine\<close>

text \<open>4096 free frames from 16 MiB on, and a framebuffer of 1024 by 768 pixels at 2 GiB: the page at address 0 leads to the framebuffer.\<close>

definition boot_pmm :: pmm where
  "boot_pmm = fold pmm_mark_free (map frame_addr [0x1000..<0x2000]) pmm_full"

definition boot_mm :: mm where
  "boot_mm = \<lparr>mm_mem = (\<lambda>_. 0), mm_pmm = boot_pmm, kernel_pml4 = 0, heap_start = 0\<rparr>"

definition boot_fb :: framebuffer_info where
  "boot_fb = \<lparr>fb_addr = 0x80000000, fb_pitch = 4096, fb_width = 1024, fb_height = 768, fb_bpp = 32\<rparr>"

lemma boot_pmm_facts: "pmm_inv boot_pmm" "i < MAX_BLOCKS \<Longrightarrow> \<not> frame_used boot_pmm i \<longleftrightarrow> 0x1000 \<le> i \<and> i < 0x2000"
proof -
  have u: "unat (block_of (frame_addr i)) = i" if "i < 0x2000" for i
    using that by (intro unat_block_frame_addr) (simp add: pmm_consts)
  moreover have "b < MAX_BLOCKS" if "b < 0x2000" for b using that by (simp add: pmm_consts)
  ultimately have fr: "frames_of (map frame_addr [0x1000..<0x2000]) = {0x1000..<0x2000}"
    unfolding frames_of_def set_map set_upt by fastforce
  note f = fold_mark_free [OF pmm_inv_full, of "map frame_addr [0x1000..<0x2000]", folded boot_pmm_def, unfolded fr]
  show "pmm_inv boot_pmm" by (rule conjunct1 [OF f])
  show "i < MAX_BLOCKS \<Longrightarrow> \<not> frame_used boot_pmm i \<longleftrightarrow> 0x1000 \<le> i \<and> i < 0x2000"
    using f [of i] frame_used_full [of i] by simp
qed

lemma boot_free: "4096 \<le> free_above (P2V 0x200000) boot_pmm"
proof -
  have "{0x1000..<0x2000} \<subseteq> {b. b < MAX_BLOCKS \<and> \<not> frame_used boot_pmm b \<and> unat (V2P (P2V 0x200000)) < 4096 * b}"
  proof
    fix b :: nat
    assume "b \<in> {0x1000..<0x2000}"
    moreover from this have "b < MAX_BLOCKS" by (simp add: pmm_consts)
    ultimately show "b \<in> {b. b < MAX_BLOCKS \<and> \<not> frame_used boot_pmm b \<and> unat (V2P (P2V 0x200000)) < 4096 * b}"
      using boot_pmm_facts(2) [of b] by simp
  qed
  then have "card {0x1000..<0x2000 :: nat} \<le> free_above (P2V 0x200000) boot_pmm"
    unfolding free_above_def by (rule card_mono [rotated]) simp
  then show ?thesis by simp
qed

theorem paging_init_address_space_witness:
  "\<exists>s'. paging_init (P2V 0x200000) boot_fb boot_mm = Some s' \<and>
     translate s' 0xFFFFFFFF80100000 = Some 0x100003 \<and> translate s' 0x80000000 = Some 0x80000003 \<and> translate s' 0 = Some 0x80000003"
proof -
  have c: "fb_page_count boot_fb = 768" by (simp add: fb_page_count_def boot_fb_def)
  have fb: "fb_addr boot_fb = page_addr 0x80000" by (simp add: boot_fb_def page_addr_def)
  have inv: "pmm_inv (mm_pmm boot_mm)" and free: "4096 \<le> free_above (P2V 0x200000) (mm_pmm boot_mm)"
    using boot_pmm_facts(1) boot_free by (simp_all add: boot_mm_def)
  obtain s' where s': "paging_init (P2V 0x200000) boot_fb boot_mm = Some s'"
    "\<forall>va. translate s' va = map_option pte (kernel_space 0x80000 768 (unat (page_no va)))"
    using paging_init_address_space [OF inv fb, of "P2V 0x200000"] free unfolding c by auto
  have "unat (page_no 0xFFFFFFFF80100000) = 2 ^ 36 - 2 ^ 19 + 256" "unat (page_no 0x80000000) = 0x80000" "unat (page_no 0) = 0"
    by (simp_all add: page_no_def)
  then show ?thesis using s' by (simp add: kernel_space_def pte_def page_addr_def PAGE_WRITE_def PAGE_PRESENT_def)
qed

end
