(* ===== verification/Kheap.thy ===== *)
theory Kheap
  imports Paging
begin

text \<open>
  The kernel heap, \<^verbatim>\<open>kernel/mem/heap.c\<close>: a singly linked list of headers in memory, each
  followed by its payload, first-fit allocation with splitting, and coalescing on free. The
  abstract view is the list of blocks (size, free?) in address order; the operations on
  memory refine the operations on that list.
\<close>

section \<open>Headers in memory\<close>

definition HEAP_MAGIC :: u32 where
  "HEAP_MAGIC = 0x12345678"

definition HEAP_START_ADDR :: u64 where
  "HEAP_START_ADDR = 0xFFFFFFFFD0000000"

definition HEAP_SIZE :: u64 where
  "HEAP_SIZE = 10 * 1024 * 1024"

text \<open>\<^verbatim>\<open>struct heap_header\<close>: \<open>magic\<close> at 0, \<open>is_free\<close> at 4, \<open>size\<close> at 8, \<open>next\<close> at 16;
  24 bytes.\<close>

definition sizeof_header :: nat where
  "sizeof_header = 24"

definition h_magic :: "mem \<Rightarrow> u64 \<Rightarrow> u32" where
  "h_magic m h = ld32 m h"

definition h_is_free :: "mem \<Rightarrow> u64 \<Rightarrow> u8" where
  "h_is_free m h = ld8 m (h + 4)"

definition h_size :: "mem \<Rightarrow> u64 \<Rightarrow> u64" where
  "h_size m h = ld64 m (h + 8)"

definition h_next :: "mem \<Rightarrow> u64 \<Rightarrow> u64" where
  "h_next m h = ld64 m (h + 16)"

definition set_magic :: "u64 \<Rightarrow> u32 \<Rightarrow> mem \<Rightarrow> mem" where
  "set_magic h v m = st32 m h v"

definition set_is_free :: "u64 \<Rightarrow> u8 \<Rightarrow> mem \<Rightarrow> mem" where
  "set_is_free h v m = st8 m (h + 4) v"

definition set_size :: "u64 \<Rightarrow> u64 \<Rightarrow> mem \<Rightarrow> mem" where
  "set_size h v m = st64 m (h + 8) v"

definition set_next :: "u64 \<Rightarrow> u64 \<Rightarrow> mem \<Rightarrow> mem" where
  "set_next h v m = st64 m (h + 16) v"

section \<open>Operations\<close>

text \<open>The initialisation maps the pages first and gives up, with no heap, when the frame
  allocator is empty.\<close>

partial_function (option) heap_map_loop :: "u64 \<Rightarrow> u64 \<Rightarrow> u64 \<Rightarrow> mm \<Rightarrow> (bool \<times> mm) option" where
  "heap_map_loop kernel_end v lim s =
     (if v < lim
      then (let (phys, p) = pmm_alloc_block (mm_pmm s); s1 = s\<lparr>mm_pmm := p\<rparr> in
            if phys = 0 then Some (False, s1)
            else Option.bind (map_page kernel_end v phys (PAGE_PRESENT OR PAGE_WRITE) s1)
                   (heap_map_loop kernel_end (v + 4096) lim))
      else Some (True, s))"

definition heap_init :: "u64 \<Rightarrow> u64 \<Rightarrow> u64 \<Rightarrow> mm \<Rightarrow> mm option" where
  "heap_init kernel_end start_addr end_addr s =
     do { let page_aligned_start = start_addr AND NOT 0xFFF;
          let page_aligned_end = (end_addr + 0xFFF) AND NOT 0xFFF;
          (ok, s1) \<leftarrow> heap_map_loop kernel_end page_aligned_start page_aligned_end s;
          if \<not> ok then Some s1
          else Some (s1\<lparr>heap_start := start_addr,
                 mm_mem := set_next start_addr 0
                   (set_size start_addr ((end_addr - start_addr) - of_nat sizeof_header)
                     (set_is_free start_addr 1 (set_magic start_addr HEAP_MAGIC (mm_mem s1))))\<rparr>) }"

definition split_block :: "u64 \<Rightarrow> u64 \<Rightarrow> mem \<Rightarrow> mem" where
  "split_block current sz m =
     (let next_block = current + of_nat sizeof_header + sz;
          m1 = set_magic next_block HEAP_MAGIC m;
          m2 = set_is_free next_block 1 m1;
          m3 = set_size next_block (h_size m2 current - sz - of_nat sizeof_header) m2;
          m4 = set_next next_block (h_next m3 current) m3;
          m5 = set_size current sz m4
      in set_next current next_block m5)"

partial_function (option) kmalloc_loop :: "u64 \<Rightarrow> u64 \<Rightarrow> mem \<Rightarrow> (u64 \<times> mem) option" where
  "kmalloc_loop sz current m =
     (if current = 0 then Some (0, m)
      else if h_is_free m current \<noteq> 0 \<and> sz \<le> h_size m current
      then (let m1 = (if sz + of_nat sizeof_header + 32 < h_size m current
                      then split_block current sz m else m)
            in Some (current + of_nat sizeof_header, set_is_free current 0 m1))
      else kmalloc_loop sz (h_next m current) m)"

text \<open>\<^verbatim>\<open>size = (size + 15) & ~15\<close>, in 64-bit arithmetic.\<close>

definition round_size :: "u64 \<Rightarrow> u64" where
  "round_size sz = (sz + 15) AND NOT 15"

definition kmalloc :: "u64 \<Rightarrow> mm \<Rightarrow> (u64 \<times> mm) option" where
  "kmalloc sz s =
     (case kmalloc_loop (round_size sz) (heap_start s) (mm_mem s) of
        None \<Rightarrow> None
      | Some (ptr, m) \<Rightarrow> Some (ptr, s\<lparr>mm_mem := m\<rparr>))"

partial_function (option) coalesce_loop :: "u64 \<Rightarrow> mem \<Rightarrow> mem option" where
  "coalesce_loop current m =
     (if current = 0 \<or> h_next m current = 0 then Some m
      else if h_is_free m current \<noteq> 0 \<and> h_is_free m (h_next m current) \<noteq> 0
      then (let m1 = set_size current (h_size m current + (h_size m (h_next m current) + of_nat sizeof_header)) m;
                m2 = set_next current (h_next m1 (h_next m1 current)) m1
            in coalesce_loop current m2)
      else coalesce_loop (h_next m current) m)"

definition kfree :: "u64 \<Rightarrow> mm \<Rightarrow> mm option" where
  "kfree ptr s =
     (if ptr = 0 then Some s
      else (let header = ptr - of_nat sizeof_header in
            if h_magic (mm_mem s) header \<noteq> HEAP_MAGIC then Some s
            else (case coalesce_loop (heap_start s) (set_is_free header 1 (mm_mem s)) of
                    None \<Rightarrow> None
                  | Some m \<Rightarrow> Some (s\<lparr>mm_mem := m\<rparr>))))"

section \<open>The abstract heap\<close>

type_synonym block = "nat \<times> bool"

fun span :: "block list \<Rightarrow> nat" where
  "span [] = 0"
| "span ((n, f) # bs) = sizeof_header + n + span bs"

fun a_malloc :: "nat \<Rightarrow> nat \<Rightarrow> block list \<Rightarrow> (nat \<times> block list) option" where
  "a_malloc s a [] = None"
| "a_malloc s a ((n, f) # bs) =
     (if f \<and> s \<le> n
      then Some (a + sizeof_header,
             (if s + sizeof_header + 32 < n
              then (s, False) # (n - s - sizeof_header, True) # bs
              else (n, False) # bs))
      else map_option (apsnd ((#) (n, f))) (a_malloc s (a + sizeof_header + n) bs))"

fun a_mark_free :: "nat \<Rightarrow> nat \<Rightarrow> block list \<Rightarrow> block list" where
  "a_mark_free h a [] = []"
| "a_mark_free h a ((n, f) # bs) =
     (if h = a then (n, True) # bs else (n, f) # a_mark_free h (a + sizeof_header + n) bs)"

fun coalesce :: "block list \<Rightarrow> block list" where
  "coalesce [] = []"
| "coalesce [b] = [b]"
| "coalesce ((n, f) # (k, g) # bs) =
     (if f \<and> g then coalesce ((n + (k + sizeof_header), True) # bs)
      else (n, f) # coalesce ((k, g) # bs))"

fun headers :: "nat \<Rightarrow> block list \<Rightarrow> nat list" where
  "headers a [] = []"
| "headers a ((n, f) # bs) = a # headers (a + sizeof_header + n) bs"

text \<open>\<open>header_at m a n f nx\<close>: the header at address \<open>a\<close> describes a block of \<open>n\<close> bytes;
  \<open>heap_list m a bs\<close>: the list of headers from \<open>a\<close> on is \<open>bs\<close>, contiguous in memory.\<close>

definition header_at :: "mem \<Rightarrow> nat \<Rightarrow> nat \<Rightarrow> bool \<Rightarrow> nat \<Rightarrow> bool" where
  "header_at m a n f nx \<longleftrightarrow> h_magic m (of_nat a) = HEAP_MAGIC \<and>
     h_is_free m (of_nat a) = (if f then 1 else 0) \<and>
     h_size m (of_nat a) = of_nat n \<and> h_next m (of_nat a) = of_nat nx"

fun heap_list :: "mem \<Rightarrow> nat \<Rightarrow> block list \<Rightarrow> bool" where
  "heap_list m a [] \<longleftrightarrow> True"
| "heap_list m a ((n, f) # bs) \<longleftrightarrow>
     header_at m a n f (if bs = [] then 0 else a + sizeof_header + n) \<and>
     heap_list m (a + sizeof_header + n) bs"

definition heap_inv :: "mm \<Rightarrow> block list \<Rightarrow> bool" where
  "heap_inv s bs \<longleftrightarrow> bs \<noteq> [] \<and> heap_list (mm_mem s) (unat (heap_start s)) bs \<and>
     64 \<le> unat (heap_start s) \<and> unat (heap_start s) + span bs < 2 ^ 64"

section \<open>Reading headers after writing them\<close>

lemma apart_sub:
  assumes ap: "apart a N b K" and i: "i + n \<le> N" and j: "j + k \<le> K" and pos: "0 < n" "0 < k"
  shows "apart (a + of_nat i) n (b + of_nat j) k"
proof -
  have ne: "a \<noteq> b" using ap i pos by (auto simp: apart_def)
  let ?d = "unat (b - a)"
  have d: "N \<le> ?d" "K \<le> 2 ^ 64 - ?d"
    using ap unat_minus_swap [OF ne] by (auto simp only: apart_def)
  have lt: "?d < 2 ^ 64" using unsigned_less [of "b - a"] by simp
  have jd: "?d + j \<le> 2 ^ 64" "i \<le> ?d + j" using d i j lt by linarith+
  have eq: "(b + of_nat j) - (a + of_nat i) = (of_nat (?d + j - i) :: u64)"
    using jd(2) by (simp add: algebra_simps of_nat_diff)
  have eq': "(a + of_nat i) - (b + of_nat j) = - (of_nat (?d + j - i) :: u64)"
    unfolding eq [symmetric] by simp
  have small: "?d + j - i < 2 ^ 64" using d i j pos lt by linarith
  then have u: "unat (of_nat (?d + j - i) :: u64) = ?d + j - i"
    by (intro unat_of_nat_small) simp
  have "(of_nat (?d + j - i) :: u64) \<noteq> 0"
  proof
    assume "(of_nat (?d + j - i) :: u64) = 0"
    then have "?d + j - i = 0" using u by simp
    then show False using d i pos by linarith
  qed
  then have u': "unat (- (of_nat (?d + j - i) :: u64)) = 2 ^ 64 - (?d + j - i)"
    using unat_uminus64 u by metis
  show ?thesis
    unfolding apart_def eq eq' u u' using d i j by linarith
qed

lemma field_apart:
  assumes "apart h 24 k 24"
  shows "apart h 4 k 4" "apart h 4 (k + 4) 1" "apart h 4 (k + 8) 8" "apart h 4 (k + 16) 8"
    "apart (h + 4) 1 k 4" "apart (h + 4) 1 (k + 4) 1" "apart (h + 4) 1 (k + 8) 8" "apart (h + 4) 1 (k + 16) 8"
    "apart (h + 8) 8 k 4" "apart (h + 8) 8 (k + 4) 1" "apart (h + 8) 8 (k + 8) 8" "apart (h + 8) 8 (k + 16) 8"
    "apart (h + 16) 8 k 4" "apart (h + 16) 8 (k + 4) 1" "apart (h + 16) 8 (k + 8) 8" "apart (h + 16) 8 (k + 16) 8"
  using apart_sub [OF assms, of 0 4 0 4] apart_sub [OF assms, of 0 4 4 1] apart_sub [OF assms, of 0 4 8 8]
    apart_sub [OF assms, of 0 4 16 8] apart_sub [OF assms, of 4 1 0 4] apart_sub [OF assms, of 4 1 4 1]
    apart_sub [OF assms, of 4 1 8 8] apart_sub [OF assms, of 4 1 16 8] apart_sub [OF assms, of 8 8 0 4]
    apart_sub [OF assms, of 8 8 4 1] apart_sub [OF assms, of 8 8 8 8] apart_sub [OF assms, of 8 8 16 8]
    apart_sub [OF assms, of 16 8 0 4] apart_sub [OF assms, of 16 8 4 1] apart_sub [OF assms, of 16 8 8 8]
    apart_sub [OF assms, of 16 8 16 8]
  by (simp_all del: One_nat_def)

lemmas field_defs = h_magic_def h_is_free_def h_size_def h_next_def
  set_magic_def set_is_free_def set_size_def set_next_def

lemma field_other:
  assumes "apart h 24 k 24"
  shows "h_magic (set_magic h v m) k = h_magic m k" "h_magic (set_is_free h b m) k = h_magic m k"
    "h_magic (set_size h w m) k = h_magic m k" "h_magic (set_next h w m) k = h_magic m k"
    "h_is_free (set_magic h v m) k = h_is_free m k" "h_is_free (set_is_free h b m) k = h_is_free m k"
    "h_is_free (set_size h w m) k = h_is_free m k" "h_is_free (set_next h w m) k = h_is_free m k"
    "h_size (set_magic h v m) k = h_size m k" "h_size (set_is_free h b m) k = h_size m k"
    "h_size (set_size h w m) k = h_size m k" "h_size (set_next h w m) k = h_size m k"
    "h_next (set_magic h v m) k = h_next m k" "h_next (set_is_free h b m) k = h_next m k"
    "h_next (set_size h w m) k = h_next m k" "h_next (set_next h w m) k = h_next m k"
  by (simp_all add: field_defs mem_simps field_apart [OF assms] del: One_nat_def)

lemma self_apart:
  "apart h 4 (h + 4) 1" "apart h 4 (h + 8) 8" "apart h 4 (h + 16) 8"
  "apart (h + 4) 1 h 4" "apart (h + 4) 1 (h + 8) 8" "apart (h + 4) 1 (h + 16) 8"
  "apart (h + 8) 8 h 4" "apart (h + 8) 8 (h + 4) 1" "apart (h + 8) 8 (h + 16) 8"
  "apart (h + 16) 8 h 4" "apart (h + 16) 8 (h + 4) 1" "apart (h + 16) 8 (h + 8) 8"
  by (simp_all add: apart_def)

lemma field_same:
  "h_magic (set_magic h v m) h = v" "h_magic (set_is_free h b m) h = h_magic m h"
  "h_magic (set_size h w m) h = h_magic m h" "h_magic (set_next h w m) h = h_magic m h"
  "h_is_free (set_magic h v m) h = h_is_free m h" "h_is_free (set_is_free h b m) h = b"
  "h_is_free (set_size h w m) h = h_is_free m h" "h_is_free (set_next h w m) h = h_is_free m h"
  "h_size (set_magic h v m) h = h_size m h" "h_size (set_is_free h b m) h = h_size m h"
  "h_size (set_size h w m) h = w" "h_size (set_next h w m) h = h_size m h"
  "h_next (set_magic h v m) h = h_next m h" "h_next (set_is_free h b m) h = h_next m h"
  "h_next (set_size h w m) h = h_next m h" "h_next (set_next h w m) h = w"
  by (simp_all add: field_defs mem_simps self_apart del: One_nat_def)

text \<open>Bytes outside an address interval are unchanged.\<close>

definition same_outside :: "nat \<Rightarrow> nat \<Rightarrow> mem \<Rightarrow> mem \<Rightarrow> bool" where
  "same_outside lo hi m m' \<longleftrightarrow> (\<forall>x. \<not> (lo \<le> unat x \<and> unat x < hi) \<longrightarrow> m' x = m x)"

lemma same_outside_refl [simp]: "same_outside lo hi m m"
  by (simp add: same_outside_def)

lemma same_outside_trans:
  "same_outside lo hi m m' \<Longrightarrow> same_outside lo' hi' m' m'' \<Longrightarrow> l \<le> lo \<Longrightarrow> hi \<le> h \<Longrightarrow> l \<le> lo' \<Longrightarrow> hi' \<le> h \<Longrightarrow>
    same_outside l h m m''"
  by (auto simp: same_outside_def)

lemma same_outside_step:
  "same_outside lo hi m m' \<Longrightarrow> same_outside lo hi m' m'' \<Longrightarrow> same_outside lo hi m m''"
  by (auto simp: same_outside_def)

lemma same_outside_mono: "same_outside lo hi m m' \<Longrightarrow> l \<le> lo \<Longrightarrow> hi \<le> h \<Longrightarrow> same_outside l h m m'"
  by (auto simp: same_outside_def)

lemma stn_same_outside:
  assumes "a + length bs \<le> 2 ^ 64" and "0 < length bs"
  shows "same_outside a (a + length bs) m (stn m (of_nat a) bs)"
  unfolding same_outside_def
proof (intro allI impI)
  fix x :: u64
  assume out: "\<not> (a \<le> unat x \<and> unat x < a + length bs)"
  have a: "a < 2 ^ 64" using assms by linarith
  then have ua: "unat (of_nat a :: u64) = a" by (intro unat_of_nat_small) simp
  have "length bs \<le> unat (x - of_nat a)"
  proof (cases "a \<le> unat x")
    case True
    then have "unat (x - of_nat a) = unat x - a"
      by (subst unat_minus_le) (simp_all only: word_le_nat_alt ua)
    with True out show ?thesis by linarith
  next
    case False
    then have "x \<noteq> of_nat a" using ua by auto
    then have "unat (x - of_nat a) = 2 ^ 64 - unat (of_nat a - x)"
      by (rule unat_minus_swap)
    also have "unat (of_nat a - x) = a - unat x"
      using False by (subst unat_minus_le) (simp_all only: word_le_nat_alt ua)
    finally show ?thesis using False assms(1) by linarith
  qed
  then show "stn m (of_nat a) bs x = m x" by (rule stn_outside)
qed

lemma setter_same_outside:
  assumes "a + 24 \<le> 2 ^ 64"
  shows "same_outside a (a + 24) m (set_magic (of_nat a) v m)"
    "same_outside a (a + 24) m (set_is_free (of_nat a) b m)"
    "same_outside a (a + 24) m (set_size (of_nat a) w m)"
    "same_outside a (a + 24) m (set_next (of_nat a) w m)"
proof -
  have off: "of_nat a + 4 = (of_nat (a + 4) :: u64)" "of_nat a + 8 = (of_nat (a + 8) :: u64)"
    "of_nat a + 16 = (of_nat (a + 16) :: u64)" by simp_all
  show "same_outside a (a + 24) m (set_magic (of_nat a) v m)"
    using assms stn_same_outside [of a "le_bytes 4 v" m]
    by (auto simp: field_defs st32_def intro: same_outside_mono)
  show "same_outside a (a + 24) m (set_is_free (of_nat a) b m)"
    using assms stn_same_outside [of "a + 4" "le_bytes 1 b" m]
    unfolding field_defs st8_def off by (auto intro: same_outside_mono)
  show "same_outside a (a + 24) m (set_size (of_nat a) w m)"
    using assms stn_same_outside [of "a + 8" "le_bytes 8 w" m]
    unfolding field_defs st64_def off by (auto intro: same_outside_mono)
  show "same_outside a (a + 24) m (set_next (of_nat a) w m)"
    using assms stn_same_outside [of "a + 16" "le_bytes 8 w" m]
    unfolding field_defs st64_def off by (auto intro: same_outside_mono)
qed

lemma ldn_cong: "(\<And>i. i < n \<Longrightarrow> m' (b + of_nat i) = m (b + of_nat i)) \<Longrightarrow> ldn m' b n = ldn m b n"
  by (simp add: ldn_def)

lemma header_at_frame:
  assumes "a + 24 \<le> 2 ^ 64" and "\<And>x. a \<le> unat x \<Longrightarrow> unat x < a + 24 \<Longrightarrow> m' x = m x"
  shows "header_at m' a n f nx = header_at m a n f nx"
proof -
  have eq: "ldn m' (of_nat (a + k)) l = ldn m (of_nat (a + k)) l" if "k + l \<le> 24" for k l
  proof (rule ldn_cong)
    fix i assume i: "i < l"
    have "a + k + i < 2 ^ 64" using assms(1) that i by linarith
    then have u: "unat (of_nat (a + k) + of_nat i :: u64) = a + k + i"
      unfolding of_nat_add [symmetric] by (intro unat_of_nat_small) simp
    show "m' (of_nat (a + k) + of_nat i) = m (of_nat (a + k) + of_nat i)"
      by (rule assms(2)) (use u that i in linarith)+
  qed
  show ?thesis
    using eq [of 0 4] eq [of 4 1] eq [of 8 8] eq [of 16 8]
    by (simp add: header_at_def h_magic_def h_is_free_def h_size_def h_next_def ld32_def ld8_def ld64_def)
qed

lemma header_at_cong:
  assumes "a + 24 \<le> 2 ^ 64" and "same_outside lo hi m m'" and "a + 24 \<le> lo \<or> hi \<le> a"
  shows "header_at m' a n f nx = header_at m a n f nx"
  by (rule header_at_frame [OF assms(1)]) (use assms(2,3) in \<open>auto simp: same_outside_def\<close>)

lemma heap_list_cong:
  assumes "same_outside lo hi m m'" and "hi \<le> a" and "a + span bs \<le> 2 ^ 64"
  shows "heap_list m' a bs = heap_list m a bs"
  using assms(2,3)
proof (induction bs arbitrary: a)
  case (Cons b bs)
  obtain n f where b: "b = (n, f)" by force
  have "header_at m' a n f nx = header_at m a n f nx" for nx
    using Cons.prems assms(1) by (intro header_at_cong) (auto simp: b sizeof_header_def)
  then show ?case using Cons by (simp add: b sizeof_header_def)
qed simp


lemma header_set:
  "header_at m a n f nx \<Longrightarrow> header_at (set_is_free (of_nat a) 1 m) a n True nx"
  "header_at m a n f nx \<Longrightarrow> header_at (set_is_free (of_nat a) 0 m) a n False nx"
  "header_at m a n f nx \<Longrightarrow> w = of_nat n' \<Longrightarrow> header_at (set_size (of_nat a) w m) a n' f nx"
  "header_at m a n f nx \<Longrightarrow> w = of_nat nx' \<Longrightarrow> header_at (set_next (of_nat a) w m) a n f nx'"
  by (simp_all add: header_at_def field_same)

lemma header_new:
  "header_at (set_next (of_nat a) (of_nat nx) (set_size (of_nat a) (of_nat n)
     (set_is_free (of_nat a) 1 (set_magic (of_nat a) HEAP_MAGIC m)))) a n True nx"
  by (simp add: header_at_def field_same)

lemma unat_nat64_inj: "(of_nat n :: u64) = of_nat k \<Longrightarrow> n < 2 ^ 64 \<Longrightarrow> k < 2 ^ 64 \<Longrightarrow> n = k"
  by (metis unat_nat64)

lemma headers_apart:
  assumes "a + 24 \<le> b" and "b + 24 \<le> 2 ^ 64"
  shows "apart (of_nat a) 24 (of_nat b) 24"
  using assms by (intro apart_linear) (simp_all only: unat_nat64)

lemma split_block_headers:
  assumes hd: "header_at m a n f nx" and room: "s + 24 \<le> n" and lim: "a + 24 + n \<le> 2 ^ 64"
  shows "header_at (split_block (of_nat a) (of_nat s) m) a s f (a + 24 + s)"
    and "header_at (split_block (of_nat a) (of_nat s) m) (a + 24 + s) (n - s - 24) True nx"
    and "same_outside a (a + 24 + n) m (split_block (of_nat a) (of_nat s) m)"
proof -
  define b where "b = a + 24 + s"
  have ab: "apart (of_nat a) 24 (of_nat b) 24" "apart (of_nat b) 24 (of_nat a) 24"
    using headers_apart [of a b] room lim apart_sym by (simp_all add: b_def)
  have b_eq: "of_nat a + of_nat sizeof_header + of_nat s = (of_nat b :: u64)"
    by (simp add: b_def sizeof_header_def)
  have n_eq: "of_nat n - of_nat s - of_nat sizeof_header = (of_nat (n - s - 24) :: u64)"
    using room by (simp add: sizeof_header_def of_nat_diff)
  define m4 where "m4 = set_next (of_nat b) (of_nat nx) (set_size (of_nat b) (of_nat (n - s - 24))
     (set_is_free (of_nat b) 1 (set_magic (of_nat b) HEAP_MAGIC m)))"
  define m6 where "m6 = set_next (of_nat a) (of_nat b) (set_size (of_nat a) (of_nat s) m4)"
  have split: "split_block (of_nat a) (of_nat s) m = m6"
    using hd by (simp add: split_block_def b_eq n_eq m4_def m6_def Let_def field_other [OF ab(2)]
        header_at_def)
  have b_lim: "b + 24 \<le> 2 ^ 64" "a + 24 \<le> 2 ^ 64" "a + 24 \<le> b" "b + 24 \<le> a + 24 + n"
    using room lim by (simp_all add: b_def)
  have out4: "same_outside b (b + 24) m m4"
    unfolding m4_def using b_lim(1)
    by (meson same_outside_step setter_same_outside)
  have out6: "same_outside a (a + 24) m4 m6"
    unfolding m6_def using b_lim(2)
    by (meson same_outside_step setter_same_outside)
  have "header_at m4 a n f nx"
    using header_at_cong [OF b_lim(2) out4] b_lim hd by simp
  then have "header_at m6 a s f b"
    unfolding m6_def by (intro header_set) simp_all
  then show "header_at (split_block (of_nat a) (of_nat s) m) a s f (a + 24 + s)"
    by (simp add: split b_def)
  have "header_at m4 b (n - s - 24) True nx"
    unfolding m4_def by (rule header_new)
  then show "header_at (split_block (of_nat a) (of_nat s) m) (a + 24 + s) (n - s - 24) True nx"
    using header_at_cong [OF b_lim(1) out6] b_lim by (simp add: split b_def)
  show "same_outside a (a + 24 + n) m (split_block (of_nat a) (of_nat s) m)"
    unfolding split using out4 out6 b_lim
    by (auto intro!: same_outside_trans [OF out4 out6])
qed

section \<open>Allocation refines first fit on the block list\<close>

text \<open>\<open>block_at h a bs\<close>: the block whose header is at address \<open>h\<close>.\<close>

fun block_at :: "nat \<Rightarrow> nat \<Rightarrow> block list \<Rightarrow> block option" where
  "block_at h a [] = None"
| "block_at h a ((n, f) # bs) =
     (if h = a then Some (n, f) else block_at h (a + sizeof_header + n) bs)"

lemma block_at_below: "h < a \<Longrightarrow> block_at h a bs = None"
  by (induction bs arbitrary: a) auto

lemma block_at_bounds: "block_at h a bs = Some (n, f) \<Longrightarrow> a \<le> h \<and> h + sizeof_header + n \<le> a + span bs"
  by (induction bs arbitrary: a) (force split: if_splits)+

lemma a_malloc_nonempty: "a_malloc s a bs = Some (p, bs') \<Longrightarrow> bs' \<noteq> []"
  by (cases bs) (auto split: if_splits)

lemma block_words:
  assumes "header_at m a n f nx" and "a + 24 + n \<le> 2 ^ 64" and "64 \<le> a" and "s < 2 ^ 64"
  shows "(of_nat a :: u64) \<noteq> 0" "(of_nat s :: u64) \<le> of_nat n \<longleftrightarrow> s \<le> n" "h_is_free m (of_nat a) \<noteq> 0 \<longleftrightarrow> f"
    "h_size m (of_nat a) = of_nat n" "h_next m (of_nat a) = of_nat nx"
proof -
  show "(of_nat a :: u64) \<noteq> 0"
  proof
    assume "(of_nat a :: u64) = 0"
    then have "unat (of_nat a :: u64) = 0" by simp
    then show False using unat_nat64 [of a] assms(2,3) by linarith
  qed
  have "unat (of_nat n :: u64) = n" "unat (of_nat s :: u64) = s" using assms(2,3,4) by (auto intro!: unat_nat64)
  then show "(of_nat s :: u64) \<le> of_nat n \<longleftrightarrow> s \<le> n" by (simp only: word_le_nat_alt)
qed (use assms(1) in \<open>auto simp: header_at_def\<close>)

text \<open>The first block is free and large enough: it is taken, its rest split off when that is worth it.\<close>

lemma kmalloc_loop_takes:
  assumes hl: "heap_list m a ((n, True) # bs)" and lim': "a + span ((n, True) # bs) \<le> 2 ^ 64" and "64 \<le> a" and "s < 2 ^ 64" and fits: "s \<le> n"
  shows "\<exists>m'. kmalloc_loop (of_nat s) (of_nat a) m = Some (of_nat (a + sizeof_header), m') \<and> same_outside a (a + 24 + n) m m' \<and>
    heap_list m' a (if s + sizeof_header + 32 < n then (s, False) # (n - s - sizeof_header, True) # bs else (n, False) # bs)"
proof -
  let ?nx = "if bs = [] then 0 else a + sizeof_header + n"
  have hd: "header_at m a n True ?nx" and tl: "heap_list m (a + sizeof_header + n) bs" and lim: "a + 24 + n \<le> 2 ^ 64"
    using hl lim' by (auto simp: sizeof_header_def)
  note w = block_words [OF hd lim assms(3,4)]
  have sum: "of_nat s + of_nat sizeof_header + 32 = (of_nat (s + 56) :: u64)" by (simp add: sizeof_header_def)
  have "n < 2 ^ 64" "s + 56 < 2 ^ 64" using fits lim assms(3) by linarith+
  then have big: "(of_nat s + of_nat sizeof_header + 32 :: u64) < of_nat n \<longleftrightarrow> s + sizeof_header + 32 < n"
    unfolding sum by (simp only: word_less_nat_alt unat_nat64) (simp add: sizeof_header_def add.commute)
  define m1 where "m1 = (if s + sizeof_header + 32 < n then split_block (of_nat a) (of_nat s) m else m)"
  define m2 where "m2 = set_is_free (of_nat a) 0 m1"
  have run: "kmalloc_loop (of_nat s) (of_nat a) m = Some (of_nat (a + sizeof_header), m2)"
    using w(1,3) fits by (subst kmalloc_loop.simps) (simp add: w(2,4) big m1_def m2_def)
  have out: "same_outside a (a + 24 + n) m m1" "same_outside a (a + 24) m1 m2"
    using fits lim split_block_headers(3) [OF hd _ lim] setter_same_outside(2) [of a m1 0]
    by (auto simp: m1_def m2_def sizeof_header_def)
  then have out2: "same_outside a (a + 24 + n) m m2" using lim by (intro same_outside_trans [OF out]) simp_all
  have tl2: "heap_list m2 (a + sizeof_header + n) bs"
    using tl lim' heap_list_cong [OF out2, of "a + sizeof_header + n" bs] by (simp add: sizeof_header_def)
  have "heap_list m2 a (if s + sizeof_header + 32 < n then (s, False) # (n - s - sizeof_header, True) # bs else (n, False) # bs)"
  proof (cases "s + sizeof_header + 32 < n")
    case split: True
    have room: "s + 24 \<le> n" using split by (simp add: sizeof_header_def)
    have "header_at m2 a s False (a + 24 + s)"
      unfolding m2_def using split_block_headers(1) [OF hd room lim] split
      by (auto simp: m1_def intro: header_set)
    moreover have "header_at m1 (a + 24 + s) (n - s - 24) True ?nx"
      using split_block_headers(2) [OF hd room lim] split by (simp add: m1_def)
    then have "header_at m2 (a + 24 + s) (n - s - 24) True ?nx"
      using header_at_cong [OF _ out(2), of "a + 24 + s"] room lim by simp
    moreover have "a + 24 + s + 24 + (n - s - 24) = a + 24 + n" using room by simp
    ultimately show ?thesis using split tl2 by (cases "bs = []") (simp_all add: sizeof_header_def add_ac)
  next
    case False
    then have "header_at m2 a n False ?nx" using hd by (auto simp: m2_def m1_def intro: header_set)
    with False tl2 show ?thesis by (simp add: sizeof_header_def)
  qed
  then show ?thesis using run out2 by blast
qed

lemma kmalloc_loop_refines:
  assumes "heap_list m a bs" and "a + span bs \<le> 2 ^ 64" and "64 \<le> a" and "s < 2 ^ 64" and "bs \<noteq> []"
  shows "case a_malloc s a bs of
      None \<Rightarrow> kmalloc_loop (of_nat s) (of_nat a) m = Some (0, m)
    | Some (p, bs') \<Rightarrow> \<exists>m' n. kmalloc_loop (of_nat s) (of_nat a) m = Some (of_nat p, m') \<and>
        heap_list m' a bs' \<and> sizeof_header \<le> p \<and> block_at (p - sizeof_header) a bs = Some (n, True) \<and>
        s \<le> n \<and> same_outside (p - sizeof_header) (p + n) m m'"
  using assms(1,2,3,5)
proof (induction bs arbitrary: a)
  case (Cons b bs)
  obtain n f where b: "b = (n, f)" by force
  let ?nx = "if bs = [] then 0 else a + sizeof_header + n"
  have hd: "header_at m a n f ?nx" and tl: "heap_list m (a + sizeof_header + n) bs"
    and lim: "a + 24 + n \<le> 2 ^ 64" and lim': "a + sizeof_header + n + span bs \<le> 2 ^ 64"
    using Cons.prems by (auto simp: b sizeof_header_def)
  note w = block_words [OF hd lim Cons.prems(3) assms(4)]
  show ?case
  proof (cases "f \<and> s \<le> n")
    case True
    then show ?thesis using kmalloc_loop_takes [of m a n bs s] Cons.prems assms(4) by (auto simp: b sizeof_header_def)
  next
    case False
    have step: "kmalloc_loop (of_nat s) (of_nat a) m = kmalloc_loop (of_nat s) (of_nat ?nx) m"
      using False w(1,3) by (subst kmalloc_loop.simps) (simp only: w(2,4,5), auto)
    show ?thesis
    proof (cases "bs = []")
      case True
      then show ?thesis using False step by (subst (asm) (2) kmalloc_loop.simps) (auto simp: b)
    next
      case ne: False
      define a' where "a' = a + sizeof_header + n"
      have "64 \<le> a'" using Cons.prems(3) by (simp add: a'_def)
      note IH = Cons.IH [OF tl lim' this [unfolded a'_def] ne, folded a'_def]
      have step': "kmalloc_loop (of_nat s) (of_nat a) m = kmalloc_loop (of_nat s) (of_nat a') m"
        using step ne by (simp add: a'_def)
      show ?thesis
      proof (cases "a_malloc s a' bs")
        case None
        with IH step' False show ?thesis by (auto simp: b a'_def)
      next
        case (Some r)
        obtain p bs' where r: "a_malloc s a' bs = Some (p, bs')" using Some by (cases r) auto
        with IH obtain m' k where m': "kmalloc_loop (of_nat s) (of_nat a') m = Some (of_nat p, m')"
          "heap_list m' a' bs'" "sizeof_header \<le> p" "block_at (p - sizeof_header) a' bs = Some (k, True)"
          "s \<le> k" "same_outside (p - sizeof_header) (p + k) m m'" by auto
        have below: "a' \<le> p - sizeof_header" using block_at_bounds [OF m'(4)] by simp
        then have "header_at m' a n f ?nx"
          using hd header_at_cong [OF _ m'(6), of a] lim by (simp add: a'_def sizeof_header_def)
        then have "heap_list m' a ((n, f) # bs')"
          using m'(2) a_malloc_nonempty [OF r] ne by (simp add: a'_def)
        moreover have "block_at (p - sizeof_header) a (b # bs) = Some (k, True)"
          using m'(4) below by (auto simp: b a'_def sizeof_header_def)
        ultimately show ?thesis
          using False r m' step' by (auto simp: b a'_def [symmetric])
      qed
    qed
  qed
qed simp

section \<open>Freeing refines marking and merging\<close>

definition in_header :: "nat \<Rightarrow> block list \<Rightarrow> nat \<Rightarrow> bool" where
  "in_header a bs x \<longleftrightarrow> (\<exists>h\<in>set (headers a bs). h \<le> x \<and> x < h + sizeof_header)"

lemma in_header_Cons:
  "in_header a ((n, f) # bs) x \<longleftrightarrow> a \<le> x \<and> x < a + sizeof_header \<or> in_header (a + sizeof_header + n) bs x"
  by (auto simp: in_header_def)

lemma in_header_bounds: "in_header a bs x \<Longrightarrow> a \<le> x \<and> x < a + span bs"
proof (induction bs arbitrary: a)
  case (Cons b bs)
  obtain n f where "b = (n, f)" by force
  with Cons.prems Cons.IH [of "a + sizeof_header + n"] show ?case by (auto simp: in_header_Cons)
qed (simp add: in_header_def)

lemma block_at_in_header:
  "block_at h a bs = Some (n, f) \<Longrightarrow> h \<le> x \<Longrightarrow> x < h + sizeof_header \<Longrightarrow> in_header a bs x"
  by (induction bs arbitrary: a) (force simp: in_header_Cons split: if_splits)+

lemma block_at_header:
  "heap_list m a bs \<Longrightarrow> block_at h a bs = Some (n, f) \<Longrightarrow> h_magic m (of_nat h) = HEAP_MAGIC"
  by (induction bs arbitrary: a) (auto simp: header_at_def split: if_splits)

lemma of_nat_nonzero: "0 < x \<Longrightarrow> x < 2 ^ 64 \<Longrightarrow> (of_nat x :: u64) \<noteq> 0"
  using unat_nat64 [of x] by (metis less_irrefl unat_0)

lemma mark_free_refines:
  assumes "heap_list m a bs" and "block_at h a bs = Some (n, f)" and "a + span bs \<le> 2 ^ 64"
  shows "heap_list (set_is_free (of_nat h) 1 m) a (a_mark_free h a bs)"
  using assms
proof (induction bs arbitrary: a)
  case (Cons b bs)
  obtain k g where b: "b = (k, g)" by force
  show ?case
  proof (cases "h = a")
    case True
    have "same_outside a (a + 24) m (set_is_free (of_nat a) 1 m)"
      using Cons.prems(3) by (intro setter_same_outside) (simp add: b sizeof_header_def)
    then have "heap_list (set_is_free (of_nat a) 1 m) (a + sizeof_header + k) bs"
      using Cons.prems heap_list_cong [of a "a + 24" m _ "a + sizeof_header + k" bs]
      by (simp add: b sizeof_header_def)
    with True Cons.prems(1) show ?thesis by (auto simp: b intro: header_set)
  next
    case False
    have at: "block_at h (a + sizeof_header + k) bs = Some (n, f)" using Cons.prems(2) False by (simp add: b)
    note bd = block_at_bounds [OF at]
    have "same_outside h (h + 24) m (set_is_free (of_nat h) 1 m)"
      using Cons.prems(3) bd by (intro setter_same_outside) (simp add: b sizeof_header_def)
    then have "header_at (set_is_free (of_nat h) 1 m) a k g nx = header_at m a k g nx" for nx
      using Cons.prems(3) bd by (intro header_at_cong) (auto simp: b sizeof_header_def)
    moreover have "a_mark_free h a' bs = [] \<longleftrightarrow> bs = []" for a' by (cases bs) (auto split: if_splits)
    ultimately show ?thesis using Cons False at by (simp add: b)
  qed
qed simp

lemma coalesce_nonempty [simp]: "coalesce bs = [] \<longleftrightarrow> bs = []"
  by (induction bs rule: coalesce.induct) auto

text \<open>One step of the loop at two free neighbours: the first takes the second in.\<close>

lemma coalesce_loop_merges:
  assumes hd: "header_at m a n True c" and hc: "header_at m c k True (if bs = [] then 0 else d)" and tl: "heap_list m d bs"
    and lim: "d + span bs \<le> 2 ^ 64" "64 \<le> a" and c: "c = a + sizeof_header + n" and d: "d = c + sizeof_header + k"
  shows "\<exists>m2. coalesce_loop (of_nat a) m = coalesce_loop (of_nat a) m2 \<and> same_outside a (a + 24) m m2 \<and>
    heap_list m2 a ((n + (k + sizeof_header), True) # bs)"
proof -
  let ?nx = "if bs = [] then 0 else d"
  have c_lim: "a + 24 \<le> c" "c + 24 \<le> d" "d \<le> 2 ^ 64" using lim(1) by (simp_all add: c d sizeof_header_def)
  have nz: "(of_nat a :: u64) \<noteq> 0" "(of_nat c :: u64) \<noteq> 0" using c_lim lim(2) by (rule_tac [!] of_nat_nonzero) linarith+
  have w: "h_next m (of_nat a) = of_nat c" "h_next m (of_nat c) = of_nat ?nx" "h_size m (of_nat a) = of_nat n"
    "h_size m (of_nat c) = of_nat k" "h_is_free m (of_nat a) \<noteq> 0" "h_is_free m (of_nat c) \<noteq> 0"
    using hd hc by (auto simp: header_at_def)
  define m1 where "m1 = set_size (of_nat a) (of_nat n + (of_nat k + of_nat sizeof_header)) m"
  define m2 where "m2 = set_next (of_nat a) (of_nat ?nx) m1"
  have ap: "apart (of_nat a) 24 (of_nat c) 24" using c_lim by (intro headers_apart) auto
  have step: "coalesce_loop (of_nat a) m = coalesce_loop (of_nat a) m2"
    using nz w(1,2,5,6) by (subst coalesce_loop.simps)
      (simp only: w(3,4) m1_def m2_def field_same field_other [OF ap] Let_def if_True if_False simp_thms)
  have "a + 24 \<le> 2 ^ 64" using c_lim by linarith
  then have out: "same_outside a (a + 24) m m2" unfolding m1_def m2_def by (meson same_outside_step setter_same_outside)
  have "header_at m2 a (n + (k + sizeof_header)) True ?nx"
    unfolding m1_def m2_def by (rule header_set(4) [OF header_set(3) [OF hd]]) simp_all
  moreover have "heap_list m2 d bs" using tl heap_list_cong [OF out _ lim(1)] c_lim by simp
  moreover have "d = a + sizeof_header + (n + (k + sizeof_header))" by (simp add: c d)
  ultimately have "heap_list m2 a ((n + (k + sizeof_header), True) # bs)" by (cases "bs = []") simp_all
  then show ?thesis using step out by blast
qed

lemma coalesce_loop_refines:
  assumes "heap_list m a bs" and "a + span bs \<le> 2 ^ 64" and "64 \<le> a" and "bs \<noteq> []"
  shows "\<exists>m'. coalesce_loop (of_nat a) m = Some m' \<and> heap_list m' a (coalesce bs) \<and>
    (\<forall>x. \<not> in_header a bs (unat x) \<longrightarrow> m' x = m x)"
  using assms
proof (induction bs arbitrary: a m rule: coalesce.induct)
  case (2 b)
  then show ?case by (cases b) (subst coalesce_loop.simps, auto simp: header_at_def)
next
  case (3 n f k g bs)
  define c where "c = a + sizeof_header + n"
  define d where "d = c + sizeof_header + k"
  let ?nx = "if bs = [] then 0 else d"
  have hd: "header_at m a n f c" and hc: "header_at m c k g ?nx" and tl: "heap_list m d bs"
    and lim: "d + span bs \<le> 2 ^ 64" and c_lim: "a + 24 \<le> c" "c + 24 \<le> d" "d \<le> 2 ^ 64"
    using 3(3,4) by (auto simp: c_def d_def sizeof_header_def add_ac)
  have nz: "(of_nat a :: u64) \<noteq> 0" "(of_nat c :: u64) \<noteq> 0"
    using c_lim 3(5) by (rule_tac [!] of_nat_nonzero) linarith+
  have nxt: "h_next m (of_nat a) = of_nat c" "h_next m (of_nat c) = of_nat ?nx"
    and szs: "h_size m (of_nat a) = of_nat n" "h_size m (of_nat c) = of_nat k"
    and fr: "h_is_free m (of_nat a) \<noteq> 0 \<longleftrightarrow> f" "h_is_free m (of_nat c) \<noteq> 0 \<longleftrightarrow> g"
    using hd hc by (auto simp: header_at_def)
  show ?case
  proof (cases "f \<and> g")
    case True
    obtain m2 where step: "coalesce_loop (of_nat a) m = coalesce_loop (of_nat a) m2" and out: "same_outside a (a + 24) m m2"
      and l2: "heap_list m2 a ((n + (k + sizeof_header), True) # bs)"
      using coalesce_loop_merges [OF _ _ tl lim 3(5) c_def d_def] hd hc True by auto
    have d_eq: "d = a + sizeof_header + (n + (k + sizeof_header))" by (simp add: c_def d_def)
    note l2
    moreover have "a + span ((n + (k + sizeof_header), True) # bs) \<le> 2 ^ 64" using lim d_eq by simp
    ultimately obtain m' where m': "coalesce_loop (of_nat a) m2 = Some m'"
      "heap_list m' a (coalesce ((n + (k + sizeof_header), True) # bs))"
      "\<forall>x. \<not> in_header a ((n + (k + sizeof_header), True) # bs) (unat x) \<longrightarrow> m' x = m2 x"
      using 3(1) [OF True] 3(5) by blast
    have "m' x = m x" if "\<not> in_header a ((n, f) # (k, g) # bs) (unat x)" for x
    proof -
      have "\<not> in_header a ((n + (k + sizeof_header), True) # bs) (unat x)"
        using that d_eq by (auto simp: in_header_Cons c_def d_def add_ac)
      moreover have "m2 x = m x"
        using that out by (auto simp: in_header_Cons same_outside_def sizeof_header_def)
      ultimately show ?thesis using m'(3) by simp
    qed
    with m' step True show ?thesis by auto
  next
    case False
    have step: "coalesce_loop (of_nat a) m = coalesce_loop (of_nat c) m"
      using False nz fr nxt by (subst coalesce_loop.simps) auto
    have "heap_list m c ((k, g) # bs)" using hc tl by (cases "bs = []") (simp_all add: d_def)
    moreover have "c + span ((k, g) # bs) \<le> 2 ^ 64" using lim by (simp add: d_def)
    moreover have "64 \<le> c" using c_lim 3(5) by simp
    ultimately obtain m' where m': "coalesce_loop (of_nat c) m = Some m'"
      "heap_list m' c (coalesce ((k, g) # bs))"
      "\<forall>x. \<not> in_header c ((k, g) # bs) (unat x) \<longrightarrow> m' x = m x"
      using 3(2) [OF False] by blast
    have "same_outside c (c + span ((k, g) # bs)) m m'"
      using m'(3) in_header_bounds [of c "(k, g) # bs"] unfolding same_outside_def by blast
    then have "header_at m' a n f c"
      using hd header_at_cong [of a c _ m m' n f c] c_lim by simp
    then have "heap_list m' a (coalesce ((n, f) # (k, g) # bs))"
      using False m'(2) by (cases f; cases g; simp add: c_def)
    moreover have "m' x = m x" if "\<not> in_header a ((n, f) # (k, g) # bs) (unat x)" for x
      using that m'(3) by (auto simp: in_header_Cons [of a] c_def)
    ultimately show ?thesis using step m'(1) by auto
  qed
qed simp

section \<open>The block list\<close>

lemma span_a_malloc: "a_malloc s a bs = Some (p, bs') \<Longrightarrow> span bs' = span bs"
  by (induction bs arbitrary: a bs') (auto split: if_splits)

lemma span_a_mark_free [simp]: "span (a_mark_free h a bs) = span bs"
  by (induction bs arbitrary: a) auto

lemma span_coalesce [simp]: "span (coalesce bs) = span bs"
  by (induction bs rule: coalesce.induct) auto

lemma a_mark_free_nonempty [simp]: "a_mark_free h a bs = [] \<longleftrightarrow> bs = []"
  by (cases bs) (auto split: if_splits)

lemma block_at_used_a_malloc:
  assumes "a_malloc s a bs = Some (p, bs')" and "block_at h a bs = Some (n, False)"
  shows "block_at h a bs' = Some (n, False)"
  using assms
proof (induction bs arbitrary: a bs')
  case (Cons b bs)
  obtain k f where b: "b = (k, f)" by force
  show ?case
  proof (cases "f \<and> s \<le> k")
    case True
    then have h: "h \<noteq> a" "block_at h (a + sizeof_header + k) bs = Some (n, False)"
      using Cons.prems(2) by (auto simp: b split: if_splits)
    note bd = block_at_bounds [OF h(2)]
    have "a + sizeof_header + s + sizeof_header + (k - s - sizeof_header) = a + sizeof_header + k"
      if "s + sizeof_header + 32 < k" using that by simp
    moreover have "h \<noteq> a + sizeof_header + s" if "s + sizeof_header + 32 < k"
      using bd that by linarith
    ultimately show ?thesis using True h Cons.prems(1) by (auto simp: b add.assoc split: if_splits)
  next
    case False
    then show ?thesis using Cons by (auto simp: b split: if_splits)
  qed
qed simp

lemma block_at_a_malloc:
  assumes "a_malloc s a bs = Some (p, bs')"
  shows "\<exists>n. block_at (p - sizeof_header) a bs' = Some (n, False) \<and> s \<le> n \<and> n \<le> s + sizeof_header + 32 \<and>
    a + sizeof_header \<le> p"
  using assms
proof (induction bs arbitrary: a bs')
  case (Cons b bs)
  obtain k f where b: "b = (k, f)" by force
  show ?case
  proof (cases "f \<and> s \<le> k")
    case True
    then show ?thesis using Cons.prems by (auto simp: b split: if_splits)
  next
    case False
    then obtain r where r: "a_malloc s (a + sizeof_header + k) bs = Some (p, r)" "bs' = (k, f) # r"
      using Cons.prems by (auto simp: b)
    then show ?thesis using Cons.IH [OF r(1)] by (auto simp: sizeof_header_def)
  qed
qed simp

lemma block_at_a_mark_free:
  assumes "block_at h a bs = Some (n, f)" and "h' \<noteq> h"
  shows "block_at h' a (a_mark_free h a bs) = block_at h' a bs"
  using assms by (induction bs arbitrary: a) (auto split: if_splits)

lemma block_at_coalesce:
  "block_at h a bs = Some (n, False) \<Longrightarrow> block_at h a (coalesce bs) = Some (n, False)"
proof (induction bs arbitrary: a rule: coalesce.induct)
  case (3 k f l g bs)
  show ?case
  proof (cases "f \<and> g")
    case True
    then have "h \<noteq> a" "block_at h (a + sizeof_header + k + sizeof_header + l) bs = Some (n, False)"
      using "3.prems" by (auto split: if_splits)
    then show ?thesis using True 3(1) [OF True, of a] by (simp add: add_ac)
  qed (use 3 in \<open>auto split: if_splits\<close>)
qed auto

fun coalesced :: "block list \<Rightarrow> bool" where
  "coalesced ((n, f) # (k, g) # bs) \<longleftrightarrow> \<not> (f \<and> g) \<and> coalesced ((k, g) # bs)"
| "coalesced bs \<longleftrightarrow> True"

lemma coalesce_head: "\<exists>k bs'. coalesce ((n, f) # bs) = (k, f) # bs'"
  by (induction "(n, f) # bs" arbitrary: n f bs rule: coalesce.induct) (auto simp: numeral_eq_Suc)

lemma coalesced_coalesce: "coalesced (coalesce bs)"
proof (induction bs rule: coalesce.induct)
  case (2 b)
  then show ?case by (cases b) simp
next
  case (3 n f k g bs)
  then show ?case using coalesce_head [of k g bs] by auto
qed simp

lemma coalesce_id: "coalesced bs \<Longrightarrow> coalesce bs = bs"
  by (induction bs rule: coalesce.induct) auto

lemma coalesce_cong: "coalesce xs = coalesce ys \<Longrightarrow> xs \<noteq> [] \<Longrightarrow> ys \<noteq> [] \<Longrightarrow> snd (hd xs) = snd (hd ys) \<Longrightarrow>
    \<not> (f \<and> snd (hd xs)) \<Longrightarrow> coalesce ((n, f) # xs) = coalesce ((n, f) # ys)"
  by (cases xs; cases ys) auto

text \<open>Marking the block that an allocation carved out and merging gives back the list the
  allocation started from.\<close>

lemma a_malloc_above: "a_malloc s a bs = Some (p, bs') \<Longrightarrow> a + sizeof_header \<le> p"
  using block_at_a_malloc by blast

lemma free_after_malloc:
  assumes "a_malloc s a bs = Some (p, bs')" and "coalesced bs"
  shows "coalesce (a_mark_free (p - sizeof_header) a bs') = bs"
  using assms
proof (induction bs arbitrary: a bs')
  case (Cons b bs)
  obtain k f where b: "b = (k, f)" by force
  have tl: "coalesced bs" using Cons.prems(2) by (cases bs) (auto simp: b)
  show ?case
  proof (cases "f \<and> s \<le> k")
    case True
    then show ?thesis using Cons.prems coalesce_id [OF Cons.prems(2)]
      by (auto simp: b split: if_splits)
  next
    case False
    then obtain r where r: "a_malloc s (a + sizeof_header + k) bs = Some (p, r)" "bs' = (k, f) # r"
      using Cons.prems by (auto simp: b)
    note IH = Cons.IH [OF r(1) tl]
    have ne: "p - sizeof_header \<noteq> a" using a_malloc_above [OF r(1)] by (simp add: sizeof_header_def)
    let ?t = "a_mark_free (p - sizeof_header) (a + sizeof_header + k) r"
    obtain n g xs where t: "?t = (n, g) # xs"
      using a_malloc_nonempty [OF r(1)] by (cases ?t) auto
    obtain n' ys where bs: "bs = (n', g) # ys"
      using IH coalesce_head [of n g xs] by (auto simp: t)
    have "\<not> (f \<and> g)" using Cons.prems(2) by (simp add: b bs)
    then have "coalesce ((k, f) # (n, g) # xs) = (k, f) # coalesce ((n, g) # xs)" by auto
    then show ?thesis using IH ne t by (simp add: r b del: coalesce.simps)
  qed
qed simp

section \<open>The allocator as seen by its clients\<close>

lemma header_atD:
  "header_at m a n f nx \<Longrightarrow> h_size m (of_nat a) = of_nat n"
  "header_at m a n f nx \<Longrightarrow> h_next m (of_nat a) = of_nat nx"
  by (simp_all add: header_at_def)

lemma heap_list_unique:
  assumes "heap_list m a bs" and "heap_list m a bs'" and "bs \<noteq> []" and "bs' \<noteq> []"
    and "a + span bs \<le> 2 ^ 64" and "a + span bs' \<le> 2 ^ 64" and "64 \<le> a"
  shows "bs = bs'"
  using assms
proof (induction bs arbitrary: a bs')
  case (Cons b bs)
  obtain n f where b: "b = (n, f)" by force
  obtain k g cs where bs': "bs' = (k, g) # cs" using Cons.prems(4) by (cases bs') auto
  have hd: "header_at m a n f (if bs = [] then 0 else a + sizeof_header + n)"
    "header_at m a k g (if cs = [] then 0 else a + sizeof_header + k)"
    using Cons.prems(1,2) by (simp_all add: b bs')
  have lim: "n < 2 ^ 64" "k < 2 ^ 64" "a + sizeof_header + n + span bs \<le> 2 ^ 64"
    "a + sizeof_header + k + span cs \<le> 2 ^ 64"
    using Cons.prems(5,6) by (auto simp: b bs' sizeof_header_def)
  have "(of_nat n :: u64) = of_nat k"
    by (rule trans [OF sym [OF header_atD(1) [OF hd(1)]] header_atD(1) [OF hd(2)]])
  moreover have "f = g" using hd by (cases f; cases g) (simp_all add: header_at_def)
  moreover have "n = k" by (rule unat_nat64_inj [OF calculation(1) lim(1,2)])
  ultimately have nk: "n = k" "f = g" by blast+
  have nz: "(of_nat (a + sizeof_header + n) :: u64) \<noteq> 0" if "0 < span xs" "a + sizeof_header + n + span xs \<le> 2 ^ 64" for xs
    using that Cons.prems(7) by (intro of_nat_nonzero) linarith+
  have pos: "0 < span xs" if "xs \<noteq> []" for xs using that by (cases xs) (auto simp: sizeof_header_def)
  have nx: "(of_nat (if bs = [] then 0 else a + sizeof_header + n) :: u64) =
      of_nat (if cs = [] then 0 else a + sizeof_header + k)"
    by (rule trans [OF sym [OF header_atD(2) [OF hd(1)]] header_atD(2) [OF hd(2)]])
  show ?case
  proof (cases "bs = []")
    case True
    have "cs = []"
    proof (rule ccontr)
      assume "cs \<noteq> []"
      then show False using nx True nz [OF pos [of cs]] lim(4) nk by simp
    qed
    then show ?thesis using True nk by (simp add: b bs')
  next
    case False
    have "cs \<noteq> []"
    proof
      assume "cs = []"
      then show False using nx False nz [OF pos [OF False] lim(3)] nk by simp
    qed
    then show ?thesis
      using Cons.IH [of "a + sizeof_header + n" cs] Cons.prems(1,2,7) False lim nk by (simp add: b bs')
  qed
qed simp

lemma heap_inv_unique: "heap_inv s bs \<Longrightarrow> heap_inv s bs' \<Longrightarrow> bs = bs'"
  using heap_list_unique [of "mm_mem s" "unat (heap_start s)" bs bs'] by (simp add: heap_inv_def)

lemma kmalloc_result:
  fixes sz :: u64
  assumes "heap_inv s bs"
  defines "a \<equiv> unat (heap_start s)" and "need \<equiv> unat (round_size sz)"
  shows "case a_malloc need a bs of
      None \<Rightarrow> kmalloc sz s = Some (0, s)
    | Some (p, bs') \<Rightarrow> \<exists>s' n. kmalloc sz s = Some (of_nat p, s') \<and> p < 2 ^ 64 \<and>
        heap_inv s' bs' \<and> s' = s\<lparr>mm_mem := mm_mem s'\<rparr> \<and>
        block_at (p - sizeof_header) a bs = Some (n, True) \<and> need \<le> n \<and>
        same_outside (p - sizeof_header) (p + n) (mm_mem s) (mm_mem s')"
proof -
  have inv: "heap_list (mm_mem s) a bs" "a + span bs \<le> 2 ^ 64" "64 \<le> a" "bs \<noteq> []" "a + span bs < 2 ^ 64"
    using assms(1) by (auto simp: heap_inv_def a_def)
  have need: "need < 2 ^ 64" unfolding need_def using unsigned_less [of "round_size sz"] by simp
  have w: "(of_nat a :: u64) = heap_start s" "(of_nat need :: u64) = round_size sz"
    by (simp_all add: a_def need_def)
  note R = kmalloc_loop_refines [OF inv(1,2,3) need inv(4), unfolded w]
  show ?thesis
  proof (cases "a_malloc need a bs")
    case None
    with R show ?thesis by (simp add: kmalloc_def)
  next
    case (Some r)
    obtain p bs' where r: "a_malloc need a bs = Some (p, bs')" using Some by (cases r) auto
    with R obtain m' n where m': "kmalloc_loop (round_size sz) (heap_start s) (mm_mem s) = Some (of_nat p, m')"
      "heap_list m' a bs'" "sizeof_header \<le> p" "block_at (p - sizeof_header) a bs = Some (n, True)"
      "need \<le> n" "same_outside (p - sizeof_header) (p + n) (mm_mem s) m'" by auto
    have "p + n \<le> a + span bs" using block_at_bounds [OF m'(4)] m'(3) by simp
    then have "p < 2 ^ 64" using inv(5) by linarith
    moreover have "heap_inv (s\<lparr>mm_mem := m'\<rparr>) bs'"
      using m'(2) inv span_a_malloc [OF r] a_malloc_nonempty [OF r] by (simp add: heap_inv_def a_def)
    ultimately show ?thesis
      using r m' by (auto simp: kmalloc_def intro!: exI [of _ "s\<lparr>mm_mem := m'\<rparr>"])
  qed
qed

lemma kfree_result:
  assumes inv: "heap_inv s bs" and at: "block_at h (unat (heap_start s)) bs = Some (n, f)"
  defines "a \<equiv> unat (heap_start s)"
  shows "\<exists>s'. kfree (of_nat (h + sizeof_header)) s = Some s' \<and> s' = s\<lparr>mm_mem := mm_mem s'\<rparr> \<and>
    heap_inv s' (coalesce (a_mark_free h a bs)) \<and>
    (\<forall>x. \<not> in_header a bs (unat x) \<longrightarrow> mm_mem s' x = mm_mem s x)"
proof -
  have hl: "heap_list (mm_mem s) a bs" "a + span bs \<le> 2 ^ 64" "64 \<le> a" "bs \<noteq> []" "a + span bs < 2 ^ 64"
    and at: "block_at h a bs = Some (n, f)"
    using inv at by (auto simp: heap_inv_def a_def)
  have w: "(of_nat a :: u64) = heap_start s" by (simp add: a_def)
  note bd = block_at_bounds [OF at]
  have "(of_nat (h + sizeof_header) :: u64) \<noteq> 0"
    using bd hl by (intro of_nat_nonzero) linarith+
  moreover have "of_nat (h + sizeof_header) - of_nat sizeof_header = (of_nat h :: u64)" by simp
  moreover have "h_magic (mm_mem s) (of_nat h) = HEAP_MAGIC" using block_at_header [OF hl(1) at] .
  moreover define m1 where "m1 = set_is_free (of_nat h) 1 (mm_mem s)"
  ultimately have run: "kfree (of_nat (h + sizeof_header)) s =
      map_option (\<lambda>m. s\<lparr>mm_mem := m\<rparr>) (coalesce_loop (heap_start s) m1)"
    unfolding kfree_def Let_def by (auto split: option.splits)
  have m1: "heap_list m1 a (a_mark_free h a bs)"
    unfolding m1_def by (rule mark_free_refines [OF hl(1) at hl(2)])
  obtain m' where m': "coalesce_loop (heap_start s) m1 = Some m'"
    "heap_list m' a (coalesce (a_mark_free h a bs))"
    "\<forall>x. \<not> in_header a (a_mark_free h a bs) (unat x) \<longrightarrow> m' x = m1 x"
    using coalesce_loop_refines [OF m1] hl w by auto
  have "headers a' (a_mark_free h a' bs) = headers a' bs" for a'
    by (induction bs arbitrary: a') auto
  then have ih: "in_header a (a_mark_free h a bs) x = in_header a bs x" for x
    by (simp add: in_header_def)
  have "m' x = mm_mem s x" if "\<not> in_header a bs (unat x)" for x
  proof -
    have "h + 24 \<le> 2 ^ 64" using bd hl by (simp add: sizeof_header_def)
    then have "same_outside h (h + 24) (mm_mem s) m1" unfolding m1_def by (rule setter_same_outside)
    then have "m1 x = mm_mem s x"
      using that block_at_in_header [OF at, of "unat x"] unfolding same_outside_def sizeof_header_def by blast
    with m'(3) that ih show ?thesis by simp
  qed
  moreover have "heap_inv (s\<lparr>mm_mem := m'\<rparr>) (coalesce (a_mark_free h a bs))"
    using m'(2) hl by (simp add: heap_inv_def a_def)
  ultimately show ?thesis using run m'(1) by (auto intro!: exI [of _ "s\<lparr>mm_mem := m'\<rparr>"])
qed

lemma block_payload_not_header:
  assumes "block_at h a bs = Some (n, f)" and "h + sizeof_header \<le> x" and "x < h + sizeof_header + n"
  shows "\<not> in_header a bs x"
  using assms
proof (induction bs arbitrary: a)
  case (Cons b bs)
  obtain k g where b: "b = (k, g)" by force
  show ?case
  proof (cases "h = a")
    case True
    with Cons.prems in_header_bounds [of "a + sizeof_header + k" bs x] show ?thesis
      by (auto simp: b in_header_Cons)
  next
    case False
    then have at: "block_at h (a + sizeof_header + k) bs = Some (n, f)" using Cons.prems(1) by (simp add: b)
    with Cons block_at_bounds [OF at] show ?thesis by (auto simp: b in_header_Cons)
  qed
qed simp

lemma blocks_disjoint:
  assumes "block_at h a bs = Some (n, f)" and "block_at h' a bs = Some (n', f')" and "h \<noteq> h'"
  shows "h + sizeof_header + n \<le> h' \<or> h' + sizeof_header + n' \<le> h"
  using assms
proof (induction bs arbitrary: a)
  case (Cons b bs)
  obtain k g where b: "b = (k, g)" by force
  show ?case
    using Cons block_at_bounds [of h "a + sizeof_header + k" bs n f]
      block_at_bounds [of h' "a + sizeof_header + k" bs n' f']
    by (auto simp: b split: if_splits)
qed simp

lemma heap_list_frame:
  assumes "a + span bs \<le> 2 ^ 64" and "\<And>x. in_header a bs (unat x) \<Longrightarrow> m' x = m x"
  shows "heap_list m' a bs = heap_list m a bs"
  using assms
proof (induction bs arbitrary: a)
  case (Cons b bs)
  obtain n f where b: "b = (n, f)" by force
  have "header_at m' a n f nx = header_at m a n f nx" for nx
    using Cons.prems by (intro header_at_frame) (auto simp: b sizeof_header_def in_header_Cons)
  moreover have "heap_list m' (a + sizeof_header + n) bs = heap_list m (a + sizeof_header + n) bs"
    using Cons.prems by (intro Cons.IH) (auto simp: b in_header_Cons)
  ultimately show ?case by (simp add: b)
qed simp

lemma coalesced_Cons: "coalesced (b # bs) \<longleftrightarrow> coalesced bs \<and> (bs = [] \<or> \<not> (snd b \<and> snd (hd bs)))"
  by (cases b; cases bs) auto

lemma coalesced_a_malloc:
  assumes "a_malloc s a bs = Some (p, bs')" and "coalesced bs"
  shows "coalesced bs' \<and> (snd (hd bs') \<longrightarrow> snd (hd bs))"
  using assms
proof (induction bs arbitrary: a bs')
  case (Cons b bs)
  obtain k f where b: "b = (k, f)" by force
  show ?case
  proof (cases "f \<and> s \<le> k")
    case True
    then show ?thesis using Cons.prems by (auto simp: b coalesced_Cons split: if_splits)
  next
    case False
    then obtain r where r: "a_malloc s (a + sizeof_header + k) bs = Some (p, r)" "bs' = (k, f) # r"
      using Cons.prems by (auto simp: b)
    moreover have "bs \<noteq> []" using r(1) by auto
    ultimately show ?thesis
      using Cons.IH [OF r(1)] Cons.prems(2) a_malloc_nonempty [OF r(1)] by (auto simp: b coalesced_Cons)
  qed
qed simp

lemma coalesced_all_free: "coalesced bs \<Longrightarrow> \<forall>b\<in>set bs. snd b \<Longrightarrow> length bs \<le> 1"
  by (induction bs rule: coalesced.induct) auto

lemma used_block_at: "b \<in> set bs \<Longrightarrow> \<not> snd b \<Longrightarrow> \<exists>h. block_at h a bs = Some (fst b, False)"
proof (induction bs arbitrary: a)
  case (Cons c bs)
  obtain n f where c: "c = (n, f)" by force
  show ?case
  proof (cases "b = c")
    case True
    then show ?thesis using Cons.prems by (auto simp: c intro!: exI [of _ a])
  next
    case False
    then obtain h where h: "block_at h (a + sizeof_header + n) bs = Some (fst b, False)"
      using Cons by auto
    then have "h \<noteq> a" using block_at_bounds [OF h] by (auto simp: sizeof_header_def)
    with h show ?thesis by (auto simp: c intro!: exI [of _ h])
  qed
qed simp

text \<open>\<open>allocated s p n\<close>: \<open>p\<close> points at the \<open>n\<close> payload bytes of a block in use.\<close>

definition allocated :: "mm \<Rightarrow> u64 \<Rightarrow> nat \<Rightarrow> bool" where
  "allocated s p n \<longleftrightarrow> sizeof_header \<le> unat p \<and> (\<exists>bs. heap_inv s bs \<and>
     block_at (unat p - sizeof_header) (unat (heap_start s)) bs = Some (n, False))"

lemma allocated_iff:
  "heap_inv s bs \<Longrightarrow> allocated s p n \<longleftrightarrow> sizeof_header \<le> unat p \<and>
     block_at (unat p - sizeof_header) (unat (heap_start s)) bs = Some (n, False)"
  unfolding allocated_def using heap_inv_unique by blast

lemma payload_addr:
  assumes "heap_inv s bs" and "allocated s p n" and "i < n"
  shows "unat (p + of_nat i) = unat p + i"
    and "\<not> in_header (unat (heap_start s)) bs (unat (p + of_nat i))"
proof -
  have at: "block_at (unat p - sizeof_header) (unat (heap_start s)) bs = Some (n, False)"
    and pl: "sizeof_header \<le> unat p" using allocated_iff [OF assms(1)] assms(2) by auto
  note bd = block_at_bounds [OF at]
  have lim: "unat (heap_start s) + span bs < 2 ^ 64" using assms(1) by (simp add: heap_inv_def)
  have pi: "unat p + i < 2 ^ 64" and i: "i < 2 ^ 64" using bd lim assms(3) pl by linarith+
  show u: "unat (p + of_nat i) = unat p + i"
    using pi i by (subst unat_plus_small) simp_all
  show "\<not> in_header (unat (heap_start s)) bs (unat (p + of_nat i))"
    unfolding u using pl assms(3) by (intro block_payload_not_header [OF at]) linarith+
qed

text \<open>A client that writes only inside its own block does not disturb the heap.\<close>

lemma heap_payload_write:
  assumes inv: "heap_inv s bs" and live: "allocated s p n"
    and out: "same_outside (unat p) (unat p + n) (mm_mem s) m'"
  shows "heap_inv (s\<lparr>mm_mem := m'\<rparr>) bs" and "allocated (s\<lparr>mm_mem := m'\<rparr>) q k \<longleftrightarrow> allocated s q k"
proof -
  have at: "block_at (unat p - sizeof_header) (unat (heap_start s)) bs = Some (n, False)"
    and le: "sizeof_header \<le> unat p" using allocated_iff [OF inv] live by auto
  have "m' x = mm_mem s x" if "in_header (unat (heap_start s)) bs (unat x)" for x
  proof -
    have "\<not> (unat p \<le> unat x \<and> unat x < unat p + n)"
      using that block_payload_not_header [OF at, of "unat x"] le by auto
    with out show ?thesis by (simp add: same_outside_def)
  qed
  then have "heap_list m' (unat (heap_start s)) bs = heap_list (mm_mem s) (unat (heap_start s)) bs"
    using inv by (intro heap_list_frame) (auto simp: heap_inv_def)
  with inv show inv': "heap_inv (s\<lparr>mm_mem := m'\<rparr>) bs" by (simp add: heap_inv_def)
  show "allocated (s\<lparr>mm_mem := m'\<rparr>) q k \<longleftrightarrow> allocated s q k"
    using allocated_iff [OF inv] allocated_iff [OF inv'] by simp
qed

lemma allocated_bounds:
  assumes "heap_inv s bs" and "allocated s p n"
  shows "64 \<le> unat p" and "unat p + n < 2 ^ 64"
proof -
  have at: "block_at (unat p - sizeof_header) (unat (heap_start s)) bs = Some (n, False)"
    and le: "sizeof_header \<le> unat p" using allocated_iff [OF assms(1)] assms(2) by auto
  note bd = block_at_bounds [OF at]
  have "64 \<le> unat (heap_start s)" "unat (heap_start s) + span bs < 2 ^ 64"
    using assms(1) by (auto simp: heap_inv_def)
  then show "64 \<le> unat p" "unat p + n < 2 ^ 64" using bd le by linarith+
qed

section \<open>The interface the rest of the kernel relies on\<close>

text \<open>What \<^verbatim>\<open>kmalloc\<close> and \<^verbatim>\<open>kfree\<close> promise to a client: requests are
  answered, a granted block is large enough, blocks in use never meet, and no call moves or
  changes a block in use other than the one it frees.\<close>

locale allocator =
  fixes alloc :: "u64 \<Rightarrow> 's \<Rightarrow> (u64 \<times> 's) option"
    and release :: "u64 \<Rightarrow> 's \<Rightarrow> 's option"
    and ok :: "'s \<Rightarrow> bool"
    and live :: "'s \<Rightarrow> u64 \<Rightarrow> nat \<Rightarrow> bool"
    and byte :: "'s \<Rightarrow> u64 \<Rightarrow> u8"
    and granted :: "u64 \<Rightarrow> nat"
  assumes alloc_total: "ok s \<Longrightarrow> \<exists>p s'. alloc sz s = Some (p, s') \<and> ok s'"
    and alloc_null: "ok s \<Longrightarrow> alloc sz s = Some (0, s') \<Longrightarrow> s' = s"
    and alloc_live: "ok s \<Longrightarrow> alloc sz s = Some (p, s') \<Longrightarrow> p \<noteq> 0 \<Longrightarrow> \<exists>n\<ge>granted sz. live s' p n"
    and alloc_keeps: "ok s \<Longrightarrow> alloc sz s = Some (p, s') \<Longrightarrow> live s q n \<Longrightarrow>
      live s' q n \<and> q \<noteq> p \<and> (\<forall>i<n. byte s' (q + of_nat i) = byte s (q + of_nat i))"
    and live_disjoint: "ok s \<Longrightarrow> live s p n \<Longrightarrow> live s q k \<Longrightarrow> p \<noteq> q \<Longrightarrow>
      unat p + n \<le> unat q \<or> unat q + k \<le> unat p"
    and release_total: "ok s \<Longrightarrow> live s p n \<Longrightarrow> \<exists>s'. release p s = Some s' \<and> ok s'"
    and release_keeps: "ok s \<Longrightarrow> live s p n \<Longrightarrow> release p s = Some s' \<Longrightarrow> live s q k \<Longrightarrow> q \<noteq> p \<Longrightarrow>
      live s' q k \<and> (\<forall>i<k. byte s' (q + of_nat i) = byte s (q + of_nat i))"
begin

lemma ok_alloc: "ok s \<Longrightarrow> alloc sz s = Some (p, s') \<Longrightarrow> ok s'"
  using alloc_total [of s sz] by auto

lemma ok_release: "ok s \<Longrightarrow> live s p n \<Longrightarrow> release p s = Some s' \<Longrightarrow> ok s'"
  using release_total [of s p n] by auto

text \<open>Two blocks in use do not overlap. Freeing the one leaves the other in use with its content, and so does
  every further request, whose answer is either null or a block away from both.\<close>

lemma isolation:
  assumes "ok s" and p: "live s p n" and q: "live s q k" and ne: "p \<noteq> q"
  shows "(unat p + n \<le> unat q \<or> unat q + k \<le> unat p) \<and>
    (\<exists>s'. release p s = Some s' \<and> ok s' \<and> live s' q k \<and>
       (\<forall>i<k. byte s' (q + of_nat i) = byte s (q + of_nat i))) \<and>
    (\<exists>r s'. alloc sz s = Some (r, s') \<and> ok s' \<and> live s' p n \<and> live s' q k \<and>
       (\<forall>i<k. byte s' (q + of_nat i) = byte s (q + of_nat i)) \<and>
       (r \<noteq> 0 \<longrightarrow> (\<exists>m\<ge>granted sz. live s' r m \<and> (unat r + m \<le> unat q \<or> unat q + k \<le> unat r))))"
proof (intro conjI)
  show "unat p + n \<le> unat q \<or> unat q + k \<le> unat p" by (rule live_disjoint [OF assms])
  obtain s1 where s1: "release p s = Some s1" "ok s1" using release_total [OF assms(1) p] by blast
  have "live s1 q k \<and> (\<forall>i<k. byte s1 (q + of_nat i) = byte s (q + of_nat i))"
    using release_keeps [OF assms(1) p s1(1) q] ne by simp
  then show "\<exists>s'. release p s = Some s' \<and> ok s' \<and> live s' q k \<and> (\<forall>i<k. byte s' (q + of_nat i) = byte s (q + of_nat i))"
    using s1 by blast
  obtain r s2 where s2: "alloc sz s = Some (r, s2)" "ok s2" using alloc_total [OF assms(1)] by blast
  note kp = alloc_keeps [OF assms(1) s2(1) p] and kq = alloc_keeps [OF assms(1) s2(1) q]
  have "\<exists>m\<ge>granted sz. live s2 r m \<and> (unat r + m \<le> unat q \<or> unat q + k \<le> unat r)" if r: "r \<noteq> 0"
  proof -
    obtain m where m: "granted sz \<le> m" "live s2 r m" using alloc_live [OF assms(1) s2(1) r] by blast
    have "unat r + m \<le> unat q \<or> unat q + k \<le> unat r" by (rule live_disjoint [OF s2(2) m(2)]) (use kq in auto)
    then show ?thesis using m by blast
  qed
  then show "\<exists>r s'. alloc sz s = Some (r, s') \<and> ok s' \<and> live s' p n \<and> live s' q k \<and>
      (\<forall>i<k. byte s' (q + of_nat i) = byte s (q + of_nat i)) \<and>
      (r \<noteq> 0 \<longrightarrow> (\<exists>m\<ge>granted sz. live s' r m \<and> (unat r + m \<le> unat q \<or> unat q + k \<le> unat r)))"
    using s2 kp kq by blast
qed

end

definition heap_ok :: "mm \<Rightarrow> bool" where
  "heap_ok s \<longleftrightarrow> (\<exists>bs. heap_inv s bs)"

lemma kmalloc_cases:
  assumes inv: "heap_inv s bs" and run: "kmalloc sz s = Some (p, s')"
  obtains "p = 0" "s' = s" "a_malloc (unat (round_size sz)) (unat (heap_start s)) bs = None"
  | bs' n where "p \<noteq> 0" "sizeof_header \<le> unat p" "heap_inv s' bs'" "s' = s\<lparr>mm_mem := mm_mem s'\<rparr>"
      "a_malloc (unat (round_size sz)) (unat (heap_start s)) bs = Some (unat p, bs')"
      "block_at (unat p - sizeof_header) (unat (heap_start s)) bs = Some (n, True)"
      "unat (round_size sz) \<le> n"
      "same_outside (unat p - sizeof_header) (unat p + n) (mm_mem s) (mm_mem s')"
proof (cases "a_malloc (unat (round_size sz)) (unat (heap_start s)) bs")
  case None
  then show ?thesis using kmalloc_result [OF inv, of sz] run that(1) by auto
next
  case (Some r)
  obtain q bs' where r: "a_malloc (unat (round_size sz)) (unat (heap_start s)) bs = Some (q, bs')"
    using Some by (cases r) auto
  then obtain n where q: "p = of_nat q" "q < 2 ^ 64" "heap_inv s' bs'" "s' = s\<lparr>mm_mem := mm_mem s'\<rparr>"
    "block_at (q - sizeof_header) (unat (heap_start s)) bs = Some (n, True)" "unat (round_size sz) \<le> n"
    "same_outside (q - sizeof_header) (q + n) (mm_mem s) (mm_mem s')"
    using kmalloc_result [OF inv, of sz] run by auto
  have up: "unat p = q" unfolding q(1) by (rule unat_nat64 [OF q(2)])
  have "sizeof_header \<le> q" using a_malloc_above [OF r] by simp
  moreover from this up have "p \<noteq> 0" by (auto simp: sizeof_header_def)
  ultimately show ?thesis using that(2) q r up by simp
qed

lemma kfree_cases:
  assumes inv: "heap_inv s bs" and live: "allocated s p n"
  obtains s' where "kfree p s = Some s'" "s' = s\<lparr>mm_mem := mm_mem s'\<rparr>"
    "heap_inv s' (coalesce (a_mark_free (unat p - sizeof_header) (unat (heap_start s)) bs))"
    "\<And>x. \<not> in_header (unat (heap_start s)) bs (unat x) \<Longrightarrow> mm_mem s' x = mm_mem s x"
proof -
  have at: "block_at (unat p - sizeof_header) (unat (heap_start s)) bs = Some (n, False)"
    and le: "sizeof_header \<le> unat p" using allocated_iff [OF inv] live by auto
  have "of_nat (unat p - sizeof_header + sizeof_header) = p" using le by simp
  then show ?thesis using kfree_result [OF inv at] that by auto
qed

lemma heap_start_eq: "s' = s\<lparr>mm_mem := m\<rparr> \<Longrightarrow> heap_start s' = heap_start s"
  by simp

lemma kmalloc_keeps:
  assumes inv: "heap_inv s bs" and run: "kmalloc sz s = Some (p, s')" and live: "allocated s q n"
  shows "allocated s' q n \<and> q \<noteq> p \<and>
    (\<forall>i<n. mm_mem s' (q + of_nat i) = mm_mem s (q + of_nat i))"
  using inv run
proof (cases rule: kmalloc_cases)
  case 1
  then show ?thesis using live by (auto simp: allocated_def sizeof_header_def)
next
  case (2 bs' k)
  have at: "block_at (unat q - sizeof_header) (unat (heap_start s)) bs = Some (n, False)"
    and le: "sizeof_header \<le> unat q" using allocated_iff [OF inv] live by auto
  have hs: "heap_start s' = heap_start s" by (rule heap_start_eq [OF 2(4)])
  have ne: "q \<noteq> p" using at 2(6) by auto
  then have "unat q \<noteq> unat p" by (simp add: unat_eq_iff)
  then have "unat q - sizeof_header \<noteq> unat p - sizeof_header" using le 2(2) by linarith
  note disj = blocks_disjoint [OF at 2(6) this]
  have "mm_mem s' (q + of_nat i) = mm_mem s (q + of_nat i)" if "i < n" for i
  proof -
    have "\<not> (unat p - sizeof_header \<le> unat (q + of_nat i) \<and> unat (q + of_nat i) < unat p + k)"
      using disj le 2(2) that payload_addr(1) [OF inv live that] by linarith
    then show ?thesis using 2(8) unfolding same_outside_def by blast
  qed
  moreover have "allocated s' q n"
    using allocated_iff [OF 2(3)] block_at_used_a_malloc [OF 2(5) at] le by (simp add: hs)
  ultimately show ?thesis using ne by simp
qed

lemma kfree_keeps:
  assumes inv: "heap_inv s bs" and live: "allocated s p n" and run: "kfree p s = Some s'"
    and other: "allocated s q k" and ne: "q \<noteq> p"
  shows "allocated s' q k \<and> (\<forall>i<k. mm_mem s' (q + of_nat i) = mm_mem s (q + of_nat i))"
  using inv live
proof (cases rule: kfree_cases)
  case (1 s'')
  then have s': "s'' = s'" using run by simp
  have at: "block_at (unat p - sizeof_header) (unat (heap_start s)) bs = Some (n, False)"
    "block_at (unat q - sizeof_header) (unat (heap_start s)) bs = Some (k, False)"
    and le: "sizeof_header \<le> unat p" "sizeof_header \<le> unat q"
    using allocated_iff [OF inv] live other by auto
  have hs: "heap_start s' = heap_start s" using heap_start_eq [OF 1(2)] s' by simp
  have "unat q \<noteq> unat p" using ne by (simp add: unat_eq_iff)
  then have "unat q - sizeof_header \<noteq> unat p - sizeof_header" using le by linarith
  then have "block_at (unat q - sizeof_header) (unat (heap_start s))
      (coalesce (a_mark_free (unat p - sizeof_header) (unat (heap_start s)) bs)) = Some (k, False)"
    using at block_at_a_mark_free [OF at(1)] by (intro block_at_coalesce) simp
  then have "allocated s' q k" using allocated_iff [OF 1(3)] le by (simp add: s' hs)
  moreover have "mm_mem s' (q + of_nat i) = mm_mem s (q + of_nat i)" if "i < k" for i
    using 1(4) payload_addr(2) [OF inv other that] by (simp add: s')
  ultimately show ?thesis by simp
qed

interpretation heap: allocator kmalloc kfree heap_ok allocated mm_mem "\<lambda>sz. unat (round_size sz)"
proof
  fix s :: mm and sz p s'
  assume ok: "heap_ok s"
  then obtain bs where inv: "heap_inv s bs" by (auto simp: heap_ok_def)
  show "\<exists>p s'. kmalloc sz s = Some (p, s') \<and> heap_ok s'"
    using kmalloc_result [OF inv, of sz] ok by (auto simp: heap_ok_def split: option.splits)
  show "s' = s" if "kmalloc sz s = Some (0, s')"
    using inv that by (cases rule: kmalloc_cases) auto
  show "\<exists>n\<ge>unat (round_size sz). allocated s' p n" if "kmalloc sz s = Some (p, s')" "p \<noteq> 0"
    using inv that(1)
  proof (cases rule: kmalloc_cases)
    case (2 bs' n)
    obtain k where "block_at (unat p - sizeof_header) (unat (heap_start s)) bs' = Some (k, False)"
      "unat (round_size sz) \<le> k" using block_at_a_malloc [OF 2(5)] by auto
    then show ?thesis
      using allocated_iff [OF 2(3)] 2(2) heap_start_eq [OF 2(4)] by (intro exI [of _ k]) simp
  qed (use that in simp)
next
  fix s :: mm and sz p s' q n
  assume ok: "heap_ok s" and run: "kmalloc sz s = Some (p, s')" and live: "allocated s q n"
  from ok obtain bs where inv: "heap_inv s bs" by (auto simp: heap_ok_def)
  show "allocated s' q n \<and> q \<noteq> p \<and> (\<forall>i<n. mm_mem s' (q + of_nat i) = mm_mem s (q + of_nat i))"
    by (rule kmalloc_keeps [OF inv run live])
next
  fix s :: mm and p n q k
  assume ok: "heap_ok s" and live: "allocated s p n" "allocated s q k" and ne: "p \<noteq> q"
  then obtain bs where inv: "heap_inv s bs" by (auto simp: heap_ok_def)
  have at: "block_at (unat p - sizeof_header) (unat (heap_start s)) bs = Some (n, False)"
    "block_at (unat q - sizeof_header) (unat (heap_start s)) bs = Some (k, False)"
    and le: "sizeof_header \<le> unat p" "sizeof_header \<le> unat q"
    using allocated_iff [OF inv] live by auto
  have "unat p \<noteq> unat q" using ne by (simp add: unat_eq_iff)
  then have "unat p - sizeof_header \<noteq> unat q - sizeof_header" using le by linarith
  from blocks_disjoint [OF at this] le
  show "unat p + n \<le> unat q \<or> unat q + k \<le> unat p" by linarith
next
  fix s :: mm and p n
  assume ok: "heap_ok s" and live: "allocated s p n"
  then obtain bs where inv: "heap_inv s bs" by (auto simp: heap_ok_def)
  show "\<exists>s'. kfree p s = Some s' \<and> heap_ok s'"
    using inv live by (cases rule: kfree_cases) (auto simp: heap_ok_def)
next
  fix s :: mm and p n s' q k
  assume ok: "heap_ok s" and a: "allocated s p n" "kfree p s = Some s'" "allocated s q k" "q \<noteq> p"
  from ok obtain bs where inv: "heap_inv s bs" by (auto simp: heap_ok_def)
  show "allocated s' q k \<and> (\<forall>i<k. mm_mem s' (q + of_nat i) = mm_mem s (q + of_nat i))"
    by (rule kfree_keeps [OF inv a])
qed

lemma round_size_unat: "unat (round_size sz) = unat (sz + 15) - unat (sz + 15) mod 16"
  using unat_and_not_mask [of "sz + 15" 4] by (simp add: round_size_def mask_eq_exp_minus_1 minus_mod_eq_div_mult)

lemma round_size_bounds:
  assumes "sz \<le> 0xFFFFFFFFFFFFFFF0"
  shows "unat sz \<le> unat (round_size sz)" "unat (round_size sz) < unat sz + 16" "16 dvd unat (round_size sz)"
proof -
  have "unat sz \<le> 0xFFFFFFFFFFFFFFF0" using assms by (simp add: word_le_nat_alt)
  then have "unat (sz + 15) = unat sz + 15" by (subst unat_plus_small) simp_all
  then have r: "unat (round_size sz) = unat sz + 15 - (unat sz + 15) mod 16" by (simp only: round_size_unat)
  have "(unat sz + 15) mod 16 < 16" by simp
  then show "unat sz \<le> unat (round_size sz)" "unat (round_size sz) < unat sz + 16" using r by linarith+
  show "16 dvd unat (round_size sz)" unfolding r by (rule dvd_minus_mod)
qed

lemma round_size_wraps:
  assumes "0xFFFFFFFFFFFFFFF0 < sz"
  shows "round_size sz = 0"
proof -
  have big: "0xFFFFFFFFFFFFFFF0 < unat sz" using assms by (simp add: word_less_nat_alt)
  have "unat sz < 18446744073709551616" by (rule unat_lt64)
  moreover have "unat (sz + 15) = unat sz + 15 - 18446744073709551616"
    using unat_plus_if_size [of sz 15] big by (simp add: word_size)
  ultimately have "unat (sz + 15) < 16" by linarith
  then have "unat (round_size sz) = 0" by (simp add: round_size_unat)
  then show ?thesis by (simp add: unat_eq_0)
qed

text \<open>C8: Allocation. The kernel heap answers every request: it returns NULL and changes nothing
  exactly when no free block is large enough; otherwise it takes the first free block that fits, splits off
  the remainder when it can hold a header and more than 32 bytes, returns an address with the rounded
  size available, and writes no byte outside the block it took.\<close>

theorem kmalloc_first_fit:
  assumes "heap_inv s bs" and "sz \<le> 0xFFFFFFFFFFFFFFF0"
  shows "\<exists>need. unat sz \<le> need \<and> need < unat sz + 16 \<and> 16 dvd need \<and>
    (case a_malloc need (unat (heap_start s)) bs of
       None \<Rightarrow> kmalloc sz s = Some (0, s)
     | Some (p, bs') \<Rightarrow> \<exists>s' n. kmalloc sz s = Some (of_nat p, s') \<and> heap_inv s' bs' \<and>
         s' = s\<lparr>mm_mem := mm_mem s'\<rparr> \<and>
         block_at (p - sizeof_header) (unat (heap_start s)) bs = Some (n, True) \<and> need \<le> n \<and>
         same_outside (p - sizeof_header) (p + n) (mm_mem s) (mm_mem s'))"
proof -
  let ?need = "unat (round_size sz)"
  have "case a_malloc ?need (unat (heap_start s)) bs of
       None \<Rightarrow> kmalloc sz s = Some (0, s)
     | Some (p, bs') \<Rightarrow> \<exists>s' n. kmalloc sz s = Some (of_nat p, s') \<and> heap_inv s' bs' \<and>
         s' = s\<lparr>mm_mem := mm_mem s'\<rparr> \<and>
         block_at (p - sizeof_header) (unat (heap_start s)) bs = Some (n, True) \<and> ?need \<le> n \<and>
         same_outside (p - sizeof_header) (p + n) (mm_mem s) (mm_mem s')"
    using kmalloc_result [OF assms(1), of sz] by (auto split: option.splits)
  then show ?thesis using round_size_bounds [OF assms(2)] by blast
qed

text \<open>A heap of 4096 bytes at a fixed address, for the witnesses.\<close>

definition example_heap :: mm where
  "example_heap = \<lparr>mm_mem = set_next 0x1000 0 (set_size 0x1000 4072 (set_is_free 0x1000 1
     (set_magic 0x1000 HEAP_MAGIC (\<lambda>_. 0)))), mm_pmm = example_pmm, kernel_pml4 = 0, heap_start = 0x1000\<rparr>"

lemma example_heap_inv: "heap_inv example_heap [(4072, True)]"
  using header_new [of "0x1000" 0 4072 "\<lambda>_. 0"]
  by (simp add: heap_inv_def example_heap_def sizeof_header_def)

theorem kmalloc_first_fit_witness:
  "\<exists>need s'. 100 \<le> need \<and> need < 116 \<and> kmalloc 100 example_heap = Some (0x1018, s') \<and>
     heap_inv s' [(need, False), (4072 - need - 24, True)]"
proof -
  obtain need where n: "100 \<le> need" "need < 116" "16 dvd need"
    "case a_malloc need (unat (heap_start example_heap)) [(4072, True)] of
       None \<Rightarrow> kmalloc 100 example_heap = Some (0, example_heap)
     | Some (p, bs') \<Rightarrow> \<exists>s' n. kmalloc 100 example_heap = Some (of_nat p, s') \<and> heap_inv s' bs' \<and>
         s' = example_heap\<lparr>mm_mem := mm_mem s'\<rparr> \<and>
         block_at (p - sizeof_header) (unat (heap_start example_heap)) [(4072, True)] = Some (n, True) \<and> need \<le> n \<and>
         same_outside (p - sizeof_header) (p + n) (mm_mem example_heap) (mm_mem s')"
    using kmalloc_first_fit [OF example_heap_inv, of 100] by auto
  have "unat (heap_start example_heap) = 0x1000" by (simp add: example_heap_def)
  with n have "\<exists>s'. kmalloc 100 example_heap = Some (0x1018, s') \<and>
     heap_inv s' [(need, False), (4072 - need - 24, True)]"
    by (auto simp: sizeof_header_def)
  with n show ?thesis by blast
qed

text \<open>C9: Release. Freeing a block in use marks it free and then merges every run of
  neighbouring free blocks: afterwards no two neighbours are both free, the heap covers the same bytes,
  every other block in use is where it was, and only headers were written.\<close>

theorem kfree_merges:
  assumes "heap_inv s bs" and "allocated s p n"
  shows "\<exists>s' bs'. kfree p s = Some s' \<and> heap_inv s' bs' \<and>
    bs' = coalesce (a_mark_free (unat p - sizeof_header) (unat (heap_start s)) bs) \<and>
    coalesced bs' \<and> span bs' = span bs \<and>
    (\<forall>q k. allocated s q k \<and> q \<noteq> p \<longrightarrow> allocated s' q k) \<and>
    (\<forall>x. \<not> in_header (unat (heap_start s)) bs (unat x) \<longrightarrow> mm_mem s' x = mm_mem s x)"
  using assms
proof (cases rule: kfree_cases)
  case (1 s')
  then show ?thesis
    using kfree_keeps [OF assms 1(1)] coalesced_coalesce by (intro exI [of _ s']) (auto simp: heap_inv_def)
qed

text \<open>The same holds when the owner has written to the block in between: only the list of blocks counts.\<close>

lemma heap_restored_later:
  assumes inv: "heap_inv s bs" and c: "coalesced bs" and run: "kmalloc sz s = Some (p, s')" and ne: "p \<noteq> 0"
    and later: "\<And>bs'. heap_inv s' bs' \<Longrightarrow> heap_inv t bs'" and hs: "heap_start t = heap_start s'"
  shows "\<exists>s''. kfree p t = Some s'' \<and> heap_inv s'' bs"
  using inv run
proof (cases rule: kmalloc_cases)
  case (2 bs' n)
  obtain k where "block_at (unat p - sizeof_header) (unat (heap_start s)) bs' = Some (k, False)"
    using block_at_a_malloc [OF 2(5)] by auto
  then have live: "allocated t p k"
    using allocated_iff [OF later [OF 2(3)]] 2(2) heap_start_eq [OF 2(4)] hs by simp
  show ?thesis
    using later [OF 2(3)] live
  proof (cases rule: kfree_cases)
    case (1 s'')
    then show ?thesis
      using free_after_malloc [OF 2(5) c] heap_start_eq [OF 2(4)] hs by auto
  qed
qed (use ne in simp)

lemma heap_restored:
  assumes "heap_inv s bs" and "coalesced bs" and "kmalloc sz s = Some (p, s')" and "p \<noteq> 0"
  shows "\<exists>s''. kfree p s' = Some s'' \<and> heap_inv s'' bs"
  by (rule heap_restored_later [OF assms]) simp_all

text \<open>Freeing undoes allocating: from a heap with no two free neighbours, a granted block
  can be freed and the heap is again the list of blocks it was before.\<close>

theorem kfree_kmalloc:
  assumes "heap_inv s bs" and "coalesced bs" and "kmalloc sz s = Some (p, s')" and "p \<noteq> 0"
  shows "\<exists>s''. kfree p s' = Some s'' \<and> heap_inv s'' bs"
  by (rule heap_restored [OF assms])

lemma example_heap_grants:
  assumes "sz \<le> 4000"
  shows "\<exists>s'. kmalloc sz example_heap = Some (0x1018, s')"
proof -
  have sz: "unat sz \<le> 4000" using assms by (simp add: word_le_nat_alt)
  have "sz \<le> 0xFFFFFFFFFFFFFFF0" using sz by (simp add: word_le_nat_alt)
  then have "unat (round_size sz) \<le> 4072" using round_size_bounds(2) sz by fastforce
  then show ?thesis
    using kmalloc_result [OF example_heap_inv, of sz]
    by (auto simp: sizeof_header_def example_heap_def split: if_splits)
qed

theorem kfree_kmalloc_witness:
  "\<exists>s' s''. kmalloc 100 example_heap = Some (0x1018, s') \<and> kfree 0x1018 s' = Some s'' \<and>
     heap_inv s'' [(4072, True)]"
proof -
  obtain s' where s': "kmalloc 100 example_heap = Some (0x1018, s')"
    using example_heap_grants [of 100] by (auto simp: word_le_nat_alt)
  then show ?thesis using kfree_kmalloc [OF example_heap_inv _ s'] by auto
qed

lemma example_heap_used:
  "kmalloc sz example_heap = Some (0x1018, s') \<Longrightarrow> \<exists>n. allocated s' 0x1018 n"
  using heap.alloc_live [of example_heap sz "0x1018" s'] example_heap_inv by (auto simp: heap_ok_def)

theorem kfree_merges_witness:
  "\<exists>s' s'' n bs'. kmalloc 100 example_heap = Some (0x1018, s') \<and> allocated s' 0x1018 n \<and>
     kfree 0x1018 s' = Some s'' \<and> heap_inv s'' bs' \<and> coalesced bs'"
proof -
  obtain s' where s': "kmalloc 100 example_heap = Some (0x1018, s')"
    using example_heap_grants [of 100] by (auto simp: word_le_nat_alt)
  obtain n where n: "allocated s' 0x1018 n" using example_heap_used [OF s'] by auto
  have "heap_ok s'" using heap.ok_alloc [OF _ s'] example_heap_inv by (auto simp: heap_ok_def)
  then obtain bs where "heap_inv s' bs" by (auto simp: heap_ok_def)
  from kfree_merges [OF this n] s' n show ?thesis by blast
qed

text \<open>C10: Isolation of clients. On a sound heap any two distinct blocks in use do not overlap. Freeing either returns and
  leaves the other in use with its content. A further request always returns, leaves both in use and their contents unchanged,
  and what it grants, when it grants anything, is a block of at least the size asked for that overlaps neither.\<close>

theorem kheap_isolation:
  assumes "heap_ok s" and "allocated s p n" and "allocated s q k" and "p \<noteq> q"
  shows "(unat p + n \<le> unat q \<or> unat q + k \<le> unat p) \<and>
    (\<exists>s'. kfree p s = Some s' \<and> heap_ok s' \<and> allocated s' q k \<and>
       (\<forall>i<k. mm_mem s' (q + of_nat i) = mm_mem s (q + of_nat i))) \<and>
    (\<exists>r s'. kmalloc sz s = Some (r, s') \<and> heap_ok s' \<and> allocated s' p n \<and> allocated s' q k \<and>
       (\<forall>i<k. mm_mem s' (q + of_nat i) = mm_mem s (q + of_nat i)) \<and>
       (r \<noteq> 0 \<longrightarrow> (\<exists>m\<ge>unat (round_size sz). allocated s' r m \<and> (unat r + m \<le> unat q \<or> unat q + k \<le> unat r))))"
  by (rule heap.isolation [OF assms])

text \<open>Two blocks of an example heap: the first is freed and the second stays; a third request is granted beside it.\<close>

theorem kheap_isolation_witness:
  "\<exists>s1 s2 s3 s4 n k r. kmalloc 100 example_heap = Some (0x1018, s1) \<and> kmalloc 200 s1 = Some (0x10A0, s2) \<and>
     allocated s2 0x1018 n \<and> allocated s2 0x10A0 k \<and> 0x1018 + n \<le> 0x10A0 \<and>
     kfree 0x1018 s2 = Some s3 \<and> heap_ok s3 \<and> allocated s3 0x10A0 k \<and>
     kmalloc 300 s2 = Some (r, s4) \<and> heap_ok s4 \<and> allocated s4 0x10A0 k"
proof -
  have r: "unat (round_size 100) = 112" "unat (round_size 200) = 208" by (simp_all add: round_size_def)
  obtain s1 where s1: "kmalloc 100 example_heap = Some (0x1018, s1)"
    "heap_inv s1 [(112, False), (3936, True)]" "s1 = example_heap\<lparr>mm_mem := mm_mem s1\<rparr>"
    using kmalloc_result [OF example_heap_inv, of 100] by (auto simp: r sizeof_header_def example_heap_def)
  have "heap_start s1 = 0x1000" using heap_start_eq [OF s1(3)] by (simp add: example_heap_def)
  then obtain s2 where s2: "kmalloc 200 s1 = Some (0x10A0, s2)"
    using kmalloc_result [OF s1(2), of 200] by (auto simp: r sizeof_header_def)
  have ok: "heap_ok example_heap" "heap_ok s1" using example_heap_inv s1(2) by (auto simp: heap_ok_def)
  have ok2: "heap_ok s2" by (rule heap.ok_alloc [OF ok(2) s2])
  obtain n where "allocated s1 0x1018 n" using heap.alloc_live [OF ok(1) s1(1)] by auto
  then have n: "allocated s2 0x1018 n" using heap.alloc_keeps [OF ok(2) s2] by blast
  obtain k where k: "allocated s2 0x10A0 k" using heap.alloc_live [OF ok(2) s2] by auto
  obtain s3 t s4 where f: "kfree 0x1018 s2 = Some s3" "heap_ok s3" "allocated s3 0x10A0 k"
    "kmalloc 300 s2 = Some (t, s4)" "heap_ok s4" "allocated s4 0x10A0 k" "0x1018 + n \<le> 0x10A0"
    using kheap_isolation [OF ok2 n k, of 300] by auto
  show ?thesis
    by (rule exI [of _ s1], rule exI [of _ s2], rule exI [of _ s3], rule exI [of _ s4], rule exI [of _ n],
        rule exI [of _ k], rule exI [of _ t]) (intro conjI s1(1) s2 n k f)
qed

lemma kmalloc_wraps:
  assumes "0xFFFFFFFFFFFFFFF0 < sz"
  shows "kmalloc sz s = kmalloc 0 s"
  using assms by (simp add: kmalloc_def round_size_wraps) (simp add: round_size_def)

text \<open>The rounding of the request wraps: a request within 15 bytes of \<open>2 ^ 64\<close> is rounded
  to zero and served exactly like a request of no bytes.\<close>

theorem kmalloc_huge_request:
  assumes "0xFFFFFFFFFFFFFFF0 < sz" and "heap_inv s bs" and "kmalloc sz s = Some (p, s')" and "p \<noteq> 0"
  shows "kmalloc sz s = kmalloc 0 s \<and> (\<exists>n. allocated s' p n \<and> n \<le> sizeof_header + 32)"
proof
  show "kmalloc sz s = kmalloc 0 s" by (rule kmalloc_wraps [OF assms(1)])
  show "\<exists>n. allocated s' p n \<and> n \<le> sizeof_header + 32"
    using assms(2,3)
  proof (cases rule: kmalloc_cases)
    case (2 bs' n)
    have "unat (round_size sz) = 0" using round_size_wraps [OF assms(1)] by simp
    then obtain k where "block_at (unat p - sizeof_header) (unat (heap_start s)) bs' = Some (k, False)"
      "k \<le> sizeof_header + 32" using block_at_a_malloc [OF 2(5)] by auto
    then show ?thesis using allocated_iff [OF 2(3)] 2(2) heap_start_eq [OF 2(4)]
      by (intro exI [of _ k]) simp
  qed (use assms(4) in simp)
qed

theorem kmalloc_huge_request_witness:
  "\<exists>s' n. kmalloc 0xFFFFFFFFFFFFFFFF example_heap = Some (0x1018, s') \<and> allocated s' 0x1018 n \<and> n \<le> 56"
proof -
  obtain s' where "kmalloc 0 example_heap = Some (0x1018, s')" using example_heap_grants [of 0] by auto
  then have s': "kmalloc 0xFFFFFFFFFFFFFFFF example_heap = Some (0x1018, s')"
    by (simp add: kmalloc_wraps word_less_nat_alt)
  obtain n where "allocated s' 0x1018 n" "n \<le> sizeof_header + 32"
    using kmalloc_huge_request [OF _ example_heap_inv s'] by (auto simp: word_less_nat_alt)
  with s' show ?thesis unfolding sizeof_header_def by fastforce
qed

section \<open>Histories of the heap\<close>

text \<open>Any sequence of requests, releases of blocks in use, and writes of the clients inside
  their own blocks.\<close>

inductive heap_step :: "mm \<Rightarrow> mm \<Rightarrow> bool" where
  step_alloc: "kmalloc sz s = Some (p, s') \<Longrightarrow> heap_step s s'"
| step_free: "allocated s p n \<Longrightarrow> kfree p s = Some s' \<Longrightarrow> heap_step s s'"
| step_use: "allocated s p n \<Longrightarrow> i < n \<Longrightarrow>
    heap_step s (s\<lparr>mm_mem := (mm_mem s)(p + of_nat i := v)\<rparr>)"

definition heap_wf :: "nat \<Rightarrow> mm \<Rightarrow> bool" where
  "heap_wf n s \<longleftrightarrow> (\<exists>bs. heap_inv s bs \<and> coalesced bs \<and> span bs = n)"

lemma heap_step_wf:
  assumes "heap_step s s'" and "heap_wf n s"
  shows "heap_wf n s'"
proof -
  obtain bs where bs: "heap_inv s bs" "coalesced bs" "span bs = n" using assms(2) by (auto simp: heap_wf_def)
  from assms(1) show ?thesis
  proof (cases rule: heap_step.cases)
    case (step_alloc sz p)
    show ?thesis
      using bs(1) step_alloc
    proof (cases rule: kmalloc_cases)
      case 1
      then show ?thesis using assms(2) by simp
    next
      case (2 bs' k)
      then show ?thesis
        using coalesced_a_malloc [OF 2(5) bs(2)] span_a_malloc [OF 2(5)] bs by (auto simp: heap_wf_def)
    qed
  next
    case (step_free p k)
    show ?thesis
      using bs(1) step_free(1)
    proof (cases rule: kfree_cases)
      case (1 s'')
      then show ?thesis using step_free(2) bs coalesced_coalesce by (auto simp: heap_wf_def)
    qed
  next
    case (step_use p k i v)
    have "heap_list ((mm_mem s)(p + of_nat i := v)) (unat (heap_start s)) bs =
        heap_list (mm_mem s) (unat (heap_start s)) bs"
      using payload_addr(2) [OF bs(1) step_use(2,3)] bs(1)
      by (intro heap_list_frame) (auto simp: heap_inv_def)
    then show ?thesis using bs by (auto simp: heap_wf_def heap_inv_def step_use(1))
  qed
qed

lemma heap_steps_wf: "heap_step\<^sup>*\<^sup>* s s' \<Longrightarrow> heap_wf n s \<Longrightarrow> heap_wf n s'"
  by (induction rule: rtranclp_induct) (auto intro: heap_step_wf)

text \<open>C11: No fragmentation and no leak over a whole history: starting from a heap that is one free
  block, after any sequence of requests, releases and writes of the clients, the headers still describe a list
  of blocks covering exactly the heap, with no two free neighbours; and when nothing is in use any more the
  heap is that one free block again.\<close>

theorem heap_history:
  assumes "heap_inv s [(n, True)]" and "heap_step\<^sup>*\<^sup>* s s'"
  shows "\<exists>bs. heap_inv s' bs \<and> coalesced bs \<and> span bs = sizeof_header + n \<and>
    ((\<nexists>p k. allocated s' p k) \<longrightarrow> bs = [(n, True)])"
proof -
  have "heap_wf (sizeof_header + n) s" using assms(1) by (auto simp: heap_wf_def)
  from heap_steps_wf [OF assms(2) this]
  obtain bs where bs: "heap_inv s' bs" "coalesced bs" "span bs = sizeof_header + n"
    by (auto simp: heap_wf_def)
  have "bs = [(n, True)]" if none: "\<nexists>p k. allocated s' p k"
  proof -
    have "snd b" if b: "b \<in> set bs" for b
    proof (rule ccontr)
      assume "\<not> snd b"
      then obtain h where h: "block_at h (unat (heap_start s')) bs = Some (fst b, False)"
        using used_block_at [OF b] by auto
      have "h + sizeof_header + fst b \<le> unat (heap_start s') + span bs" using block_at_bounds [OF h] by simp
      then have "h + sizeof_header < 2 ^ 64" using bs(1) by (simp add: heap_inv_def)
      then have "unat (of_nat (h + sizeof_header) :: u64) = h + sizeof_header" by (rule unat_nat64)
      then have "allocated s' (of_nat (h + sizeof_header)) (fst b)"
        using allocated_iff [OF bs(1)] h by (simp only:) simp
      with none show False by blast
    qed
    then have "length bs \<le> 1" using coalesced_all_free [OF bs(2)] by blast
    moreover have "bs \<noteq> []" using bs(1) by (simp add: heap_inv_def)
    ultimately obtain b where b: "bs = [b]" by (cases bs) auto
    then show ?thesis using bs(3) \<open>\<And>b. b \<in> set bs \<Longrightarrow> snd b\<close> by (cases b) auto
  qed
  with bs show ?thesis by blast
qed

theorem heap_history_witness:
  "\<exists>s' bs. heap_step\<^sup>*\<^sup>* example_heap s' \<and> kmalloc 100 example_heap = Some (0x1018, s') \<and>
     heap_inv s' bs \<and> coalesced bs \<and> span bs = 4096"
proof -
  obtain s' where s': "kmalloc 100 example_heap = Some (0x1018, s')"
    using example_heap_grants [of 100] by (auto simp: word_le_nat_alt)
  then have "heap_step\<^sup>*\<^sup>* example_heap s'" by (blast intro: heap_step.intros)
  from heap_history [OF example_heap_inv this] s' this show ?thesis
    by (auto simp: sizeof_header_def)
qed

section \<open>Initialisation\<close>

lemma pmm_alloc_facts:
  assumes inv: "pmm_inv p" and used0: "frame_used p 0" and free: "b < MAX_BLOCKS" "\<not> frame_used p b"
  shows "\<exists>i p'. i < MAX_BLOCKS \<and> \<not> frame_used p i \<and> pmm_alloc_block p = (frame_addr i, p') \<and>
    frame_addr i \<noteq> 0 \<and> pmm_inv p' \<and> (\<forall>j. frame_used p' j \<longleftrightarrow> frame_used p j \<or> j = i)"
proof -
  obtain i where f: "find_clear (pmm_bitmap p) 0 MAX_BLOCKS = Some i"
    using free find_clear_None [of "pmm_bitmap p"]
    by (cases "find_clear (pmm_bitmap p) 0 MAX_BLOCKS") (auto simp: frame_used_def)
  then have i: "i < MAX_BLOCKS" "\<not> frame_used p i" by (auto simp: find_clear_Some frame_used_def)
  have "i \<noteq> 0" using i(2) used0 by metis
  then have "frame_addr i \<noteq> 0" using unat_frame_addr [OF i(1)] by auto
  then show ?thesis
    using pmm_alloc_Some [OF inv f] i pmm_mark_used_inv [OF inv, of "frame_addr i"]
      frame_used_mark_used [OF inv, of "frame_addr i"] unat_block_frame_addr [OF i(1)]
    by (intro exI [of _ i] exI [of _ "pmm_mark_used (frame_addr i) p"]) simp
qed

lemma free_above_alloc:
  assumes "\<forall>j. frame_used p' j \<longleftrightarrow> frame_used p j \<or> j = i"
  shows "free_above ke p \<le> Suc (free_above ke p')"
proof -
  let ?S = "\<lambda>p. {b. b < MAX_BLOCKS \<and> \<not> frame_used p b \<and> unat (V2P ke) < 4096 * b}"
  have "card (?S p) \<le> card (insert i (?S p'))" using assms by (intro card_mono) auto
  also have "\<dots> \<le> Suc (card (?S p'))" by (simp add: card_insert_if)
  finally show ?thesis by (simp add: free_above_def)
qed

lemma unat_page_no: "unat (page_no va) = unat va div 4096 mod 2 ^ 36"
  by (simp add: page_no_def unsigned_take_bit_eq unat_drop_bit_eq take_bit_eq_mod drop_bit_eq_div unat_mod unat_div)

lemma unat_page_addr:
  fixes v :: u64
  assumes "unat v + 4096 * j < 2 ^ 64"
  shows "unat (v + of_nat (4096 * j)) = unat v + 4096 * j"
proof -
  have "4096 * j < 2 ^ 64" using assms by linarith
  then have "unat (of_nat (4096 * j) :: u64) = 4096 * j" by (rule unat_nat64)
  with assms show ?thesis using unat_plus_small [of v "of_nat (4096 * j)"] by simp
qed

lemma page_no_offset:
  assumes "unat v + 4096 * j < 2 ^ 64" and "0 < j" and "j < 2 ^ 36"
  shows "page_no (v + of_nat (4096 * j)) \<noteq> page_no v"
proof
  assume "page_no (v + of_nat (4096 * j)) = page_no v"
  then have "(unat v + 4096 * j) div 4096 mod 2 ^ 36 = unat v div 4096 mod 2 ^ 36"
    using unat_page_no [of "v + of_nat (4096 * j)"] unat_page_no [of v] unat_page_addr [OF assms(1)] by metis
  moreover have "(unat v + 4096 * j) div 4096 = unat v div 4096 + j" by simp
  ultimately have "(unat v div 4096 + j) mod 2 ^ 36 = unat v div 4096 mod 2 ^ 36" by (simp only:)
  then have "2 ^ 36 dvd (unat v div 4096 + j) - unat v div 4096"
    by (subst (asm) mod_eq_dvd_iff_nat) simp_all
  then have "2 ^ 36 dvd j" by simp
  with assms(2,3) show False using nat_dvd_not_less by blast
qed

text \<open>The page-table entry of a heap page: the frame, present and writable.\<close>

definition heap_pte :: "nat \<Rightarrow> u64" where
  "heap_pte b = frame_addr b OR PAGE_PRESENT OR PAGE_WRITE"

lemma frame_addr_aligned: "b < MAX_BLOCKS \<Longrightarrow> frame_addr b AND NOT 0xFFF = frame_addr b"
proof -
  assume b: "b < MAX_BLOCKS"
  have m: "NOT (0xFFF :: u64) = NOT (mask 12)" by (simp add: mask_eq_exp_minus_1)
  have "unat (frame_addr b AND NOT (mask 12)) = unat (frame_addr b)"
    by (simp add: unat_and_not_mask unat_frame_addr [OF b])
  then show ?thesis unfolding m by (simp only: unat_eq_iff)
qed

lemma heap_pte_eq:
  assumes "b < MAX_BLOCKS"
  shows "(frame_addr b AND NOT 0xFFF) OR (PAGE_PRESENT OR PAGE_WRITE) OR PAGE_PRESENT = heap_pte b"
  unfolding heap_pte_def frame_addr_aligned [OF assms] PAGE_PRESENT_def PAGE_WRITE_def
  by (simp add: or.assoc)

definition maps_heap :: "mm \<Rightarrow> u64 \<Rightarrow> nat list \<Rightarrow> mm \<Rightarrow> bool" where
  "maps_heap s v fs s1 \<longleftrightarrow> pt_inv s1 \<and> kernel_pml4 s1 = kernel_pml4 s \<and> distinct fs \<and>
     (\<forall>b. frame_used (mm_pmm s) b \<longrightarrow> frame_used (mm_pmm s1) b) \<and>
     (\<forall>b\<in>set fs. b < MAX_BLOCKS \<and> \<not> frame_used (mm_pmm s) b \<and> frame_used (mm_pmm s1) b) \<and>
     (\<forall>j va. j < length fs \<longrightarrow> page_no va = page_no (v + of_nat (4096 * j)) \<longrightarrow>
        translate s1 va = Some (heap_pte (fs ! j))) \<and>
     (\<forall>va. (\<forall>j < length fs. page_no va \<noteq> page_no (v + of_nat (4096 * j))) \<longrightarrow>
        translate s1 va = translate s va)"

lemma translate_pmm: "translate (s\<lparr>mm_pmm := p\<rparr>) va = translate s va"
  by (simp add: translate_def)

text \<open>A page mapped to the frame \<open>b\<close>, then the pages behind it: together a longer run of heap pages.\<close>

lemma maps_heap_Cons:
  assumes b: "b < MAX_BLOCKS" "\<not> frame_used (mm_pmm s) b"
    and used: "\<And>j. frame_used (mm_pmm s) j \<or> j = b \<Longrightarrow> frame_used (mm_pmm s2) j"
    and root: "kernel_pml4 s2 = kernel_pml4 s"
    and first: "\<And>va. translate s2 va = (if page_no va = page_no v then Some (heap_pte b) else translate s va)"
    and rest: "maps_heap s2 (v + 4096) fs s3" and lim: "unat v + 4096 * Suc (length fs) < 2 ^ 64" "Suc (length fs) < 2 ^ 36"
  shows "maps_heap s v (b # fs) s3"
proof -
  have shift: "v + 4096 + of_nat (4096 * j) = v + of_nat (4096 * Suc j)" for j
    by (simp add: algebra_simps)
  have not_first: "page_no (v + of_nat (4096 * Suc j)) \<noteq> page_no v" if "j < length fs" for j
    using that lim by (intro page_no_offset) simp_all
  have m3: "pt_inv s3" "kernel_pml4 s3 = kernel_pml4 s2" "distinct fs"
    "\<And>c. frame_used (mm_pmm s2) c \<Longrightarrow> frame_used (mm_pmm s3) c"
    "\<And>c. c \<in> set fs \<Longrightarrow> c < MAX_BLOCKS \<and> \<not> frame_used (mm_pmm s2) c \<and> frame_used (mm_pmm s3) c"
    "\<And>j va. j < length fs \<Longrightarrow> page_no va = page_no (v + of_nat (4096 * Suc j)) \<Longrightarrow> translate s3 va = Some (heap_pte (fs ! j))"
    "\<And>va. (\<And>j. j < length fs \<Longrightarrow> page_no va \<noteq> page_no (v + of_nat (4096 * Suc j))) \<Longrightarrow> translate s3 va = translate s2 va"
    using rest unfolding maps_heap_def shift by auto
  have used_b: "frame_used (mm_pmm s2) b" "frame_used (mm_pmm s3) b" using used m3(4) by blast+
  show ?thesis
    unfolding maps_heap_def
  proof (intro conjI allI impI ballI)
    show "pt_inv s3" by (rule m3)
    show "kernel_pml4 s3 = kernel_pml4 s" using m3(2) root by simp
    show "distinct (b # fs)" using m3(3,5) used_b by auto
    show "frame_used (mm_pmm s3) c" if "frame_used (mm_pmm s) c" for c using that used m3(4) by blast
    fix c assume c: "c \<in> set (b # fs)"
    show "c < MAX_BLOCKS" "\<not> frame_used (mm_pmm s) c" "frame_used (mm_pmm s3) c"
      using c b m3(5) used used_b by auto
  next
    fix j va
    assume j: "j < length (b # fs)" and va: "page_no va = page_no (v + of_nat (4096 * j))"
    show "translate s3 va = Some (heap_pte ((b # fs) ! j))"
    proof (cases j)
      case 0
      then have "page_no va = page_no v" using va by simp
      then show ?thesis using m3(7) [of va] not_first [THEN not_sym] first 0 by simp
    next
      case (Suc i)
      then show ?thesis using m3(6) [of i va] va j by simp
    qed
  next
    fix va
    assume va: "\<forall>j < length (b # fs). page_no va \<noteq> page_no (v + of_nat (4096 * j))"
    have "page_no va \<noteq> page_no v" using va [rule_format, of 0] by simp
    moreover have "page_no va \<noteq> page_no (v + of_nat (4096 * Suc j))" if "j < length fs" for j
      using va [rule_format, of "Suc j"] that by simp
    ultimately show "translate s3 va = translate s va" using m3(7) [of va] first by simp
  qed
qed

lemma heap_map_loop_maps:
  assumes "pt_inv s" and "frame_used (mm_pmm s) 0" and "4 * N \<le> free_above ke (mm_pmm s)"
    and "unat v + 4096 * N < 2 ^ 64" and "N < 2 ^ 36" and "lim = v + of_nat (4096 * N)"
  shows "\<exists>s1 fs. heap_map_loop ke v lim s = Some (True, s1) \<and> length fs = N \<and> maps_heap s v fs s1"
  using assms
proof (induction N arbitrary: v s)
  case 0
  then show ?case
    by (intro exI [of _ s] exI [of _ "[]"]) (simp add: heap_map_loop.simps [of ke v] maps_heap_def)
next
  case (Suc N)
  have inv: "pmm_inv (mm_pmm s)" using Suc.prems(1) by (simp add: pt_inv_def tree_inv_def)
  have "0 < free_above ke (mm_pmm s)" using Suc.prems(3) by simp
  then obtain c where c: "c < MAX_BLOCKS" "\<not> frame_used (mm_pmm s) c"
    unfolding free_above_def by (metis (mono_tags, lifting) card_gt_0_iff ex_in_conv mem_Collect_eq)
  obtain b p where b: "b < MAX_BLOCKS" "\<not> frame_used (mm_pmm s) b" "pmm_alloc_block (mm_pmm s) = (frame_addr b, p)"
    "frame_addr b \<noteq> 0" "pmm_inv p" "\<forall>j. frame_used p j \<longleftrightarrow> frame_used (mm_pmm s) j \<or> j = b"
    using pmm_alloc_facts [OF inv Suc.prems(2) c] by blast
  let ?s1 = "s\<lparr>mm_pmm := p\<rparr>"
  have inv1: "pt_inv ?s1" using Suc.prems(1) b(5,6) by (fastforce simp: pt_inv_def tree_inv_def)
  have "3 \<le> free_above ke p" using free_above_alloc [OF b(6), of ke] Suc.prems(3) by simp
  then obtain s2 where s2: "map_page ke v (frame_addr b) (PAGE_PRESENT OR PAGE_WRITE) ?s1 = Some s2"
    "free_above ke p \<le> 3 + free_above ke (mm_pmm s2)" "\<forall>j. frame_used p j \<longrightarrow> frame_used (mm_pmm s2) j"
    using map_page_total [of ?s1 ke v "frame_addr b" "PAGE_PRESENT OR PAGE_WRITE"] b(5) by auto
  note mp = map_page_correct [OF inv1 s2(1), unfolded heap_pte_eq [OF b(1)]]
  have v1: "unat (v + 4096) = unat v + 4096" using unat_page_addr [of v 1] Suc.prems(4) by simp
  have "\<exists>s3 fs. heap_map_loop ke (v + 4096) lim s2 = Some (True, s3) \<and> length fs = N \<and> maps_heap s2 (v + 4096) fs s3"
  proof (rule Suc.IH)
    show "pt_inv s2" using mp by simp
    show "frame_used (mm_pmm s2) 0" using s2(3) b(6) Suc.prems(2) by blast
    show "4 * N \<le> free_above ke (mm_pmm s2)"
      using s2(2) free_above_alloc [OF b(6), of ke] Suc.prems(3) by simp
    show "unat (v + 4096) + 4096 * N < 2 ^ 64" using v1 Suc.prems(4) by simp
    show "N < 2 ^ 36" using Suc.prems(5) by simp
    show "lim = v + 4096 + of_nat (4096 * N)" using Suc.prems(6) by (simp add: algebra_simps)
  qed
  then obtain s3 fs where s3: "heap_map_loop ke (v + 4096) lim s2 = Some (True, s3)" "length fs = N"
    "maps_heap s2 (v + 4096) fs s3" by blast
  have "unat lim = unat v + 4096 * Suc N" unfolding Suc.prems(6) by (rule unat_page_addr [OF Suc.prems(4)])
  then have "v < lim" by (simp add: word_less_nat_alt)
  then have run: "heap_map_loop ke v lim s = Some (True, s3)"
    using b(3,4) s2(1) s3(1) by (subst heap_map_loop.simps) simp
  have "maps_heap s v (b # fs) s3"
  proof (rule maps_heap_Cons [OF b(1,2) _ _ _ s3(3)])
    show "frame_used (mm_pmm s2) j" if "frame_used (mm_pmm s) j \<or> j = b" for j using that b(6) s2(3) by blast
    show "kernel_pml4 s2 = kernel_pml4 s" using mp by simp
    show "translate s2 va = (if page_no va = page_no v then Some (heap_pte b) else translate s va)" for va
      using mp by (simp add: translate_pmm)
  qed (use Suc.prems(4,5) s3(2) in simp_all)
  with run s3(2) show ?case by (intro exI [of _ s3] exI [of _ "b # fs"]) simp
qed

lemma aligned_and: "unat v mod 4096 = 0 \<Longrightarrow> v AND NOT 0xFFF = (v :: u64)"
proof -
  assume v: "unat v mod 4096 = 0"
  have m: "NOT (0xFFF :: u64) = NOT (mask 12)" by (simp add: mask_eq_exp_minus_1)
  have "unat (v AND NOT (mask 12)) = unat v"
    using v by (simp only: unat_and_not_mask) (simp add: mod_0_imp_dvd)
  then show ?thesis unfolding m by (simp only: unat_eq_iff)
qed

lemma aligned_round_up:
  assumes "unat v mod 4096 = 0" and "unat v + 4096 < 2 ^ 64"
  shows "(v + 0xFFF) AND NOT 0xFFF = (v :: u64)"
proof -
  have m: "NOT (0xFFF :: u64) = NOT (mask 12)" by (simp add: mask_eq_exp_minus_1)
  have "unat (v + 0xFFF) = unat v + 0xFFF" using assms(2) by (subst unat_plus_small) simp_all
  moreover obtain k where "unat v = 4096 * k" using assms(1) by (metis mod_0_imp_dvd dvdE)
  then have "(unat v + 0xFFF) div 4096 * 4096 = unat v" by simp
  ultimately have "unat ((v + 0xFFF) AND NOT (mask 12)) = unat v"
    by (simp add: unat_and_not_mask)
  then show ?thesis unfolding m by (simp only: unat_eq_iff)
qed

text \<open>Heap initialisation. With the tree of page tables well formed, frame 0 out of the way, and
  four free frames above the kernel per page of the range (one for the page, at most three for new tables), it
  maps every page of the range, and only those, to frames of its own that were free before, present and
  writable, and leaves the heap as one free block spanning the range.\<close>

theorem heap_init_maps_range:
  assumes "pt_inv s" and "frame_used (mm_pmm s) 0" and "4 * N \<le> free_above kernel_end (mm_pmm s)"
    and "unat start_addr mod PAGE_SIZE = 0" and "64 \<le> unat start_addr" and "0 < N" and "N < 2 ^ 36"
    and "unat start_addr + PAGE_SIZE * Suc N < 2 ^ 64" and "end_addr = start_addr + of_nat (PAGE_SIZE * N)"
  shows "\<exists>s1 fs s'. heap_init kernel_end start_addr end_addr s = Some s' \<and>
    length fs = N \<and> maps_heap s start_addr fs s1 \<and>
    heap_inv s' [(PAGE_SIZE * N - sizeof_header, True)] \<and> heap_start s' = start_addr \<and>
    mm_pmm s' = mm_pmm s1 \<and> kernel_pml4 s' = kernel_pml4 s1 \<and>
    same_outside (unat start_addr) (unat start_addr + sizeof_header) (mm_mem s1) (mm_mem s')"
proof -
  let ?h = "unat start_addr"
  have ps: "PAGE_SIZE = 4096" by (simp add: PAGE_SIZE_def)
  have lim: "?h + 4096 * N < 2 ^ 64" using assms(8) ps by simp
  have ue: "unat end_addr = ?h + 4096 * N"
    unfolding assms(9) ps by (rule unat_page_addr [OF lim])
  have "unat end_addr mod 4096 = 0" "unat end_addr + 4096 < 2 ^ 64"
    using assms(4,8) ps by (simp_all add: ue mod_add_eq [symmetric])
  then have al: "start_addr AND NOT 0xFFF = start_addr" "(end_addr + 0xFFF) AND NOT 0xFFF = end_addr"
    using aligned_and aligned_round_up assms(4) ps by simp_all
  obtain s1 fs where m: "heap_map_loop kernel_end start_addr end_addr s = Some (True, s1)"
    "length fs = N" "maps_heap s start_addr fs s1"
    using heap_map_loop_maps [OF assms(1,2,3) lim assms(7), of end_addr] assms(9) ps by auto
  let ?n = "4096 * N - sizeof_header"
  have big: "24 \<le> 4096 * N" using assms(6) by simp
  have sz: "(end_addr - start_addr) - of_nat sizeof_header = (of_nat ?n :: u64)"
    using big by (simp add: assms(9) ps of_nat_diff sizeof_header_def)
  define m' where "m' = set_next start_addr 0 (set_size start_addr (of_nat ?n)
    (set_is_free start_addr 1 (set_magic start_addr HEAP_MAGIC (mm_mem s1))))"
  define s' where "s' = s1\<lparr>heap_start := start_addr, mm_mem := m'\<rparr>"
  have run: "heap_init kernel_end start_addr end_addr s = Some s'"
    unfolding heap_init_def Let_def al m(1) sz s'_def m'_def by simp
  have "header_at m' ?h ?n True 0"
    using header_new [of ?h 0 ?n "mm_mem s1"] by (simp add: m'_def)
  then have "heap_inv s' [(?n, True)]"
    using lim big assms(5) by (simp add: s'_def heap_inv_def sizeof_header_def)
  moreover have "same_outside ?h (?h + 24) (mm_mem s1) m'"
    unfolding m'_def using setter_same_outside [of ?h] lim big
    by (simp del: same_outside_refl) (meson same_outside_step)
  ultimately show ?thesis
    using run m(2,3) by (intro exI [of _ s1] exI [of _ fs] exI [of _ s'])
      (simp add: s'_def ps sizeof_header_def)
qed

theorem heap_init_maps_range_witness:
  "\<exists>s1 b s'. heap_init (P2V 0x100000) 0xFFFFFFFFD0000000 0xFFFFFFFFD0001000 example_mm = Some s' \<and>
     heap_inv s' [(4072, True)] \<and> translate s1 0xFFFFFFFFD0000123 = Some (heap_pte b) \<and>
     b \<in> {0x201, 0x202, 0x203, 0x204}"
proof -
  have u: "unat (0xFFFFFFFFD0000000 :: u64) = 0xFFFFFFFFD0000000" by simp
  have "pt_inv example_mm" "frame_used (mm_pmm example_mm) 0"
    "4 * 1 \<le> free_above (P2V 0x100000) (mm_pmm example_mm)"
    using example_mm_inv example_free_above example_pmm_facts(2) [of 0]
    by (simp_all add: example_mm_def MAX_BLOCKS_def)
  then obtain s1 fs s' where r: "heap_init (P2V 0x100000) 0xFFFFFFFFD0000000 0xFFFFFFFFD0001000 example_mm = Some s'"
    "length fs = 1" "maps_heap example_mm 0xFFFFFFFFD0000000 fs s1" "heap_inv s' [(4096 - 24, True)]"
    using heap_init_maps_range [of example_mm 1 "P2V 0x100000" "0xFFFFFFFFD0000000" "0xFFFFFFFFD0001000"]
    by (auto simp: PAGE_SIZE_def sizeof_header_def)
  then obtain b where fs: "fs = [b]" by (cases fs) auto
  have "page_no 0xFFFFFFFFD0000123 = page_no 0xFFFFFFFFD0000000" by (simp add: page_no_def)
  then have "translate s1 0xFFFFFFFFD0000123 = Some (heap_pte b)"
    using r(3) by (auto simp: maps_heap_def fs)
  moreover have "b \<in> {0x201, 0x202, 0x203, 0x204}"
    using r(3) example_pmm_facts(2) [of b] by (auto simp: maps_heap_def fs example_mm_def)
  ultimately show ?thesis using r(1,4) by auto
qed

end
