(* ===== verification/Libc.thy ===== *)
theory Libc
  imports Bytes
begin

text \<open>
  The string library, \<^verbatim>\<open>lib/string.c\<close>. A character array is a list of bytes and a pointer into it
  an offset; an access outside the array is \<open>None\<close>. Each loop of the source is a loop here, over
  the same index.
\<close>

section \<open>Array accesses\<close>

definition rd :: "u8 list \<Rightarrow> nat \<Rightarrow> u8 option" where
  "rd s i = (if i < length s then Some (s ! i) else None)"

definition wr :: "u8 list \<Rightarrow> nat \<Rightarrow> u8 \<Rightarrow> u8 list option" where
  "wr s i c = (if i < length s then Some (s[i := c]) else None)"

lemma rd_Some [simp]: "rd s i = Some c \<longleftrightarrow> i < length s \<and> s ! i = c"
  by (simp add: rd_def)

lemma rd_None [simp]: "rd s i = None \<longleftrightarrow> length s \<le> i"
  by (auto simp: rd_def)

lemma wr_Some [simp]: "wr s i c = Some s' \<longleftrightarrow> i < length s \<and> s' = s[i := c]"
  by (auto simp: wr_def)

lemma wr_None [simp]: "wr s i c = None \<longleftrightarrow> length s \<le> i"
  by (auto simp: wr_def)

text \<open>The array of a string literal.\<close>

definition c_str :: "string \<Rightarrow> u8 list" where
  "c_str s = map (\<lambda>c. of_nat (of_char c)) s @ [0]"

section \<open>The functions\<close>

text \<open>\<^verbatim>\<open>strlen\<close>.\<close>

function strlen_from :: "u8 list \<Rightarrow> nat \<Rightarrow> nat option" where
  "strlen_from s len =
     (case rd s len of None \<Rightarrow> None
      | Some c \<Rightarrow> if c \<noteq> 0 then strlen_from s (Suc len) else Some len)"
  by pat_completeness auto
termination by (relation "measure (\<lambda>(s, len). length s - len)") auto

definition strlen :: "u8 list \<Rightarrow> nat option" where
  "strlen s = strlen_from s 0"

text \<open>\<^verbatim>\<open>strcmp\<close>: the difference of the first characters that differ, as unsigned bytes.\<close>

function strcmp_from :: "u8 list \<Rightarrow> u8 list \<Rightarrow> nat \<Rightarrow> int option" where
  "strcmp_from s1 s2 i =
     (case rd s1 i of None \<Rightarrow> None
      | Some a \<Rightarrow> (case rd s2 i of None \<Rightarrow> None
         | Some b \<Rightarrow> if a \<noteq> 0 \<and> a = b then strcmp_from s1 s2 (Suc i) else Some (uint a - uint b)))"
  by pat_completeness auto
termination by (relation "measure (\<lambda>(s1, s2, i). length s1 - i)") auto

definition strcmp :: "u8 list \<Rightarrow> u8 list \<Rightarrow> int option" where
  "strcmp s1 s2 = strcmp_from s1 s2 0"

text \<open>\<^verbatim>\<open>memset\<close> and \<^verbatim>\<open>memcpy\<close>, on arrays and in the flat memory.\<close>

fun memset :: "u8 list \<Rightarrow> nat \<Rightarrow> u8 \<Rightarrow> nat \<Rightarrow> u8 list option" where
  "memset dest d val 0 = Some dest"
| "memset dest d val (Suc n) =
     (case wr dest d val of None \<Rightarrow> None | Some dest' \<Rightarrow> memset dest' (Suc d) val n)"

fun memcpy :: "u8 list \<Rightarrow> nat \<Rightarrow> u8 list \<Rightarrow> nat \<Rightarrow> nat \<Rightarrow> u8 list option" where
  "memcpy dest d src s 0 = Some dest"
| "memcpy dest d src s (Suc n) =
     (case rd src s of None \<Rightarrow> None
      | Some c \<Rightarrow> (case wr dest d c of None \<Rightarrow> None
         | Some dest' \<Rightarrow> memcpy dest' (Suc d) src (Suc s) n))"

fun memcpy_mem :: "u64 \<Rightarrow> u64 \<Rightarrow> nat \<Rightarrow> mem \<Rightarrow> mem" where
  "memcpy_mem d s 0 m = m"
| "memcpy_mem d s (Suc n) m = memcpy_mem (d + 1) (s + 1) n (m(d := m s))"

fun memset_mem :: "u64 \<Rightarrow> u8 \<Rightarrow> nat \<Rightarrow> mem \<Rightarrow> mem" where
  "memset_mem d val 0 m = m"
| "memset_mem d val (Suc n) m = memset_mem (d + 1) val n (m(d := val))"

text \<open>\<^verbatim>\<open>strcpy\<close> and \<^verbatim>\<open>strncpy\<close>, whose first loop stops at the terminator and whose second
  fills up with NULs; a source of \<open>n\<close> or more characters leaves no terminator.\<close>

function strcpy_from :: "u8 list \<Rightarrow> u8 list \<Rightarrow> nat \<Rightarrow> u8 list option" where
  "strcpy_from dest src i =
     (case rd src i of None \<Rightarrow> None
      | Some c \<Rightarrow> if c \<noteq> 0 then (case wr dest i c of None \<Rightarrow> None | Some dest' \<Rightarrow> strcpy_from dest' src (Suc i))
                  else wr dest i 0)"
  by pat_completeness auto
termination by (relation "measure (\<lambda>(dest, src, i). length src - i)") auto

definition strcpy :: "u8 list \<Rightarrow> u8 list \<Rightarrow> u8 list option" where
  "strcpy dest src = strcpy_from dest src 0"

function strncpy_copy :: "u8 list \<Rightarrow> u8 list \<Rightarrow> nat \<Rightarrow> nat \<Rightarrow> (nat \<times> u8 list) option" where
  "strncpy_copy dest src n i =
     (if i < n
      then (case rd src i of None \<Rightarrow> None
            | Some c \<Rightarrow> if c \<noteq> 0
                then (case wr dest i c of None \<Rightarrow> None | Some dest' \<Rightarrow> strncpy_copy dest' src n (Suc i))
                else Some (i, dest))
      else Some (i, dest))"
  by pat_completeness auto
termination by (relation "measure (\<lambda>(dest, src, n, i). n - i)") auto

function strncpy_fill :: "u8 list \<Rightarrow> nat \<Rightarrow> nat \<Rightarrow> u8 list option" where
  "strncpy_fill dest n i =
     (if i < n then (case wr dest i 0 of None \<Rightarrow> None | Some dest' \<Rightarrow> strncpy_fill dest' n (Suc i))
      else Some dest)"
  by pat_completeness auto
termination by (relation "measure (\<lambda>(dest, n, i). n - i)") auto

definition strncpy :: "u8 list \<Rightarrow> u8 list \<Rightarrow> nat \<Rightarrow> u8 list option" where
  "strncpy dest src n =
     (case strncpy_copy dest src n 0 of None \<Rightarrow> None | Some (i, dest') \<Rightarrow> strncpy_fill dest' n i)"

text \<open>\<^verbatim>\<open>strrchr\<close> and \<^verbatim>\<open>strchr\<close>: the result is an offset, \<open>None\<close> inside the result being
  the null pointer.\<close>

function strrchr_from :: "u8 list \<Rightarrow> u8 \<Rightarrow> nat option \<Rightarrow> nat \<Rightarrow> nat option option" where
  "strrchr_from s c lst i =
     (case rd s i of None \<Rightarrow> None
      | Some x \<Rightarrow> if x \<noteq> 0 then strrchr_from s c (if x = c then Some i else lst) (Suc i)
                  else Some (if c = 0 then Some i else lst))"
  by pat_completeness auto
termination by (relation "measure (\<lambda>(s, c, lst, i). length s - i)") auto

definition strrchr :: "u8 list \<Rightarrow> u8 \<Rightarrow> nat option option" where
  "strrchr s c = strrchr_from s c None 0"

function strchr_from :: "u8 list \<Rightarrow> u8 \<Rightarrow> nat \<Rightarrow> nat option option" where
  "strchr_from s c i =
     (case rd s i of None \<Rightarrow> None
      | Some x \<Rightarrow> if x \<noteq> c then (if x = 0 then Some None else strchr_from s c (Suc i)) else Some (Some i))"
  by pat_completeness auto
termination by (relation "measure (\<lambda>(s, c, i). length s - i)") auto

definition strchr :: "u8 list \<Rightarrow> u8 \<Rightarrow> nat option option" where
  "strchr s c = strchr_from s c 0"

text \<open>\<^verbatim>\<open>reverse\<close> with its \<^verbatim>\<open>size_t\<close> indices: for \<open>len = 0\<close> the upper index starts at
  \<open>2 ^ 64 - 1\<close>.\<close>

function reverse_loop :: "u8 list \<Rightarrow> u64 \<Rightarrow> u64 \<Rightarrow> u8 list option" where
  "reverse_loop str i j =
     (if i < j
      then (case rd str (unat i) of None \<Rightarrow> None
            | Some temp \<Rightarrow> (case rd str (unat j) of None \<Rightarrow> None
               | Some c \<Rightarrow> reverse_loop ((str[unat i := c])[unat j := temp]) (i + 1) (j - 1)))
      else Some str)"
  by pat_completeness auto
termination
proof (relation "measure (\<lambda>(str, i, j). unat j)")
  fix i j :: u64
  assume "i < j"
  then have "0 < unat j" by (auto simp: word_less_nat_alt)
  then have "unat (j - 1) < unat j" by (subst unat_minus_le) (simp_all add: word_le_nat_alt)
  then show "((s', i + 1, j - 1), (s, i, j)) \<in> measure (\<lambda>(str, i, j). unat j)" for s s' :: "u8 list"
    by simp
qed simp

definition reverse :: "u8 list \<Rightarrow> u64 \<Rightarrow> u8 list option" where
  "reverse str len = reverse_loop str 0 (len - 1)"

text \<open>\<^verbatim>\<open>itoa\<close>; a division by a zero base has no result.\<close>

definition digit_char :: "u64 \<Rightarrow> u8" where
  "digit_char r = (if r < 10 then ucast (r + 48) else ucast (r - 10 + 65))"

function itoa_loop :: "u64 \<Rightarrow> u64 \<Rightarrow> u8 list \<Rightarrow> nat \<Rightarrow> (u8 list \<times> nat) option" where
  "itoa_loop v base str i =
     (if base = 0 then None
      else (case wr str i (digit_char (v mod base)) of None \<Rightarrow> None
            | Some str' \<Rightarrow> if 0 < v div base then itoa_loop (v div base) base str' (Suc i)
                           else Some (str', Suc i)))"
  by pat_completeness auto
termination by (relation "measure (\<lambda>(v, base, str, i). length str - i)") auto

definition itoa :: "u64 \<Rightarrow> u8 list \<Rightarrow> u64 \<Rightarrow> u8 list option" where
  "itoa v str base =
     do { (str1, i) \<leftarrow> itoa_loop v base str 0;
          str2 \<leftarrow> wr str1 i 0;
          reverse str2 (of_nat i) }"

text \<open>\<^verbatim>\<open>strtok\<close> keeps its position between calls. Positions are offsets in the one array the
  caller is splitting; \<open>None\<close> inside a result is the null pointer.\<close>

function is_delimiter :: "u8 list \<Rightarrow> u8 \<Rightarrow> nat \<Rightarrow> bool option" where
  "is_delimiter delimiters c d =
     (case rd delimiters d of None \<Rightarrow> None
      | Some x \<Rightarrow> if x \<noteq> 0 then (if c = x then Some True else is_delimiter delimiters c (Suc d))
                  else Some False)"
  by pat_completeness auto
termination by (relation "measure (\<lambda>(delimiters, c, d). length delimiters - d)") auto

function skip_delims :: "u8 list \<Rightarrow> u8 list \<Rightarrow> nat \<Rightarrow> nat option" where
  "skip_delims s delimiters start =
     (case rd s start of None \<Rightarrow> None
      | Some c \<Rightarrow> if c \<noteq> 0
          then (case is_delimiter delimiters c 0 of None \<Rightarrow> None
                | Some isd \<Rightarrow> if isd then skip_delims s delimiters (Suc start) else Some start)
          else Some start)"
  by pat_completeness auto
termination by (relation "measure (\<lambda>(s, delimiters, start). length s - start)") auto

function token_end :: "u8 list \<Rightarrow> u8 list \<Rightarrow> nat \<Rightarrow> nat option" where
  "token_end s delimiters en =
     (case rd s en of None \<Rightarrow> None
      | Some c \<Rightarrow> if c \<noteq> 0
          then (case is_delimiter delimiters c 0 of None \<Rightarrow> None
                | Some isd \<Rightarrow> if isd then Some en else token_end s delimiters (Suc en))
          else Some en)"
  by pat_completeness auto
termination by (relation "measure (\<lambda>(s, delimiters, en). length s - en)") auto

definition strtok :: "nat option \<Rightarrow> nat option \<Rightarrow> u8 list \<Rightarrow> u8 list \<Rightarrow> (nat option \<times> nat option \<times> u8 list) option" where
  "strtok last_pos str s delimiters =
     (case (if str \<noteq> None then str else last_pos) of
        None \<Rightarrow> Some (None, None, s)
      | Some pos \<Rightarrow>
          do { start \<leftarrow> skip_delims s delimiters pos;
               c \<leftarrow> rd s start;
               if c = 0 then Some (None, None, s)
               else do { en \<leftarrow> token_end s delimiters start;
                         e \<leftarrow> rd s en;
                         if e \<noteq> 0 then Some (Some start, Some (Suc en), s[en := 0])
                         else Some (Some start, None, s) } })"

declare strlen_from.simps [simp del] strcmp_from.simps [simp del] strcpy_from.simps [simp del]
  strncpy_copy.simps [simp del] strncpy_fill.simps [simp del] strrchr_from.simps [simp del]
  strchr_from.simps [simp del] reverse_loop.simps [simp del] itoa_loop.simps [simp del]
  is_delimiter.simps [simp del] skip_delims.simps [simp del] token_end.simps [simp del]

section \<open>Strings in arrays\<close>

definition cstr :: "u8 list \<Rightarrow> u8 list" where
  "cstr s = takeWhile (\<lambda>c. c \<noteq> 0) s"

definition terminated :: "u8 list \<Rightarrow> bool" where
  "terminated s \<longleftrightarrow> 0 \<in> set s"

lemma drop_step: "i < length s \<Longrightarrow> drop i s = s ! i # drop (Suc i) s"
  by (simp add: Cons_nth_drop_Suc)

lemma terminated_Nil [simp]: "\<not> terminated []"
  and terminated_Cons [simp]: "terminated (c # s) \<longleftrightarrow> c = 0 \<or> terminated s"
  by (auto simp: terminated_def)

lemma cstr_Nil [simp]: "cstr [] = []"
  and cstr_Cons [simp]: "cstr (c # s) = (if c = 0 then [] else c # cstr s)"
  by (simp_all add: cstr_def)

lemma terminated_cstr: "terminated s \<longleftrightarrow> length (cstr s) < length s"
  by (induction s) auto

lemma cstr_nonzero: "0 \<notin> set (cstr s)"
  by (induction s) auto

lemma cstr_id: "0 \<notin> set xs \<Longrightarrow> cstr (xs @ 0 # ys) = xs"
  by (induction xs) auto

lemma cstr_full: "0 \<notin> set xs \<Longrightarrow> cstr xs = xs"
  by (induction xs) auto

lemma cstr_split: "terminated s \<Longrightarrow> \<exists>t. s = cstr s @ 0 # t"
  by (induction s) auto

lemma cstr_terminated_nth: "terminated s \<Longrightarrow> i \<le> length (cstr s) \<Longrightarrow> s ! i = (cstr s @ [0]) ! i"
  by (induction s arbitrary: i) (auto simp: nth_Cons split: nat.splits)

lemma cstr_nth: "i < length (cstr s) \<Longrightarrow> cstr s ! i = s ! i \<and> s ! i \<noteq> 0"
  by (induction s arbitrary: i) (auto simp: nth_Cons split: nat.splits if_splits)

lemma strlen_from_spec:
  "strlen_from s i = (if terminated (drop i s) then Some (i + length (cstr (drop i s))) else None)"
proof (induction s i rule: strlen_from.induct)
  case (1 s len)
  show ?case
  proof (cases "len < length s")
    case True
    then show ?thesis using 1 drop_step [OF True] by (subst strlen_from.simps) (auto simp: rd_def)
  qed (simp add: strlen_from.simps rd_def)
qed

lemma strlen_spec: "strlen s = (if terminated s then Some (length (cstr s)) else None)"
  by (simp add: strlen_def strlen_from_spec)

section \<open>Comparison\<close>

lemma strcmp_from_spec:
  assumes "terminated (drop i s1)" and "terminated (drop i s2)"
  shows "\<exists>k. i \<le> k \<and> k < length s1 \<and> k < length s2 \<and>
    (\<forall>j. i \<le> j \<and> j < k \<longrightarrow> s1 ! j = s2 ! j \<and> s1 ! j \<noteq> 0) \<and> (s1 ! k = 0 \<or> s1 ! k \<noteq> s2 ! k) \<and>
    strcmp_from s1 s2 i = Some (uint (s1 ! k) - uint (s2 ! k))"
  using assms
proof (induction s1 s2 i rule: strcmp_from.induct)
  case (1 s1 s2 i)
  have i: "i < length s1" "i < length s2" using 1(2,3) by (auto simp: terminated_def intro: ccontr)
  then have rd: "rd s1 i = Some (s1 ! i)" "rd s2 i = Some (s2 ! i)" by simp_all
  show ?case
  proof (cases "s1 ! i \<noteq> 0 \<and> s1 ! i = s2 ! i")
    case True
    have "terminated (drop (Suc i) s1)" "terminated (drop (Suc i) s2)"
      using 1(2,3) True drop_step [OF i(1)] drop_step [OF i(2)] by auto
    then obtain k where k: "Suc i \<le> k" "k < length s1" "k < length s2"
      "\<forall>j. Suc i \<le> j \<and> j < k \<longrightarrow> s1 ! j = s2 ! j \<and> s1 ! j \<noteq> 0" "s1 ! k = 0 \<or> s1 ! k \<noteq> s2 ! k"
      "strcmp_from s1 s2 (Suc i) = Some (uint (s1 ! k) - uint (s2 ! k))"
      using 1(1) [OF rd True] by blast
    have "strcmp_from s1 s2 i = strcmp_from s1 s2 (Suc i)"
      using True i by (subst strcmp_from.simps) (auto simp: rd_def)
    moreover have "\<forall>j. i \<le> j \<and> j < k \<longrightarrow> s1 ! j = s2 ! j \<and> s1 ! j \<noteq> 0"
      using k(4) True by (metis Suc_leI le_eq_less_or_eq)
    ultimately show ?thesis using k(1,2,3,5,6) by (intro exI [of _ k] conjI) (assumption | simp)+
  next
    case False
    then show ?thesis using i rd by (intro exI [of _ i]) (auto simp: strcmp_from.simps [of s1 s2 i] rd_def)
  qed
qed

lemma cstr_eqI:
  assumes "k < length s1" "k < length s2" "s1 ! k = 0" "s2 ! k = 0"
    and "\<And>j. j < k \<Longrightarrow> s1 ! j = s2 ! j \<and> s1 ! j \<noteq> 0"
  shows "cstr s1 = cstr s2"
proof -
  have "s1 = take k s1 @ 0 # drop (Suc k) s1" "s2 = take k s2 @ 0 # drop (Suc k) s2"
    using assms by (metis id_take_nth_drop)+
  moreover have "take k s1 = take k s2" using assms by (intro nth_equalityI) auto
  moreover have "0 \<notin> set (take k s2)" using assms(2,5) by (auto simp: in_set_conv_nth) metis
  ultimately show ?thesis using cstr_id by metis
qed

lemma strcmp_spec:
  assumes "terminated s1" and "terminated s2"
  shows "\<exists>r. strcmp s1 s2 = Some r \<and> strcmp s2 s1 = Some (- r) \<and> (r = 0 \<longleftrightarrow> cstr s1 = cstr s2)"
proof -
  obtain k where k: "k < length s1" "k < length s2" "\<forall>j < k. s1 ! j = s2 ! j \<and> s1 ! j \<noteq> 0"
    "s1 ! k = 0 \<or> s1 ! k \<noteq> s2 ! k" "strcmp s1 s2 = Some (uint (s1 ! k) - uint (s2 ! k))"
    using strcmp_from_spec [of 0 s1 s2] assms by (auto simp: strcmp_def)
  obtain l where l: "l < length s1" "l < length s2" "\<forall>j < l. s2 ! j = s1 ! j \<and> s2 ! j \<noteq> 0"
    "s2 ! l = 0 \<or> s2 ! l \<noteq> s1 ! l" "strcmp s2 s1 = Some (uint (s2 ! l) - uint (s1 ! l))"
    using strcmp_from_spec [of 0 s2 s1] assms by (auto simp: strcmp_def)
  have "k = l" using k(3,4) l(3,4) by (metis linorder_neqE_nat)
  moreover have "(uint (s1 ! k) - uint (s2 ! k) = 0) \<longleftrightarrow> cstr s1 = cstr s2"
  proof
    assume "uint (s1 ! k) - uint (s2 ! k) = 0"
    then have "s1 ! k = s2 ! k" by (simp add: word_uint_eq_iff)
    then show "cstr s1 = cstr s2" using k by (intro cstr_eqI [of k]) auto
  next
    assume eq: "cstr s1 = cstr s2"
    have len: "k \<le> length (cstr s1)" "k \<le> length (cstr s2)"
      using k(1,2,3) unfolding cstr_def by (auto intro!: length_takeWhile_less_P_nth)
    show "uint (s1 ! k) - uint (s2 ! k) = 0"
      using cstr_terminated_nth [OF assms(1) len(1)] cstr_terminated_nth [OF assms(2) len(2)] eq by simp
  qed
  ultimately show ?thesis using k(5) l(5) by auto
qed

section \<open>Copying\<close>

lemma memset_spec:
  "d + n \<le> length dest \<Longrightarrow> memset dest d val n = Some (take d dest @ replicate n val @ drop (d + n) dest)"
proof (induction n arbitrary: dest d)
  case (Suc n)
  have d: "d < length dest" using Suc.prems by simp
  then have "take (Suc d) (dest[d := val]) = take d dest @ [val]"
    by (simp add: take_Suc_conv_app_nth)
  then show ?case using Suc d by (simp add: wr_def)
qed simp

lemma memset_None: "length dest < d + n \<Longrightarrow> 0 < n \<Longrightarrow> memset dest d val n = None"
  by (induction n arbitrary: dest d) (auto simp: wr_def)

lemma memcpy_spec:
  "d + n \<le> length dest \<Longrightarrow> s + n \<le> length src \<Longrightarrow>
    memcpy dest d src s n = Some (take d dest @ take n (drop s src) @ drop (d + n) dest)"
proof (induction n arbitrary: dest d s)
  case (Suc n)
  have d: "d < length dest" "s < length src" using Suc.prems by simp_all
  then have "take (Suc d) (dest[d := src ! s]) = take d dest @ [src ! s]"
    by (simp add: take_Suc_conv_app_nth)
  then show ?case using Suc d drop_step [OF d(2)] by (simp add: wr_def rd_def)
qed simp

lemma memcpy_None: "length dest < d + n \<or> length src < s + n \<Longrightarrow> 0 < n \<Longrightarrow> memcpy dest d src s n = None"
  by (induction n arbitrary: dest d s) (auto simp: wr_def rd_def)

lemma strcpy_from_spec:
  assumes "terminated (drop i src)" and "i + length (cstr (drop i src)) < length dest"
  shows "strcpy_from dest src i = Some (take i dest @ cstr (drop i src) @ 0 #
    drop (Suc (i + length (cstr (drop i src)))) dest)"
  using assms
proof (induction dest src i rule: strcpy_from.induct)
  case (1 dest src i)
  have i: "i < length src" using 1(2) by (auto simp: terminated_def intro: ccontr)
  have d: "i < length dest" using 1(3) by simp
  show ?case
  proof (cases "src ! i = 0")
    case True
    then show ?thesis using i d drop_step [OF i]
      by (subst strcpy_from.simps) (simp add: rd_def wr_def upd_conv_take_nth_drop)
  next
    case False
    have "take (Suc i) (dest[i := src ! i]) = take i dest @ [src ! i]"
      using d by (simp add: take_Suc_conv_app_nth)
    then show ?thesis using 1 False i d drop_step [OF i]
      by (subst strcpy_from.simps) (simp add: rd_def wr_def)
  qed
qed

lemma strcpy_spec:
  "terminated src \<Longrightarrow> length (cstr src) < length dest \<Longrightarrow>
    strcpy dest src = Some (cstr src @ 0 # drop (Suc (length (cstr src))) dest)"
  by (simp add: strcpy_def strcpy_from_spec)

lemma strncpy_fill_spec:
  "n \<le> length dest \<Longrightarrow> i \<le> n \<Longrightarrow> strncpy_fill dest n i = Some (take i dest @ replicate (n - i) 0 @ drop n dest)"
proof (induction dest n i rule: strncpy_fill.induct)
  case (1 dest n i)
  show ?case
  proof (cases "i < n")
    case True
    have "take (Suc i) (dest[i := 0]) = take i dest @ [0]"
      using True 1(2) by (simp add: take_Suc_conv_app_nth)
    moreover have "replicate (n - i) (0 :: u8) = 0 # replicate (n - Suc i) 0"
      using True by (metis Suc_diff_Suc replicate_Suc)
    ultimately show ?thesis using 1 True by (subst strncpy_fill.simps) (simp add: wr_def)
  qed (use 1 in \<open>simp add: strncpy_fill.simps\<close>)
qed

lemma strncpy_copy_spec:
  assumes "n \<le> length dest" and "i \<le> n" and "terminated (drop i src) \<or> n \<le> length src"
  defines "c \<equiv> take (n - i) (cstr (drop i src))"
  shows "strncpy_copy dest src n i = Some (i + length c, take i dest @ c @ drop (i + length c) dest)"
  using assms(1,2,3) unfolding c_def
proof (induction dest src n i rule: strncpy_copy.induct)
  case (1 dest src n i)
  show ?case
  proof (cases "i < n")
    case True
    have i: "i < length src" using 1(4) True by (auto simp: terminated_def intro: ccontr)
    have d: "i < length dest" using 1(2) True by simp
    show ?thesis
    proof (cases "src ! i = 0")
      case True
      then show ?thesis using i drop_step [OF i] \<open>i < n\<close>
        by (subst strncpy_copy.simps) (simp add: rd_def)
    next
      case False
      have "take (Suc i) (dest[i := src ! i]) = take i dest @ [src ! i]"
        using d by (simp add: take_Suc_conv_app_nth)
      moreover have "n - i = Suc (n - Suc i)" using True by simp
      ultimately show ?thesis using 1 False i d True drop_step [OF i]
        by (subst strncpy_copy.simps) (simp add: rd_def wr_def)
    qed
  qed (use 1 in \<open>simp add: strncpy_copy.simps\<close>)
qed

lemma strncpy_spec:
  assumes "n \<le> length dest" and "terminated src \<or> n \<le> length src"
  shows "strncpy dest src n = Some (take n (cstr src @ replicate n 0) @ drop n dest)"
proof -
  let ?c = "take n (cstr src)"
  have "length (cstr src) < n \<or> length ?c = n" by auto
  then have "length ?c \<le> n" by auto
  then have "strncpy dest src n = Some (?c @ replicate (n - length ?c) 0 @ drop n dest)"
    using assms strncpy_copy_spec [of n dest 0 src] strncpy_fill_spec [of n "?c @ drop (length ?c) dest" "length ?c"]
    by (simp add: strncpy_def min_def split: if_splits)
  then show ?thesis by (simp add: min_def)
qed

section \<open>Searching\<close>

lemma strchr_from_spec:
  "terminated (drop i s) \<Longrightarrow> strchr_from s c i =
    Some (if c = 0 \<or> c \<in> set (cstr (drop i s))
          then Some (i + length (takeWhile (\<lambda>x. x \<noteq> c) (cstr (drop i s)))) else None)"
proof (induction s c i rule: strchr_from.induct)
  case (1 s c i)
  have i: "i < length s" using 1(2) by (auto simp: terminated_def intro: ccontr)
  show ?case using 1 i drop_step [OF i] by (subst strchr_from.simps) (auto simp: rd_def)
qed

lemma strchr_spec:
  "terminated s \<Longrightarrow> strchr s c =
    Some (if c = 0 \<or> c \<in> set (cstr s) then Some (length (takeWhile (\<lambda>x. x \<noteq> c) (cstr s))) else None)"
  by (simp add: strchr_def strchr_from_spec)

lemma strrchr_from_spec:
  assumes "terminated (drop i s)" and "c \<noteq> 0"
  shows "if c \<in> set (cstr (drop i s))
    then \<exists>k. strrchr_from s c lst i = Some (Some k) \<and> i \<le> k \<and> k < i + length (cstr (drop i s)) \<and> s ! k = c \<and>
      (\<forall>j. k < j \<and> j < i + length (cstr (drop i s)) \<longrightarrow> s ! j \<noteq> c)
    else strrchr_from s c lst i = Some lst"
  using assms
proof (induction s c lst i rule: strrchr_from.induct)
  case (1 s c lst i)
  have i: "i < length s" using 1(2) by (auto simp: terminated_def intro: ccontr)
  note d = drop_step [OF i]
  show ?case
  proof (cases "s ! i = 0")
    case True
    then show ?thesis using 1(3) i d by (subst strrchr_from.simps) (simp add: rd_def)
  next
    case False
    let ?l = "if s ! i = c then Some i else lst"
    have step: "strrchr_from s c lst i = strrchr_from s c ?l (Suc i)"
      using False i by (subst strrchr_from.simps) (simp add: rd_def)
    have "terminated (drop (Suc i) s)" using 1(2) False d by simp
    note IH = 1(1) [of "s ! i", OF _ False this 1(3)]
    have cs: "cstr (drop i s) = s ! i # cstr (drop (Suc i) s)" using d False by simp
    show ?thesis
    proof (cases "c \<in> set (cstr (drop (Suc i) s))")
      case True
      then show ?thesis using IH i unfolding step cs by (auto simp: rd_def)
    next
      case F: False
      then have "strrchr_from s c lst i = Some ?l" using IH i step by (simp add: rd_def)
      moreover have "s ! j \<noteq> c" if "i < j" "j < i + length (cstr (drop i s))" for j
      proof -
        have "s ! j = cstr (drop (Suc i) s) ! (j - Suc i)" "j - Suc i < length (cstr (drop (Suc i) s))"
          using that cs cstr_nth [of "j - Suc i" "drop (Suc i) s"] i
          by (auto simp: nth_drop)
        with F show ?thesis by (metis nth_mem)
      qed
      ultimately show ?thesis using F unfolding cs by (auto intro!: exI [of _ i])
    qed
  qed
qed

section \<open>Reversal\<close>

lemma reverse_loop_spec:
  assumes "unat i + unat j < 2 ^ 64 - 1" and "unat j < length str"
  shows "reverse_loop str i j = Some (map (\<lambda>k. if unat i \<le> k \<and> k \<le> unat j then str ! (unat i + unat j - k) else str ! k)
    [0..<length str])"
  using assms
proof (induction str i j rule: reverse_loop.induct)
  case (1 str i j)
  show ?case
  proof (cases "i < j")
    case True
    have lt: "unat i < unat j" using True by (simp add: word_less_nat_alt)
    have "unat i < 18446744073709551615" using lt unat_lt64 [of j] by linarith
    then have ui: "unat (i + 1) = unat i + 1" by (subst unat_plus_small) simp_all
    have uj: "unat (j - 1) = unat j - 1" using lt by (subst unat_minus_le) (simp_all add: word_le_nat_alt)
    let ?s = "(str[unat i := str ! unat j])[unat j := str ! unat i]"
    have "reverse_loop str i j = reverse_loop ?s (i + 1) (j - 1)"
      using True lt 1(3) by (subst reverse_loop.simps) (simp add: rd_def)
    also have "\<dots> = Some (map (\<lambda>k. if unat i + 1 \<le> k \<and> k \<le> unat j - 1 then ?s ! (unat i + 1 + (unat j - 1) - k) else ?s ! k)
        [0..<length ?s])"
      using 1(1) [of "str ! unat i" "str ! unat j"] True lt 1(2,3) by (simp add: ui uj)
    also have "\<dots> = Some (map (\<lambda>k. if unat i \<le> k \<and> k \<le> unat j then str ! (unat i + unat j - k) else str ! k)
        [0..<length str])"
      using lt 1(3) by (auto simp: nth_list_update)
    finally show ?thesis .
  next
    case False
    then have "unat j \<le> unat i" by (simp add: word_less_nat_alt)
    then show ?thesis using False by (auto simp: reverse_loop.simps [of str i j] map_nth intro!: nth_equalityI arg_cong [where f = "(!) str"])
  qed
qed

lemma reverse_spec:
  assumes "0 < n" and "n \<le> length str" and "n < 2 ^ 64"
  shows "reverse str (of_nat n) = Some (rev (take n str) @ drop n str)"
proof -
  have "(of_nat n - 1 :: u64) = of_nat (n - 1)" using assms(1) by (simp add: of_nat_diff)
  moreover have "unat (of_nat (n - 1) :: u64) = n - 1" using assms(3) by (intro unat_of_nat_small) simp
  ultimately have "reverse str (of_nat n) = Some (map (\<lambda>k. if k \<le> n - 1 then str ! (n - 1 - k) else str ! k) [0..<length str])"
    using reverse_loop_spec [of 0 "of_nat (n - 1)" str] assms by (simp add: reverse_def)
  moreover have "map (\<lambda>k. if k \<le> n - 1 then str ! (n - 1 - k) else str ! k) [0..<length str] = rev (take n str) @ drop n str"
    using assms by (intro nth_equalityI) (auto simp: nth_append rev_nth)
  ultimately show ?thesis by simp
qed

text \<open>For length 0 the upper index starts at the largest \<^verbatim>\<open>size_t\<close> and the first access is out
  of any array.\<close>

lemma reverse_empty: "length str < 2 ^ 64 \<Longrightarrow> str \<noteq> [] \<Longrightarrow> reverse str 0 = None"
proof -
  assume a: "length str < 2 ^ 64" "str \<noteq> []"
  have m1: "unat (- 1 :: u64) = 18446744073709551615" by (simp add: unsigned_minus_1_eq_mask mask_eq_exp_minus_1)
  then have "(0 :: u64) < - 1" by (simp only: word_less_nat_alt) simp
  moreover have "\<not> unat (- 1 :: u64) < length str" unfolding m1 using a(1) by simp
  ultimately show ?thesis by (simp add: reverse_def) (subst reverse_loop.simps, simp add: rd_def split: option.splits)
qed

section \<open>Numbers\<close>

function digits :: "nat \<Rightarrow> nat \<Rightarrow> nat list" where
  "digits b n = (if b < 2 \<or> n div b = 0 then [n mod b] else n mod b # digits b (n div b))"
  by pat_completeness auto
termination
proof (relation "measure snd")
  fix b n :: nat
  assume "\<not> (b < 2 \<or> n div b = 0)"
  then have "1 < b" "0 < n" by (auto intro: gr0I)
  then show "((b, n div b), (b, n)) \<in> measure snd" by simp
qed simp

declare digits.simps [simp del]

definition char_val :: "u8 \<Rightarrow> nat" where
  "char_val c = (if 65 \<le> c then unat c - 55 else unat c - 48)"

definition parse_number :: "nat \<Rightarrow> u8 list \<Rightarrow> nat" where
  "parse_number b s = foldl (\<lambda>n c. n * b + char_val c) 0 s"

lemma digits_nonempty: "digits b n \<noteq> []"
  by (subst digits.simps) auto

lemma digits_value: "2 \<le> b \<Longrightarrow> foldr (\<lambda>d n. n * b + d) (digits b n) 0 = n"
proof (induction b n rule: digits.induct)
  case (1 b n)
  then show ?case by (subst digits.simps) (auto simp: div_eq_0_iff mult.commute)
qed

lemma digits_less: "2 \<le> b \<Longrightarrow> d \<in> set (digits b n) \<Longrightarrow> d < b"
proof (induction b n rule: digits.induct)
  case (1 b n)
  have "d \<in> set (if b < 2 \<or> n div b = 0 then [n mod b] else n mod b # digits b (n div b))"
    using 1(3) by (subst (asm) digits.simps)
  then show ?case using 1(1,2) by (auto split: if_splits)
qed

lemma digits_length: "2 \<le> b \<Longrightarrow> n < b ^ k \<Longrightarrow> 0 < k \<Longrightarrow> length (digits b n) \<le> k"
proof (induction k arbitrary: n)
  case (Suc k)
  show ?case
  proof (cases "n div b = 0")
    case False
    then have "n div b < b ^ k" using Suc.prems(2) by (simp add: less_mult_imp_div_less mult.commute)
    moreover have "0 < k" using calculation False by (cases k) auto
    ultimately show ?thesis using Suc.IH [of "n div b"] Suc.prems(1) by (subst digits.simps) auto
  qed (simp add: digits.simps)
qed simp

lemma itoa_loop_spec:
  assumes "2 \<le> unat base"
  shows "itoa_loop v base str i =
    (let ds = map (\<lambda>d. digit_char (of_nat d)) (digits (unat base) (unat v)) in
     if i + length ds \<le> length str then Some (take i str @ ds @ drop (i + length ds) str, i + length ds) else None)"
  using assms
proof (induction v base str i rule: itoa_loop.induct)
  case (1 v base str i)
  have b0: "base \<noteq> 0" using 1(2) by auto
  have rem: "v mod base = of_nat (unat v mod unat base)" by (simp add: word_arith_nat_mod)
  have quot: "0 < v div base \<longleftrightarrow> unat v div unat base \<noteq> 0"
    by (simp add: word_less_nat_alt unat_div)
  let ?c = "digit_char (v mod base)"
  show ?case
  proof (cases "i < length str")
    case False
    moreover have "\<not> i + length (digits (unat base) (unat v)) \<le> length str"
      using False digits_nonempty [of "unat base" "unat v"] by (cases "digits (unat base) (unat v)") auto
    ultimately show ?thesis using b0 by (subst itoa_loop.simps) (simp add: wr_def Let_def)
  next
    case i: True
    have tk: "take (Suc i) (str[i := ?c]) = take i str @ [?c]" using i by (simp add: take_Suc_conv_app_nth)
    show ?thesis
    proof (cases "unat v div unat base = 0")
      case True
      then have ds: "digits (unat base) (unat v) = [unat v mod unat base]" by (simp add: digits.simps)
      have "\<not> 0 < v div base" using quot True by simp
      then show ?thesis using b0 i
        by (subst itoa_loop.simps) (simp add: wr_def ds rem [symmetric] upd_conv_take_nth_drop)
    next
      case False
      then have ds: "digits (unat base) (unat v) = (unat v mod unat base) # digits (unat base) (unat (v div base))"
        using 1(2) by (subst digits.simps) (simp add: unat_div)
      have q: "0 < v div base" using quot False by simp
      have "itoa_loop v base str i = itoa_loop (v div base) base (str[i := ?c]) (Suc i)"
        using b0 i q by (subst itoa_loop.simps) (simp add: wr_def)
      then show ?thesis using 1(1) [OF b0 _ q, of "str[i := ?c]"] 1(2) i tk
        by (simp add: wr_def ds rem [symmetric] Let_def)
    qed
  qed
qed

lemma digit_char_eq:
  assumes "d < 36"
  shows "unat (digit_char (of_nat d)) = (if d < 10 then d + 48 else d + 55)"
proof -
  have ud: "unat (of_nat d :: u64) = d" using assms by (intro unat_of_nat_small) simp
  show ?thesis
  proof (cases "d < 10")
    case True
    then have lt: "(of_nat d :: u64) < 10" by (simp add: word_less_nat_alt ud)
    have "unat (of_nat d + 48 :: u64) = d + 48" using assms ud by (subst unat_plus_small) simp_all
    then show ?thesis using True lt assms by (simp add: digit_char_def unsigned_ucast_eq take_bit_nat_eq_self)
  next
    case False
    then have nl: "\<not> (of_nat d :: u64) < 10" by (simp add: word_less_nat_alt ud)
    have "(of_nat d - 10 + 65 :: u64) = of_nat (d + 55)" by simp
    moreover have "unat (of_nat (d + 55) :: u64) = d + 55" using assms by (intro unat_of_nat_small) simp
    ultimately have "unat (of_nat d - 10 + 65 :: u64) = d + 55" by (simp only:)
    then show ?thesis using False nl assms by (simp add: digit_char_def unsigned_ucast_eq take_bit_nat_eq_self)
  qed
qed

lemma char_val_digit:
  assumes "d < 36"
  shows "char_val (digit_char (of_nat d)) = d" "digit_char (of_nat d) \<noteq> 0"
proof -
  note u = digit_char_eq [OF assms]
  have "65 \<le> digit_char (of_nat d) \<longleftrightarrow> 65 \<le> unat (digit_char (of_nat d))" by (simp add: word_le_nat_alt)
  then show "char_val (digit_char (of_nat d)) = d" using assms u by (auto simp: char_val_def)
  show "digit_char (of_nat d) \<noteq> 0" using u by (auto split: if_splits)
qed

definition itoa_text :: "nat \<Rightarrow> nat \<Rightarrow> u8 list" where
  "itoa_text b n = rev (map (\<lambda>d. digit_char (of_nat d)) (digits b n))"

lemma itoa_text_facts:
  assumes "2 \<le> b" and "b \<le> 36"
  shows "0 \<notin> set (itoa_text b n)" "parse_number b (itoa_text b n) = n" "itoa_text b n \<noteq> []"
    "k < length (itoa_text b n) \<Longrightarrow> char_val (itoa_text b n ! k) < b"
proof -
  have d: "d < 36" if "d \<in> set (digits b n)" for d using digits_less [OF assms(1) that] assms(2) by simp
  show "0 \<notin> set (itoa_text b n)" using d char_val_digit(2) by (auto simp: itoa_text_def)
  have "parse_number b (itoa_text b n) = foldr (\<lambda>d n. n * b + char_val (digit_char (of_nat d))) (digits b n) 0"
    by (simp add: parse_number_def itoa_text_def foldl_conv_foldr foldr_map comp_def)
  also have "\<dots> = foldr (\<lambda>d n. n * b + d) (digits b n) 0"
    using d char_val_digit(1) by (intro foldr_cong) auto
  finally show "parse_number b (itoa_text b n) = n" using digits_value [OF assms(1)] by simp
  show "itoa_text b n \<noteq> []" by (simp add: itoa_text_def digits_nonempty)
  show "char_val (itoa_text b n ! k) < b" if "k < length (itoa_text b n)"
  proof -
    have "itoa_text b n ! k \<in> set (itoa_text b n)" using that by (rule nth_mem)
    then obtain d where "d \<in> set (digits b n)" "itoa_text b n ! k = digit_char (of_nat d)"
      by (auto simp: itoa_text_def)
    then show ?thesis using d char_val_digit(1) digits_less [OF assms(1)] by simp
  qed
qed

lemma itoa_text_length: "2 \<le> b \<Longrightarrow> n < b ^ k \<Longrightarrow> 0 < k \<Longrightarrow> length (itoa_text b n) \<le> k"
  using digits_length by (simp add: itoa_text_def)

lemma itoa_text_length_64: "2 \<le> unat base \<Longrightarrow> length (itoa_text (unat base) (unat (v :: u64))) \<le> 64"
proof (rule itoa_text_length)
  assume b: "2 \<le> unat base"
  have "unat v < 2 ^ 64" using unat_lt64 [of v] by simp
  also have "(2 :: nat) ^ 64 \<le> unat base ^ 64" using b by (intro power_mono) simp_all
  finally show "unat v < unat base ^ 64" .
qed simp_all

lemma itoa_spec:
  fixes v base :: u64
  assumes "2 \<le> unat base"
  defines "t \<equiv> itoa_text (unat base) (unat v)"
  shows "itoa v str base = (if length t < length str then Some (t @ 0 # drop (Suc (length t)) str) else None)"
proof -
  let ?ds = "map (\<lambda>d. digit_char (of_nat d)) (digits (unat base) (unat v))"
  have t: "t = rev ?ds" "length t = length ?ds" by (simp_all add: t_def itoa_text_def)
  have k: "length t \<le> 64" unfolding t_def by (rule itoa_text_length_64 [OF assms(1)])
  have pos: "0 < length t" using digits_nonempty by (simp add: t_def itoa_text_def)
  show ?thesis
  proof (cases "length t < length str")
    case True
    have l: "itoa_loop v base str 0 = Some (?ds @ drop (length t) str, length t)"
      using True t(2) by (simp add: itoa_loop_spec [OF assms(1)] Let_def)
    let ?s = "?ds @ 0 # drop (Suc (length t)) str"
    have w: "wr (?ds @ drop (length t) str) (length t) 0 = Some ?s"
      using True t(2) drop_step [OF True] by (simp add: list_update_append)
    have r: "reverse ?s (of_nat (length t)) = Some (t @ 0 # drop (Suc (length t)) str)"
      using reverse_spec [of "length t" ?s] pos k t by simp
    have "itoa v str base = Some (t @ 0 # drop (Suc (length t)) str)"
      unfolding itoa_def l by (simp only: Option.bind.simps split_conv w r)
    with True show ?thesis by simp
  next
    case False
    have "itoa_loop v base str 0 = (if length t \<le> length str then Some (?ds @ drop (length t) str, length t) else None)"
      using t(2) by (simp add: itoa_loop_spec [OF assms(1)] Let_def)
    then show ?thesis using False t(2) by (auto simp: itoa_def wr_def)
  qed
qed

section \<open>Tokens\<close>

lemma is_delimiter_spec:
  "terminated (drop d D) \<Longrightarrow> is_delimiter D c d = Some (c \<in> set (cstr (drop d D)))"
proof (induction D c d rule: is_delimiter.induct)
  case (1 D c d)
  have d: "d < length D" using 1(2) by (auto simp: terminated_def intro: ccontr)
  show ?case using 1 d drop_step [OF d] by (subst is_delimiter.simps) (auto simp: rd_def)
qed

lemma skip_delims_spec:
  "terminated D \<Longrightarrow> terminated (drop i s) \<Longrightarrow>
    skip_delims s D i = Some (i + length (takeWhile (\<lambda>c. c \<in> set (cstr D)) (cstr (drop i s))))"
proof (induction s D i rule: skip_delims.induct)
  case (1 s D i)
  have i: "i < length s" using 1(3) by (auto simp: terminated_def intro: ccontr)
  show ?case using 1 i drop_step [OF i] is_delimiter_spec [of 0 D "s ! i"]
    by (subst skip_delims.simps) (auto simp: rd_def)
qed

lemma token_end_spec:
  "terminated D \<Longrightarrow> terminated (drop i s) \<Longrightarrow>
    token_end s D i = Some (i + length (takeWhile (\<lambda>c. c \<notin> set (cstr D)) (cstr (drop i s))))"
proof (induction s D i rule: token_end.induct)
  case (1 s D i)
  have i: "i < length s" using 1(3) by (auto simp: terminated_def intro: ccontr)
  show ?case using 1 i drop_step [OF i] is_delimiter_spec [of 0 D "s ! i"]
    by (subst token_end.simps) (auto simp: rd_def)
qed

text \<open>The tokens of a string, and the calls \<^verbatim>\<open>strtok(s, D)\<close>, \<^verbatim>\<open>strtok(NULL, D)\<close>, ... until the
  null pointer comes back.\<close>

function tokens :: "u8 set \<Rightarrow> u8 list \<Rightarrow> u8 list list" where
  "tokens P xs =
     (let r = dropWhile (\<lambda>c. c \<in> P) xs
      in if r = [] then [] else takeWhile (\<lambda>c. c \<notin> P) r # tokens P (dropWhile (\<lambda>c. c \<notin> P) r))"
  by pat_completeness auto
termination
proof (relation "measure (\<lambda>(P, xs). length xs)")
  fix P :: "u8 set" and xs r
  assume r: "r = dropWhile (\<lambda>c. c \<in> P) xs" "r \<noteq> []"
  then have "hd r \<notin> P" by (metis hd_dropWhile)
  with r(2) have "length (dropWhile (\<lambda>c. c \<notin> P) r) < length r"
    by (cases r) (auto simp: length_dropWhile_le less_Suc_eq_le)
  also have "length r \<le> length xs" by (simp add: r(1) length_dropWhile_le)
  finally show "((P, dropWhile (\<lambda>c. c \<notin> P) r), (P, xs)) \<in> measure (\<lambda>(P, xs). length xs)" by simp
qed simp

declare tokens.simps [simp del]

fun strtok_calls :: "nat \<Rightarrow> nat option \<Rightarrow> nat option \<Rightarrow> u8 list \<Rightarrow> u8 list \<Rightarrow> u8 list list option" where
  "strtok_calls 0 last_pos str s D = None"
| "strtok_calls (Suc n) last_pos str s D =
     (case strtok last_pos str s D of
        None \<Rightarrow> None
      | Some (None, _, _) \<Rightarrow> Some []
      | Some (Some start, last', s') \<Rightarrow>
          map_option ((#) (cstr (drop start s'))) (strtok_calls n last' None s' D))"

lemma cstr_drop:
  assumes "terminated (drop i s)" and "k \<le> length (cstr (drop i s))"
  shows "cstr (drop (i + k) s) = drop k (cstr (drop i s))" "terminated (drop (i + k) s)"
proof -
  have "terminated t \<Longrightarrow> k \<le> length (cstr t) \<Longrightarrow> cstr (drop k t) = drop k (cstr t) \<and> terminated (drop k t)" for t :: "u8 list"
    by (induction k arbitrary: t) (case_tac [2] t, auto split: if_splits)
  from this [OF assms] show "cstr (drop (i + k) s) = drop k (cstr (drop i s))" "terminated (drop (i + k) s)"
    by (simp_all add: add.commute)
qed

lemma cstr_cut: "k < length u \<Longrightarrow> k \<le> length (cstr u) \<Longrightarrow> cstr (u[k := 0]) = take k (cstr u)"
  by (induction u arbitrary: k) (auto simp: nth_Cons split: nat.splits if_splits)

lemma strtok_spec:
  assumes D: "terminated D" and s: "terminated (drop pos s)"
  defines "P \<equiv> set (cstr D)"
  defines "r \<equiv> dropWhile (\<lambda>c. c \<in> P) (cstr (drop pos s))"
  shows "if r = [] then strtok (Some pos) None s D = Some (None, None, s)
    else \<exists>start last' s'. strtok (Some pos) None s D = Some (Some start, last', s') \<and>
      cstr (drop start s') = takeWhile (\<lambda>c. c \<notin> P) r \<and> length s' = length s \<and>
      (case last' of None \<Rightarrow> dropWhile (\<lambda>c. c \<notin> P) r = []
       | Some pos' \<Rightarrow> pos < pos' \<and> terminated (drop pos' s') \<and>
           (\<exists>d\<in>P. dropWhile (\<lambda>c. c \<notin> P) r = d # cstr (drop pos' s')))"
proof -
  let ?x = "cstr (drop pos s)"
  define a where "a = length (takeWhile (\<lambda>c. c \<in> P) ?x)"
  define start where "start = pos + a"
  have a_le: "a \<le> length ?x" by (simp add: a_def length_takeWhile_le)
  have r: "cstr (drop start s) = r" "terminated (drop start s)"
    using cstr_drop [OF s a_le] by (simp_all add: start_def a_def r_def dropWhile_eq_drop)
  have skip: "skip_delims s D pos = Some start"
    using skip_delims_spec [OF D s] by (simp add: start_def a_def P_def)
  have sl: "start < length s" using r(2) by (auto simp: terminated_def intro: ccontr)
  have head: "s ! start = 0 \<longleftrightarrow> r = []" using r(1) drop_step [OF sl] by (auto split: if_splits)
  show ?thesis
  proof (cases "r = []")
    case True
    then show ?thesis using skip sl head by (simp add: strtok_def rd_def)
  next
    case False
    define t where "t = takeWhile (\<lambda>c. c \<notin> P) r"
    define en where "en = start + length t"
    have te: "token_end s D start = Some en"
      using token_end_spec [OF D r(2)] by (simp add: r(1) en_def t_def P_def)
    have t_le: "length t \<le> length (cstr (drop start s))" by (simp add: r(1) t_def length_takeWhile_le)
    note rest = cstr_drop [OF r(2) t_le, folded en_def, unfolded r(1)]
    have rest': "drop (length t) r = dropWhile (\<lambda>c. c \<notin> P) r" by (simp add: t_def dropWhile_eq_drop)
    have el: "en < length s" using rest(2) by (auto simp: terminated_def intro: ccontr)
    have call: "strtok (Some pos) None s D =
        (if s ! en \<noteq> 0 then Some (Some start, Some (Suc en), s[en := 0]) else Some (Some start, None, s))"
      using skip te sl el head False by (simp add: strtok_def rd_def)
    have end_char: "s ! en = 0 \<longleftrightarrow> dropWhile (\<lambda>c. c \<notin> P) r = []"
    proof -
      have "s ! en = 0 \<longleftrightarrow> cstr (drop en s) = []" using drop_step [OF el] by simp
      then show ?thesis by (simp only: rest(1) rest')
    qed
    show ?thesis
    proof (cases "s ! en = 0")
      case True
      then have all: "\<forall>x\<in>set r. x \<notin> P" using end_char by (simp add: dropWhile_eq_Nil_conv)
      then have tw: "takeWhile (\<lambda>c. c \<notin> P) r = r" by (simp add: takeWhile_eq_all_conv)
      have "cstr (drop start s) = takeWhile (\<lambda>c. c \<notin> P) r" by (simp only: r(1) tw)
      then show ?thesis using call True False all by simp
    next
      case ne: False
      have d: "drop en s = s ! en # drop (Suc en) s" by (rule drop_step [OF el])
      have dw: "dropWhile (\<lambda>c. c \<notin> P) r = s ! en # cstr (drop (Suc en) s)"
        using rest(1) rest' d ne by simp
      then have "s ! en \<in> P" using hd_dropWhile [of "\<lambda>c. c \<notin> P" r] by simp
      moreover have "terminated (drop (Suc en) s)" using rest(2) d ne by simp
      moreover have "drop (Suc en) (s[en := 0]) = drop (Suc en) s" by simp
      moreover have "cstr (drop start (s[en := 0])) = t"
      proof -
        have "drop start (s[en := 0]) = (drop start s)[length t := 0]"
          by (simp add: en_def drop_update_swap)
        moreover have "length t < length (drop start s)" using el sl by (simp add: en_def)
        ultimately have "cstr (drop start (s[en := 0])) = take (length t) r"
          using cstr_cut t_le r(1) by simp
        then show ?thesis by (simp add: t_def takeWhile_eq_take [symmetric])
      qed
      ultimately show ?thesis using call ne False dw
        by (simp add: t_def en_def start_def) 
    qed
  qed
qed

lemma tokens_skip: "c \<in> P \<Longrightarrow> tokens P (c # xs) = tokens P xs"
  by (subst (1 2) tokens.simps) simp

lemma tokens_Nil [simp]: "tokens P [] = []"
  by (subst tokens.simps) simp

lemma strtok_null: "strtok None None s D = Some (None, None, s)"
  by (simp add: strtok_def)

lemma strtok_calls_tokens:
  "terminated D \<Longrightarrow> terminated (drop pos s) \<Longrightarrow> length s < pos + n \<Longrightarrow>
    strtok_calls n (Some pos) None s D = Some (tokens (set (cstr D)) (cstr (drop pos s)))"
proof (induction n arbitrary: pos s)
  case 0
  then show ?case by (simp add: terminated_def)
next
  case (Suc n)
  let ?P = "set (cstr D)"
  define r where "r = dropWhile (\<lambda>c. c \<in> ?P) (cstr (drop pos s))"
  note spec = strtok_spec [OF Suc.prems(1,2), folded r_def]
  show ?case
  proof (cases "r = []")
    case True
    then show ?thesis using spec by (subst tokens.simps) (simp add: r_def Let_def)
  next
    case False
    then obtain start last' s' where call: "strtok (Some pos) None s D = Some (Some start, last', s')"
      "cstr (drop start s') = takeWhile (\<lambda>c. c \<notin> ?P) r" "length s' = length s"
      "case last' of None \<Rightarrow> dropWhile (\<lambda>c. c \<notin> ?P) r = []
       | Some pos' \<Rightarrow> pos < pos' \<and> terminated (drop pos' s') \<and>
           (\<exists>d\<in>?P. dropWhile (\<lambda>c. c \<notin> ?P) r = d # cstr (drop pos' s'))"
      using spec by auto
    have tk: "tokens ?P (cstr (drop pos s)) = takeWhile (\<lambda>c. c \<notin> ?P) r # tokens ?P (dropWhile (\<lambda>c. c \<notin> ?P) r)"
      using False by (subst tokens.simps) (simp add: r_def Let_def)
    have "pos < length s" using Suc.prems(2) by (auto simp: terminated_def intro: ccontr)
    then obtain k where n: "n = Suc k" using Suc.prems(3) by (cases n) auto
    show ?thesis
    proof (cases last')
      case None
      then have e: "dropWhile (\<lambda>c. c \<notin> ?P) r = []" using call(4) by simp
      have "tokens ?P (cstr (drop pos s)) = [takeWhile (\<lambda>c. c \<notin> ?P) r]"
        by (simp only: tk e tokens_Nil)
      then show ?thesis using call(1,2) None by (simp add: n strtok_null)
    next
      case (Some pos')
      then have p: "pos < pos'" "terminated (drop pos' s')"
        and d: "tokens ?P (dropWhile (\<lambda>c. c \<notin> ?P) r) = tokens ?P (cstr (drop pos' s'))"
        using call(4) tokens_skip by (auto simp: tokens_skip)
      then show ?thesis
        using Suc.IH [OF Suc.prems(1) p(2)] Suc.prems(3) call(1,2,3) tk Some by simp
    qed
  qed
qed

section \<open>Properties\<close>

text \<open>C12: Number formatting. For a base from 2 to 36, \<^verbatim>\<open>itoa\<close> into an array with room for the
  digits and the terminator writes a terminated string of digits below the base that reads back as the value,
  and changes nothing behind the terminator; an array one byte too small is overrun.\<close>

theorem itoa_reads_back:
  assumes "2 \<le> unat base" and "unat base \<le> 36" and "unat v < unat base ^ k" and "0 < k"
  shows "\<exists>t. length t \<le> k \<and> t \<noteq> [] \<and> parse_number (unat base) t = unat v \<and>
    (\<forall>c\<in>set t. char_val c < unat base) \<and>
    (\<forall>str. length t < length str \<longrightarrow> itoa v str base = Some (t @ 0 # drop (Suc (length t)) str) \<and>
       cstr (t @ 0 # drop (Suc (length t)) str) = t) \<and>
    (\<forall>str. length str \<le> length t \<longrightarrow> itoa v str base = None)"
proof -
  let ?t = "itoa_text (unat base) (unat v)"
  note f = itoa_text_facts [OF assms(1,2), of "unat v"]
  have vals: "\<forall>c\<in>set ?t. char_val c < unat base"
    using itoa_text_facts(4) [OF assms(1,2), of _ "unat v"] by (auto simp: in_set_conv_nth)
  show ?thesis
  proof (intro exI [of _ ?t] conjI allI impI)
    fix str :: "u8 list"
    show "itoa v str base = Some (?t @ 0 # drop (Suc (length ?t)) str)" if "length ?t < length str"
      using itoa_spec [OF assms(1), of v str] that by simp
    show "cstr (?t @ 0 # drop (Suc (length ?t)) str) = ?t" by (rule cstr_id [OF f(1)])
    show "itoa v str base = None" if "length str \<le> length ?t"
      using itoa_spec [OF assms(1), of v str] that by simp
  qed (use f(2,3) vals itoa_text_length [OF assms(1,3,4)] in blast)+
qed

theorem itoa_reads_back_witness:
  "\<exists>t. length t \<le> 3 \<and> parse_number 10 t = 255 \<and> itoa 255 (replicate 21 7) 10 = Some (t @ 0 # replicate (20 - length t) 7)"
  using itoa_reads_back [of 10 255 3] by fastforce

text \<open>Copying a bounded string fills exactly \<open>n\<close> bytes: the source up to its terminator, then
  NULs. The result is a terminated string exactly when the source is shorter than \<open>n\<close>; otherwise it is the
  first \<open>n\<close> characters with no terminator of its own.\<close>

theorem strncpy_bounded:
  assumes "n \<le> length dest" and "terminated src"
  shows "\<exists>d. strncpy dest src n = Some (d @ drop n dest) \<and> length d = n \<and>
    d = take n (cstr src @ replicate n 0) \<and>
    (if length (cstr src) < n then terminated d \<and> cstr d = cstr src
     else \<not> terminated d \<and> d = take n (cstr src))"
proof -
  let ?d = "take n (cstr src @ replicate n 0)"
  have run: "strncpy dest src n = Some (?d @ drop n dest)"
    using strncpy_spec [OF assms(1)] assms(2) by simp
  have len: "length ?d = n" by (simp add: min_def)
  show ?thesis
  proof (cases "length (cstr src) < n")
    case True
    then obtain m where m: "n - length (cstr src) = Suc m" by (metis Suc_diff_Suc)
    have "Suc m \<le> n" using m by linarith
    then have d: "?d = cstr src @ 0 # replicate m 0" using True m by (simp add: min_def)
    have "cstr ?d = cstr src" unfolding d by (rule cstr_id [OF cstr_nonzero])
    moreover have "terminated ?d" unfolding d by (simp add: terminated_def)
    ultimately show ?thesis by (intro exI [of _ ?d]) (simp add: run len True del: take_append)
  next
    case False
    then have d: "?d = take n (cstr src)" by simp
    have "\<not> terminated ?d"
      unfolding d terminated_def using cstr_nonzero in_set_takeD [of 0 n "cstr src"] by blast
    then show ?thesis by (intro exI [of _ ?d]) (use len False in \<open>simp only: run d if_False simp_thms\<close>)
  qed
qed

theorem strncpy_bounded_witness:
  "\<exists>d. strncpy (replicate 8 9) (c_str ''kernel_idle'') 8 = Some d \<and> \<not> terminated d"
proof -
  have "8 \<le> length (replicate 8 (9 :: u8))" "terminated (c_str ''kernel_idle'')" by (simp_all add: c_str_def terminated_def)
  from strncpy_bounded [OF this] show ?thesis by (auto simp: c_str_def)
qed

text \<open>Comparison. On terminated strings \<^verbatim>\<open>strcmp\<close> returns, is zero exactly when the strings are
  equal, and changes sign with its arguments.\<close>

theorem strcmp_equality:
  assumes "terminated s1" and "terminated s2"
  shows "\<exists>r. strcmp s1 s2 = Some r \<and> strcmp s2 s1 = Some (- r) \<and> (r = 0 \<longleftrightarrow> cstr s1 = cstr s2)"
  by (rule strcmp_spec [OF assms])

theorem strcmp_equality_witness:
  "\<exists>r. strcmp (c_str ''.'') (c_str ''..'') = Some r \<and> r \<noteq> 0"
proof -
  have "terminated (c_str s)" for s by (simp add: c_str_def terminated_def)
  from strcmp_equality [OF this this, of "''.''" "''..''"] show ?thesis by (auto simp: c_str_def)
qed

text \<open>Splitting a path. Calling \<^verbatim>\<open>strtok\<close> on a terminated string and then with the null
  pointer until it answers null returns, in order, exactly the maximal runs of non-delimiters.\<close>

theorem strtok_splits:
  assumes "terminated s" and "terminated D"
  shows "strtok_calls (Suc (length s)) None (Some 0) s D = Some (tokens (set (cstr D)) (cstr s))"
proof -
  have "strtok_calls (Suc n) None (Some 0) s D = strtok_calls (Suc n) (Some 0) None s D" for n
    by (simp add: strtok_def)
  then show ?thesis using strtok_calls_tokens [of D 0 s "Suc (length s)"] assms by simp
qed

theorem strtok_splits_witness:
  "strtok_calls 12 None (Some 0) (c_str ''/home//doc'') (c_str ''/'') = Some (map (butlast \<circ> c_str) [''home'', ''doc''])"
proof -
  have t: "terminated (c_str s)" for s by (simp add: c_str_def terminated_def)
  have "tokens (set (cstr (c_str ''/''))) (cstr (c_str ''/home//doc'')) = map (butlast \<circ> c_str) [''home'', ''doc'']"
    by code_simp
  moreover have "Suc (length (c_str ''/home//doc'')) = 12" by code_simp
  ultimately show ?thesis using strtok_splits [OF t t, of "''/home//doc''" "''/''"] by metis
qed

end
