(* ===== verification/Tasks.thy ===== *)
theory Tasks
  imports Kheap Libc
begin

text \<open>
  Tasks: the table of \<^verbatim>\<open>kernel/sched/task.c\<close>, creation and forking, and the context switch of
  \<^verbatim>\<open>kernel/sched/switch.asm\<close> on an explicit processor state. Addresses of code (labels) are
  parameters; \<open>late_operand\<close> says whether the compiler evaluates the right-hand side of
  \<^verbatim>\<open>*--stack_ptr = (uint64_t)stack_ptr + 8\<close> after the decrement, which C leaves open.
\<close>

section \<open>State\<close>

definition MAX_TASK_COUNT :: nat where
  "MAX_TASK_COUNT = 128"

definition MAX_TASK_NAME :: nat where
  "MAX_TASK_NAME = 32"

datatype TaskState = TASK_EMPTY | TASK_RUNNING | TASK_WAITING | TASK_BLOCKED | TASK_SLEEPING | TASK_ZOMBIE

record Task =
  pid :: int
  ppid :: int
  name :: "u8 list"
  state :: TaskState
  priority :: int
  ExitCode :: int
  t_rsp :: u64
  kstack :: u64
  time :: u64
  entry_point :: u64
  t_msleep :: u64
  private_data :: u64

text \<open>The processor: stack pointer, program counter, the segment selectors and flags of an
  interrupt return, and the callee-saved registers.\<close>

record cpu =
  rsp :: u64
  rip :: u64
  cs :: u64
  ss :: u64
  rflags :: u64
  rbp :: u64
  rbx :: u64
  r12 :: u64
  r13 :: u64
  r14 :: u64
  r15 :: u64

text \<open>\<^verbatim>\<open>if_flag\<close> is the interrupt flag of \<^verbatim>\<open>cli\<close> and \<^verbatim>\<open>sti\<close>.\<close>

record sched =
  TaskTable :: "Task list"
  TaskCount :: int
  CurrentTaskPID :: int
  scheduler_started :: bool
  if_flag :: bool
  ticks :: u64
  s_cpu :: cpu
  s_mm :: mm

text \<open>Labels of the program.\<close>

record labels =
  thread_starter :: u64
  child_return :: u64
  after_switch :: u64
  late_operand :: bool

text \<open>\<^verbatim>\<open>memset(t, 0, sizeof(struct Task))\<close>: every field zero, the name 32 NULs, the state
  \<^verbatim>\<open>TASK_EMPTY\<close>.\<close>

definition zero_task :: Task where
  "zero_task = \<lparr>pid = 0, ppid = 0, name = replicate MAX_TASK_NAME 0, state = TASK_EMPTY, priority = 0,
     ExitCode = 0, t_rsp = 0, kstack = 0, time = 0, entry_point = 0, t_msleep = 0, private_data = 0\<rparr>"

definition cli :: "sched \<Rightarrow> sched" where
  "cli s = s\<lparr>if_flag := False\<rparr>"

definition sti :: "sched \<Rightarrow> sched" where
  "sti s = s\<lparr>if_flag := True\<rparr>"

text \<open>\<^verbatim>\<open>TaskTable[i]\<close>, with \<open>None\<close> outside the table.\<close>

definition get_task :: "sched \<Rightarrow> int \<Rightarrow> Task option" where
  "get_task s i =
     (if 0 \<le> i \<and> nat i < length (TaskTable s) then Some (TaskTable s ! nat i) else None)"

definition put_task :: "int \<Rightarrow> Task \<Rightarrow> sched \<Rightarrow> sched" where
  "put_task i t s = s\<lparr>TaskTable := (TaskTable s)[nat i := t]\<rparr>"

section \<open>The stack\<close>

text \<open>\<^verbatim>\<open>*--stack_ptr = v\<close>.\<close>

definition push :: "u64 \<Rightarrow> u64 \<times> mem \<Rightarrow> u64 \<times> mem" where
  "push v sm = (fst sm - 8, st64 (snd sm) (fst sm - 8) v)"

definition pop :: "mem \<Rightarrow> u64 \<Rightarrow> u64 \<times> u64" where
  "pop m sp = (ld64 m sp, sp + 8)"

text \<open>The twelve words \<^verbatim>\<open>CreateTask\<close> puts on a new stack.\<close>

definition initial_frame :: "labels \<Rightarrow> u64 \<Rightarrow> u64 \<Rightarrow> mem \<Rightarrow> u64 \<times> mem" where
  "initial_frame L task stack_top m =
     (let a = push 0x10 (stack_top, m);
          b = push ((if late_operand L then fst a - 8 else fst a) + 8) a;
          c = push 0x08 (push 0x202 b);
          d = push (thread_starter L) (push task c)
      in push 0 (push 0 (push 0 (push 0 (push 0 (push 0 d))))))"

text \<open>\<^verbatim>\<open>switch_to(&prev->rsp, next->rsp)\<close>, from the call to the \<^verbatim>\<open>ret\<close>.\<close>

definition save_context :: "u64 \<Rightarrow> cpu \<Rightarrow> mem \<Rightarrow> u64 \<times> mem" where
  "save_context ret_addr c m =
     push (r15 c) (push (r14 c) (push (r13 c) (push (r12 c) (push (rbx c)
       (push (rbp c) (push ret_addr (rsp c, m)))))))"

definition load_context :: "u64 \<Rightarrow> mem \<Rightarrow> cpu \<Rightarrow> cpu" where
  "load_context sp m c =
     (let (a15, sp) = pop m sp; (a14, sp) = pop m sp; (a13, sp) = pop m sp; (a12, sp) = pop m sp;
          (abx, sp) = pop m sp; (abp, sp) = pop m sp; (ret, sp) = pop m sp
      in c\<lparr>r15 := a15, r14 := a14, r13 := a13, r12 := a12, rbx := abx, rbp := abp, rip := ret, rsp := sp\<rparr>)"

definition switch_to :: "labels \<Rightarrow> int \<Rightarrow> u64 \<Rightarrow> sched \<Rightarrow> sched option" where
  "switch_to L prev next_rsp s =
     (case get_task s prev of
        None \<Rightarrow> None
      | Some p \<Rightarrow>
          (let (sp, m) = save_context (after_switch L) (s_cpu s) (mm_mem (s_mm s));
               s1 = put_task prev (p\<lparr>t_rsp := sp\<rparr>) s
           in Some (s1\<lparr>s_mm := (s_mm s1)\<lparr>mm_mem := m\<rparr>, s_cpu := load_context next_rsp m (s_cpu s1)\<rparr>)))"

text \<open>\<^verbatim>\<open>thread_starter\<close>: \<^verbatim>\<open>iretq\<close> pops the five words of an interrupt frame. The code behind it in
  \<^verbatim>\<open>switch.asm\<close> is not reached by falling through.\<close>

definition iretq :: "mem \<Rightarrow> cpu \<Rightarrow> cpu" where
  "iretq m c =
     (let (a_rip, sp) = pop m (rsp c); (a_cs, sp) = pop m sp; (a_flags, sp) = pop m sp;
          (a_rsp, sp) = pop m sp; (a_ss, sp) = pop m sp
      in c\<lparr>rip := a_rip, cs := a_cs, rflags := a_flags, rsp := a_rsp, ss := a_ss\<rparr>)"

text \<open>A \<^verbatim>\<open>ret\<close> instruction.\<close>

definition ret_instr :: "mem \<Rightarrow> cpu \<Rightarrow> cpu" where
  "ret_instr m c = (let (a, sp) = pop m (rsp c) in c\<lparr>rip := a, rsp := sp\<rparr>)"

section \<open>Creating tasks\<close>

definition find_empty :: "Task list \<Rightarrow> nat option" where
  "find_empty ts = find (\<lambda>i. state (ts ! i) = TASK_EMPTY) [0..<length ts]"

definition sched_init :: "sched \<Rightarrow> sched option" where
  "sched_init s =
     do { let ts = replicate MAX_TASK_COUNT zero_task;
          let t = ts ! 0;
          nm \<leftarrow> strncpy (name t) (c_str ''kernel_idle'') MAX_TASK_NAME;
          Some (s\<lparr>TaskTable := ts[0 := t\<lparr>pid := 0, state := TASK_RUNNING, name := nm, priority := 0, kstack := 0\<rparr>],
                  CurrentTaskPID := 0, TaskCount := 1, scheduler_started := True\<rparr>) }"

definition CreateTask :: "labels \<Rightarrow> u8 list \<Rightarrow> u64 \<Rightarrow> int \<Rightarrow> sched \<Rightarrow> (int \<times> sched) option" where
  "CreateTask L nm task parent s =
     (if int MAX_TASK_COUNT \<le> TaskCount s then Some (-1, s)
      else case find_empty (TaskTable s) of
        None \<Rightarrow> Some (-1, s)
      | Some i \<Rightarrow>
          do { let t = TaskTable s ! i;
               n \<leftarrow> strncpy (name t) nm (MAX_TASK_NAME - 1);
               let t1 = t\<lparr>pid := int i, ppid := parent, state := TASK_WAITING, priority := 1, name := n\<rparr>;
               (stack, hs) \<leftarrow> kmalloc 4096 (s_mm s);
               let t2 = t1\<lparr>kstack := stack\<rparr>;
               let s1 = (put_task (int i) t2 s)\<lparr>s_mm := hs\<rparr>;
               if stack = 0 then Some (err ENOMEM, s1)
               else (let (sp, m) = initial_frame L task (stack + 4096) (mm_mem hs)
                     in Some (int i, (put_task (int i) (t2\<lparr>t_rsp := sp\<rparr>) s1)
                          \<lparr>s_mm := hs\<lparr>mm_mem := m\<rparr>, TaskCount := TaskCount s1 + 1\<rparr>)) })"

text \<open>\<^verbatim>\<open>TaskFork\<close>: the child's stack is a byte copy of the parent's, and its frame returns to the
  label \<^verbatim>\<open>child_return\<close>.\<close>

definition TaskFork :: "labels \<Rightarrow> sched \<Rightarrow> (int \<times> sched) option" where
  "TaskFork L s0 =
     (let s = cli s0 in
      case find_empty (TaskTable s) of
        None \<Rightarrow> Some (-1, sti s)
      | Some i \<Rightarrow>
          do { parent \<leftarrow> get_task s (CurrentTaskPID s);
               let child = TaskTable s ! i;
               n \<leftarrow> strncpy (name child) (name parent) (MAX_TASK_NAME - 1);
               let c1 = child\<lparr>pid := int i, ppid := pid parent, state := TASK_WAITING,
                              priority := priority parent, name := n\<rparr>;
               (stack, hs) \<leftarrow> kmalloc 4096 (s_mm s);
               let c2 = c1\<lparr>kstack := stack\<rparr>;
               let s1 = (put_task (int i) c2 s)\<lparr>s_mm := hs\<rparr>;
               if stack = 0 then Some (err ENOMEM, sti s1)
               else (let m1 = memcpy_mem stack (kstack parent) 4096 (mm_mem hs);
                         offset = stack - kstack parent;
                         child_rsp_val = rsp (s_cpu s) + offset;
                         (sp, m2) = push 0 (push 0 (push 0 (push 0 (push 0 (push 0
                                      (push (child_return L) (child_rsp_val, m1)))))))
                     in Some (int i, sti ((put_task (int i) (c2\<lparr>t_rsp := sp\<rparr>) s1)
                          \<lparr>s_mm := hs\<lparr>mm_mem := m2\<rparr>, TaskCount := TaskCount s1 + 1\<rparr>))) })"

section \<open>Listing tasks\<close>

text \<open>\<^verbatim>\<open>ListTask\<close> prints the number and name of every used slot.\<close>

definition ListTask :: "sched \<Rightarrow> (int \<times> u8 list) list" where
  "ListTask s = map (\<lambda>t. (pid t, cstr (name t))) (filter (\<lambda>t. state t \<noteq> TASK_EMPTY) (TaskTable s))"

section \<open>Kernel symbols\<close>

text \<open>\<^verbatim>\<open>kernel/sched/ksyms.c\<close>: the addresses of \<^verbatim>\<open>printk\<close>, \<^verbatim>\<open>memset\<close> and \<^verbatim>\<open>memcpy\<close> by name.\<close>

definition ksyms :: "u64 \<Rightarrow> u64 \<Rightarrow> u64 \<Rightarrow> (u8 list \<times> u64) list" where
  "ksyms a_printk a_memset a_memcpy =
     [(c_str ''printk'', a_printk), (c_str ''memset'', a_memset), (c_str ''memcpy'', a_memcpy)]"

fun find_ksym :: "(u8 list \<times> u64) list \<Rightarrow> u8 list \<Rightarrow> u64 option" where
  "find_ksym [] nm = Some 0"
| "find_ksym ((n, a) # syms) nm =
     (case strcmp n nm of None \<Rightarrow> None | Some r \<Rightarrow> if r = 0 then Some a else find_ksym syms nm)"

section \<open>Entering user mode\<close>

text \<open>\<^verbatim>\<open>enter_user_mode\<close> of \<^verbatim>\<open>include/sys/user.h\<close>: a fresh kernel stack for the next entry, then an
  interrupt return to ring 3 with interrupts on.\<close>

record tss_entry =
  rsp0 :: u64
  rsp1 :: u64
  rsp2 :: u64
  ist :: "u64 list"
  iopb_offset :: u16

definition enter_user_mode :: "u64 \<Rightarrow> u64 \<Rightarrow> tss_entry \<Rightarrow> sched \<Rightarrow> (tss_entry \<times> sched) option" where
  "enter_user_mode entry user_stack tss s =
     do { (stack, hs) \<leftarrow> kmalloc 4096 (s_mm s);
          let s1 = cli (s\<lparr>s_mm := hs\<rparr>);
          let c = s_cpu s1;
          let fl = (rflags c AND NOT 0x200) OR 0x200;
          let (sp, m) = push entry (push 0x1B (push fl (push user_stack (push 0x23 (rsp c, mm_mem hs)))));
          Some (tss\<lparr>rsp0 := stack + 4096\<rparr>,
                s1\<lparr>s_mm := hs\<lparr>mm_mem := m\<rparr>, s_cpu := iretq m (c\<lparr>rsp := sp\<rparr>),
                   if_flag := True\<rparr>) }"

section \<open>Frames on the stack\<close>

lemma stack_apart:
  "apart (p - a) 8 (p - b) 8" if "8 \<le> unat (a - b)" "8 \<le> unat (b - a)" for p a b :: u64
  using that by (simp add: apart_def)

lemma initial_frame_eq:
  "initial_frame L task p m =
    (p - 96, fold (\<lambda>(d, v) m'. st64 m' (p - d) v)
       [(8, 0x10), (16, if late_operand L then p - 8 else p), (24, 0x202), (32, 8), (40, task), (48, thread_starter L),
        (56, 0), (64, 0), (72, 0), (80, 0), (88, 0), (96, 0)] m)"
  by (simp add: initial_frame_def push_def Let_def)

lemma initial_frame_words:
  assumes "initial_frame L task p m = (sp, m')"
  shows "sp = p - 96" "ld64 m' (p - 8) = 0x10" "ld64 m' (p - 16) = (if late_operand L then p - 8 else p)"
    "ld64 m' (p - 24) = 0x202" "ld64 m' (p - 32) = 8" "ld64 m' (p - 40) = task" "ld64 m' (p - 48) = thread_starter L"
    "ld64 m' (p - 56) = 0" "ld64 m' (p - 64) = 0" "ld64 m' (p - 72) = 0" "ld64 m' (p - 80) = 0"
    "ld64 m' (p - 88) = 0" "ld64 m' (p - 96) = 0"
  using assms by (auto simp: initial_frame_eq mem_simps stack_apart)

lemma push_word: "ld64 (snd (push v (sp, m))) (sp - 8) = v"
  by (simp add: push_def mem_simps)

lemma save_context_words:
  assumes "save_context ret_addr c m = (sp, m')"
  shows "sp = rsp c - 56" "ld64 m' (rsp c - 8) = ret_addr" "ld64 m' (rsp c - 16) = rbp c" "ld64 m' (rsp c - 24) = rbx c"
    "ld64 m' (rsp c - 32) = r12 c" "ld64 m' (rsp c - 40) = r13 c" "ld64 m' (rsp c - 48) = r14 c" "ld64 m' (rsp c - 56) = r15 c"
  using assms by (auto simp: save_context_def push_def mem_simps stack_apart)

lemma load_context_eq:
  "load_context sp m c = c\<lparr>r15 := ld64 m sp, r14 := ld64 m (sp + 8), r13 := ld64 m (sp + 16), r12 := ld64 m (sp + 24),
     rbx := ld64 m (sp + 32), rbp := ld64 m (sp + 40), rip := ld64 m (sp + 48), rsp := sp + 56\<rparr>"
  by (simp add: load_context_def pop_def Let_def add_ac)

lemma save_context_eq:
  "save_context ret_addr c m = (rsp c - 56, fold (\<lambda>(d, v) m'. st64 m' (rsp c - d) v)
     [(8, ret_addr), (16, rbp c), (24, rbx c), (32, r12 c), (40, r13 c), (48, r14 c), (56, r15 c)] m)"
  by (simp add: save_context_def push_def)

lemma st64_same_outside:
  "unat a + 8 \<le> 2 ^ 64 \<Longrightarrow> same_outside (unat a) (unat a + 8) m (st64 m a v)"
  using stn_same_outside [of "unat a" "le_bytes 8 v" m] by (simp add: st64_def)

lemma fold_st64_outside:
  assumes "\<And>d v. (d, v) \<in> set ws \<Longrightarrow> 8 \<le> unat d \<and> unat d \<le> N" and "N \<le> unat p"
  shows "same_outside (unat p - N) (unat p) m (fold (\<lambda>(d, v) m'. st64 m' (p - d) v) ws m)"
  using assms(1)
proof (induction ws arbitrary: m)
  case (Cons w ws)
  obtain d v where w: "w = (d, v)" by force
  have d: "8 \<le> unat d" "unat d \<le> N" using Cons.prems [of d v] by (simp_all add: w)
  have "unat (p - d) = unat p - unat d" using d assms(2) by (intro unat_minus_le) (simp add: word_le_nat_alt)
  then have u: "unat (p - d) + 8 \<le> unat p" "unat p - N \<le> unat (p - d)" using d assms(2) by linarith+
  have "(2 :: nat) ^ 64 = 18446744073709551616" by simp
  then have "unat (p - d) + 8 \<le> 2 ^ 64" using u(1) unat_lt64 [of p] by linarith
  then have "same_outside (unat p - N) (unat p) m (st64 m (p - d) v)"
    using u by (intro same_outside_mono [OF st64_same_outside])
  moreover have "same_outside (unat p - N) (unat p) (st64 m (p - d) v)
      (fold (\<lambda>(d, v) m'. st64 m' (p - d) v) ws (st64 m (p - d) v))"
    using Cons.prems by (intro Cons.IH) auto
  ultimately show ?case by (simp add: w same_outside_step)
qed simp

lemma initial_frame_outside:
  "96 \<le> unat p \<Longrightarrow> same_outside (unat p - 96) (unat p) m (snd (initial_frame L task p m))"
  unfolding initial_frame_eq snd_conv by (rule fold_st64_outside) auto

lemma save_context_outside:
  "56 \<le> unat (rsp c) \<Longrightarrow> same_outside (unat (rsp c) - 56) (unat (rsp c)) m (snd (save_context ret_addr c m))"
  unfolding save_context_eq snd_conv by (rule fold_st64_outside) auto

lemma find_empty_Some:
  "find_empty ts = Some i \<longleftrightarrow>
    i < length ts \<and> state (ts ! i) = TASK_EMPTY \<and> (\<forall>j < i. state (ts ! j) \<noteq> TASK_EMPTY)"
  unfolding find_empty_def find_Some_iff by (auto intro: exI [of _ i])

lemma find_empty_None: "find_empty ts = None \<longleftrightarrow> (\<forall>t \<in> set ts. state t \<noteq> TASK_EMPTY)"
  unfolding find_empty_def find_None_iff by (force simp: in_set_conv_nth)

text \<open>A slot whose name field is 32 bytes with a terminator in the last one, as the zeroed table
  has it; \<^verbatim>\<open>strncpy(..., 31)\<close> never writes that byte.\<close>

definition name_ok :: "Task \<Rightarrow> bool" where
  "name_ok t \<longleftrightarrow> length (name t) = MAX_TASK_NAME \<and> name t ! 31 = 0"

lemma name_copy:
  assumes "name_ok t" and "terminated nm"
  shows "\<exists>n. strncpy (name t) nm (MAX_TASK_NAME - 1) = Some n \<and> length n = MAX_TASK_NAME \<and> n ! 31 = 0 \<and>
    cstr n = take 31 (cstr nm)"
proof -
  let ?d = "take 31 (cstr nm @ replicate 31 0)"
  have len: "length (name t) = 32" using assms(1) by (simp add: name_ok_def MAX_TASK_NAME_def)
  then have "drop 31 (name t) = [0]"
    using assms(1) drop_step [of 31 "name t"] by (simp add: name_ok_def)
  then have run: "strncpy (name t) nm (MAX_TASK_NAME - 1) = Some (?d @ [0])"
    using strncpy_spec [of 31 "name t" nm] assms(2) len by (simp add: MAX_TASK_NAME_def)
  have ld: "length ?d = 31" by (simp add: min_def)
  have "cstr (?d @ [0]) = take 31 (cstr nm)"
  proof (cases "31 \<le> length (cstr nm)")
    case True
    then have "0 \<notin> set (take 31 (cstr nm))" using cstr_nonzero in_set_takeD by metis
    with True show ?thesis using cstr_id [of "take 31 (cstr nm)" "[]"] by simp
  next
    case False
    then obtain m where m: "31 - length (cstr nm) = Suc m" by (metis Suc_diff_Suc not_less)
    have "Suc m \<le> 31" using m by linarith
    then have "?d @ [0] = cstr nm @ 0 # (replicate m 0 @ [0])" using False m by (simp add: min_def)
    then have "cstr (?d @ [0]) = cstr nm" using cstr_id [OF cstr_nonzero] by metis
    with False show ?thesis by simp
  qed
  moreover have "(?d @ [0]) ! 31 = 0" by (metis ld nth_append_length)
  moreover have "length (?d @ [0]) = MAX_TASK_NAME" unfolding length_append ld by (simp add: MAX_TASK_NAME_def)
  ultimately show ?thesis using run by blast
qed

section \<open>What a new task starts with\<close>

lemma heap_write_ok:
  assumes "heap_ok s" and "allocated s p n" and "same_outside (unat p) (unat p + n) (mm_mem s) m'"
  shows "heap_ok (s\<lparr>mm_mem := m'\<rparr>)" "allocated (s\<lparr>mm_mem := m'\<rparr>) q k \<longleftrightarrow> allocated s q k"
proof -
  obtain bs where inv: "heap_inv s bs" using assms(1) by (auto simp: heap_ok_def)
  from heap_payload_write [OF inv assms(2,3)]
  show "heap_ok (s\<lparr>mm_mem := m'\<rparr>)" "allocated (s\<lparr>mm_mem := m'\<rparr>) q k \<longleftrightarrow> allocated s q k"
    by (auto simp: heap_ok_def)
qed

lemma granted_stack:
  assumes "heap_ok s" and "kmalloc 4096 s = Some (stack, hs)" and "stack \<noteq> 0"
  shows "\<exists>n\<ge>4096. allocated hs stack n" and "heap_ok hs" and "unat (stack + 4096) = unat stack + 4096"
    and "64 \<le> unat stack"
proof -
  have "unat (round_size 4096) = 4096" by (simp add: round_size_def)
  then show n: "\<exists>n\<ge>4096. allocated hs stack n" using heap.alloc_live [OF assms] by auto
  show ok: "heap_ok hs" by (rule heap.ok_alloc [OF assms(1,2)])
  then obtain bs n where "heap_inv hs bs" "4096 \<le> n" "allocated hs stack n" using n by (auto simp: heap_ok_def)
  then have "unat stack + 4096 < 2 ^ 64" "64 \<le> unat stack" using allocated_bounds by fastforce+
  then show "unat (stack + 4096) = unat stack + 4096" "64 \<le> unat stack"
    by (simp_all add: unat_plus_small)
qed

text \<open>\<open>first_run L c m\<close>: the processor after the switch to a saved stack pointer, and after the
  \<^verbatim>\<open>iretq\<close> of \<^verbatim>\<open>thread_starter\<close>.\<close>

definition first_run :: "u64 \<Rightarrow> mem \<Rightarrow> cpu \<Rightarrow> cpu" where
  "first_run sp m c = iretq m (load_context sp m c)"

lemma first_run_initial:
  assumes "initial_frame L task p m = (sp, m')"
  shows "rip (load_context sp m' c) = thread_starter L"
    and "first_run sp m' c = c\<lparr>r15 := 0, r14 := 0, r13 := 0, r12 := 0, rbx := 0, rbp := 0, rip := task, cs := 8,
      rflags := 0x202, rsp := (if late_operand L then p - 8 else p), ss := 0x10\<rparr>"
  using initial_frame_words [OF assms]
  by (simp_all add: first_run_def iretq_def pop_def load_context_eq Let_def)

lemma CreateTask_ok:
  assumes ok: "heap_ok (s_mm s)" and cnt: "TaskCount s < int MAX_TASK_COUNT"
    and slot: "find_empty (TaskTable s) = Some i" and nm: "name_ok (TaskTable s ! i)" "terminated nm"
    and alloc: "kmalloc 4096 (s_mm s) = Some (stack, hs)" "stack \<noteq> 0"
  shows "\<exists>n m sp. strncpy (name (TaskTable s ! i)) nm (MAX_TASK_NAME - 1) = Some n \<and> cstr n = take 31 (cstr nm) \<and>
    length n = MAX_TASK_NAME \<and> n ! 31 = 0 \<and>
    initial_frame L task (stack + 4096) (mm_mem hs) = (sp, m) \<and>
    CreateTask L nm task parent s = Some (int i,
      s\<lparr>TaskTable := (TaskTable s)[i := (TaskTable s ! i)\<lparr>pid := int i, ppid := parent, state := TASK_WAITING,
           priority := 1, name := n, kstack := stack, t_rsp := sp\<rparr>],
        s_mm := hs\<lparr>mm_mem := m\<rparr>, TaskCount := TaskCount s + 1\<rparr>)"
proof -
  obtain n where n: "strncpy (name (TaskTable s ! i)) nm (MAX_TASK_NAME - 1) = Some n" "cstr n = take 31 (cstr nm)"
    "length n = MAX_TASK_NAME" "n ! 31 = 0"
    using name_copy [OF nm] by auto
  obtain sp m where f: "initial_frame L task (stack + 4096) (mm_mem hs) = (sp, m)" by force
  have "CreateTask L nm task parent s = Some (int i,
      s\<lparr>TaskTable := (TaskTable s)[i := (TaskTable s ! i)\<lparr>pid := int i, ppid := parent, state := TASK_WAITING,
           priority := 1, name := n, kstack := stack, t_rsp := sp\<rparr>],
        s_mm := hs\<lparr>mm_mem := m\<rparr>, TaskCount := TaskCount s + 1\<rparr>)"
    using cnt slot n(1) alloc f by (simp add: CreateTask_def Let_def put_task_def)
  with n f show ?thesis by blast
qed

text \<open>C13: Task creation. Given a free slot and a stack from the heap, \<^verbatim>\<open>CreateTask\<close> fills the lowest
  free slot and no other, counts it, and writes only to the top of the new stack, so every other heap block
  keeps its content; the first switch to the task runs \<^verbatim>\<open>thread_starter\<close>, whose interrupt return enters
  the task function with interrupts on, kernel selectors, cleared callee-saved registers and the top of its stack.\<close>

theorem CreateTask_first_run:
  assumes "heap_ok (s_mm s)" and "TaskCount s < int MAX_TASK_COUNT"
    and "find_empty (TaskTable s) = Some i" and "name_ok (TaskTable s ! i)" and "terminated nm"
    and "kmalloc 4096 (s_mm s) = Some (stack, hs)" and "stack \<noteq> 0"
  shows "\<exists>s' t. CreateTask L nm task parent s = Some (int i, s') \<and> TaskCount s' = TaskCount s + 1 \<and>
    TaskTable s' = (TaskTable s)[i := t] \<and> pid t = int i \<and> ppid t = parent \<and> state t = TASK_WAITING \<and>
    priority t = 1 \<and> cstr (name t) = take 31 (cstr nm) \<and> kstack t = stack \<and>
    heap_ok (s_mm s') \<and> (\<exists>n\<ge>4096. allocated (s_mm s') stack n) \<and>
    same_outside (unat stack + 4000) (unat stack + 4096) (mm_mem hs) (mm_mem (s_mm s')) \<and>
    (\<forall>c. rip (load_context (t_rsp t) (mm_mem (s_mm s')) c) = thread_starter L \<and>
      first_run (t_rsp t) (mm_mem (s_mm s')) c =
        c\<lparr>r15 := 0, r14 := 0, r13 := 0, r12 := 0, rbx := 0, rbp := 0, rip := task, cs := 8, rflags := 0x202,
          rsp := (if late_operand L then stack + 4088 else stack + 4096), ss := 0x10\<rparr>)"
proof -
  obtain n m sp where r: "cstr n = take 31 (cstr nm)"
    "initial_frame L task (stack + 4096) (mm_mem hs) = (sp, m)"
    "CreateTask L nm task parent s = Some (int i,
      s\<lparr>TaskTable := (TaskTable s)[i := (TaskTable s ! i)\<lparr>pid := int i, ppid := parent, state := TASK_WAITING,
           priority := 1, name := n, kstack := stack, t_rsp := sp\<rparr>],
        s_mm := hs\<lparr>mm_mem := m\<rparr>, TaskCount := TaskCount s + 1\<rparr>)"
    using CreateTask_ok [OF assms] by blast
  note g = granted_stack [OF assms(1,6,7)]
  obtain k where k: "4096 \<le> k" "allocated hs stack k" using g(1) by auto
  have "same_outside (unat (stack + 4096) - 96) (unat (stack + 4096)) (mm_mem hs) m"
    using initial_frame_outside [of "stack + 4096" "mm_mem hs" L task] g(3) r(2) by simp
  then have out: "same_outside (unat stack + 4000) (unat stack + 4096) (mm_mem hs) m"
    using g(3) by (simp add: add.commute)
  then have "same_outside (unat stack) (unat stack + k) (mm_mem hs) m"
    using k(1) by (intro same_outside_mono [OF out]) simp_all
  note h = heap_write_ok [OF g(2) k(2) this]
  have "rip (load_context sp m c) = thread_starter L \<and>
      first_run sp m c = c\<lparr>r15 := 0, r14 := 0, r13 := 0, r12 := 0, rbx := 0, rbp := 0, rip := task, cs := 8, rflags := 0x202,
          rsp := (if late_operand L then stack + 4088 else stack + 4096), ss := 0x10\<rparr>" for c
    using first_run_initial [OF r(2), of c] by simp
  then show ?thesis
    unfolding r(3) using r(1) out h k
    by (intro exI [of _ "s\<lparr>TaskTable := (TaskTable s)[i := (TaskTable s ! i)\<lparr>pid := int i, ppid := parent, state := TASK_WAITING,
           priority := 1, name := n, kstack := stack, t_rsp := sp\<rparr>],
        s_mm := hs\<lparr>mm_mem := m\<rparr>, TaskCount := TaskCount s + 1\<rparr>"]
        exI [of _ "(TaskTable s ! i)\<lparr>pid := int i, ppid := parent, state := TASK_WAITING,
           priority := 1, name := n, kstack := stack, t_rsp := sp\<rparr>"]) auto
qed

text \<open>A state for the witnesses: the example heap and a table of two slots, the second one free.\<close>

definition example_cpu :: cpu where
  "example_cpu = \<lparr>rsp = 0x8000, rip = 0x100, cs = 8, ss = 0x10, rflags = 2, rbp = 1, rbx = 2, r12 = 3, r13 = 4, r14 = 5, r15 = 6\<rparr>"

definition example_sched :: sched where
  "example_sched = \<lparr>TaskTable = zero_task\<lparr>state := TASK_RUNNING\<rparr> # replicate 127 zero_task, TaskCount = 1, CurrentTaskPID = 0,
     scheduler_started = True, if_flag = True, ticks = 0, s_cpu = example_cpu,
     s_mm = \<lparr>mm_mem = set_next 0x1000 0 (set_size 0x1000 0x10000 (set_is_free 0x1000 1 (set_magic 0x1000 HEAP_MAGIC (\<lambda>_. 0)))),
       mm_pmm = example_pmm, kernel_pml4 = 0, heap_start = 0x1000\<rparr>\<rparr>"

definition example_labels :: labels where
  "example_labels = \<lparr>thread_starter = 0x500, child_return = 0x600, after_switch = 0x700, late_operand = False\<rparr>"

lemma example_sched_heap: "heap_inv (s_mm example_sched) [(0x10000, True)]"
  using header_new [of "0x1000" 0 "0x10000" "\<lambda>_. 0"]
  by (simp add: heap_inv_def example_sched_def sizeof_header_def)

lemma example_sched_alloc:
  "\<exists>hs. kmalloc 4096 (s_mm example_sched) = Some (0x1018, hs) \<and> heap_inv hs [(4096, False), (0xEFE8, True)] \<and> heap_start hs = 0x1000"
proof -
  have r: "unat (round_size 4096) = 4096" by (simp add: round_size_def)
  have h: "heap_start (s_mm example_sched) = 0x1000" by (simp add: example_sched_def)
  obtain hs where "kmalloc 4096 (s_mm example_sched) = Some (0x1018, hs)" "heap_inv hs [(4096, False), (0xEFE8, True)]"
    "hs = (s_mm example_sched)\<lparr>mm_mem := mm_mem hs\<rparr>"
    using kmalloc_result [OF example_sched_heap, of 4096] by (auto simp: r h sizeof_header_def)
  then show ?thesis using heap_start_eq h by metis
qed

lemma example_sched_slot: "find_empty (TaskTable example_sched) = Some 1" "name_ok (TaskTable example_sched ! 1)"
  by (simp_all add: find_empty_Some example_sched_def zero_task_def name_ok_def MAX_TASK_NAME_def)

theorem CreateTask_first_run_witness:
  "\<exists>s' t. CreateTask example_labels (c_str ''task1'') 0x4000 0 example_sched = Some (1, s') \<and> TaskTable s' ! 1 = t \<and>
     rip (first_run (t_rsp t) (mm_mem (s_mm s')) example_cpu) = 0x4000"
proof -
  obtain hs where hs: "kmalloc 4096 (s_mm example_sched) = Some (0x1018, hs)" using example_sched_alloc by blast
  have "heap_ok (s_mm example_sched)" using example_sched_heap by (auto simp: heap_ok_def)
  moreover have "TaskCount example_sched < int MAX_TASK_COUNT" by (simp add: example_sched_def MAX_TASK_COUNT_def)
  moreover have "terminated (c_str ''task1'')" by (simp add: c_str_def terminated_def)
  ultimately obtain s' t where
    "CreateTask example_labels (c_str ''task1'') 0x4000 0 example_sched = Some (int 1, s')"
    "TaskTable s' = (TaskTable example_sched)[1 := t]"
    "rip (first_run (t_rsp t) (mm_mem (s_mm s')) example_cpu) = 0x4000"
    using CreateTask_first_run [OF _ _ example_sched_slot _ hs, of "c_str ''task1''" example_labels "0x4000" 0] by auto
  moreover have "1 < length (TaskTable example_sched)" by (simp add: example_sched_def)
  ultimately show ?thesis by auto
qed

text \<open>A task function that returns does not reach \<^verbatim>\<open>ExitTask\<close>: the word its return takes as
  the address is either the first word behind the task's stack, owned by whoever holds the next heap block, or
  the stack selector 0x10, never an address the kernel put there.\<close>

theorem task_return_escapes:
  assumes "initial_frame L task (stack + 4096) m = (sp, m')"
  shows "let c = ret_instr m' (first_run sp m' c0) in
    (if late_operand L then rip c = 0x10 \<and> rsp c = stack + 4096
     else rip c = ld64 m' (stack + 4096) \<and> rsp c = stack + 4104)"
  using initial_frame_words [OF assms] first_run_initial(2) [OF assms, of c0]
  by (simp add: ret_instr_def pop_def Let_def)

theorem task_return_escapes_witness:
  "\<exists>sp m'. initial_frame example_labels 0x4000 (0x2000 + 4096) (\<lambda>_. 0) = (sp, m') \<and>
     rip (ret_instr m' (first_run sp m' example_cpu)) = ld64 m' 0x3000"
proof -
  obtain sp m' where f: "initial_frame example_labels 0x4000 (0x2000 + 4096) (\<lambda>_. 0) = (sp, m')" by force
  from task_return_escapes [OF f, of example_cpu] show ?thesis
    using f by (simp add: example_labels_def Let_def)
qed

text \<open>Creation without memory. When the heap cannot give a stack, \<^verbatim>\<open>CreateTask\<close> answers
  \<^verbatim>\<open>-ENOMEM\<close> but has already taken the slot: it is left waiting for the processor with priority 1, no stack and the
  stack pointer the slot had before, and is not counted.\<close>

theorem CreateTask_without_memory:
  assumes "TaskCount s < int MAX_TASK_COUNT" and "find_empty (TaskTable s) = Some i"
    and "name_ok (TaskTable s ! i)" and "terminated nm"
    and "kmalloc 4096 (s_mm s) = Some (0, hs)"
  shows "\<exists>s'. CreateTask L nm task parent s = Some (-12, s') \<and> TaskCount s' = TaskCount s \<and>
    state (TaskTable s' ! i) = TASK_WAITING \<and> priority (TaskTable s' ! i) = 1 \<and>
    kstack (TaskTable s' ! i) = 0 \<and> t_rsp (TaskTable s' ! i) = t_rsp (TaskTable s ! i)"
proof -
  obtain n where "strncpy (name (TaskTable s ! i)) nm (MAX_TASK_NAME - 1) = Some n"
    using name_copy [OF assms(3,4)] by auto
  moreover have "i < length (TaskTable s)" using assms(2) by (simp add: find_empty_Some)
  ultimately show ?thesis using assms(1,2,5) by (simp add: CreateTask_def put_task_def Let_def)
qed

definition example_sched_full :: sched where
  "example_sched_full = example_sched\<lparr>s_mm := example_heap\<rparr>"

theorem CreateTask_without_memory_witness:
  "\<exists>s'. CreateTask example_labels (c_str ''task1'') 0x4000 0 example_sched_full = Some (-12, s') \<and>
     state (TaskTable s' ! 1) = TASK_WAITING \<and> t_rsp (TaskTable s' ! 1) = 0"
proof -
  have r: "unat (round_size 4096) = 4096" by (simp add: round_size_def)
  have k: "kmalloc 4096 (s_mm example_sched_full) = Some (0, example_heap)"
    using kmalloc_result [OF example_heap_inv, of 4096] by (simp add: r example_sched_full_def)
  have t: "TaskTable example_sched_full = TaskTable example_sched" "TaskCount example_sched_full = 1"
    by (simp_all add: example_sched_full_def example_sched_def)
  have "terminated (c_str ''task1'')" by (simp add: c_str_def terminated_def)
  moreover have "t_rsp (TaskTable example_sched ! 1) = 0" by (simp add: example_sched_def zero_task_def)
  ultimately show ?thesis
    using CreateTask_without_memory [OF _ _ _ _ k, of 1 "c_str ''task1''" example_labels "0x4000" 0] example_sched_slot
    by (auto simp: t MAX_TASK_COUNT_def)
qed

section \<open>The context switch\<close>

text \<open>C14: Switching away and back. If the words \<^verbatim>\<open>switch_to\<close> saved on the outgoing task's stack are
  still there when the task is resumed from its saved stack pointer, it continues behind the call with its stack
  pointer and all six callee-saved registers as they were, whatever ran in between.\<close>

theorem switch_back:
  assumes "switch_to L prev next_rsp s = Some s'" and "get_task s prev = Some p"
    and "\<And>x. unat (rsp (s_cpu s)) - 56 \<le> unat x \<Longrightarrow> unat x < unat (rsp (s_cpu s)) \<Longrightarrow> m x = mm_mem (s_mm s') x"
    and "56 \<le> unat (rsp (s_cpu s))"
  shows "\<exists>q. get_task s' prev = Some q \<and> q = p\<lparr>t_rsp := rsp (s_cpu s) - 56\<rparr> \<and>
    (let c = s_cpu s; c' = load_context (t_rsp q) m any in
       rip c' = after_switch L \<and> rsp c' = rsp c \<and> rbp c' = rbp c \<and> rbx c' = rbx c \<and>
       r12 c' = r12 c \<and> r13 c' = r13 c \<and> r14 c' = r14 c \<and> r15 c' = r15 c)"
proof -
  let ?c = "s_cpu s"
  obtain sp m1 where sv: "save_context (after_switch L) ?c (mm_mem (s_mm s)) = (sp, m1)" by force
  note w = save_context_words [OF sv]
  have s': "get_task s' prev = Some (p\<lparr>t_rsp := sp\<rparr>)" "mm_mem (s_mm s') = m1"
    using assms(1,2) sv by (auto simp: switch_to_def put_task_def get_task_def Let_def split: if_splits)
  have eq: "ld64 m (rsp ?c - d) = ld64 m1 (rsp ?c - d)" if d: "8 \<le> unat d" "unat d \<le> 56" for d
  proof -
    have "unat (rsp ?c - d) = unat (rsp ?c) - unat d"
      using d assms(4) by (intro unat_minus_le) (simp add: word_le_nat_alt)
    then have b: "unat (rsp ?c) - 56 \<le> unat (rsp ?c - d)" "unat (rsp ?c - d) + 8 \<le> unat (rsp ?c)"
      using d assms(4) by linarith+
    have "ldn m (rsp ?c - d) 8 = ldn m1 (rsp ?c - d) 8"
    proof (rule ldn_cong)
      fix i :: nat assume i: "i < 8"
      have "unat (rsp ?c - d + of_nat i) = unat (rsp ?c - d) + i"
      proof -
        have "unat (of_nat i :: u64) = i" using i by (intro unat_of_nat_small) simp
        moreover have "unat (rsp ?c - d) + i < 18446744073709551616" using b(2) i unat_lt64 [of "rsp ?c"] by linarith
        ultimately show ?thesis by (subst unat_plus_small) simp_all
      qed
      then show "m (rsp ?c - d + of_nat i) = m1 (rsp ?c - d + of_nat i)"
        using assms(3) [of "rsp ?c - d + of_nat i"] b i by (simp add: s'(2))
    qed
    then show ?thesis by (simp add: ld64_def)
  qed
  have a: "sp = rsp ?c - 56" "sp + 8 = rsp ?c - 48" "sp + 16 = rsp ?c - 40" "sp + 24 = rsp ?c - 32" "sp + 32 = rsp ?c - 24"
    "sp + 40 = rsp ?c - 16" "sp + 48 = rsp ?c - 8" "sp + 56 = rsp ?c"
    using w(1) by simp_all
  have "let c' = load_context sp m any in
       rip c' = after_switch L \<and> rsp c' = rsp ?c \<and> rbp c' = rbp ?c \<and> rbx c' = rbx ?c \<and>
       r12 c' = r12 ?c \<and> r13 c' = r13 ?c \<and> r14 c' = r14 ?c \<and> r15 c' = r15 ?c"
    unfolding load_context_eq a using eq [of 8] eq [of 16] eq [of 24] eq [of 32] eq [of 40] eq [of 48] eq [of 56] w
    by simp
  with s'(1) a(1) show ?thesis by (auto simp: Let_def)
qed

theorem switch_back_witness:
  "\<exists>s' q. switch_to example_labels 0 0x9000 example_sched = Some s' \<and> get_task s' 0 = Some q \<and>
     r12 (load_context (t_rsp q) (mm_mem (s_mm s')) (s_cpu s')) = 3"
proof -
  have g: "get_task example_sched 0 = Some (zero_task\<lparr>state := TASK_RUNNING\<rparr>)"
    by (simp add: get_task_def example_sched_def)
  then obtain s' where s': "switch_to example_labels 0 0x9000 example_sched = Some s'"
    by (cases "switch_to example_labels 0 0x9000 example_sched")
      (auto simp: switch_to_def Let_def split: prod.splits)
  have f: "rsp (s_cpu example_sched) = 0x8000" "r12 (s_cpu example_sched) = 3"
    by (simp_all add: example_sched_def example_cpu_def)
  from switch_back [OF s' g, of "mm_mem (s_mm s')" "s_cpu s'"] s' show ?thesis
    by (auto simp: f Let_def)
qed

section \<open>Forking\<close>

lemma offset_less: "unat a + n \<le> 2 ^ 64 \<Longrightarrow> unat (x - a) < n \<longleftrightarrow> unat a \<le> unat x \<and> unat x < unat a + n"
  for a x :: u64
proof -
  assume lim: "unat a + n \<le> 2 ^ 64"
  show ?thesis
  proof (cases "unat a \<le> unat x")
    case True
    then have "unat (x - a) = unat x - unat a" by (intro unat_minus_le) (simp add: word_le_nat_alt)
    with True show ?thesis by linarith
  next
    case False
    then have "x \<noteq> a" by auto
    then have "unat (x - a) = 2 ^ 64 - unat (a - x)" by (rule unat_minus_swap)
    moreover have "unat (a - x) = unat a - unat x" using False by (intro unat_minus_le) (simp add: word_le_nat_alt)
    ultimately show ?thesis using False lim by linarith
  qed
qed

lemma memcpy_mem_spec:
  assumes "unat d + n < 2 ^ 64" and "unat s + n < 2 ^ 64"
    and "unat d + n \<le> unat s \<or> unat s + n \<le> unat d"
  shows "memcpy_mem d s n m x =
    (if unat d \<le> unat x \<and> unat x < unat d + n then m (s + of_nat (unat x - unat d)) else m x)"
  using assms
proof (induction n arbitrary: d s m)
  case (Suc n)
  have d1: "unat (d + 1) = unat d + 1" and s1: "unat (s + 1) = unat s + 1"
    using Suc.prems(1,2) by (subst unat_plus_small, simp_all)+
  let ?m = "m(d := m s)"
  have IH: "memcpy_mem (d + 1) (s + 1) n ?m x =
      (if unat (d + 1) \<le> unat x \<and> unat x < unat (d + 1) + n then ?m (s + 1 + of_nat (unat x - unat (d + 1))) else ?m x)"
    using Suc.prems d1 s1 by (intro Suc.IH) linarith+
  show ?case
  proof (cases "unat d < unat x \<and> unat x < unat d + Suc n")
    case True
    define i where "i = unat x - unat d"
    have i: "0 < i" "i \<le> n" using True by (auto simp: i_def)
    have e: "s + 1 + of_nat (unat x - unat (d + 1)) = s + of_nat i"
      using i by (simp add: i_def d1 of_nat_diff)
    have "i < 2 ^ 64" using i Suc.prems(2) by linarith
    then have "unat (of_nat i :: u64) = i" by (rule unat_nat64)
    moreover have "unat s + i < 2 ^ 64" using i Suc.prems(2) by linarith
    ultimately have us: "unat (s + of_nat i) = unat s + i" by (subst unat_plus_small) simp_all
    have "s + of_nat i \<noteq> d"
    proof
      assume "s + of_nat i = d"
      then have "unat d = unat s + i" using us by simp
      then show False using i Suc.prems(3) by linarith
    qed
    have "memcpy_mem d s (Suc n) m x = ?m (s + 1 + of_nat (unat x - unat (d + 1)))"
      unfolding memcpy_mem.simps IH by (rule if_P) (use True d1 in auto)
    also have "\<dots> = ?m (s + of_nat i)" by (simp only: e)
    also have "\<dots> = m (s + of_nat i)" using \<open>s + of_nat i \<noteq> d\<close> by (rule fun_upd_other)
    finally have "memcpy_mem d s (Suc n) m x = m (s + of_nat (unat x - unat d))" by (simp only: i_def)
    moreover have "unat d \<le> unat x \<and> unat x < unat d + Suc n" using True by linarith
    ultimately show ?thesis by (simp only: if_True simp_thms)
  next
    case False
    show ?thesis
    proof (cases "x = d")
      case True
      then show ?thesis using IH d1 by simp
    next
      case ne: False
      then have "unat x \<noteq> unat d" by (simp add: unat_eq_iff)
      then show ?thesis using IH d1 False ne by auto
    qed
  qed
qed auto

lemma word_of_nat_unat_eq: "of_nat (unat w) = (w :: u64)"
  by simp

lemma fork_frame_eq:
  "push 0 (push 0 (push 0 (push 0 (push 0 (push 0 (push r (p, m))))))) =
    (p - 56, fold (\<lambda>(d, v) m'. st64 m' (p - d) v)
       [(8, r), (16, 0), (24, 0), (32, 0), (40, 0), (48, 0), (56, 0)] m)"
  by (simp add: push_def)

lemma fork_frame_words:
  assumes "push 0 (push 0 (push 0 (push 0 (push 0 (push 0 (push r (p, m))))))) = (sp, m')"
  shows "load_context sp m' c = c\<lparr>r15 := 0, r14 := 0, r13 := 0, r12 := 0, rbx := 0, rbp := 0, rip := r, rsp := p\<rparr>"
  using assms by (auto simp: fork_frame_eq load_context_eq mem_simps stack_apart)

lemma fork_frame_outside:
  assumes "56 \<le> unat p" and "push 0 (push 0 (push 0 (push 0 (push 0 (push 0 (push r (p, m))))))) = (sp, m')"
  shows "same_outside (unat p - 56) (unat p) m m'"
proof -
  have "m' = fold (\<lambda>(d, v) m'. st64 m' (p - d) v) [(8, r), (16, 0), (24, 0), (32, 0), (40, 0), (48, 0), (56, 0)] m"
    using assms(2) by (auto simp: fork_frame_eq)
  then show ?thesis using assms(1) by (simp only:) (rule fold_st64_outside, auto)
qed

lemma memcpy_mem_outside:
  assumes "unat d + n < 2 ^ 64" and "unat s + n < 2 ^ 64" and "unat d + n \<le> unat s \<or> unat s + n \<le> unat d"
  shows "same_outside (unat d) (unat d + n) m (memcpy_mem d s n m)"
  using memcpy_mem_spec [OF assms] by (simp add: same_outside_def)

text \<open>The child's stack: a copy of the parent's live part, with a frame below the parent's depth.\<close>

lemma fork_stack:
  assumes "heap_ok h" and "kmalloc 4096 h = Some (stack, hs)" and "stack \<noteq> 0"
    and "allocated h ks n" and "4096 \<le> n" and "unat ks + 56 \<le> unat sp0" and "unat sp0 \<le> unat ks + 4096"
  shows "\<exists>sp m2. push 0 (push 0 (push 0 (push 0 (push 0 (push 0 (push (child_return L) (sp0 + (stack - ks), memcpy_mem stack ks 4096 (mm_mem hs)))))))) = (sp, m2) \<and>
    (\<exists>n'\<ge>4096. allocated hs stack n' \<and> same_outside (unat stack) (unat stack + n') (mm_mem hs) m2) \<and>
    heap_ok (hs\<lparr>mm_mem := m2\<rparr>) \<and>
    (\<forall>c'. load_context sp m2 c' = c'\<lparr>r15 := 0, r14 := 0, r13 := 0, r12 := 0, rbx := 0, rbp := 0, rip := child_return L,
       rsp := sp0 + (stack - ks)\<rparr>) \<and>
    (\<forall>k. unat sp0 \<le> unat ks + k \<and> k < 4096 \<longrightarrow>
        m2 (stack + of_nat k) = mm_mem h (ks + of_nat k)) \<and>
    (\<forall>k < 4096. m2 (ks + of_nat k) = mm_mem h (ks + of_nat k))"
proof -
  note g = granted_stack [OF assms(1-3)]
  obtain n' where n': "4096 \<le> n'" "allocated hs stack n'" using g(1) by auto
  note keep = heap.alloc_keeps [OF assms(1,2,4)]
  have ne: "ks \<noteq> stack" and pl: "allocated hs ks n" using keep by auto
  have same: "mm_mem hs (ks + of_nat j) = mm_mem h (ks + of_nat j)" if "j < 4096" for j
    using keep that assms(5) by simp
  obtain bs where inv: "heap_inv hs bs" using g(2) by (auto simp: heap_ok_def)
  have lim: "unat ks + 4096 < 2 ^ 64" "unat stack + 4096 < 2 ^ 64"
    using allocated_bounds(2) [OF inv pl] allocated_bounds(2) [OF inv n'(2)] assms(5) n'(1) by linarith+
  have disj: "unat stack + 4096 \<le> unat ks \<or> unat ks + 4096 \<le> unat stack"
    using heap.live_disjoint [OF g(2) n'(2) pl] ne n'(1) assms(5) by auto
  define m1 where "m1 = memcpy_mem stack ks 4096 (mm_mem hs)"
  define p where "p = sp0 + (stack - ks)"
  define q where "q = unat sp0 - unat ks"
  have q: "56 \<le> q" "q \<le> 4096" using assms(6,7) by (auto simp: q_def)
  have "ks \<le> sp0" unfolding word_le_nat_alt using assms(6) by linarith
  then have "unat (sp0 - ks) = q" unfolding q_def by (rule unat_minus_le)
  then have "sp0 - ks = of_nat q" using word_of_nat_unat_eq [of "sp0 - ks"] by metis
  then have p_eq: "p = stack + of_nat q" by (simp add: p_def algebra_simps)
  have "unat (of_nat q :: u64) = q" using q(2) by (intro unat_nat64) simp
  then have up: "unat p = unat stack + q" unfolding p_eq using lim(2) q by (subst unat_plus_small) simp_all
  obtain sp m2 where f: "push 0 (push 0 (push 0 (push 0 (push 0 (push 0 (push (child_return L) (p, m1))))))) = (sp, m2)"
    by force
  have "same_outside (unat p - 56) (unat p) m1 m2" using up q by (intro fork_frame_outside [OF _ f]) simp
  note out2 = this
  have out1: "same_outside (unat stack) (unat stack + 4096) (mm_mem hs) m1"
    unfolding m1_def using lim disj by (intro memcpy_mem_outside) auto
  have out: "same_outside (unat stack) (unat stack + n') (mm_mem hs) m2"
    using up q n'(1) by (intro same_outside_trans [OF out1 out2]) simp_all
  note h = heap_write_ok(1) [OF g(2) n'(2) out]
  have uk: "unat (ks + of_nat j) = unat ks + j" "unat (stack + of_nat j) = unat stack + j" if "j < 4096" for j
  proof -
    have "unat (of_nat j :: u64) = j" using that by (intro unat_nat64) simp
    then show "unat (ks + of_nat j) = unat ks + j" "unat (stack + of_nat j) = unat stack + j"
      using that lim by (subst unat_plus_small, simp_all)+
  qed
  have copy: "m2 (stack + of_nat j) = mm_mem h (ks + of_nat j)" if "q \<le> j" "j < 4096" for j
  proof -
    have "m2 (stack + of_nat j) = m1 (stack + of_nat j)"
      using out2 uk(2) [OF that(2)] that(1) up by (simp add: same_outside_def)
    also have "\<dots> = mm_mem hs (ks + of_nat j)"
      unfolding m1_def using memcpy_mem_spec [OF lim(2,1) disj, of "mm_mem hs" "stack + of_nat j"] uk(2) [OF that(2)] that
      by simp
    finally show ?thesis using same [OF that(2)] by simp
  qed
  have parent_kept: "m2 (ks + of_nat j) = mm_mem h (ks + of_nat j)" if "j < 4096" for j
  proof -
    have "\<not> (unat stack \<le> unat (ks + of_nat j) \<and> unat (ks + of_nat j) < unat stack + 4096)"
      using disj uk(1) [OF that] that by linarith
    moreover have "same_outside (unat stack) (unat stack + 4096) (mm_mem hs) m2"
      using up q by (intro same_outside_trans [OF out1 out2]) simp_all
    ultimately show ?thesis using same [OF that] by (simp add: same_outside_def)
  qed
  have "(\<forall>k. unat sp0 \<le> unat ks + k \<and> k < 4096 \<longrightarrow> m2 (stack + of_nat k) = mm_mem h (ks + of_nat k))"
    using copy by (auto simp: q_def)
  moreover have "\<exists>n'\<ge>4096. allocated hs stack n' \<and> same_outside (unat stack) (unat stack + n') (mm_mem hs) m2"
    using n' out by blast
  ultimately show ?thesis
    using f h parent_kept fork_frame_words [OF f] unfolding m1_def p_def
    by (intro exI [of _ sp] exI [of _ m2] conjI allI impI) (simp_all only:)
qed

lemma TaskFork_result:
  assumes "heap_ok (s_mm s)" and "find_empty (TaskTable s) = Some i" and "get_task s (CurrentTaskPID s) = Some parent"
    and "name_ok (TaskTable s ! i)" and "terminated (name parent)"
    and "kmalloc 4096 (s_mm s) = Some (stack, hs)" and "stack \<noteq> 0"
    and "allocated (s_mm s) (kstack parent) n" and "4096 \<le> n"
    and "unat (kstack parent) + 56 \<le> unat (rsp (s_cpu s))" and "unat (rsp (s_cpu s)) \<le> unat (kstack parent) + 4096"
  shows "\<exists>nm sp m2. strncpy (name (TaskTable s ! i)) (name parent) (MAX_TASK_NAME - 1) = Some nm \<and>
    length nm = MAX_TASK_NAME \<and> nm ! 31 = 0 \<and>
    TaskFork L s = Some (int i, s\<lparr>TaskTable := (TaskTable s)[i := (TaskTable s ! i)\<lparr>pid := int i, ppid := pid parent,
        state := TASK_WAITING, priority := priority parent, name := nm, kstack := stack, t_rsp := sp\<rparr>],
      TaskCount := TaskCount s + 1, s_mm := hs\<lparr>mm_mem := m2\<rparr>, if_flag := True\<rparr>) \<and>
    (\<exists>n'\<ge>4096. allocated hs stack n' \<and> same_outside (unat stack) (unat stack + n') (mm_mem hs) m2) \<and>
    heap_ok (hs\<lparr>mm_mem := m2\<rparr>) \<and>
    (\<forall>c'. load_context sp m2 c' = c'\<lparr>r15 := 0, r14 := 0, r13 := 0, r12 := 0, rbx := 0, rbp := 0, rip := child_return L,
       rsp := rsp (s_cpu s) + (stack - kstack parent)\<rparr>) \<and>
    (\<forall>k. unat (rsp (s_cpu s)) \<le> unat (kstack parent) + k \<and> k < 4096 \<longrightarrow>
        m2 (stack + of_nat k) = mm_mem (s_mm s) (kstack parent + of_nat k)) \<and>
    (\<forall>k < 4096. m2 (kstack parent + of_nat k) = mm_mem (s_mm s) (kstack parent + of_nat k))"
proof -
  obtain nm where nm: "strncpy (name (TaskTable s ! i)) (name parent) (MAX_TASK_NAME - 1) = Some nm"
    "length nm = MAX_TASK_NAME" "nm ! 31 = 0"
    using name_copy [OF assms(4,5)] by auto
  obtain sp m2 where f: "push 0 (push 0 (push 0 (push 0 (push 0 (push 0 (push (child_return L) (rsp (s_cpu s) + (stack - kstack parent), memcpy_mem stack (kstack parent) 4096 (mm_mem hs)))))))) = (sp, m2)"
    and m: "(\<exists>n'\<ge>4096. allocated hs stack n' \<and> same_outside (unat stack) (unat stack + n') (mm_mem hs) m2) \<and>
    heap_ok (hs\<lparr>mm_mem := m2\<rparr>) \<and>
    (\<forall>c'. load_context sp m2 c' = c'\<lparr>r15 := 0, r14 := 0, r13 := 0, r12 := 0, rbx := 0, rbp := 0, rip := child_return L,
       rsp := rsp (s_cpu s) + (stack - kstack parent)\<rparr>) \<and>
    (\<forall>k. unat (rsp (s_cpu s)) \<le> unat (kstack parent) + k \<and> k < 4096 \<longrightarrow>
        m2 (stack + of_nat k) = mm_mem (s_mm s) (kstack parent + of_nat k)) \<and>
    (\<forall>k < 4096. m2 (kstack parent + of_nat k) = mm_mem (s_mm s) (kstack parent + of_nat k))"
    using fork_stack [OF assms(1,6-11), of L] by blast
  have "get_task (s\<lparr>if_flag := False\<rparr>) (CurrentTaskPID s) = Some parent"
    using assms(3) by (auto simp: get_task_def split: if_splits)
  then have "TaskFork L s = Some (int i, s\<lparr>TaskTable := (TaskTable s)[i := (TaskTable s ! i)\<lparr>pid := int i, ppid := pid parent,
        state := TASK_WAITING, priority := priority parent, name := nm, kstack := stack, t_rsp := sp\<rparr>],
      TaskCount := TaskCount s + 1, s_mm := hs\<lparr>mm_mem := m2\<rparr>, if_flag := True\<rparr>)"
    using assms(2,6,7) nm(1) f by (simp add: TaskFork_def Let_def cli_def sti_def put_task_def)
  then show ?thesis using nm m by (intro exI [of _ nm] exI [of _ sp] exI [of _ m2] conjI) blast+
qed

text \<open>C15: Forking. For a running task whose stack block and stack pointer are sound, \<^verbatim>\<open>TaskFork\<close> gives
  the lowest free slot a new stack that repeats the parent's live stack bytes at the same offset; the child's first
  switch continues at \<^verbatim>\<open>child_return\<close> with the parent's stack pointer moved to the copy (its callee-saved registers are
  cleared), the parent's stack is untouched, and interrupts are on again.\<close>

theorem TaskFork_child:
  assumes "heap_ok (s_mm s)" and "find_empty (TaskTable s) = Some i" and "get_task s (CurrentTaskPID s) = Some parent"
    and "name_ok (TaskTable s ! i)" and "terminated (name parent)"
    and "kmalloc 4096 (s_mm s) = Some (stack, hs)" and "stack \<noteq> 0"
    and "allocated (s_mm s) (kstack parent) n" and "4096 \<le> n"
    and "unat (kstack parent) + 56 \<le> unat (rsp (s_cpu s))" and "unat (rsp (s_cpu s)) \<le> unat (kstack parent) + 4096"
  shows "\<exists>s' t. TaskFork L s = Some (int i, s') \<and> if_flag s' \<and> TaskCount s' = TaskCount s + 1 \<and>
    TaskTable s' = (TaskTable s)[i := t] \<and> pid t = int i \<and> ppid t = pid parent \<and> state t = TASK_WAITING \<and>
    priority t = priority parent \<and> kstack t = stack \<and> heap_ok (s_mm s') \<and>
    (let c = s_cpu s; p = rsp c + (stack - kstack parent); m' = mm_mem (s_mm s') in
      (\<forall>c'. load_context (t_rsp t) m' c' =
        c'\<lparr>r15 := 0, r14 := 0, r13 := 0, r12 := 0, rbx := 0, rbp := 0, rip := child_return L, rsp := p\<rparr>) \<and>
      (\<forall>k. unat (rsp c) \<le> unat (kstack parent) + k \<and> k < 4096 \<longrightarrow>
        m' (stack + of_nat k) = mm_mem (s_mm s) (kstack parent + of_nat k)) \<and>
      (\<forall>k < 4096. m' (kstack parent + of_nat k) = mm_mem (s_mm s) (kstack parent + of_nat k)))"
proof -
  obtain nm sp m2 where r: "TaskFork L s = Some (int i, s\<lparr>TaskTable := (TaskTable s)[i := (TaskTable s ! i)\<lparr>pid := int i,
        ppid := pid parent, state := TASK_WAITING, priority := priority parent, name := nm, kstack := stack, t_rsp := sp\<rparr>],
      TaskCount := TaskCount s + 1, s_mm := hs\<lparr>mm_mem := m2\<rparr>, if_flag := True\<rparr>)" "heap_ok (hs\<lparr>mm_mem := m2\<rparr>)"
    "\<forall>c'. load_context sp m2 c' = c'\<lparr>r15 := 0, r14 := 0, r13 := 0, r12 := 0, rbx := 0, rbp := 0, rip := child_return L,
       rsp := rsp (s_cpu s) + (stack - kstack parent)\<rparr>"
    "\<forall>k. unat (rsp (s_cpu s)) \<le> unat (kstack parent) + k \<and> k < 4096 \<longrightarrow>
        m2 (stack + of_nat k) = mm_mem (s_mm s) (kstack parent + of_nat k)"
    "\<forall>k < 4096. m2 (kstack parent + of_nat k) = mm_mem (s_mm s) (kstack parent + of_nat k)"
    using TaskFork_result [OF assms, of L] by (elim exE conjE) (rule that)
  show ?thesis
    unfolding r(1) using r(2-5)
    by (intro exI [of _ "s\<lparr>TaskTable := (TaskTable s)[i := (TaskTable s ! i)\<lparr>pid := int i,
        ppid := pid parent, state := TASK_WAITING, priority := priority parent, name := nm, kstack := stack, t_rsp := sp\<rparr>],
      TaskCount := TaskCount s + 1, s_mm := hs\<lparr>mm_mem := m2\<rparr>, if_flag := True\<rparr>"]
      exI [of _ "(TaskTable s ! i)\<lparr>pid := int i,
        ppid := pid parent, state := TASK_WAITING, priority := priority parent, name := nm, kstack := stack, t_rsp := sp\<rparr>"])
      (simp add: Let_def)
qed

text \<open>A running task with a stack of its own: the first block of the heap.\<close>

lemma fork_example:
  "\<exists>s parent stack hs n. heap_ok (s_mm s) \<and> find_empty (TaskTable s) = Some 1 \<and>
     get_task s (CurrentTaskPID s) = Some parent \<and> name_ok (TaskTable s ! 1) \<and> terminated (name parent) \<and>
     kmalloc 4096 (s_mm s) = Some (stack, hs) \<and> stack \<noteq> 0 \<and> allocated (s_mm s) (kstack parent) n \<and> 4096 \<le> n \<and>
     unat (kstack parent) + 56 \<le> unat (rsp (s_cpu s)) \<and> unat (rsp (s_cpu s)) \<le> unat (kstack parent) + 4096 \<and>
     stack - kstack parent = 4120 \<and> rsp (s_cpu s) = 0x1F00"
proof -
  obtain hs where hs: "kmalloc 4096 (s_mm example_sched) = Some (0x1018, hs)"
    "heap_inv hs [(4096, False), (0xEFE8, True)]" "heap_start hs = 0x1000"
    using example_sched_alloc by blast
  have r: "unat (round_size 4096) = 4096" by (simp add: round_size_def)
  define parent where "parent = zero_task\<lparr>state := TASK_RUNNING, kstack := 0x1018\<rparr>"
  define s where "s = example_sched\<lparr>TaskTable := (TaskTable example_sched)[0 := parent], s_mm := hs,
    s_cpu := example_cpu\<lparr>rsp := 0x1F00\<rparr>\<rparr>"
  obtain hs2 where hs2: "kmalloc 4096 hs = Some (0x2030, hs2)"
    using kmalloc_result [OF hs(2), of 4096] by (auto simp: r hs(3) sizeof_header_def)
  have "allocated hs 0x1018 4096"
    using allocated_iff [OF hs(2)] by (simp add: hs(3) sizeof_header_def)
  moreover have "find_empty (TaskTable s) = Some 1" "name_ok (TaskTable s ! 1)" "get_task s (CurrentTaskPID s) = Some parent"
    by (simp_all add: find_empty_Some s_def example_sched_def parent_def zero_task_def name_ok_def MAX_TASK_NAME_def get_task_def)
  moreover have "terminated (name parent)" by (simp add: parent_def zero_task_def terminated_def MAX_TASK_NAME_def)
  moreover have "heap_ok (s_mm s)" using hs(2) by (auto simp: heap_ok_def s_def)
  ultimately show ?thesis using hs2
    by (intro exI [of _ s] exI [of _ parent] exI [of _ "0x2030"] exI [of _ hs2] exI [of _ 4096])
      (simp add: s_def parent_def)
qed

theorem TaskFork_child_witness:
  "\<exists>s s' t. TaskFork example_labels s = Some (1, s') \<and> TaskTable s' = (TaskTable s)[1 := t] \<and>
     rip (load_context (t_rsp t) (mm_mem (s_mm s')) example_cpu) = 0x600 \<and>
     rsp (load_context (t_rsp t) (mm_mem (s_mm s')) example_cpu) = 0x2F18"
proof -
  obtain s parent stack hs n where a: "heap_ok (s_mm s)" "find_empty (TaskTable s) = Some 1"
    "get_task s (CurrentTaskPID s) = Some parent" "name_ok (TaskTable s ! 1)" "terminated (name parent)"
    "kmalloc 4096 (s_mm s) = Some (stack, hs)" "stack \<noteq> 0" "allocated (s_mm s) (kstack parent) n" "4096 \<le> n"
    "unat (kstack parent) + 56 \<le> unat (rsp (s_cpu s))" "unat (rsp (s_cpu s)) \<le> unat (kstack parent) + 4096"
    and d: "stack - kstack parent = 4120" "rsp (s_cpu s) = 0x1F00"
    using fork_example by blast
  obtain s' t where "TaskFork example_labels s = Some (int 1, s')" "TaskTable s' = (TaskTable s)[1 := t]"
    "\<forall>c'. load_context (t_rsp t) (mm_mem (s_mm s')) c' =
      c'\<lparr>r15 := 0, r14 := 0, r13 := 0, r12 := 0, rbx := 0, rbp := 0, rip := 0x600, rsp := 0x2F18\<rparr>"
    using TaskFork_child [OF a, of example_labels] d by (auto simp: Let_def example_labels_def)
  then show ?thesis by (intro exI [of _ s] exI [of _ s'] exI [of _ t]) simp
qed

end
