(* ===== verification/Sched.thy ===== *)
theory Sched
  imports Tasks
begin

text \<open>
  The scheduler of \<^verbatim>\<open>kernel/sched/task.c\<close> and the sleeping calls of \<^verbatim>\<open>kernel/IRQ/timer.c\<close>. One call of
  \<^verbatim>\<open>Schedule\<close> reaps the dead, counts the sleepers down, picks a waiting task of the highest priority
  in round-robin order behind the current one, and switches to it.
\<close>

section \<open>Schedule\<close>

definition reap_or_tick :: "nat \<Rightarrow> sched \<Rightarrow> sched option" where
  "reap_or_tick i s =
     (let t = TaskTable s ! i in
      if 0 < i \<and> state t = TASK_ZOMBIE
      then do { hs \<leftarrow> (if kstack t \<noteq> 0 then kfree (kstack t) (s_mm s) else Some (s_mm s));
                Some ((put_task (int i) (zero_task\<lparr>state := TASK_EMPTY\<rparr>) s)
                        \<lparr>s_mm := hs, TaskCount := TaskCount s - 1\<rparr>) }
      else if state t = TASK_SLEEPING
      then (let t1 = (if 0 < t_msleep t then t\<lparr>t_msleep := t_msleep t - 1\<rparr> else t);
                t2 = (if t_msleep t1 = 0 then t1\<lparr>state := TASK_WAITING\<rparr> else t1)
            in Some (put_task (int i) t2 s))
      else Some s)"

definition housekeeping :: "sched \<Rightarrow> sched option" where
  "housekeeping s = fold_opt reap_or_tick [0..<MAX_TASK_COUNT] s"

definition max_waiting :: "Task list \<Rightarrow> int" where
  "max_waiting ts =
     fold (\<lambda>i mp. if state (ts ! i) = TASK_WAITING \<and> mp < priority (ts ! i) then priority (ts ! i) else mp)
       [0..<MAX_TASK_COUNT] (-1)"

definition find_next :: "Task list \<Rightarrow> int \<Rightarrow> int \<Rightarrow> nat option" where
  "find_next ts cur mp =
     map_option (\<lambda>i. nat ((cur + int i) mod int MAX_TASK_COUNT))
       (find (\<lambda>i. let t = ts ! nat ((cur + int i) mod int MAX_TASK_COUNT)
                  in state t = TASK_WAITING \<and> priority t = mp) [1..<MAX_TASK_COUNT + 1])"

text \<open>The task to switch to: \<open>Some None\<close> for the early return that keeps the running task.\<close>

definition next_pid :: "sched \<Rightarrow> nat option option" where
  "next_pid s =
     (let mp = max_waiting (TaskTable s);
          nx = (if mp \<noteq> -1 then find_next (TaskTable s) (CurrentTaskPID s) mp else None)
      in case nx of
           Some i \<Rightarrow> Some (Some i)
         | None \<Rightarrow> do { t \<leftarrow> get_task s (CurrentTaskPID s);
                        Some (if state t = TASK_RUNNING then None else Some 0) })"

text \<open>The state handed to \<^verbatim>\<open>switch_to\<close>.\<close>

definition make_current :: "nat \<Rightarrow> sched \<Rightarrow> sched option" where
  "make_current nx s =
     do { prev \<leftarrow> get_task s (CurrentTaskPID s);
          let s1 = (if state prev = TASK_RUNNING then put_task (CurrentTaskPID s) (prev\<lparr>state := TASK_WAITING\<rparr>) s else s);
          next_t \<leftarrow> get_task s1 (int nx);
          Some ((put_task (int nx) (next_t\<lparr>state := TASK_RUNNING\<rparr>) s1)\<lparr>CurrentTaskPID := int nx\<rparr>) }"

text \<open>The boolean says whether the processor was switched to another task.\<close>

definition Schedule :: "labels \<Rightarrow> sched \<Rightarrow> (bool \<times> sched) option" where
  "Schedule L s =
     (if \<not> scheduler_started s then Some (False, s)
      else do { s1 \<leftarrow> housekeeping s;
                nx \<leftarrow> next_pid s1;
                case nx of
                  None \<Rightarrow> Some (False, s1)
                | Some n \<Rightarrow>
                    if int n = CurrentTaskPID s1 then Some (False, s1)
                    else do { s2 \<leftarrow> make_current n s1;
                              t \<leftarrow> get_task s2 (int n);
                              s3 \<leftarrow> switch_to L (CurrentTaskPID s1) (t_rsp t) s2;
                              Some (True, s3) } })"

section \<open>Leaving and killing\<close>

text \<open>How a call ends for its caller: it returned a value, the processor now runs another task, or
  it spins for ever in \<^verbatim>\<open>while (1)\<close>.\<close>

datatype flow = Returned int | Switched | Spinning

definition ExitTask :: "labels \<Rightarrow> int \<Rightarrow> sched \<Rightarrow> (flow \<times> sched) option" where
  "ExitTask L code s0 =
     (let s = cli s0 in
      if CurrentTaskPID s = 0 then Some (Returned (err EACCES), sti s)
      else do { t \<leftarrow> get_task s (CurrentTaskPID s);
                (sw, s1) \<leftarrow> Schedule L (put_task (CurrentTaskPID s) (t\<lparr>state := TASK_ZOMBIE, ExitCode := code\<rparr>) s);
                Some (if sw then Switched else Spinning, s1) })"

definition KillTask :: "labels \<Rightarrow> int \<Rightarrow> sched \<Rightarrow> (flow \<times> sched) option" where
  "KillTask L p s0 =
     (if p \<le> 0 \<or> int MAX_TASK_COUNT \<le> p then Some (Returned (err EACCES), s0)
      else let s = cli s0 in
        do { target \<leftarrow> get_task s p;
             if state target = TASK_EMPTY then Some (Returned (err ESRCH), sti s)
             else if p = CurrentTaskPID s then ExitTask L (-1) (sti s)
             else Some (Returned 0, sti (put_task p (target\<lparr>state := TASK_ZOMBIE, ExitCode := -1\<rparr>) s)) })"

section \<open>Sleeping\<close>

definition get_uptime :: "sched \<Rightarrow> u64" where
  "get_uptime s = ticks s div 100"

definition msleep :: "labels \<Rightarrow> u32 \<Rightarrow> sched \<Rightarrow> (bool \<times> sched) option" where
  "msleep L ms s =
     (if ms = 0 then Some (False, s)
      else do { t \<leftarrow> get_task s (CurrentTaskPID s);
                Schedule L (sti (put_task (CurrentTaskPID s)
                  (t\<lparr>t_msleep := ucast (ms div 10), state := TASK_SLEEPING\<rparr>) (cli s))) })"

definition sleep :: "labels \<Rightarrow> u32 \<Rightarrow> sched \<Rightarrow> (bool \<times> sched) option" where
  "sleep L sec s = msleep L (sec * 1000) s"

section \<open>The invariant\<close>

definition stacks_ok :: "Task list \<Rightarrow> mm \<Rightarrow> bool" where
  "stacks_ok ts h \<longleftrightarrow>
     (\<forall>i < length ts. state (ts ! i) \<noteq> TASK_EMPTY \<and> kstack (ts ! i) \<noteq> 0 \<longrightarrow>
        (\<exists>n\<ge>4096. allocated h (kstack (ts ! i)) n)) \<and>
     (\<forall>i < length ts. \<forall>j < length ts. i \<noteq> j \<and> state (ts ! i) \<noteq> TASK_EMPTY \<and> state (ts ! j) \<noteq> TASK_EMPTY \<and>
        kstack (ts ! i) \<noteq> 0 \<longrightarrow> kstack (ts ! i) \<noteq> kstack (ts ! j))"

text \<open>The kernel only hands out the priorities 0 (idle) and 1.\<close>

definition prio_ok :: "int \<Rightarrow> bool" where
  "prio_ok p \<longleftrightarrow> p = 0 \<or> p = 1"

lemma prio_okD: "prio_ok p \<Longrightarrow> 0 \<le> p" "prio_ok p \<Longrightarrow> p \<le> 1"
  by (auto simp: prio_ok_def)

text \<open>Every used slot other than 0 may own a stack, no two own the same; only the current task is
  running; slot 0, the idle task, is always there.\<close>

definition sched_inv :: "sched \<Rightarrow> bool" where
  "sched_inv s \<longleftrightarrow> length (TaskTable s) = MAX_TASK_COUNT \<and>
     0 \<le> CurrentTaskPID s \<and> CurrentTaskPID s < int MAX_TASK_COUNT \<and>
     (\<forall>i < MAX_TASK_COUNT. state (TaskTable s ! i) = TASK_RUNNING \<longrightarrow> int i = CurrentTaskPID s) \<and>
     (\<forall>i < MAX_TASK_COUNT. name_ok (TaskTable s ! i) \<and> prio_ok (priority (TaskTable s ! i))) \<and>
     state (TaskTable s ! 0) \<noteq> TASK_EMPTY \<and> state (TaskTable s ! 0) \<noteq> TASK_ZOMBIE \<and>
     heap_ok (s_mm s) \<and> stacks_ok (TaskTable s) (s_mm s)"

lemma sched_invD:
  assumes "sched_inv s"
  shows "length (TaskTable s) = MAX_TASK_COUNT" "0 \<le> CurrentTaskPID s" "CurrentTaskPID s < int MAX_TASK_COUNT"
    "i < MAX_TASK_COUNT \<Longrightarrow> state (TaskTable s ! i) = TASK_RUNNING \<Longrightarrow> int i = CurrentTaskPID s"
    "i < MAX_TASK_COUNT \<Longrightarrow> name_ok (TaskTable s ! i)" "i < MAX_TASK_COUNT \<Longrightarrow> prio_ok (priority (TaskTable s ! i))"
    "state (TaskTable s ! 0) \<noteq> TASK_EMPTY" "state (TaskTable s ! 0) \<noteq> TASK_ZOMBIE"
    "heap_ok (s_mm s)" "stacks_ok (TaskTable s) (s_mm s)"
  using assms by (auto simp: sched_inv_def)

lemma get_task_inv: "sched_inv s \<Longrightarrow> i < MAX_TASK_COUNT \<Longrightarrow> get_task s (int i) = Some (TaskTable s ! i)"
  by (simp add: get_task_def sched_invD)

lemma get_current: "sched_inv s \<Longrightarrow> get_task s (CurrentTaskPID s) = Some (TaskTable s ! nat (CurrentTaskPID s))"
  using get_task_inv [of s "nat (CurrentTaskPID s)"] sched_invD(2,3) by (simp add: nat_less_iff)

lemma zero_task_facts: "name_ok zero_task" "prio_ok (priority zero_task)" "state zero_task = TASK_EMPTY"
  by (simp_all add: zero_task_def name_ok_def prio_ok_def MAX_TASK_NAME_def)

text \<open>Replacing a task by one with the same stack.\<close>

lemma stacks_ok_update:
  assumes "stacks_ok ts h" and "i < length ts"
    and "state t = TASK_EMPTY \<or> state (ts ! i) \<noteq> TASK_EMPTY \<and> kstack t = kstack (ts ! i)"
  shows "stacks_ok (ts[i := t]) h"
  unfolding stacks_ok_def length_list_update
proof (intro conjI allI impI)
  fix j assume "j < length ts" "state (ts[i := t] ! j) \<noteq> TASK_EMPTY \<and> kstack (ts[i := t] ! j) \<noteq> 0"
  then show "\<exists>n\<ge>4096. allocated h (kstack (ts[i := t] ! j)) n"
    using assms by (cases "j = i") (auto simp: stacks_ok_def)
next
  fix j k assume "j < length ts" "k < length ts"
    "j \<noteq> k \<and> state (ts[i := t] ! j) \<noteq> TASK_EMPTY \<and> state (ts[i := t] ! k) \<noteq> TASK_EMPTY \<and> kstack (ts[i := t] ! j) \<noteq> 0"
  then show "kstack (ts[i := t] ! j) \<noteq> kstack (ts[i := t] ! k)"
    using assms by (cases "j = i"; cases "k = i") (auto simp: stacks_ok_def)
qed

lemma stacks_ok_heap:
  assumes "stacks_ok ts h"
    and "\<And>i n. i < length ts \<Longrightarrow> state (ts ! i) \<noteq> TASK_EMPTY \<Longrightarrow> kstack (ts ! i) \<noteq> 0 \<Longrightarrow> allocated h (kstack (ts ! i)) n \<Longrightarrow>
      allocated h' (kstack (ts ! i)) n"
  shows "stacks_ok ts h'"
  using assms by (fastforce simp: stacks_ok_def)

lemma sched_inv_update:
  assumes "sched_inv s" and "i < MAX_TASK_COUNT" and "name_ok t" and "prio_ok (priority t)"
    and "state t = TASK_RUNNING \<Longrightarrow> int i = CurrentTaskPID s"
    and "i = 0 \<Longrightarrow> state t \<noteq> TASK_EMPTY \<and> state t \<noteq> TASK_ZOMBIE"
    and "heap_ok hs" and "stacks_ok ((TaskTable s)[i := t]) hs"
    and s': "TaskTable s' = (TaskTable s)[i := t]" "s_mm s' = hs" "CurrentTaskPID s' = CurrentTaskPID s"
  shows "sched_inv s'"
proof -
  note D = sched_invD [OF assms(1)]
  have nth: "(TaskTable s)[i := t] ! j = (if j = i then t else TaskTable s ! j)" if "j < MAX_TASK_COUNT" for j
    using that assms(2) D(1) by (simp add: nth_list_update)
  have 0: "0 < MAX_TASK_COUNT" by (simp add: MAX_TASK_COUNT_def)
  have z: "state ((TaskTable s)[i := t] ! 0) \<noteq> TASK_EMPTY" "state ((TaskTable s)[i := t] ! 0) \<noteq> TASK_ZOMBIE"
    using D(7,8) assms(6) nth [OF 0] by (cases "i = 0", auto)+
  show ?thesis
    unfolding sched_inv_def s'
  proof (intro conjI allI impI)
    fix j assume j: "j < MAX_TASK_COUNT"
    show "int j = CurrentTaskPID s" if "state ((TaskTable s)[i := t] ! j) = TASK_RUNNING"
      using that D(4) [OF j] assms(5) nth [OF j] by (cases "j = i") auto
    show "name_ok ((TaskTable s)[i := t] ! j)" "prio_ok (priority ((TaskTable s)[i := t] ! j))"
      using D(5,6) [OF j] assms(3,4) nth [OF j] by (cases "j = i", auto)+
  qed (use D(1,2,3) assms(7,8) z in simp_all)
qed

section \<open>Headers only disappear\<close>

text \<open>What freeing does to memory: block headers may vanish, none appears, and nothing but headers
  is written.\<close>

definition heap_shrinks :: "mm \<Rightarrow> mm \<Rightarrow> bool" where
  "heap_shrinks h h' \<longleftrightarrow> heap_start h' = heap_start h \<and>
     (\<forall>bs. heap_inv h bs \<longrightarrow> (\<exists>bs'. heap_inv h' bs' \<and>
        (\<forall>x. in_header (unat (heap_start h)) bs' x \<longrightarrow> in_header (unat (heap_start h)) bs x) \<and>
        (\<forall>x. \<not> in_header (unat (heap_start h)) bs (unat x) \<longrightarrow> mm_mem h' x = mm_mem h x)))"

text \<open>The block at \<open>q\<close>, if one is allocated there, keeps its size and content.\<close>

definition kept :: "mm \<Rightarrow> mm \<Rightarrow> u64 \<Rightarrow> bool" where
  "kept h h' q \<longleftrightarrow> (\<forall>n. allocated h q n \<longrightarrow>
     allocated h' q n \<and> (\<forall>k < n. mm_mem h' (q + of_nat k) = mm_mem h (q + of_nat k)))"

lemma kept_refl [simp]: "kept h h q"
  by (simp add: kept_def)

lemma kept_trans: "kept h h' q \<Longrightarrow> kept h' h'' q \<Longrightarrow> kept h h'' q"
  by (auto simp: kept_def)

lemma heap_shrinks_refl [simp]: "heap_shrinks h h"
  by (auto simp: heap_shrinks_def)

lemma heap_shrinks_trans:
  assumes "heap_shrinks h h'" and "heap_shrinks h' h''"
  shows "heap_shrinks h h''"
  unfolding heap_shrinks_def
proof (intro conjI allI impI)
  show "heap_start h'' = heap_start h" using assms by (simp add: heap_shrinks_def)
  fix bs assume "heap_inv h bs"
  then obtain bs' where b: "heap_inv h' bs'" "\<And>x. in_header (unat (heap_start h)) bs' x \<Longrightarrow> in_header (unat (heap_start h)) bs x"
    "\<And>x. \<not> in_header (unat (heap_start h)) bs (unat x) \<Longrightarrow> mm_mem h' x = mm_mem h x" and st: "heap_start h' = heap_start h"
    using assms(1) unfolding heap_shrinks_def by blast
  obtain bs'' where c: "heap_inv h'' bs''" "\<And>x. in_header (unat (heap_start h)) bs'' x \<Longrightarrow> in_header (unat (heap_start h)) bs' x"
    "\<And>x. \<not> in_header (unat (heap_start h)) bs' (unat x) \<Longrightarrow> mm_mem h'' x = mm_mem h' x"
    using assms(2) b(1) st unfolding heap_shrinks_def by metis
  show "\<exists>bs'. heap_inv h'' bs' \<and> (\<forall>x. in_header (unat (heap_start h)) bs' x \<longrightarrow> in_header (unat (heap_start h)) bs x) \<and>
      (\<forall>x. \<not> in_header (unat (heap_start h)) bs (unat x) \<longrightarrow> mm_mem h'' x = mm_mem h x)"
  proof (intro exI [of _ bs''] conjI allI impI)
    show "mm_mem h'' x = mm_mem h x" if "\<not> in_header (unat (heap_start h)) bs (unat x)" for x
      using b(2) b(3) [OF that] c(3) [of x] that by metis
  qed (use b c in auto)
qed

lemma headers_a_mark_free [simp]: "headers a (a_mark_free h b bs) = headers a bs"
  by (induction bs arbitrary: a b) auto

lemma headers_coalesce: "set (headers a (coalesce bs)) \<subseteq> set (headers a bs)"
proof (induction bs arbitrary: a rule: coalesce.induct)
  case (3 n f k g bs)
  show ?case
  proof (cases "f \<and> g")
    case True
    then have "set (headers a (coalesce ((n, f) # (k, g) # bs))) \<subseteq> set (headers a ((n + (k + sizeof_header), True) # bs))"
      using 3(1) [OF True, of a] by simp
    also have "\<dots> \<subseteq> set (headers a ((n, f) # (k, g) # bs))" by (auto simp: add_ac)
    finally show ?thesis .
  next
    case False
    then have "headers a (coalesce ((n, f) # (k, g) # bs)) = a # headers (a + sizeof_header + n) (coalesce ((k, g) # bs))"
      by auto
    with 3(2) [OF False, of "a + sizeof_header + n"] show ?thesis by auto
  qed
qed auto

lemma kfree_shrinks:
  assumes "heap_inv h bs" and "allocated h p n"
  shows "\<exists>h'. kfree p h = Some h' \<and> heap_shrinks h h' \<and> heap_ok h'"
  using assms
proof (cases rule: kfree_cases)
  case (1 h')
  have st: "heap_start h' = heap_start h" by (rule heap_start_eq [OF 1(2)])
  have "heap_shrinks h h'"
    unfolding heap_shrinks_def
  proof (intro conjI allI impI)
    show "heap_start h' = heap_start h" by (rule st)
    fix cs assume "heap_inv h cs"
    then have "cs = bs" using heap_inv_unique assms(1) by blast
    then show "\<exists>bs'. heap_inv h' bs' \<and> (\<forall>x. in_header (unat (heap_start h)) bs' x \<longrightarrow> in_header (unat (heap_start h)) cs x) \<and>
        (\<forall>x. \<not> in_header (unat (heap_start h)) cs (unat x) \<longrightarrow> mm_mem h' x = mm_mem h x)"
      using 1(3,4) headers_coalesce [of "unat (heap_start h)" "a_mark_free (unat p - sizeof_header) (unat (heap_start h)) bs"]
      by (intro exI [of _ "coalesce (a_mark_free (unat p - sizeof_header) (unat (heap_start h)) bs)"])
        (auto simp: in_header_def)
  qed
  with 1(1,3) show ?thesis by (auto simp: heap_ok_def)
qed

section \<open>One slot, and the whole table\<close>

definition tick_task :: "nat \<Rightarrow> Task \<Rightarrow> Task" where
  "tick_task i t =
     (if 0 < i \<and> state t = TASK_ZOMBIE then zero_task
      else if state t = TASK_SLEEPING
      then t\<lparr>t_msleep := (if t_msleep t = 0 then 0 else t_msleep t - 1),
             state := (if t_msleep t \<le> 1 then TASK_WAITING else TASK_SLEEPING)\<rparr>
      else t)"

lemma tick_sleeping:
  assumes "\<not> (0 < i \<and> state t = TASK_ZOMBIE)" "state t = TASK_SLEEPING"
  shows "(let t1 = (if 0 < t_msleep t then t\<lparr>t_msleep := t_msleep t - 1\<rparr> else t)
      in if t_msleep t1 = 0 then t1\<lparr>state := TASK_WAITING\<rparr> else t1) = tick_task i t"
proof -
  have le: "t_msleep t \<le> 1 \<longleftrightarrow> t_msleep t = 0 \<or> t_msleep t = 1"
  proof -
    have "unat (t_msleep t) = 1 \<longleftrightarrow> t_msleep t = 1" using unat_eq_iff [of "t_msleep t" 1] by simp
    moreover have "unat (t_msleep t) \<le> 1 \<longleftrightarrow> unat (t_msleep t) = 0 \<or> unat (t_msleep t) = 1" by linarith
    ultimately show ?thesis by (simp only: word_le_nat_alt) (simp add: unat_eq_0)
  qed
  show ?thesis
    using assms le by (cases t) (auto simp: tick_task_def Let_def word_neq_0_conv [symmetric])
qed

definition same_control :: "sched \<Rightarrow> sched \<Rightarrow> bool" where
  "same_control s s' \<longleftrightarrow> CurrentTaskPID s' = CurrentTaskPID s \<and> scheduler_started s' = scheduler_started s \<and>
     if_flag s' = if_flag s \<and> ticks s' = ticks s \<and> s_cpu s' = s_cpu s"

text \<open>Giving back the stack of a dead task keeps every other task's stack.\<close>

lemma reap_stack:
  assumes inv: "sched_inv s" and i: "i < MAX_TASK_COUNT" and zombie: "state (TaskTable s ! i) = TASK_ZOMBIE"
  shows "\<exists>hs. (if kstack (TaskTable s ! i) \<noteq> 0 then kfree (kstack (TaskTable s ! i)) (s_mm s) else Some (s_mm s)) = Some hs \<and>
    heap_shrinks (s_mm s) hs \<and> heap_ok hs \<and> stacks_ok ((TaskTable s)[i := zero_task]) hs \<and>
    (\<forall>q. kstack (TaskTable s ! i) \<noteq> q \<longrightarrow> kept (s_mm s) hs q)"
proof (cases "kstack (TaskTable s ! i) = 0")
  case z: True
  note D = sched_invD [OF inv]
  have len: "i < length (TaskTable s)" using D(1) i by simp
  have "stacks_ok ((TaskTable s)[i := zero_task]) (s_mm s)"
    using stacks_ok_update [OF D(10) len, of zero_task] zero_task_facts(3) by simp
  with z D(9) show ?thesis by simp
next
  case nz: False
  note D = sched_invD [OF inv]
  have len: "i < length (TaskTable s)" and zombie: "state (TaskTable s ! i) \<noteq> TASK_EMPTY" using D(1) i assms(3) by simp_all
  obtain n where n: "allocated (s_mm s) (kstack (TaskTable s ! i)) n"
    using D(10) len nz zombie by (auto simp: stacks_ok_def)
  obtain bs where bs: "heap_inv (s_mm s) bs" using D(9) by (auto simp: heap_ok_def)
  obtain hs where hs: "kfree (kstack (TaskTable s ! i)) (s_mm s) = Some hs" "heap_shrinks (s_mm s) hs" "heap_ok hs"
    using kfree_shrinks [OF bs n] by blast
  have "stacks_ok ((TaskTable s)[i := zero_task]) hs"
  proof (rule stacks_ok_heap)
    show "stacks_ok ((TaskTable s)[i := zero_task]) (s_mm s)"
      using stacks_ok_update [OF D(10) len, of zero_task] zero_task_facts(3) by simp
    fix j k assume j: "j < length ((TaskTable s)[i := zero_task])"
      "state ((TaskTable s)[i := zero_task] ! j) \<noteq> TASK_EMPTY" "kstack ((TaskTable s)[i := zero_task] ! j) \<noteq> 0"
      and a: "allocated (s_mm s) (kstack ((TaskTable s)[i := zero_task] ! j)) k"
    then have ji: "j \<noteq> i" using zero_task_facts(3) len by auto
    then have "kstack (TaskTable s ! j) \<noteq> kstack (TaskTable s ! i)"
      using D(10) j len nz zombie by (auto simp: stacks_ok_def)
    then show "allocated hs (kstack ((TaskTable s)[i := zero_task] ! j)) k"
      using heap.release_keeps [OF D(9) n hs(1)] a ji by simp
  qed
  moreover have "\<forall>q. kstack (TaskTable s ! i) \<noteq> q \<longrightarrow> kept (s_mm s) hs q"
    using heap.release_keeps [OF D(9) n hs(1)] by (auto simp: kept_def)
  ultimately show ?thesis using hs nz by simp
qed

lemma reap_or_tick_step:
  assumes inv: "sched_inv s" and i: "i < MAX_TASK_COUNT"
  shows "\<exists>s'. reap_or_tick i s = Some s' \<and> sched_inv s' \<and> same_control s s' \<and>
    TaskTable s' = (TaskTable s)[i := tick_task i (TaskTable s ! i)] \<and>
    TaskCount s' = TaskCount s - (if 0 < i \<and> state (TaskTable s ! i) = TASK_ZOMBIE then 1 else 0) \<and>
    heap_shrinks (s_mm s) (s_mm s') \<and>
    (\<forall>q. \<not> (0 < i \<and> state (TaskTable s ! i) = TASK_ZOMBIE \<and> kstack (TaskTable s ! i) = q) \<longrightarrow> kept (s_mm s) (s_mm s') q)"
proof -
  let ?t = "TaskTable s ! i"
  note D = sched_invD [OF inv]
  have len: "i < length (TaskTable s)" using D(1) i by simp
  show ?thesis
  proof (cases "0 < i \<and> state ?t = TASK_ZOMBIE")
    case True
    obtain hs where hs: "(if kstack ?t \<noteq> 0 then kfree (kstack ?t) (s_mm s) else Some (s_mm s)) = Some hs"
      "heap_shrinks (s_mm s) hs" "heap_ok hs" "stacks_ok ((TaskTable s)[i := zero_task]) hs"
      "\<forall>q. kstack ?t \<noteq> q \<longrightarrow> kept (s_mm s) hs q" using reap_stack [OF inv i] True by blast
    have zt: "zero_task\<lparr>state := TASK_EMPTY\<rparr> = zero_task" by (simp add: zero_task_def)
    let ?s' = "s\<lparr>TaskTable := (TaskTable s)[i := zero_task], s_mm := hs, TaskCount := TaskCount s - 1\<rparr>"
    have "reap_or_tick i s = Some ?s'"
      using True hs(1) by (simp add: reap_or_tick_def Let_def put_task_def zt)
    moreover have "sched_inv ?s'"
      by (rule sched_inv_update [OF inv i zero_task_facts(1) _ _ _ hs(3,4)])
        (use zero_task_facts True in simp_all)
    ultimately show ?thesis using True hs(2,5) by (auto simp: same_control_def tick_task_def)
  next
    case nz: False
    show ?thesis
    proof (cases "state ?t = TASK_SLEEPING")
      case True
      let ?s' = "s\<lparr>TaskTable := (TaskTable s)[i := tick_task i ?t]\<rparr>"
      have "reap_or_tick i s = Some ?s'"
        using nz True tick_sleeping [OF nz True] by (simp add: reap_or_tick_def Let_def put_task_def)
      moreover have tt: "state (tick_task i ?t) \<noteq> TASK_EMPTY" "state (tick_task i ?t) \<noteq> TASK_ZOMBIE"
        "state (tick_task i ?t) \<noteq> TASK_RUNNING" "kstack (tick_task i ?t) = kstack ?t" "name (tick_task i ?t) = name ?t"
        "priority (tick_task i ?t) = priority ?t"
        using True by (simp_all add: tick_task_def)
      have "sched_inv ?s'"
      proof (rule sched_inv_update [OF inv i _ _ _ _ D(9)])
        show "stacks_ok ((TaskTable s)[i := tick_task i ?t]) (s_mm s)"
          using tt True by (intro stacks_ok_update [OF D(10) len]) simp
      qed (use tt D(5,6) [OF i] in \<open>simp_all add: name_ok_def\<close>)
      ultimately show ?thesis using nz by (auto simp: same_control_def)
    next
      case False
      then have "tick_task i ?t = ?t" using nz by (auto simp: tick_task_def)
      moreover have "reap_or_tick i s = Some s" using nz False by (cases "0 < i") (simp_all add: reap_or_tick_def Let_def)
      ultimately show ?thesis using inv nz by (auto simp: same_control_def)
    qed
  qed
qed

lemma housekeeping_upto:
  assumes "sched_inv s" and "n \<le> MAX_TASK_COUNT"
  shows "\<exists>s'. fold_opt reap_or_tick [0..<n] s = Some s' \<and> sched_inv s' \<and> same_control s s' \<and>
    (\<forall>i < MAX_TASK_COUNT. TaskTable s' ! i = (if i < n then tick_task i (TaskTable s ! i) else TaskTable s ! i)) \<and>
    TaskCount s' = TaskCount s - int (card {i. 0 < i \<and> i < n \<and> state (TaskTable s ! i) = TASK_ZOMBIE}) \<and>
    heap_shrinks (s_mm s) (s_mm s') \<and>
    (\<forall>q. (\<forall>i. 0 < i \<and> i < n \<and> state (TaskTable s ! i) = TASK_ZOMBIE \<longrightarrow> kstack (TaskTable s ! i) \<noteq> q) \<longrightarrow>
       kept (s_mm s) (s_mm s') q)"
  using assms(2)
proof (induction n)
  case 0
  then show ?case using assms(1) by (simp add: same_control_def kept_def)
next
  case (Suc n)
  then obtain s1 where s1: "fold_opt reap_or_tick [0..<n] s = Some s1" "sched_inv s1" "same_control s s1"
    "\<And>i. i < MAX_TASK_COUNT \<Longrightarrow> TaskTable s1 ! i = (if i < n then tick_task i (TaskTable s ! i) else TaskTable s ! i)"
    "TaskCount s1 = TaskCount s - int (card {i. 0 < i \<and> i < n \<and> state (TaskTable s ! i) = TASK_ZOMBIE})"
    "heap_shrinks (s_mm s) (s_mm s1)"
    "\<And>q. (\<And>i. 0 < i \<Longrightarrow> i < n \<Longrightarrow> state (TaskTable s ! i) = TASK_ZOMBIE \<Longrightarrow> kstack (TaskTable s ! i) \<noteq> q) \<Longrightarrow>
       kept (s_mm s) (s_mm s1) q" by auto
  have n: "n < MAX_TASK_COUNT" using Suc.prems by simp
  obtain s2 where s2: "reap_or_tick n s1 = Some s2" "sched_inv s2" "same_control s1 s2"
    "TaskTable s2 = (TaskTable s1)[n := tick_task n (TaskTable s1 ! n)]"
    "TaskCount s2 = TaskCount s1 - (if 0 < n \<and> state (TaskTable s1 ! n) = TASK_ZOMBIE then 1 else 0)"
    "heap_shrinks (s_mm s1) (s_mm s2)"
    "\<And>q. \<not> (0 < n \<and> state (TaskTable s1 ! n) = TASK_ZOMBIE \<and> kstack (TaskTable s1 ! n) = q) \<Longrightarrow> kept (s_mm s1) (s_mm s2) q"
    using reap_or_tick_step [OF s1(2) n] by blast
  have at_n: "TaskTable s1 ! n = TaskTable s ! n" using s1(4) [OF n] by simp
  have "fold_opt reap_or_tick [0..<Suc n] s = Some s2"
    using s1(1) s2(1) by (simp add: fold_opt_append)
  moreover have "TaskTable s2 ! i = (if i < Suc n then tick_task i (TaskTable s ! i) else TaskTable s ! i)"
    if "i < MAX_TASK_COUNT" for i
    using s1(4) [OF that] s2(4) at_n sched_invD(1) [OF s1(2)] n that by (auto simp: nth_list_update)
  moreover have "{i. 0 < i \<and> i < Suc n \<and> state (TaskTable s ! i) = TASK_ZOMBIE} =
      {i. 0 < i \<and> i < n \<and> state (TaskTable s ! i) = TASK_ZOMBIE} \<union>
      (if 0 < n \<and> state (TaskTable s ! n) = TASK_ZOMBIE then {n} else {})"
    by (auto simp: less_Suc_eq)
  then have "int (card {i. 0 < i \<and> i < Suc n \<and> state (TaskTable s ! i) = TASK_ZOMBIE}) =
      int (card {i. 0 < i \<and> i < n \<and> state (TaskTable s ! i) = TASK_ZOMBIE}) +
      (if 0 < n \<and> state (TaskTable s ! n) = TASK_ZOMBIE then 1 else 0)"
    by (auto simp: card_insert_if)
  then have "TaskCount s2 = TaskCount s - int (card {i. 0 < i \<and> i < Suc n \<and> state (TaskTable s ! i) = TASK_ZOMBIE})"
    using s1(5) s2(5) at_n by simp
  moreover have "same_control s s2" using s1(3) s2(3) by (auto simp: same_control_def)
  moreover have "heap_shrinks (s_mm s) (s_mm s2)" by (rule heap_shrinks_trans [OF s1(6) s2(6)])
  moreover have "kept (s_mm s) (s_mm s2) q"
    if "\<forall>i. 0 < i \<and> i < Suc n \<and> state (TaskTable s ! i) = TASK_ZOMBIE \<longrightarrow> kstack (TaskTable s ! i) \<noteq> q" for q
    by (rule kept_trans [OF s1(7) s2(7)]) (use that at_n in auto)
  ultimately show ?case using s2(2) by auto
qed

lemma housekeeping_result:
  assumes "sched_inv s"
  shows "\<exists>s'. housekeeping s = Some s' \<and> sched_inv s' \<and> same_control s s' \<and>
    (\<forall>i < MAX_TASK_COUNT. TaskTable s' ! i = tick_task i (TaskTable s ! i)) \<and>
    TaskCount s' = TaskCount s - int (card {i. 0 < i \<and> i < MAX_TASK_COUNT \<and> state (TaskTable s ! i) = TASK_ZOMBIE}) \<and>
    heap_shrinks (s_mm s) (s_mm s') \<and>
    (\<forall>q. (\<forall>i. 0 < i \<and> i < MAX_TASK_COUNT \<and> state (TaskTable s ! i) = TASK_ZOMBIE \<longrightarrow> kstack (TaskTable s ! i) \<noteq> q) \<longrightarrow>
       kept (s_mm s) (s_mm s') q)"
  using housekeeping_upto [OF assms order_refl] by (auto simp: housekeeping_def)

section \<open>Choosing the next task\<close>

text \<open>The distance from the current slot to slot \<open>i\<close>, going round the table upwards.\<close>

definition ring_dist :: "int \<Rightarrow> nat \<Rightarrow> nat" where
  "ring_dist cur i = nat ((int i - cur - 1) mod int MAX_TASK_COUNT)"

lemma max_waiting_upto:
  "fold (\<lambda>i mp. if state (ts ! i) = TASK_WAITING \<and> mp < priority (ts ! i) then priority (ts ! i) else mp) [0..<n] (-1)
     = Max (insert (-1) {priority (ts ! i) |i. i < n \<and> state (ts ! i) = TASK_WAITING})"
proof (induction n)
  case (Suc n)
  let ?P = "{priority (ts ! i) |i. i < n \<and> state (ts ! i) = TASK_WAITING}"
  let ?Q = "{priority (ts ! i) |i. i < Suc n \<and> state (ts ! i) = TASK_WAITING}"
  have step: "Max (insert (-1) ?Q) =
      (if state (ts ! n) = TASK_WAITING \<and> Max (insert (-1) ?P) < priority (ts ! n) then priority (ts ! n) else Max (insert (-1) ?P))"
  proof (cases "state (ts ! n) = TASK_WAITING")
    case True
    then have "insert (-1) ?Q = insert (priority (ts ! n)) (insert (-1) ?P)" by (auto simp: less_Suc_eq)
    then have "Max (insert (-1) ?Q) = max (priority (ts ! n)) (Max (insert (-1) ?P))"
      by (simp only:) (rule Max_insert, simp_all)
    moreover have "max p M = (if M < p then p else M)" for p M :: int by (simp add: max_def)
    ultimately show ?thesis using True by (simp only: simp_thms)
  next
    case False
    then have "?Q = ?P" by (auto simp: less_Suc_eq)
    with False show ?thesis by simp
  qed
  show ?case unfolding upt_Suc_append [OF le0] fold_append comp_def step by (simp add: Suc)
qed simp

lemma max_waiting_facts:
  assumes "\<forall>i < MAX_TASK_COUNT. 0 \<le> priority (ts ! i)"
  shows "i < MAX_TASK_COUNT \<Longrightarrow> state (ts ! i) = TASK_WAITING \<Longrightarrow> priority (ts ! i) \<le> max_waiting ts"
    and "max_waiting ts = -1 \<longleftrightarrow> (\<forall>i < MAX_TASK_COUNT. state (ts ! i) \<noteq> TASK_WAITING)"
    and "max_waiting ts \<noteq> -1 \<Longrightarrow> \<exists>i < MAX_TASK_COUNT. state (ts ! i) = TASK_WAITING \<and> priority (ts ! i) = max_waiting ts"
proof -
  let ?P = "{priority (ts ! i) |i. i < MAX_TASK_COUNT \<and> state (ts ! i) = TASK_WAITING}"
  have m: "max_waiting ts = Max (insert (-1) ?P)"
    unfolding max_waiting_def by (rule max_waiting_upto)
  have fin: "finite (insert (-1) ?P)" by simp
  show ub: "priority (ts ! i) \<le> max_waiting ts" if "i < MAX_TASK_COUNT" "state (ts ! i) = TASK_WAITING" for i
    unfolding m using that by (intro Max_ge [OF fin]) auto
  have mem: "max_waiting ts \<in> insert (-1) ?P" unfolding m by (rule Max_in [OF fin]) simp
  show "max_waiting ts \<noteq> -1 \<Longrightarrow> \<exists>i < MAX_TASK_COUNT. state (ts ! i) = TASK_WAITING \<and> priority (ts ! i) = max_waiting ts"
    using mem by auto
  then show "max_waiting ts = -1 \<longleftrightarrow> (\<forall>i < MAX_TASK_COUNT. state (ts ! i) \<noteq> TASK_WAITING)"
    using ub assms by fastforce
qed

lemma ring_index:
  assumes "0 \<le> cur" and "cur < int MAX_TASK_COUNT" and "1 \<le> k" and "k \<le> MAX_TASK_COUNT"
  defines "i \<equiv> nat ((cur + int k) mod int MAX_TASK_COUNT)"
  shows "i < MAX_TASK_COUNT" "ring_dist cur i = k - 1"
proof -
  have b: "0 \<le> cur" "cur < 128" "1 \<le> k" "k \<le> 128" using assms by (simp_all add: MAX_TASK_COUNT_def)
  have i: "int i = (cur + int k) mod 128" by (simp add: i_def MAX_TASK_COUNT_def)
  then have "0 \<le> int i" "int i < 128" by simp_all
  then show "i < MAX_TASK_COUNT" by (simp add: MAX_TASK_COUNT_def)
  have "((cur + int k) mod 128 - (cur + 1)) mod 128 = (cur + int k - (cur + 1)) mod 128" by (rule mod_diff_left_eq)
  then have "(int i - cur - 1) mod 128 = (int k - 1) mod 128" by (simp add: i diff_diff_eq)
  also have "\<dots> = int k - 1" using b by (intro mod_pos_pos_trivial) simp_all
  finally have "(int i - cur - 1) mod 128 = int k - 1" .
  then show "ring_dist cur i = k - 1" using b by (simp add: ring_dist_def MAX_TASK_COUNT_def)
qed

lemma ring_surj:
  assumes "0 \<le> cur" and "cur < int MAX_TASK_COUNT" and "i < MAX_TASK_COUNT"
  shows "nat ((cur + int (ring_dist cur i + 1)) mod int MAX_TASK_COUNT) = i" "ring_dist cur i + 1 \<le> MAX_TASK_COUNT"
proof -
  have b: "0 \<le> cur" "cur < 128" "i < 128" using assms by (simp_all add: MAX_TASK_COUNT_def)
  have d: "int (ring_dist cur i) = (int i - cur - 1) mod 128" by (simp add: ring_dist_def MAX_TASK_COUNT_def)
  then have "int (ring_dist cur i) < 128" by simp
  then show "ring_dist cur i + 1 \<le> MAX_TASK_COUNT" by (simp add: MAX_TASK_COUNT_def)
  have "(cur + 1 + (int i - cur - 1) mod 128) mod 128 = (cur + 1 + (int i - cur - 1)) mod 128" by (rule mod_add_right_eq)
  also have "\<dots> = int i" using b by simp
  finally have "(cur + int (ring_dist cur i + 1)) mod 128 = int i" by (simp add: d add_ac)
  then show "nat ((cur + int (ring_dist cur i + 1)) mod int MAX_TASK_COUNT) = i" by (simp add: MAX_TASK_COUNT_def)
qed

lemma find_next_spec:
  assumes "0 \<le> cur" and "cur < int MAX_TASK_COUNT"
  shows "case find_next ts cur mp of
      Some n \<Rightarrow> n < MAX_TASK_COUNT \<and> state (ts ! n) = TASK_WAITING \<and> priority (ts ! n) = mp \<and>
        (\<forall>j < MAX_TASK_COUNT. state (ts ! j) = TASK_WAITING \<and> priority (ts ! j) = mp \<longrightarrow> ring_dist cur n \<le> ring_dist cur j)
    | None \<Rightarrow> \<forall>j < MAX_TASK_COUNT. \<not> (state (ts ! j) = TASK_WAITING \<and> priority (ts ! j) = mp)"
proof -
  let ?ix = "\<lambda>k. nat ((cur + int k) mod int MAX_TASK_COUNT)"
  let ?good = "\<lambda>k. state (ts ! ?ix k) = TASK_WAITING \<and> priority (ts ! ?ix k) = mp"
  have slot: "1 \<le> ring_dist cur j + 1" "ring_dist cur j + 1 \<le> MAX_TASK_COUNT" "?ix (ring_dist cur j + 1) = j"
    if "j < MAX_TASK_COUNT" for j
    using ring_surj [OF assms that] by simp_all
  show ?thesis
  proof (cases "find ?good [1..<MAX_TASK_COUNT + 1]")
    case None
    then have none: "\<not> ?good k" if "1 \<le> k" "k \<le> MAX_TASK_COUNT" for k
      using that unfolding find_None_iff by auto
    have "\<not> (state (ts ! j) = TASK_WAITING \<and> priority (ts ! j) = mp)" if "j < MAX_TASK_COUNT" for j
      using none [OF slot(1,2) [OF that]] slot(3) [OF that] by simp
    with None show ?thesis by (simp add: find_next_def Let_def)
  next
    case (Some k)
    then obtain m where m: "m < MAX_TASK_COUNT" "k = m + 1" "?good k" "\<forall>l < m. \<not> ?good (l + 1)"
      unfolding find_Some_iff by (auto simp del: upt_Suc)
    have k: "1 \<le> k" "k \<le> MAX_TASK_COUNT" using m by simp_all
    note ri = ring_index [OF assms k]
    have "ring_dist cur (?ix k) \<le> ring_dist cur j"
      if "j < MAX_TASK_COUNT" "state (ts ! j) = TASK_WAITING" "priority (ts ! j) = mp" for j
    proof (rule ccontr)
      assume "\<not> ring_dist cur (?ix k) \<le> ring_dist cur j"
      then have "ring_dist cur j < m" using ri(2) m(2) by simp
      then have "\<not> ?good (ring_dist cur j + 1)" using m(4) by blast
      then show False using that slot(3) [OF that(1)] by simp
    qed
    then show ?thesis using Some m(3) ri(1) by (simp add: find_next_def Let_def)
  qed
qed

definition picks :: "Task list \<Rightarrow> int \<Rightarrow> nat \<Rightarrow> bool" where
  "picks ts cur n \<longleftrightarrow> n < MAX_TASK_COUNT \<and> state (ts ! n) = TASK_WAITING \<and>
     (\<forall>j < MAX_TASK_COUNT. state (ts ! j) = TASK_WAITING \<longrightarrow> priority (ts ! j) \<le> priority (ts ! n) \<and>
        (priority (ts ! j) = priority (ts ! n) \<longrightarrow> ring_dist cur n \<le> ring_dist cur j))"

lemma next_pid_spec:
  assumes "sched_inv s"
  shows "\<exists>nx. next_pid s = Some nx \<and>
    (if \<exists>i < MAX_TASK_COUNT. state (TaskTable s ! i) = TASK_WAITING
     then \<exists>n. nx = Some n \<and> picks (TaskTable s) (CurrentTaskPID s) n
     else nx = (if state (TaskTable s ! nat (CurrentTaskPID s)) = TASK_RUNNING then None else Some 0))"
proof -
  note D = sched_invD [OF assms]
  have "\<forall>i < MAX_TASK_COUNT. 0 \<le> priority (TaskTable s ! i)" using D(6) prio_okD by blast
  note mw = max_waiting_facts [OF this]
  show ?thesis
  proof (cases "max_waiting (TaskTable s) = -1")
    case True
    then show ?thesis using mw(2) get_current [OF assms] by (auto simp: next_pid_def)
  next
    case False
    obtain i where i: "i < MAX_TASK_COUNT" "state (TaskTable s ! i) = TASK_WAITING" "priority (TaskTable s ! i) = max_waiting (TaskTable s)"
      using mw(3) [OF False] by blast
    have fs: "case find_next (TaskTable s) (CurrentTaskPID s) (max_waiting (TaskTable s)) of
      Some n \<Rightarrow> n < MAX_TASK_COUNT \<and> state (TaskTable s ! n) = TASK_WAITING \<and> priority (TaskTable s ! n) = max_waiting (TaskTable s) \<and>
        (\<forall>j < MAX_TASK_COUNT. state (TaskTable s ! j) = TASK_WAITING \<and> priority (TaskTable s ! j) = max_waiting (TaskTable s) \<longrightarrow>
           ring_dist (CurrentTaskPID s) n \<le> ring_dist (CurrentTaskPID s) j)
    | None \<Rightarrow> \<forall>j < MAX_TASK_COUNT. \<not> (state (TaskTable s ! j) = TASK_WAITING \<and> priority (TaskTable s ! j) = max_waiting (TaskTable s))"
      by (rule find_next_spec [OF D(2,3)])
    then obtain n where n: "find_next (TaskTable s) (CurrentTaskPID s) (max_waiting (TaskTable s)) = Some n"
      using i by (cases "find_next (TaskTable s) (CurrentTaskPID s) (max_waiting (TaskTable s))") auto
    have "picks (TaskTable s) (CurrentTaskPID s) n" using fs n mw(1) by (auto simp: picks_def)
    then show ?thesis using False n i by (auto simp: next_pid_def)
  qed
qed

lemma make_current_spec:
  assumes inv: "sched_inv s" and n: "n < MAX_TASK_COUNT" "int n \<noteq> CurrentTaskPID s"
    and alive: "state (TaskTable s ! n) \<noteq> TASK_EMPTY" "state (TaskTable s ! n) \<noteq> TASK_ZOMBIE"
  defines "c \<equiv> nat (CurrentTaskPID s)"
  shows "\<exists>s2. make_current n s = Some s2 \<and> sched_inv s2 \<and> s_mm s2 = s_mm s \<and> s_cpu s2 = s_cpu s \<and>
    scheduler_started s2 = scheduler_started s \<and>
    CurrentTaskPID s2 = int n \<and> TaskTable s2 ! n = (TaskTable s ! n)\<lparr>state := TASK_RUNNING\<rparr> \<and>
    TaskTable s2 ! c = (if state (TaskTable s ! c) = TASK_RUNNING then (TaskTable s ! c)\<lparr>state := TASK_WAITING\<rparr> else TaskTable s ! c) \<and>
    (\<forall>j. j \<noteq> n \<and> j \<noteq> c \<longrightarrow> TaskTable s2 ! j = TaskTable s ! j)"
proof -
  note D = sched_invD [OF inv]
  have c: "c < MAX_TASK_COUNT" "int c = CurrentTaskPID s" "c \<noteq> n" using D(2,3) n(2) by (auto simp: c_def)
  let ?t = "TaskTable s ! c" and ?u = "TaskTable s ! n"
  define t' where "t' = (if state ?t = TASK_RUNNING then ?t\<lparr>state := TASK_WAITING\<rparr> else ?t)"
  define s1 where "s1 = s\<lparr>TaskTable := (TaskTable s)[c := t']\<rparr>"
  have tp: "name t' = name ?t" "priority t' = priority ?t" "kstack t' = kstack ?t" "state t' \<noteq> TASK_RUNNING"
    by (auto simp: t'_def)
  have st: "state t' = TASK_EMPTY \<longleftrightarrow> state ?t = TASK_EMPTY" "state t' = TASK_ZOMBIE \<longleftrightarrow> state ?t = TASK_ZOMBIE"
    by (auto simp: t'_def)
  have len: "c < length (TaskTable s)" "n < length (TaskTable s)" using c(1) n(1) D(1) by simp_all
  have inv1: "sched_inv s1"
  proof (rule sched_inv_update [OF inv c(1) _ _ _ _ D(9)])
    show "stacks_ok ((TaskTable s)[c := t']) (s_mm s)"
      using tp st by (intro stacks_ok_update [OF D(10) len(1)]) auto
  qed (use tp st D(5,6) [OF c(1)] D(7,8) in \<open>auto simp: name_ok_def s1_def\<close>)
  have upd: "(if state ?t = TASK_RUNNING then put_task (CurrentTaskPID s) (?t\<lparr>state := TASK_WAITING\<rparr>) s else s) = s1"
    using len(1) by (auto simp: s1_def t'_def put_task_def c_def)
  have g1: "get_task s1 (int n) = Some ?u" using n(1) c(3) D(1) by (simp add: get_task_def s1_def)
  define s2 where "s2 = s1\<lparr>TaskTable := (TaskTable s1)[n := ?u\<lparr>state := TASK_RUNNING\<rparr>], CurrentTaskPID := int n\<rparr>"
  have "make_current n s = Some s2"
  proof -
    have gc: "get_task s (CurrentTaskPID s) = Some ?t" using get_current [OF inv] by (simp add: c_def)
    show ?thesis
      unfolding make_current_def gc Option.bind.simps Let_def upd g1
      by (simp add: s2_def put_task_def)
  qed
  moreover have "sched_inv s2"
  proof -
    note D1 = sched_invD [OF inv1]
    have none: "state (TaskTable s1 ! j) \<noteq> TASK_RUNNING" if "j < MAX_TASK_COUNT" for j
      using D(4) [OF that] tp(4) c len(1) by (cases "j = c") (auto simp: s1_def)
    have u1: "TaskTable s1 ! n = ?u" using c(3) by (simp add: s1_def)
    have len1: "n < length (TaskTable s1)" using D1(1) n(1) by simp
    have stk: "stacks_ok ((TaskTable s1)[n := ?u\<lparr>state := TASK_RUNNING\<rparr>]) (s_mm s1)"
      using alive u1 by (intro stacks_ok_update [OF D1(10) len1]) simp
    have cp: "CurrentTaskPID s2 = int n" by (simp add: s2_def)
    have nth: "TaskTable s2 ! j = (if j = n then ?u\<lparr>state := TASK_RUNNING\<rparr> else TaskTable s1 ! j)" for j
      using len1 by (simp add: s2_def)
    show ?thesis
      unfolding sched_inv_def
    proof (intro conjI allI impI)
      fix j assume j: "j < MAX_TASK_COUNT"
      show "int j = CurrentTaskPID s2" if "state (TaskTable s2 ! j) = TASK_RUNNING"
        using that none [OF j] cp by (auto simp: nth split: if_splits)
      show "name_ok (TaskTable s2 ! j)" "prio_ok (priority (TaskTable s2 ! j))"
        using D1(5,6) [OF j] D(5,6) [OF n(1)] by (auto simp: nth name_ok_def)
    next
      show "state (TaskTable s2 ! 0) \<noteq> TASK_EMPTY" "state (TaskTable s2 ! 0) \<noteq> TASK_ZOMBIE"
        using D1(7,8) by (auto simp: nth)
    qed (use D1(1,9) n(1) stk in \<open>simp_all add: s2_def\<close>)
  qed
  ultimately show ?thesis
    using c(3) len by (intro exI [of _ s2]) (auto simp: s2_def s1_def t'_def c_def [symmetric])
qed

section \<open>The stack in use\<close>

text \<open>The 56 bytes a context switch writes below the stack pointer hold no heap header.\<close>

definition stack_clear :: "cpu \<Rightarrow> mm \<Rightarrow> bool" where
  "stack_clear c h \<longleftrightarrow> 56 \<le> unat (rsp c) \<and>
     (\<forall>bs x. heap_inv h bs \<and> unat (rsp c) - 56 \<le> x \<and> x < unat (rsp c) \<longrightarrow>
        \<not> in_header (unat (heap_start h)) bs x)"

lemma stack_clear_own_block:
  assumes "heap_inv h bs" and "allocated h p n" and "unat p + 56 \<le> unat (rsp c)" and "unat (rsp c) \<le> unat p + n"
  shows "stack_clear c h"
  unfolding stack_clear_def
proof (intro conjI allI impI)
  show "56 \<le> unat (rsp c)" using assms(3) by simp
  fix cs x assume a: "heap_inv h cs \<and> unat (rsp c) - 56 \<le> x \<and> x < unat (rsp c)"
  then have "cs = bs" using heap_inv_unique assms(1) by blast
  have at: "block_at (unat p - sizeof_header) (unat (heap_start h)) bs = Some (n, False)"
    and le: "sizeof_header \<le> unat p" using allocated_iff [OF assms(1)] assms(2) by auto
  have "\<not> in_header (unat (heap_start h)) bs x"
    using a assms(3,4) le by (intro block_payload_not_header [OF at]) linarith+
  then show "\<not> in_header (unat (heap_start h)) cs x" by (simp add: \<open>cs = bs\<close>)
qed

lemma stack_clear_shrinks:
  assumes "stack_clear c h" and "heap_shrinks h h'" and "heap_ok h"
  shows "stack_clear c h'"
  unfolding stack_clear_def
proof (intro conjI allI impI)
  show "56 \<le> unat (rsp c)" using assms(1) by (simp add: stack_clear_def)
  fix cs x assume a: "heap_inv h' cs \<and> unat (rsp c) - 56 \<le> x \<and> x < unat (rsp c)"
  obtain bs where bs: "heap_inv h bs" using assms(3) by (auto simp: heap_ok_def)
  obtain bs' where b: "heap_inv h' bs'" "\<And>x. in_header (unat (heap_start h)) bs' x \<Longrightarrow> in_header (unat (heap_start h)) bs x"
    and st: "heap_start h' = heap_start h"
    using assms(2) bs unfolding heap_shrinks_def by blast
  have "cs = bs'" using heap_inv_unique a b(1) by blast
  moreover have "\<not> in_header (unat (heap_start h)) bs x" using assms(1) bs a by (auto simp: stack_clear_def)
  ultimately show "\<not> in_header (unat (heap_start h')) cs x" using b(2) st by auto
qed

lemma heap_unheadered_write:
  assumes "heap_inv h bs" and "\<And>x. in_header (unat (heap_start h)) bs (unat x) \<Longrightarrow> m' x = mm_mem h x"
  shows "heap_inv (h\<lparr>mm_mem := m'\<rparr>) bs" and "allocated (h\<lparr>mm_mem := m'\<rparr>) q k \<longleftrightarrow> allocated h q k"
proof -
  have "heap_list m' (unat (heap_start h)) bs = heap_list (mm_mem h) (unat (heap_start h)) bs"
    using assms by (intro heap_list_frame) (auto simp: heap_inv_def)
  with assms(1) show inv': "heap_inv (h\<lparr>mm_mem := m'\<rparr>) bs" by (simp add: heap_inv_def)
  show "allocated (h\<lparr>mm_mem := m'\<rparr>) q k \<longleftrightarrow> allocated h q k"
    using allocated_iff [OF assms(1)] allocated_iff [OF inv'] by simp
qed

lemma switch_to_spec:
  assumes inv: "sched_inv s" and p: "p < MAX_TASK_COUNT" and clear: "stack_clear (s_cpu s) (s_mm s)"
  shows "\<exists>s'. switch_to L (int p) nsp s = Some s' \<and> sched_inv s' \<and> CurrentTaskPID s' = CurrentTaskPID s \<and>
    scheduler_started s' = scheduler_started s \<and>
    TaskTable s' = (TaskTable s)[p := (TaskTable s ! p)\<lparr>t_rsp := rsp (s_cpu s) - 56\<rparr>] \<and>
    mm_mem (s_mm s') = snd (save_context (after_switch L) (s_cpu s) (mm_mem (s_mm s))) \<and>
    s_cpu s' = load_context nsp (mm_mem (s_mm s')) (s_cpu s)"
proof -
  note D = sched_invD [OF inv]
  let ?t = "TaskTable s ! p"
  obtain sp m where sv: "save_context (after_switch L) (s_cpu s) (mm_mem (s_mm s)) = (sp, m)" by force
  have sp: "sp = rsp (s_cpu s) - 56" by (rule save_context_words(1) [OF sv])
  have out: "same_outside (unat (rsp (s_cpu s)) - 56) (unat (rsp (s_cpu s))) (mm_mem (s_mm s)) m"
    using save_context_outside [of "s_cpu s" "mm_mem (s_mm s)" "after_switch L"] clear sv by (simp add: stack_clear_def)
  obtain bs where bs: "heap_inv (s_mm s) bs" using D(9) by (auto simp: heap_ok_def)
  have same: "m x = mm_mem (s_mm s) x" if "in_header (unat (heap_start (s_mm s))) bs (unat x)" for x
    using that clear bs out by (auto simp: stack_clear_def same_outside_def)
  note hw = heap_unheadered_write [OF bs same]
  let ?s' = "s\<lparr>TaskTable := (TaskTable s)[p := ?t\<lparr>t_rsp := sp\<rparr>], s_mm := (s_mm s)\<lparr>mm_mem := m\<rparr>,
    s_cpu := load_context nsp m (s_cpu s)\<rparr>"
  have run: "switch_to L (int p) nsp s = Some ?s'"
    using get_task_inv [OF inv p] sv by (simp add: switch_to_def Let_def put_task_def)
  have len: "p < length (TaskTable s)" using p D(1) by simp
  have "sched_inv ?s'"
  proof (rule sched_inv_update [OF inv p])
    show "heap_ok ((s_mm s)\<lparr>mm_mem := m\<rparr>)" using hw(1) by (auto simp: heap_ok_def)
    have "stacks_ok ((TaskTable s)[p := ?t\<lparr>t_rsp := sp\<rparr>]) (s_mm s)"
      by (intro stacks_ok_update [OF D(10) len]) auto
    then show "stacks_ok ((TaskTable s)[p := ?t\<lparr>t_rsp := sp\<rparr>]) ((s_mm s)\<lparr>mm_mem := m\<rparr>)"
      using hw(2) by (rule_tac stacks_ok_heap) auto
  qed (use D(4-8) p in \<open>auto simp: name_ok_def\<close>)
  then show ?thesis using run sp sv by (intro exI [of _ ?s']) simp
qed

section \<open>One call of Schedule\<close>

text \<open>\<open>schedule_post L s s1 sw s'\<close>: what one call from \<open>s\<close> does, \<open>s1\<close> being the state after
  the table was swept; \<open>chosen\<close> is the slot that is current afterwards.\<close>

definition chosen :: "Task list \<Rightarrow> int \<Rightarrow> int \<Rightarrow> bool" where
  "chosen ts cur new \<longleftrightarrow>
     (if \<exists>i < MAX_TASK_COUNT. state (ts ! i) = TASK_WAITING then 0 \<le> new \<and> picks ts cur (nat new)
      else new = (if state (ts ! nat cur) = TASK_RUNNING then cur else 0))"

definition schedule_post :: "labels \<Rightarrow> sched \<Rightarrow> sched \<Rightarrow> bool \<Rightarrow> sched \<Rightarrow> bool" where
  "schedule_post L s s1 sw s' \<longleftrightarrow>
     chosen (TaskTable s1) (CurrentTaskPID s) (CurrentTaskPID s') \<and>
     (sw \<longleftrightarrow> CurrentTaskPID s' \<noteq> CurrentTaskPID s) \<and>
     (if sw
      then state (TaskTable s' ! nat (CurrentTaskPID s')) = TASK_RUNNING \<and>
        t_rsp (TaskTable s' ! nat (CurrentTaskPID s)) = rsp (s_cpu s) - 56 \<and>
        state (TaskTable s' ! nat (CurrentTaskPID s)) =
          (if state (TaskTable s1 ! nat (CurrentTaskPID s)) = TASK_RUNNING then TASK_WAITING
           else state (TaskTable s1 ! nat (CurrentTaskPID s))) \<and>
        mm_mem (s_mm s') = snd (save_context (after_switch L) (s_cpu s) (mm_mem (s_mm s1))) \<and>
        s_cpu s' = load_context (t_rsp (TaskTable s1 ! nat (CurrentTaskPID s'))) (mm_mem (s_mm s')) (s_cpu s) \<and>
        (\<forall>j < MAX_TASK_COUNT. int j \<noteq> CurrentTaskPID s \<and> int j \<noteq> CurrentTaskPID s' \<longrightarrow> TaskTable s' ! j = TaskTable s1 ! j)
      else s' = s1)"

text \<open>The last part of \<^verbatim>\<open>Schedule\<close>: the task chosen is not the current one, which is switched away.\<close>

lemma Schedule_switches:
  assumes started: "scheduler_started s" and s1: "housekeeping s = Some s1" "sched_inv s1"
    and cur: "CurrentTaskPID s1 = CurrentTaskPID s" "s_cpu s1 = s_cpu s" "scheduler_started s1"
    and clear1: "stack_clear (s_cpu s1) (s_mm s1)" and nx: "next_pid s1 = Some (Some n)"
    and n: "n < MAX_TASK_COUNT" "state (TaskTable s1 ! n) \<noteq> TASK_EMPTY" "state (TaskTable s1 ! n) \<noteq> TASK_ZOMBIE"
    and choice: "chosen (TaskTable s1) (CurrentTaskPID s) (int n)" and other: "int n \<noteq> CurrentTaskPID s1"
  shows "\<exists>s'. Schedule L s = Some (True, s') \<and> sched_inv s' \<and> scheduler_started s' \<and> schedule_post L s s1 True s'"
proof -
  note D = sched_invD [OF s1(2)]
  define c where "c = nat (CurrentTaskPID s1)"
  have c: "c < MAX_TASK_COUNT" "int c = CurrentTaskPID s1" "c \<noteq> n" using D(2,3) other by (auto simp: c_def)
  obtain s2 where s2: "make_current n s1 = Some s2" "sched_inv s2" "s_mm s2 = s_mm s1" "s_cpu s2 = s_cpu s1"
    "scheduler_started s2 = scheduler_started s1"
    "CurrentTaskPID s2 = int n" "TaskTable s2 ! n = (TaskTable s1 ! n)\<lparr>state := TASK_RUNNING\<rparr>"
    "TaskTable s2 ! c = (if state (TaskTable s1 ! c) = TASK_RUNNING then (TaskTable s1 ! c)\<lparr>state := TASK_WAITING\<rparr> else TaskTable s1 ! c)"
    "\<forall>j. j \<noteq> n \<and> j \<noteq> c \<longrightarrow> TaskTable s2 ! j = TaskTable s1 ! j"
    using make_current_spec [OF s1(2) n(1) other n(2,3)] unfolding c_def by blast
  have clear2: "stack_clear (s_cpu s2) (s_mm s2)" using clear1 s2(3,4) by simp
  obtain s3 where s3: "switch_to L (int c) (t_rsp (TaskTable s2 ! n)) s2 = Some s3" "sched_inv s3" "CurrentTaskPID s3 = CurrentTaskPID s2"
    "scheduler_started s3 = scheduler_started s2"
    "TaskTable s3 = (TaskTable s2)[c := (TaskTable s2 ! c)\<lparr>t_rsp := rsp (s_cpu s2) - 56\<rparr>]"
    "mm_mem (s_mm s3) = snd (save_context (after_switch L) (s_cpu s2) (mm_mem (s_mm s2)))"
    "s_cpu s3 = load_context (t_rsp (TaskTable s2 ! n)) (mm_mem (s_mm s3)) (s_cpu s2)"
    using switch_to_spec [OF s2(2) c(1) clear2, of L "t_rsp (TaskTable s2 ! n)"] by (elim exE conjE) (rule that)
  have g: "get_task s2 (int n) = Some (TaskTable s2 ! n)" by (rule get_task_inv [OF s2(2) n(1)])
  have run: "Schedule L s = Some (True, s3)"
    using started s1(1) nx other s2(1) g s3(1) c(2) by (simp add: Schedule_def)
  have len: "c < length (TaskTable s2)" using sched_invD(1) [OF s2(2)] c(1) by simp
  have ix: "nat (CurrentTaskPID s) = c" "nat (CurrentTaskPID s3) = n" "CurrentTaskPID s3 = int n" "int c = CurrentTaskPID s"
    using c cur(1) s3(3) s2(6) by (simp_all add: c_def)
  have at: "TaskTable s3 ! j = TaskTable s2 ! j" if "j \<noteq> c" for j using that by (simp add: s3(5))
  have at_c: "t_rsp (TaskTable s3 ! c) = rsp (s_cpu s) - 56"
    "state (TaskTable s3 ! c) = (if state (TaskTable s1 ! c) = TASK_RUNNING then TASK_WAITING else state (TaskTable s1 ! c))"
    using len by (simp_all add: s3(5) s2(4,8) cur(2))
  have rn: "TaskTable s3 ! n = (TaskTable s1 ! n)\<lparr>state := TASK_RUNNING\<rparr>" using at [of n] c(3) s2(7) by simp
  have others: "\<forall>j < MAX_TASK_COUNT. int j \<noteq> CurrentTaskPID s \<and> int j \<noteq> CurrentTaskPID s3 \<longrightarrow> TaskTable s3 ! j = TaskTable s1 ! j"
    using at s2(9) ix by auto
  have "schedule_post L s s1 True s3"
    unfolding schedule_post_def ix if_True
    using choice others other cur(1,2) rn at_c s3(6,7) s2(3,4,7) ix(3) by simp
  then show ?thesis
    using run s3(2,4) s2(5) cur(3) by (intro exI [of _ s3]) simp
qed

lemma Schedule_result:
  assumes inv: "sched_inv s" and started: "scheduler_started s" and clear: "stack_clear (s_cpu s) (s_mm s)"
  shows "\<exists>s1 sw s'. housekeeping s = Some s1 \<and> sched_inv s1 \<and> Schedule L s = Some (sw, s') \<and> sched_inv s' \<and>
    scheduler_started s' \<and> schedule_post L s s1 sw s'"
proof -
  obtain s1 where s1: "housekeeping s = Some s1" "sched_inv s1" "same_control s s1" "heap_shrinks (s_mm s) (s_mm s1)"
    using housekeeping_result [OF inv] by blast
  note D = sched_invD [OF s1(2)]
  have cur: "CurrentTaskPID s1 = CurrentTaskPID s" "s_cpu s1 = s_cpu s" "scheduler_started s1" using s1(3) started by (auto simp: same_control_def)
  have clear1: "stack_clear (s_cpu s1) (s_mm s1)"
    using stack_clear_shrinks [OF clear s1(4) sched_invD(9) [OF inv]] cur(2) by simp
  obtain nx where nx: "next_pid s1 = Some nx"
    "if \<exists>i < MAX_TASK_COUNT. state (TaskTable s1 ! i) = TASK_WAITING
     then \<exists>n. nx = Some n \<and> picks (TaskTable s1) (CurrentTaskPID s1) n
     else nx = (if state (TaskTable s1 ! nat (CurrentTaskPID s1)) = TASK_RUNNING then None else Some 0)"
    using next_pid_spec [OF s1(2)] by blast
  show ?thesis
  proof (cases nx)
    case None
    then have "Schedule L s = Some (False, s1)" using started s1(1) nx(1) by (simp add: Schedule_def)
    moreover have "chosen (TaskTable s1) (CurrentTaskPID s) (CurrentTaskPID s)"
      using nx(2) None cur(1) by (auto simp: chosen_def split: if_splits)
    ultimately show ?thesis using s1(1,2) cur
      by (intro exI [of _ s1] exI [of _ False]) (simp add: schedule_post_def)
  next
    case (Some n)
    have n: "n < MAX_TASK_COUNT" "state (TaskTable s1 ! n) \<noteq> TASK_EMPTY" "state (TaskTable s1 ! n) \<noteq> TASK_ZOMBIE"
      using nx(2) Some D(7,8) by (auto simp: picks_def MAX_TASK_COUNT_def split: if_splits)
    have choice: "chosen (TaskTable s1) (CurrentTaskPID s) (int n)"
      using nx(2) Some cur(1) by (auto simp: chosen_def split: if_splits)
    show ?thesis
    proof (cases "int n = CurrentTaskPID s1")
      case True
      then have "Schedule L s = Some (False, s1)" using started s1(1) nx(1) Some by (simp add: Schedule_def)
      then show ?thesis using s1(1,2) cur True choice
        by (intro exI [of _ s1] exI [of _ False]) (simp add: schedule_post_def)
    next
      case False
      then show ?thesis
        using Schedule_switches [OF started s1(1,2) cur clear1 _ n choice False, of L] nx(1) Some s1(1,2) by auto
    qed
  qed
qed

section \<open>Every operation keeps the invariant\<close>

lemma stacks_ok_alloc:
  assumes ok: "stacks_ok ts h" and heap: "heap_ok h" and run: "kmalloc 4096 h = Some (stack, hs)"
    and i: "i < length ts" "state (ts ! i) = TASK_EMPTY" and t: "kstack t = stack"
  shows "stacks_ok (ts[i := t]) hs"
proof -
  have keep: "allocated hs q n \<and> q \<noteq> stack" if "allocated h q n" for q n
    using heap.alloc_keeps [OF heap run that] by simp
  have own: "\<exists>n\<ge>4096. allocated hs stack n" if "stack \<noteq> 0"
    using granted_stack(1) [OF heap run that] .
  show ?thesis
    unfolding stacks_ok_def length_list_update
  proof (intro conjI allI impI)
    fix j assume "j < length ts" "state (ts[i := t] ! j) \<noteq> TASK_EMPTY \<and> kstack (ts[i := t] ! j) \<noteq> 0"
    then show "\<exists>n\<ge>4096. allocated hs (kstack (ts[i := t] ! j)) n"
      using ok keep own t by (cases "j = i") (auto simp: stacks_ok_def, blast)
  next
    fix j k assume jk: "j < length ts" "k < length ts"
      "j \<noteq> k \<and> state (ts[i := t] ! j) \<noteq> TASK_EMPTY \<and> state (ts[i := t] ! k) \<noteq> TASK_EMPTY \<and> kstack (ts[i := t] ! j) \<noteq> 0"
    have other: "kstack (ts ! l) \<noteq> stack" if "l < length ts" "state (ts ! l) \<noteq> TASK_EMPTY" "kstack (ts ! l) \<noteq> 0" for l
      using ok keep that unfolding stacks_ok_def by blast
    show "kstack (ts[i := t] ! j) \<noteq> kstack (ts[i := t] ! k)"
    proof (cases "j = i")
      case True
      then show ?thesis using jk t i(1) other [of k] by (cases "kstack (ts ! k) = 0") auto
    next
      case False
      then show ?thesis using jk t i(1) other [of j] ok by (cases "k = i") (auto simp: stacks_ok_def)
    qed
  qed
qed

lemma CreateTask_inv:
  assumes inv: "sched_inv s" and nm: "terminated nm"
  shows "\<exists>r s'. CreateTask L nm task parent s = Some (r, s') \<and> sched_inv s' \<and> CurrentTaskPID s' = CurrentTaskPID s \<and>
    scheduler_started s' = scheduler_started s \<and>
    (\<forall>j. state (TaskTable s ! j) \<noteq> TASK_EMPTY \<longrightarrow> TaskTable s' ! j = TaskTable s ! j)"
proof -
  note D = sched_invD [OF inv]
  show ?thesis
  proof (cases "TaskCount s < int MAX_TASK_COUNT \<and> find_empty (TaskTable s) \<noteq> None")
    case False
    then show ?thesis using inv by (cases "TaskCount s < int MAX_TASK_COUNT") (auto simp: CreateTask_def)
  next
    case True
    then obtain i where i: "find_empty (TaskTable s) = Some i" "TaskCount s < int MAX_TASK_COUNT" by auto
    have len: "i < length (TaskTable s)" and emp: "state (TaskTable s ! i) = TASK_EMPTY" using i(1) by (auto simp: find_empty_Some)
    have others: "(TaskTable s)[i := t] ! j = TaskTable s ! j" if "state (TaskTable s ! j) \<noteq> TASK_EMPTY" for t j
      using that emp by (cases "j = i") auto
    have im: "i < MAX_TASK_COUNT" using len D(1) by simp
    have i0: "i \<noteq> 0" using emp D(7) by metis
    obtain stack hs where k: "kmalloc 4096 (s_mm s) = Some (stack, hs)" "heap_ok hs"
      using heap.alloc_total [OF D(9), of 4096] by auto
    obtain n where n: "strncpy (name (TaskTable s ! i)) nm (MAX_TASK_NAME - 1) = Some n" "length n = MAX_TASK_NAME" "n ! 31 = 0"
      using name_copy [OF D(5) [OF im] nm] by auto
    define t where "t = (TaskTable s ! i)\<lparr>pid := int i, ppid := parent, state := TASK_WAITING, priority := 1, name := n, kstack := stack\<rparr>"
    have stk: "stacks_ok ((TaskTable s)[i := t\<lparr>t_rsp := v\<rparr>]) hs" "stacks_ok ((TaskTable s)[i := t]) hs" for v
      by (rule stacks_ok_alloc [OF D(10,9) k(1) len emp], simp add: t_def)+
    have tn: "name_ok t" "prio_ok (priority t)" "state t = TASK_WAITING"
      using n by (simp_all add: name_ok_def prio_ok_def t_def)
    show ?thesis
    proof (cases "stack = 0")
      case True
      let ?s' = "s\<lparr>TaskTable := (TaskTable s)[i := t], s_mm := hs\<rparr>"
      have "CreateTask L nm task parent s = Some (err ENOMEM, ?s')"
        using i n(1) k(1) True by (simp add: CreateTask_def put_task_def Let_def t_def)
      moreover have "sched_inv ?s'"
        by (rule sched_inv_update [OF inv im tn(1,2) _ _ k(2) stk(2)]) (use tn(3) i0 in simp_all)
      ultimately show ?thesis using others by simp
    next
      case False
      note g = granted_stack [OF D(9) k(1) False]
      obtain sp m where f: "initial_frame L task (stack + 4096) (mm_mem hs) = (sp, m)" by force
      obtain l where l: "4096 \<le> l" "allocated hs stack l" using g(1) by auto
      have "same_outside (unat (stack + 4096) - 96) (unat (stack + 4096)) (mm_mem hs) m"
        using initial_frame_outside [of "stack + 4096" "mm_mem hs" L task] g(3) f by simp
      then have "same_outside (unat stack) (unat stack + l) (mm_mem hs) m"
        using g(3) l(1) by (elim same_outside_mono) simp_all
      note hw = heap_write_ok [OF k(2) l(2) this]
      let ?s' = "s\<lparr>TaskTable := (TaskTable s)[i := t\<lparr>t_rsp := sp\<rparr>], s_mm := hs\<lparr>mm_mem := m\<rparr>, TaskCount := TaskCount s + 1\<rparr>"
      have "CreateTask L nm task parent s = Some (int i, ?s')"
        using i n(1) k(1) False f by (simp add: CreateTask_def put_task_def Let_def t_def)
      moreover have "sched_inv ?s'"
      proof (rule sched_inv_update [OF inv im])
        show "stacks_ok ((TaskTable s)[i := t\<lparr>t_rsp := sp\<rparr>]) (hs\<lparr>mm_mem := m\<rparr>)"
          using hw(2) by (rule_tac stacks_ok_heap [OF stk(1)]) auto
      qed (use tn i0 hw(1) in \<open>simp_all add: name_ok_def\<close>)
      ultimately show ?thesis using others by simp
    qed
  qed
qed

text \<open>Between calls the current task is alive.\<close>

definition sched_ready :: "sched \<Rightarrow> bool" where
  "sched_ready s \<longleftrightarrow> sched_inv s \<and> scheduler_started s \<and>
     state (TaskTable s ! nat (CurrentTaskPID s)) \<noteq> TASK_EMPTY \<and>
     state (TaskTable s ! nat (CurrentTaskPID s)) \<noteq> TASK_ZOMBIE"

lemma Schedule_ready:
  assumes "sched_inv s" and "scheduler_started s" and "stack_clear (s_cpu s) (s_mm s)"
  shows "\<exists>s1 sw s'. housekeeping s = Some s1 \<and> Schedule L s = Some (sw, s') \<and> sched_ready s' \<and> schedule_post L s s1 sw s'"
proof -
  obtain s1 sw s' where r: "housekeeping s = Some s1" "Schedule L s = Some (sw, s')" "sched_inv s'" "scheduler_started s'"
    "schedule_post L s s1 sw s'"
    using Schedule_result [OF assms, of L] by blast
  let ?c = "nat (CurrentTaskPID s')"
  have "state (TaskTable s' ! ?c) \<noteq> TASK_EMPTY \<and> state (TaskTable s' ! ?c) \<noteq> TASK_ZOMBIE"
  proof (cases sw)
    case True
    then have "state (TaskTable s' ! ?c) = TASK_RUNNING" using r(5) by (simp add: schedule_post_def)
    then show ?thesis by simp
  next
    case False
    then have s': "s' = s1" "CurrentTaskPID s' = CurrentTaskPID s" and ch: "chosen (TaskTable s1) (CurrentTaskPID s) (CurrentTaskPID s')"
      using r(5) unfolding schedule_post_def by (simp_all only: if_False simp_thms)
    show ?thesis
    proof (cases "\<exists>i < MAX_TASK_COUNT. state (TaskTable s1 ! i) = TASK_WAITING")
      case True
      then have "state (TaskTable s1 ! ?c) = TASK_WAITING" using ch by (simp add: chosen_def picks_def)
      then show ?thesis by (simp add: s')
    next
      case False
      then have "state (TaskTable s1 ! ?c) = TASK_RUNNING \<or> CurrentTaskPID s' = 0"
        using ch s'(2) by (auto simp: chosen_def split: if_splits)
      then show ?thesis using sched_invD(7,8) [OF r(3)] by (auto simp: s'(1))
    qed
  qed
  with r show ?thesis by (auto simp: sched_ready_def)
qed

lemma put_alive_inv:
  assumes inv: "sched_inv s" and i: "i < MAX_TASK_COUNT" and alive: "state (TaskTable s ! i) \<noteq> TASK_EMPTY"
    and t: "name t = name (TaskTable s ! i)" "priority t = priority (TaskTable s ! i)" "kstack t = kstack (TaskTable s ! i)"
      "state t = TASK_SLEEPING \<or> state t = TASK_ZOMBIE \<and> i \<noteq> 0"
    and s': "TaskTable s' = (TaskTable s)[i := t]" "s_mm s' = s_mm s" "CurrentTaskPID s' = CurrentTaskPID s"
  shows "sched_inv s'"
proof -
  note D = sched_invD [OF inv]
  have len: "i < length (TaskTable s)" using i D(1) by simp
  have "stacks_ok ((TaskTable s)[i := t]) (s_mm s)"
    using alive t by (intro stacks_ok_update [OF D(10) len]) auto
  then show ?thesis
    using sched_inv_update [OF inv i _ _ _ _ D(9) _ s'] D(5,6) [OF i] t by (auto simp: name_ok_def)
qed

text \<open>\<^verbatim>\<open>ExitTask\<close> marks the current task and calls \<^verbatim>\<open>Schedule\<close>.\<close>

definition dying :: "int \<Rightarrow> sched \<Rightarrow> sched" where
  "dying code s = put_task (CurrentTaskPID s)
     ((TaskTable s ! nat (CurrentTaskPID s))\<lparr>state := TASK_ZOMBIE, ExitCode := code\<rparr>) (cli s)"

lemma dying_ok:
  assumes r: "sched_ready s" and ne: "CurrentTaskPID s \<noteq> 0"
  shows "sched_inv (dying code s)" "scheduler_started (dying code s)"
    "CurrentTaskPID (dying code s) = CurrentTaskPID s" "s_cpu (dying code s) = s_cpu s" "s_mm (dying code s) = s_mm s"
    "TaskTable (dying code s) ! nat (CurrentTaskPID s) =
      (TaskTable s ! nat (CurrentTaskPID s))\<lparr>state := TASK_ZOMBIE, ExitCode := code\<rparr>"
    "j \<noteq> nat (CurrentTaskPID s) \<Longrightarrow> TaskTable (dying code s) ! j = TaskTable s ! j"
    "ExitTask L code s = map_option (\<lambda>(sw, s'). (if sw then Switched else Spinning, s')) (Schedule L (dying code s))"
proof -
  have inv: "sched_inv s" and st: "scheduler_started s"
    and alive: "state (TaskTable s ! nat (CurrentTaskPID s)) \<noteq> TASK_EMPTY"
    using r by (auto simp: sched_ready_def)
  note D = sched_invD [OF inv]
  have c: "nat (CurrentTaskPID s) < MAX_TASK_COUNT" "nat (CurrentTaskPID s) \<noteq> 0" using D(2,3) ne by (auto simp: nat_less_iff)
  let ?t = "(TaskTable s ! nat (CurrentTaskPID s))\<lparr>state := TASK_ZOMBIE, ExitCode := code\<rparr>"
  show "sched_inv (dying code s)"
    by (rule put_alive_inv [OF inv c(1) alive, of ?t]) (use c(2) in \<open>simp_all add: dying_def cli_def put_task_def\<close>)
  show "scheduler_started (dying code s)" using st by (simp add: dying_def cli_def put_task_def)
  show "TaskTable (dying code s) ! nat (CurrentTaskPID s) = ?t" using c(1) D(1) by (simp add: dying_def cli_def put_task_def)
  have "get_task (cli s) (CurrentTaskPID s) = Some (TaskTable s ! nat (CurrentTaskPID s))"
    using get_current [OF inv] by (auto simp: get_task_def cli_def split: if_splits)
  moreover have "CurrentTaskPID (cli s) = CurrentTaskPID s" by (simp add: cli_def)
  ultimately show "ExitTask L code s = map_option (\<lambda>(sw, s'). (if sw then Switched else Spinning, s')) (Schedule L (dying code s))"
    using ne by (cases "Schedule L (dying code s)") (auto simp: ExitTask_def Let_def dying_def)
qed (simp_all add: dying_def cli_def put_task_def)

lemma ExitTask_ready:
  assumes r: "sched_ready s" and clear: "stack_clear (s_cpu s) (s_mm s)"
  shows "\<exists>fl s'. ExitTask L code s = Some (fl, s') \<and> sched_ready s' \<and>
    (if CurrentTaskPID s = 0 then fl = Returned (err EACCES) \<and> s' = sti s
     else fl = Switched \<and> (\<exists>s1. housekeeping (dying code s) = Some s1 \<and> schedule_post L (dying code s) s1 True s'))"
proof (cases "CurrentTaskPID s = 0")
  case True
  then show ?thesis using r by (auto simp: ExitTask_def cli_def sti_def sched_ready_def sched_inv_def)
next
  case False
  let ?c = "nat (CurrentTaskPID s)"
  note z = dying_ok [OF r False, where code = code]
  have c: "?c < MAX_TASK_COUNT" "?c \<noteq> 0"
    using r False sched_invD(2,3) [of s] by (auto simp: sched_ready_def nat_less_iff)
  have "stack_clear (s_cpu (dying code s)) (s_mm (dying code s))" using clear z by simp
  then obtain s1 sw s' where R: "housekeeping (dying code s) = Some s1" "Schedule L (dying code s) = Some (sw, s')" "sched_ready s'"
    "schedule_post L (dying code s) s1 sw s'"
    using Schedule_ready [OF z(1,2), of L] by blast
  have ch: "chosen (TaskTable s1) (CurrentTaskPID s) (CurrentTaskPID s')" and swc: "sw \<longleftrightarrow> CurrentTaskPID s' \<noteq> CurrentTaskPID s"
    using R(4) z(3) by (simp_all add: schedule_post_def)
  have "TaskTable s1 ! ?c = tick_task ?c (TaskTable (dying code s) ! ?c)" using housekeeping_result [OF z(1)] R(1) c(1) by auto
  then have dead: "state (TaskTable s1 ! ?c) = TASK_EMPTY" using c(2) z(6) by (simp add: tick_task_def zero_task_facts)
  have "CurrentTaskPID s' \<noteq> CurrentTaskPID s"
  proof
    assume eq: "CurrentTaskPID s' = CurrentTaskPID s"
    show False
    proof (cases "\<exists>i < MAX_TASK_COUNT. state (TaskTable s1 ! i) = TASK_WAITING")
      case True
      then show False using ch eq dead by (simp add: chosen_def picks_def)
    next
      case None: False
      have "CurrentTaskPID s' = 0"
        using ch dead unfolding chosen_def if_not_P [OF None] by simp
      then show False using eq False by simp
    qed
  qed
  then have sw: "sw" using swc by simp
  then have "ExitTask L code s = Some (Switched, s')" using z(8) R(2) by simp
  then show ?thesis using R(1,3,4) False sw by auto
qed

lemma KillTask_ready:
  assumes r: "sched_ready s" and clear: "stack_clear (s_cpu s) (s_mm s)"
  shows "\<exists>fl s'. KillTask L p s = Some (fl, s') \<and> sched_ready s' \<and>
    (if p \<le> 0 \<or> int MAX_TASK_COUNT \<le> p then fl = Returned (err EACCES) \<and> s' = s
     else if state (TaskTable s ! nat p) = TASK_EMPTY then fl = Returned (err ESRCH) \<and> s' = sti s
     else if p = CurrentTaskPID s then fl = Switched \<and> ExitTask L (-1) s = Some (fl, s')
     else fl = Returned 0 \<and> s' = sti (put_task p ((TaskTable s ! nat p)\<lparr>state := TASK_ZOMBIE, ExitCode := -1\<rparr>) s))"
proof (cases "p \<le> 0 \<or> int MAX_TASK_COUNT \<le> p")
  case True
  then show ?thesis using r by (simp add: KillTask_def)
next
  case False
  have inv: "sched_inv s" and st: "scheduler_started s" using r by (auto simp: sched_ready_def)
  note D = sched_invD [OF inv]
  have i: "nat p < MAX_TASK_COUNT" "int (nat p) = p" "nat p \<noteq> 0" using False by auto
  have g: "get_task (cli s) p = Some (TaskTable s ! nat p)"
    using get_task_inv [OF inv i(1)] i(2) by (auto simp: get_task_def cli_def split: if_splits)
  show ?thesis
  proof (cases "state (TaskTable s ! nat p) = TASK_EMPTY")
    case True
    then show ?thesis using False g r
      by (intro exI [of _ "Returned (err ESRCH)"] exI [of _ "sti s"])
        (auto simp: KillTask_def sched_ready_def sched_inv_def sti_def cli_def)
  next
    case alive: False
    show ?thesis
    proof (cases "p = CurrentTaskPID s")
      case True
      obtain fl s' where e: "ExitTask L (-1) s = Some (fl, s')" "sched_ready s'" "fl = Switched"
        using ExitTask_ready [OF r clear, of L "-1"] True False by auto
      have "ExitTask L (-1) (sti (cli s)) = ExitTask L (-1) s" by (simp add: ExitTask_def cli_def sti_def)
      then show ?thesis using False alive True g e
        by (intro exI [of _ fl] exI [of _ s']) (simp add: KillTask_def Let_def cli_def)
    next
      case other: False
      let ?t = "(TaskTable s ! nat p)\<lparr>state := TASK_ZOMBIE, ExitCode := -1\<rparr>"
      have run: "KillTask L p s = Some (Returned 0, sti (put_task p ?t s))"
        using False alive other g by (simp add: KillTask_def cli_def sti_def put_task_def)
      have "sched_inv (sti (put_task p ?t s))"
        by (rule put_alive_inv [OF inv i(1) alive, of ?t]) (use i(3) in \<open>simp_all add: sti_def put_task_def\<close>)
      moreover have "nat (CurrentTaskPID s) \<noteq> nat p" using other False D(2) by auto
      ultimately have "sched_ready (sti (put_task p ?t s))"
        using r by (auto simp: sched_ready_def sti_def put_task_def)
      then show ?thesis using False alive other run by simp
    qed
  qed
qed

text \<open>\<^verbatim>\<open>msleep\<close> marks the current task and calls \<^verbatim>\<open>Schedule\<close>.\<close>

definition asleep :: "u32 \<Rightarrow> sched \<Rightarrow> sched" where
  "asleep ms s = sti (put_task (CurrentTaskPID s)
     ((TaskTable s ! nat (CurrentTaskPID s))\<lparr>t_msleep := ucast (ms div 10), state := TASK_SLEEPING\<rparr>) s)"

lemma asleep_ok:
  assumes r: "sched_ready s"
  shows "sched_inv (asleep ms s)" "scheduler_started (asleep ms s)" "ms \<noteq> 0 \<Longrightarrow> msleep L ms s = Schedule L (asleep ms s)"
    "CurrentTaskPID (asleep ms s) = CurrentTaskPID s" "s_cpu (asleep ms s) = s_cpu s" "s_mm (asleep ms s) = s_mm s"
    "TaskTable (asleep ms s) ! nat (CurrentTaskPID s) =
      (TaskTable s ! nat (CurrentTaskPID s))\<lparr>t_msleep := ucast (ms div 10), state := TASK_SLEEPING\<rparr>"
    "j \<noteq> nat (CurrentTaskPID s) \<Longrightarrow> TaskTable (asleep ms s) ! j = TaskTable s ! j"
proof -
  have inv: "sched_inv s" and st: "scheduler_started s"
    and alive: "state (TaskTable s ! nat (CurrentTaskPID s)) \<noteq> TASK_EMPTY"
    using r by (auto simp: sched_ready_def)
  note D = sched_invD [OF inv]
  have c: "nat (CurrentTaskPID s) < MAX_TASK_COUNT" using D(2,3) by (simp add: nat_less_iff)
  let ?t = "(TaskTable s ! nat (CurrentTaskPID s))\<lparr>t_msleep := ucast (ms div 10), state := TASK_SLEEPING\<rparr>"
  show "sched_inv (asleep ms s)"
    by (rule put_alive_inv [OF inv c alive, of ?t]) (simp_all add: asleep_def sti_def put_task_def)
  show "scheduler_started (asleep ms s)" using st by (simp add: asleep_def sti_def put_task_def)
  have "get_task (cli s) (CurrentTaskPID s) = Some (TaskTable s ! nat (CurrentTaskPID s))"
    using get_current [OF inv] by (auto simp: get_task_def cli_def split: if_splits)
  then show "msleep L ms s = Schedule L (asleep ms s)" if "ms \<noteq> 0"
    using that get_current [OF inv] by (simp add: msleep_def asleep_def cli_def sti_def put_task_def)
  show "TaskTable (asleep ms s) ! nat (CurrentTaskPID s) = ?t"
    using c D(1) by (simp add: asleep_def sti_def put_task_def)
qed (simp_all add: asleep_def sti_def put_task_def)

lemma msleep_ready:
  assumes r: "sched_ready s" and clear: "stack_clear (s_cpu s) (s_mm s)" and ms: "ms \<noteq> 0"
  shows "\<exists>s1 sw s'. housekeeping (asleep ms s) = Some s1 \<and> msleep L ms s = Some (sw, s') \<and> sched_ready s' \<and>
    schedule_post L (asleep ms s) s1 sw s'"
  unfolding asleep_ok(3) [OF r ms]
  by (rule Schedule_ready) (use asleep_ok [OF r] clear in simp_all)

text \<open>The running task executes on its own stack block.\<close>

definition on_own_stack :: "sched \<Rightarrow> bool" where
  "on_own_stack s \<longleftrightarrow> (let k = kstack (TaskTable s ! nat (CurrentTaskPID s)) in k \<noteq> 0 \<and>
     unat k + 56 \<le> unat (rsp (s_cpu s)) \<and> unat (rsp (s_cpu s)) \<le> unat k + 4096)"

lemma name_ok_terminated: "name_ok t \<Longrightarrow> terminated (name t)"
  using nth_mem [of 31 "name t"] by (simp add: name_ok_def terminated_def MAX_TASK_NAME_def)

lemma TaskFork_inv:
  assumes inv: "sched_inv s" and alive: "state (TaskTable s ! nat (CurrentTaskPID s)) \<noteq> TASK_EMPTY" and own: "on_own_stack s"
  shows "\<exists>r s'. TaskFork L s = Some (r, s') \<and> sched_inv s' \<and> CurrentTaskPID s' = CurrentTaskPID s \<and>
    scheduler_started s' = scheduler_started s \<and>
    (\<forall>j. state (TaskTable s ! j) \<noteq> TASK_EMPTY \<longrightarrow> TaskTable s' ! j = TaskTable s ! j)"
proof (cases "find_empty (TaskTable s)")
  case None
  then show ?thesis using inv by (simp add: TaskFork_def cli_def sti_def sched_inv_def)
next
  case (Some i)
  note D = sched_invD [OF inv]
  let ?p = "TaskTable s ! nat (CurrentTaskPID s)"
  have len: "i < length (TaskTable s)" and emp: "state (TaskTable s ! i) = TASK_EMPTY" using Some by (auto simp: find_empty_Some)
  have im: "i < MAX_TASK_COUNT" using len D(1) by simp
  have i0: "i \<noteq> 0" using emp D(7) by metis
  have cm: "nat (CurrentTaskPID s) < MAX_TASK_COUNT" using D(2,3) by (simp add: nat_less_iff)
  have pk: "kstack ?p \<noteq> 0" "unat (kstack ?p) + 56 \<le> unat (rsp (s_cpu s))" "unat (rsp (s_cpu s)) \<le> unat (kstack ?p) + 4096"
    using own by (simp_all add: on_own_stack_def Let_def)
  obtain n where n: "4096 \<le> n" "allocated (s_mm s) (kstack ?p) n"
    using D(10) alive pk(1) cm D(1) by (auto simp: stacks_ok_def)
  have tp: "terminated (name ?p)" by (rule name_ok_terminated [OF D(5) [OF cm]])
  have gp: "get_task s (CurrentTaskPID s) = Some ?p" by (rule get_current [OF inv])
  obtain stack hs where k: "kmalloc 4096 (s_mm s) = Some (stack, hs)" "heap_ok hs"
    using heap.alloc_total [OF D(9), of 4096] by auto
  have others: "(TaskTable s)[i := t] ! j = TaskTable s ! j" if "state (TaskTable s ! j) \<noteq> TASK_EMPTY" for t j
    using that emp by (cases "j = i") auto
  show ?thesis
  proof (cases "stack = 0")
    case True
    obtain nm where nm: "strncpy (name (TaskTable s ! i)) (name ?p) (MAX_TASK_NAME - 1) = Some nm" "length nm = MAX_TASK_NAME" "nm ! 31 = 0"
      using name_copy [OF D(5) [OF im] tp] by auto
    define t where "t = (TaskTable s ! i)\<lparr>pid := int i, ppid := pid ?p, state := TASK_WAITING, priority := priority ?p,
      name := nm, kstack := stack\<rparr>"
    let ?s' = "s\<lparr>TaskTable := (TaskTable s)[i := t], s_mm := hs, if_flag := True\<rparr>"
    have "get_task (s\<lparr>if_flag := False\<rparr>) (CurrentTaskPID s) = Some ?p"
      using gp by (auto simp: get_task_def split: if_splits)
    then have "TaskFork L s = Some (err ENOMEM, ?s')"
      using Some nm(1) k(1) True by (simp add: TaskFork_def Let_def cli_def sti_def put_task_def t_def)
    moreover have "stacks_ok ((TaskTable s)[i := t]) hs"
      by (rule stacks_ok_alloc [OF D(10,9) k(1) len emp]) (simp add: t_def)
    then have "sched_inv ?s'"
      using sched_inv_update [OF inv im, of t hs ?s'] i0 k(2) D(6) [OF cm] nm(2,3) by (simp add: t_def name_ok_def)
    ultimately show ?thesis using others by simp
  next
    case False
    obtain nm sp m2 n' where r: "length nm = MAX_TASK_NAME" "nm ! 31 = 0"
      "TaskFork L s = Some (int i, s\<lparr>TaskTable := (TaskTable s)[i := (TaskTable s ! i)\<lparr>pid := int i, ppid := pid ?p,
        state := TASK_WAITING, priority := priority ?p, name := nm, kstack := stack, t_rsp := sp\<rparr>],
      TaskCount := TaskCount s + 1, s_mm := hs\<lparr>mm_mem := m2\<rparr>, if_flag := True\<rparr>)"
      "allocated hs stack n'" "same_outside (unat stack) (unat stack + n') (mm_mem hs) m2"
      using TaskFork_result [OF D(9) Some gp D(5) [OF im] tp k(1) False n(2,1) pk(2,3), of L] by blast
    define t where "t = (TaskTable s ! i)\<lparr>pid := int i, ppid := pid ?p,
        state := TASK_WAITING, priority := priority ?p, name := nm, kstack := stack, t_rsp := sp\<rparr>"
    let ?s' = "s\<lparr>TaskTable := (TaskTable s)[i := t],
      TaskCount := TaskCount s + 1, s_mm := hs\<lparr>mm_mem := m2\<rparr>, if_flag := True\<rparr>"
    note hw = heap_write_ok [OF k(2) r(4,5)]
    have "stacks_ok ((TaskTable s)[i := t]) hs"
      by (rule stacks_ok_alloc [OF D(10,9) k(1) len emp]) (simp add: t_def)
    then have "stacks_ok ((TaskTable s)[i := t]) (hs\<lparr>mm_mem := m2\<rparr>)"
      using hw(2) by (rule_tac stacks_ok_heap) auto
    then have "sched_inv ?s'"
      using sched_inv_update [OF inv im, of t "hs\<lparr>mm_mem := m2\<rparr>" ?s'] i0 hw(1) D(6) [OF cm] r(1,2) by (simp add: t_def name_ok_def)
    then show ?thesis using r(3) others by (simp add: t_def)
  qed
qed

lemma sched_init_ready:
  assumes "heap_ok (s_mm s)"
  shows "\<exists>s'. sched_init s = Some s' \<and> sched_ready s' \<and> CurrentTaskPID s' = 0 \<and> TaskCount s' = 1 \<and>
    (\<forall>i. 0 < i \<and> i < MAX_TASK_COUNT \<longrightarrow> TaskTable s' ! i = zero_task) \<and> s_mm s' = s_mm s \<and> s_cpu s' = s_cpu s"
proof -
  let ?d = "take 32 (cstr (c_str ''kernel_idle'') @ replicate 32 0)"
  have nm: "strncpy (replicate 32 0) (c_str ''kernel_idle'') 32 = Some ?d"
    using strncpy_spec [of 32 "replicate 32 0" "c_str ''kernel_idle''"] by (simp add: c_str_def terminated_def)
  have d: "length ?d = 32" "?d ! 31 = 0" by (simp_all add: c_str_def)
  let ?t = "zero_task\<lparr>state := TASK_RUNNING, name := ?d\<rparr>"
  let ?s' = "s\<lparr>TaskTable := (replicate MAX_TASK_COUNT zero_task)[0 := ?t], CurrentTaskPID := 0, TaskCount := 1, scheduler_started := True\<rparr>"
  have run: "sched_init s = Some ?s'"
    using nm by (simp add: sched_init_def zero_task_def MAX_TASK_NAME_def MAX_TASK_COUNT_def Let_def)
  define ts where "ts = (replicate MAX_TASK_COUNT zero_task)[0 := ?t]"
  have nth: "ts ! i = (if i = 0 then ?t else zero_task)" if "i < MAX_TASK_COUNT" for i
    using that by (simp add: ts_def nth_list_update)
  have len: "length ts = MAX_TASK_COUNT" by (simp add: ts_def)
  have entries: "name_ok (ts ! i)" "prio_ok (priority (ts ! i))" "kstack (ts ! i) = 0" "state (ts ! i) = TASK_RUNNING \<Longrightarrow> i = 0"
    if "i < MAX_TASK_COUNT" for i
    using nth [OF that] d by (auto simp: zero_task_def name_ok_def MAX_TASK_NAME_def prio_ok_def split: if_splits)
  have z: "state (ts ! 0) = TASK_RUNNING" using nth [of 0] by (simp add: MAX_TASK_COUNT_def)
  have "stacks_ok ts (s_mm s)"
    unfolding stacks_ok_def len using entries(3) by simp
  then have "sched_inv ?s'"
    unfolding ts_def [symmetric] sched_inv_def using len entries z assms
    by (simp add: MAX_TASK_COUNT_def)
  then have "sched_ready ?s'"
    unfolding ts_def [symmetric] sched_ready_def using z by simp
  then show ?thesis using run nth unfolding ts_def [symmetric] by (intro exI [of _ ?s']) (simp add: ts_def)
qed

section \<open>All interleavings\<close>

text \<open>One step of the system: a call of the current task into the scheduler, the heap used by the
  current task (not for the stacks), or the task running: any change of the processor, the interrupt flag, the
  tick counter and of memory outside the heap's headers. The flag says whether \<^verbatim>\<open>Schedule\<close> ran.\<close>

inductive sched_step :: "labels \<Rightarrow> bool \<Rightarrow> sched \<Rightarrow> sched \<Rightarrow> bool" for L where
  step_create: "terminated nm \<Longrightarrow> CreateTask L nm task parent s = Some (r, s') \<Longrightarrow> sched_step L False s s'"
| step_fork: "on_own_stack s \<Longrightarrow> TaskFork L s = Some (r, s') \<Longrightarrow> sched_step L False s s'"
| step_schedule: "stack_clear (s_cpu s) (s_mm s) \<Longrightarrow> Schedule L s = Some (sw, s') \<Longrightarrow> sched_step L True s s'"
| step_exit: "stack_clear (s_cpu s) (s_mm s) \<Longrightarrow> ExitTask L code s = Some (fl, s') \<Longrightarrow>
    sched_step L (fl = Switched) s s'"
| step_kill: "stack_clear (s_cpu s) (s_mm s) \<Longrightarrow> KillTask L p s = Some (fl, s') \<Longrightarrow>
    sched_step L (fl = Switched) s s'"
| step_msleep: "stack_clear (s_cpu s) (s_mm s) \<Longrightarrow> msleep L ms s = Some (sw, s') \<Longrightarrow> sched_step L (ms \<noteq> 0) s s'"
| step_run: "(\<And>bs x. heap_inv (s_mm s) bs \<Longrightarrow> in_header (unat (heap_start (s_mm s))) bs (unat x) \<Longrightarrow> m' x = mm_mem (s_mm s) x) \<Longrightarrow>
    sched_step L False s (s\<lparr>s_cpu := c, if_flag := f, ticks := t, s_mm := (s_mm s)\<lparr>mm_mem := m'\<rparr>\<rparr>)"
| step_kmalloc: "kmalloc n (s_mm s) = Some (p, h) \<Longrightarrow> sched_step L False s (s\<lparr>s_mm := h\<rparr>)"
| step_kfree: "allocated (s_mm s) p n \<Longrightarrow> \<forall>i < MAX_TASK_COUNT. state (TaskTable s ! i) \<noteq> TASK_EMPTY \<longrightarrow> kstack (TaskTable s ! i) \<noteq> p \<Longrightarrow>
    kfree p (s_mm s) = Some h \<Longrightarrow> sched_step L False s (s\<lparr>s_mm := h\<rparr>)"

lemma sched_inv_heap:
  assumes inv: "sched_inv s" and "heap_ok h"
    and "\<And>i n. i < MAX_TASK_COUNT \<Longrightarrow> state (TaskTable s ! i) \<noteq> TASK_EMPTY \<Longrightarrow> kstack (TaskTable s ! i) \<noteq> 0 \<Longrightarrow>
      allocated (s_mm s) (kstack (TaskTable s ! i)) n \<Longrightarrow> allocated h (kstack (TaskTable s ! i)) n"
    and s': "TaskTable s' = TaskTable s" "s_mm s' = h" "CurrentTaskPID s' = CurrentTaskPID s"
  shows "sched_inv s'"
proof -
  have "stacks_ok (TaskTable s) h"
    using assms(3) sched_invD(1) [OF inv] by (intro stacks_ok_heap [OF sched_invD(10) [OF inv]]) simp
  then show ?thesis using inv assms(2) s' by (simp add: sched_inv_def)
qed

text \<open>What every step that does not run \<^verbatim>\<open>Schedule\<close> does to the table: it keeps the current task,
  and a used slot changes only when it is killed.\<close>

definition table_kept :: "sched \<Rightarrow> sched \<Rightarrow> bool" where
  "table_kept s s' \<longleftrightarrow> CurrentTaskPID s' = CurrentTaskPID s \<and>
     (\<forall>j. state (TaskTable s ! j) \<noteq> TASK_EMPTY \<longrightarrow> TaskTable s' ! j = TaskTable s ! j \<or> state (TaskTable s' ! j) = TASK_ZOMBIE)"

text \<open>A step that runs \<^verbatim>\<open>Schedule\<close> does so from a state \<open>z\<close> that differs from the old one in the slot of
  the current task only.\<close>

definition dispatches :: "labels \<Rightarrow> sched \<Rightarrow> sched \<Rightarrow> bool" where
  "dispatches L s s' \<longleftrightarrow> (\<exists>z s1 sw. sched_inv z \<and> CurrentTaskPID z = CurrentTaskPID s \<and>
     (\<forall>j. j \<noteq> nat (CurrentTaskPID s) \<longrightarrow> TaskTable z ! j = TaskTable s ! j) \<and>
     housekeeping z = Some s1 \<and> schedule_post L z s1 sw s')"

lemma sched_step_result:
  assumes "sched_step L b s s'" and r: "sched_ready s"
  shows "sched_ready s' \<and> (if b then dispatches L s s' else table_kept s s')"
proof -
  have inv: "sched_inv s" and st: "scheduler_started s"
    and alive: "state (TaskTable s ! nat (CurrentTaskPID s)) \<noteq> TASK_EMPTY" "state (TaskTable s ! nat (CurrentTaskPID s)) \<noteq> TASK_ZOMBIE"
    using r by (auto simp: sched_ready_def)
  note D = sched_invD [OF inv]
  have quiet: "sched_ready t \<and> table_kept s t"
    if "sched_inv t" "CurrentTaskPID t = CurrentTaskPID s" "scheduler_started t = scheduler_started s"
      "\<forall>j. state (TaskTable s ! j) \<noteq> TASK_EMPTY \<longrightarrow> TaskTable t ! j = TaskTable s ! j" for t
    using that st alive by (auto simp: sched_ready_def table_kept_def)
  have exits: "sched_ready t \<and> (if fl = Switched then dispatches L s t else table_kept s t)"
    if clear: "stack_clear (s_cpu s) (s_mm s)" and run: "ExitTask L code s = Some (fl, t)" for code fl t
  proof (cases "CurrentTaskPID s = 0")
    case True
    then show ?thesis using ExitTask_ready [OF r clear, of L code] run by (auto simp: table_kept_def sti_def)
  next
    case False
    note z = dying_ok [OF r False, where code = code]
    show ?thesis
      using ExitTask_ready [OF r clear, of L code] run False z(1,3,7) unfolding dispatches_def by auto
  qed
  from assms(1) show ?thesis
  proof cases
    case (step_create nm task parent x)
    then show ?thesis using CreateTask_inv [OF inv step_create(2), of L task parent] quiet by auto
  next
    case (step_fork x)
    then show ?thesis using TaskFork_inv [OF inv alive(1) step_fork(2), of L] quiet by auto
  next
    case (step_schedule sw)
    then show ?thesis using Schedule_ready [OF inv st step_schedule(2), of L] inv by (auto simp: dispatches_def)
  next
    case (step_exit code fl)
    then show ?thesis using exits by auto
  next
    case (step_kill p fl)
    then show ?thesis
      using KillTask_ready [OF r step_kill(2), of L p] exits [OF step_kill(2)] D(1)
      by (auto simp: table_kept_def sti_def put_task_def nth_list_update split: if_splits)
  next
    case (step_msleep ms sw)
    show ?thesis
    proof (cases "ms = 0")
      case True
      then show ?thesis using step_msleep r by (simp add: msleep_def table_kept_def)
    next
      case False
      note z = asleep_ok [OF r, where ms = ms]
      show ?thesis
        using msleep_ready [OF r step_msleep(2) False, of L] step_msleep(1,3) False z(1,4,8) unfolding dispatches_def by auto
    qed
  next
    case (step_run m' c f t)
    obtain bs where bs: "heap_inv (s_mm s) bs" using D(9) by (auto simp: heap_ok_def)
    note hw = heap_unheadered_write [OF bs step_run(3) [OF bs]]
    have "sched_inv s'"
      by (rule sched_inv_heap [OF inv, of "(s_mm s)\<lparr>mm_mem := m'\<rparr>"]) (use hw step_run(2) in \<open>auto simp: heap_ok_def\<close>)
    then show ?thesis using quiet step_run(1,2) by simp
  next
    case (step_kmalloc n p h)
    have "sched_inv s'"
      by (rule sched_inv_heap [OF inv heap.ok_alloc [OF D(9) step_kmalloc(3)]])
        (use heap.alloc_keeps [OF D(9) step_kmalloc(3)] step_kmalloc(2) in auto)
    then show ?thesis using quiet step_kmalloc(1,2) by simp
  next
    case (step_kfree p n h)
    have "sched_inv s'"
      by (rule sched_inv_heap [OF inv heap.ok_release [OF D(9) step_kfree(3,5)]])
        (use heap.release_keeps [OF D(9) step_kfree(3,5)] step_kfree(2,4) in auto)
    then show ?thesis using quiet step_kfree(1,2) by simp
  qed
qed

section \<open>Waiting for the processor\<close>

definition waiting :: "nat \<Rightarrow> sched \<Rightarrow> bool" where
  "waiting j s \<longleftrightarrow> j < MAX_TASK_COUNT \<and> state (TaskTable s ! j) = TASK_WAITING \<and> CurrentTaskPID s \<noteq> int j"

text \<open>\<open>waits L j s n s'\<close>: steps lead from \<open>s\<close> to \<open>s'\<close> with task \<open>j\<close> waiting all along, and \<^verbatim>\<open>Schedule\<close>
  ran \<open>n\<close> times.\<close>

inductive waits :: "labels \<Rightarrow> nat \<Rightarrow> sched \<Rightarrow> nat \<Rightarrow> sched \<Rightarrow> bool" for L j s where
  waits_refl: "waiting j s \<Longrightarrow> waits L j s 0 s"
| waits_step: "waits L j s n s' \<Longrightarrow> sched_step L b s' s'' \<Longrightarrow> waiting j s'' \<Longrightarrow>
    waits L j s (if b then Suc n else n) s''"

lemma ring_dist_step:
  assumes "0 \<le> cur" and "cur < int MAX_TASK_COUNT" and "n < MAX_TASK_COUNT" and "j < MAX_TASK_COUNT"
    and "n \<noteq> j" and "ring_dist cur n \<le> ring_dist cur j"
  shows "ring_dist (int n) j < ring_dist cur j"
proof -
  define d where "d k = (int k - cur - 1) mod 128" for k
  have b: "0 \<le> d n" "d n < 128" "0 \<le> d j" "d j < 128" by (simp_all add: d_def)
  have le: "d n \<le> d j" using assms(6) b by (simp add: ring_dist_def MAX_TASK_COUNT_def d_def [symmetric])
  have "d n \<noteq> d j"
  proof
    assume "d n = d j"
    then have "(int n - cur - 1 + (cur + 1)) mod 128 = (int j - cur - 1 + (cur + 1)) mod 128"
      unfolding d_def by (intro mod_add_cong) simp_all
    then have "int n mod 128 = int j mod 128" by simp
    then show False using assms(3-5) by (simp add: MAX_TASK_COUNT_def)
  qed
  then have lt: "d n < d j" using le by simp
  have "(int j - int n - 1) mod 128 = (d j - d n - 1) mod 128"
  proof -
    have "(d j - d n) mod 128 = ((int j - cur - 1) - (int n - cur - 1)) mod 128" unfolding d_def by (rule mod_diff_eq)
    then have "(d j - d n) mod 128 = (int j - int n) mod 128" by simp
    then show ?thesis by (metis mod_diff_left_eq)
  qed
  also have "\<dots> = d j - d n - 1" using lt b by (intro mod_pos_pos_trivial) linarith+
  finally show ?thesis using b lt by (simp add: ring_dist_def MAX_TASK_COUNT_def d_def [symmetric])
qed

lemma dispatch_progress:
  assumes "dispatches L s s'" and w: "waiting j s" and one: "priority (TaskTable s ! j) = 1" and w': "waiting j s'"
  shows "TaskTable s' ! j = TaskTable s ! j" and "ring_dist (CurrentTaskPID s') j < ring_dist (CurrentTaskPID s) j"
proof -
  obtain z s1 sw where z: "sched_inv z" "CurrentTaskPID z = CurrentTaskPID s" "housekeeping z = Some s1"
    "schedule_post L z s1 sw s'" and tz: "j \<noteq> nat (CurrentTaskPID s) \<Longrightarrow> TaskTable z ! j = TaskTable s ! j"
    using assms(1) unfolding dispatches_def by blast
  have j: "j < MAX_TASK_COUNT" "state (TaskTable s ! j) = TASK_WAITING" "CurrentTaskPID s \<noteq> int j" "CurrentTaskPID s' \<noteq> int j"
    using w w' by (auto simp: waiting_def)
  have nz: "j \<noteq> nat (CurrentTaskPID s)" using j(3) sched_invD(2) [OF z(1)] z(2) by auto
  have inv1: "sched_inv s1" and t1: "TaskTable s1 ! j = tick_task j (TaskTable z ! j)"
    using housekeeping_result [OF z(1)] z(3) j(1) by auto
  have tj: "TaskTable s1 ! j = TaskTable s ! j" using t1 tz [OF nz] j(2) by (simp add: tick_task_def)
  have "\<exists>i < MAX_TASK_COUNT. state (TaskTable s1 ! i) = TASK_WAITING" using tj j(1,2) by auto
  then have p: "0 \<le> CurrentTaskPID s'" "picks (TaskTable s1) (CurrentTaskPID s) (nat (CurrentTaskPID s'))"
    using z(4) z(2) by (simp_all add: schedule_post_def chosen_def)
  let ?n = "nat (CurrentTaskPID s')"
  have n: "?n < MAX_TASK_COUNT" "priority (TaskTable s1 ! j) \<le> priority (TaskTable s1 ! ?n)"
    "priority (TaskTable s1 ! j) = priority (TaskTable s1 ! ?n) \<Longrightarrow> ring_dist (CurrentTaskPID s) ?n \<le> ring_dist (CurrentTaskPID s) j"
    using p(2) tj j(1,2) by (auto simp: picks_def)
  have "priority (TaskTable s1 ! ?n) \<le> 1" using prio_okD sched_invD(6) [OF inv1 n(1)] by blast
  then have le: "ring_dist (CurrentTaskPID s) ?n \<le> ring_dist (CurrentTaskPID s) j" using n(2,3) tj one by simp
  have cur: "0 \<le> CurrentTaskPID s" "CurrentTaskPID s < int MAX_TASK_COUNT" using sched_invD(2,3) [OF z(1)] z(2) by simp_all
  have ne: "?n \<noteq> j" using j(4) p(1) by auto
  have "ring_dist (int ?n) j < ring_dist (CurrentTaskPID s) j"
    by (rule ring_dist_step [OF cur n(1) j(1) ne le])
  then show lt: "ring_dist (CurrentTaskPID s') j < ring_dist (CurrentTaskPID s) j" using p(1) by simp
  then have sw: "sw" using z(4) z(2) by (auto simp: schedule_post_def)
  have "\<forall>i < MAX_TASK_COUNT. int i \<noteq> CurrentTaskPID z \<and> int i \<noteq> CurrentTaskPID s' \<longrightarrow> TaskTable s' ! i = TaskTable s1 ! i"
    using z(4) sw unfolding schedule_post_def by simp
  then have "TaskTable s' ! j = TaskTable s1 ! j" using j(1,3,4) z(2) by metis
  then show "TaskTable s' ! j = TaskTable s ! j" by (simp add: tj)
qed

lemma waits_bound:
  assumes "waits L j s n s'" and "sched_ready s" and "priority (TaskTable s ! j) = 1"
  shows "sched_ready s' \<and> waiting j s' \<and> priority (TaskTable s' ! j) = 1 \<and>
    n + ring_dist (CurrentTaskPID s') j \<le> ring_dist (CurrentTaskPID s) j"
  using assms
proof induction
  case waits_refl
  then show ?case by simp
next
  case (waits_step n s' b s'')
  then have IH: "sched_ready s'" "waiting j s'" "priority (TaskTable s' ! j) = 1"
    "n + ring_dist (CurrentTaskPID s') j \<le> ring_dist (CurrentTaskPID s) j" by auto
  have r: "sched_ready s''" "if b then dispatches L s' s'' else table_kept s' s''"
    using sched_step_result [OF waits_step.hyps(2) IH(1)] by auto
  show ?case
  proof (cases b)
    case True
    then have "dispatches L s' s''" using r(2) by simp
    from dispatch_progress [OF this IH(2,3) waits_step.hyps(3)] show ?thesis
      using r(1) waits_step.hyps(3) IH True by simp
  next
    case False
    then have "table_kept s' s''" using r(2) by simp
    moreover have "state (TaskTable s' ! j) \<noteq> TASK_EMPTY" "state (TaskTable s'' ! j) \<noteq> TASK_ZOMBIE"
      using IH(2) waits_step.hyps(3) by (simp_all add: waiting_def)
    ultimately have "CurrentTaskPID s'' = CurrentTaskPID s'" "TaskTable s'' ! j = TaskTable s' ! j"
      unfolding table_kept_def by blast+
    then show ?thesis using r(1) waits_step.hyps(3) IH False by simp
  qed
qed

section \<open>Properties\<close>

lemma example_sched_ready: "sched_ready example_sched"
proof -
  have nth: "TaskTable example_sched ! i = (if i = 0 then zero_task\<lparr>state := TASK_RUNNING\<rparr> else zero_task)" if "i < MAX_TASK_COUNT" for i
    using that by (cases i) (simp_all add: example_sched_def MAX_TASK_COUNT_def)
  have len: "length (TaskTable example_sched) = MAX_TASK_COUNT" by (simp add: example_sched_def MAX_TASK_COUNT_def)
  have entries: "name_ok (TaskTable example_sched ! i)" "prio_ok (priority (TaskTable example_sched ! i))"
    "kstack (TaskTable example_sched ! i) = 0" "state (TaskTable example_sched ! i) = TASK_RUNNING \<Longrightarrow> i = 0" if "i < MAX_TASK_COUNT" for i
    using nth [OF that] by (auto simp: zero_task_def name_ok_def MAX_TASK_NAME_def prio_ok_def split: if_splits)
  have z: "state (TaskTable example_sched ! 0) = TASK_RUNNING" "CurrentTaskPID example_sched = 0" "scheduler_started example_sched"
    by (simp_all add: example_sched_def)
  have "stacks_ok (TaskTable example_sched) (s_mm example_sched)" unfolding stacks_ok_def len using entries(3) by simp
  moreover have "heap_ok (s_mm example_sched)" using example_sched_heap by (auto simp: heap_ok_def)
  ultimately show ?thesis
    unfolding sched_ready_def sched_inv_def using len entries z by (simp add: MAX_TASK_COUNT_def)
qed

lemma example_sched_clear: "stack_clear (s_cpu example_sched) (s_mm example_sched)"
proof -
  have h: "heap_start (s_mm example_sched) = 0x1000" "rsp (s_cpu example_sched) = 0x8000"
    by (simp_all add: example_sched_def example_cpu_def)
  have "\<not> in_header 0x1000 [(0x10000, True)] x" if "0x8000 - 56 \<le> x" for x
    using that by (simp add: in_header_def sizeof_header_def)
  then show ?thesis using heap_inv_unique [OF example_sched_heap] unfolding stack_clear_def h by fastforce
qed

text \<open>The sweep at the head of \<^verbatim>\<open>Schedule\<close>. Every zombie other than slot 0 becomes an empty slot and is
  subtracted from the count; every sleeper is counted down and wakes when its counter reaches 0; no other
  slot changes. Only stacks of zombies are freed: every other block of the heap keeps its place and content. A sleeper's
  counter is in calls of \<^verbatim>\<open>Schedule\<close>, whoever makes them.\<close>

theorem housekeeping_effect:
  assumes "sched_inv s"
  shows "\<exists>s'. housekeeping s = Some s' \<and> sched_inv s' \<and> CurrentTaskPID s' = CurrentTaskPID s \<and>
    (\<forall>i < MAX_TASK_COUNT. TaskTable s' ! i = (let t = TaskTable s ! i in
       if 0 < i \<and> state t = TASK_ZOMBIE then zero_task
       else if state t = TASK_SLEEPING
       then t\<lparr>t_msleep := (if t_msleep t = 0 then 0 else t_msleep t - 1),
              state := (if t_msleep t \<le> 1 then TASK_WAITING else TASK_SLEEPING)\<rparr>
       else t)) \<and>
    TaskCount s' = TaskCount s - int (card {i. 0 < i \<and> i < MAX_TASK_COUNT \<and> state (TaskTable s ! i) = TASK_ZOMBIE}) \<and>
    (\<forall>q n. allocated (s_mm s) q n \<and>
       (\<forall>i. 0 < i \<and> i < MAX_TASK_COUNT \<and> state (TaskTable s ! i) = TASK_ZOMBIE \<longrightarrow> kstack (TaskTable s ! i) \<noteq> q) \<longrightarrow>
       allocated (s_mm s') q n \<and> (\<forall>k < n. mm_mem (s_mm s') (q + of_nat k) = mm_mem (s_mm s) (q + of_nat k)))"
proof -
  obtain s' where h: "housekeeping s = Some s'" "sched_inv s'" "same_control s s'"
    "\<And>i. i < MAX_TASK_COUNT \<Longrightarrow> TaskTable s' ! i = tick_task i (TaskTable s ! i)"
    "TaskCount s' = TaskCount s - int (card {i. 0 < i \<and> i < MAX_TASK_COUNT \<and> state (TaskTable s ! i) = TASK_ZOMBIE})"
    "\<And>q. (\<forall>i. 0 < i \<and> i < MAX_TASK_COUNT \<and> state (TaskTable s ! i) = TASK_ZOMBIE \<longrightarrow> kstack (TaskTable s ! i) \<noteq> q) \<Longrightarrow>
       kept (s_mm s) (s_mm s') q"
    using housekeeping_result [OF assms] by blast
  have cur: "CurrentTaskPID s' = CurrentTaskPID s" using h(3) by (simp add: same_control_def)
  show ?thesis
  proof (intro exI [of _ s'] conjI h(1,2,5) cur allI impI)
    fix i assume "i < MAX_TASK_COUNT"
    then show "TaskTable s' ! i = (let t = TaskTable s ! i in
       if 0 < i \<and> state t = TASK_ZOMBIE then zero_task
       else if state t = TASK_SLEEPING
       then t\<lparr>t_msleep := (if t_msleep t = 0 then 0 else t_msleep t - 1),
              state := (if t_msleep t \<le> 1 then TASK_WAITING else TASK_SLEEPING)\<rparr>
       else t)"
      by (simp only: h(4) tick_task_def Let_def)
  next
    fix q n assume a: "allocated (s_mm s) q n \<and>
       (\<forall>i. 0 < i \<and> i < MAX_TASK_COUNT \<and> state (TaskTable s ! i) = TASK_ZOMBIE \<longrightarrow> kstack (TaskTable s ! i) \<noteq> q)"
    then have k: "allocated (s_mm s') q n \<and> (\<forall>k < n. mm_mem (s_mm s') (q + of_nat k) = mm_mem (s_mm s) (q + of_nat k))"
      using h(6) [OF conjunct2 [OF a]] unfolding kept_def by blast
    show "allocated (s_mm s') q n" by (rule conjunct1 [OF k])
    show "mm_mem (s_mm s') (q + of_nat i) = mm_mem (s_mm s) (q + of_nat i)" if "i < n" for i using k that by blast
  qed
qed

theorem housekeeping_effect_witness:
  "\<exists>s'. housekeeping example_sched = Some s' \<and> TaskTable s' ! 5 = zero_task"
proof -
  have inv: "sched_inv example_sched" using example_sched_ready by (simp add: sched_ready_def)
  have t: "TaskTable example_sched ! 5 = zero_task" by (simp add: example_sched_def)
  obtain s' where h: "housekeeping example_sched = Some s'"
    and all: "\<forall>i < MAX_TASK_COUNT. TaskTable s' ! i = (let t = TaskTable example_sched ! i in
       if 0 < i \<and> state t = TASK_ZOMBIE then zero_task
       else if state t = TASK_SLEEPING
       then t\<lparr>t_msleep := (if t_msleep t = 0 then 0 else t_msleep t - 1),
              state := (if t_msleep t \<le> 1 then TASK_WAITING else TASK_SLEEPING)\<rparr>
       else t)"
    using housekeeping_effect [OF inv] by (elim exE conjE) (rule that)
  have "TaskTable s' ! 5 = zero_task" using all [rule_format, of 5] t by (simp add: MAX_TASK_COUNT_def zero_task_facts)
  with h show ?thesis by blast
qed

text \<open>C16: Dispatching. After the sweep \<^verbatim>\<open>Schedule\<close> gives the processor to a waiting task of the highest
  priority, among those to the first one behind the current slot going round the table; with no task waiting the
  current one goes on if it is running, else the idle task is resumed. The processor is switched exactly when
  the current task changes: its registers are saved on its own stack and the stack pointer in its slot, it waits again if it was running,
  those of the new task are loaded from its saved stack, it is marked running, and the other slots stay.\<close>

theorem Schedule_dispatch:
  assumes "sched_inv s" and "scheduler_started s" and "stack_clear (s_cpu s) (s_mm s)"
  shows "\<exists>s1 sw s'. housekeeping s = Some s1 \<and> Schedule L s = Some (sw, s') \<and> sched_ready s' \<and>
    (let cur = CurrentTaskPID s; new = CurrentTaskPID s'; ts = TaskTable s1 in
     (if \<exists>i < MAX_TASK_COUNT. state (ts ! i) = TASK_WAITING
      then state (ts ! nat new) = TASK_WAITING \<and>
        (\<forall>j < MAX_TASK_COUNT. state (ts ! j) = TASK_WAITING \<longrightarrow> priority (ts ! j) \<le> priority (ts ! nat new) \<and>
           (priority (ts ! j) = priority (ts ! nat new) \<longrightarrow> ring_dist cur (nat new) \<le> ring_dist cur j))
      else new = (if state (ts ! nat cur) = TASK_RUNNING then cur else 0)) \<and>
     (sw \<longleftrightarrow> new \<noteq> cur) \<and>
     (if sw
      then state (TaskTable s' ! nat new) = TASK_RUNNING \<and>
        t_rsp (TaskTable s' ! nat cur) = rsp (s_cpu s) - 56 \<and>
        state (TaskTable s' ! nat cur) =
          (if state (ts ! nat cur) = TASK_RUNNING then TASK_WAITING else state (ts ! nat cur)) \<and>
        mm_mem (s_mm s') = snd (save_context (after_switch L) (s_cpu s) (mm_mem (s_mm s1))) \<and>
        s_cpu s' = load_context (t_rsp (ts ! nat new)) (mm_mem (s_mm s')) (s_cpu s) \<and>
        (\<forall>j < MAX_TASK_COUNT. int j \<noteq> cur \<and> int j \<noteq> new \<longrightarrow> TaskTable s' ! j = ts ! j)
      else s' = s1))"
proof -
  obtain s1 sw s' where r: "housekeeping s = Some s1" "Schedule L s = Some (sw, s')" "sched_ready s'" "schedule_post L s s1 sw s'"
    using Schedule_ready [OF assms, of L] by blast
  note q = r(4) [unfolded schedule_post_def]
  note p = conjunct1 [OF q] conjunct1 [OF conjunct2 [OF q]] conjunct2 [OF conjunct2 [OF q]]
  show ?thesis
    unfolding Let_def
  proof (rule exI [of _ s1], rule exI [of _ sw], rule exI [of _ s'], intro conjI r(1-3) p(2,3))
    show "if \<exists>i < MAX_TASK_COUNT. state (TaskTable s1 ! i) = TASK_WAITING
      then state (TaskTable s1 ! nat (CurrentTaskPID s')) = TASK_WAITING \<and>
        (\<forall>j < MAX_TASK_COUNT. state (TaskTable s1 ! j) = TASK_WAITING \<longrightarrow> priority (TaskTable s1 ! j) \<le> priority (TaskTable s1 ! nat (CurrentTaskPID s')) \<and>
           (priority (TaskTable s1 ! j) = priority (TaskTable s1 ! nat (CurrentTaskPID s')) \<longrightarrow> ring_dist (CurrentTaskPID s) (nat (CurrentTaskPID s')) \<le> ring_dist (CurrentTaskPID s) j))
      else CurrentTaskPID s' = (if state (TaskTable s1 ! nat (CurrentTaskPID s)) = TASK_RUNNING then CurrentTaskPID s else 0)"
    proof (cases "\<exists>i < MAX_TASK_COUNT. state (TaskTable s1 ! i) = TASK_WAITING")
      case True
      then have "picks (TaskTable s1) (CurrentTaskPID s) (nat (CurrentTaskPID s'))" using p(1) by (simp add: chosen_def)
      then show ?thesis unfolding if_P [OF True] picks_def by blast
    next
      case False
      show ?thesis using p(1) unfolding chosen_def if_not_P [OF False] .
    qed
  qed
qed

theorem Schedule_dispatch_witness:
  "\<exists>sw s'. Schedule example_labels example_sched = Some (sw, s') \<and> sched_ready s'"
proof -
  have "sched_inv example_sched" "scheduler_started example_sched" using example_sched_ready by (simp_all add: sched_ready_def)
  from Schedule_dispatch [OF this example_sched_clear, of example_labels] show ?thesis by blast
qed

text \<open>C17: No starvation. Whatever the tasks do in between (creating, forking, killing, sleeping, using
  the heap), a task of priority 1 that waits for the processor, as every created task does, waits for fewer than
  128 runs of \<^verbatim>\<open>Schedule\<close> before it is dispatched (or killed).\<close>

theorem no_starvation:
  assumes "sched_ready s" and "priority (TaskTable s ! j) = 1" and "waits L j s n s'"
  shows "n < MAX_TASK_COUNT"
proof -
  have le: "n \<le> ring_dist (CurrentTaskPID s) j" using waits_bound [OF assms(3,1,2)] by linarith
  have "(int j - CurrentTaskPID s - 1) mod 128 < 128" by simp
  then have "ring_dist (CurrentTaskPID s) j < MAX_TASK_COUNT" by (simp add: ring_dist_def MAX_TASK_COUNT_def)
  with le show ?thesis by linarith
qed

lemma example_sched_created:
  "\<exists>s'. CreateTask example_labels (c_str ''task1'') 0x4000 0 example_sched = Some (1, s') \<and>
     sched_ready s' \<and> priority (TaskTable s' ! 1) = 1 \<and> waiting 1 s'"
proof -
  obtain hs where hs: "kmalloc 4096 (s_mm example_sched) = Some (0x1018, hs)" using example_sched_alloc by blast
  have h: "heap_ok (s_mm example_sched)" using example_sched_heap by (auto simp: heap_ok_def)
  have cnt: "TaskCount example_sched < int MAX_TASK_COUNT" by (simp add: example_sched_def MAX_TASK_COUNT_def)
  have tn: "terminated (c_str ''task1'')" by (simp add: c_str_def terminated_def)
  obtain n m sp where r: "CreateTask example_labels (c_str ''task1'') 0x4000 0 example_sched = Some (int 1,
      example_sched\<lparr>TaskTable := (TaskTable example_sched)[1 := (TaskTable example_sched ! 1)\<lparr>pid := int 1, ppid := 0, state := TASK_WAITING,
           priority := 1, name := n, kstack := 0x1018, t_rsp := sp\<rparr>],
        s_mm := hs\<lparr>mm_mem := m\<rparr>, TaskCount := TaskCount example_sched + 1\<rparr>)"
    using CreateTask_ok [OF h cnt example_sched_slot tn hs, of example_labels "0x4000" 0] by auto
  have "sched_step example_labels False example_sched (example_sched\<lparr>TaskTable := (TaskTable example_sched)[1 := (TaskTable example_sched ! 1)\<lparr>pid := int 1, ppid := 0, state := TASK_WAITING,
           priority := 1, name := n, kstack := 0x1018, t_rsp := sp\<rparr>],
        s_mm := hs\<lparr>mm_mem := m\<rparr>, TaskCount := TaskCount example_sched + 1\<rparr>)"
    by (rule step_create [OF tn r])
  from sched_step_result [OF this example_sched_ready] r show ?thesis
    by (simp add: waiting_def MAX_TASK_COUNT_def example_sched_def)
qed

theorem no_starvation_witness:
  "\<exists>s. sched_ready s \<and> waits example_labels 1 s 0 s \<and> 0 < MAX_TASK_COUNT"
proof -
  obtain s where s: "sched_ready s" "priority (TaskTable s ! 1) = 1" "waiting 1 s" using example_sched_created by blast
  have w: "waits example_labels 1 s 0 s" by (rule waits_refl [OF s(3)])
  from no_starvation [OF s(1,2) w] s(1) w show ?thesis by blast
qed

text \<open>C18: The invariant of the task table. From initialisation on a sound heap, through any
  interleaving of scheduler calls, heap use and running code: the current task exists, is neither empty nor a zombie,
  and is the only one that may be marked running; the idle slot is never freed; every stack is a live heap block and no two
  slots share one; and \<^verbatim>\<open>Schedule\<close> can be called again.\<close>

theorem sched_reachable:
  assumes "heap_ok (s_mm s0)" and "sched_init s0 = Some s" and "(\<lambda>a b. \<exists>d. sched_step L d a b)\<^sup>*\<^sup>* s s'"
  shows "length (TaskTable s') = MAX_TASK_COUNT \<and> 0 \<le> CurrentTaskPID s' \<and> CurrentTaskPID s' < int MAX_TASK_COUNT \<and>
    state (TaskTable s' ! nat (CurrentTaskPID s')) \<noteq> TASK_EMPTY \<and> state (TaskTable s' ! nat (CurrentTaskPID s')) \<noteq> TASK_ZOMBIE \<and>
    (\<forall>i < MAX_TASK_COUNT. state (TaskTable s' ! i) = TASK_RUNNING \<longrightarrow> int i = CurrentTaskPID s') \<and>
    state (TaskTable s' ! 0) \<noteq> TASK_EMPTY \<and> state (TaskTable s' ! 0) \<noteq> TASK_ZOMBIE \<and> stacks_ok (TaskTable s') (s_mm s') \<and>
    (stack_clear (s_cpu s') (s_mm s') \<longrightarrow> (\<exists>sw s''. Schedule L s' = Some (sw, s'')))"
proof -
  have "sched_ready s" using sched_init_ready [OF assms(1)] assms(2) by auto
  with assms(3) have r: "sched_ready s'"
    by induction (use sched_step_result in blast)+
  then have "sched_inv s'" "scheduler_started s'" by (simp_all add: sched_ready_def)
  then show ?thesis
    using sched_invD [of s'] Schedule_ready [of s' L] r by (auto simp: sched_ready_def)
qed

theorem sched_reachable_witness:
  "\<exists>s s'. sched_init example_sched = Some s \<and> sched_step example_labels False s s' \<and>
     stacks_ok (TaskTable s') (s_mm s')"
proof -
  have h: "heap_ok (s_mm example_sched)" using example_sched_heap by (auto simp: heap_ok_def)
  obtain s where s: "sched_init example_sched = Some s" "s_mm s = s_mm example_sched" using sched_init_ready [OF h] by blast
  obtain hs where hs: "kmalloc 4096 (s_mm s) = Some (0x1018, hs)" using example_sched_alloc s(2) by auto
  have st: "sched_step example_labels False s (s\<lparr>s_mm := hs\<rparr>)" by (rule step_kmalloc [OF hs])
  then have "(\<lambda>a b. \<exists>d. sched_step example_labels d a b)\<^sup>*\<^sup>* s (s\<lparr>s_mm := hs\<rparr>)" by blast
  from sched_reachable [OF h s(1) this] s(1) st show ?thesis by blast
qed

text \<open>Killing. \<^verbatim>\<open>KillTask\<close> refuses slot 0 and numbers outside the table with \<^verbatim>\<open>-EACCES\<close> and an empty slot
  with \<^verbatim>\<open>-ESRCH\<close>, changing no slot; another task becomes a zombie with exit code -1; killing the current task never
  returns: it ends in a switch to another task, with the killed task's slot empty.\<close>

theorem KillTask_outcomes:
  assumes "sched_ready s" and "stack_clear (s_cpu s) (s_mm s)"
  shows "\<exists>fl s'. KillTask L p s = Some (fl, s') \<and> sched_ready s' \<and>
    (if p \<le> 0 \<or> int MAX_TASK_COUNT \<le> p then fl = Returned (-13) \<and> s' = s
     else if state (TaskTable s ! nat p) = TASK_EMPTY then fl = Returned (-3) \<and> TaskTable s' = TaskTable s
     else if p = CurrentTaskPID s then fl = Switched \<and> CurrentTaskPID s' \<noteq> p
     else fl = Returned 0 \<and> TaskTable s' = (TaskTable s)[nat p := (TaskTable s ! nat p)\<lparr>state := TASK_ZOMBIE, ExitCode := -1\<rparr>])"
proof -
  obtain fl s' where k: "KillTask L p s = Some (fl, s')" "sched_ready s'"
    "if p \<le> 0 \<or> int MAX_TASK_COUNT \<le> p then fl = Returned (err EACCES) \<and> s' = s
     else if state (TaskTable s ! nat p) = TASK_EMPTY then fl = Returned (err ESRCH) \<and> s' = sti s
     else if p = CurrentTaskPID s then fl = Switched \<and> ExitTask L (-1) s = Some (fl, s')
     else fl = Returned 0 \<and> s' = sti (put_task p ((TaskTable s ! nat p)\<lparr>state := TASK_ZOMBIE, ExitCode := -1\<rparr>) s)"
    using KillTask_ready [OF assms, of L p] by blast
  have "CurrentTaskPID s' \<noteq> p" if "p = CurrentTaskPID s" "0 < p" "ExitTask L (-1) s = Some (fl, s')"
    using ExitTask_ready [OF assms, of L "-1"] that dying_ok(3) [OF assms(1), of "-1"] by (auto simp: schedule_post_def)
  then show ?thesis using k by (intro exI [of _ fl] exI [of _ s']) (auto simp: sti_def put_task_def split: if_splits)
qed

theorem KillTask_outcomes_witness:
  "map_option fst (KillTask example_labels 0 example_sched) = Some (Returned (-13)) \<and>
   map_option fst (KillTask example_labels 7 example_sched) = Some (Returned (-3))"
proof -
  have "TaskTable example_sched ! 7 = zero_task" by (simp add: example_sched_def)
  then show ?thesis
    using KillTask_outcomes [OF example_sched_ready example_sched_clear, of example_labels 0]
      KillTask_outcomes [OF example_sched_ready example_sched_clear, of example_labels 7]
    by (auto simp: MAX_TASK_COUNT_def zero_task_facts)
qed

end
