(* ===== verification/Console.thy ===== *)
theory Console
  imports Multiboot Libc Bitmap
begin

text \<open>
  The console: pixels in the linear framebuffer (\<^verbatim>\<open>kernel/GPU/screen.c\<close>), the text cursor, scrolling
  and formatted output (\<^verbatim>\<open>kernel/printk.c\<close>) and \<^verbatim>\<open>kernel/panic.c\<close>. The framebuffer is flat memory at the
  address the boot loader reported; the font is a linked object file and a parameter, with the fields of
  \<^verbatim>\<open>struct psf1_header\<close> and its glyph bytes.
\<close>

section \<open>Pixels\<close>

definition pixel_addr :: "framebuffer_info \<Rightarrow> u32 \<Rightarrow> u32 \<Rightarrow> u64" where
  "pixel_addr fb x y = P2V (fb_addr fb) + ucast (y * fb_pitch fb) + ucast (x * ucast (fb_bpp fb div 8))"

definition put_pixel :: "framebuffer_info \<Rightarrow> u32 \<Rightarrow> u32 \<Rightarrow> u32 \<Rightarrow> mem \<Rightarrow> mem" where
  "put_pixel fb x y color m =
     (if fb_width fb \<le> x \<or> fb_height fb \<le> y then m
      else if fb_addr fb = 0 then m
      else st32 m (pixel_addr fb x y) color)"

definition get_pixel :: "framebuffer_info \<Rightarrow> u32 \<Rightarrow> u32 \<Rightarrow> mem \<Rightarrow> u32" where
  "get_pixel fb x y m =
     (if fb_width fb \<le> x \<or> fb_height fb \<le> y then 0
      else if fb_addr fb = 0 then 0
      else ld32 m (pixel_addr fb x y))"

definition clear_screen :: "framebuffer_info \<Rightarrow> u32 \<Rightarrow> mem \<Rightarrow> mem" where
  "clear_screen fb color m =
     (if fb_addr fb = 0 then m
      else fold (\<lambda>y. fold (\<lambda>x. put_pixel fb (of_nat x) (of_nat y) color) [0..<unat (fb_width fb)])
             [0..<unat (fb_height fb)] m)"

definition draw_rect :: "framebuffer_info \<Rightarrow> u32 \<Rightarrow> u32 \<Rightarrow> u32 \<Rightarrow> u32 \<Rightarrow> u32 \<Rightarrow> mem \<Rightarrow> mem" where
  "draw_rect fb x y width height color =
     fold (\<lambda>i. fold (\<lambda>j. put_pixel fb (x + of_nat j) (y + of_nat i) color) [0..<unat width]) [0..<unat height]"

record psf1_font =
  f_magic :: u16
  f_mode :: u8
  f_charsize :: u8
  f_glyphs :: "nat \<Rightarrow> u8"

definition PSF1_MAGIC :: u16 where
  "PSF1_MAGIC = 0x0436"

definition draw_char :: "psf1_font \<Rightarrow> framebuffer_info \<Rightarrow> u8 \<Rightarrow> u32 \<Rightarrow> u32 \<Rightarrow> u32 \<Rightarrow> mem \<Rightarrow> mem" where
  "draw_char font fb c x y color m =
     (if f_magic font \<noteq> PSF1_MAGIC then m
      else fold (\<lambda>cy. fold (\<lambda>cx m.
               if f_glyphs font (unat c * unat (f_charsize font) + cy) AND drop_bit cx 0x80 \<noteq> 0
               then put_pixel fb (x + of_nat cx) (y + of_nat cy) color m else m) [0..<8])
             [0..<unat (f_charsize font)] m)"

section \<open>The terminal\<close>

record console =
  c_mem :: mem
  term_x :: u32
  term_y :: u32
  term_color :: u32

definition scroll :: "psf1_font \<Rightarrow> framebuffer_info \<Rightarrow> console \<Rightarrow> console" where
  "scroll font fb s =
     (let fb_virtual = P2V (fb_addr fb);
          line_size = ucast (f_charsize font) * fb_pitch fb;
          total_scroll_size = (fb_height fb - ucast (f_charsize font)) * fb_pitch fb;
          m1 = memcpy_mem fb_virtual (fb_virtual + ucast line_size) (unat total_scroll_size) (c_mem s);
          last_line = fb_virtual + ucast total_scroll_size;
          m2 = fold (\<lambda>i m. st32 m (last_line + of_nat (4 * i)) 0) [0..<unat (line_size div 4)] m1
      in s\<lparr>c_mem := m2, term_y := term_y s - ucast (f_charsize font)\<rparr>)"

definition place_char :: "psf1_font \<Rightarrow> framebuffer_info \<Rightarrow> int \<Rightarrow> console \<Rightarrow> console" where
  "place_char font fb c s =
     (if c = 10 then s\<lparr>term_x := 0, term_y := term_y s + ucast (f_charsize font)\<rparr>
      else if c = 13 then s\<lparr>term_x := 0\<rparr>
      else if c = 9 then s\<lparr>term_x := term_x s + 8 * 4\<rparr>
      else if c = 8
      then (if 8 \<le> term_x s
            then s\<lparr>term_x := term_x s - 8,
                   c_mem := draw_rect fb (term_x s - 8) (term_y s) 8 (ucast (f_charsize font)) 0 (c_mem s)\<rparr>
            else s)
      else s\<lparr>c_mem := draw_char font fb (of_int c) (term_x s) (term_y s) (term_color s) (c_mem s),
             term_x := term_x s + 8\<rparr>)"

definition putchar :: "psf1_font \<Rightarrow> framebuffer_info \<Rightarrow> int \<Rightarrow> console \<Rightarrow> int \<times> console" where
  "putchar font fb c s =
     (let s1 = place_char font fb c s;
          s2 = (if fb_width fb < term_x s1 + 8
                then s1\<lparr>term_x := 0, term_y := term_y s1 + ucast (f_charsize font)\<rparr> else s1);
          s3 = (if fb_height fb < term_y s2 + ucast (f_charsize font) then scroll font fb s2 else s2)
      in (c, s3))"

section \<open>Formatted output\<close>

text \<open>A variable argument: a string, a null pointer, or the 64-bit slot of an integer. Taking an
  argument of the wrong kind, or one too many, is \<open>None\<close>.\<close>

datatype va_arg = VStr "u8 list" | VNull | VInt u64

text \<open>\<^verbatim>\<open>while (*s) *ptr++ = *s++;\<close>\<close>

function copy_text :: "u8 list \<Rightarrow> nat \<Rightarrow> u8 list \<Rightarrow> nat \<Rightarrow> (u8 list \<times> nat) option" where
  "copy_text s i str p =
     (case rd s i of None \<Rightarrow> None
      | Some c \<Rightarrow> if c \<noteq> 0
          then (case wr str p c of None \<Rightarrow> None | Some str' \<Rightarrow> copy_text s (Suc i) str' (Suc p))
          else Some (str, p))"
  by pat_completeness auto
termination by (relation "measure (\<lambda>(s, i, str, p). length s - i)") auto

definition put_byte :: "u8 list \<Rightarrow> nat \<Rightarrow> u8 \<Rightarrow> (u8 list \<times> nat) option" where
  "put_byte str p c = map_option (\<lambda>str'. (str', Suc p)) (wr str p c)"

text \<open>One conversion character: \<^verbatim>\<open>s\<close>, \<^verbatim>\<open>d i\<close>, \<^verbatim>\<open>x X\<close>, \<^verbatim>\<open>c\<close>, and the default, which covers \<^verbatim>\<open>%\<close>. \<^verbatim>\<open>buf\<close> has
  64 bytes.\<close>

definition conversion :: "u8 \<Rightarrow> va_arg list \<Rightarrow> u8 list \<Rightarrow> nat \<Rightarrow> (va_arg list \<times> u8 list \<times> nat) option" where
  "conversion c args str p =
     (if c = 115 then
        (case args of
           VStr s # r \<Rightarrow> map_option (Pair r) (copy_text s 0 str p)
         | VNull # r \<Rightarrow> map_option (Pair r) (copy_text (c_str ''(null)'') 0 str p)
         | _ \<Rightarrow> None)
      else if c = 100 \<or> c = 105 then
        (case args of
           VInt v # r \<Rightarrow> do { buf \<leftarrow> itoa v (replicate 64 0) 10; map_option (Pair r) (copy_text buf 0 str p) }
         | _ \<Rightarrow> None)
      else if c = 120 \<or> c = 88 then
        (case args of
           VInt v # r \<Rightarrow> do { buf \<leftarrow> itoa v (replicate 64 0) 16; map_option (Pair r) (copy_text buf 0 str p) }
         | _ \<Rightarrow> None)
      else if c = 99 then
        (case args of VInt v # r \<Rightarrow> map_option (Pair r) (put_byte str p (ucast v)) | _ \<Rightarrow> None)
      else if c = 37 then map_option (Pair args) (put_byte str p 37)
      else map_option (Pair args) (put_byte str p c))"

text \<open>The loop over the format, which is read byte by byte; running off its end is \<open>None\<close>.\<close>

fun vsprintk_loop :: "u8 list \<Rightarrow> va_arg list \<Rightarrow> u8 list \<Rightarrow> nat \<Rightarrow> (u8 list \<times> nat) option" where
  "vsprintk_loop [] args str p = None"
| "vsprintk_loop (c # f) args str p =
     (if c = 0 then Some (str, p)
      else if c \<noteq> 37
      then (case put_byte str p c of None \<Rightarrow> None | Some (str', p') \<Rightarrow> vsprintk_loop f args str' p')
      else (case f of [] \<Rightarrow> None
            | d # f' \<Rightarrow>
                (case conversion d args str p of None \<Rightarrow> None
                 | Some (args', str', p') \<Rightarrow> vsprintk_loop f' args' str' p')))"

definition vsprintk :: "u8 list \<Rightarrow> u8 list \<Rightarrow> va_arg list \<Rightarrow> (u8 list \<times> nat) option" where
  "vsprintk str fmt args =
     do { (str1, p) \<leftarrow> vsprintk_loop fmt args str 0;
          str2 \<leftarrow> wr str1 p 0;
          Some (str2, p) }"

definition printk :: "psf1_font \<Rightarrow> framebuffer_info \<Rightarrow> u8 list \<Rightarrow> va_arg list \<Rightarrow> console \<Rightarrow> (int \<times> console) option" where
  "printk font fb fmt args s =
     do { (print_buffer, len) \<leftarrow> vsprintk (replicate 2048 0) fmt args;
          Some (int len, fold (\<lambda>i s. snd (putchar font fb (sint (print_buffer ! i)) s)) [0..<len] s) }"

text \<open>\<^verbatim>\<open>panic\<close> prints and then spins; its value is the console it spins with.\<close>

definition panic :: "psf1_font \<Rightarrow> framebuffer_info \<Rightarrow> u8 list \<Rightarrow> console \<Rightarrow> console option" where
  "panic font fb msg s = map_option snd (printk font fb (butlast (c_str ''Kernel panic: %s'') @ [10, 13, 0]) [VStr msg] s)"

declare copy_text.simps [simp del]

section \<open>Reading pixels back\<close>

text \<open>A framebuffer as the boot loader reports it: 32 bits a pixel, rows that do not overlap, the
  whole of it below the end of the address space.\<close>

definition fb_ok :: "framebuffer_info \<Rightarrow> bool" where
  "fb_ok fb \<longleftrightarrow> fb_addr fb \<noteq> 0 \<and> fb_bpp fb = 32 \<and> 4 * unat (fb_width fb) \<le> unat (fb_pitch fb) \<and>
     unat (fb_pitch fb) * unat (fb_height fb) < 2 ^ 32 \<and>
     unat (P2V (fb_addr fb)) + unat (fb_pitch fb) * unat (fb_height fb) < 2 ^ 64"

definition on_screen :: "framebuffer_info \<Rightarrow> u32 \<Rightarrow> u32 \<Rightarrow> bool" where
  "on_screen fb x y \<longleftrightarrow> \<not> fb_width fb \<le> x \<and> \<not> fb_height fb \<le> y"

lemma get_pixel_off: "\<not> on_screen fb x y \<Longrightarrow> get_pixel fb x y m = 0"
  by (auto simp: on_screen_def get_pixel_def)

lemma row_end:
  assumes "(y :: nat) < h" and "x < w" and "4 * w \<le> p"
  shows "y * p + 4 * x + 4 \<le> p * h"
proof -
  have "Suc y * p \<le> h * p" using assms(1) by (intro mult_le_mono1) simp
  then show ?thesis using assms(2,3) by (simp add: mult.commute)
qed

lemma pixel_addr_unat:
  assumes ok: "fb_ok fb" and on: "on_screen fb x y"
  shows "unat (pixel_addr fb x y) = unat (P2V (fb_addr fb)) + (unat y * unat (fb_pitch fb) + 4 * unat x)"
    and "unat (pixel_addr fb x y) + 4 \<le> unat (P2V (fb_addr fb)) + unat (fb_pitch fb) * unat (fb_height fb)"
proof -
  let ?b = "unat (P2V (fb_addr fb))" and ?p = "unat (fb_pitch fb)"
  have xy: "unat y < unat (fb_height fb)" "unat x < unat (fb_width fb)"
    using on by (simp_all add: on_screen_def word_le_nat_alt)
  have lim: "unat y * ?p + 4 * unat x + 4 \<le> ?p * unat (fb_height fb)"
    using row_end [OF xy] ok by (simp add: fb_ok_def)
  have l32: "unat y * ?p + 4 * unat x < 4294967296" and l64: "?b + (unat y * ?p + 4 * unat x) < 18446744073709551616"
    using lim ok by (simp_all add: fb_ok_def)
  have a: "unat (y * fb_pitch fb) = unat y * ?p" using l32 by (subst unat_mult_lem [THEN iffD1]) simp_all
  have d: "ucast (fb_bpp fb div 8) = (4 :: u32)" using ok by (simp add: fb_ok_def)
  have b: "unat (x * ucast (fb_bpp fb div 8)) = 4 * unat x"
    using l32 unfolding d by (subst unat_mult_lem [THEN iffD1]) (simp_all add: mult.commute)
  have ua: "unat (ucast (y * fb_pitch fb) :: u64) = unat y * ?p" "unat (ucast (x * ucast (fb_bpp fb div 8)) :: u64) = 4 * unat x"
    using a b by (simp_all add: unat_ucast_32_64)
  have "unat (P2V (fb_addr fb) + ucast (y * fb_pitch fb)) = ?b + unat y * ?p"
    using l64 ua by (subst unat_plus_small) simp_all
  then show e: "unat (pixel_addr fb x y) = ?b + (unat y * ?p + 4 * unat x)"
    unfolding pixel_addr_def using l64 ua by (subst unat_plus_small) simp_all
  show "unat (pixel_addr fb x y) + 4 \<le> ?b + ?p * unat (fb_height fb)" using e lim by simp
qed

lemma pixels_apart:
  assumes ok: "fb_ok fb" and on: "on_screen fb x y" "on_screen fb x' y'" and ne: "x' \<noteq> x \<or> y' \<noteq> y"
  shows "apart (pixel_addr fb x y) 4 (pixel_addr fb x' y') 4"
proof -
  let ?p = "unat (fb_pitch fb)"
  note a = pixel_addr_unat [OF ok on(1)] and a' = pixel_addr_unat [OF ok on(2)]
  have lim: "unat (P2V (fb_addr fb)) + ?p * unat (fb_height fb) < 2 ^ 64" using ok by (simp add: fb_ok_def)
  have w: "4 * unat x + 4 \<le> ?p" "4 * unat x' + 4 \<le> ?p"
    using on ok by (auto simp: on_screen_def word_le_nat_alt fb_ok_def)
  have row: "u < v \<Longrightarrow> u * ?p + ?p \<le> v * ?p" for u v :: nat using mult_le_mono1 [of "Suc u" v ?p] by simp
  consider "unat (pixel_addr fb x y) + 4 \<le> unat (pixel_addr fb x' y')" | "unat (pixel_addr fb x' y') + 4 \<le> unat (pixel_addr fb x y)"
  proof (cases "y = y'")
    case True
    then have "unat x < unat x' \<or> unat x' < unat x" using ne unat_eq_iff [of x x'] by auto
    then show ?thesis using a(1) a'(1) True that by auto
  next
    case False
    then have "unat y < unat y' \<or> unat y' < unat y" using unat_eq_iff [of y y'] by auto
    then show ?thesis using a(1) a'(1) w row [of "unat y" "unat y'"] row [of "unat y'" "unat y"] that by fastforce
  qed
  then show ?thesis
  proof cases
    case 1
    then show ?thesis using a'(2) lim by (intro apart_linear) linarith+
  next
    case 2
    then show ?thesis using a(2) lim by (intro apart_sym [OF apart_linear]) linarith+
  qed
qed

lemma get_put_pixel:
  assumes "fb_ok fb"
  shows "get_pixel fb x' y' (put_pixel fb x y c m) =
    (if x' = x \<and> y' = y \<and> on_screen fb x y then c else get_pixel fb x' y' m)"
proof (cases "on_screen fb x y")
  case True
  have put: "put_pixel fb x y c m = st32 m (pixel_addr fb x y) c"
    using True assms by (simp add: put_pixel_def on_screen_def fb_ok_def)
  show ?thesis
  proof (cases "on_screen fb x' y'")
    case on': True
    then have g: "get_pixel fb x' y' n = ld32 n (pixel_addr fb x' y')" for n
      using assms by (simp add: get_pixel_def on_screen_def fb_ok_def)
    show ?thesis using pixels_apart [OF assms True on'] True by (auto simp: g put mem_simps)
  next
    case False
    then show ?thesis using True by (auto simp: get_pixel_off)
  qed
next
  case False
  then have "put_pixel fb x y c m = m" by (auto simp: put_pixel_def on_screen_def)
  with False show ?thesis by simp
qed

lemma get_fold_put:
  assumes "fb_ok fb"
  shows "get_pixel fb x' y' (fold (\<lambda>(x, y). put_pixel fb x y c) ps m) =
    (if (x', y') \<in> set ps \<and> on_screen fb x' y' then c else get_pixel fb x' y' m)"
  by (induction ps arbitrary: m) (auto simp: get_put_pixel [OF assms] split: if_splits)

text \<open>Nested loops that draw one colour are a fold over the list of points.\<close>

lemma fold_rows:
  "fold (\<lambda>i. fold (\<lambda>j m. if P i j then put_pixel fb (X j) (Y i) c m else m) (js i)) is m =
    fold (\<lambda>(x, y). put_pixel fb x y c) (concat (map (\<lambda>i. map (\<lambda>j. (X j, Y i)) (filter (P i) (js i))) is)) m"
proof -
  have row: "fold (\<lambda>j m. if P i j then put_pixel fb (X j) (Y i) c m else m) js' m =
      fold (\<lambda>(x, y). put_pixel fb x y c) (map (\<lambda>j. (X j, Y i)) (filter (P i) js')) m" for i js' m
    by (induction js' arbitrary: m) auto
  show ?thesis by (induction "is" arbitrary: m) (simp_all add: row)
qed

lemma get_fold_rows:
  assumes "fb_ok fb"
  shows "get_pixel fb x' y' (fold (\<lambda>i. fold (\<lambda>j m. if P i j then put_pixel fb (X j) (Y i) c m else m) (js i)) is m) =
    (if (\<exists>i\<in>set is. \<exists>j\<in>set (js i). P i j \<and> x' = X j \<and> y' = Y i) \<and> on_screen fb x' y' then c else get_pixel fb x' y' m)"
  unfolding fold_rows get_fold_put [OF assms] by (rule if_cong) auto

lemma word_offset_ex:
  fixes x x' w :: u32
  assumes "unat x + unat w \<le> 2 ^ 32"
  shows "(\<exists>j < unat w. x' = x + of_nat j) \<longleftrightarrow> unat x \<le> unat x' \<and> unat x' < unat x + unat w"
proof
  assume "\<exists>j < unat w. x' = x + of_nat j"
  then obtain j where j: "j < unat w" "x' = x + of_nat j" by blast
  have "j < 4294967296" using j(1) unat_lt32 [of w] by linarith
  then have "unat (of_nat j :: u32) = j" by simp
  then have "unat x' = unat x + j" unfolding j(2) using assms j(1) by (subst unat_plus_small) simp_all
  then show "unat x \<le> unat x' \<and> unat x' < unat x + unat w" using j(1) by simp
next
  assume a: "unat x \<le> unat x' \<and> unat x' < unat x + unat w"
  then have "x' = x + of_nat (unat x' - unat x)" by (simp add: of_nat_diff)
  then show "\<exists>j < unat w. x' = x + of_nat j" using a by (intro exI [of _ "unat x' - unat x"]) auto
qed

lemma get_draw_rect:
  assumes ok: "fb_ok fb" and "unat x + unat w \<le> 2 ^ 32" and "unat y + unat h \<le> 2 ^ 32"
  shows "get_pixel fb x' y' (draw_rect fb x y w h c m) =
    (if unat x \<le> unat x' \<and> unat x' < unat x + unat w \<and> unat y \<le> unat y' \<and> unat y' < unat y + unat h \<and> on_screen fb x' y'
     then c else get_pixel fb x' y' m)"
proof -
  have r: "draw_rect fb x y w h c m = fold (\<lambda>i. fold (\<lambda>j m. if True then put_pixel fb (x + of_nat j) (y + of_nat i) c m else m)
      [0..<unat w]) [0..<unat h] m" by (simp add: draw_rect_def)
  show ?thesis
    unfolding r get_fold_rows [OF ok] using word_offset_ex [OF assms(2), of x'] word_offset_ex [OF assms(3), of y']
    by (intro if_cong) auto
qed

lemma get_clear_screen:
  assumes ok: "fb_ok fb"
  shows "get_pixel fb x' y' (clear_screen fb c m) = (if on_screen fb x' y' then c else 0)"
proof -
  have r: "clear_screen fb c m = fold (\<lambda>i. fold (\<lambda>j m. if True then put_pixel fb (of_nat j) (of_nat i) c m else m)
      [0..<unat (fb_width fb)]) [0..<unat (fb_height fb)] m" using ok by (simp add: clear_screen_def fb_ok_def)
  have all: "\<exists>i\<in>set [0..<unat (fb_height fb)]. \<exists>j\<in>set [0..<unat (fb_width fb)]. True \<and> x' = of_nat j \<and> y' = of_nat i"
    if "on_screen fb x' y'"
    using that by (intro bexI [of _ "unat y'"] bexI [of _ "unat x'"]) (simp_all add: on_screen_def word_le_nat_alt)
  show ?thesis unfolding r get_fold_rows [OF ok] using all by (auto simp: get_pixel_off)
qed

lemma get_draw_char:
  assumes ok: "fb_ok fb" and magic: "f_magic font = PSF1_MAGIC"
    and "unat x + 8 \<le> 2 ^ 32" and "unat y + unat (f_charsize font) \<le> 2 ^ 32"
  shows "get_pixel fb x' y' (draw_char font fb c x y color m) =
    (if unat x \<le> unat x' \<and> unat x' < unat x + 8 \<and> unat y \<le> unat y' \<and> unat y' < unat y + unat (f_charsize font) \<and>
        bit (f_glyphs font (unat c * unat (f_charsize font) + (unat y' - unat y))) (7 - (unat x' - unat x)) \<and> on_screen fb x' y'
     then color else get_pixel fb x' y' m)"
proof -
  let ?P = "\<lambda>cy cx. f_glyphs font (unat c * unat (f_charsize font) + cy) AND drop_bit cx 0x80 \<noteq> 0"
  have bits: "?P cy cx \<longleftrightarrow> bit (f_glyphs font (unat c * unat (f_charsize font) + cy)) (7 - cx)" if "cx < 8" for cy cx
  proof -
    have "cx \<in> {0,1,2,3,4,5,6,7}" using that by auto
    then have "drop_bit cx 0x80 = (push_bit (7 - cx) 1 :: u8)" by (auto simp: drop_bit_eq_div push_bit_eq_mult)
    then show ?thesis using and_bit_neq_0 by metis
  qed
  have at: "\<exists>j\<in>set [0..<8]. Q j \<and> x' = x + of_nat j" if "unat x \<le> unat x'" "unat x' < unat x + 8" "Q (unat x' - unat x)" for Q
    using that by (intro bexI [of _ "unat x' - unat x"]) (auto simp: of_nat_diff)
  have d: "draw_char font fb c x y color m = fold (\<lambda>cy. fold (\<lambda>cx m. if ?P cy cx then put_pixel fb (x + of_nat cx) (y + of_nat cy) color m else m) [0..<8])
      [0..<unat (f_charsize font)] m" using magic by (simp add: draw_char_def)
  have ux: "unat (x + of_nat j) = unat x + j" if "j < 8" for j
  proof -
    have "unat (of_nat j :: u32) = j" using that by simp
    then show ?thesis using that assms(3) by (subst unat_plus_small) simp_all
  qed
  have uy: "unat (y + of_nat i) = unat y + i" if "i < unat (f_charsize font)" for i
  proof -
    have "i < 4294967296" using that unat_lt8 [of "f_charsize font"] by linarith
    then have "unat (of_nat i :: u32) = i" by simp
    then show ?thesis using that assms(4) by (subst unat_plus_small) simp_all
  qed
  have "(\<exists>i\<in>set [0..<unat (f_charsize font)]. \<exists>j\<in>set [0..<8]. ?P i j \<and> x' = x + of_nat j \<and> y' = y + of_nat i) \<longleftrightarrow>
      unat x \<le> unat x' \<and> unat x' < unat x + 8 \<and> unat y \<le> unat y' \<and> unat y' < unat y + unat (f_charsize font) \<and>
        bit (f_glyphs font (unat c * unat (f_charsize font) + (unat y' - unat y))) (7 - (unat x' - unat x))"
    (is "?L \<longleftrightarrow> ?R")
  proof
    assume ?L
    then obtain i j where ij: "i < unat (f_charsize font)" "j < 8" "?P i j" "x' = x + of_nat j" "y' = y + of_nat i" by auto
    then show ?R using ux uy bits [of j i] by simp
  next
    assume r: ?R
    define i j where "i = unat y' - unat y" and "j = unat x' - unat x"
    have ij: "i < unat (f_charsize font)" "j < 8" "x' = x + of_nat j" "y' = y + of_nat i"
      using r by (auto simp: i_def j_def of_nat_diff)
    have "?P i j" unfolding bits [OF ij(2)] using r unfolding i_def j_def by blast
    with ij show ?L by (intro bexI [of _ i] bexI [of _ j]) simp_all
  qed
  then show ?thesis unfolding d get_fold_rows [OF ok] by (intro if_cong) auto
qed

section \<open>Scrolling\<close>

lemma memcpy_mem_down:
  assumes "unat d < unat s" and "unat s + n < 2 ^ 64"
  shows "memcpy_mem d s n m x =
    (if unat d \<le> unat x \<and> unat x < unat d + n then m (s + of_nat (unat x - unat d)) else m x)"
  using assms
proof (induction n arbitrary: d s m)
  case (Suc n)
  have d1: "unat (d + 1) = unat d + 1" and s1: "unat (s + 1) = unat s + 1"
    using Suc.prems by (subst unat_plus_small, simp_all)+
  let ?m = "m(d := m s)"
  have IH: "memcpy_mem (d + 1) (s + 1) n ?m x =
      (if unat (d + 1) \<le> unat x \<and> unat x < unat (d + 1) + n then ?m (s + 1 + of_nat (unat x - unat (d + 1))) else ?m x)"
    using Suc.prems d1 s1 by (intro Suc.IH) linarith+
  show ?case
  proof (cases "unat d < unat x \<and> unat x < unat d + Suc n")
    case True
    define i where "i = unat x - unat d"
    have i: "0 < i" "i \<le> n" using True by (auto simp: i_def)
    have e: "s + 1 + of_nat (unat x - unat (d + 1)) = s + of_nat i"
      using i by (simp add: i_def d1 of_nat_diff)
    have "i < 2 ^ 64" using i Suc.prems(2) by linarith
    then have "unat (of_nat i :: u64) = i" by (simp add: unat_of_nat take_bit_nat_eq_self)
    moreover have "unat s + i < 2 ^ 64" using i Suc.prems(2) by linarith
    ultimately have "unat (s + of_nat i) = unat s + i" by (subst unat_plus_small) simp_all
    then have "s + of_nat i \<noteq> d" using Suc.prems(1) by auto
    then have "?m (s + of_nat i) = m (s + of_nat i)" by (rule fun_upd_other)
    moreover have "memcpy_mem d s (Suc n) m x = ?m (s + 1 + of_nat (unat x - unat (d + 1)))"
      unfolding memcpy_mem.simps IH by (rule if_P) (use True d1 in auto)
    ultimately have "memcpy_mem d s (Suc n) m x = m (s + of_nat (unat x - unat d))" by (simp only: e i_def)
    moreover have "unat d \<le> unat x \<and> unat x < unat d + Suc n" using True by linarith
    ultimately show ?thesis by (simp only: if_True simp_thms)
  next
    case False
    then have "memcpy_mem d s (Suc n) m x = ?m x" unfolding memcpy_mem.simps IH using d1 by (intro if_not_P) auto
    moreover have "unat x \<noteq> unat d \<Longrightarrow> x \<noteq> d" by auto
    ultimately show ?thesis using False unat_eq_iff [of x d] by (cases "x = d") auto
  qed
qed auto

lemma fold_st32_zero:
  assumes "unat a + 4 * n < 2 ^ 64"
  shows "fold (\<lambda>i m. st32 m (a + of_nat (4 * i)) 0) [0..<n] m x =
    (if unat a \<le> unat x \<and> unat x < unat a + 4 * n then 0 else m x)"
  using assms
proof (induction n)
  case (Suc n)
  let ?m = "fold (\<lambda>i m. st32 m (a + of_nat (4 * i)) 0) [0..<n] m" and ?b = "a + of_nat (4 * n) :: u64"
  have "4 * n < 2 ^ 64" by (rule le_less_trans [OF _ Suc.prems]) simp
  then have "unat (of_nat (4 * n) :: u64) = 4 * n" by (rule unat_nat64)
  then have b: "unat ?b = unat a + 4 * n" using Suc.prems by (subst unat_plus_small) simp_all
  have zero: "st32 ?m ?b 0 x = (if unat (x - ?b) < 4 then 0 else ?m x)"
  proof -
    have "le_bytes 4 (0 :: u32) = [0, 0, 0, 0]" by (simp add: le_bytes_def numeral_eq_Suc)
    then show ?thesis
      by (auto simp: st32_def stn_def Let_def numeral_eq_Suc less_Suc_eq)
  qed
  have near: "unat (x - ?b) < 4 \<longleftrightarrow> unat ?b \<le> unat x \<and> unat x < unat ?b + 4"
  proof (cases "unat ?b \<le> unat x")
    case True
    then have "unat (x - ?b) = unat x - unat ?b" by (intro unat_minus_le) (simp add: word_le_nat_alt)
    with True show ?thesis by linarith
  next
    case False
    then have "unat (x - ?b) = 2 ^ 64 - unat (?b - x)" by (intro unat_minus_swap) auto
    moreover have "unat (?b - x) = unat ?b - unat x" using False by (intro unat_minus_le) (simp add: word_le_nat_alt)
    moreover have "unat ?b + 4 < 2 ^ 64" using b Suc.prems by simp
    ultimately show ?thesis using False by linarith
  qed
  have "fold (\<lambda>i m. st32 m (a + of_nat (4 * i)) 0) [0..<Suc n] m x = st32 ?m ?b 0 x" by simp
  also have "\<dots> = (if unat a + 4 * n \<le> unat x \<and> unat x < unat a + 4 * n + 4 then 0 else ?m x)"
    unfolding zero near b ..
  finally show ?case using Suc by auto
qed auto

definition font_ok :: "psf1_font \<Rightarrow> framebuffer_info \<Rightarrow> bool" where
  "font_ok font fb \<longleftrightarrow> f_magic font = PSF1_MAGIC \<and> 0 < f_charsize font \<and>
     unat (f_charsize font) \<le> unat (fb_height fb) \<and> 8 \<le> unat (fb_width fb) \<and> 4 dvd unat (fb_pitch fb)"

text \<open>The bytes of the framebuffer after a scroll: the rows move up by one text line, and the last
  text line is black.\<close>

lemma scroll_bytes:
  assumes ok: "fb_ok fb" and f: "font_ok font fb" and k: "k < unat (fb_pitch fb) * unat (fb_height fb)"
  defines "base \<equiv> P2V (fb_addr fb)" and "line \<equiv> unat (f_charsize font) * unat (fb_pitch fb)"
  shows "c_mem (scroll font fb s) (base + of_nat k) =
    (if k + line < unat (fb_pitch fb) * unat (fb_height fb) then c_mem s (base + of_nat (k + line)) else 0)"
proof -
  let ?p = "unat (fb_pitch fb)" and ?h = "unat (fb_height fb)" and ?cs = "unat (f_charsize font)"
  let ?ls = "ucast (f_charsize font) * fb_pitch fb" and ?ts = "(fb_height fb - ucast (f_charsize font)) * fb_pitch fb"
  have uc: "unat (ucast (f_charsize font) :: u32) = ?cs" by simp
  have le: "?cs \<le> ?h" "0 < ?cs" using f by (simp_all add: font_ok_def word_less_nat_alt)
  have ph: "?p * ?h < 4294967296" and lim: "unat base + ?p * ?h < 2 ^ 64"
    using ok by (simp_all add: fb_ok_def base_def)
  have le_ph: "line \<le> ?p * ?h" unfolding line_def using le(1) by (simp add: mult.commute)
  have "line < 4294967296" using le_ph ph by linarith
  then have ls: "unat ?ls = line" using uc by (subst unat_mult_lem [THEN iffD1]) (simp_all add: line_def)
  have hc: "unat (fb_height fb - ucast (f_charsize font)) = ?h - ?cs"
    using le(1) uc by (subst unat_minus_le) (simp_all add: word_le_nat_alt)
  have split: "(?h - ?cs) * ?p + line = ?p * ?h" using le(1) by (simp add: line_def algebra_simps flip: add_mult_distrib)
  then have "(?h - ?cs) * ?p < 4294967296" using ph by linarith
  then have ts: "unat ?ts = (?h - ?cs) * ?p" using hc by (subst unat_mult_lem [THEN iffD1]) simp_all
  have p0: "0 < ?p" using k by (metis mult_is_0 neq0_conv not_less0)
  then have line0: "0 < line" using le(2) by (simp add: line_def)
  have src: "unat (base + ucast ?ls) = unat base + line"
    using ls le_ph lim by (subst unat_plus_small) simp_all
  have last: "unat (base + ucast ?ts) = unat base + unat ?ts"
    using ts split lim by (subst unat_plus_small) simp_all
  have d4: "4 dvd line" using f by (simp add: font_ok_def line_def)
  have q: "unat (?ls div 4) = line div 4" using ls by (simp add: unat_div)
  then have ll: "4 * unat (?ls div 4) = line" using d4 by simp
  have uk: "unat (base + of_nat k) = unat base + k"
  proof -
    have "k < 2 ^ 64" by (rule less_trans [OF k less_trans [OF ph]]) simp
    then have "unat (of_nat k :: u64) = k" by (rule unat_nat64)
    then show ?thesis using k lim by (subst unat_plus_small) simp_all
  qed
  let ?m1 = "memcpy_mem base (base + ucast ?ls) (unat ?ts) (c_mem s)"
  have "c_mem (scroll font fb s) (base + of_nat k) =
      (if unat base + unat ?ts \<le> unat base + k \<and> unat base + k < unat base + unat ?ts + line then 0 else ?m1 (base + of_nat k))"
  proof -
    have "unat (base + ucast ?ts) + 4 * unat (?ls div 4) < 2 ^ 64" using last ll ts split lim by linarith
    from fold_st32_zero [OF this, of ?m1 "base + of_nat k"] show ?thesis
      unfolding scroll_def Let_def base_def [symmetric] by (simp add: last [unfolded base_def] ll uk [unfolded base_def] base_def)
  qed
  also have "\<dots> = (if k + line < ?p * ?h then c_mem s (base + of_nat (k + line)) else 0)"
  proof (cases "k + line < ?p * ?h")
    case True
    then have kt: "k < unat ?ts" using ts split by linarith
    have "unat base < unat (base + ucast ?ls)" "unat (base + ucast ?ls) + unat ?ts < 2 ^ 64"
      using src line0 ts split lim by linarith+
    from memcpy_mem_down [OF this, of "c_mem s" "base + of_nat k"]
    have "?m1 (base + of_nat k) = c_mem s (base + ucast ?ls + of_nat k)" using kt uk by simp
    moreover have "ucast ?ls = (of_nat line :: u64)" by (metis ls of_nat_unat)
    ultimately show ?thesis using True kt by (simp add: add_ac)
  next
    case False
    then show ?thesis using ts split k by simp
  qed
  finally show ?thesis .
qed

lemma scroll_pixels:
  assumes ok: "fb_ok fb" and f: "font_ok font fb" and on: "on_screen fb x y"
  shows "get_pixel fb x y (c_mem (scroll font fb s)) =
    (if unat y + unat (f_charsize font) < unat (fb_height fb)
     then get_pixel fb x (y + ucast (f_charsize font)) (c_mem s) else 0)"
proof -
  let ?p = "unat (fb_pitch fb)" and ?h = "unat (fb_height fb)" and ?cs = "unat (f_charsize font)"
  let ?base = "P2V (fb_addr fb)" and ?k = "unat y * ?p + 4 * unat x" and ?line = "?cs * ?p"
  have addr: "pixel_addr fb u v = ?base + of_nat (unat v * ?p + 4 * unat u)" if "on_screen fb u v" for u v
  proof -
    let ?j = "unat v * ?p + 4 * unat u"
    note a = pixel_addr_unat [OF ok that]
    have "unat ?base + ?j < 2 ^ 64" using unat_lt64 [of "pixel_addr fb u v"] unfolding a(1) by simp
    moreover from this have "?j < 2 ^ 64" by (rule le_less_trans [rotated]) simp
    then have "unat (of_nat ?j :: u64) = ?j" by (rule unat_nat64)
    ultimately have "unat (?base + of_nat ?j) = unat ?base + ?j" by (subst unat_plus_small) simp_all
    then show ?thesis using a(1) unat_eq_iff by metis
  qed
  have xy: "unat y < ?h" "unat x < unat (fb_width fb)" using on by (simp_all add: on_screen_def word_le_nat_alt)
  have kl: "?k + 4 \<le> ?p * ?h" using row_end [OF xy] ok by (simp add: fb_ok_def)
  have get: "get_pixel fb u v m = ld32 m (pixel_addr fb u v)" if "on_screen fb u v" for u v m
    using that ok by (simp add: get_pixel_def on_screen_def fb_ok_def)
  have byte: "c_mem (scroll font fb s) (?base + of_nat ?k + of_nat i) =
      (if ?k + i + ?line < ?p * ?h then c_mem s (?base + of_nat (?k + i + ?line)) else 0)" if "i < 4" for i
  proof -
    have e: "?base + of_nat ?k + of_nat i = ?base + of_nat (?k + i)" by (simp only: of_nat_add add.assoc)
    have ki: "?k + i < ?p * ?h" using kl that by linarith
    show ?thesis unfolding e using scroll_bytes [OF ok f ki, of s] .
  qed
  show ?thesis
  proof (cases "unat y + ?cs < ?h")
    case True
    have "unat y + ?cs < 4294967296" using True unat_lt32 [of "fb_height fb"] by linarith
    then have y': "unat (y + ucast (f_charsize font)) = unat y + ?cs" by (subst unat_plus_small) simp_all
    have on': "on_screen fb x (y + ucast (f_charsize font))" using on True y' by (simp add: on_screen_def word_le_nat_alt)
    have "(unat y + ?cs) * ?p + 4 * unat x + 4 \<le> ?p * ?h" using row_end [OF True xy(2)] ok by (simp add: fb_ok_def)
    then have lim: "?k + ?line + 4 \<le> ?p * ?h" by (simp add: algebra_simps)
    have "ldn (c_mem (scroll font fb s)) (pixel_addr fb x y) 4 = ldn (c_mem s) (pixel_addr fb x (y + ucast (f_charsize font))) 4"
      unfolding ldn_def addr [OF on] addr [OF on'] y'
    proof (rule map_cong [OF refl])
      fix i assume "i \<in> set [0..<4]"
      then have i: "i < 4" by simp
      then have "?k + i + ?line < ?p * ?h" using lim by linarith
      then show "c_mem (scroll font fb s) (?base + of_nat ?k + of_nat i) =
          c_mem s (?base + of_nat ((unat y + ?cs) * ?p + 4 * unat x) + of_nat i)"
        unfolding byte [OF i] by (simp add: algebra_simps)
    qed
    then show ?thesis using True by (simp add: get [OF on] get [OF on'] ld32_def)
  next
    case False
    have "?h * ?p \<le> (unat y + ?cs) * ?p" using False by (intro mult_le_mono1) simp
    then have over: "?p * ?h \<le> ?k + ?line" by (simp add: algebra_simps)
    have "ldn (c_mem (scroll font fb s)) (pixel_addr fb x y) 4 = ldn (\<lambda>_. 0) 0 4"
      unfolding ldn_def addr [OF on]
    proof (rule map_cong [OF refl])
      fix i assume "i \<in> set [0..<4]"
      then have i: "i < 4" by simp
      show "c_mem (scroll font fb s) (?base + of_nat ?k + of_nat i) = 0"
        unfolding byte [OF i] using over by (intro if_not_P) linarith
    qed
    moreover have "ld32 (\<lambda>_. 0) 0 = 0" by (simp add: ld32_def ldn_def numeral_eq_Suc)
    ultimately show ?thesis using False by (simp add: get [OF on] ld32_def)
  qed
qed

section \<open>The cursor\<close>

definition cursor_ok :: "psf1_font \<Rightarrow> framebuffer_info \<Rightarrow> console \<Rightarrow> bool" where
  "cursor_ok font fb s \<longleftrightarrow> unat (term_x s) + 8 \<le> unat (fb_width fb) \<and>
     unat (term_y s) + unat (f_charsize font) \<le> unat (fb_height fb)"

lemma putchar_cursor:
  assumes f: "font_ok font fb" and lim: "unat (fb_width fb) + 40 < 2 ^ 32" "unat (fb_height fb) + 512 < 2 ^ 32"
    and c: "cursor_ok font fb s"
  shows "cursor_ok font fb (snd (putchar font fb ch s))"
proof -
  let ?cs = "f_charsize font" and ?w = "unat (fb_width fb)" and ?h = "unat (fb_height fb)"
  have cs: "unat ?cs < 256" by simp
  have bounds: "unat ?cs \<le> ?h" "8 \<le> ?w" using f by (simp_all add: font_ok_def)
  have l: "?w + 40 < 4294967296" "?h + 512 < 4294967296" using lim by simp_all
  have x0: "unat (term_x s) + 8 \<le> ?w" and y0: "unat (term_y s) + unat ?cs \<le> ?h" using c by (simp_all add: cursor_ok_def)
  let ?s1 = "place_char font fb ch s"
  have addc: "unat (v + ucast ?cs) = unat v + unat ?cs" if "unat v \<le> ?h" for v :: u32
  proof -
    have "unat v + unat ?cs < 4294967296" using that cs l(2) by linarith
    then show ?thesis by (subst unat_plus_small) simp_all
  qed
  have addx: "unat (term_x s + k) = unat (term_x s) + unat k" if "unat k \<le> 32" for k
    using that x0 l(1) by (subst unat_plus_small) simp_all
  have s1: "unat (term_x ?s1) \<le> ?w + 24 \<and> ((unat (term_y ?s1) + unat ?cs \<le> ?h) \<or>
      (unat (term_x ?s1) = 0 \<and> term_y ?s1 = term_y s + ucast ?cs))"
  proof -
    have "8 \<le> term_x s \<Longrightarrow> unat (term_x s - 8) \<le> unat (term_x s)" by (subst unat_minus_le) simp_all
    then show ?thesis using x0 y0 addx [of 32] addx [of 8] by (auto simp: place_char_def)
  qed
  define s2 where "s2 = (if fb_width fb < term_x ?s1 + 8 then ?s1\<lparr>term_x := 0, term_y := term_y ?s1 + ucast ?cs\<rparr> else ?s1)"
  have x8: "unat (term_x ?s1 + 8) = unat (term_x ?s1) + 8" using s1 l(1) by (subst unat_plus_small) simp_all
  have s2: "unat (term_x s2) + 8 \<le> ?w \<and> (unat (term_y s2) + unat ?cs \<le> ?h \<or>
      (\<exists>v. unat v + unat ?cs \<le> ?h \<and> term_y s2 = v + ucast ?cs))"
  proof (cases "fb_width fb < term_x ?s1 + 8")
    case True
    then have "unat (term_x ?s1) \<noteq> 0" using bounds(2) x8 by (auto simp: word_less_nat_alt)
    then show ?thesis using True s1 bounds by (auto simp: s2_def)
  next
    case False
    then show ?thesis using s1 x8 y0 by (auto simp: s2_def word_less_nat_alt)
  qed
  have y2: "unat (term_y s2) \<le> ?h" using s2 addc by fastforce
  show ?thesis
  proof (cases "fb_height fb < term_y s2 + ucast ?cs")
    case False
    then have "cursor_ok font fb s2" using s2 addc [OF y2] by (simp add: cursor_ok_def word_less_nat_alt)
    then show ?thesis using False by (simp add: putchar_def Let_def s2_def [symmetric])
  next
    case True
    then have "\<not> unat (term_y s2) + unat ?cs \<le> ?h" using addc [OF y2] by (simp add: word_less_nat_alt)
    then obtain v where "unat v + unat ?cs \<le> ?h" "term_y s2 = v + ucast ?cs" using s2 by blast
    then have "cursor_ok font fb (scroll font fb s2)" using s2 by (simp add: cursor_ok_def scroll_def Let_def)
    then show ?thesis using True by (simp add: putchar_def Let_def s2_def [symmetric])
  qed
qed

section \<open>Formatting\<close>

text \<open>The text of a format: what each conversion stands for, and the whole string. A \<^verbatim>\<open>%\<close> at the end of
  the format, a missing argument and one of the wrong kind have no text.\<close>

fun piece :: "u8 \<Rightarrow> va_arg list \<Rightarrow> (u8 list \<times> va_arg list) option" where
  "piece d args =
     (if d = 115
      then (case args of
              VStr s # r \<Rightarrow> if terminated s then Some (cstr s, r) else None
            | VNull # r \<Rightarrow> Some (cstr (c_str ''(null)''), r)
            | _ \<Rightarrow> None)
      else if d \<in> {100, 105} then (case args of VInt v # r \<Rightarrow> Some (itoa_text 10 (unat v), r) | _ \<Rightarrow> None)
      else if d \<in> {120, 88} then (case args of VInt v # r \<Rightarrow> Some (itoa_text 16 (unat v), r) | _ \<Rightarrow> None)
      else if d = 99 then (case args of VInt v # r \<Rightarrow> Some ([ucast v], r) | _ \<Rightarrow> None)
      else Some ([d], args))"

fun render :: "u8 list \<Rightarrow> va_arg list \<Rightarrow> u8 list option" where
  "render [] args = Some []"
| "render (c # f) args =
     (if c \<noteq> 37 then map_option ((#) c) (render f args)
      else (case f of [] \<Rightarrow> None
            | d # f' \<Rightarrow>
                (case piece d args of None \<Rightarrow> None
                 | Some (t, r) \<Rightarrow> map_option ((@) t) (render f' r))))"

definition place :: "u8 list \<Rightarrow> nat \<Rightarrow> u8 list \<Rightarrow> u8 list" where
  "place str p t = take p str @ t @ drop (p + length t) str"

lemma place_facts:
  "length (place str p t) = length str" if "p + length t \<le> length str"
  using that by (simp add: place_def)

lemma place_place:
  assumes "p + length t + length u \<le> length str"
  shows "place (place str p t) (p + length t) u = place str p (t @ u)"
proof -
  have "take (p + length t) (place str p t) = take p str @ t" using assms by (simp add: place_def)
  moreover have "drop (p + length t + length u) (place str p t) = drop (p + length t + length u) str"
    using assms by (simp add: place_def add_ac)
  ultimately show ?thesis by (simp add: place_def [of "place str p t"] place_def [of str p "t @ u"] add.assoc)
qed

lemma place_one: "p < length str \<Longrightarrow> str[p := c] = place str p [c]"
  by (simp add: place_def upd_conv_take_nth_drop)

lemma place_none [simp]: "place str p [] = str"
  by (simp add: place_def)

lemma put_byte_spec: "put_byte str p c = (if p < length str then Some (place str p [c], Suc p) else None)"
  by (simp add: put_byte_def wr_def place_one)

lemma copy_text_spec:
  assumes "p \<le> length str"
  shows "copy_text s i str p =
    (if terminated (drop i s) \<and> p + length (cstr (drop i s)) \<le> length str
     then Some (place str p (cstr (drop i s)), p + length (cstr (drop i s))) else None)"
  using assms
proof (induction s i str p rule: copy_text.induct)
  case (1 s i str p)
  show ?case
  proof (cases "i < length s")
    case False
    then show ?thesis by (simp add: copy_text.simps rd_def)
  next
    case True
    have dr: "drop i s = s ! i # drop (Suc i) s" by (rule drop_step [OF True])
    show ?thesis
    proof (cases "s ! i = 0")
      case z: True
      then show ?thesis using True 1(2) dr by (simp add: copy_text.simps rd_def terminated_def cstr_def)
    next
      case nz: False
      have t: "terminated (drop i s) \<longleftrightarrow> terminated (drop (Suc i) s)" "cstr (drop i s) = s ! i # cstr (drop (Suc i) s)"
        using dr nz by (simp_all add: terminated_def cstr_def)
      show ?thesis
      proof (cases "p < length str")
        case False
        then show ?thesis using True nz t 1(2) by (simp add: copy_text.simps rd_def wr_def)
      next
        case p: True
        let ?str = "place str p [s ! i]" and ?t = "cstr (drop (Suc i) s)"
        have len: "length ?str = length str" using p by (simp add: place_facts)
        have run: "copy_text s i str p = copy_text s (Suc i) ?str (Suc p)"
          using True nz p by (simp add: copy_text.simps [of s i] rd_def wr_def place_one)
        have pl: "place ?str (Suc p) ?t = place str p (s ! i # ?t)" if "Suc p + length ?t \<le> length str"
          using place_place [of p "[s ! i]" ?t str] that by simp
        have "copy_text s (Suc i) ?str (Suc p) =
          (if terminated (drop (Suc i) s) \<and> Suc p + length ?t \<le> length ?str
           then Some (place ?str (Suc p) ?t, Suc p + length ?t) else None)"
          by (rule 1(1) [of "s ! i"]) (use True nz p len in \<open>simp_all add: rd_def wr_def place_one\<close>)
        then show ?thesis using run t pl len by auto
      qed
    qed
  qed
qed

lemma itoa_buffer:
  assumes "2 \<le> unat base" and "unat base \<le> 36" and "unat v < unat base ^ 60"
  shows "\<exists>buf. itoa v (replicate 64 0) base = Some buf \<and> terminated buf \<and> cstr buf = itoa_text (unat base) (unat v)"
proof -
  let ?t = "itoa_text (unat base) (unat v)"
  have len: "length ?t \<le> 60" using itoa_text_length [OF assms(1,3)] by simp
  have nz: "0 \<notin> set ?t" using itoa_text_facts [OF assms(1,2)] by blast
  have "itoa v (replicate 64 0) base = Some (?t @ 0 # drop (Suc (length ?t)) (replicate 64 0))"
    using itoa_spec [OF assms(1), of v "replicate 64 0"] len by simp
  moreover have "cstr (?t @ 0 # drop (Suc (length ?t)) (replicate 64 0)) = ?t" by (rule cstr_id [OF nz])
  ultimately show ?thesis by (auto simp: terminated_def)
qed

lemma unat_pow60: "unat (v :: u64) < 10 ^ 60" "unat (v :: u64) < 16 ^ 60"
  by (rule less_trans [OF unat_lt64], simp)+

lemma number_text:
  assumes "base = 10 \<or> base = 16" and "p \<le> length str"
  shows "Option.bind (itoa v (replicate 64 0) base) (\<lambda>buf. map_option (Pair r) (copy_text buf 0 str p)) =
    (if p + length (itoa_text (unat base) (unat v)) \<le> length str
     then Some (r, place str p (itoa_text (unat base) (unat v)), p + length (itoa_text (unat base) (unat v))) else None)"
proof -
  have "2 \<le> unat base" "unat base \<le> 36" "unat v < unat base ^ 60" using assms(1) unat_pow60 by auto
  from itoa_buffer [OF this] obtain buf where buf: "itoa v (replicate 64 0) base = Some buf" "terminated buf"
    "cstr buf = itoa_text (unat base) (unat v)" by blast
  show ?thesis using copy_text_spec [OF assms(2), of buf 0] buf by simp
qed

lemma conversion_spec:
  assumes pc: "piece d args = Some (t, r)" and p: "p \<le> length str"
  shows "conversion d args str p =
    (if p + length t \<le> length str then Some (r, place str p t, p + length t) else None)"
proof -
  have null: "terminated (c_str ''(null)'')" by (simp add: c_str_def terminated_def)
  have one: "map_option (Pair q) (put_byte str p b) =
      (if p + length [b] \<le> length str then Some (q, place str p [b], p + length [b]) else None)" for q b
    by (simp add: put_byte_spec)
  consider "d = 115" | "d \<in> {100, 105}" | "d \<in> {120, 88}" | "d = 99" | "d \<notin> {115, 100, 105, 120, 88, 99}" by blast
  then show ?thesis
  proof cases
    case 1
    then show ?thesis using pc copy_text_spec [OF p, of _ 0] null
      by (auto simp: conversion_def split: list.splits va_arg.splits if_splits)
  next
    case 2
    then obtain v where a: "args = VInt v # r" "t = itoa_text 10 (unat v)" using pc by (auto split: list.splits va_arg.splits if_splits)
    have "conversion d args str p = Option.bind (itoa v (replicate 64 0) 10) (\<lambda>buf. map_option (Pair r) (copy_text buf 0 str p))"
      using 2 by (auto simp: conversion_def a(1))
    then show ?thesis using number_text [of 10 p str v r] p a(2) by simp
  next
    case 3
    then obtain v where a: "args = VInt v # r" "t = itoa_text 16 (unat v)" using pc by (auto split: list.splits va_arg.splits if_splits)
    have "conversion d args str p = Option.bind (itoa v (replicate 64 0) 16) (\<lambda>buf. map_option (Pair r) (copy_text buf 0 str p))"
      using 3 by (auto simp: conversion_def a(1))
    then show ?thesis using number_text [of 16 p str v r] p a(2) by simp
  next
    case 4
    then obtain v where "args = VInt v # r" "t = [ucast v]" using pc by (auto split: list.splits va_arg.splits if_splits)
    then show ?thesis using one [of r "ucast v"] 4 by (simp add: conversion_def)
  next
    case 5
    then have a: "t = [d]" "r = args" using pc by auto
    have "conversion d args str p = map_option (Pair args) (put_byte str p d)" using 5 by (simp add: conversion_def)
    then show ?thesis using one [of args d] a by simp
  qed
qed

lemma vsprintk_loop_spec:
  assumes "render f args = Some t" and "0 \<notin> set f" and "p \<le> length str"
  shows "vsprintk_loop (f @ 0 # rest) args str p =
    (if p + length t \<le> length str then Some (place str p t, p + length t) else None)"
  using assms
proof (induction f args arbitrary: t str p rule: render.induct)
  case (1 args)
  then show ?case by simp
next
  case (2 c f args)
  have c: "c \<noteq> 0" "0 \<notin> set f" using 2(4) by auto
  show ?case
  proof (cases "c = 37")
    case False
    then obtain u where u: "render f args = Some u" "t = c # u" using 2(3) by auto
    show ?thesis
    proof (cases "p < length str")
      case True
      have IH: "vsprintk_loop (f @ 0 # rest) args (place str p [c]) (Suc p) =
          (if Suc p + length u \<le> length (place str p [c]) then Some (place (place str p [c]) (Suc p) u, Suc p + length u) else None)"
        by (rule 2(1) [OF False u(1) c(2)]) (use True in \<open>simp add: place_facts\<close>)
      have "vsprintk_loop ((c # f) @ 0 # rest) args str p = vsprintk_loop (f @ 0 # rest) args (place str p [c]) (Suc p)"
        using False c(1) True by (simp add: put_byte_spec)
      moreover have "length (place str p [c]) = length str" using True by (simp add: place_facts)
      moreover have "place (place str p [c]) (Suc p) u = place str p t" if "Suc p + length u \<le> length str"
        using place_place [of p "[c]" u str] that u(2) by simp
      ultimately show ?thesis unfolding IH u(2) using u(2) by auto
    next
      case False': False
      then show ?thesis using False c(1) u(2) by (simp add: put_byte_spec)
    qed
  next
    case True
    obtain d f' where f: "f = d # f'" using 2(3) True by (cases f) auto
    obtain t1 r where pc: "piece d args = Some (t1, r)" using 2(3) True f by (auto split: option.splits simp del: piece.simps)
    obtain t2 where t2: "render f' r = Some t2" "t = t1 @ t2" using 2(3) True f pc by (auto simp del: piece.simps)
    note cv = conversion_spec [OF pc 2(5)]
    show ?thesis
    proof (cases "p + length t1 \<le> length str")
      case fits: True
      have len: "length (place str p t1) = length str" using fits by (simp add: place_facts)
      have IH: "vsprintk_loop (f' @ 0 # rest) r (place str p t1) (p + length t1) =
          (if p + length t1 + length t2 \<le> length (place str p t1)
           then Some (place (place str p t1) (p + length t1) t2, p + length t1 + length t2) else None)"
        by (rule 2(2)) (use True f pc t2 c fits len in \<open>auto simp del: piece.simps\<close>)
      have "vsprintk_loop ((c # f) @ 0 # rest) args str p = vsprintk_loop (f' @ 0 # rest) r (place str p t1) (p + length t1)"
        using True f cv fits by simp
      then show ?thesis using IH len t2(2) place_place [of p t1 t2 str] by (auto simp: add.assoc)
    next
      case False
      then show ?thesis using True f cv t2(2) by simp
    qed
  qed
qed

lemma vsprintk_spec:
  assumes "terminated fmt" and "render (cstr fmt) args = Some t"
  shows "vsprintk str fmt args =
    (if length t < length str then Some (t @ 0 # drop (Suc (length t)) str, length t) else None)"
proof -
  obtain rest where fmt: "fmt = cstr fmt @ 0 # rest" using cstr_split [OF assms(1)] by blast
  have l: "vsprintk_loop fmt args str 0 = (if length t \<le> length str then Some (place str 0 t, length t) else None)"
    using vsprintk_loop_spec [OF assms(2) cstr_nonzero, of 0 str rest] fmt by simp
  show ?thesis
  proof (cases "length t < length str")
    case True
    have "(place str 0 t)[length t := 0] = t @ 0 # drop (Suc (length t)) str"
      using True drop_step [OF True] by (simp add: place_def)
    then show ?thesis using True l by (simp add: vsprintk_def wr_def place_facts)
  next
    case False
    then show ?thesis using l by (auto simp: vsprintk_def wr_def place_facts)
  qed
qed

lemma printk_spec:
  assumes "terminated fmt" and "render (cstr fmt) args = Some t"
  shows "printk font fb fmt args s =
    (if length t < 2048 then Some (int (length t), fold (\<lambda>b s. snd (putchar font fb (sint b) s)) t s) else None)"
proof (cases "length t < 2048")
  case True
  let ?b = "t @ 0 # drop (Suc (length t)) (replicate 2048 0)"
  have "fold (\<lambda>i s. snd (putchar font fb (sint (?b ! i)) s)) [0..<n] s = fold (\<lambda>b s. snd (putchar font fb (sint b) s)) (take n t) s"
    if "n \<le> length t" for n s
    using that
  proof (induction n)
    case (Suc n)
    then show ?case by (simp add: take_Suc_conv_app_nth nth_append)
  qed simp
  from this [of "length t"] show ?thesis
    using True vsprintk_spec [OF assms, of "replicate 2048 0"] by (simp add: printk_def)
next
  case False
  then show ?thesis using vsprintk_spec [OF assms, of "replicate 2048 0"] by (simp add: printk_def)
qed

section \<open>Properties\<close>

definition example_fb :: framebuffer_info where
  "example_fb = \<lparr>fb_addr = 0xFD000000, fb_pitch = 4096, fb_width = 1024, fb_height = 768, fb_bpp = 32\<rparr>"

definition example_font :: psf1_font where
  "example_font = \<lparr>f_magic = PSF1_MAGIC, f_mode = 0, f_charsize = 16, f_glyphs = (\<lambda>_. 0x80)\<rparr>"

definition example_console :: console where
  "example_console = \<lparr>c_mem = (\<lambda>_. 7), term_x = 0, term_y = 0, term_color = 0xFFFFFF\<rparr>"

lemma example_fb_ok: "fb_ok example_fb" and example_font_ok: "font_ok example_font example_fb"
  and example_cursor_ok: "cursor_ok example_font example_fb example_console"
  by (simp_all add: fb_ok_def font_ok_def cursor_ok_def example_fb_def example_font_def example_console_def P2V_def
      KERNEL_VIRTUAL_BASE_def word_less_nat_alt)

text \<open>C21: Formatted output. Whenever the format has a text (its conversions have their arguments, in
  order; integers print as unsigned 64-bit numbers, in decimal for \<^verbatim>\<open>%d\<close> too), \<^verbatim>\<open>vsprintk\<close> writes exactly that text
  with a terminator and returns its length, leaving the rest of the buffer, and runs over the buffer when it
  is one byte too small; \<^verbatim>\<open>printk\<close> puts the characters on the console one by one, for texts of up to 2047 characters, and
  overruns its buffer beyond.\<close>

theorem printk_text:
  assumes "terminated fmt" and "render (cstr fmt) args = Some t"
  shows "vsprintk str fmt args =
      (if length t < length str then Some (t @ 0 # drop (Suc (length t)) str, length t) else None) \<and>
    printk font fb fmt args s =
      (if length t < 2048 then Some (int (length t), fold (\<lambda>b s. snd (putchar font fb (sint b) s)) t s) else None)"
  using vsprintk_spec [OF assms] printk_spec [OF assms] by blast

theorem printk_text_witness:
  "\<exists>t s. printk example_font example_fb (c_str ''%d'') [VInt (- 1)] example_console = Some (int (length t), s) \<and>
     parse_number 10 t = 18446744073709551615"
proof -
  let ?t = "itoa_text 10 (unat (- 1 :: u64))"
  have f: "terminated (c_str ''%d'')" "cstr (c_str ''%d'') = [37, 100]" by (simp_all add: c_str_def terminated_def cstr_def)
  have r: "render (cstr (c_str ''%d'')) [VInt (- 1)] = Some ?t" unfolding f(2) by simp
  have u: "unat (- 1 :: u64) = 18446744073709551615" by (simp add: unsigned_minus_1_eq_mask mask_eq_exp_minus_1)
  have len: "length ?t \<le> 60" using itoa_text_length [of 10 "unat (- 1 :: u64)" 60] unat_pow60(1) by simp
  have p: "parse_number 10 ?t = 18446744073709551615"
    using itoa_text_facts [of 10 "unat (- 1 :: u64)"] u by simp
  from printk_text [OF f(1) r, of "[]" example_font example_fb example_console] len p show ?thesis by auto
qed

text \<open>Drawing. On a framebuffer of 32-bit pixels, what is on the screen afterwards: \<^verbatim>\<open>put_pixel\<close> colours
  one pixel and no other, and none off the screen; \<^verbatim>\<open>draw_rect\<close> colours the part of the rectangle on the screen; \<^verbatim>\<open>clear_screen\<close>
  everything; \<^verbatim>\<open>draw_char\<close> colours the pixels whose bit is set in the character's glyph, most significant bit
  left, and leaves the others.\<close>

theorem screen_drawing:
  assumes ok: "fb_ok fb" and magic: "f_magic font = PSF1_MAGIC"
  shows "get_pixel fb x' y' (put_pixel fb x y c m) =
      (if x' = x \<and> y' = y \<and> on_screen fb x y then c else get_pixel fb x' y' m) \<and>
    get_pixel fb x' y' (clear_screen fb c m) = (if on_screen fb x' y' then c else 0) \<and>
    (unat x + unat w \<le> 2 ^ 32 \<and> unat y + unat h \<le> 2 ^ 32 \<longrightarrow>
      get_pixel fb x' y' (draw_rect fb x y w h c m) =
        (if unat x \<le> unat x' \<and> unat x' < unat x + unat w \<and> unat y \<le> unat y' \<and> unat y' < unat y + unat h \<and> on_screen fb x' y'
         then c else get_pixel fb x' y' m)) \<and>
    (unat x + 8 \<le> 2 ^ 32 \<and> unat y + unat (f_charsize font) \<le> 2 ^ 32 \<longrightarrow>
      get_pixel fb x' y' (draw_char font fb ch x y c m) =
        (if unat x \<le> unat x' \<and> unat x' < unat x + 8 \<and> unat y \<le> unat y' \<and> unat y' < unat y + unat (f_charsize font) \<and>
            bit (f_glyphs font (unat ch * unat (f_charsize font) + (unat y' - unat y))) (7 - (unat x' - unat x)) \<and> on_screen fb x' y'
         then c else get_pixel fb x' y' m))"
  using get_put_pixel [OF ok, of x' y' x y c m] get_clear_screen [OF ok, of x' y' c m]
    get_draw_rect [OF ok, of x w y h x' y' c m] get_draw_char [OF ok magic, of x y x' y' ch c m] by blast

theorem screen_drawing_witness:
  "get_pixel example_fb 8 16 (draw_char example_font example_fb 65 8 16 0xFF0000 (\<lambda>_. 0)) = 0xFF0000 \<and>
   get_pixel example_fb 3 5 (put_pixel example_fb 3 5 0xABCDEF (\<lambda>_. 0)) = 0xABCDEF"
proof -
  have m: "f_magic example_font = PSF1_MAGIC" by (simp add: example_font_def)
  have b: "bit (0x80 :: u8) 7" by simp
  show ?thesis
    using screen_drawing [OF example_fb_ok m, of 8 16 8 16 "0xFF0000" "\<lambda>_. 0" 0 0 65]
      screen_drawing [OF example_fb_ok m, of 3 5 3 5 "0xABCDEF" "\<lambda>_. 0" 0 0 0] b
    by (simp add: example_font_def example_fb_def on_screen_def)
qed

text \<open>Scrolling. The screen moves up by one text line: every pixel takes the colour of the one a text
  line below, the last text line becomes black, and the cursor moves up with it.\<close>

theorem scroll_moves:
  assumes "fb_ok fb" and "font_ok font fb" and "on_screen fb x y"
  shows "get_pixel fb x y (c_mem (scroll font fb s)) =
    (if unat y + unat (f_charsize font) < unat (fb_height fb)
     then get_pixel fb x (y + ucast (f_charsize font)) (c_mem s) else 0) \<and>
    term_y (scroll font fb s) = term_y s - ucast (f_charsize font) \<and> term_x (scroll font fb s) = term_x s"
  using scroll_pixels [OF assms] by (simp add: scroll_def Let_def)

theorem scroll_moves_witness:
  "get_pixel example_fb 5 767 (c_mem (scroll example_font example_fb example_console)) = 0"
proof -
  have on: "on_screen example_fb 5 767" by (simp add: on_screen_def example_fb_def)
  show ?thesis using scroll_moves [OF example_fb_ok example_font_ok on, of example_console]
    by (simp add: example_fb_def example_font_def)
qed

text \<open>C22: The terminal never writes off the screen. Whatever characters are printed, control characters
  included, the cursor stays where a whole character fits, wrapping at the right edge and scrolling at the bottom.\<close>

theorem terminal_cursor:
  assumes "font_ok font fb" and "unat (fb_width fb) + 40 < 2 ^ 32" and "unat (fb_height fb) + 512 < 2 ^ 32"
    and "unat (term_x s) + 8 \<le> unat (fb_width fb)" and "unat (term_y s) + unat (f_charsize font) \<le> unat (fb_height fb)"
  shows "let s' = fold (\<lambda>ch s. snd (putchar font fb ch s)) chars s in unat (term_x s') + 8 \<le> unat (fb_width fb) \<and> unat (term_y s') + unat (f_charsize font) \<le> unat (fb_height fb)"
proof -
  have "cursor_ok font fb s \<Longrightarrow> cursor_ok font fb (fold (\<lambda>ch s. snd (putchar font fb ch s)) chars s)"
    by (induction chars arbitrary: s) (simp_all add: putchar_cursor [OF assms(1-3)])
  then show ?thesis using assms(4,5) by (simp add: cursor_ok_def Let_def)
qed

theorem terminal_cursor_witness:
  "unat (term_x (fold (\<lambda>ch s. snd (putchar example_font example_fb ch s)) [65, 10, 9, 8, 13] example_console)) + 8 \<le> 1024"
  using terminal_cursor [OF example_font_ok, of example_console "[65, 10, 9, 8, 13]"]
  by (simp add: example_fb_def example_font_def example_console_def Let_def)

end
