(* ===== verification/Bmp.thy ===== *)
theory Bmp
  imports Console Kheap
begin

text \<open>
  Bitmap images: the decoder and painter of \<^verbatim>\<open>kernel/GPU/bmp.c\<close> on the structures of
  \<^verbatim>\<open>include/LySys/file/bmp.h\<close>. The decoded image lives in the kernel heap.
\<close>

section \<open>Decoding\<close>

text \<open>Offsets of the fields of \<^verbatim>\<open>bmp_file_header_t\<close> (14 bytes, packed) and of \<^verbatim>\<open>bmp_info_header_t\<close> behind it.\<close>

record bmp_header =
  bfType :: u16
  bfOffBits :: u32
  biWidth :: u32
  biHeight :: u32
  biBitCount :: u16
  biCompression :: u32

definition read_bmp_header :: "mem \<Rightarrow> u64 \<Rightarrow> bmp_header" where
  "read_bmp_header m data =
     (let info = data + 14 in
      \<lparr>bfType = ld16 m data, bfOffBits = ld32 m (data + 10), biWidth = ld32 m (info + 4), biHeight = ld32 m (info + 8),
       biBitCount = ld16 m (info + 14), biCompression = ld32 m (info + 16)\<rparr>)"

text \<open>One pixel: the colour and the pointer behind it. The file's alpha byte is skipped, alpha is 255.\<close>

definition take_pixel :: "nat \<Rightarrow> mem \<Rightarrow> u64 \<Rightarrow> u32 \<times> u64" where
  "take_pixel bpp m p =
     (let b = m p; g = m (p + 1); r = m (p + 2)
      in (push_bit 24 255 OR push_bit 16 (ucast r) OR push_bit 8 (ucast g) OR ucast b, if bpp = 4 then p + 4 else p + 3))"

text \<open>A row, and all rows. The pointer \<^verbatim>\<open>img->pixels\<close> is read from the structure for every pixel stored.\<close>

definition bmp_row :: "nat \<Rightarrow> u32 \<Rightarrow> u64 \<Rightarrow> u32 \<Rightarrow> u64 \<times> mem \<Rightarrow> u64 \<times> mem" where
  "bmp_row bpp width img target_y =
     fold (\<lambda>x (p, m). let (c, p') = take_pixel bpp m p
                       in (p', st32 m (ld64 m (img + 8) + 4 * ucast (target_y * width + of_nat x)) c)) [0..<unat width]"

definition bmp_rows :: "nat \<Rightarrow> u64 \<Rightarrow> bool \<Rightarrow> u32 \<Rightarrow> u32 \<Rightarrow> u64 \<Rightarrow> u64 \<times> mem \<Rightarrow> u64 \<times> mem" where
  "bmp_rows bpp padding is_bottom_up width height img =
     fold (\<lambda>y s. let target_y = (if is_bottom_up then height - 1 - of_nat y else of_nat y);
                      (p, m) = bmp_row bpp width img target_y s
                  in (p + padding, m)) [0..<unat height]"

definition pixel_bytes :: "u32 \<Rightarrow> u32 \<Rightarrow> u64" where
  "pixel_bytes width height = ucast (width * height * 4)"

definition row_padding :: "u32 \<Rightarrow> nat \<Rightarrow> u32" where
  "row_padding width bpp = (4 - (width * of_nat bpp) mod 4) mod 4"

text \<open>The image structure: \<^verbatim>\<open>width\<close>, \<^verbatim>\<open>height\<close> and, at offset 8, the pointer \<^verbatim>\<open>pixels\<close>; 16 bytes. The first
  allocation is not checked.\<close>

definition bmp_parse :: "u64 \<Rightarrow> mm \<Rightarrow> (u64 \<times> mm) option" where
  "bmp_parse data s =
     (if data = 0 then Some (0, s)
      else let hd = read_bmp_header (mm_mem s) data in
        if bfType hd \<noteq> 0x4D42 then Some (0, s)
        else if biBitCount hd \<noteq> 24 \<and> biBitCount hd \<noteq> 32 then Some (0, s)
        else if biCompression hd \<noteq> 0 then Some (0, s)
        else let width = biWidth hd;
                 is_bottom_up = 0 < sint (biHeight hd);
                 height = (if is_bottom_up then biHeight hd else - biHeight hd);
                 pixel_data = data + ucast (bfOffBits hd)
          in do { (img, s1) \<leftarrow> kmalloc 16 s;
                  let m1 = st32 (st32 (mm_mem s1) img width) (img + 4) height;
                  (pixels, s2) \<leftarrow> kmalloc (pixel_bytes width height) (s1\<lparr>mm_mem := m1\<rparr>);
                  let m2 = st64 (mm_mem s2) (img + 8) pixels;
                  if pixels = 0
                  then do { s3 \<leftarrow> kfree img (s2\<lparr>mm_mem := m2\<rparr>); Some (0, s3) }
                  else (let bpp = unat (biBitCount hd) div 8;
                            padding = ucast (row_padding width bpp);
                            (p, m3) = bmp_rows bpp padding is_bottom_up width height img (pixel_data, m2)
                        in Some (img, s2\<lparr>mm_mem := m3\<rparr>)) })"

section \<open>Painting\<close>

lemma unat_next: "x < n \<Longrightarrow> unat (x + 1 :: u32) = Suc (unat x)"
proof -
  assume "x < n"
  then have "unat x + 1 < 4294967296" using unat_lt32 [of n] unfolding word_less_nat_alt by linarith
  then show ?thesis by (subst unat_plus_small) simp_all
qed

lemma unat_next_measure: "x < n \<Longrightarrow> 2 ^ 32 - unat (x + 1 :: u32) < 2 ^ 32 - unat x"
proof -
  assume "x < n"
  then have "unat (x + 1) = Suc (unat x)" by (rule unat_next)
  moreover have "unat x < 2 ^ 32" using unat_lt32 [of x] by simp
  ultimately show ?thesis by linarith
qed

text \<open>\<^verbatim>\<open>img->width\<close> and \<^verbatim>\<open>img->height\<close> are read again in every iteration.\<close>

function draw_cols :: "framebuffer_info \<Rightarrow> u64 \<Rightarrow> u32 \<Rightarrow> u32 \<Rightarrow> u32 \<Rightarrow> u32 \<Rightarrow> mem \<Rightarrow> mem" where
  "draw_cols fb img start_x start_y y x m =
     (if x < ld32 m img
      then let color = ld32 m (ld64 m (img + 8) + 4 * ucast (y * ld32 m img + x));
               m' = (if drop_bit 24 color = 0 then m else put_pixel fb (start_x + x) (start_y + y) (color AND 0xFFFFFF) m)
           in draw_cols fb img start_x start_y y (x + 1) m'
      else m)"
  by pat_completeness auto
termination
  by (relation "measure (\<lambda>(fb, img, start_x, start_y, y, x, m). 2 ^ 32 - unat x)", simp, unfold in_measure prod.case, rule unat_next_measure)

function draw_rows :: "framebuffer_info \<Rightarrow> u64 \<Rightarrow> u32 \<Rightarrow> u32 \<Rightarrow> u32 \<Rightarrow> mem \<Rightarrow> mem" where
  "draw_rows fb img start_x start_y y m =
     (if y < ld32 m (img + 4)
      then draw_rows fb img start_x start_y (y + 1) (draw_cols fb img start_x start_y y 0 m)
      else m)"
  by pat_completeness auto
termination
  by (relation "measure (\<lambda>(fb, img, start_x, start_y, y, m). 2 ^ 32 - unat y)", simp, unfold in_measure prod.case, rule unat_next_measure)

definition bmp_draw :: "framebuffer_info \<Rightarrow> u64 \<Rightarrow> u32 \<Rightarrow> u32 \<Rightarrow> mem \<Rightarrow> mem" where
  "bmp_draw fb img start_x start_y m =
     (if img = 0 \<or> ld64 m (img + 8) = 0 then m else draw_rows fb img start_x start_y 0 m)"

definition bmp_free :: "u64 \<Rightarrow> mm \<Rightarrow> mm option" where
  "bmp_free img s =
     (if img = 0 then Some s
      else do { s1 \<leftarrow> (if ld64 (mm_mem s) (img + 8) \<noteq> 0 then kfree (ld64 (mm_mem s) (img + 8)) s else Some s);
                kfree img s1 })"

declare draw_cols.simps [simp del] draw_rows.simps [simp del]

section \<open>Arrays of pixels\<close>

text \<open>Cell \<open>i\<close> of the pixel array, and a sequence of stores into it.\<close>

definition cell :: "u64 \<Rightarrow> nat \<Rightarrow> u64" where
  "cell P i = P + of_nat (4 * i)"

definition store_cells :: "u64 \<Rightarrow> (nat \<times> u32) list \<Rightarrow> mem \<Rightarrow> mem" where
  "store_cells P ivs = fold (\<lambda>(i, v) m. st32 m (cell P i) v) ivs"

lemma store_cells_append: "store_cells P (xs @ ys) m = store_cells P ys (store_cells P xs m)"
  by (simp add: store_cells_def)

lemma cell_unat:
  assumes "unat P + 4 * N < 2 ^ 64" and "i < N"
  shows "unat (cell P i) = unat P + 4 * i"
proof -
  have le: "4 * i \<le> 4 * N" using assms(2) by simp
  have "4 * i < 2 ^ 64" by (rule le_less_trans [OF le le_less_trans [OF le_add2 assms(1)]])
  then have "unat (of_nat (4 * i) :: u64) = 4 * i" by (rule unat_nat64)
  moreover have "unat P + 4 * i < 2 ^ 64" by (rule le_less_trans [OF add_left_mono [OF le] assms(1)])
  ultimately show ?thesis unfolding cell_def by (subst unat_plus_small) simp_all
qed

lemma cells_apart:
  assumes "unat P + 4 * N < 2 ^ 64" and "i < N" and "j < N" and "i \<noteq> j"
  shows "apart (cell P i) 4 (cell P j) 4"
proof -
  have u: "unat (cell P i) = unat P + 4 * i" "unat (cell P j) = unat P + 4 * j"
    using cell_unat [OF assms(1)] assms(2,3) by auto
  have lt: "unat P + 4 * i + 4 \<le> 2 ^ 64" "unat P + 4 * j + 4 \<le> 2 ^ 64"
    by (rule order_trans [OF _ less_imp_le [OF assms(1)]], use assms(2,3) in linarith)+
  show ?thesis
  proof (cases "i < j")
    case True
    then show ?thesis using u lt by (intro apart_linear) simp_all
  next
    case False
    then show ?thesis using u lt assms(4) by (intro apart_sym [OF apart_linear]) simp_all
  qed
qed

lemma store_cells_other:
  assumes "unat P + 4 * N < 2 ^ 64" and "fst ` set ivs \<subseteq> {..<N}" and "j < N" and "j \<notin> fst ` set ivs"
  shows "ld32 (store_cells P ivs m) (cell P j) = ld32 m (cell P j)"
  using assms(2,4)
proof (induction ivs arbitrary: m)
  case (Cons iv ivs)
  obtain i v where iv: "iv = (i, v)" by force
  have "apart (cell P i) 4 (cell P j) 4" using Cons.prems iv assms(3) by (intro cells_apart [OF assms(1)]) auto
  then show ?case using Cons iv by (simp add: store_cells_def mem_simps)
qed (simp add: store_cells_def)

lemma store_cells_read:
  assumes "unat P + 4 * N < 2 ^ 64" and "fst ` set ivs \<subseteq> {..<N}" and "distinct (map fst ivs)" and "(i, v) \<in> set ivs"
  shows "ld32 (store_cells P ivs m) (cell P i) = v"
  using assms(2-4)
proof (induction ivs arbitrary: m)
  case (Cons iv ivs)
  show ?case
  proof (cases "iv = (i, v)")
    case True
    then have "i < N" "i \<notin> fst ` set ivs" "fst ` set ivs \<subseteq> {..<N}" using Cons.prems by auto
    then show ?thesis using store_cells_other [OF assms(1), of ivs i "st32 m (cell P i) v"] True
      by (simp add: store_cells_def mem_simps)
  next
    case False
    then show ?thesis using Cons by (auto simp: store_cells_def split_def)
  qed
qed simp

lemma st32_same_outside:
  "unat a + 4 \<le> 2 ^ 64 \<Longrightarrow> same_outside (unat a) (unat a + 4) m (st32 m a v)"
  using stn_same_outside [of "unat a" "le_bytes 4 v" m] by (simp add: st32_def)

lemma store_cells_outside:
  assumes "unat P + 4 * N < 2 ^ 64" and "fst ` set ivs \<subseteq> {..<N}"
  shows "same_outside (unat P) (unat P + 4 * N) m (store_cells P ivs m)"
  using assms(2)
proof (induction ivs arbitrary: m)
  case (Cons iv ivs)
  obtain i v where iv: "iv = (i, v)" by force
  have i: "i < N" using Cons.prems iv by auto
  have c: "unat (cell P i) = unat P + 4 * i" by (rule cell_unat [OF assms(1) i])
  have "unat P + 4 * i + 4 \<le> 2 ^ 64" by (rule order_trans [OF _ less_imp_le [OF assms(1)]]) (use i in linarith)
  then have "same_outside (unat (cell P i)) (unat (cell P i) + 4) m (st32 m (cell P i) v)"
    by (intro st32_same_outside) (simp only: c)
  then have "same_outside (unat P) (unat P + 4 * N) m (st32 m (cell P i) v)"
    by (rule same_outside_mono) (use c i in simp_all)
  moreover have "same_outside (unat P) (unat P + 4 * N) (st32 m (cell P i) v) (store_cells P ivs (st32 m (cell P i) v))"
    using Cons by simp
  ultimately have "same_outside (unat P) (unat P + 4 * N) m (store_cells P ivs (st32 m (cell P i) v))" by (rule same_outside_step)
  then show ?case using iv by (simp add: store_cells_def)
qed (simp add: store_cells_def)

section \<open>The decoder's loops\<close>

text \<open>The colour decoded from three bytes of the file.\<close>

definition colour_at :: "mem \<Rightarrow> u64 \<Rightarrow> u32" where
  "colour_at m p = push_bit 24 255 OR push_bit 16 (ucast (m (p + 2))) OR push_bit 8 (ucast (m (p + 1))) OR ucast (m p)"

lemma take_pixel_eq:
  "bpp = 3 \<or> bpp = 4 \<Longrightarrow> take_pixel bpp m p = (colour_at m p, p + of_nat bpp)"
  by (auto simp: take_pixel_def colour_at_def Let_def)

text \<open>The array and the file data do not meet: the array has \<open>N\<close> cells, the data \<open>n\<close> bytes.\<close>

definition separate :: "u64 \<Rightarrow> nat \<Rightarrow> u64 \<Rightarrow> nat \<Rightarrow> bool" where
  "separate P N D n \<longleftrightarrow> unat P + 4 * N < 2 ^ 64 \<and> unat D + n < 2 ^ 64 \<and> (unat D + n \<le> unat P \<or> unat P + 4 * N \<le> unat D)"

lemma data_unat:
  assumes "separate P N D n" and "k < n"
  shows "unat (D + of_nat k) = unat D + k" and "\<not> (unat P \<le> unat (D + of_nat k) \<and> unat (D + of_nat k) < unat P + 4 * N)"
proof -
  have "k < 2 ^ 64" using assms by (auto simp: separate_def)
  then have "unat (of_nat k :: u64) = k" by (rule unat_nat64)
  then show u: "unat (D + of_nat k) = unat D + k" using assms by (subst unat_plus_small) (auto simp: separate_def)
  show "\<not> (unat P \<le> unat (D + of_nat k) \<and> unat (D + of_nat k) < unat P + 4 * N)"
    unfolding u using assms by (auto simp: separate_def)
qed

lemma colour_at_low:
  assumes "\<And>j. j < n \<Longrightarrow> m' (D + of_nat j) = m (D + of_nat j)" and "k + 3 \<le> n"
  shows "colour_at m' (D + of_nat k) = colour_at m (D + of_nat k)"
  using assms(1) [of k] assms(1) [of "k + 1"] assms(1) [of "k + 2"] assms(2)
  by (simp add: colour_at_def add_ac)

lemma colour_same:
  assumes "separate P N D n" and "k + 3 \<le> n" and "same_outside (unat P) (unat P + 4 * N) m m'"
  shows "colour_at m' (D + of_nat k) = colour_at m (D + of_nat k)"
  using data_unat(2) [OF assms(1)] assms(2,3) by (intro colour_at_low [of n]) (auto simp: same_outside_def)

lemma upt_split: "k \<le> n \<Longrightarrow> [0..<n] = [0..<k] @ [k..<n]"
  using upt_add_eq_append [of 0 k "n - k"] by simp

text \<open>The structure of the image lies outside the array: whatever is stored into the array, its pointer stays.\<close>

definition keeps_pointer :: "u64 \<Rightarrow> u64 \<Rightarrow> nat \<Rightarrow> mem \<Rightarrow> bool" where
  "keeps_pointer img P N m \<longleftrightarrow> (\<forall>m'. same_outside (unat P) (unat P + 4 * N) m m' \<longrightarrow> ld64 m' (img + 8) = P)"

lemma keeps_pointer_step: "keeps_pointer img P N m \<Longrightarrow> same_outside (unat P) (unat P + 4 * N) m m' \<Longrightarrow> keeps_pointer img P N m'"
  by (auto simp: keeps_pointer_def intro: same_outside_step)

text \<open>A row writes the colours of its bytes into its cells. \<open>R\<close> is the row it writes to, \<open>off\<close> the offset of its
  first byte.\<close>

lemma bmp_row_upto:
  fixes width target_y :: u32
  assumes sep: "separate P (w * h) D n" and bpp: "bpp = 3 \<or> bpp = 4" and small: "w * h < 2 ^ 30"
    and R: "R < h" and off: "off + w * bpp \<le> n" and k: "k \<le> w" and w: "unat width = w" and R': "unat target_y = R"
    and ptr: "keeps_pointer img P (w * h) m"
  shows "fold (\<lambda>x (p, m). let (c, p') = take_pixel bpp m p
                       in (p', st32 m (ld64 m (img + 8) + 4 * ucast (target_y * width + of_nat x)) c)) [0..<k] (D + of_nat off, m) =
    (D + of_nat (off + k * bpp), store_cells P (map (\<lambda>x. (R * w + x, colour_at m (D + of_nat (off + x * bpp)))) [0..<k]) m)"
  using k
proof (induction k)
  case 0
  then show ?case by (simp add: store_cells_def)
next
  case (Suc k)
  let ?ivs = "map (\<lambda>x. (R * w + x, colour_at m (D + of_nat (off + x * bpp)))) [0..<k]"
  have idx: "R * w + x < w * h" if "x < w" for x
  proof -
    have "R * w + x < Suc R * w" using that by simp
    also have "\<dots> \<le> h * w" using R by (intro mult_le_mono1) simp
    finally show ?thesis by (simp add: mult.commute)
  qed
  have "fst ` set ?ivs \<subseteq> {..<w * h}" using idx Suc.prems by auto
  from store_cells_outside [OF _ this] sep
  have out: "same_outside (unat P) (unat P + 4 * (w * h)) m (store_cells P ?ivs m)" by (simp add: separate_def)
  have le: "off + k * bpp + bpp \<le> n"
  proof -
    have "Suc k * bpp \<le> w * bpp" using Suc.prems by (intro mult_le_mono1) simp
    then show ?thesis using off by simp
  qed
  have col: "colour_at (store_cells P ?ivs m) (D + of_nat (off + k * bpp)) = colour_at m (D + of_nat (off + k * bpp))"
    by (rule colour_same [OF sep _ out]) (use le bpp in auto)
  have P: "ld64 (store_cells P ?ivs m) (img + 8) = P" using ptr out by (simp add: keeps_pointer_def)
  have "unat (target_y * width + of_nat k) = R * w + k"
  proof -
    have lt: "R * w + k < 4294967296" using idx [of k] Suc.prems small by simp
    then have "unat (target_y * width) = R * w" using w R' by (simp add: unat_word_ariths)
    moreover have "unat (of_nat k :: u32) = k" using lt by simp
    ultimately show ?thesis using lt by (subst unat_plus_small) simp_all
  qed
  then have "ucast (target_y * width + of_nat k) = (of_nat (R * w + k) :: u64)"
    by (metis of_nat_unat unat_ucast_32_64 word_of_nat_eq_iff)
  then have c: "P + 4 * ucast (target_y * width + of_nat k) = cell P (R * w + k)" by (simp add: cell_def)
  have "fold (\<lambda>x (p, m). let (c, p') = take_pixel bpp m p
                       in (p', st32 m (ld64 m (img + 8) + 4 * ucast (target_y * width + of_nat x)) c)) [0..<Suc k] (D + of_nat off, m) =
    (D + of_nat (off + k * bpp) + of_nat bpp,
     st32 (store_cells P ?ivs m) (cell P (R * w + k)) (colour_at m (D + of_nat (off + k * bpp))))"
    unfolding upt_Suc_append [OF le0] fold_append comp_apply Suc.IH [OF Suc_leD [OF Suc.prems]]
    by (simp only: fold_simps id_apply prod.case Let_def take_pixel_eq [OF bpp] col P c)
  also have "\<dots> = (D + of_nat (off + Suc k * bpp),
      store_cells P (map (\<lambda>x. (R * w + x, colour_at m (D + of_nat (off + x * bpp)))) [0..<Suc k]) m)"
    by (simp add: store_cells_def add_ac)
  finally show ?case .
qed

text \<open>The whole picture: for every row, the row of the array it goes to and the offset of its data.\<close>

definition target_row :: "bool \<Rightarrow> nat \<Rightarrow> nat \<Rightarrow> nat" where
  "target_row bottom_up h y = (if bottom_up then h - 1 - y else y)"

definition picture :: "bool \<Rightarrow> nat \<Rightarrow> nat \<Rightarrow> nat \<Rightarrow> nat \<Rightarrow> mem \<Rightarrow> u64 \<Rightarrow> nat \<Rightarrow> (nat \<times> u32) list" where
  "picture bottom_up bpp stride w h m D k =
     concat (map (\<lambda>y. map (\<lambda>x. (target_row bottom_up h y * w + x, colour_at m (D + of_nat (y * stride + x * bpp)))) [0..<w]) [0..<k])"

lemma target_row_less: "y < h \<Longrightarrow> target_row b h y < h" and target_row_inj:
  "y < h \<Longrightarrow> y' < h \<Longrightarrow> target_row b h y = target_row b h y' \<Longrightarrow> y = y'"
  by (auto simp: target_row_def split: if_splits)

lemma grid_index:
  assumes "x < (w :: nat)" and "x' < w" and "R * w + x = R' * w + x'"
  shows "R = R' \<and> x = x'"
proof -
  have "R = (R * w + x) div w" "R' = (R' * w + x') div w" using assms(1,2) by simp_all
  then have "R = R'" using assms(3) by metis
  then show ?thesis using assms(3) by simp
qed

lemma grid_less: "x < (w :: nat) \<Longrightarrow> R < h \<Longrightarrow> R * w + x < w * h"
proof -
  assume "x < w" "R < h"
  then have "R * w + x < Suc R * w" by simp
  also have "Suc R * w \<le> h * w" using \<open>R < h\<close> by (intro mult_le_mono1) simp
  finally show ?thesis by (simp add: mult.commute)
qed

lemma picture_indices:
  assumes "k \<le> h"
  shows "fst ` set (picture b bpp stride w h m D k) \<subseteq> {..<w * h}" and "distinct (map fst (picture b bpp stride w h m D k))"
proof -
  show "fst ` set (picture b bpp stride w h m D k) \<subseteq> {..<w * h}"
    using assms grid_less target_row_less by (auto simp: picture_def)
  show "distinct (map fst (picture b bpp stride w h m D k))"
    using assms
  proof (induction k)
    case (Suc k)
    have new: "map fst (picture b bpp stride w h m D (Suc k)) =
        map fst (picture b bpp stride w h m D k) @ map (\<lambda>x. target_row b h k * w + x) [0..<w]"
      by (simp add: picture_def comp_def)
    have "set (map fst (picture b bpp stride w h m D k)) \<inter> set (map (\<lambda>x. target_row b h k * w + x) [0..<w]) = {}"
    proof -
      have False if "y < k" "x < w" "x' < w" "target_row b h y * w + x = target_row b h k * w + x'" for y x x'
        using grid_index [OF that(2,3,4)] target_row_inj [of y h k b] that(1) Suc.prems by auto
      note clash = this
      have "z \<notin> set (map (\<lambda>x. target_row b h k * w + x) [0..<w])" if z: "z \<in> set (map fst (picture b bpp stride w h m D k))" for z
      proof
        assume "z \<in> set (map (\<lambda>x. target_row b h k * w + x) [0..<w])"
        then have "z \<in> (\<lambda>x. target_row b h k * w + x) ` {0..<w}" by (simp only: set_map set_upt)
        then obtain x' where x': "x' < w" "z = target_row b h k * w + x'" by (elim imageE) simp
        obtain y x where "y < k" "x < w" "z = target_row b h y * w + x" using z by (auto simp: picture_def)
        then show False using clash x' by metis
      qed
      then show ?thesis by blast
    qed
    moreover have "distinct (map (\<lambda>x. target_row b h k * w + x) [0..<w])" by (simp add: distinct_map inj_on_def)
    ultimately show ?case using Suc unfolding new by simp
  qed (simp add: picture_def)
qed

lemma bmp_rows_spec:
  assumes sep: "separate P (w * h) D (h * stride)" and bpp: "bpp = 3 \<or> bpp = 4" and small: "w * h < 2 ^ 30" "h < 2 ^ 32"
    and stride: "stride = w * bpp + pad" and w: "unat width = w" and h: "unat height = h"
    and ptr: "keeps_pointer img P (w * h) m"
  shows "bmp_rows bpp (of_nat pad) bottom_up width height img (D, m) =
    (D + of_nat (h * stride), store_cells P (picture bottom_up bpp stride w h m D h) m)"
proof -
  have "fold (\<lambda>y s. let target_y = (if bottom_up then height - 1 - of_nat y else of_nat y);
                      (p, m) = bmp_row bpp width img target_y s
                  in (p + of_nat pad, m)) [0..<k] (D, m) =
      (D + of_nat (k * stride), store_cells P (picture bottom_up bpp stride w h m D k) m)" if "k \<le> h" for k
    using that
  proof (induction k)
    case 0
    then show ?case by (simp add: picture_def store_cells_def)
  next
    case (Suc k)
    let ?m = "store_cells P (picture bottom_up bpp stride w h m D k) m"
    let ?ty = "if bottom_up then height - 1 - of_nat k else of_nat k"
    have k: "k < h" using Suc.prems by simp
    have ok: "unat (of_nat k :: u32) = k"
    proof -
      have "k < 2 ^ 32" by (rule less_trans [OF k small(2)])
      then show ?thesis by simp
    qed
    have ty: "unat ?ty = target_row bottom_up h k"
    proof -
      have "1 \<le> height" unfolding word_le_nat_alt using k h by simp
      then have a: "unat (height - 1) = h - 1" using h by (simp add: unat_minus_le)
      have "of_nat k \<le> height - 1" unfolding word_le_nat_alt using k a ok by simp
      then have "unat (height - 1 - of_nat k) = h - 1 - k" using a ok by (simp add: unat_minus_le)
      then show ?thesis using ok by (simp add: target_row_def)
    qed
    have ix: "fst ` set (picture bottom_up bpp stride w h m D k) \<subseteq> {..<w * h}" using Suc.prems by (intro picture_indices) simp
    have out: "same_outside (unat P) (unat P + 4 * (w * h)) m ?m"
      using store_cells_outside [OF _ ix] sep by (simp add: separate_def)
    have lim: "k * stride + w * bpp + pad \<le> h * stride"
    proof -
      have "Suc k * stride \<le> h * stride" using k by (intro mult_le_mono1) simp
      then show ?thesis by (simp add: stride add_ac)
    qed
    have "bmp_row bpp width img ?ty (D + of_nat (k * stride), ?m) =
      (D + of_nat (k * stride + w * bpp),
       store_cells P (map (\<lambda>x. (target_row bottom_up h k * w + x, colour_at ?m (D + of_nat (k * stride + x * bpp)))) [0..<w]) ?m)"
      unfolding bmp_row_def w
      by (rule bmp_row_upto [OF sep bpp small(1) target_row_less [OF k] _ order_refl w ty keeps_pointer_step [OF ptr out]]) (use lim in linarith)
    moreover have "colour_at ?m (D + of_nat (k * stride + x * bpp)) = colour_at m (D + of_nat (k * stride + x * bpp))" if "x < w" for x
    proof (rule colour_same [OF sep _ out])
      have "Suc x * bpp \<le> w * bpp" using that by (intro mult_le_mono1) simp
      then show "k * stride + x * bpp + 3 \<le> h * stride" using lim bpp by auto
    qed
    then have "map (\<lambda>x. (target_row bottom_up h k * w + x, colour_at ?m (D + of_nat (k * stride + x * bpp)))) [0..<w] =
        map (\<lambda>x. (target_row bottom_up h k * w + x, colour_at m (D + of_nat (k * stride + x * bpp)))) [0..<w]" by simp
    ultimately have row: "bmp_row bpp width img ?ty (D + of_nat (k * stride), ?m) =
      (D + of_nat (k * stride + w * bpp),
       store_cells P (picture bottom_up bpp stride w h m D (Suc k)) m)"
      by (simp only:) (simp add: picture_def store_cells_append)
    show ?case
      unfolding upt_Suc_append [OF le0] fold_append comp_apply Suc.IH [OF less_imp_le [OF k]]
      using row by (simp only: fold_simps Let_def prod.case of_nat_add [symmetric] add.assoc) (simp add: stride add_ac)
  qed
  from this [OF order_refl] show ?thesis by (simp add: bmp_rows_def h)
qed

section \<open>The decoded image\<close>

text \<open>\<open>low_same s m m'\<close>: nothing below the heap changes.\<close>

definition low_same :: "mm \<Rightarrow> mem \<Rightarrow> mem \<Rightarrow> bool" where
  "low_same s m m' \<longleftrightarrow> (\<forall>x. unat x < unat (heap_start s) \<longrightarrow> m' x = m x)"

lemma low_same_trans: "low_same s m m' \<Longrightarrow> low_same s m' m'' \<Longrightarrow> low_same s m m''"
  by (simp add: low_same_def)

lemma low_same_outside: "same_outside lo hi m m' \<Longrightarrow> unat (heap_start s) \<le> lo \<Longrightarrow> low_same s m m'"
  by (auto simp: low_same_def same_outside_def)

lemma kmalloc_frame:
  assumes inv: "heap_inv s bs" and run: "kmalloc sz s = Some (p, s')" and p: "p \<noteq> 0"
  shows "\<exists>n bs'. heap_inv s' bs' \<and> heap_start s' = heap_start s \<and> allocated s' p n \<and> unat (round_size sz) \<le> n \<and>
    low_same s (mm_mem s) (mm_mem s') \<and> unat (heap_start s) \<le> unat p"
  using inv run
proof (cases rule: kmalloc_cases)
  case (2 bs' n)
  obtain k where k: "block_at (unat p - sizeof_header) (unat (heap_start s)) bs' = Some (k, False)" "unat (round_size sz) \<le> k"
    "unat (heap_start s) + sizeof_header \<le> unat p"
    using block_at_a_malloc [OF 2(5)] by auto
  have hs: "heap_start s' = heap_start s" by (rule heap_start_eq [OF 2(4)])
  then have "allocated s' p k" using allocated_iff [OF 2(3)] 2(2) k(1) by simp
  moreover have "low_same s (mm_mem s) (mm_mem s')" using k(3) by (intro low_same_outside [OF 2(8)]) simp
  ultimately show ?thesis using 2(3) hs k by auto
qed (use p in simp)

lemma live_store:
  assumes inv: "heap_inv s bs" and live: "allocated s p n" and hp: "unat (heap_start s) \<le> unat p"
    and out: "same_outside (unat p) (unat p + n) (mm_mem s) m'"
  shows "heap_inv (s\<lparr>mm_mem := m'\<rparr>) bs" "allocated (s\<lparr>mm_mem := m'\<rparr>) q k \<longleftrightarrow> allocated s q k"
    "low_same s (mm_mem s) m'"
  using heap_payload_write [OF inv live out] low_same_outside [OF out hp] by auto

lemma round_size_ge: "unat sz + 16 < 2 ^ 64 \<Longrightarrow> unat sz \<le> unat (round_size sz)"
proof -
  assume a: "unat sz + 16 < 2 ^ 64"
  then have "sz \<le> 0xFFFFFFFFFFFFFFF0" by (simp add: word_le_nat_alt)
  then show ?thesis using round_size_bounds [of sz] by simp
qed

lemma ld_same:
  "(\<And>i. i < 4 \<Longrightarrow> m' (a + of_nat i) = m (a + of_nat i)) \<Longrightarrow> ld32 m' a = ld32 m a"
  "(\<And>i. i < 8 \<Longrightarrow> m' (a + of_nat i) = m (a + of_nat i)) \<Longrightarrow> ld64 m' a = ld64 m a"
proof -
  show "ld32 m' a = ld32 m a" if "\<And>i. i < 4 \<Longrightarrow> m' (a + of_nat i) = m (a + of_nat i)"
    unfolding ld32_def ldn_def by (rule arg_cong [of _ _ le_word], rule map_cong [OF refl], rule that) simp
  show "ld64 m' a = ld64 m a" if "\<And>i. i < 8 \<Longrightarrow> m' (a + of_nat i) = m (a + of_nat i)"
    unfolding ld64_def ldn_def by (rule arg_cong [of _ _ le_word], rule map_cong [OF refl], rule that) simp
qed

lemma st_outside:
  assumes "unat p + n < 2 ^ 64" and "d + k \<le> n" and "k = 4 \<or> k = 8"
  shows "k = 4 \<Longrightarrow> same_outside (unat p) (unat p + n) m (st32 m (p + of_nat d) v)"
    and "k = 8 \<Longrightarrow> same_outside (unat p) (unat p + n) m (st64 m (p + of_nat d) u)"
proof -
  have dl: "d < 2 ^ 64" and sl: "unat p + d < 2 ^ 64" and el: "unat p + d + k \<le> 2 ^ 64"
  proof -
    have le: "d \<le> unat p + n" "unat p + d \<le> unat p + n" "unat p + d + k \<le> unat p + n" using assms(2,3) by auto
    show "d < 2 ^ 64" "unat p + d < 2 ^ 64" by (rule le_less_trans [OF le(1) assms(1)], rule le_less_trans [OF le(2) assms(1)])
    show "unat p + d + k \<le> 2 ^ 64" by (rule order_trans [OF le(3) less_imp_le [OF assms(1)]])
  qed
  have "unat (of_nat d :: u64) = d" by (rule unat_nat64 [OF dl])
  then have u: "unat (p + of_nat d) = unat p + d" using sl by (subst unat_plus_small) simp_all
  show "same_outside (unat p) (unat p + n) m (st32 m (p + of_nat d) v)" if "k = 4"
    by (rule same_outside_mono [OF st32_same_outside]) (use u el that assms(2) in simp_all)
  show "same_outside (unat p) (unat p + n) m (st64 m (p + of_nat d) u)" if "k = 8"
    by (rule same_outside_mono [of "unat (p + of_nat d)" "unat (p + of_nat d) + 8"])
      (use u el that assms(2) stn_same_outside [of "unat (p + of_nat d)" "le_bytes 8 u" m] in \<open>simp_all add: st64_def\<close>)
qed

lemma image_header_outside:
  assumes "unat p + n < 2 ^ 64" and "16 \<le> n"
  shows "same_outside (unat p) (unat p + n) m (st32 (st32 m p v) (p + 4) u)"
  using st_outside(1) [OF assms(1), of 0 4 m v] st_outside(1) [OF assms(1), of 4 4 "st32 m p v" u] assms(2)
  by (auto intro: same_outside_step)

text \<open>A bitmap in memory the decoder accepts, of \<open>w\<close> by \<open>h\<close> pixels, the rows \<open>stride\<close> bytes apart, lying below
  the heap.\<close>

definition bmp_file :: "mm \<Rightarrow> u64 \<Rightarrow> nat \<Rightarrow> nat \<Rightarrow> nat \<Rightarrow> bool" where
  "bmp_file s data w h stride \<longleftrightarrow> (let hd = read_bmp_header (mm_mem s) data; bpp = unat (biBitCount hd) div 8 in
     data \<noteq> 0 \<and> bfType hd = 0x4D42 \<and> biBitCount hd \<in> {24, 32} \<and> biCompression hd = 0 \<and>
     w = unat (biWidth hd) \<and> int h = \<bar>sint (biHeight hd)\<bar> \<and> 0 < w \<and> 0 < h \<and> w * h < 2 ^ 30 \<and>
     stride = w * bpp + unat (row_padding (biWidth hd) bpp) \<and>
     unat data + unat (bfOffBits hd) + h * stride \<le> unat (heap_start s))"

lemma height_word:
  fixes v :: u32
  assumes "int h = \<bar>sint v\<bar>"
  shows "unat (if 0 < sint v then v else - v) = h" and "h < 2 ^ 32"
proof -
  have b: "- (2 ^ 31) \<le> sint v" "sint v < 2 ^ 31" using sint_range_size [of v] by (simp_all add: word_size)
  show h: "h < 2 ^ 32" using b assms by simp
  have "(if 0 < sint v then v else - v) = of_nat h"
  proof -
    have v: "v = of_int (sint v)" by simp
    have "of_nat h = (of_int (int h) :: u32)" by simp
    also have "\<dots> = (if 0 < sint v then of_int (sint v) else - of_int (sint v))" unfolding assms by simp
    finally show ?thesis using v by metis
  qed
  then show "unat (if 0 < sint v then v else - v) = h" using h by simp
qed

lemma bmp_file_facts:
  assumes "bmp_file s data w h stride"
  defines "bh \<equiv> read_bmp_header (mm_mem s) data"
  defines "height \<equiv> (if 0 < sint (biHeight bh) then biHeight bh else - biHeight bh)"
  shows "data \<noteq> 0" "bfType bh = 0x4D42" "biBitCount bh \<in> {24, 32}" "biCompression bh = 0" "w = unat (biWidth bh)"
    "0 < w" "0 < h" "w * h < 2 ^ 30" "unat height = h" "h < 2 ^ 32"
    "stride = w * (unat (biBitCount bh) div 8) + unat (row_padding (biWidth bh) (unat (biBitCount bh) div 8))"
    "unat data + unat (bfOffBits bh) + h * stride \<le> unat (heap_start s)"
    "4 * (w * h) \<le> unat (round_size (pixel_bytes (biWidth bh) height))"
proof -
  have f: "data \<noteq> 0" "bfType bh = 0x4D42" "biBitCount bh \<in> {24, 32}" "biCompression bh = 0" "w = unat (biWidth bh)"
    "int h = \<bar>sint (biHeight bh)\<bar>" "0 < w" "0 < h" "w * h < 2 ^ 30"
    "stride = w * (unat (biBitCount bh) div 8) + unat (row_padding (biWidth bh) (unat (biBitCount bh) div 8))"
    "unat data + unat (bfOffBits bh) + h * stride \<le> unat (heap_start s)"
    using assms(1) unfolding bmp_file_def Let_def bh_def [symmetric] by blast+
  have hh: "unat height = h" "h < 2 ^ 32" using height_word [OF f(6)] by (simp_all add: height_def)
  have "unat (biWidth bh * height) = w * h" using f(5,9) hh by (simp add: unat_word_ariths)
  then have "unat (biWidth bh * height * 4) = 4 * (w * h)" using f(9) by (simp add: unat_word_ariths mult.commute)
  then have "unat (pixel_bytes (biWidth bh) height) = 4 * (w * h)" by (simp add: pixel_bytes_def)
  then have "4 * (w * h) \<le> unat (round_size (pixel_bytes (biWidth bh) height))"
    using round_size_ge [of "pixel_bytes (biWidth bh) height"] f(9) by (simp add: mult.commute)
  then show "data \<noteq> 0" "bfType bh = 0x4D42" "biBitCount bh \<in> {24, 32}" "biCompression bh = 0" "w = unat (biWidth bh)"
    "0 < w" "0 < h" "w * h < 2 ^ 30" "unat height = h" "h < 2 ^ 32"
    "stride = w * (unat (biBitCount bh) div 8) + unat (row_padding (biWidth bh) (unat (biBitCount bh) div 8))"
    "unat data + unat (bfOffBits bh) + h * stride \<le> unat (heap_start s)"
    "4 * (w * h) \<le> unat (round_size (pixel_bytes (biWidth bh) height))"
    using f hh by simp_all
qed

text \<open>The two blocks: the image structure, filled in, and the pixels.\<close>

lemma image_blocks:
  assumes inv: "heap_inv s bs" and img: "kmalloc 16 s = Some (img, s1)" "img \<noteq> 0"
    and px: "kmalloc sz (s1\<lparr>mm_mem := st32 (st32 (mm_mem s1) img wd) (img + 4) ht\<rparr>) = Some (pixels, s2)" "pixels \<noteq> 0"
  shows "\<exists>n1 n2 bs2. heap_inv s2 bs2 \<and> heap_start s2 = heap_start s \<and> allocated s2 img n1 \<and> 16 \<le> n1 \<and> allocated s2 pixels n2 \<and>
    unat (round_size sz) \<le> n2 \<and> unat (heap_start s) \<le> unat img \<and> unat (heap_start s) \<le> unat pixels \<and>
    (unat img + n1 \<le> unat pixels \<or> unat pixels + n2 \<le> unat img) \<and> low_same s (mm_mem s) (mm_mem s2) \<and>
    (\<forall>i < 16. mm_mem s2 (img + of_nat i) = st32 (st32 (mm_mem s1) img wd) (img + 4) ht (img + of_nat i))"
proof -
  let ?m1 = "st32 (st32 (mm_mem s1) img wd) (img + 4) ht"
  obtain n1 bs1 where A: "heap_inv s1 bs1" "heap_start s1 = heap_start s" "allocated s1 img n1" "unat (round_size 16) \<le> n1"
    "low_same s (mm_mem s) (mm_mem s1)" "unat (heap_start s) \<le> unat img"
    using kmalloc_frame [OF inv img] by blast
  have n1: "16 \<le> n1" using A(4) by (simp add: round_size_def)
  have lim1: "unat img + n1 < 2 ^ 64" by (rule allocated_bounds(2) [OF A(1,3)])
  note B = live_store [OF A(1,3) _ image_header_outside [OF lim1 n1], unfolded A(2), OF A(6)]
  obtain n2 bs2 where C: "heap_inv s2 bs2" "heap_start s2 = heap_start s" "allocated s2 pixels n2"
    "unat (round_size sz) \<le> n2" "low_same s ?m1 (mm_mem s2)" "unat (heap_start s) \<le> unat pixels"
    using kmalloc_frame [OF B(1) px] A(2) by (auto simp: low_same_def)
  have hok: "heap_ok (s1\<lparr>mm_mem := ?m1\<rparr>)" using B(1) by (auto simp: heap_ok_def)
  have keep: "allocated s2 img n1" "img \<noteq> pixels" "\<And>i. i < n1 \<Longrightarrow> mm_mem s2 (img + of_nat i) = ?m1 (img + of_nat i)"
    using heap.alloc_keeps [OF hok px(1)] B(2) A(3) by auto
  have disj: "unat img + n1 \<le> unat pixels \<or> unat pixels + n2 \<le> unat img"
    using heap.live_disjoint [OF _ keep(1) C(3)] keep(2) C(1) by (auto simp: heap_ok_def)
  have "low_same s (mm_mem s) (mm_mem s2)" using A(2,5) B(3) C(5) by (simp add: low_same_def)
  then show ?thesis using C keep n1 disj A(6) by (intro exI [of _ n1] exI [of _ n2] exI [of _ bs2]) simp
qed

lemma image_words:
  assumes m2: "\<forall>i < 16. m2 (img + of_nat i) = st32 (st32 m img wd) (img + 4) ht (img + of_nat i)"
    and m3: "\<forall>i < 16. m3 (img + of_nat i) = st64 m2 (img + 8) pixels (img + of_nat i)"
  shows "ld32 m3 img = wd" and "ld32 m3 (img + 4) = ht" and "ld64 m3 (img + 8) = pixels"
proof -
  have ap: "apart (img + 8) 8 img 4" "apart (img + 8) 8 (img + 4) 4" "apart (img + 4) 4 img 4" by (simp_all add: apart_def)
  have four: "img + 4 + of_nat i = img + of_nat (4 + i)" and eight: "img + 8 + of_nat i = img + of_nat (8 + i)" for i
    by (simp_all add: add_ac)
  have "ld32 m3 img = ld32 (st64 m2 (img + 8) pixels) img" using m3 by (intro ld_same) simp
  also have "\<dots> = ld32 m2 img" using ap(1) by (simp add: mem_simps)
  also have "\<dots> = ld32 (st32 (st32 m img wd) (img + 4) ht) img" using m2 by (intro ld_same) simp
  also have "\<dots> = wd" using ap(3) by (simp add: mem_simps)
  finally show "ld32 m3 img = wd" .
  have "ld32 m3 (img + 4) = ld32 (st64 m2 (img + 8) pixels) (img + 4)" by (rule ld_same(1)) (unfold four, rule m3 [rule_format], simp)
  also have "\<dots> = ld32 m2 (img + 4)" using ap(2) by (simp add: mem_simps)
  also have "\<dots> = ld32 (st32 (st32 m img wd) (img + 4) ht) (img + 4)" by (rule ld_same(1)) (unfold four, rule m2 [rule_format], simp)
  also have "\<dots> = ht" by (simp add: mem_simps)
  finally show "ld32 m3 (img + 4) = ht" .
  have "ld64 m3 (img + 8) = ld64 (st64 m2 (img + 8) pixels) (img + 8)" by (rule ld_same(2)) (unfold eight, rule m3 [rule_format], simp)
  then show "ld64 m3 (img + 8) = pixels" by (simp add: mem_simps)
qed

text \<open>The pixels of the picture, read back from the array they were stored in.\<close>

lemma picture_read:
  assumes sep: "separate P (w * h) D (h * stride)" and bpp: "bpp = 3 \<or> bpp = 4" and stride: "w * bpp \<le> stride"
    and xy: "x < w" "y < h"
  shows "ld32 (store_cells P (picture up bpp stride w h m D h) m) (cell P (target_row up h y * w + x)) =
    colour_at m (D + of_nat (y * stride + x * bpp))"
proof -
  have lim: "unat P + 4 * (w * h) < 2 ^ 64" using sep by (simp add: separate_def)
  note ix = picture_indices [OF order_refl, of up bpp stride w h m D]
  have "(target_row up h y * w + x, colour_at m (D + of_nat (y * stride + x * bpp))) \<in> set (picture up bpp stride w h m D h)"
    unfolding picture_def set_concat set_map set_upt image_image
    by (rule UN_I [of y]) (use xy in \<open>simp, intro imageI, simp\<close>)
  then show ?thesis by (rule store_cells_read [OF lim ix])
qed

lemma bmp_parse_result:
  assumes inv: "heap_inv s bs" and bf: "bmp_file s data w h stride"
  defines "bh \<equiv> read_bmp_header (mm_mem s) data"
  defines "height \<equiv> (if 0 < sint (biHeight bh) then biHeight bh else - biHeight bh)"
  assumes img: "kmalloc 16 s = Some (img, s1)" "img \<noteq> 0"
    and px: "kmalloc (pixel_bytes (biWidth bh) height)
      (s1\<lparr>mm_mem := st32 (st32 (mm_mem s1) img (biWidth bh)) (img + 4) height\<rparr>) = Some (pixels, s2)" "pixels \<noteq> 0"
  shows "\<exists>s'. bmp_parse data s = Some (img, s') \<and> heap_ok s' \<and>
    unat (ld32 (mm_mem s') img) = w \<and> unat (ld32 (mm_mem s') (img + 4)) = h \<and> ld64 (mm_mem s') (img + 8) = pixels \<and>
    (\<exists>n\<ge>4 * (w * h). allocated s' pixels n) \<and>
    (\<forall>x < w. \<forall>y < h. ld32 (mm_mem s') (cell pixels (target_row (0 < sint (biHeight bh)) h y * w + x)) =
       colour_at (mm_mem s) (data + ucast (bfOffBits bh) + of_nat (y * stride + x * (unat (biBitCount bh) div 8))))"
proof -
  let ?up = "0 < sint (biHeight bh)" and ?bpp = "unat (biBitCount bh) div 8" and ?D = "data + ucast (bfOffBits bh)" and ?N = "w * h"
  note f = bmp_file_facts [OF bf, folded bh_def, folded height_def]
  have bpp: "?bpp = 3 \<or> ?bpp = 4" using f(3) by auto
  obtain n1 n2 bs2 where C: "heap_inv s2 bs2" "heap_start s2 = heap_start s" "allocated s2 img n1" "16 \<le> n1" "allocated s2 pixels n2"
    "unat (round_size (pixel_bytes (biWidth bh) height)) \<le> n2" "unat (heap_start s) \<le> unat img" "unat (heap_start s) \<le> unat pixels"
    "unat img + n1 \<le> unat pixels \<or> unat pixels + n2 \<le> unat img" "low_same s (mm_mem s) (mm_mem s2)"
    "\<forall>i < 16. mm_mem s2 (img + of_nat i) = st32 (st32 (mm_mem s1) img (biWidth bh)) (img + 4) height (img + of_nat i)"
    using image_blocks [OF inv img px] by blast
  have n2: "4 * ?N \<le> n2" using f(13) C(6) by (rule order_trans)
  have lim1: "unat img + n1 < 2 ^ 64" and lim2: "unat pixels + n2 < 2 ^ 64"
    by (rule allocated_bounds(2) [OF C(1,3)], rule allocated_bounds(2) [OF C(1,5)])
  let ?m2 = "st64 (mm_mem s2) (img + 8) pixels"
  have out2: "same_outside (unat img) (unat img + n1) (mm_mem s2) ?m2" using st_outside(2) [OF lim1, of 8 8] C(4) by simp
  note D = live_store [OF C(1,3) _ out2, unfolded C(2), OF C(7)]
  have D1: "heap_inv (s2\<lparr>mm_mem := ?m2\<rparr>) bs2" "allocated (s2\<lparr>mm_mem := ?m2\<rparr>) pixels n2" using D(1,2) C(5) by simp_all
  have lim2': "unat pixels + 4 * ?N < 2 ^ 64" by (rule le_less_trans [OF _ lim2]) (use n2 in simp)
  have uD: "unat ?D = unat data + unat (bfOffBits bh)"
  proof -
    have "unat data + unat (bfOffBits bh) < 2 ^ 64" by (rule le_less_trans [of _ "unat (heap_start s)"]) (use f(12) in simp_all)
    then show ?thesis by (subst unat_plus_small) simp_all
  qed
  have Dl: "unat ?D + h * stride \<le> unat (heap_start s)" using f(12) uD by simp
  have sep: "separate pixels ?N ?D (h * stride)"
    unfolding separate_def using lim2' Dl C(8) le_less_trans [OF Dl unat_lt64] by auto
  let ?pic = "picture ?up ?bpp stride w h ?m2 ?D h" and ?pad = "unat (row_padding (biWidth bh) ?bpp)"
  let ?m3 = "store_cells pixels ?pic ?m2"
  have pad: "ucast (row_padding (biWidth bh) ?bpp) = (of_nat ?pad :: u64)" by (metis of_nat_unat unat_ucast_32_64 word_of_nat_eq_iff)
  have img_same: "\<forall>i < 16. m' (img + of_nat i) = ?m2 (img + of_nat i)" if out: "same_outside (unat pixels) (unat pixels + n2) ?m2 m'" for m'
  proof (intro allI impI)
    fix i :: nat assume i: "i < 16"
    have "i < 2 ^ 64" using i by simp
    then have "unat (of_nat i :: u64) = i" by (rule unat_nat64)
    moreover have "unat img + i < 2 ^ 64" by (rule le_less_trans [OF _ lim1]) (use i C(4) in simp)
    ultimately have "unat (img + of_nat i) = unat img + i" by (subst unat_plus_small) simp_all
    then have "\<not> (unat pixels \<le> unat (img + of_nat i) \<and> unat (img + of_nat i) < unat pixels + n2)" using C(4,9) i by auto
    then show "m' (img + of_nat i) = ?m2 (img + of_nat i)" using out by (simp add: same_outside_def)
  qed
  have ptr: "keeps_pointer img pixels ?N ?m2"
    unfolding keeps_pointer_def
  proof (intro allI impI)
    show "ld64 m' (img + 8) = pixels" if out: "same_outside (unat pixels) (unat pixels + 4 * ?N) ?m2 m'" for m'
      by (rule image_words(3) [OF C(11) img_same [OF same_outside_mono [OF out]]]) (use n2 in simp_all)
  qed
  have rows: "bmp_rows ?bpp (ucast (row_padding (biWidth bh) ?bpp)) ?up (biWidth bh) height img (?D, ?m2) =
      (?D + of_nat (h * stride), ?m3)"
    unfolding pad using bmp_rows_spec [OF sep bpp f(8,10,11) f(5) [symmetric] f(9) ptr] .
  let ?s' = "s2\<lparr>mm_mem := ?m3\<rparr>"
  have run: "bmp_parse data s = Some (img, ?s')"
    using f(1-4) img px rows
    by (auto simp: bmp_parse_def bh_def [symmetric] height_def [symmetric] Let_def)
  have out3: "same_outside (unat pixels) (unat pixels + n2) ?m2 ?m3"
    by (rule same_outside_mono [OF store_cells_outside [OF lim2' picture_indices(1) [OF order_refl]]]) (use n2 in simp_all)
  have heap3: "heap_inv ?s' bs2" "allocated ?s' pixels n2"
    using heap_payload_write [OF D1, of ?m3] out3 D1(2) by auto
  note img_bytes = img_same [OF out3]
  have low2: "low_same s (mm_mem s) ?m2" using C(2,10) D(3) by (simp add: low_same_def)
  have px_ok: "ld32 ?m3 (cell pixels (target_row ?up h y * w + x)) =
       colour_at (mm_mem s) (?D + of_nat (y * stride + x * ?bpp))" if xy: "x < w" "y < h" for x y
  proof -
    have "colour_at ?m2 (?D + of_nat (y * stride + x * ?bpp)) = colour_at (mm_mem s) (?D + of_nat (y * stride + x * ?bpp))"
    proof (rule colour_at_low)
      show "?m2 (?D + of_nat j) = mm_mem s (?D + of_nat j)" if "j < h * stride" for j
        using low2 data_unat(1) [OF sep that] Dl that by (simp add: low_same_def)
      have "Suc x * ?bpp \<le> w * ?bpp" "Suc y * stride \<le> h * stride" using xy by (intro mult_le_mono1, simp)+
      then show "y * stride + x * ?bpp + 3 \<le> h * stride" using f(11) bpp by auto
    qed
    then show ?thesis using picture_read [OF sep bpp _ xy] f(11) by simp
  qed
  show ?thesis
    using run heap3 image_words [OF C(11) img_bytes] px_ok f(5,9) n2 by (intro exI [of _ ?s']) (auto simp: heap_ok_def)
qed

lemma bmp_parse_cases:
  assumes "bmp_parse data s = Some (img, s')" and "img \<noteq> 0"
  defines "bh \<equiv> read_bmp_header (mm_mem s) data"
  defines "height \<equiv> (if 0 < sint (biHeight bh) then biHeight bh else - biHeight bh)"
  obtains s1 pixels s2 where "kmalloc 16 s = Some (img, s1)"
    "kmalloc (pixel_bytes (biWidth bh) height)
      (s1\<lparr>mm_mem := st32 (st32 (mm_mem s1) img (biWidth bh)) (img + 4) height\<rparr>) = Some (pixels, s2)" "pixels \<noteq> 0"
  using assms(1,2)
  by (auto simp: bmp_parse_def bh_def [symmetric] height_def [symmetric] Let_def split_def split: if_splits bind_splits)

lemma bmp_decoded:
  assumes "heap_inv s bs" and "bmp_file s data w h stride"
    and "bmp_parse data s = Some (img, s')" and "img \<noteq> 0"
  shows "heap_ok s' \<and> unat (ld32 (mm_mem s') img) = w \<and> unat (ld32 (mm_mem s') (img + 4)) = h \<and>
    (let bh = read_bmp_header (mm_mem s) data; pixels = ld64 (mm_mem s') (img + 8) in
     (\<exists>n\<ge>4 * (w * h). allocated s' pixels n) \<and>
     (\<forall>x < w. \<forall>y < h. ld32 (mm_mem s') (cell pixels (target_row (0 < sint (biHeight bh)) h y * w + x)) =
       colour_at (mm_mem s) (data + ucast (bfOffBits bh) + of_nat (y * stride + x * (unat (biBitCount bh) div 8)))))"
  using assms(3,4)
proof (cases rule: bmp_parse_cases)
  case (1 s1 pixels s2)
  from bmp_parse_result [OF assms(1,2) 1(1) assms(4) 1(2,3)] assms(3) show ?thesis by (auto simp: Let_def)
qed

text \<open>C23: Decoding a bitmap. For an accepted file of \<open>w\<close> by \<open>h\<close> pixels (fewer than \<open>2 ^ 30\<close> of them, below the
  heap) a decoded image is a heap block that holds the width, the height and the address of a second live
  block of at least \<open>4 * w * h\<close> bytes, in which every pixel is the file's blue, green and red bytes under a full
  alpha byte, the rows flipped when the height in the file is positive. The heap stays well formed.\<close>

theorem bmp_parse_picture:
  assumes "heap_inv s bs" and "bmp_file s data w h stride"
    and "bmp_parse data s = Some (img, s')" and "img \<noteq> 0"
  shows "heap_ok s' \<and> unat (ld32 (mm_mem s') img) = w \<and> unat (ld32 (mm_mem s') (img + 4)) = h \<and>
    (let bh = read_bmp_header (mm_mem s) data; pixels = ld64 (mm_mem s') (img + 8) in
     (\<exists>n\<ge>4 * (w * h). allocated s' pixels n) \<and>
     (\<forall>x < w. \<forall>y < h. ld32 (mm_mem s') (cell pixels (target_row (0 < sint (biHeight bh)) h y * w + x)) =
       colour_at (mm_mem s) (data + ucast (bfOffBits bh) + of_nat (y * stride + x * (unat (biBitCount bh) div 8)))))"
  by (rule bmp_decoded [OF assms])

text \<open>The decoder's refusals. A null pointer, a wrong magic number, a pixel format other than 24 or 32 bits and
  a compressed image give NULL and change nothing. When there is no memory for the pixels the image structure is
  freed again: the heap is the list of blocks it was.\<close>

theorem bmp_parse_refuses:
  assumes "heap_inv s bs" and "coalesced bs"
    and bh_def: "bh = read_bmp_header (mm_mem s) data"
    and height_def: "height = (if 0 < sint (biHeight bh) then biHeight bh else - biHeight bh)"
  shows "(data = 0 \<or> bfType bh \<noteq> 0x4D42 \<or> biBitCount bh \<notin> {24, 32} \<or> biCompression bh \<noteq> 0
            \<longrightarrow> bmp_parse data s = Some (0, s)) \<and>
    (data \<noteq> 0 \<and> bfType bh = 0x4D42 \<and> biBitCount bh \<in> {24, 32} \<and> biCompression bh = 0 \<and>
     kmalloc 16 s = Some (img, s1) \<and> img \<noteq> 0 \<and>
     kmalloc (pixel_bytes (biWidth bh) height)
      (s1\<lparr>mm_mem := st32 (st32 (mm_mem s1) img (biWidth bh)) (img + 4) height\<rparr>) = Some (0, s2)
       \<longrightarrow> (\<exists>s'. bmp_parse data s = Some (0, s') \<and> heap_inv s' bs))"
proof (intro conjI impI)
  show "bmp_parse data s = Some (0, s)"
    if "data = 0 \<or> bfType bh \<noteq> 0x4D42 \<or> biBitCount bh \<notin> {24, 32} \<or> biCompression bh \<noteq> 0"
    using that by (auto simp: bmp_parse_def bh_def Let_def)
next
  let ?m1 = "st32 (st32 (mm_mem s1) img (biWidth bh)) (img + 4) height"
  assume a: "data \<noteq> 0 \<and> bfType bh = 0x4D42 \<and> biBitCount bh \<in> {24, 32} \<and> biCompression bh = 0 \<and>
     kmalloc 16 s = Some (img, s1) \<and> img \<noteq> 0 \<and> kmalloc (pixel_bytes (biWidth bh) height) (s1\<lparr>mm_mem := ?m1\<rparr>) = Some (0, s2)"
  then have img: "kmalloc 16 s = Some (img, s1)" "img \<noteq> 0" by blast+
  obtain n bs1 where A: "heap_inv s1 bs1" "heap_start s1 = heap_start s" "allocated s1 img n" "unat (round_size 16) \<le> n"
    "low_same s (mm_mem s) (mm_mem s1)" "unat (heap_start s) \<le> unat img"
    using kmalloc_frame [OF assms(1) img] by blast
  have n: "16 \<le> n" using A(4) by (simp add: round_size_def)
  have store: "heap_inv (s1\<lparr>mm_mem := ?m1\<rparr>) b" if "heap_inv s1 b" for b
    using live_store(1) [OF that A(3) A(6) [folded A(2)] image_header_outside [OF allocated_bounds(2) [OF that A(3)] n]] .
  have run2: "kmalloc (pixel_bytes (biWidth bh) height) (s1\<lparr>mm_mem := ?m1\<rparr>) = Some (0, s2)" using a by blast
  have s2: "s2 = s1\<lparr>mm_mem := ?m1\<rparr>"
    using store [OF A(1)] run2
  proof (cases rule: kmalloc_cases)
    case (2 bs' n')
    then show ?thesis by simp
  qed simp
  let ?t = "s2\<lparr>mm_mem := st64 (mm_mem s2) (img + 8) 0\<rparr>"
  have "heap_inv ?t b" if "heap_inv s1 b" for b
  proof -
    have st: "heap_inv s2 b" "allocated s2 img n" unfolding s2 using store [OF that] live_store(2) [OF that A(3) A(6) [folded A(2)] image_header_outside [OF allocated_bounds(2) [OF that A(3)] n]] A(3)
      by auto
    show ?thesis
      by (rule live_store(1) [OF st]) (use A(2,6) s2 st_outside(2) [OF allocated_bounds(2) [OF st], of 8 8] n in simp_all)
  qed
  from heap_restored_later [OF assms(1,2) img this] obtain s3 where "kfree img ?t = Some s3" "heap_inv s3 bs" using s2 by auto
  then show "\<exists>s'. bmp_parse data s = Some (0, s') \<and> heap_inv s' bs"
    using a by (auto simp: bmp_parse_def bh_def [symmetric] height_def [symmetric] Let_def)
qed

text \<open>The size of the pixel array is computed in 32 bits: it is the \<open>4 * w * h\<close> bytes the decoder goes on to
  write exactly when there are fewer than \<open>2 ^ 30\<close> pixels. An image of 32768 by 32768 gets a block of no bytes.\<close>

lemma bmp_pixel_size:
  "unat (pixel_bytes w h) = 4 * (unat w * unat h) mod 2 ^ 32 \<and>
   (unat (pixel_bytes w h) = 4 * (unat w * unat h) \<longleftrightarrow> unat w * unat h < 2 ^ 30) \<and>
   pixel_bytes 0x8000 0x8000 = 0"
proof -
  have "unat (pixel_bytes w h) = 4 * (unat w * unat h) mod 2 ^ 32"
    by (simp add: pixel_bytes_def unat_word_ariths mod_mult_left_eq mult.commute [of _ 4] mod_mult_right_eq)
  moreover have "k mod 2 ^ 32 = k \<longleftrightarrow> k < 2 ^ 32" for k :: nat by (simp add: mod_eq_self_iff_div_eq_0 div_eq_0_iff)
  ultimately show ?thesis by (simp add: pixel_bytes_def mult.commute [of "unat w" "unat h"])
qed

text \<open>A bitmap of one pixel, of 24 bits, and a heap above it.\<close>

definition tiny_bmp :: "u8 list" where
  "tiny_bmp = [0x42, 0x4D, 58, 0, 0, 0, 0, 0, 0, 0, 54, 0, 0, 0, 40, 0, 0, 0, 1, 0, 0, 0, 1, 0, 0, 0, 1, 0, 24, 0, 0, 0, 0, 0,
     4, 0, 0, 0, 0, 0, 0, 0, 0, 0, 0, 0, 0, 0, 0, 0, 0, 0, 0, 0, 0x11, 0x22, 0x33, 0]"

text \<open>A heap of one free block of \<open>n\<close> bytes, its header at address \<open>a\<close>, over the memory \<open>m\<close>.\<close>

definition fresh_heap :: "nat \<Rightarrow> nat \<Rightarrow> mem \<Rightarrow> mm" where
  "fresh_heap a n m = example_heap\<lparr>mm_mem := set_next (of_nat a) 0 (set_size (of_nat a) (of_nat n)
     (set_is_free (of_nat a) 1 (set_magic (of_nat a) HEAP_MAGIC m))), heap_start := of_nat a\<rparr>"

definition room :: "nat \<Rightarrow> nat \<Rightarrow> bool" where
  "room a n \<longleftrightarrow> 64 \<le> a \<and> 40 \<le> n \<and> a + 24 + n < 2 ^ 64"

lemma fresh_start: "room a n \<Longrightarrow> unat (heap_start (fresh_heap a n m)) = a"
  by (simp add: fresh_heap_def room_def unat_nat64)

lemma fresh_inv: "room a n \<Longrightarrow> heap_inv (fresh_heap a n m) [(n, True)]"
  using header_new [of a 0 n m] fresh_start [of a n m]
  by (simp add: heap_inv_def sizeof_header_def room_def) (simp add: fresh_heap_def)

lemma fresh_low:
  assumes "room a n" and "unat x < a"
  shows "mm_mem (fresh_heap a n m) x = m x"
proof -
  have lim: "a + 24 \<le> 2 ^ 64" using assms(1) by (simp add: room_def)
  have out: "f x = g x" if "same_outside a (a + 24) g f" for f g using that assms(2) by (simp add: same_outside_def)
  show ?thesis
    unfolding fresh_heap_def
    by (simp add: out [OF setter_same_outside(1) [OF lim]] out [OF setter_same_outside(2) [OF lim]]
        out [OF setter_same_outside(3) [OF lim]] out [OF setter_same_outside(4) [OF lim]])
qed

lemma fresh_first:
  assumes "room a n"
  shows "\<exists>s1. kmalloc 16 (fresh_heap a n m) = Some (of_nat (a + 24), s1) \<and> heap_start s1 = of_nat a \<and>
     heap_inv s1 (if 72 < n then [(16, False), (n - 40, True)] else [(n, False)])"
proof -
  have r: "unat (round_size 16) = 16" by (simp add: round_size_def)
  have hs: "heap_start (fresh_heap a n m) = of_nat a" by (simp add: fresh_heap_def)
  have same: "heap_start s' = heap_start s" if "s' = s\<lparr>mm_mem := mm_mem s'\<rparr>" for s s' :: mm by (rule heap_start_eq [OF that])
  from kmalloc_result [OF fresh_inv [OF assms, of m], of 16] show ?thesis using assms
    by (auto simp: r sizeof_header_def fresh_start [OF assms] room_def add.commute [of a] hs [symmetric] dest!: same)
qed

lemma fresh_second:
  fixes w h :: u32
  assumes k: "kmalloc 16 (fresh_heap a n m0) = Some (img, s1)" and r: "room a n" and ne: "img \<noteq> 0"
  defines "m \<equiv> st32 (st32 (mm_mem s1) img w) (img + 4) h"
  shows "if 72 < n
    then unat (round_size sz) + 40 \<le> n \<longrightarrow> (\<exists>s2. kmalloc sz (s1\<lparr>mm_mem := m\<rparr>) = Some (of_nat (a + 64), s2))
    else kmalloc sz (s1\<lparr>mm_mem := m\<rparr>) = Some (0, s1\<lparr>mm_mem := m\<rparr>)"
proof -
  define bs1 where "bs1 = (if 72 < n then [(16, False), (n - 40, True)] else [(n, False)])"
  have s1: "img = of_nat (a + 24)" "heap_start s1 = of_nat a" "heap_inv s1 bs1"
    using fresh_first [OF r, of m0] k by (auto simp: bs1_def)
  obtain j bs where A: "heap_inv s1 bs" "heap_start s1 = heap_start (fresh_heap a n m0)" "allocated s1 img j"
    "unat (round_size 16) \<le> j" "unat (heap_start (fresh_heap a n m0)) \<le> unat img"
    using kmalloc_frame [OF fresh_inv [OF r] k ne] by auto
  have j: "16 \<le> j" using A(4) by (simp add: round_size_def)
  have "heap_inv (s1\<lparr>mm_mem := m\<rparr>) bs1"
    unfolding m_def using A(2,5) by (intro live_store(1) [OF s1(3) A(3) _ image_header_outside [OF allocated_bounds(2) [OF A(1,3)] j]]) simp
  moreover have "unat (of_nat a :: u64) = a" using r by (simp add: room_def unat_nat64)
  ultimately show ?thesis using kmalloc_result [of "s1\<lparr>mm_mem := m\<rparr>" bs1 sz] s1(2) r
    by (auto simp: bs1_def sizeof_header_def room_def add.commute [of a] split: if_splits)
qed

lemma fresh_parse:
  fixes data :: u64 and m :: mem
  assumes "room a n" and "72 < n"
  defines "bh \<equiv> read_bmp_header (mm_mem (fresh_heap a n m)) data"
  assumes "data \<noteq> 0" and "bfType bh = 0x4D42" and "biBitCount bh \<in> {24, 32}" and "biCompression bh = 0"
    and "unat (round_size (pixel_bytes (biWidth bh) (if 0 < sint (biHeight bh) then biHeight bh else - biHeight bh))) + 40 \<le> n"
  shows "\<exists>s'. bmp_parse data (fresh_heap a n m) = Some (of_nat (a + 24), s')"
proof -
  define height where "height = (if 0 < sint (biHeight bh) then biHeight bh else - biHeight bh)"
  obtain s1 where s1: "kmalloc 16 (fresh_heap a n m) = Some (of_nat (a + 24), s1)" using fresh_first [OF assms(1)] by blast
  have ne: "of_nat k \<noteq> (0 :: u64)" if "0 < k" "k \<le> a + 64" for k
  proof
    assume "of_nat k = (0 :: u64)"
    moreover have "k < 2 ^ 64" using assms(1) that by (simp add: room_def)
    ultimately show False using unat_nat64 [of k] that(1) by simp
  qed
  obtain s2 where "kmalloc (pixel_bytes (biWidth bh) height)
      (s1\<lparr>mm_mem := st32 (st32 (mm_mem s1) (of_nat (a + 24)) (biWidth bh)) (of_nat (a + 24) + 4) height\<rparr>) = Some (of_nat (a + 64), s2)"
    using fresh_second [OF s1 assms(1) ne, where w = "biWidth bh" and h = height and sz = "pixel_bytes (biWidth bh) height"] assms(2,8)
    by (auto simp: height_def)
  then show ?thesis using assms(4-7) s1 ne [of "a + 64"]
    by (auto simp: bmp_parse_def bh_def [symmetric] height_def [symmetric] Let_def split_def)
qed

lemma ldn_literal [simp]: "ldn m a (numeral k) = m a # ldn m (a + 1) (pred_numeral k)" "ldn m a (Suc n) = m a # ldn m (a + 1) n" "ldn m a 0 = []"
proof -
  show S: "ldn m a (Suc n) = m a # ldn m (a + 1) n" for n
    by (simp add: ldn_def upt_conv_Cons map_Suc_upt [symmetric] comp_def add_ac del: upt_Suc map_Suc_upt)
  show "ldn m a (numeral k) = m a # ldn m (a + 1) (pred_numeral k)" by (simp only: numeral_eq_Suc S)
qed (simp add: ldn_def)

text \<open>The tiny bitmap at address \<open>0x100\<close> below a heap at \<open>0x1000\<close>.\<close>

abbreviation "tiny_heap n \<equiv> fresh_heap 0x1000 n (stn (\<lambda>_. 0) 0x100 tiny_bmp)"

lemma tiny_header:
  assumes "room 0x1000 n"
  shows "read_bmp_header (mm_mem (tiny_heap n)) 0x100 =
     \<lparr>bfType = 0x4D42, bfOffBits = 54, biWidth = 1, biHeight = 1, biBitCount = 24, biCompression = 0\<rparr>"
  by (simp add: read_bmp_header_def Let_def ld16_def ld32_def fresh_low [OF assms]) (simp add: stn_def tiny_bmp_def)

lemma tiny_file: "room 0x1000 n \<Longrightarrow> bmp_file (tiny_heap n) 0x100 1 1 4"
  by (simp add: bmp_file_def tiny_header Let_def row_padding_def fresh_start)

theorem bmp_parse_picture_witness:
  "\<exists>s'. bmp_parse 0x100 (tiny_heap 4072) = Some (0x1018, s') \<and>
     ld32 (mm_mem s') (cell (ld64 (mm_mem s') 0x1020) 0) = 0xFF332211"
proof -
  have r: "room 0x1000 4072" by (simp add: room_def)
  have size: "unat (round_size (pixel_bytes 1 1)) = 16" by (simp add: pixel_bytes_def round_size_def)
  obtain s' where s': "bmp_parse 0x100 (tiny_heap 4072) = Some (0x1018, s')"
    using fresh_parse [OF r, where m = "stn (\<lambda>_. 0) 0x100 tiny_bmp" and data = "0x100"] by (auto simp: tiny_header [OF r] size)
  have byte: "mm_mem (tiny_heap 4072) x = tiny_bmp ! unat (x - 0x100)" if "x \<in> {0x136, 0x137, 0x138}" for x
    using that by (auto simp: fresh_low [OF r] stn_def tiny_bmp_def)
  show ?thesis
    using bmp_parse_picture [OF fresh_inv [OF r] tiny_file [OF r] s'] s'
    by (simp add: tiny_header [OF r] Let_def target_row_def colour_at_def byte) (simp add: tiny_bmp_def)
qed

theorem bmp_parse_refuses_witness:
  "\<exists>s'. bmp_parse 0x100 (tiny_heap 40) = Some (0, s') \<and> heap_inv s' [(40, True)]"
proof -
  have r: "room 0x1000 40" by (simp add: room_def)
  obtain s1 where s1: "kmalloc 16 (tiny_heap 40) = Some (0x1018, s1)" using fresh_first [OF r] by auto
  show ?thesis
    using bmp_parse_refuses [OF fresh_inv [OF r] _ refl refl, where data = "0x100" and img = "0x1018" and ?s1.0 = s1] s1
      fresh_second [OF s1 r]
    by (simp add: tiny_header [OF r] pixel_bytes_def)
qed

end
