(* ===== verification/Logo.thy ===== *)
theory Logo
  imports Bmp
begin

text \<open>
  The boot logo of \<^verbatim>\<open>include/img/lysyslogo.h\<close>, a bitmap of 300 by 300 pixels of 32 bits whose
  height in the file is -300: its rows come from the top. The header's 54 bytes and the first thirty rows are given
  here; each row of the array is 75 lines of four pixels in the file and a list of runs here, a run being a number of
  equal pixels and their four bytes (blue, green, red, alpha) as a little-endian word. The other 270 rows are the
  parameter \<open>rest\<close> of the lemmas on the picture; what is painted of it is stated in \<^verbatim>\<open>Draw\<close>.
\<close>

section \<open>The data\<close>

type_synonym run = "nat \<times> u32"

definition logo_header :: "u8 list" where
  "logo_header =
    [0x42, 0x4D, 0x76, 0x7E, 0x05, 0x00, 0x00, 0x00, 0x00, 0x00, 0x36, 0x00, 0x00, 0x00, 0x28, 0x00, 0x00, 0x00,
     0x2C, 0x01, 0x00, 0x00, 0xD4, 0xFE, 0xFF, 0xFF, 0x01, 0x00, 0x20, 0x00, 0x00, 0x00, 0x00, 0x00, 0x00, 0x00,
     0x00, 0x00, 0x00, 0x00, 0x00, 0x00, 0x00, 0x00, 0x00, 0x00, 0x00, 0x00, 0x00, 0x00, 0x00, 0x00, 0x00, 0x00]"

definition logo_rows_0 :: "run list list" where
  "logo_rows_0 =
  [[(300, 0xFF000000)],
  [(231, 0xFF000000), (1, 0xFF000005), (1, 0xFF26220C), (1, 0xFF2B2609), (1, 0xFF514514), (1, 0xFF5C4D18), (1, 0xFF5A4C17),
   (1, 0xFF3D350C), (1, 0xFF282308), (1, 0xFF211F0A), (1, 0xFF000002), (59, 0xFF000000)]]"

definition logo_rows_2 :: "run list list" where
  "logo_rows_2 =
  [[(226, 0xFF000000), (1, 0xFF000001), (1, 0xFF151406), (1, 0xFF4F420E), (1, 0xFF876F17), (1, 0xFFAE8F1F), (1, 0xFFC3A01F),
   (1, 0xFFD7AF23), (1, 0xFFD9AF1E), (1, 0xFFE7BB24), (1, 0xFFEBC026), (1, 0xFFEAC025), (1, 0xFFDEB51D), (1, 0xFFD8B01B),
   (1, 0xFFD4AD1F), (1, 0xFFBE9C18), (1, 0xFFA98B19), (1, 0xFF7A6515), (1, 0xFF43380D), (1, 0xFF000405), (55, 0xFF000000)],
  [(224, 0xFF000000), (1, 0xFF000003), (1, 0xFF5C4E11), (1, 0xFFA4881A), (1, 0xFFD2AB1C), (1, 0xFFEBBC19), (1, 0xFFF7C614),
   (1, 0xFFFCC811), (1, 0xFFFEC90D), (1, 0xFFFBC80B), (1, 0xFFFCC70B), (1, 0xFFFAC707), (1, 0xFFFAC605), (1, 0xFFFBC706),
   (1, 0xFFFCC808), (1, 0xFFFEC808), (1, 0xFFFCC807), (1, 0xFFFBC90A), (1, 0xFFFBC80E), (1, 0xFFF5C414), (1, 0xFFE7BA1B),
   (1, 0xFFCAA720), (1, 0xFF927B1C), (1, 0xFF463D11), (53, 0xFF000000)]]"

definition logo_rows_4 :: "run list list" where
  "logo_rows_4 =
  [[(222, 0xFF000000), (1, 0xFF000004), (1, 0xFF695814), (1, 0xFFBE9B1B), (1, 0xFFEBBE17), (1, 0xFFFBC90D), (1, 0xFFFCC704),
   (1, 0xFFFCC602), (1, 0xFFF9C602), (1, 0xFFF8C602), (1, 0xFFF9C605), (1, 0xFFF9C705), (1, 0xFFF9C706), (1, 0xFFF8C705),
   (1, 0xFFFAC705), (1, 0xFFFAC605), (1, 0xFFFAC606), (1, 0xFFFAC607), (1, 0xFFF9C606), (1, 0xFFFAC604), (1, 0xFFFAC505),
   (1, 0xFFF9C704), (1, 0xFFFBC904), (1, 0xFFFDCC0B), (1, 0xFFF7C917), (1, 0xFFE4BB22), (1, 0xFFAC8F22), (1, 0xFF514513),
   (1, 0xFF000001), (50, 0xFF000000)],
  [(221, 0xFF000000), (1, 0xFF453B0F), (1, 0xFFB5951F), (1, 0xFFEFC31B), (1, 0xFFFECA0A), (1, 0xFFFBC703), (1, 0xFFF9C503),
   (1, 0xFFF8C603), (1, 0xFFF8C701), (1, 0xFFF8C602), (1, 0xFFF8C703), (1, 0xFFF8C704), (1, 0xFFF8C805), (1, 0xFFF8C704),
   (1, 0xFFF8C703), (1, 0xFFF9C705), (2, 0xFFF8C704), (1, 0xFFF9C805), (1, 0xFFF7C804), (1, 0xFFF8C604), (1, 0xFFFAC504),
   (1, 0xFFF9C705), (1, 0xFFF9C905), (1, 0xFFF9C805), (1, 0xFFF9C808), (1, 0xFFFBCA0D), (1, 0xFFFBCC18), (1, 0xFFE6BE24),
   (1, 0xFFA1861F), (1, 0xFF332D0D), (49, 0xFF000000)]]"

definition logo_rows_6 :: "run list list" where
  "logo_rows_6 =
  [[(219, 0xFF000000), (1, 0xFF000001), (1, 0xFF816C1B), (1, 0xFFDCB520), (1, 0xFFFACA13), (1, 0xFFF9C806), (2, 0xFFF8C706),
   (1, 0xFFF8C604), (1, 0xFFF7C602), (1, 0xFFF8C700), (1, 0xFFF8C602), (2, 0xFFF7C603), (1, 0xFFF7C604), (1, 0xFFF8C602),
   (1, 0xFFF7C702), (1, 0xFFF7C601), (2, 0xFFF8C602), (1, 0xFFF9C704), (1, 0xFFF8C704), (1, 0xFFF8C805), (2, 0xFFF8C703),
   (1, 0xFFF8C805), (1, 0xFFF8C908), (1, 0xFFF8C80A), (1, 0xFFF8C709), (1, 0xFFF9C807), (1, 0xFFFCCB0A), (1, 0xFFFBCC17),
   (1, 0xFFDBB424), (1, 0xFF78661B), (1, 0xFF000001), (47, 0xFF000000)],
  [(218, 0xFF000000), (1, 0xFF37310F), (1, 0xFFAC8F22), (1, 0xFFEFC320), (1, 0xFFFBC80E), (1, 0xFFF7C509), (1, 0xFFF8C609),
   (1, 0xFFF7C705), (1, 0xFFF7C704), (1, 0xFFF7C703), (1, 0xFFF8C602), (1, 0xFFF7C603), (1, 0xFFF8C604), (1, 0xFFF7C503),
   (1, 0xFFF8C603), (1, 0xFFF8C604), (1, 0xFFF7C603), (1, 0xFFF7C702), (1, 0xFFF7C701), (1, 0xFFF7C602), (1, 0xFFF7C603),
   (1, 0xFFF8C705), (1, 0xFFF8C703), (1, 0xFFF7C803), (1, 0xFFF9C905), (1, 0xFFF8C805), (1, 0xFFF9C905), (1, 0xFFFAC907),
   (1, 0xFFF9C808), (1, 0xFFF9C809), (1, 0xFFF8C807), (1, 0xFFF9C908), (1, 0xFFFAC808), (1, 0xFFFCCB0F), (1, 0xFFEEC320),
   (1, 0xFFA3871F), (1, 0xFF1F1A08), (46, 0xFF000000)]]"

definition logo_rows_8 :: "run list list" where
  "logo_rows_8 =
  [[(217, 0xFF000000), (1, 0xFF4C4112), (1, 0xFFCFAD2A), (1, 0xFFF9CC1D), (1, 0xFFFAC60B), (1, 0xFFF7C60A), (1, 0xFFF7C70A),
   (1, 0xFFF8C808), (1, 0xFFF7C805), (1, 0xFFF7C904), (1, 0xFFF7C703), (1, 0xFFF8C603), (1, 0xFFF8C504), (1, 0xFFF7C504),
   (1, 0xFFF7C602), (1, 0xFFF7C603), (1, 0xFFF8C504), (1, 0xFFF7C605), (1, 0xFFF7C704), (2, 0xFFF7C703), (1, 0xFFF7C602),
   (1, 0xFFF7C703), (1, 0xFFF8C804), (1, 0xFFF9C703), (1, 0xFFF8C804), (1, 0xFFF9C904), (1, 0xFFF9C804), (1, 0xFFF9C805),
   (1, 0xFFF8C807), (1, 0xFFF8C808), (1, 0xFFF8C708), (1, 0xFFF7C808), (2, 0xFFF8C709), (1, 0xFFFAC809), (1, 0xFFF9CA18),
   (1, 0xFFC6A324), (1, 0xFF4C4213), (45, 0xFF000000)],
  [(216, 0xFF000000), (1, 0xFF4A3D10), (1, 0xFFD3AD22), (1, 0xFFFCCC16), (2, 0xFFF7C70B), (1, 0xFFF8C809), (1, 0xFFF8C808),
   (1, 0xFFF8C807), (1, 0xFFF7C905), (1, 0xFFF7C804), (1, 0xFFF6C704), (1, 0xFFF7C703), (1, 0xFFF7C604), (1, 0xFFF8C403),
   (1, 0xFFF7C604), (1, 0xFFF8C604), (1, 0xFFF8C504), (1, 0xFFF7C604), (1, 0xFFF7C705), (1, 0xFFF7C704), (1, 0xFFF7C603),
   (1, 0xFFF7C702), (1, 0xFFF7C704), (1, 0xFFF8C703), (1, 0xFFF8C704), (1, 0xFFF8C805), (1, 0xFFF8C806), (1, 0xFFF8C805),
   (1, 0xFFF7C906), (1, 0xFFF8C908), (1, 0xFFF8C809), (1, 0xFFF8C708), (1, 0xFFF8C807), (1, 0xFFF8C709), (2, 0xFFF8C708),
   (1, 0xFFF9C604), (1, 0xFFFBCA12), (1, 0xFFD2AE23), (1, 0xFF4D4110), (44, 0xFF000000)]]"

definition logo_rows_10 :: "run list list" where
  "logo_rows_10 =
  [[(215, 0xFF000000), (1, 0xFF4E4311), (1, 0xFFD4AE21), (1, 0xFFFBC912), (1, 0xFFF8C708), (1, 0xFFF7C809), (1, 0xFFF7C808),
   (2, 0xFFF8C807), (1, 0xFFF8C705), (1, 0xFFF8C706), (1, 0xFFF8C705), (1, 0xFFF7C806), (1, 0xFFF6C705), (1, 0xFFF7C606),
   (1, 0xFFF7C505), (1, 0xFFF9C504), (1, 0xFFF9C505), (1, 0xFFF9C606), (1, 0xFFF6C705), (1, 0xFFF6C704), (1, 0xFFF8C704),
   (1, 0xFFF7C804), (1, 0xFFF7C803), (1, 0xFFF8C703), (2, 0xFFF7C703), (1, 0xFFF7C704), (1, 0xFFF7C705), (1, 0xFFF6C805),
   (1, 0xFFF7C807), (1, 0xFFF8C806), (2, 0xFFF9C806), (1, 0xFFF9C706), (3, 0xFFF8C707), (1, 0xFFF7C606), (1, 0xFFF8C504),
   (1, 0xFFFDC90F), (1, 0xFFD5AE21), (1, 0xFF4E4412), (43, 0xFF000000)],
  [(214, 0xFF000000), (1, 0xFF473E10), (1, 0xFFD5B123), (1, 0xFFFCCB10), (1, 0xFFF9C708), (1, 0xFFF9C809), (1, 0xFFF8C808),
   (1, 0xFFF8CA08), (1, 0xFFF8C906), (2, 0xFFF7C705), (2, 0xFFF7C706), (1, 0xFFF7C606), (2, 0xFFF6C705), (1, 0xFFF8C706),
   (1, 0xFFF9C706), (1, 0xFFF8C605), (1, 0xFFF8C706), (1, 0xFFF6C704), (1, 0xFFF6C705), (1, 0xFFF7C805), (1, 0xFFF7C705),
   (1, 0xFFF7C704), (1, 0xFFF8C703), (2, 0xFFF8C804), (1, 0xFFF8C806), (1, 0xFFF8C605), (1, 0xFFF7C604), (1, 0xFFF7C706),
   (1, 0xFFF8C805), (1, 0xFFF7C805), (1, 0xFFF7C705), (1, 0xFFF8C706), (1, 0xFFF8C707), (1, 0xFFFAC608), (1, 0xFFF8C707),
   (1, 0xFFF9C707), (1, 0xFFF9C607), (1, 0xFFF9C604), (1, 0xFFFDCC0F), (1, 0xFFC7A51E), (1, 0xFF232108), (42, 0xFF000000)]]"

definition logo_rows_12 :: "run list list" where
  "logo_rows_12 =
  [[(213, 0xFF000000), (1, 0xFF191706), (1, 0xFFC09E1C), (1, 0xFFFCCC0F), (1, 0xFFF7C606), (1, 0xFFF8C708), (1, 0xFFF9C806),
   (1, 0xFFF9C705), (1, 0xFFF8C806), (1, 0xFFF8C707), (1, 0xFFF7C705), (1, 0xFFF6C705), (2, 0xFFF6C605), (1, 0xFFF7C605),
   (1, 0xFFF7C705), (1, 0xFFF6C704), (1, 0xFFF8C704), (1, 0xFFF8C605), (1, 0xFFF8C604), (1, 0xFFF6C705), (1, 0xFFF7C704),
   (1, 0xFFF7C605), (1, 0xFFF7C705), (1, 0xFFF7C606), (1, 0xFFF8C706), (1, 0xFFF8C704), (1, 0xFFF7C705), (1, 0xFFF8C605),
   (1, 0xFFF7C604), (1, 0xFFF8C604), (1, 0xFFF7C605), (1, 0xFFF7C805), (1, 0xFFF8C805), (1, 0xFFF7C704), (1, 0xFFF7C705),
   (1, 0xFFF8C705), (1, 0xFFF8C706), (1, 0xFFF8C607), (1, 0xFFF9C708), (1, 0xFFF8C607), (1, 0xFFF8C606), (1, 0xFFF9C606),
   (1, 0xFFF9C601), (1, 0xFFFAC910), (1, 0xFFAE8F1D), (1, 0xFF000003), (41, 0xFF000000)],
  [(213, 0xFF000000), (1, 0xFF987D17), (1, 0xFFF5C610), (1, 0xFFF7C501), (1, 0xFFF5C506), (1, 0xFFF6C705), (1, 0xFFF8C805),
   (1, 0xFFF7C703), (1, 0xFFF8C704), (1, 0xFFF6C705), (1, 0xFFF6C604), (1, 0xFFF7C703), (1, 0xFFF6C804), (1, 0xFFF6C805),
   (1, 0xFFF7C806), (1, 0xFFF8C705), (1, 0xFFF9C604), (1, 0xFFF8C602), (1, 0xFFF8C504), (1, 0xFFF8C605), (1, 0xFFF7C804),
   (1, 0xFFF6C606), (1, 0xFFF6C506), (2, 0xFFF8C706), (1, 0xFFF8C806), (1, 0xFFF8C704), (1, 0xFFF8C705), (1, 0xFFFAC606),
   (1, 0xFFF9C704), (1, 0xFFF8C704), (1, 0xFFF6C506), (1, 0xFFF7C806), (1, 0xFFF7C805), (1, 0xFFF7C704), (1, 0xFFF7C705),
   (1, 0xFFF7C605), (1, 0xFFF7C706), (1, 0xFFF7C606), (2, 0xFFF8C606), (1, 0xFFF8C706), (1, 0xFFFAC605), (1, 0xFFF8C504),
   (1, 0xFFF9C601), (1, 0xFFF3C417), (1, 0xFF8B741B), (1, 0xFF000001), (40, 0xFF000000)]]"

definition logo_rows_14 :: "run list list" where
  "logo_rows_14 =
  [[(212, 0xFF000000), (1, 0xFF584A10), (1, 0xFFE7BC16), (1, 0xFFF8C601), (1, 0xFFF4C404), (1, 0xFFF5C705), (1, 0xFFF6C804),
   (1, 0xFFF7C703), (1, 0xFFF7C904), (1, 0xFFF7C804), (1, 0xFFF6C803), (1, 0xFFF6C704), (1, 0xFFF6C804), (1, 0xFFF6C705),
   (1, 0xFFF7C806), (1, 0xFFF8C806), (1, 0xFFF9C705), (1, 0xFFFBC506), (1, 0xFFFAC706), (1, 0xFFF9C706), (1, 0xFFF7C705),
   (3, 0xFFF7C704), (1, 0xFFF8C806), (1, 0xFFF7C706), (1, 0xFFF8C806), (1, 0xFFF7C705), (1, 0xFFF8C706), (1, 0xFFF8C705),
   (1, 0xFFF7C806), (1, 0xFFF7C805), (1, 0xFFF7C704), (1, 0xFFF7C705), (2, 0xFFF6C705), (3, 0xFFF7C705), (1, 0xFFF8C705),
   (1, 0xFFF9C606), (1, 0xFFF8C606), (1, 0xFFF8C607), (1, 0xFFF9C505), (1, 0xFFF6C504), (1, 0xFFF8C603), (1, 0xFFFDCB04),
   (1, 0xFFE1B920), (1, 0xFF43390E), (40, 0xFF000000)],
  [(152, 0xFF000000), (2, 0xFF000002), (1, 0xFF000609), (1, 0xFF312D0E), (1, 0xFF312C0D), (1, 0xFF312C0B), (1, 0xFF3B330C),
   (1, 0xFF6A5C1A), (1, 0xFF70601A), (1, 0xFF705F18), (1, 0xFF706017), (1, 0xFF706016), (1, 0xFF706015), (1, 0xFF706016),
   (1, 0xFF705F17), (1, 0xFF6D5F18), (1, 0xFF463F0E), (1, 0xFF312C0A), (1, 0xFF302C0C), (1, 0xFF2F2C0D), (1, 0xFF29270F),
   (1, 0xFF000004), (1, 0xFF000001), (1, 0xFF000002), (35, 0xFF000000), (1, 0xFF050803), (1, 0xFFB79517), (1, 0xFFF8C708),
   (1, 0xFFF4C302), (1, 0xFFF3C405), (1, 0xFFF5C604), (1, 0xFFF6C603), (1, 0xFFF6C703), (2, 0xFFF7C705), (1, 0xFFF6C704),
   (1, 0xFFF7C703), (2, 0xFFF7C705), (1, 0xFFF8C606), (1, 0xFFF8C705), (1, 0xFFF9C505), (1, 0xFFF9C607), (1, 0xFFF9C706),
   (1, 0xFFF8C806), (1, 0xFFF8C706), (1, 0xFFF8C605), (1, 0xFFF6C705), (1, 0xFFF6C704), (1, 0xFFF7C703), (2, 0xFFF8C806),
   (4, 0xFFF7C705), (1, 0xFFF7C704), (1, 0xFFF7C805), (1, 0xFFF8C705), (1, 0xFFF7C706), (1, 0xFFF7C705), (1, 0xFFF7C706),
   (1, 0xFFF6C506), (1, 0xFFF7C605), (1, 0xFFF8C706), (1, 0xFFF8C705), (1, 0xFFF8C506), (1, 0xFFF8C607), (1, 0xFFF7C606),
   (1, 0xFFF7C605), (1, 0xFFF8C704), (1, 0xFFF9C802), (1, 0xFFFCCC12), (1, 0xFFA2871A), (40, 0xFF000000)]]"

definition logo_rows_16 :: "run list list" where
  "logo_rows_16 =
  [[(144, 0xFF000000), (1, 0xFF000004), (1, 0xFF232109), (1, 0xFF493D0D), (1, 0xFF655616), (1, 0xFF736114), (1, 0xFF977F1E),
   (1, 0xFF9C8219), (1, 0xFFB2941F), (1, 0xFFC6A420), (1, 0xFFC7A318), (1, 0xFFD4AF1B), (1, 0xFFE0B91E), (1, 0xFFE1B81C),
   (1, 0xFFE1B918), (1, 0xFFE2BA16), (1, 0xFFEDC31D), (1, 0xFFF0C51C), (1, 0xFFF0C51B), (1, 0xFFF1C41A), (1, 0xFFF2C619),
   (1, 0xFFF0C618), (1, 0xFFF0C519), (1, 0xFFF1C51A), (1, 0xFFEFC41B), (1, 0xFFE5BD16), (1, 0xFFE0B916), (1, 0xFFDFB819),
   (1, 0xFFDEB81C), (1, 0xFFDDB620), (1, 0xFFCAA719), (1, 0xFFC4A319), (1, 0xFFC4A421), (1, 0xFFB7981F), (1, 0xFF9E8318),
   (1, 0xFF9D831F), (1, 0xFF836E19), (1, 0xFF6C5A14), (1, 0xFF5E5015), (1, 0xFF41380D), (1, 0xFF221F09), (1, 0xFF000004),
   (26, 0xFF000000), (1, 0xFF766213), (1, 0xFFEFC013), (1, 0xFFF5C402), (1, 0xFFF3C304), (1, 0xFFF5C504), (1, 0xFFF6C603),
   (1, 0xFFF6C701), (1, 0xFFF7C602), (1, 0xFFF8C703), (1, 0xFFF7C703), (1, 0xFFF7C604), (1, 0xFFF6C604), (1, 0xFFF7C604),
   (1, 0xFFF8C704), (1, 0xFFF9C606), (1, 0xFFF8C705), (2, 0xFFF8C706), (1, 0xFFF8C607), (1, 0xFFF7C607), (1, 0xFFF8C605),
   (1, 0xFFF8C604), (1, 0xFFF8C605), (1, 0xFFF8C706), (1, 0xFFF8C604), (1, 0xFFF7C805), (1, 0xFFF7C806), (1, 0xFFF8C805),
   (1, 0xFFF8C705), (1, 0xFFF7C805), (1, 0xFFF8C704), (1, 0xFFF9C604), (1, 0xFFF7C607), (1, 0xFFF7C705), (1, 0xFFF7C706),
   (1, 0xFFF7C607), (1, 0xFFF8C706), (1, 0xFFF7C706), (1, 0xFFF8C707), (2, 0xFFF8C805), (1, 0xFFF8C806), (1, 0xFFF9C706),
   (1, 0xFFF8C606), (1, 0xFFF8C607), (1, 0xFFF9C807), (1, 0xFFF9C707), (1, 0xFFFCCB09), (1, 0xFFE6BE21), (1, 0xFF554814),
   (39, 0xFF000000)],
  [(138, 0xFF000000), (1, 0xFF000003), (1, 0xFF1D1B08), (1, 0xFF4B3F11), (1, 0xFF705D16), (1, 0xFF957C1C), (1, 0xFFAD911E),
   (1, 0xFFC3A21F), (1, 0xFFD2AF1E), (1, 0xFFE2BA1D), (1, 0xFFEEC41E), (1, 0xFFF3C618), (1, 0xFFF9CA16), (1, 0xFFFBCB13),
   (1, 0xFFFCCB0E), (1, 0xFFFDCB0B), (1, 0xFFFDCB07), (1, 0xFFFDCA04), (1, 0xFFFBC703), (2, 0xFFFAC703), (1, 0xFFF9C802),
   (2, 0xFFF8C700), (1, 0xFFF9C701), (1, 0xFFFAC501), (1, 0xFFF9C601), (1, 0xFFF8C701), (1, 0xFFFAC502), (2, 0xFFFAC601),
   (1, 0xFFFBC802), (1, 0xFFFCC803), (1, 0xFFFBC703), (1, 0xFFFAC804), (1, 0xFFFBC905), (1, 0xFFFCCB06), (1, 0xFFFDCA09),
   (1, 0xFFFCCB0B), (1, 0xFFFCCB0E), (1, 0xFFFBCB11), (1, 0xFFFBCB15), (1, 0xFFF6C816), (1, 0xFFF3C51A), (1, 0xFFECC11D),
   (1, 0xFFDFB71D), (1, 0xFFD1AD1C), (1, 0xFFC2A01F), (1, 0xFFAC8E1E), (1, 0xFF947A1D), (1, 0xFF715F18), (1, 0xFF534815),
   (1, 0xFF25210A), (1, 0xFF000004), (19, 0xFF000000), (1, 0xFF000003), (1, 0xFFC5A01A), (1, 0xFFFCC805), (1, 0xFFF5C405),
   (1, 0xFFF7C606), (1, 0xFFF7C806), (1, 0xFFF7C704), (1, 0xFFF8C803), (1, 0xFFF7C701), (1, 0xFFF6C802), (1, 0xFFF7C803),
   (2, 0xFFF6C704), (1, 0xFFF6C803), (1, 0xFFF8C804), (1, 0xFFF8C807), (1, 0xFFF7C806), (1, 0xFFF7C707), (1, 0xFFF8C608),
   (1, 0xFFF8C606), (1, 0xFFF8C706), (1, 0xFFF7C604), (1, 0xFFF7C705), (1, 0xFFF7C505), (1, 0xFFF7C705), (1, 0xFFF8C605),
   (1, 0xFFF7C704), (1, 0xFFF7C705), (1, 0xFFF8C705), (1, 0xFFF8C605), (1, 0xFFF7C604), (1, 0xFFF7C703), (1, 0xFFF8C705),
   (1, 0xFFF6C606), (2, 0xFFF7C705), (1, 0xFFF7C606), (1, 0xFFF7C607), (1, 0xFFF8C806), (1, 0xFFF7C706), (1, 0xFFF8C707),
   (1, 0xFFF8C706), (2, 0xFFF9C807), (1, 0xFFF8C808), (1, 0xFFF9C809), (1, 0xFFF8C808), (1, 0xFFF9C80A), (1, 0xFFF8C90A),
   (1, 0xFFFCCD18), (1, 0xFFAC8F21), (1, 0xFF000001), (38, 0xFF000000)]]"

definition logo_rows_18 :: "run list list" where
  "logo_rows_18 =
  [[(134, 0xFF000000), (1, 0xFF000008), (1, 0xFF433910), (1, 0xFF786417), (1, 0xFF9B821C), (1, 0xFFBC9B1F), (1, 0xFFD6AF20),
   (1, 0xFFE8BD1F), (1, 0xFFF3C41B), (1, 0xFFF9C816), (1, 0xFFFBCA11), (1, 0xFFFCCB0C), (1, 0xFFFBC908), (1, 0xFFFBCA08),
   (1, 0xFFFAC905), (1, 0xFFFAC805), (1, 0xFFF9C805), (1, 0xFFF8C806), (1, 0xFFF9C906), (1, 0xFFF8C806), (1, 0xFFF7C805),
   (1, 0xFFF7C802), (1, 0xFFF7C702), (2, 0xFFF7C703), (3, 0xFFF7C603), (1, 0xFFF8C502), (1, 0xFFF7C402), (1, 0xFFF6C503),
   (1, 0xFFF6C602), (1, 0xFFF8C503), (1, 0xFFF7C502), (1, 0xFFF6C502), (1, 0xFFF7C502), (1, 0xFFF7C602), (2, 0xFFF7C603),
   (1, 0xFFF8C604), (1, 0xFFF8C702), (1, 0xFFF9C604), (1, 0xFFF9C704), (1, 0xFFF9C703), (1, 0xFFF8C703), (1, 0xFFF9C603),
   (1, 0xFFFAC703), (1, 0xFFF9C703), (1, 0xFFF9C704), (1, 0xFFFAC805), (1, 0xFFFCC907), (1, 0xFFFCCA0C), (1, 0xFFFCC912),
   (1, 0xFFF7C817), (1, 0xFFF2C51C), (1, 0xFFE9C021), (1, 0xFFDBB423), (1, 0xFFC3A122), (1, 0xFF9F841D), (1, 0xFF7B6516),
   (1, 0xFF4D4110), (1, 0xFF000005), (15, 0xFF000000), (1, 0xFF5F4F12), (1, 0xFFEBBF17), (1, 0xFFFAC801), (1, 0xFFF6C604),
   (1, 0xFFF6C704), (1, 0xFFF7C805), (1, 0xFFF7C704), (1, 0xFFF8C704), (1, 0xFFF8C702), (1, 0xFFF7C803), (1, 0xFFF5C803),
   (1, 0xFFF5C703), (1, 0xFFF7C604), (1, 0xFFF8C604), (1, 0xFFF7C704), (1, 0xFFF7C806), (1, 0xFFF7C804), (1, 0xFFF8C605),
   (1, 0xFFF7C506), (1, 0xFFF6C506), (1, 0xFFF7C606), (1, 0xFFF8C506), (1, 0xFFF7C705), (2, 0xFFF6C604), (1, 0xFFF7C605),
   (1, 0xFFF7C604), (1, 0xFFF7C605), (1, 0xFFF8C604), (2, 0xFFF7C604), (1, 0xFFF7C505), (1, 0xFFF7C705), (1, 0xFFF6C605),
   (2, 0xFFF7C705), (1, 0xFFF7C706), (1, 0xFFF8C607), (1, 0xFFF8C705), (1, 0xFFF7C804), (1, 0xFFF8C705), (1, 0xFFF8C606),
   (1, 0xFFF8C708), (1, 0xFFF8C808), (1, 0xFFF9C80A), (1, 0xFFF8C80A), (1, 0xFFF8C809), (1, 0xFFF8C80A), (1, 0xFFF8C80B),
   (1, 0xFFFCCD0E), (1, 0xFFE2BA22), (1, 0xFF3C330E), (38, 0xFF000000)],
  [(129, 0xFF000000), (1, 0xFF000001), (1, 0xFF1E1D07), (1, 0xFF57490F), (1, 0xFF836E16), (1, 0xFFB0931C), (1, 0xFFD2AD1E),
   (1, 0xFFE4BB1D), (1, 0xFFF2C51A), (1, 0xFFF8C814), (1, 0xFFFBCA10), (1, 0xFFFCC80B), (1, 0xFFFBC807), (1, 0xFFFAC806),
   (1, 0xFFF9C805), (2, 0xFFF9C704), (1, 0xFFF9C805), (1, 0xFFF9C806), (1, 0xFFF8C807), (1, 0xFFF7C807), (1, 0xFFF8C909),
   (1, 0xFFF7C908), (1, 0xFFF8C706), (1, 0xFFF9C707), (1, 0xFFF9C907), (1, 0xFFF7C806), (1, 0xFFF6C706), (1, 0xFFF7C805),
   (1, 0xFFF7C904), (1, 0xFFF7C803), (1, 0xFFF7C604), (2, 0xFFF6C603), (1, 0xFFF6C505), (1, 0xFFF6C605), (1, 0xFFF6C603),
   (1, 0xFFF6C604), (1, 0xFFF7C604), (1, 0xFFF6C604), (1, 0xFFF6C603), (1, 0xFFF6C604), (1, 0xFFF6C704), (1, 0xFFF7C604),
   (1, 0xFFF7C703), (1, 0xFFF6C802), (1, 0xFFF6C704), (1, 0xFFF8C804), (1, 0xFFF8C703), (1, 0xFFF9C804), (1, 0xFFF8C805),
   (1, 0xFFF8C705), (1, 0xFFF7C706), (1, 0xFFF8C806), (1, 0xFFF9C705), (1, 0xFFF8C704), (1, 0xFFF9C905), (1, 0xFFFBC805),
   (1, 0xFFFAC707), (1, 0xFFFAC806), (1, 0xFFFAC807), (1, 0xFFFBC90A), (1, 0xFFFDCC10), (1, 0xFFFBCB15), (1, 0xFFF5C618),
   (1, 0xFFE8BD1B), (1, 0xFFD1AB19), (1, 0xFFB8971B), (1, 0xFF8E7313), (1, 0xFF6B5812), (1, 0xFF42370C), (1, 0xFF000001),
   (9, 0xFF000000), (1, 0xFF000001), (1, 0xFFA2891C), (1, 0xFFFACC12), (1, 0xFFF9C802), (1, 0xFFF7C704), (1, 0xFFF7C606),
   (1, 0xFFF6C604), (1, 0xFFF6C702), (1, 0xFFF6C704), (1, 0xFFF6C604), (1, 0xFFF5C704), (1, 0xFFF6C704), (1, 0xFFF6C504),
   (1, 0xFFF8C505), (2, 0xFFF9C504), (1, 0xFFF8C705), (2, 0xFFF7C503), (2, 0xFFF7C604), (1, 0xFFF8C505), (1, 0xFFF7C504),
   (1, 0xFFF7C805), (2, 0xFFF7C705), (1, 0xFFF8C605), (1, 0xFFF9C605), (2, 0xFFF8C603), (1, 0xFFF8C704), (1, 0xFFF7C704),
   (1, 0xFFF7C604), (1, 0xFFF8C504), (1, 0xFFF8C606), (1, 0xFFF8C705), (1, 0xFFF7C705), (1, 0xFFF8C705), (1, 0xFFF8C706),
   (1, 0xFFF7C805), (1, 0xFFF7C806), (1, 0xFFF7C608), (1, 0xFFF9C708), (1, 0xFFF8C708), (1, 0xFFF8C609), (1, 0xFFF8C808),
   (1, 0xFFF7C708), (1, 0xFFF7C809), (1, 0xFFF8C80A), (1, 0xFFF8C80B), (1, 0xFFFACA0C), (1, 0xFFF6C91A), (1, 0xFF8A731A),
   (38, 0xFF000000)]]"

definition logo_rows_20 :: "run list list" where
  "logo_rows_20 =
  [[(126, 0xFF000000), (1, 0xFF000104), (1, 0xFF4F4311), (1, 0xFF897217), (1, 0xFFB3921B), (1, 0xFFD3AC1A), (1, 0xFFEABF19),
   (1, 0xFFF7C915), (1, 0xFFFDCB0E), (1, 0xFFFDCA07), (1, 0xFFFBC905), (1, 0xFFFAC805), (1, 0xFFF9C505), (1, 0xFFF8C505),
   (3, 0xFFF8C707), (1, 0xFFF9C706), (1, 0xFFF8C706), (1, 0xFFF9C707), (1, 0xFFF8C907), (1, 0xFFF8C906), (1, 0xFFF7C707),
   (1, 0xFFF7C708), (1, 0xFFF7C609), (2, 0xFFF7C608), (1, 0xFFF8C707), (1, 0xFFF9C807), (1, 0xFFF9C906), (3, 0xFFF8C905),
   (1, 0xFFF7C804), (1, 0xFFF6C802), (1, 0xFFF7C804), (1, 0xFFF8C805), (2, 0xFFF7C705), (1, 0xFFF7C704), (1, 0xFFF6C804),
   (1, 0xFFF6C604), (1, 0xFFF7C604), (1, 0xFFF7C805), (1, 0xFFF7C806), (1, 0xFFF7C805), (1, 0xFFF7C804), (1, 0xFFF7C803),
   (1, 0xFFF7C904), (2, 0xFFF7C805), (1, 0xFFF8C804), (1, 0xFFF8C704), (1, 0xFFF7C706), (1, 0xFFF8C707), (1, 0xFFF8C807),
   (1, 0xFFF8C906), (1, 0xFFF9C806), (1, 0xFFF8C707), (1, 0xFFF8C807), (1, 0xFFF9C907), (1, 0xFFF9C806), (1, 0xFFF8C807),
   (1, 0xFFF8C708), (1, 0xFFF9C809), (1, 0xFFF9C806), (1, 0xFFFAC804), (1, 0xFFFBC902), (1, 0xFFFCC902), (1, 0xFFFDCA04),
   (1, 0xFFFCC908), (1, 0xFFF7C60C), (1, 0xFFF0C114), (1, 0xFFDDB61F), (1, 0xFF79661A), (9, 0xFF000000), (1, 0xFF131106),
   (1, 0xFFD1AD20), (1, 0xFFFCCD0B), (1, 0xFFF8CA06), (1, 0xFFF9C905), (1, 0xFFFAC907), (1, 0xFFF8C906), (1, 0xFFF7C904),
   (1, 0xFFF7C805), (1, 0xFFF7C705), (1, 0xFFF6C804), (1, 0xFFF6C704), (1, 0xFFF6C605), (1, 0xFFF7C704), (1, 0xFFF8C705),
   (1, 0xFFF9C504), (1, 0xFFF7C604), (2, 0xFFF8C504), (1, 0xFFF8C605), (1, 0xFFF7C504), (1, 0xFFF6C605), (1, 0xFFF7C705),
   (1, 0xFFF6C605), (1, 0xFFF7C605), (1, 0xFFF8C505), (1, 0xFFF9C404), (1, 0xFFF9C505), (1, 0xFFF7C603), (2, 0xFFF7C605),
   (1, 0xFFF6C602), (2, 0xFFF7C704), (1, 0xFFF7C606), (2, 0xFFF6C604), (1, 0xFFF6C705), (1, 0xFFF7C805), (1, 0xFFF8C807),
   (1, 0xFFF7C608), (1, 0xFFF8C709), (1, 0xFFF8C809), (1, 0xFFF8C706), (1, 0xFFF8C708), (2, 0xFFF9C90A), (1, 0xFFF8C909),
   (1, 0xFFF8CA07), (1, 0xFFF9C909), (1, 0xFFF9C90A), (1, 0xFFFDCD10), (1, 0xFFC1A01E), (1, 0xFF010103), (37, 0xFF000000)],
  [(123, 0xFF000000), (1, 0xFF000005), (1, 0xFF655514), (1, 0xFF977D18), (1, 0xFFC7A41C), (1, 0xFFE8BD1A), (1, 0xFFF7C612),
   (1, 0xFFFDCA0B), (1, 0xFFFCCA05), (1, 0xFFFAC903), (1, 0xFFF9C702), (1, 0xFFF9C602), (2, 0xFFF8C604), (1, 0xFFF9C703),
   (1, 0xFFFAC504), (1, 0xFFF9C604), (1, 0xFFF8C603), (1, 0xFFF9C605), (1, 0xFFF9C707), (1, 0xFFF8C709), (1, 0xFFF9C807),
   (2, 0xFFF9C707), (1, 0xFFF8C807), (2, 0xFFF8C708), (1, 0xFFF7C608), (1, 0xFFF7C607), (1, 0xFFF7C608), (1, 0xFFF8C707),
   (1, 0xFFF8C808), (1, 0xFFF9C707), (1, 0xFFF8C705), (1, 0xFFF8C806), (2, 0xFFF8C805), (1, 0xFFF7C805), (1, 0xFFF8C804),
   (1, 0xFFF8C803), (1, 0xFFF7C903), (1, 0xFFF6C804), (1, 0xFFF7C904), (1, 0xFFF6C804), (1, 0xFFF7C805), (1, 0xFFF7C706),
   (1, 0xFFF6C705), (1, 0xFFF7C705), (1, 0xFFF7C806), (1, 0xFFF8C806), (1, 0xFFF7C805), (1, 0xFFF7C906), (1, 0xFFF7C806),
   (1, 0xFFF8C706), (1, 0xFFF8C705), (1, 0xFFF7C604), (1, 0xFFF7C505), (2, 0xFFF8C607), (1, 0xFFF8C705), (1, 0xFFFAC706),
   (1, 0xFFF9C806), (1, 0xFFF9C707), (1, 0xFFF8C806), (1, 0xFFF8C805), (1, 0xFFF9C806), (1, 0xFFF9C807), (1, 0xFFFAC707),
   (1, 0xFFF9C805), (1, 0xFFFAC704), (1, 0xFFFAC603), (1, 0xFFF9C502), (1, 0xFFF8C604), (1, 0xFFF8C504), (1, 0xFFF6C402),
   (1, 0xFFF5C300), (1, 0xFFF7C812), (1, 0xFF826B15), (9, 0xFF000000), (1, 0xFF584B12), (1, 0xFFEBC11D), (1, 0xFFFBCB0A),
   (1, 0xFFF8C909), (1, 0xFFF8C908), (1, 0xFFF9CA06), (1, 0xFFF9C906), (1, 0xFFF9C805), (1, 0xFFF7C805), (1, 0xFFF7C807),
   (1, 0xFFF7C804), (1, 0xFFF7C702), (1, 0xFFF6C704), (1, 0xFFF7C704), (1, 0xFFF9C604), (1, 0xFFF9C504), (1, 0xFFFAC504),
   (1, 0xFFF9C404), (1, 0xFFF9C504), (1, 0xFFFAC504), (1, 0xFFF8C505), (1, 0xFFF7C607), (1, 0xFFF9C507), (1, 0xFFF8C505),
   (1, 0xFFF8C706), (1, 0xFFF8C605), (1, 0xFFF9C504), (1, 0xFFF8C504), (1, 0xFFF7C503), (1, 0xFFF7C505), (1, 0xFFF7C503),
   (1, 0xFFF7C603), (1, 0xFFF7C704), (2, 0xFFF7C705), (2, 0xFFF7C604), (1, 0xFFF7C705), (1, 0xFFF7C906), (1, 0xFFF8C805),
   (1, 0xFFF6C705), (1, 0xFFF7C608), (1, 0xFFF8C808), (1, 0xFFF8C806), (1, 0xFFF7C707), (1, 0xFFF8C909), (1, 0xFFF9C909),
   (1, 0xFFF8C809), (1, 0xFFF8C908), (1, 0xFFF7CA06), (1, 0xFFF8C909), (1, 0xFFFBCA09), (1, 0xFFE4BD1D), (1, 0xFF493E0D),
   (37, 0xFF000000)]]"

definition logo_rows_22 :: "run list list" where
  "logo_rows_22 =
  [[(120, 0xFF000000), (1, 0xFF000004), (1, 0xFF564811), (1, 0xFF997E1A), (1, 0xFFCBA71D), (1, 0xFFEBBF1B), (1, 0xFFF8C811),
   (1, 0xFFFBC909), (1, 0xFFFAC703), (1, 0xFFF9C503), (1, 0xFFF9C602), (1, 0xFFF7C600), (1, 0xFFF8C703), (1, 0xFFF8C603),
   (1, 0xFFF8C604), (1, 0xFFF9C704), (1, 0xFFF9C703), (1, 0xFFF8C502), (2, 0xFFF7C503), (1, 0xFFF8C603), (1, 0xFFF7C702),
   (1, 0xFFF8C703), (1, 0xFFF7C705), (1, 0xFFF8C605), (1, 0xFFF7C605), (1, 0xFFF8C505), (1, 0xFFF7C605), (2, 0xFFF7C706),
   (1, 0xFFF8C605), (1, 0xFFF8C604), (1, 0xFFF8C703), (1, 0xFFF9C706), (1, 0xFFF9C707), (1, 0xFFF8C606), (1, 0xFFF7C706),
   (1, 0xFFF8C808), (1, 0xFFF8C607), (1, 0xFFF7C607), (1, 0xFFF7C706), (1, 0xFFF7C806), (1, 0xFFF9C805), (1, 0xFFF8C805),
   (1, 0xFFF8C706), (1, 0xFFF8C604), (1, 0xFFF7C704), (1, 0xFFF8C705), (1, 0xFFF8C704), (1, 0xFFF7C604), (1, 0xFFF7C504),
   (1, 0xFFF6C602), (1, 0xFFF6C703), (1, 0xFFF6C705), (1, 0xFFF8C706), (1, 0xFFF9C706), (1, 0xFFF8C603), (1, 0xFFF7C604),
   (2, 0xFFF6C604), (1, 0xFFF7C504), (1, 0xFFF7C606), (2, 0xFFF8C607), (1, 0xFFF8C706), (1, 0xFFF8C605), (1, 0xFFF9C606),
   (1, 0xFFF8C606), (1, 0xFFF9C706), (1, 0xFFFAC606), (1, 0xFFFCC604), (1, 0xFFFAC703), (1, 0xFFF9C705), (1, 0xFFF9C706),
   (1, 0xFFF9C606), (1, 0xFFF7C504), (1, 0xFFF6C404), (1, 0xFFF6C303), (1, 0xFFF5C301), (1, 0xFFEDC117), (1, 0xFF695813),
   (9, 0xFF000000), (1, 0xFF8F781B), (1, 0xFFF7CB18), (1, 0xFFFACB08), (1, 0xFFF9CA0A), (1, 0xFFF7CA09), (1, 0xFFF7C808),
   (1, 0xFFF8C707), (1, 0xFFF8C805), (1, 0xFFF7C705), (1, 0xFFF7C604), (1, 0xFFF7C704), (1, 0xFFF7C703), (1, 0xFFF7C502),
   (1, 0xFFF5C502), (1, 0xFFF6C603), (2, 0xFFF9C505), (1, 0xFFF8C505), (2, 0xFFF9C406), (1, 0xFFF8C506), (1, 0xFFF7C605),
   (1, 0xFFF8C505), (1, 0xFFFAC506), (1, 0xFFF9C607), (1, 0xFFF9C505), (1, 0xFFF9C404), (1, 0xFFF9C304), (1, 0xFFF8C403),
   (1, 0xFFF7C604), (1, 0xFFF7C605), (1, 0xFFF8C505), (1, 0xFFF7C603), (1, 0xFFF6C504), (1, 0xFFF7C606), (1, 0xFFF8C706),
   (1, 0xFFF8C605), (1, 0xFFF8C606), (1, 0xFFF8C706), (1, 0xFFF8C906), (1, 0xFFF7C804), (1, 0xFFF7C806), (1, 0xFFF8C907),
   (1, 0xFFF8C806), (2, 0xFFF8C807), (1, 0xFFF8C907), (1, 0xFFF7C709), (1, 0xFFF8C809), (1, 0xFFF8C806), (1, 0xFFF9C905),
   (1, 0xFFFBC906), (1, 0xFFF5C817), (1, 0xFF786615), (37, 0xFF000000)],
  [(117, 0xFF000000), (1, 0xFF000002), (1, 0xFF332A0B), (1, 0xFF8A731B), (1, 0xFFBF9E1F), (1, 0xFFE7BD1D), (1, 0xFFF9C914),
   (1, 0xFFFAC90A), (1, 0xFFF8C606), (1, 0xFFF7C505), (1, 0xFFF6C505), (1, 0xFFF7C503), (3, 0xFFF8C604), (1, 0xFFF7C503),
   (1, 0xFFF7C502), (2, 0xFFF8C603), (1, 0xFFF8C502), (1, 0xFFF9C403), (1, 0xFFF7C604), (1, 0xFFF6C604), (1, 0xFFF8C503),
   (1, 0xFFF7C602), (2, 0xFFF8C501), (1, 0xFFF7C502), (1, 0xFFF7C504), (1, 0xFFF6C404), (1, 0xFFF6C503), (1, 0xFFF8C605),
   (1, 0xFFF7C505), (1, 0xFFF8C503), (1, 0xFFF9C503), (1, 0xFFFAC604), (2, 0xFFF8C604), (1, 0xFFF7C603), (1, 0xFFF7C705),
   (1, 0xFFF7C706), (1, 0xFFF8C806), (1, 0xFFF8C706), (1, 0xFFF7C706), (1, 0xFFF8C806), (1, 0xFFF7C705), (1, 0xFFF8C605),
   (1, 0xFFF8C606), (1, 0xFFF7C605), (1, 0xFFF7C705), (1, 0xFFF8C705), (1, 0xFFF7C805), (1, 0xFFF7C703), (1, 0xFFF7C603),
   (2, 0xFFF8C402), (1, 0xFFF8C404), (1, 0xFFF7C604), (1, 0xFFF8C605), (1, 0xFFF7C504), (1, 0xFFF6C602), (1, 0xFFF7C603),
   (1, 0xFFF7C604), (1, 0xFFF7C503), (1, 0xFFF7C505), (1, 0xFFF7C606), (1, 0xFFF7C605), (1, 0xFFF7C506), (1, 0xFFF7C504),
   (1, 0xFFF8C605), (1, 0xFFF9C604), (1, 0xFFF8C605), (1, 0xFFF8C606), (1, 0xFFF8C604), (1, 0xFFF9C504), (1, 0xFFF7C604),
   (1, 0xFFF7C605), (1, 0xFFF8C507), (1, 0xFFF6C507), (2, 0xFFF5C405), (1, 0xFFF7C603), (1, 0xFFDEB71A), (1, 0xFF433A0C),
   (8, 0xFF000000), (1, 0xFF000001), (1, 0xFFAE921D), (1, 0xFFFBCC10), (1, 0xFFF9C908), (1, 0xFFF9C909), (1, 0xFFF8C908),
   (1, 0xFFF7C809), (1, 0xFFF8C809), (1, 0xFFF8C807), (1, 0xFFF7C804), (1, 0xFFF7C704), (2, 0xFFF8C604), (1, 0xFFF7C503),
   (1, 0xFFF6C504), (1, 0xFFF6C503), (1, 0xFFF7C404), (1, 0xFFF8C505), (1, 0xFFF9C504), (1, 0xFFFAC405), (1, 0xFFF8C505),
   (1, 0xFFF7C406), (1, 0xFFF7C504), (1, 0xFFF7C503), (1, 0xFFF7C605), (1, 0xFFF8C506), (1, 0xFFF8C505), (1, 0xFFF7C504),
   (1, 0xFFF8C405), (1, 0xFFF7C405), (1, 0xFFF6C505), (1, 0xFFF8C605), (1, 0xFFF8C705), (1, 0xFFF6C604), (1, 0xFFF7C705),
   (1, 0xFFF8C705), (1, 0xFFF8C806), (1, 0xFFF8C705), (1, 0xFFF8C805), (1, 0xFFF8C705), (1, 0xFFF8C805), (1, 0xFFF8C904),
   (1, 0xFFF8C806), (1, 0xFFF7C807), (1, 0xFFF8C906), (1, 0xFFF8C706), (1, 0xFFF6C707), (2, 0xFFF7C607), (1, 0xFFF7C707),
   (1, 0xFFF8C806), (1, 0xFFF8C803), (1, 0xFFF9C905), (1, 0xFFFCCE11), (1, 0xFFA68C1E), (37, 0xFF000000)]]"

definition logo_rows_24 :: "run list list" where
  "logo_rows_24 =
  [[(115, 0xFF000000), (1, 0xFF14160A), (1, 0xFF786519), (1, 0xFFB69821), (1, 0xFFE0B720), (1, 0xFFF5C819), (1, 0xFFFBCB0F),
   (1, 0xFFF9C906), (1, 0xFFF8C604), (1, 0xFFF8C603), (1, 0xFFF7C705), (1, 0xFFF8C706), (1, 0xFFF8C605), (1, 0xFFF7C504),
   (1, 0xFFF7C604), (1, 0xFFF8C604), (1, 0xFFF8C605), (1, 0xFFF8C604), (1, 0xFFF7C502), (1, 0xFFF7C602), (1, 0xFFF7C502),
   (1, 0xFFF7C503), (1, 0xFFF8C404), (1, 0xFFF6C504), (1, 0xFFF7C505), (1, 0xFFF8C503), (1, 0xFFF7C402), (1, 0xFFF8C402),
   (1, 0xFFF8C502), (1, 0xFFF6C602), (1, 0xFFF7C504), (1, 0xFFF6C505), (1, 0xFFF6C604), (1, 0xFFF7C504), (1, 0xFFF8C503),
   (2, 0xFFF9C504), (1, 0xFFFAC404), (1, 0xFFF9C503), (1, 0xFFF7C503), (2, 0xFFF7C704), (1, 0xFFF7C804), (1, 0xFFF8C806),
   (1, 0xFFF7C707), (1, 0xFFF8C707), (1, 0xFFF8C805), (2, 0xFFF8C704), (1, 0xFFF8C706), (1, 0xFFF7C606), (3, 0xFFF7C704),
   (1, 0xFFF7C604), (1, 0xFFF7C503), (1, 0xFFF9C403), (1, 0xFFF9C402), (1, 0xFFF8C504), (1, 0xFFF7C503), (2, 0xFFF7C504),
   (1, 0xFFF7C503), (1, 0xFFF7C403), (1, 0xFFF7C505), (1, 0xFFF6C405), (1, 0xFFF6C402), (1, 0xFFF7C502), (1, 0xFFF7C504),
   (1, 0xFFF7C404), (3, 0xFFF8C503), (1, 0xFFF8C403), (2, 0xFFF7C604), (1, 0xFFF8C504), (2, 0xFFF7C505), (2, 0xFFF6C506),
   (1, 0xFFF4C504), (1, 0xFFF5C505), (1, 0xFFF9C907), (1, 0xFFCCA818), (1, 0xFF090B05), (8, 0xFF000000), (1, 0xFF0B0B05),
   (1, 0xFFC4A31E), (1, 0xFFFCCD0E), (1, 0xFFFAC908), (1, 0xFFF8C809), (1, 0xFFF6C709), (1, 0xFFF8C709), (1, 0xFFF9C709),
   (1, 0xFFF8C707), (1, 0xFFF8C805), (2, 0xFFF7C703), (1, 0xFFF7C604), (4, 0xFFF7C503), (1, 0xFFF7C504), (1, 0xFFF9C404),
   (1, 0xFFF8C504), (1, 0xFFF6C505), (1, 0xFFF7C403), (1, 0xFFF8C503), (1, 0xFFF7C502), (1, 0xFFF7C504), (1, 0xFFF8C403),
   (1, 0xFFF7C402), (1, 0xFFF7C504), (1, 0xFFF8C403), (1, 0xFFF8C304), (1, 0xFFF7C405), (1, 0xFFF8C606), (1, 0xFFF8C504),
   (2, 0xFFF7C603), (1, 0xFFF7C703), (2, 0xFFF8C804), (1, 0xFFF8C706), (1, 0xFFF8C705), (1, 0xFFF8C704), (1, 0xFFF7C905),
   (1, 0xFFF7C907), (1, 0xFFF8C807), (1, 0xFFF9C805), (2, 0xFFF8C707), (1, 0xFFF7C707), (1, 0xFFF8C807), (1, 0xFFF8C706),
   (1, 0xFFF9C606), (1, 0xFFF8C704), (1, 0xFFF8C804), (1, 0xFFFECD0D), (1, 0xFFBB9A1C), (37, 0xFF000000)],
  [(112, 0xFF000000), (1, 0xFF000004), (1, 0xFF5D4E14), (1, 0xFFA78A1F), (1, 0xFFD8B122), (1, 0xFFF1C51D), (1, 0xFFFBCB15),
   (1, 0xFFFAC90A), (1, 0xFFF9C906), (1, 0xFFF8C705), (1, 0xFFF7C703), (1, 0xFFF7C603), (3, 0xFFF7C703), (1, 0xFFF7C605),
   (1, 0xFFF7C504), (1, 0xFFF7C604), (1, 0xFFF8C604), (1, 0xFFF8C605), (1, 0xFFF7C505), (1, 0xFFF8C603), (1, 0xFFF7C502),
   (1, 0xFFF6C402), (1, 0xFFF6C403), (2, 0xFFF6C404), (1, 0xFFF7C504), (1, 0xFFF8C504), (1, 0xFFF8C302), (1, 0xFFF9C302),
   (1, 0xFFF7C402), (1, 0xFFF7C502), (1, 0xFFF6C503), (1, 0xFFF6C605), (1, 0xFFF5C504), (1, 0xFFF7C404), (1, 0xFFF9C503),
   (1, 0xFFF8C505), (1, 0xFFFAC505), (1, 0xFFFBC604), (1, 0xFFF9C503), (1, 0xFFF8C502), (1, 0xFFF9C603), (1, 0xFFF8C703),
   (1, 0xFFF9C904), (1, 0xFFF8C706), (1, 0xFFF8C607), (1, 0xFFF8C707), (1, 0xFFF9C705), (2, 0xFFF8C705), (1, 0xFFF7C705),
   (1, 0xFFF8C606), (1, 0xFFF7C606), (1, 0xFFF6C606), (1, 0xFFF8C604), (1, 0xFFF7C503), (1, 0xFFF6C402), (1, 0xFFF9C303),
   (1, 0xFFF8C302), (1, 0xFFF8C505), (1, 0xFFF7C506), (1, 0xFFF7C505), (1, 0xFFF6C305), (1, 0xFFF7C404), (1, 0xFFF8C405),
   (1, 0xFFF7C506), (1, 0xFFF6C605), (1, 0xFFF6C404), (1, 0xFFF7C404), (1, 0xFFF7C305), (1, 0xFFF7C405), (1, 0xFFF8C404),
   (1, 0xFFF8C502), (1, 0xFFF7C403), (1, 0xFFF8C504), (1, 0xFFF8C505), (1, 0xFFF7C505), (1, 0xFFF8C506), (1, 0xFFF7C406),
   (1, 0xFFF8C506), (1, 0xFFF7C606), (1, 0xFFF6C507), (1, 0xFFF5C506), (1, 0xFFF5C604), (1, 0xFFFACA09), (1, 0xFFC7A41E),
   (1, 0xFF000006), (8, 0xFF000000), (1, 0xFF29250A), (1, 0xFFD7B31D), (1, 0xFFFCCE09), (1, 0xFFF8C808), (1, 0xFFF6C709),
   (1, 0xFFF5C609), (1, 0xFFF6C609), (1, 0xFFF8C708), (1, 0xFFF9C706), (1, 0xFFF9C705), (1, 0xFFF8C505), (1, 0xFFF8C503),
   (2, 0xFFF7C503), (1, 0xFFF7C402), (1, 0xFFF6C402), (1, 0xFFF8C604), (1, 0xFFF7C504), (2, 0xFFF7C404), (1, 0xFFF7C503),
   (1, 0xFFF7C603), (2, 0xFFF7C502), (1, 0xFFF7C402), (1, 0xFFF7C400), (1, 0xFFF8C301), (1, 0xFFF7C403), (1, 0xFFF7C505),
   (1, 0xFFF8C504), (1, 0xFFF8C605), (1, 0xFFF7C505), (1, 0xFFF7C403), (1, 0xFFF6C502), (1, 0xFFF7C602), (1, 0xFFF7C705),
   (1, 0xFFF8C704), (1, 0xFFF8C705), (1, 0xFFF8C704), (1, 0xFFF8C806), (1, 0xFFF9C706), (1, 0xFFF8C708), (1, 0xFFF8C806),
   (1, 0xFFF8C807), (1, 0xFFF7C707), (1, 0xFFF8C806), (1, 0xFFF8C807), (2, 0xFFF8C806), (1, 0xFFF9C705), (1, 0xFFF9C605),
   (1, 0xFFF9C805), (1, 0xFFFAC704), (1, 0xFFFECC09), (1, 0xFFCCA91C), (1, 0xFF000306), (36, 0xFF000000)]]"

definition logo_rows_26 :: "run list list" where
  "logo_rows_26 =
  [[(110, 0xFF000000), (1, 0xFF131407), (1, 0xFF7B6718), (1, 0xFFBE9C1F), (1, 0xFFEBC120), (1, 0xFFFACA15), (1, 0xFFFCC90C),
   (1, 0xFFF9C908), (1, 0xFFF8C806), (1, 0xFFF8C708), (1, 0xFFF7C706), (1, 0xFFF7C705), (1, 0xFFF7C805), (1, 0xFFF7C706),
   (1, 0xFFF7C705), (2, 0xFFF8C705), (1, 0xFFF8C707), (1, 0xFFF9C605), (1, 0xFFF8C604), (1, 0xFFF9C605), (1, 0xFFF8C606),
   (1, 0xFFF8C605), (1, 0xFFF8C606), (1, 0xFFF7C504), (1, 0xFFF7C503), (1, 0xFFF6C504), (1, 0xFFF6C503), (1, 0xFFF5C502),
   (1, 0xFFF5C403), (1, 0xFFF6C402), (1, 0xFFF7C402), (1, 0xFFF7C504), (1, 0xFFF8C404), (1, 0xFFF6C604), (1, 0xFFF7C604),
   (1, 0xFFF8C505), (1, 0xFFF6C504), (1, 0xFFF8C404), (1, 0xFFF9C403), (1, 0xFFF8C605), (1, 0xFFFAC605), (1, 0xFFFAC506),
   (1, 0xFFFAC505), (1, 0xFFF8C503), (1, 0xFFF9C303), (1, 0xFFF9C504), (1, 0xFFF8C805), (1, 0xFFF9C706), (1, 0xFFF7C807),
   (1, 0xFFF8C806), (1, 0xFFF9C805), (1, 0xFFF8C605), (1, 0xFFF8C606), (2, 0xFFF8C605), (1, 0xFFF9C707), (1, 0xFFF7C607),
   (1, 0xFFF7C503), (1, 0xFFF8C402), (1, 0xFFF7C502), (1, 0xFFF8C503), (1, 0xFFF8C504), (1, 0xFFF7C505), (1, 0xFFF9C505),
   (1, 0xFFF6C404), (1, 0xFFF5C405), (1, 0xFFF8C605), (1, 0xFFF8C504), (1, 0xFFF7C704), (1, 0xFFF7C504), (1, 0xFFF7C404),
   (1, 0xFFF7C304), (1, 0xFFF6C304), (1, 0xFFF7C404), (1, 0xFFF7C405), (1, 0xFFF6C403), (1, 0xFFF6C402), (1, 0xFFF7C303),
   (1, 0xFFF7C305), (1, 0xFFF7C605), (1, 0xFFF8C605), (1, 0xFFF8C507), (1, 0xFFF8C606), (1, 0xFFF6C406), (2, 0xFFF6C506),
   (1, 0xFFF6C604), (1, 0xFFFACA09), (1, 0xFFB19218), (1, 0xFF000002), (8, 0xFF000000), (1, 0xFF2C2707), (1, 0xFFD9B316),
   (1, 0xFFFDCC06), (1, 0xFFF8C905), (1, 0xFFF8C806), (1, 0xFFF7C708), (1, 0xFFF8C708), (1, 0xFFF8C807), (1, 0xFFF9C906),
   (1, 0xFFF8C704), (3, 0xFFF8C604), (1, 0xFFF8C605), (1, 0xFFF7C604), (1, 0xFFF9C403), (1, 0xFFF8C504), (1, 0xFFF7C603),
   (2, 0xFFF6C502), (1, 0xFFF8C604), (1, 0xFFFAC503), (1, 0xFFF9C603), (1, 0xFFF8C604), (1, 0xFFF7C602), (1, 0xFFF8C502),
   (1, 0xFFF7C402), (1, 0xFFF8C304), (1, 0xFFF8C404), (1, 0xFFF8C604), (1, 0xFFF8C504), (1, 0xFFF8C606), (1, 0xFFF8C605),
   (1, 0xFFF6C603), (2, 0xFFF6C503), (1, 0xFFF8C605), (1, 0xFFF8C604), (1, 0xFFF9C604), (1, 0xFFF7C705), (1, 0xFFF7C605),
   (1, 0xFFF8C706), (1, 0xFFF7C705), (1, 0xFFF8C704), (1, 0xFFF8C606), (1, 0xFFF8C806), (1, 0xFFF8C905), (1, 0xFFF8C804),
   (1, 0xFFF8C705), (1, 0xFFF9C706), (1, 0xFFF8C706), (1, 0xFFF8C705), (1, 0xFFFAC705), (1, 0xFFFECC06), (1, 0xFFDAB31D),
   (1, 0xFF000C0A), (36, 0xFF000000)],
  [(108, 0xFF000000), (1, 0xFF302B0B), (1, 0xFF947C1B), (1, 0xFFD1AD1E), (1, 0xFFF1C519), (1, 0xFFFBCA0E), (1, 0xFFF9C808),
   (1, 0xFFF7C508), (1, 0xFFF7C707), (2, 0xFFF8C706), (1, 0xFFF7C608), (1, 0xFFF6C507), (1, 0xFFF7C507), (1, 0xFFF7C607),
   (2, 0xFFF7C507), (1, 0xFFF9C505), (2, 0xFFF8C605), (1, 0xFFF9C604), (1, 0xFFF8C505), (1, 0xFFF8C404), (1, 0xFFF6C504),
   (1, 0xFFF7C505), (1, 0xFFF7C605), (1, 0xFFF8C405), (1, 0xFFF7C404), (2, 0xFFF6C403), (1, 0xFFF5C402), (1, 0xFFF5C401),
   (1, 0xFFF6C502), (1, 0xFFF7C504), (1, 0xFFF5C503), (1, 0xFFF5C603), (1, 0xFFF6C503), (1, 0xFFF7C504), (1, 0xFFF8C504),
   (1, 0xFFFAC305), (1, 0xFFF9C405), (1, 0xFFF9C504), (1, 0xFFFAC505), (1, 0xFFFAC605), (1, 0xFFFAC505), (1, 0xFFF9C505),
   (1, 0xFFF7C505), (1, 0xFFF8C504), (1, 0xFFF8C604), (1, 0xFFF8C605), (2, 0xFFF9C606), (1, 0xFFFBC607), (1, 0xFFF9C706),
   (1, 0xFFF8C605), (1, 0xFFF8C505), (2, 0xFFF7C505), (1, 0xFFF8C505), (1, 0xFFF6C504), (1, 0xFFF5C403), (2, 0xFFF8C302),
   (1, 0xFFF7C403), (1, 0xFFF7C504), (1, 0xFFF7C404), (1, 0xFFF8C302), (1, 0xFFF7C404), (1, 0xFFF6C504), (1, 0xFFF7C403),
   (1, 0xFFF7C402), (1, 0xFFF6C403), (1, 0xFFF6C401), (1, 0xFFF5C302), (2, 0xFFF6C303), (1, 0xFFF7C303), (1, 0xFFF6C403),
   (1, 0xFFF6C304), (1, 0xFFF5C303), (1, 0xFFF6C303), (1, 0xFFF7C405), (1, 0xFFF7C505), (1, 0xFFF8C606), (2, 0xFFF8C607),
   (1, 0xFFF7C607), (1, 0xFFF7C806), (1, 0xFFF8C807), (1, 0xFFF9C806), (1, 0xFFFBCA0D), (1, 0xFFA88A16), (9, 0xFF000000),
   (1, 0xFF42380B), (1, 0xFFE0B718), (1, 0xFFFCCB05), (1, 0xFFF9C805), (1, 0xFFF8C605), (1, 0xFFF8C607), (1, 0xFFF8C706),
   (2, 0xFFF7C706), (1, 0xFFF8C605), (1, 0xFFF8C504), (1, 0xFFF7C505), (1, 0xFFF8C405), (1, 0xFFF7C505), (1, 0xFFF8C404),
   (1, 0xFFF9C404), (1, 0xFFF9C405), (1, 0xFFF7C504), (1, 0xFFF7C502), (1, 0xFFF6C503), (1, 0xFFF7C503), (1, 0xFFF8C502),
   (1, 0xFFF7C603), (1, 0xFFF7C505), (1, 0xFFF7C504), (1, 0xFFF7C505), (2, 0xFFF7C404), (1, 0xFFF8C403), (1, 0xFFF8C503),
   (1, 0xFFF9C402), (1, 0xFFF8C403), (1, 0xFFF7C606), (1, 0xFFF7C605), (1, 0xFFF8C503), (1, 0xFFF7C503), (1, 0xFFF7C603),
   (1, 0xFFF8C603), (1, 0xFFF9C604), (1, 0xFFF8C605), (1, 0xFFF7C705), (1, 0xFFF8C805), (1, 0xFFF7C705), (1, 0xFFF8C706),
   (1, 0xFFF8C807), (3, 0xFFF8C806), (1, 0xFFF8C706), (1, 0xFFF8C704), (1, 0xFFF8C706), (1, 0xFFF8C606), (1, 0xFFF9C705),
   (1, 0xFFFDCB06), (1, 0xFFD8B219), (1, 0xFF010D08), (36, 0xFF000000)]]"

definition logo_rows_28 :: "run list list" where
  "logo_rows_28 =
  [[(105, 0xFF000000), (1, 0xFF000001), (1, 0xFF54470F), (1, 0xFFAC8E1C), (1, 0xFFDDB41A), (1, 0xFFF7C813), (1, 0xFFFCCA08),
   (1, 0xFFF9C805), (1, 0xFFF7C705), (1, 0xFFF8C606), (1, 0xFFF7C507), (1, 0xFFF6C605), (1, 0xFFF8C606), (1, 0xFFF8C706),
   (1, 0xFFF8C507), (1, 0xFFF8C606), (1, 0xFFF7C606), (1, 0xFFF7C607), (1, 0xFFF8C507), (1, 0xFFF7C506), (1, 0xFFF7C505),
   (6, 0xFFF8C605), (1, 0xFFF8C606), (1, 0xFFF7C605), (1, 0xFFF8C504), (1, 0xFFF7C405), (2, 0xFFF7C403), (2, 0xFFF6C402),
   (1, 0xFFF6C503), (1, 0xFFF7C704), (1, 0xFFF7C504), (1, 0xFFF7C303), (1, 0xFFF8C305), (1, 0xFFF8C505), (1, 0xFFF9C505),
   (1, 0xFFFAC405), (1, 0xFFFAC506), (1, 0xFFF9C506), (2, 0xFFF9C404), (2, 0xFFF8C606), (1, 0xFFF9C505), (2, 0xFFF7C606),
   (1, 0xFFF7C705), (1, 0xFFF9C605), (1, 0xFFFAC405), (1, 0xFFFBC505), (2, 0xFFF9C606), (1, 0xFFF9C505), (1, 0xFFF8C605),
   (1, 0xFFF8C504), (1, 0xFFF7C504), (1, 0xFFF8C506), (1, 0xFFF8C503), (1, 0xFFF7C502), (1, 0xFFF9C301), (1, 0xFFF8C503),
   (1, 0xFFF8C505), (1, 0xFFF7C605), (1, 0xFFF8C504), (1, 0xFFF8C604), (1, 0xFFF7C604), (1, 0xFFF7C502), (1, 0xFFF7C403),
   (1, 0xFFF7C304), (1, 0xFFF6C402), (1, 0xFFF7C302), (1, 0xFFF8C304), (1, 0xFFF6C404), (1, 0xFFF5C405), (1, 0xFFF6C303),
   (1, 0xFFF7C304), (1, 0xFFF7C402), (1, 0xFFF8C402), (1, 0xFFF7C605), (1, 0xFFF7C705), (1, 0xFFF7C606), (1, 0xFFF7C706),
   (1, 0xFFF7C605), (1, 0xFFF8C606), (1, 0xFFF8C707), (1, 0xFFF8C807), (1, 0xFFFAC807), (1, 0xFFFCCC10), (1, 0xFFA88C18),
   (9, 0xFF000000), (1, 0xFF5A4C14), (1, 0xFFEAC01D), (1, 0xFFFBCA02), (1, 0xFFF7C604), (1, 0xFFF7C705), (1, 0xFFF9C707),
   (1, 0xFFF9C706), (2, 0xFFF8C706), (1, 0xFFF7C506), (1, 0xFFF8C505), (1, 0xFFF7C504), (1, 0xFFF7C403), (1, 0xFFF7C404),
   (1, 0xFFF7C504), (1, 0xFFF8C505), (1, 0xFFF9C605), (1, 0xFFF8C605), (1, 0xFFF7C504), (1, 0xFFF8C604), (1, 0xFFF7C502),
   (1, 0xFFF8C301), (1, 0xFFF7C402), (1, 0xFFF8C403), (1, 0xFFFAC405), (1, 0xFFF7C603), (1, 0xFFF8C604), (1, 0xFFF8C704),
   (1, 0xFFF8C603), (1, 0xFFF8C403), (1, 0xFFF9C302), (1, 0xFFF9C503), (1, 0xFFF8C605), (1, 0xFFF7C705), (1, 0xFFF8C704),
   (1, 0xFFF8C605), (1, 0xFFF8C704), (2, 0xFFF7C603), (1, 0xFFF8C603), (1, 0xFFF8C704), (1, 0xFFF8C706), (1, 0xFFF8C605),
   (1, 0xFFF8C606), (1, 0xFFF8C704), (1, 0xFFF8C604), (1, 0xFFF8C706), (1, 0xFFF8C807), (1, 0xFFF7C606), (1, 0xFFF8C705),
   (1, 0xFFF8C804), (1, 0xFFFAC705), (1, 0xFFF9C705), (1, 0xFFFDCB07), (1, 0xFFD9B218), (1, 0xFF020E08), (36, 0xFF000000)],
  [(103, 0xFF000000), (1, 0xFF000001), (1, 0xFF55480F), (1, 0xFFAF8F19), (1, 0xFFE6BC19), (1, 0xFFFBCA0E), (1, 0xFFFAC805),
   (1, 0xFFF7C504), (1, 0xFFF6C604), (1, 0xFFF8C704), (1, 0xFFF7C604), (2, 0xFFF8C603), (1, 0xFFF8C705), (1, 0xFFF8C606),
   (1, 0xFFF9C505), (1, 0xFFF7C504), (1, 0xFFF8C506), (2, 0xFFF7C506), (1, 0xFFF7C505), (1, 0xFFF7C504), (1, 0xFFF8C404),
   (1, 0xFFF6C604), (1, 0xFFF7C604), (1, 0xFFF8C504), (1, 0xFFF9C405), (1, 0xFFFAC505), (1, 0xFFF8C606), (1, 0xFFF8C506),
   (1, 0xFFF8C604), (2, 0xFFF8C505), (1, 0xFFF7C504), (1, 0xFFF8C503), (1, 0xFFF6C505), (1, 0xFFF7C504), (1, 0xFFF6C504),
   (1, 0xFFF6C604), (2, 0xFFF8C405), (1, 0xFFF7C405), (1, 0xFFF8C405), (1, 0xFFFAC404), (1, 0xFFF9C405), (2, 0xFFF8C506),
   (1, 0xFFF9C605), (1, 0xFFF7C606), (1, 0xFFF7C506), (1, 0xFFF8C506), (1, 0xFFF7C506), (1, 0xFFF8C607), (1, 0xFFF8C707),
   (1, 0xFFF8C705), (1, 0xFFF9C605), (1, 0xFFF7C505), (1, 0xFFF8C506), (1, 0xFFF8C706), (1, 0xFFFAC706), (1, 0xFFF9C607),
   (1, 0xFFF9C605), (1, 0xFFF8C503), (1, 0xFFF7C605), (1, 0xFFF8C505), (1, 0xFFF8C504), (1, 0xFFF8C402), (1, 0xFFF8C503),
   (1, 0xFFF9C603), (1, 0xFFF9C504), (1, 0xFFF8C505), (1, 0xFFF7C505), (1, 0xFFF7C605), (1, 0xFFF7C403), (2, 0xFFF7C402),
   (1, 0xFFF6C504), (1, 0xFFF7C402), (1, 0xFFF7C304), (1, 0xFFF7C206), (1, 0xFFF5C305), (1, 0xFFF7C305), (1, 0xFFF7C404),
   (1, 0xFFF7C405), (1, 0xFFF7C504), (1, 0xFFF7C505), (1, 0xFFF7C504), (1, 0xFFF6C605), (1, 0xFFF7C605), (1, 0xFFF7C505),
   (1, 0xFFF8C805), (1, 0xFFF9C807), (1, 0xFFF9C808), (1, 0xFFF8C708), (1, 0xFFF8C807), (1, 0xFFFBCC11), (1, 0xFFA88B19),
   (9, 0xFF000000), (1, 0xFF3D3309), (1, 0xFFDFB615), (1, 0xFFFDCB03), (1, 0xFFF8C505), (1, 0xFFF8C507), (1, 0xFFF8C606),
   (1, 0xFFF9C806), (2, 0xFFF8C806), (1, 0xFFF7C606), (1, 0xFFF8C605), (1, 0xFFF6C604), (1, 0xFFF7C504), (1, 0xFFF8C504),
   (1, 0xFFF8C506), (1, 0xFFF8C507), (1, 0xFFF7C506), (1, 0xFFF9C405), (1, 0xFFF8C404), (1, 0xFFF8C604), (1, 0xFFF8C603),
   (1, 0xFFFAC503), (1, 0xFFF9C503), (1, 0xFFF8C503), (1, 0xFFF8C403), (1, 0xFFF9C504), (1, 0xFFF8C604), (1, 0xFFF8C503),
   (1, 0xFFF8C602), (2, 0xFFF8C502), (1, 0xFFF9C403), (1, 0xFFF8C503), (1, 0xFFF7C604), (1, 0xFFF6C703), (1, 0xFFF7C703),
   (3, 0xFFF8C603), (1, 0xFFF8C703), (1, 0xFFF8C604), (1, 0xFFF7C604), (1, 0xFFF8C704), (2, 0xFFF8C705), (1, 0xFFF8C605),
   (1, 0xFFF9C605), (1, 0xFFF8C705), (1, 0xFFF8C605), (1, 0xFFF9C706), (1, 0xFFF9C705), (1, 0xFFFAC804), (1, 0xFFF9C705),
   (1, 0xFFFDCA08), (1, 0xFFD8B21A), (1, 0xFF010F08), (36, 0xFF000000)]]"

definition logo_rows :: "run list list" where
  "logo_rows = logo_rows_0 @ logo_rows_2 @ logo_rows_4 @ logo_rows_6 @ logo_rows_8
    @ logo_rows_10 @ logo_rows_12 @ logo_rows_14 @ logo_rows_16 @ logo_rows_18
    @ logo_rows_20 @ logo_rows_22 @ logo_rows_24 @ logo_rows_26 @ logo_rows_28"

section \<open>Pixels and bytes\<close>

definition expand :: "run list \<Rightarrow> u32 list" where
  "expand r = concat (map (\<lambda>(n, c). replicate n c) r)"

definition row_bytes :: "run list \<Rightarrow> u8 list" where
  "row_bytes r = concat (map (le_bytes 4) (expand r))"

definition row_ok :: "run list \<Rightarrow> bool" where
  "row_ok r \<longleftrightarrow> sum_list (map fst r) = 300 \<and> list_all (\<lambda>c. 0xFF000000 \<le> snd c) r"

lemma length_expand: "length (expand r) = sum_list (map fst r)"
  by (induction r) (auto simp: expand_def)

definition block_ok :: "run list list \<Rightarrow> bool" where
  "block_ok rs \<longleftrightarrow> length rs = 2 \<and> list_all row_ok rs"

lemma logo_blocks_0: "block_ok logo_rows_0" "block_ok logo_rows_2" "block_ok logo_rows_4"
  by (simp_all add: block_ok_def row_ok_def logo_rows_0_def logo_rows_2_def logo_rows_4_def)

lemma logo_blocks_6: "block_ok logo_rows_6" "block_ok logo_rows_8" "block_ok logo_rows_10"
  by (simp_all add: block_ok_def row_ok_def logo_rows_6_def logo_rows_8_def logo_rows_10_def)

lemma logo_blocks_12: "block_ok logo_rows_12" "block_ok logo_rows_14" "block_ok logo_rows_16"
  by (simp_all add: block_ok_def row_ok_def logo_rows_12_def logo_rows_14_def logo_rows_16_def)

lemma logo_blocks_18: "block_ok logo_rows_18" "block_ok logo_rows_20" "block_ok logo_rows_22"
  by (simp_all add: block_ok_def row_ok_def logo_rows_18_def logo_rows_20_def logo_rows_22_def)

lemma logo_blocks_24: "block_ok logo_rows_24" "block_ok logo_rows_26" "block_ok logo_rows_28"
  by (simp_all add: block_ok_def row_ok_def logo_rows_24_def logo_rows_26_def logo_rows_28_def)

lemmas logo_blocks = logo_blocks_0 logo_blocks_6 logo_blocks_12 logo_blocks_18 logo_blocks_24

lemma logo_rows_ok: "list_all row_ok logo_rows" and logo_rows_length: "length logo_rows = 30"
  using logo_blocks by (simp_all add: logo_rows_def block_ok_def)

lemma nth_concat_uniform:
  "(\<forall>xs \<in> set xss. length xs = k) \<Longrightarrow> y < length xss \<Longrightarrow> i < k \<Longrightarrow> concat xss ! (y * k + i) = xss ! y ! i"
proof (induction xss arbitrary: y)
  case (Cons xs xss)
  then show ?case by (cases y) (simp_all add: nth_append add.assoc)
qed simp

lemma length_concat_uniform: "(\<forall>xs \<in> set xss. length xs = k) \<Longrightarrow> length (concat xss) = length xss * k"
  by (induction xss) simp_all

lemma logo_row:
  assumes "y < 30"
  shows "length (expand (logo_rows ! y)) = 300" and "\<forall>c \<in> set (expand (logo_rows ! y)). 0xFF000000 \<le> c"
proof -
  have "row_ok (logo_rows ! y)" using logo_rows_ok logo_rows_length assms by (simp add: list_all_length)
  then show "length (expand (logo_rows ! y)) = 300" "\<forall>c \<in> set (expand (logo_rows ! y)). 0xFF000000 \<le> c"
    by (auto simp: row_ok_def length_expand) (auto simp: expand_def list_all_iff)
qed

lemma length_row_bytes: "length (row_bytes r) = 4 * length (expand r)"
  unfolding row_bytes_def by (subst length_concat_uniform [of _ 4]) simp_all

lemma row_bytes_nth:
  assumes "x < length (expand r)" and "j < 4"
  shows "row_bytes r ! (x * 4 + j) = le_bytes 4 (expand r ! x) ! j"
  using assms unfolding row_bytes_def by (subst nth_concat_uniform) simp_all

text \<open>The file: the header, the given rows and the bytes of the remaining ones.\<close>

definition logo_bytes :: "u8 list \<Rightarrow> u8 list" where
  "logo_bytes rest = logo_header @ concat (map row_bytes logo_rows) @ rest"

lemma logo_header_length: "length logo_header = 54"
  by (simp add: logo_header_def)

lemma logo_data:
  shows "\<forall>xs \<in> set (map row_bytes logo_rows). length xs = 1200"
    and "length (concat (map row_bytes logo_rows)) = 36000"
proof -
  show len: "\<forall>xs \<in> set (map row_bytes logo_rows). length xs = 1200"
    using logo_row(1) by (auto simp: length_row_bytes in_set_conv_nth logo_rows_length)
  show "length (concat (map row_bytes logo_rows)) = 36000"
    by (subst length_concat_uniform [OF len]) (simp add: logo_rows_length)
qed

lemma logo_pixel_byte:
  assumes "y < 30" and "x < 300" and "j < 4"
  shows "logo_bytes rest ! (54 + (y * 1200 + (x * 4 + j))) = le_bytes 4 (expand (logo_rows ! y) ! x) ! j"
proof -
  have "y * 1200 + (x * 4 + j) < length (concat (map row_bytes logo_rows))"
    using assms by (simp add: logo_data(2) del: length_concat)
  then have "logo_bytes rest ! (54 + (y * 1200 + (x * 4 + j))) = concat (map row_bytes logo_rows) ! (y * 1200 + (x * 4 + j))"
    by (simp add: logo_bytes_def nth_append logo_header_length)
  also have "\<dots> = row_bytes (logo_rows ! y) ! (x * 4 + j)"
    using assms logo_data(1) by (subst nth_concat_uniform) (simp_all add: logo_rows_length)
  finally show ?thesis using assms by (simp add: row_bytes_nth logo_row(1))
qed

lemma le_word_four:
  "(le_word [b0, b1, b2, b3] :: u32) = push_bit 24 (ucast b3) OR push_bit 16 (ucast b2) OR push_bit 8 (ucast b1) OR ucast b0"
  by (simp add: push_bit_or or.assoc or.commute or.left_commute)

lemma le_bytes_four: "le_bytes 4 c = [ucast c, ucast (drop_bit 8 c), ucast (drop_bit 16 c), ucast (drop_bit 24 c)]"
  by (simp add: le_bytes_def upt_rec)

lemma colour_of_bytes:
  fixes c :: u32
  assumes "0xFF000000 \<le> c" and "\<And>j. j < 3 \<Longrightarrow> m (p + of_nat j) = le_bytes 4 c ! j"
  shows "colour_at m p = c"
proof -
  have d: "drop_bit 24 c = 255"
  proof -
    have "unat c < 4294967296" by (rule unat_lt32)
    moreover have "0xFF000000 \<le> unat c" using assms(1) by (simp add: word_le_nat_alt)
    ultimately have "unat c div 2 ^ 24 = 255" by (simp del: unat_lt32)
    then have "unat (drop_bit 24 c) = unat (255 :: u32)" by (simp add: unat_drop_bit_eq drop_bit_eq_div unat_div)
    then show ?thesis by (simp only: unsigned_word_eqI)
  qed
  have "c = le_word (le_bytes 4 c)" by simp
  also have "\<dots> = colour_at m p"
    using assms(2) [of 0] assms(2) [of 1] assms(2) [of 2] unfolding le_bytes_four le_word_four d
    by (simp add: colour_at_def)
  finally show ?thesis by simp
qed

section \<open>The decoded logo\<close>

text \<open>\<open>logo_at s data rest\<close>: the array lies at \<open>data\<close>, below the heap.\<close>

definition logo_at :: "mm \<Rightarrow> u64 \<Rightarrow> u8 list \<Rightarrow> bool" where
  "logo_at s data rest \<longleftrightarrow> data \<noteq> 0 \<and> length rest = 324000 \<and> unat data + 360054 \<le> unat (heap_start s) \<and>
     (\<forall>i < 360054. mm_mem s (data + of_nat i) = logo_bytes rest ! i)"

lemma logo_head:
  assumes "logo_at s data rest"
  shows "read_bmp_header (mm_mem s) data =
    \<lparr>bfType = 0x4D42, bfOffBits = 54, biWidth = 300, biHeight = - 300, biBitCount = 32, biCompression = 0\<rparr>"
proof -
  have b: "mm_mem s (data + of_nat i) = logo_header ! i" if "i < 54" for i
    using assms that by (simp add: logo_at_def logo_bytes_def nth_append logo_header_length)
  have n: "mm_mem s (data + numeral k) = logo_header ! numeral k" if "numeral k < (54 :: nat)" for k
    using b [OF that] by simp
  have z: "mm_mem s data = logo_header ! 0" "mm_mem s (data + 1) = logo_header ! 1" using b [of 0] b [of 1] by simp_all
  show ?thesis by (simp add: read_bmp_header_def Let_def ld16_def ld32_def n z add.assoc) (simp add: logo_header_def)
qed

lemma logo_file:
  assumes "logo_at s data rest"
  shows "bmp_file s data 300 300 1200"
  using assms unfolding logo_at_def bmp_file_def logo_head [OF assms] by (simp add: row_padding_def)

lemma logo_decoded:
  assumes "heap_inv s bs" and "logo_at s data rest"
    and "bmp_parse data s = Some (img, s')" and "img \<noteq> 0"
  shows "ld32 (mm_mem s') img = 300 \<and> ld32 (mm_mem s') (img + 4) = 300 \<and>
    (\<forall>x < 300. \<forall>y < 30. ld32 (mm_mem s') (cell (ld64 (mm_mem s') (img + 8)) (y * 300 + x)) = expand (logo_rows ! y) ! x)"
proof -
  note d = bmp_decoded [OF assms(1) logo_file [OF assms(2)] assms(3,4), unfolded logo_head [OF assms(2)], simplified]
  have wh: "ld32 (mm_mem s') img = 300" "ld32 (mm_mem s') (img + 4) = 300" using d by (auto simp: word_unat_eq_iff)
  have "colour_at (mm_mem s) (data + 54 + of_nat (y * 1200 + x * 4)) = expand (logo_rows ! y) ! x" if "x < 300" "y < 30" for x y
  proof (rule colour_of_bytes)
    show "0xFF000000 \<le> expand (logo_rows ! y) ! x" using logo_row [OF that(2)] that(1) by simp
    show "mm_mem s (data + 54 + of_nat (y * 1200 + x * 4) + of_nat j) = le_bytes 4 (expand (logo_rows ! y) ! x) ! j" if "j < 3" for j
    proof -
      let ?k = "54 + (y * 1200 + (x * 4 + j))"
      have "data + 54 + of_nat (y * 1200 + x * 4) + of_nat j = data + of_nat ?k" by (simp add: add_ac)
      moreover have "mm_mem s (data + of_nat ?k) = logo_bytes rest ! ?k"
        using assms(2) \<open>x < 300\<close> \<open>y < 30\<close> that unfolding logo_at_def by (elim conjE allE [of _ ?k]) simp
      moreover have "logo_bytes rest ! ?k = le_bytes 4 (expand (logo_rows ! y) ! x) ! j"
        using logo_pixel_byte [of y x j rest] \<open>x < 300\<close> \<open>y < 30\<close> that by simp
      ultimately show ?thesis by (simp only:)
    qed
  qed
  then show ?thesis using wh d by (simp add: target_row_def add.assoc Let_def)
qed

text \<open>The logo at \<open>0x1000\<close>, its remaining rows black, below a heap of 400000 bytes at \<open>a\<close>.\<close>

abbreviation "black_rest \<equiv> replicate 324000 (0 :: u8)"
abbreviation "logo_heap a \<equiv> fresh_heap a 400000 (stn (\<lambda>_. 0) 0x1000 (logo_bytes black_rest))"

lemma logo_heap_at:
  assumes r: "room a 400000" and a: "0x60000 \<le> a"
  shows "logo_at (logo_heap a) 0x1000 black_rest"
proof -
  have len: "length (logo_bytes black_rest) = 360054"
    by (simp add: logo_bytes_def logo_header_length logo_data(2) del: length_concat)
  have "mm_mem (logo_heap a) (0x1000 + of_nat i) = logo_bytes black_rest ! i" if "i < 360054" for i
  proof -
    have u: "unat (of_nat i :: u64) = i" using that by (simp add: unat_nat64)
    then have "unat (0x1000 + of_nat i :: u64) = 0x1000 + i" using that by (subst unat_plus_small) simp_all
    then show ?thesis using that u len a by (simp add: fresh_low [OF r] stn_def)
  qed
  then show ?thesis using a by (simp add: logo_at_def fresh_start [OF r])
qed

lemma logo_heap_parses:
  assumes r: "room a 400000" and a: "0x60000 \<le> a"
  shows "\<exists>s'. bmp_parse 0x1000 (logo_heap a) = Some (of_nat (a + 24), s')"
proof -
  have "unat (round_size (pixel_bytes 300 300)) = 360000" by (simp add: pixel_bytes_def round_size_def)
  then show ?thesis
    using fresh_parse [OF r, where m = "stn (\<lambda>_. 0) 0x1000 (logo_bytes black_rest)" and data = "0x1000"]
    by (auto simp: logo_head [OF logo_heap_at [OF r a]])
qed

lemma logo_sample: "expand (logo_rows ! 0) ! 0 = 0xFF000000" "expand (logo_rows ! 1) ! 234 = 0xFF514514"
  by (simp_all add: logo_rows_def logo_rows_0_def expand_def nth_append)

end
