(* ===== verification/Draw.thy ===== *)
theory Draw
  imports Logo
begin

text \<open>
  Painting: what \<^verbatim>\<open>bmp_draw\<close> of \<^verbatim>\<open>kernel/GPU/bmp.c\<close> leaves on the screen, and the boot logo decoded from its
  array and painted.
\<close>

section \<open>Pixels of many colours\<close>

definition put_all :: "framebuffer_info \<Rightarrow> ((u32 \<times> u32) \<times> u32) list \<Rightarrow> mem \<Rightarrow> mem" where
  "put_all fb ps m = fold (\<lambda>((x, y), c). put_pixel fb x y c) ps m"

lemma get_put_all:
  assumes "fb_ok fb" and "distinct (map fst ps)"
  shows "get_pixel fb x' y' (put_all fb ps m) =
    (case map_of ps (x', y') of Some c \<Rightarrow> if on_screen fb x' y' then c else 0 | None \<Rightarrow> get_pixel fb x' y' m)"
  using assms(2)
proof (induction ps arbitrary: m)
  case (Cons p ps)
  obtain x y c where p: "p = ((x, y), c)" by (metis prod.exhaust)
  have "put_all fb (p # ps) m = put_all fb ps (put_pixel fb x y c m)" by (simp add: put_all_def p)
  moreover have "map_of ps (x, y) = None" using Cons.prems by (simp add: p map_of_eq_None_iff)
  ultimately show ?case using Cons by (auto simp: p get_put_pixel [OF assms(1)] get_pixel_off split: option.split)
qed (simp add: put_all_def)

text \<open>The bytes of the framebuffer; everything else is left alone.\<close>

definition screen_mem :: "framebuffer_info \<Rightarrow> u64 \<Rightarrow> bool" where
  "screen_mem fb a \<longleftrightarrow> unat (P2V (fb_addr fb)) \<le> unat a \<and>
     unat a < unat (P2V (fb_addr fb)) + unat (fb_pitch fb) * unat (fb_height fb)"

definition same_off :: "framebuffer_info \<Rightarrow> mem \<Rightarrow> mem \<Rightarrow> bool" where
  "same_off fb m n \<longleftrightarrow> (\<forall>a. \<not> screen_mem fb a \<longrightarrow> n a = m a)"

lemma put_pixel_same_off:
  assumes ok: "fb_ok fb" and "same_off fb m n"
  shows "same_off fb m (put_pixel fb x y c n)"
proof (cases "on_screen fb x y")
  case True
  note a = pixel_addr_unat [OF ok True]
  have "unat (pixel_addr fb x y) + 4 \<le> 2 ^ 64" using a(2) ok by (simp add: fb_ok_def)
  then have "same_outside (unat (pixel_addr fb x y)) (unat (pixel_addr fb x y) + 4) n (st32 n (pixel_addr fb x y) c)"
    by (rule st32_same_outside)
  moreover have "put_pixel fb x y c n = st32 n (pixel_addr fb x y) c" using True ok by (simp add: put_pixel_def on_screen_def fb_ok_def)
  ultimately show ?thesis using assms(2) a unfolding same_off_def same_outside_def screen_mem_def by auto
next
  case False
  then have "put_pixel fb x y c n = n" by (auto simp: put_pixel_def on_screen_def)
  then show ?thesis using assms(2) by simp
qed

lemma put_all_same_off: "fb_ok fb \<Longrightarrow> same_off fb m n \<Longrightarrow> same_off fb m (put_all fb ps n)"
  by (induction ps arbitrary: n) (auto simp: put_all_def intro: put_pixel_same_off)

text \<open>Memory away from the screen.\<close>

definition off_screen :: "framebuffer_info \<Rightarrow> u64 \<Rightarrow> nat \<Rightarrow> bool" where
  "off_screen fb p n \<longleftrightarrow> unat p + n < 2 ^ 64 \<and> (\<forall>a. unat p \<le> unat a \<and> unat a < unat p + n \<longrightarrow> \<not> screen_mem fb a)"

lemma off_screen_ldn:
  assumes "same_off fb m n" and "off_screen fb p N" and "k + l \<le> N"
  shows "ldn n (p + of_nat k) l = ldn m (p + of_nat k) l"
proof (rule ldn_cong)
  fix i assume i: "i < l"
  have lt: "unat p + N < 2 ^ 64" using assms(2) by (simp add: off_screen_def)
  have "k + i < 2 ^ 64" using i assms(3) lt by linarith
  then have "unat (of_nat (k + i) :: u64) = k + i" by (rule unat_nat64)
  moreover have "p + of_nat k + of_nat i = p + of_nat (k + i)" by (simp add: add.assoc)
  ultimately have "unat (p + of_nat k + of_nat i) = unat p + (k + i)" using lt i assms(3) by (simp only:) (subst unat_plus_small, simp_all)
  then have "\<not> screen_mem fb (p + of_nat k + of_nat i)" using assms(2,3) i by (simp add: off_screen_def)
  then show "n (p + of_nat k + of_nat i) = m (p + of_nat k + of_nat i)" using assms(1) by (simp add: same_off_def)
qed

section \<open>The painted image\<close>

text \<open>A decoded image of \<open>w\<close> by \<open>h\<close> pixels.\<close>

definition image_at :: "framebuffer_info \<Rightarrow> mem \<Rightarrow> u64 \<Rightarrow> nat \<Rightarrow> nat \<Rightarrow> (nat \<Rightarrow> nat \<Rightarrow> u32) \<Rightarrow> bool" where
  "image_at fb m img w h pix \<longleftrightarrow> 0 < w \<and> 0 < h \<and> w * h < 2 ^ 30 \<and> img \<noteq> 0 \<and> ld64 m (img + 8) \<noteq> 0 \<and>
     ld32 m img = of_nat w \<and> ld32 m (img + 4) = of_nat h \<and>
     off_screen fb img 16 \<and> off_screen fb (ld64 m (img + 8)) (4 * (w * h)) \<and>
     (\<forall>x < w. \<forall>y < h. ld32 m (cell (ld64 m (img + 8)) (y * w + x)) = pix x y)"

lemma grid_number:
  fixes w h x y :: nat
  assumes "w * h < 2 ^ 30" and "x < w" and "y < h"
  shows "y * w + x < w * h" and "unat (of_nat y * of_nat w + of_nat x :: u32) = y * w + x"
proof -
  have "Suc y * w \<le> h * w" using assms(3) by (intro mult_le_mono1) simp
  then show lt: "y * w + x < w * h" using assms(2) by (simp add: mult.commute)
  have "(of_nat y * of_nat w + of_nat x :: u32) = of_nat (y * w + x)" by simp
  moreover have "y * w + x < 2 ^ 32" using lt assms(1) by simp
  ultimately show "unat (of_nat y * of_nat w + of_nat x :: u32) = y * w + x"
    by (simp only: unat_of_nat take_bit_nat_eq_self len_num0 len_num1 len_bit0 len_bit1) (simp add: take_bit_nat_eq_self)
qed

lemma of_nat_less32: "x < w \<Longrightarrow> w < 2 ^ 32 \<Longrightarrow> (of_nat x :: u32) < of_nat w"
  by (simp add: word_less_nat_alt unat_of_nat take_bit_nat_eq_self)

lemma image_size:
  assumes "image_at fb m img w h pix"
  shows "w < 2 ^ 32" and "h < 2 ^ 32"
proof -
  have i: "0 < w" "0 < h" "w * h < 2 ^ 30" using assms by (simp_all add: image_at_def)
  have "w \<le> w * h" "h \<le> w * h" using i(1,2) by simp_all
  then have "w < 2 ^ 30" "h < 2 ^ 30" using i(3) by (blast intro: le_less_trans)+
  then show "w < 2 ^ 32" "h < 2 ^ 32" by simp_all
qed

lemma image_reads:
  assumes im: "image_at fb m img w h pix" and "same_off fb m n"
  shows "ld32 n img = of_nat w" and "ld32 n (img + 4) = of_nat h" and "ld64 n (img + 8) = ld64 m (img + 8)"
    and "x < w \<Longrightarrow> y < h \<Longrightarrow> ld32 n (ld64 n (img + 8) + 4 * ucast (of_nat y * of_nat w + of_nat x :: u32)) = pix x y"
proof -
  have off: "off_screen fb img 16" "off_screen fb (ld64 m (img + 8)) (4 * (w * h))" using im by (simp_all add: image_at_def)
  note r = off_screen_ldn [OF assms(2) off(1)]
  show "ld32 n img = of_nat w" using r [of 0 4] im by (simp add: image_at_def ld32_def)
  show "ld32 n (img + 4) = of_nat h" using r [of 4 4] im by (simp add: image_at_def ld32_def)
  show p: "ld64 n (img + 8) = ld64 m (img + 8)" using r [of 8 8] by (simp add: ld64_def)
  assume xy: "x < w" "y < h"
  have sz: "w * h < 2 ^ 30" using im by (simp add: image_at_def)
  note g = grid_number [OF sz xy]
  have "unat (ucast (of_nat y * of_nat w + of_nat x :: u32) :: u64) = y * w + x" using g(2) by (simp only: unat_ucast_32_64)
  moreover have "unat (of_nat (y * w + x) :: u64) = y * w + x" using g(1) sz by (intro unat_nat64) simp
  ultimately have "(ucast (of_nat y * of_nat w + of_nat x :: u32) :: u64) = of_nat (y * w + x)" by (simp only: unat_eq_iff [symmetric])
  then have c: "ld64 n (img + 8) + 4 * ucast (of_nat y * of_nat w + of_nat x :: u32) = ld64 m (img + 8) + of_nat (4 * (y * w + x))"
    unfolding p by simp
  have "4 * (y * w + x) + 4 \<le> 4 * (w * h)" using g(1) by simp
  from off_screen_ldn [OF assms(2) off(2) this] show "ld32 n (ld64 n (img + 8) + 4 * ucast (of_nat y * of_nat w + of_nat x :: u32)) = pix x y"
    using im xy unfolding c by (simp add: image_at_def ld32_def cell_def)
qed

text \<open>The pixels of one row from column \<open>x\<close> on that are not transparent.\<close>

definition row_pixels :: "u32 \<Rightarrow> u32 \<Rightarrow> (nat \<Rightarrow> nat \<Rightarrow> u32) \<Rightarrow> nat \<Rightarrow> nat list \<Rightarrow> ((u32 \<times> u32) \<times> u32) list" where
  "row_pixels sx sy pix y xs = map (\<lambda>x. ((sx + of_nat x, sy + of_nat y), pix x y AND 0xFFFFFF)) (filter (\<lambda>x. drop_bit 24 (pix x y) \<noteq> 0) xs)"

lemma draw_cols_put:
  assumes ok: "fb_ok fb" and im: "image_at fb m img w h pix" and "y < h"
  shows "same_off fb m n \<Longrightarrow> x \<le> w \<Longrightarrow> draw_cols fb img sx sy (of_nat y) (of_nat x) n = put_all fb (row_pixels sx sy pix y [x..<w]) n"
proof (induction "w - x" arbitrary: x n)
  case 0
  then show ?case using image_reads(1) [OF im 0(2)]
    by (subst draw_cols.simps) (simp add: row_pixels_def put_all_def)
next
  case (Suc d)
  have x: "x < w" using Suc.hyps(2) by simp
  have lt: "(of_nat x :: u32) < of_nat w" by (rule of_nat_less32 [OF x image_size(1) [OF im]])
  define n' where "n' = (if drop_bit 24 (pix x y) = 0 then n else put_pixel fb (sx + of_nat x) (sy + of_nat y) (pix x y AND 0xFFFFFF) n)"
  have "draw_cols fb img sx sy (of_nat y) (of_nat x) n = draw_cols fb img sx sy (of_nat y) (of_nat (Suc x)) n'"
    using image_reads [OF im Suc.prems(1)] x assms(3) lt
    by (subst draw_cols.simps) (simp add: n'_def Let_def add.commute)
  also have "\<dots> = put_all fb (row_pixels sx sy pix y [Suc x..<w]) n'"
    using Suc.hyps(2) x Suc.prems(1) by (intro Suc.hyps(1)) (auto simp: n'_def intro: put_pixel_same_off [OF ok])
  also have "\<dots> = put_all fb (row_pixels sx sy pix y [x..<w]) n"
    using x by (simp add: row_pixels_def put_all_def n'_def upt_conv_Cons)
  finally show ?case .
qed

definition image_pixels :: "u32 \<Rightarrow> u32 \<Rightarrow> (nat \<Rightarrow> nat \<Rightarrow> u32) \<Rightarrow> nat \<Rightarrow> nat list \<Rightarrow> ((u32 \<times> u32) \<times> u32) list" where
  "image_pixels sx sy pix w ys = concat (map (\<lambda>y. row_pixels sx sy pix y [0..<w]) ys)"

lemma put_all_append: "put_all fb (ps @ qs) n = put_all fb qs (put_all fb ps n)"
  by (simp add: put_all_def)

lemma draw_rows_put:
  assumes ok: "fb_ok fb" and im: "image_at fb m img w h pix"
  shows "same_off fb m n \<Longrightarrow> y \<le> h \<Longrightarrow> draw_rows fb img sx sy (of_nat y) n = put_all fb (image_pixels sx sy pix w [y..<h]) n"
proof (induction "h - y" arbitrary: y n)
  case 0
  then show ?case using image_reads(2) [OF im 0(2)]
    by (subst draw_rows.simps) (simp add: image_pixels_def put_all_def)
next
  case (Suc d)
  have y: "y < h" using Suc.hyps(2) by simp
  have lt: "(of_nat y :: u32) < of_nat h" by (rule of_nat_less32 [OF y image_size(2) [OF im]])
  define n' where "n' = put_all fb (row_pixels sx sy pix y [0..<w]) n"
  have "draw_cols fb img sx sy (of_nat y) 0 n = n'"
    using draw_cols_put [OF ok im y Suc.prems(1), of 0 sx sy] by (simp add: n'_def)
  then have "draw_rows fb img sx sy (of_nat y) n = draw_rows fb img sx sy (of_nat (Suc y)) n'"
    using image_reads(2) [OF im Suc.prems(1)] lt by (subst draw_rows.simps) (simp add: add.commute)
  also have "\<dots> = put_all fb (image_pixels sx sy pix w [Suc y..<h]) n'"
    using Suc.hyps(2) y by (intro Suc.hyps(1)) (auto simp: n'_def intro: put_all_same_off [OF ok Suc.prems(1)])
  also have "\<dots> = put_all fb (image_pixels sx sy pix w [y..<h]) n"
    using y by (simp add: image_pixels_def put_all_append n'_def upt_conv_Cons)
  finally show ?case .
qed

lemma bmp_draw_put:
  assumes "fb_ok fb" and "image_at fb m img w h pix"
  shows "bmp_draw fb img sx sy m = put_all fb (image_pixels sx sy pix w [0..<h]) m"
  using draw_rows_put [OF assms, of m 0 sx sy] assms(2) by (simp add: bmp_draw_def image_at_def same_off_def)

lemma in_image_pixels:
  "((u, v), c) \<in> set (image_pixels sx sy pix w ys) \<longleftrightarrow>
    (\<exists>x < w. \<exists>y \<in> set ys. u = sx + of_nat x \<and> v = sy + of_nat y \<and> drop_bit 24 (pix x y) \<noteq> 0 \<and> c = pix x y AND 0xFFFFFF)"
  by (auto simp: image_pixels_def row_pixels_def)

lemma offset_inj:
  assumes "n \<le> 2 ^ 32" and "i < n" and "j < n" and "s + of_nat i = s + (of_nat j :: u32)"
  shows "i = j"
proof -
  have "unat (of_nat i :: u32) = i" "unat (of_nat j :: u32) = j" using assms(1-3) by (simp_all add: unat_of_nat take_bit_nat_eq_self)
  then show ?thesis using assms(4) by (metis add_left_cancel)
qed

lemma distinct_image_pixels:
  assumes "w \<le> 2 ^ 32" and "h \<le> 2 ^ 32"
  shows "distinct (map fst (image_pixels sx sy pix w [0..<h]))"
proof -
  have row: "distinct (map fst (row_pixels sx sy pix y [0..<w]))" for y
    using offset_inj [OF assms(1), where s = sx] by (auto simp: row_pixels_def comp_def distinct_map intro!: inj_onI distinct_filter)
  have "k \<le> h \<Longrightarrow> distinct (map fst (image_pixels sx sy pix w [0..<k]))" for k
  proof (induction k)
    case (Suc k)
    have "image_pixels sx sy pix w [0..<Suc k] = image_pixels sx sy pix w [0..<k] @ row_pixels sx sy pix k [0..<w]"
      by (simp add: image_pixels_def)
    moreover have "fst ` set (image_pixels sx sy pix w [0..<k]) \<inter> fst ` set (row_pixels sx sy pix k [0..<w]) = {}"
    proof -
      have "(of_nat y :: u32) \<noteq> of_nat k \<and> of_nat k \<noteq> (of_nat y :: u32)" if "y < k" for y
        using offset_inj [OF assms(2), of y k 0] that Suc.prems by auto
      then have "\<forall>y < k. (of_nat y :: u32) \<noteq> of_nat k" by blast
      then show ?thesis by (auto simp: image_pixels_def row_pixels_def)
    qed
    ultimately show ?case using Suc row by simp
  qed (simp add: image_pixels_def)
  then show ?thesis by simp
qed

lemma bmp_drawn:
  assumes ok: "fb_ok fb" and im: "image_at fb m img w h pix"
  shows "(\<forall>x < w. \<forall>y < h. on_screen fb (sx + of_nat x) (sy + of_nat y) \<longrightarrow>
      get_pixel fb (sx + of_nat x) (sy + of_nat y) (bmp_draw fb img sx sy m) =
        (if drop_bit 24 (pix x y) = 0 then get_pixel fb (sx + of_nat x) (sy + of_nat y) m else pix x y AND 0xFFFFFF)) \<and>
    (\<forall>u v. (\<forall>x < w. \<forall>y < h. (u, v) \<noteq> (sx + of_nat x, sy + of_nat y)) \<longrightarrow>
      get_pixel fb u v (bmp_draw fb img sx sy m) = get_pixel fb u v m) \<and>
    (\<forall>a. \<not> screen_mem fb a \<longrightarrow> bmp_draw fb img sx sy m a = m a)"
proof -
  let ?ps = "image_pixels sx sy pix w [0..<h]"
  have s: "w \<le> 2 ^ 32" "h \<le> 2 ^ 32" using image_size [OF im] by simp_all
  note d = distinct_image_pixels [OF s, of sx sy pix]
  note get = get_put_all [OF ok d]
  have "get_pixel fb (sx + of_nat x) (sy + of_nat y) (put_all fb ?ps m) =
      (if drop_bit 24 (pix x y) = 0 then get_pixel fb (sx + of_nat x) (sy + of_nat y) m else pix x y AND 0xFFFFFF)"
    if xy: "x < w" "y < h" and on: "on_screen fb (sx + of_nat x) (sy + of_nat y)" for x y
  proof -
    have only: "x' = x \<and> y' = y" if "x' < w" "y' < h" "sx + of_nat x = sx + of_nat x'" "sy + of_nat y = sy + of_nat y'" for x' y'
      using offset_inj [OF s(1) xy(1) that(1,3)] offset_inj [OF s(2) xy(2) that(2,4)] by simp
    show ?thesis
    proof (cases "drop_bit 24 (pix x y) = 0")
      case True
      have "map_of ?ps (sx + of_nat x, sy + of_nat y) = None"
        using only True by (force simp: map_of_eq_None_iff in_image_pixels image_iff)
      then show ?thesis using True by (simp add: get)
    next
      case False
      have "((sx + of_nat x, sy + of_nat y), pix x y AND 0xFFFFFF) \<in> set ?ps" using xy False by (auto simp: in_image_pixels intro!: exI [of _ x] bexI [of _ y])
      then have "map_of ?ps (sx + of_nat x, sy + of_nat y) = Some (pix x y AND 0xFFFFFF)" using d by simp
      then show ?thesis using False on by (simp add: get)
    qed
  qed
  moreover have "get_pixel fb u v (put_all fb ?ps m) = get_pixel fb u v m"
    if "\<forall>x < w. \<forall>y < h. (u, v) \<noteq> (sx + of_nat x, sy + of_nat y)" for u v
  proof -
    have "map_of ?ps (u, v) = None" using that by (force simp: map_of_eq_None_iff in_image_pixels image_iff)
    then show ?thesis by (simp add: get)
  qed
  moreover have "same_off fb m (put_all fb ?ps m)" by (rule put_all_same_off [OF ok]) (simp add: same_off_def)
  ultimately show ?thesis unfolding bmp_draw_put [OF assms] same_off_def by blast
qed

text \<open>C25: Painting an image. Every opaque pixel that falls on the screen gets its colour, the transparent ones and everything beside the
  image keep what was there, and no byte outside the framebuffer changes.\<close>

theorem bmp_draw_paints:
  assumes ok: "fb_ok fb" and im: "image_at fb m img w h pix"
  shows "(\<forall>x < w. \<forall>y < h. on_screen fb (sx + of_nat x) (sy + of_nat y) \<longrightarrow>
      get_pixel fb (sx + of_nat x) (sy + of_nat y) (bmp_draw fb img sx sy m) =
        (if drop_bit 24 (pix x y) = 0 then get_pixel fb (sx + of_nat x) (sy + of_nat y) m else pix x y AND 0xFFFFFF)) \<and>
    (\<forall>u v. (\<forall>x < w. \<forall>y < h. (u, v) \<noteq> (sx + of_nat x, sy + of_nat y)) \<longrightarrow>
      get_pixel fb u v (bmp_draw fb img sx sy m) = get_pixel fb u v m) \<and>
    (\<forall>a. \<not> screen_mem fb a \<longrightarrow> bmp_draw fb img sx sy m a = m a)"
  using assms by (rule bmp_drawn)

section \<open>The logo on the screen\<close>

lemma above_off_screen:
  assumes "unat (P2V (fb_addr fb)) + unat (fb_pitch fb) * unat (fb_height fb) \<le> lo" and "lo \<le> unat p" and "unat p + n < 2 ^ 64" and "k \<le> n"
  shows "off_screen fb p k"
  using assms by (auto simp: off_screen_def screen_mem_def)

lemma decoded_off_screen:
  assumes inv: "heap_inv s bs" and bf: "bmp_file s data w h stride" and run: "bmp_parse data s = Some (img, s')" "img \<noteq> 0"
    and low: "unat (P2V (fb_addr fb)) + unat (fb_pitch fb) * unat (fb_height fb) \<le> unat (heap_start s)"
  shows "off_screen fb img 16" and "ld64 (mm_mem s') (img + 8) \<noteq> 0" and "off_screen fb (ld64 (mm_mem s') (img + 8)) (4 * (w * h))"
proof -
  obtain s1 pixels s2 where k: "kmalloc 16 s = Some (img, s1)"
    "kmalloc (pixel_bytes (biWidth (read_bmp_header (mm_mem s) data))
       (if 0 < sint (biHeight (read_bmp_header (mm_mem s) data)) then biHeight (read_bmp_header (mm_mem s) data)
        else - biHeight (read_bmp_header (mm_mem s) data)))
      (s1\<lparr>mm_mem := st32 (st32 (mm_mem s1) img (biWidth (read_bmp_header (mm_mem s) data))) (img + 4)
        (if 0 < sint (biHeight (read_bmp_header (mm_mem s) data)) then biHeight (read_bmp_header (mm_mem s) data)
         else - biHeight (read_bmp_header (mm_mem s) data))\<rparr>) = Some (pixels, s2)" "pixels \<noteq> 0"
    using run by (rule bmp_parse_cases)
  have ld: "ld64 (mm_mem s') (img + 8) = pixels"
    using bmp_parse_result [OF inv bf k(1) run(2) k(2,3)] run(1) by auto
  obtain n1 n2 bs2 where b: "heap_inv s2 bs2" "allocated s2 img n1" "16 \<le> n1" "allocated s2 pixels n2"
    "unat (round_size (pixel_bytes (biWidth (read_bmp_header (mm_mem s) data))
       (if 0 < sint (biHeight (read_bmp_header (mm_mem s) data)) then biHeight (read_bmp_header (mm_mem s) data)
        else - biHeight (read_bmp_header (mm_mem s) data)))) \<le> n2"
    "unat (heap_start s) \<le> unat img" "unat (heap_start s) \<le> unat pixels"
    using image_blocks [OF inv k(1) run(2) k(2,3)] by blast
  show "off_screen fb img 16" by (rule above_off_screen [OF low b(6) allocated_bounds(2) [OF b(1,2)] b(3)])
  show "ld64 (mm_mem s') (img + 8) \<noteq> 0" using ld k(3) by simp
  show "off_screen fb (ld64 (mm_mem s') (img + 8)) (4 * (w * h))" unfolding ld
    by (rule above_off_screen [OF low b(7) allocated_bounds(2) [OF b(1,4)] order_trans [OF bmp_file_facts(13) [OF bf] b(5)]])
qed

text \<open>Any decoded bitmap is an image that can be painted on a framebuffer lying below the heap.\<close>

lemma decoded_image_at:
  assumes inv: "heap_inv s bs" and bf: "bmp_file s data w h stride" and run: "bmp_parse data s = Some (img, s')" "img \<noteq> 0"
    and low: "unat (P2V (fb_addr fb)) + unat (fb_pitch fb) * unat (fb_height fb) \<le> unat (heap_start s)"
  shows "image_at fb (mm_mem s') img w h (\<lambda>x y. ld32 (mm_mem s') (cell (ld64 (mm_mem s') (img + 8)) (y * w + x)))"
proof -
  note d = bmp_decoded [OF inv bf run]
  have u: "unat (ld32 (mm_mem s') img) = w" "unat (ld32 (mm_mem s') (img + 4)) = h" using d by blast+
  have "ld32 (mm_mem s') img = of_nat w" "ld32 (mm_mem s') (img + 4) = of_nat h"
    by (simp_all flip: u)
  then show ?thesis using decoded_off_screen [OF assms] bmp_file_facts(6,7,8) [OF bf] run(2) by (simp add: image_at_def)
qed

lemma logo_opaque:
  assumes "y < 30" and "x < 300"
  shows "drop_bit 24 (expand (logo_rows ! y) ! x) \<noteq> 0"
proof -
  have "0xFF000000 \<le> expand (logo_rows ! y) ! x" using logo_row [OF assms(1)] assms(2) by simp
  then have "0xFF000000 div 2 ^ 24 \<le> unat (expand (logo_rows ! y) ! x) div 2 ^ 24" by (intro div_le_mono) (simp add: word_le_nat_alt)
  moreover have "unat (drop_bit 24 (expand (logo_rows ! y) ! x)) = unat (expand (logo_rows ! y) ! x) div 2 ^ 24"
    by (simp only: unat_drop_bit_eq) (simp only: drop_bit_eq_div)
  ultimately have "unat (drop_bit 24 (expand (logo_rows ! y) ! x)) \<noteq> 0" by (simp only:) simp
  then show ?thesis by (metis unsigned_0)
qed

text \<open>C26: The boot logo on the screen. Decoded and painted at \<open>(sx, sy)\<close> by a kernel whose framebuffer lies below the heap, the
  first thirty rows appear as the array of the source has them: every pixel of theirs that falls on the screen shows
  the colour of its word.\<close>

theorem logo_drawn:
  assumes "heap_inv s bs" and "logo_at s data rest" and "bmp_parse data s = Some (img, s')" and "img \<noteq> 0"
    and "fb_ok fb" and "unat (P2V (fb_addr fb)) + unat (fb_pitch fb) * unat (fb_height fb) \<le> unat (heap_start s)"
    and "x < 300" and "y < 30" and "on_screen fb (sx + of_nat x) (sy + of_nat y)"
  shows "get_pixel fb (sx + of_nat x) (sy + of_nat y) (bmp_draw fb img sx sy (mm_mem s')) = expand (logo_rows ! y) ! x AND 0xFFFFFF"
proof -
  note im = decoded_image_at [OF assms(1) logo_file [OF assms(2)] assms(3,4,6)]
  have "ld32 (mm_mem s') (cell (ld64 (mm_mem s') (img + 8)) (y * 300 + x)) = expand (logo_rows ! y) ! x"
    using logo_decoded [OF assms(1-4)] assms(7,8) by blast
  then show ?thesis using bmp_drawn [OF assms(5) im, THEN conjunct1, rule_format, of x y sx sy] assms(7-9) logo_opaque [OF assms(8,7)] by simp
qed

text \<open>A one pixel image at \<open>0x1000\<close>, its pixel at \<open>0x2000\<close>, and the logo decoded above the framebuffer.\<close>

definition dot_mem :: mem where
  "dot_mem = stn (stn (\<lambda>_. 0) 0x1000 [1, 0, 0, 0, 1, 0, 0, 0, 0, 0x20, 0, 0, 0, 0, 0, 0]) 0x2000 [0x33, 0x22, 0x11, 0xFF]"

theorem bmp_draw_paints_witness:
  "get_pixel example_fb 10 20 (bmp_draw example_fb 0x1000 10 20 dot_mem) = 0x112233 \<and> bmp_draw example_fb 0x1000 10 20 dot_mem 0x2000 = 0x33"
proof -
  have "image_at example_fb dot_mem 0x1000 1 1 (\<lambda>x y. 0xFF112233)"
    by (simp add: image_at_def ld32_def ld64_def cell_def off_screen_def screen_mem_def example_fb_def P2V_def KERNEL_VIRTUAL_BASE_def dot_mem_def stn_def)
  from bmp_draw_paints [OF example_fb_ok this, of 10 20]
  show ?thesis by (simp add: on_screen_def screen_mem_def example_fb_def P2V_def KERNEL_VIRTUAL_BASE_def dot_mem_def stn_def)
qed

theorem logo_drawn_witness:
  "\<exists>s'. bmp_parse 0x1000 (logo_heap 0x80000000) = Some (0x80000018, s') \<and>
     get_pixel example_fb 596 235 (bmp_draw example_fb 0x80000018 362 234 (mm_mem s')) = 0x514514"
proof -
  have r: "room 0x80000000 400000" by (simp add: room_def)
  obtain s' where s': "bmp_parse 0x1000 (logo_heap 0x80000000) = Some (0x80000018, s')"
    using logo_heap_parses [OF r] by auto
  have low: "unat (P2V (fb_addr example_fb)) + unat (fb_pitch example_fb) * unat (fb_height example_fb) \<le> unat (heap_start (logo_heap 0x80000000))"
    by (simp add: fresh_start [OF r] example_fb_def P2V_def KERNEL_VIRTUAL_BASE_def)
  have at: "logo_at (logo_heap 0x80000000) 0x1000 black_rest" using logo_heap_at [OF r] by simp
  have "get_pixel example_fb (362 + of_nat 234) (234 + of_nat 1) (bmp_draw example_fb 0x80000018 362 234 (mm_mem s')) =
      expand (logo_rows ! 1) ! 234 AND 0xFFFFFF"
    by (rule logo_drawn [OF fresh_inv [OF r] at s' _ example_fb_ok low]) (simp_all add: on_screen_def example_fb_def)
  then show ?thesis using s' logo_sample by simp
qed

end
