(* ===== verification/Minix.thy ===== *)
theory Minix
  imports Libc Bitmap Console
begin

text \<open>
  The Minix file system of \<^verbatim>\<open>kernel/fs/minix\<close>: every operation of \<^verbatim>\<open>inode.c\<close>,
  \<^verbatim>\<open>file.c\<close>, \<^verbatim>\<open>superblock.c\<close>, \<^verbatim>\<open>root.c\<close> and \<^verbatim>\<open>fs.c\<close>, over a disk
  of 512-byte sectors. A sector buffer is a byte array, a pointer to a structure in it an offset; a read or
  write outside an array has no result (\<open>None\<close>). The array \<open>u\<close> is the content the uninitialised
  \<^verbatim>\<open>char filename[32]\<close> happens to have.
\<close>

section \<open>The disk\<close>

text \<open>The driver puts 28 bits of the sector number on the bus (theory Ide).\<close>

type_synonym disk = "u32 \<Rightarrow> u8 list"

definition sector_read :: "u32 \<Rightarrow> disk \<Rightarrow> u8 list" where
  "sector_read lba d = d (lba AND 0x0FFFFFFF)"

definition sector_write :: "u32 \<Rightarrow> u8 list \<Rightarrow> disk \<Rightarrow> disk" where
  "sector_write lba buf d = d(lba AND 0x0FFFFFFF := buf)"

section \<open>Structures\<close>

definition INODE_BITMAP_LBA :: u32 where "INODE_BITMAP_LBA = 2"
definition ZONE_BITMAP_LBA :: u32 where "ZONE_BITMAP_LBA = 3"

text \<open>\<^verbatim>\<open>struct minix2_inode\<close>, packed: 34 bytes, although the code keeps inodes 32 bytes apart.\<close>

definition sizeof_inode :: nat where "sizeof_inode = 34"
definition i_mode :: "u8 list \<Rightarrow> nat \<Rightarrow> u16 option" where "i_mode b p = get16 b p"
definition i_uid :: "u8 list \<Rightarrow> nat \<Rightarrow> u16 option" where "i_uid b p = get16 b (p + 2)"
definition i_size :: "u8 list \<Rightarrow> nat \<Rightarrow> u32 option" where "i_size b p = get32 b (p + 4)"
definition i_mtime :: "u8 list \<Rightarrow> nat \<Rightarrow> u32 option" where "i_mtime b p = get32 b (p + 8)"
definition i_gid :: "u8 list \<Rightarrow> nat \<Rightarrow> u8 option" where "i_gid b p = get8 b (p + 12)"
definition i_nlinks :: "u8 list \<Rightarrow> nat \<Rightarrow> u8 option" where "i_nlinks b p = get8 b (p + 13)"
definition i_zone :: "u8 list \<Rightarrow> nat \<Rightarrow> nat \<Rightarrow> u16 option" where "i_zone b p k = get16 b (p + 14 + 2 * k)"

text \<open>\<^verbatim>\<open>struct minix_dir_entry\<close>: 32 bytes, the inode number and a name of 30 bytes; the string
  functions read on behind an unterminated name.\<close>

definition entry_inode :: "u8 list \<Rightarrow> nat \<Rightarrow> u16 option" where "entry_inode b i = get16 b (32 * i)"
definition entry_name :: "u8 list \<Rightarrow> nat \<Rightarrow> u8 list" where "entry_name b i = drop (32 * i + 2) b"
definition set_entry_inode :: "u8 list \<Rightarrow> nat \<Rightarrow> u16 \<Rightarrow> u8 list option" where
  "set_entry_inode b i n = put16 b (32 * i) n"
definition set_entry_name :: "u8 list \<Rightarrow> nat \<Rightarrow> u8 list \<Rightarrow> u8 list option" where
  "set_entry_name b i name = map_option ((@) (take (32 * i + 2) b)) (strncpy (entry_name b i) name 30)"
definition clear_entry_name :: "u8 list \<Rightarrow> nat \<Rightarrow> u8 list option" where
  "clear_entry_name b i = memset b (32 * i + 2) 0 30"

text \<open>Where an inode lies. For number 0 the offset is \<open>-32\<close> in 32 bits, outside every buffer.\<close>

definition inode_sector :: "u16 \<Rightarrow> u32" where
  "inode_sector n = of_nat (10 + (unat n - 1) div 16)"

definition inode_offset :: "u16 \<Rightarrow> nat" where
  "inode_offset n = (if n = 0 then 2 ^ 32 - 32 else ((unat n - 1) mod 16) * 32)"

section \<open>Inodes\<close>

text \<open>A copied structure is an array of \<^verbatim>\<open>sizeof_inode\<close> bytes.\<close>

definition minix_ReadInode :: "u16 \<Rightarrow> disk \<Rightarrow> u8 list \<Rightarrow> u8 list option" where
  "minix_ReadInode inode_no d inode = memcpy inode 0 (sector_read (inode_sector inode_no) d) (inode_offset inode_no) sizeof_inode"

definition minix_GetInode :: "u16 \<Rightarrow> disk \<Rightarrow> u8 list option" where
  "minix_GetInode inode_no d =
     memcpy (replicate sizeof_inode 0) 0 (sector_read (inode_sector inode_no) d) (inode_offset inode_no) sizeof_inode"

definition minix_WriteInode :: "u16 \<Rightarrow> u8 list \<Rightarrow> disk \<Rightarrow> disk option" where
  "minix_WriteInode inode_no inode d =
     (let sector = inode_sector inode_no
      in do { buf \<leftarrow> memcpy (sector_read sector d) (inode_offset inode_no) inode 0 sizeof_inode;
              Some (sector_write sector buf d) })"

text \<open>The scan of a bitmap sector: bytes that are full are skipped, and the bits of the others are tried in order.
  \<open>ok\<close> is the extra test of \<^verbatim>\<open>minix_AllocateInode\<close>, which passes over the first two inodes.\<close>

function scan_bits :: "(nat \<Rightarrow> bool) \<Rightarrow> u8 \<Rightarrow> nat \<Rightarrow> nat \<Rightarrow> nat option" where
  "scan_bits ok byte i b =
     (if b < 8 then (if byte AND push_bit b 1 = 0 \<and> ok (i * 8 + b) then Some (i * 8 + b) else scan_bits ok byte i (Suc b))
      else None)"
  by pat_completeness auto
termination by (relation "measure (\<lambda>(ok, byte, i, b). 8 - b)") auto

function scan_bytes :: "(nat \<Rightarrow> bool) \<Rightarrow> u8 list \<Rightarrow> nat \<Rightarrow> nat option" where
  "scan_bytes ok bm i =
     (if i < 512 then (if bm ! i \<noteq> 0xFF
        then (case scan_bits ok (bm ! i) i 0 of Some k \<Rightarrow> Some k | None \<Rightarrow> scan_bytes ok bm (Suc i))
        else scan_bytes ok bm (Suc i))
      else None)"
  by pat_completeness auto
termination by (relation "measure (\<lambda>(ok, bm, i). 512 - i)") auto

declare scan_bits.simps [simp del] scan_bytes.simps [simp del]

definition minix_AllocateInode :: "disk \<Rightarrow> u16 \<times> disk" where
  "minix_AllocateInode d =
     (let bitmap = sector_read INODE_BITMAP_LBA d
      in case scan_bytes (\<lambda>k. 2 < k + 1) bitmap 0 of
           Some k \<Rightarrow> (of_nat (k + 1), sector_write INODE_BITMAP_LBA (SET_BIT bitmap k) d)
         | None \<Rightarrow> (0, d))"

text \<open>Clearing bit \<open>n\<close> of the bitmap in a sector; beyond bit 4095 the write leaves the buffer.\<close>

definition clear_bit_in :: "u32 \<Rightarrow> nat \<Rightarrow> disk \<Rightarrow> disk option" where
  "clear_bit_in lba n d =
     (let buf = sector_read lba d
      in if n div 8 < length buf then Some (sector_write lba (CLEAR_BIT buf n) d) else None)"

definition minix_FreeInode :: "u16 \<Rightarrow> disk \<Rightarrow> disk option" where
  "minix_FreeInode inode_no d =
     (if inode_no = 0 then Some d else clear_bit_in INODE_BITMAP_LBA (unat inode_no - 1) d)"

definition FreeZone :: "u16 \<Rightarrow> disk \<Rightarrow> disk option" where
  "FreeZone zone_no d = (if zone_no = 0 then Some d else clear_bit_in ZONE_BITMAP_LBA (unat zone_no) d)"

text \<open>The zone allocation that \<^verbatim>\<open>minix_WriteFile\<close> and \<^verbatim>\<open>minix_CreateDir\<close> have in line.\<close>

definition allocate_zone :: "disk \<Rightarrow> (u16 \<times> disk) option" where
  "allocate_zone d =
     (let z_bitmap = sector_read 3 d
      in case scan_bytes (\<lambda>k. True) z_bitmap 0 of
           Some k \<Rightarrow> Some (of_nat k, sector_write 3 (SET_BIT z_bitmap k) d)
         | None \<Rightarrow> None)"

section \<open>Directories\<close>

text \<open>The loops over the 16 entries of a directory sector: the first entry in use with a name, the first unused
  entry, the first entry with an inode number. The results are indices, \<open>None\<close> inside a result that
  there is none.\<close>

function dir_find :: "u8 list \<Rightarrow> u8 list \<Rightarrow> nat \<Rightarrow> nat option option" where
  "dir_find b name i =
     (if i < 16
      then do { n \<leftarrow> entry_inode b i;
                if n \<noteq> 0
                then do { c \<leftarrow> strcmp (entry_name b i) name; if c = 0 then Some (Some i) else dir_find b name (Suc i) }
                else dir_find b name (Suc i) }
      else Some None)"
  by pat_completeness auto
termination by (relation "measure (\<lambda>(b, name, i). 16 - i)") auto

function dir_inode :: "u8 list \<Rightarrow> u16 \<Rightarrow> nat \<Rightarrow> nat option option" where
  "dir_inode b no i =
     (if i < 16 then do { n \<leftarrow> entry_inode b i; if n = no then Some (Some i) else dir_inode b no (Suc i) }
      else Some None)"
  by pat_completeness auto
termination by (relation "measure (\<lambda>(b, no, i). 16 - i)") auto

declare dir_find.simps [simp del] dir_inode.simps [simp del]

text \<open>The inode number of the entry with a name, 0 when there is none.\<close>

definition dir_lookup :: "u8 list \<Rightarrow> u8 list \<Rightarrow> u16 option" where
  "dir_lookup b name = do { r \<leftarrow> dir_find b name 0; case r of None \<Rightarrow> Some 0 | Some i \<Rightarrow> entry_inode b i }"

text \<open>Following the directories of a path: the loop over \<^verbatim>\<open>strtok\<close>'s tokens, which are offsets in
  \<^verbatim>\<open>temp_path\<close>.\<close>

partial_function (option) path_walk ::
  "disk \<Rightarrow> u8 list \<Rightarrow> nat option \<Rightarrow> nat option \<Rightarrow> u32 \<Rightarrow> u32 option" where
  "path_walk d temp_path last_pos token current_sector =
     (case token of
        None \<Rightarrow> Some current_sector
      | Some t \<Rightarrow>
          do { found_inode \<leftarrow> dir_lookup (sector_read current_sector d) (drop t temp_path);
               if found_inode = 0 then Some 0
               else do { inode \<leftarrow> minix_GetInode found_inode d;
                         mode \<leftarrow> i_mode inode 0;
                         if mode AND 0x4000 \<noteq> 0x4000 then Some 0
                         else do { zone \<leftarrow> i_zone inode 0 0;
                                   (token', last_pos', temp_path') \<leftarrow> strtok last_pos None temp_path (c_str ''/'');
                                   path_walk d temp_path' last_pos' token' (ucast zone * 2) } } })"

text \<open>\<^verbatim>\<open>temp_path\<close> is written in full before it is read. The result is the sector and the new content of
  \<^verbatim>\<open>out_filename\<close>.\<close>

definition FindSectorOfPathDir :: "u8 list \<Rightarrow> u8 list \<Rightarrow> disk \<Rightarrow> (u32 \<times> u8 list) option" where
  "FindSectorOfPathDir path out_filename d =
     do { temp0 \<leftarrow> strncpy (replicate 256 0) path 255;
          let temp_path = temp0[255 := 0];
          last_slash \<leftarrow> strrchr temp_path (of_char (CHR ''/''));
          case last_slash of
            None \<Rightarrow> do { out \<leftarrow> strncpy out_filename path 30; Some (438, out) }
          | Some k \<Rightarrow>
              if k = 0 then do { out \<leftarrow> strncpy out_filename (drop 1 path) 30; Some (438, out) }
              else do { let temp_path = temp_path[k := 0];
                        out \<leftarrow> strncpy out_filename (drop (Suc k) temp_path) 30;
                        (token, last_pos, temp_path') \<leftarrow> strtok None (Some 0) temp_path (c_str ''/'');
                        sector \<leftarrow> path_walk d temp_path' last_pos token 438;
                        Some (sector, out) } }"

definition FindEntry :: "u8 list \<Rightarrow> u8 list \<Rightarrow> disk \<Rightarrow> u16 option" where
  "FindEntry u name d =
     do { (dir_sector, filename) \<leftarrow> FindSectorOfPathDir name u d;
          if dir_sector = 0 then Some 0 else dir_lookup (sector_read dir_sector d) filename }"

section \<open>Files\<close>

text \<open>The first unused entry of a directory sector is given to a name and the sector written back; a full directory is an
  error.\<close>

definition enter_name :: "u32 \<Rightarrow> u16 \<Rightarrow> u8 list \<Rightarrow> disk \<Rightarrow> (int \<times> disk) option" where
  "enter_name dir_sector no filename d =
     (let buf = sector_read dir_sector d
      in do { r \<leftarrow> dir_inode buf 0 0;
              case r of
                None \<Rightarrow> Some (err ENOSPC, d)
              | Some i \<Rightarrow> do { buf1 \<leftarrow> set_entry_inode buf i no;
                               buf2 \<leftarrow> set_entry_name buf1 i filename;
                               Some (0, sector_write dir_sector buf2 d) } })"

text \<open>A cleared inode with its first fields set.\<close>

definition fresh_inode :: "u8 list \<Rightarrow> nat \<Rightarrow> u16 \<Rightarrow> u32 \<Rightarrow> u8 \<Rightarrow> u8 list option" where
  "fresh_inode buf p mode sz nlinks =
     do { b0 \<leftarrow> memset buf p 0 sizeof_inode;
          b1 \<leftarrow> put16 b0 p mode;
          b2 \<leftarrow> put32 b1 (p + 4) sz;
          put8 b2 (p + 13) nlinks }"

definition minix_CreateFile :: "u8 list \<Rightarrow> u8 list \<Rightarrow> disk \<Rightarrow> (int \<times> disk) option" where
  "minix_CreateFile u name d =
     do { e \<leftarrow> FindEntry u name d;
          if e \<noteq> 0 then Some (err EEXIST, d)
          else do { (dir_sector, filename) \<leftarrow> FindSectorOfPathDir name u d;
                    if dir_sector = 0 then Some (err ENOENT, d)
                    else let (new_inode_no, d1) = minix_AllocateInode d
                         in if new_inode_no = 0 then Some (err ENOSPC, d1)
                            else do { let sector = inode_sector new_inode_no;
                                      buf \<leftarrow> fresh_inode (sector_read sector d1) (inode_offset new_inode_no) 0x81ED 0 1;
                                      enter_name dir_sector new_inode_no filename (sector_write sector buf d1) } } }"

text \<open>\<^verbatim>\<open>minix_DeleteFile\<close>: the zones of the inode in the buffer are freed in order.\<close>

fun free_zones :: "nat list \<Rightarrow> u8 list \<Rightarrow> nat \<Rightarrow> disk \<Rightarrow> (u8 list \<times> disk) option" where
  "free_zones [] b p d = Some (b, d)"
| "free_zones (z # zs) b p d =
     do { zone \<leftarrow> i_zone b p z;
          if zone \<noteq> 0
          then do { d1 \<leftarrow> FreeZone zone d; b1 \<leftarrow> put16 b (p + 14 + 2 * z) 0; free_zones zs b1 p d1 }
          else free_zones zs b p d }"

text \<open>The entry \<open>i\<close> of a directory is cleared; the special names are told apart.\<close>

definition remove_entry :: "u32 \<Rightarrow> nat \<Rightarrow> disk \<Rightarrow> disk option" where
  "remove_entry dir_sector i d =
     do { b1 \<leftarrow> set_entry_inode (sector_read dir_sector d) i 0;
          b2 \<leftarrow> clear_entry_name b1 i;
          Some (sector_write dir_sector b2 d) }"

definition dot_name :: "u8 list \<Rightarrow> bool option" where
  "dot_name filename =
     do { c \<leftarrow> strcmp filename (c_str ''.'');
          if c = 0 then Some True else do { c' \<leftarrow> strcmp filename (c_str ''..''); Some (c' = 0) } }"

definition minix_DeleteFile :: "u8 list \<Rightarrow> u8 list \<Rightarrow> disk \<Rightarrow> (int \<times> disk) option" where
  "minix_DeleteFile u name d =
     do { (dir_sector, filename) \<leftarrow> FindSectorOfPathDir name u d;
          if dir_sector = 0 then Some (err ENOENT, d)
          else do { dots \<leftarrow> dot_name filename;
                    if dots then Some (err EACCES, d)
                    else do { let buf = sector_read dir_sector d;
                              r \<leftarrow> dir_find buf filename 0;
                              case r of
                                None \<Rightarrow> Some (err ENOENT, d)
                              | Some entry_index \<Rightarrow>
                                  do { target_inode \<leftarrow> entry_inode buf entry_index;
                                       let sector = inode_sector target_inode; let p = inode_offset target_inode;
                                       (inode_buf, d1) \<leftarrow> free_zones [0..<7] (sector_read sector d) p d;
                                       inode_buf' \<leftarrow> memset inode_buf p 0 sizeof_inode;
                                       let d2 = sector_write sector inode_buf' d1;
                                       d3 \<leftarrow> clear_bit_in INODE_BITMAP_LBA (unat target_inode) d2;
                                       d4 \<leftarrow> remove_entry dir_sector entry_index d3;
                                       Some (0, d4) } } } }"

text \<open>\<^verbatim>\<open>int\<close> values as words: the comparison with \<^verbatim>\<open>i_size\<close> is unsigned, the tests against 0
  are signed. The result carries the output array.\<close>

definition minix_ReadFile :: "u8 list \<Rightarrow> u8 list \<Rightarrow> u8 list \<Rightarrow> u32 \<Rightarrow> disk \<Rightarrow> (int \<times> u8 list) option" where
  "minix_ReadFile u name output count d =
     do { inode_no \<leftarrow> FindEntry u name d;
          if inode_no = 0 then Some (err ENOENT, output)
          else do { inode \<leftarrow> minix_GetInode inode_no d;
                    sz \<leftarrow> i_size inode 0;
                    zone \<leftarrow> i_zone inode 0 0;
                    let actual_to_read = (if sz < count then sz else count);
                    let padding_needed = (if sz < count then count - sz else 0);
                    output1 \<leftarrow> (if 0 < sint actual_to_read \<and> zone \<noteq> 0
                                then memcpy output 0 (sector_read (ucast zone * 2) d) 0 (unat actual_to_read)
                                else Some output);
                    output2 \<leftarrow> (if 0 < sint padding_needed
                                then (if sint actual_to_read < 0 then None
                                      else memset output1 (unat actual_to_read) 0 (unat padding_needed))
                                else Some output1);
                    Some (sint actual_to_read, output2) } }"

text \<open>The inode in the buffer gets a zone when it has none; no free zone is \<open>None\<close> inside the result.\<close>

definition ensure_zone :: "u8 list \<Rightarrow> nat \<Rightarrow> disk \<Rightarrow> (u8 list \<times> disk) option option" where
  "ensure_zone inode_buf p d =
     do { zone \<leftarrow> i_zone inode_buf p 0;
          if zone = 0
          then (case allocate_zone d of
                  None \<Rightarrow> Some None
                | Some (found_zone, d1) \<Rightarrow> do { b \<leftarrow> put16 inode_buf (p + 14) found_zone; Some (Some (b, d1)) })
          else Some (Some (inode_buf, d)) }"

definition minix_WriteFile :: "u8 list \<Rightarrow> u8 list \<Rightarrow> u8 list \<Rightarrow> u32 \<Rightarrow> disk \<Rightarrow> (int \<times> disk) option" where
  "minix_WriteFile u name input count d =
     do { inode_no \<leftarrow> FindEntry u name d;
          if inode_no = 0 then Some (err ENOENT, d)
          else do { let i_sector = inode_sector inode_no; let p = inode_offset inode_no;
                    r \<leftarrow> ensure_zone (sector_read i_sector d) p d;
                    case r of
                      None \<Rightarrow> Some (err ENOSPC, d)
                    | Some (b, d1) \<Rightarrow>
                        do { zone \<leftarrow> i_zone b p 0;
                             let to_write = (if 512 < sint count then 512 else count);
                             data_buf \<leftarrow> (if sint to_write < 0 then None
                                         else memcpy (replicate 512 0) 0 input 0 (unat to_write));
                             let d2 = sector_write (ucast zone * 2) data_buf d1;
                             sz \<leftarrow> i_size b p;
                             b' \<leftarrow> (if sz < to_write then put32 b (p + 4) to_write else Some b);
                             Some (sint to_write, sector_write i_sector b' d2) } } }"

text \<open>\<^verbatim>\<open>res != ESUCCESS\<close> and the final comparison are on \<^verbatim>\<open>int\<close> values.\<close>

definition minix_CopyFile :: "u8 list \<Rightarrow> u8 list \<Rightarrow> u8 list \<Rightarrow> u8 list \<Rightarrow> disk \<Rightarrow> (int \<times> disk) option" where
  "minix_CopyFile u data_buffer source dest d =
     do { (bytes_read, data) \<leftarrow> minix_ReadFile u source data_buffer 512 d;
          if bytes_read < 0 then Some (bytes_read, d)
          else do { (res, d1) \<leftarrow> minix_CreateFile u dest d;
                    if res \<noteq> 0 then Some (res, d1)
                    else do { (bytes_written, d2) \<leftarrow> minix_WriteFile u dest data (of_int bytes_read) d1;
                              if bytes_written \<noteq> bytes_read then Some (- 1, d2) else Some (0, d2) } } }"

definition minix_RenameFile :: "u8 list \<Rightarrow> u8 list \<Rightarrow> u8 list \<Rightarrow> disk \<Rightarrow> (int \<times> disk) option" where
  "minix_RenameFile u old_name new_name d =
     do { (old_dir_sector, old_filename) \<leftarrow> FindSectorOfPathDir old_name u d;
          if old_dir_sector = 0 then Some (err ENOENT, d)
          else do { (new_dir_sector, new_filename) \<leftarrow> FindSectorOfPathDir new_name u d;
                    if new_dir_sector = 0 then Some (err ENOENT, d)
                    else do { e \<leftarrow> FindEntry u new_name d;
                              if e \<noteq> 0 then Some (err EEXIST, d)
                              else do { let buf = sector_read old_dir_sector d;
                                        r \<leftarrow> dir_find buf old_filename 0;
                                        case r of
                                          None \<Rightarrow> Some (err ENOENT, d)
                                        | Some i \<Rightarrow> do { target_inode \<leftarrow> entry_inode buf i;
                                                         d1 \<leftarrow> remove_entry old_dir_sector i d;
                                                         enter_name new_dir_sector target_inode new_filename d1 } } } } }"

section \<open>Directories as files\<close>

text \<open>The first sector of a new directory: its own entry and its parent's.\<close>

definition dot_entries :: "u16 \<Rightarrow> u16 \<Rightarrow> u8 list option" where
  "dot_entries new_inode_no parent_inode =
     do { e1 \<leftarrow> set_entry_inode (replicate 512 0) 0 new_inode_no;
          e2 \<leftarrow> set_entry_name e1 0 (c_str ''.'');
          e3 \<leftarrow> set_entry_inode e2 1 parent_inode;
          set_entry_name e3 1 (c_str ''..'') }"

definition minix_CreateDir :: "u8 list \<Rightarrow> u8 list \<Rightarrow> disk \<Rightarrow> (int \<times> disk) option" where
  "minix_CreateDir u name d =
     do { e \<leftarrow> FindEntry u name d;
          if e \<noteq> 0 then Some (err EEXIST, d)
          else do { (dir_sector, filename) \<leftarrow> FindSectorOfPathDir name u d;
                    if dir_sector = 0 then Some (err ENOENT, d)
                    else let (new_inode_no, d1) = minix_AllocateInode d
                         in if new_inode_no \<le> 2 then Some (err ENOSPC, d1)
                            else case allocate_zone d1 of
                                   None \<Rightarrow> Some (err ENOSPC, d1)
                                 | Some (new_zone, d2) \<Rightarrow>
                                     do { let i_sector = inode_sector new_inode_no; let p = inode_offset new_inode_no;
                                          b \<leftarrow> fresh_inode (sector_read i_sector d2) p 0x41ED 64 2;
                                          buf \<leftarrow> put16 b (p + 14) new_zone;
                                          let d3 = sector_write i_sector buf d2;
                                          parent_inode \<leftarrow> entry_inode (sector_read dir_sector d3) 0;
                                          dir_data \<leftarrow> dot_entries new_inode_no parent_inode;
                                          enter_name dir_sector new_inode_no filename
                                            (sector_write (ucast new_zone * 2) dir_data d3) } } }"

definition minix_DeleteDir :: "u8 list \<Rightarrow> u8 list \<Rightarrow> disk \<Rightarrow> (int \<times> disk) option" where
  "minix_DeleteDir u name d =
     do { (dir_sector, filename) \<leftarrow> FindSectorOfPathDir name u d;
          if dir_sector = 0 then Some (err ENOENT, d)
          else do { dots \<leftarrow> dot_name filename;
                    if dots then Some (err EPERM, d)
                    else do { inode_no \<leftarrow> FindEntry u name d;
                              if inode_no = 0 then Some (err ENOENT, d)
                              else do { inode \<leftarrow> minix_GetInode inode_no d;
                                        mode \<leftarrow> i_mode inode 0;
                                        sz \<leftarrow> i_size inode 0;
                                        zone \<leftarrow> i_zone inode 0 0;
                                        if mode AND 0x4000 \<noteq> 0x4000 then Some (err ENOTDIR, d)
                                        else if 64 < sz then Some (err EPERM, d)
                                        else do { d1 \<leftarrow> FreeZone zone d;
                                                  let i_sector = inode_sector inode_no;
                                                  buf \<leftarrow> memset (sector_read i_sector d1) (inode_offset inode_no) 0 sizeof_inode;
                                                  let d2 = sector_write i_sector buf d1;
                                                  d3 \<leftarrow> clear_bit_in 2 (unat inode_no) d2;
                                                  r \<leftarrow> dir_inode (sector_read dir_sector d3) inode_no 0;
                                                  case r of
                                                    None \<Rightarrow> Some (0, d3)
                                                  | Some i \<Rightarrow> do { d4 \<leftarrow> remove_entry dir_sector i d3; Some (0, d4) } } } } } }"

section \<open>Listings\<close>

text \<open>A listing is the sequence of calls of \<^verbatim>\<open>printk\<close>: the format and the arguments.\<close>

type_synonym print_call = "u8 list \<times> va_arg list"

definition c_line :: "string \<Rightarrow> u8 list" where
  "c_line s = butlast (c_str s) @ [10, 0]"

fun list_entries :: "u8 list \<Rightarrow> nat list \<Rightarrow> print_call list option" where
  "list_entries buf [] = Some []"
| "list_entries buf (i # is) =
     do { n \<leftarrow> entry_inode buf i;
          rest \<leftarrow> list_entries buf is;
          Some (if n \<noteq> 0 then (c_line ''[%d] %s'', [VInt (ucast n), VStr (entry_name buf i)]) # rest else rest) }"

text \<open>The sector to list, or the error message.\<close>

definition list_target :: "u8 list \<Rightarrow> u8 list option \<Rightarrow> disk \<Rightarrow> (print_call list + u32) option" where
  "list_target u name d =
     (case name of
        None \<Rightarrow> Some (Inr 438)
      | Some n \<Rightarrow>
          do { c \<leftarrow> strcmp n (c_str ''/'');
               c' \<leftarrow> (if c = 0 then Some 0 else strcmp n [0]);
               if c' = 0 then Some (Inr 438)
               else do { inode_no \<leftarrow> FindEntry u n d;
                         if inode_no = 0 then Some (Inl [(c_line ''Dizin bulunamadi.'', [])])
                         else do { inode \<leftarrow> minix_GetInode inode_no d;
                                   mode \<leftarrow> i_mode inode 0;
                                   zone \<leftarrow> i_zone inode 0 0;
                                   if mode AND 0x4000 \<noteq> 0x4000
                                   then Some (Inl [(c_line ''Hata: '%s' bir dizin degil!'', [VStr n])])
                                   else Some (Inr (ucast zone * 2)) } } })"

definition minix_ListDir :: "u8 list \<Rightarrow> u8 list option \<Rightarrow> disk \<Rightarrow> print_call list option" where
  "minix_ListDir u name d =
     do { r \<leftarrow> list_target u name d;
          case r of
            Inl msg \<Rightarrow> Some msg
          | Inr current_sector \<Rightarrow>
              do { shown \<leftarrow> (case name of None \<Rightarrow> Some (c_str ''/'')
                            | Some n \<Rightarrow> do { l \<leftarrow> strlen n; Some (if 0 < l then n else c_str ''/'') });
                   entries \<leftarrow> list_entries (sector_read current_sector d) [0..<16];
                   Some ((10 # c_line ''--- Dizin Icerigi: %s ---'', [VStr shown]) # entries @
                         [(c_line ''-------------------------'', [])]) } }"

text \<open>\<^verbatim>\<open>minix_List\<close> shows the two sectors of the root directory, with a slash behind directories.\<close>

fun list_names :: "u8 list \<Rightarrow> nat list \<Rightarrow> disk \<Rightarrow> print_call list option" where
  "list_names buf [] d = Some []"
| "list_names buf (i # is) d =
     do { n \<leftarrow> entry_inode buf i;
          here \<leftarrow> (if n \<noteq> 0
                  then do { mode \<leftarrow> i_mode (sector_read (inode_sector n) d) (inode_offset n);
                            dots \<leftarrow> (if mode AND 0x4000 \<noteq> 0 then dot_name (entry_name buf i) else Some True);
                            Some ((c_str ''%s'', [VStr (entry_name buf i)]) # (if dots then [] else [(c_str ''/'', [])]) @ [([10, 0], [])]) }
                  else Some []);
          rest \<leftarrow> list_names buf is d;
          Some (here @ rest) }"

definition minix_List :: "disk \<Rightarrow> print_call list option" where
  "minix_List d = list_names (sector_read 438 d @ sector_read 439 d) [0..<32] d"

text \<open>The zones are printed by index up to 9: behind the seven of the array come the two indirect zones and the unused
  word.\<close>

fun list_zones :: "u8 list \<Rightarrow> nat list \<Rightarrow> print_call list option" where
  "list_zones b [] = Some []"
| "list_zones b (i # is) =
     do { z \<leftarrow> i_zone b 0 i;
          rest \<leftarrow> list_zones b is;
          Some ((c_line ''  Zone[%d]: %d'', [VInt (of_nat i), VInt (ucast z)]) # rest) }"

definition minix_GetRootInode :: "disk \<Rightarrow> print_call list option" where
  "minix_GetRootInode d =
     do { let b = sector_read 10 d;
          mode \<leftarrow> i_mode b 0; uid \<leftarrow> i_uid b 0; gid \<leftarrow> i_gid b 0; sz \<leftarrow> i_size b 0;
          mtime \<leftarrow> i_mtime b 0; nlinks \<leftarrow> i_nlinks b 0;
          zones \<leftarrow> list_zones b [0..<10];
          Some ([(c_line ''--- Inode Bilgileri (Sektor 10) ---'', []),
                 (c_line ''Mode:     %x'', [VInt (ucast mode)]),
                 (c_line ''UID:      %d'', [VInt (ucast uid)]),
                 (c_line ''GID:      %d'', [VInt (ucast gid)]),
                 (c_line ''Size:     %d bytes'', [VInt (ucast sz)]),
                 (c_line ''MTime:    %d'', [VInt (ucast mtime)]),
                 (c_line ''NLinks:   %d'', [VInt (ucast nlinks)]),
                 (c_line ''Zones:'', [])] @ zones @ [(c_line ''----------------------------------'', [])]) }"

section \<open>Superblock and start\<close>

record minix2_superblock =
  s_ninodes :: u16
  s_nzones :: u16
  s_imap_blocks :: u16
  s_zmap_blocks :: u16
  s_firstdatazone :: u16
  s_log_zone_size :: u16
  s_max_size :: u32
  s_magic :: u16
  s_state :: u16
  s_zones :: u32

definition minix_GetSuperBlock :: "disk \<Rightarrow> (int \<times> minix2_superblock) option" where
  "minix_GetSuperBlock d =
     (let buffer = sector_read 2 d
      in do { a0 \<leftarrow> get16 buffer 0; a1 \<leftarrow> get16 buffer 2; a2 \<leftarrow> get16 buffer 4; a3 \<leftarrow> get16 buffer 6;
              a4 \<leftarrow> get16 buffer 8; a5 \<leftarrow> get16 buffer 10; a6 \<leftarrow> get32 buffer 12; a7 \<leftarrow> get16 buffer 16;
              a8 \<leftarrow> get16 buffer 18; a9 \<leftarrow> get32 buffer 20;
              let current_sb = \<lparr>s_ninodes = a0, s_nzones = a1, s_imap_blocks = a2, s_zmap_blocks = a3, s_firstdatazone = a4,
                s_log_zone_size = a5, s_max_size = a6, s_magic = a7, s_state = a8, s_zones = a9\<rparr>;
              Some (if s_magic current_sb = 0x2478 \<or> s_magic current_sb = 0x2479 then 0 else err EINVAL, current_sb) })"

definition minixfs_init :: "disk \<Rightarrow> (int \<times> minix2_superblock \<times> print_call list) option" where
  "minixfs_init d =
     do { (sup, sb) \<leftarrow> minix_GetSuperBlock d;
          if sup = err EINVAL then Some (err EINVAL, sb, [])
          else do { out \<leftarrow> minix_GetRootInode d; Some (0, sb, out) } }"

end
