(* ===== verification/MinixDir.thy ===== *)
theory MinixDir
  imports Minix
begin

text \<open>
  The parts of the file system the operations share: the bitmap scans find the first free bit, a directory sector
  is a table of names, and a path resolves to a directory sector by looking up its components one after the
  other.
\<close>

section \<open>Bitmap scans\<close>

lemma scan_bits_spec:
  "b \<le> 8 \<Longrightarrow> scan_bits ok byte i b =
     (case find (\<lambda>j. \<not> bit byte j \<and> ok (i * 8 + j)) [b..<8] of None \<Rightarrow> None | Some j \<Rightarrow> Some (i * 8 + j))"
proof (induction ok byte i b rule: scan_bits.induct)
  case (1 ok byte i b)
  show ?case
  proof (cases "b < 8")
    case True
    then have "[b..<8] = b # [Suc b..<8]" by (rule upt_conv_Cons)
    then show ?thesis using 1 True and_bit_neq_0 [of byte b] by (subst scan_bits.simps) auto
  next
    case False
    then show ?thesis by (subst scan_bits.simps) simp
  qed
qed

definition free_bit :: "(nat \<Rightarrow> bool) \<Rightarrow> u8 list \<Rightarrow> nat \<Rightarrow> bool" where
  "free_bit ok bm k \<longleftrightarrow> k < 4096 \<and> \<not> TEST_BIT bm k \<and> ok k"

lemma find_upt_Some: "find P [a..<b] = Some j \<longleftrightarrow> a \<le> j \<and> j < b \<and> P j \<and> (\<forall>i. a \<le> i \<and> i < j \<longrightarrow> \<not> P i)"
proof
  assume "find P [a..<b] = Some j"
  then obtain i where i: "i < length [a..<b]" "P ([a..<b] ! i)" "j = [a..<b] ! i" "\<forall>k < i. \<not> P ([a..<b] ! k)"
    by (auto simp: find_Some_iff)
  then have "j = a + i" by simp
  moreover have "\<not> P m" if "a \<le> m" "m < j" for m using i(4) [rule_format, of "m - a"] that i(1) \<open>j = a + i\<close> by simp
  ultimately show "a \<le> j \<and> j < b \<and> P j \<and> (\<forall>i. a \<le> i \<and> i < j \<longrightarrow> \<not> P i)" using i by auto
next
  assume "a \<le> j \<and> j < b \<and> P j \<and> (\<forall>i. a \<le> i \<and> i < j \<longrightarrow> \<not> P i)"
  then show "find P [a..<b] = Some j" by (auto simp: find_Some_iff intro!: exI [of _ "j - a"])
qed

lemma find_upt_None: "find P [a..<b] = None \<longleftrightarrow> (\<forall>i. a \<le> i \<and> i < b \<longrightarrow> \<not> P i)"
  by (auto simp: find_None_iff)

lemma find_map: "find P (map f xs) = map_option f (find (P \<circ> f) xs)"
  by (induction xs) simp_all

lemma find_append: "find P (xs @ ys) = (case find P xs of None \<Rightarrow> find P ys | Some x \<Rightarrow> Some x)"
  by (induction xs) simp_all

lemma scan_bytes_spec:
  assumes "length bm = 512"
  shows "scan_bytes ok bm i = find (free_bit ok bm) [8 * i..<4096]"
  using assms
proof (induction ok bm i rule: scan_bytes.induct)
  case (1 ok bm i)
  show ?case
  proof (cases "i < 512")
    case True
    have byte: "free_bit ok bm (8 * i + j) \<longleftrightarrow> \<not> bit (bm ! i) j \<and> ok (i * 8 + j)" if "j < 8" for j
      using that True by (simp add: free_bit_def TEST_BIT_bit mult.commute)
    have split: "[8 * i..<4096] = map ((+) (8 * i)) [0..<8] @ [8 * Suc i..<4096]"
    proof -
      have "[8 * i..<4096] = [8 * i..<8 * i + 8] @ [8 * i + 8..<4096]" 
        using upt_add_eq_append [of "8 * i" "8 * i + 8" "4096 - (8 * i + 8)"] True by simp
      moreover have "[8 * i..<8 * i + 8] = map ((+) (8 * i)) [0..<8]" by (rule nth_equalityI) simp_all
      ultimately show ?thesis by (simp add: add.commute)
    qed
    have head: "find (free_bit ok bm) (map ((+) (8 * i)) [0..<8]) = scan_bits ok (bm ! i) i 0"
    proof -
      have "find (free_bit ok bm) (map ((+) (8 * i)) [0..<8]) =
          map_option ((+) (8 * i)) (find (\<lambda>j. \<not> bit (bm ! i) j \<and> ok (i * 8 + j)) [0..<8])"
        unfolding find_map by (rule arg_cong [of _ _ "map_option _"], rule find_cong) (simp_all add: byte)
      then show ?thesis by (simp add: scan_bits_spec mult.commute split: option.splits)
    qed
    have full: "scan_bits ok (bm ! i) i 0 = None" if "bm ! i = 0xFF"
    proof -
      have "bit (0xFF :: u8) j" if "j < 8" for j using TEST_BIT_replicate_FF [of j 1] that by (simp add: TEST_BIT_bit)
      then have "find (\<lambda>j. \<not> bit (bm ! i) j \<and> ok (i * 8 + j)) [0..<8] = None" using that by (simp add: find_None_iff)
      then show ?thesis by (simp only: scan_bits_spec option.case)
    qed
    show ?thesis
      using 1 True full unfolding split find_append head by (subst scan_bytes.simps) (auto split: option.splits)
  next
    case False
    then show ?thesis by (subst scan_bytes.simps) simp
  qed
qed

lemma inode_scan:
  assumes "length bm = 512"
  shows "scan_bytes (\<lambda>k. 2 < k + 1) bm 0 = find_clear bm 2 4096" and "scan_bytes (\<lambda>k. True) bm 0 = find_clear bm 0 4096"
proof -
  have first: "scan_bytes ok bm 0 = (if \<exists>k. free_bit ok bm k then Some (LEAST k. free_bit ok bm k) else None)" for ok
  proof (cases "scan_bytes ok bm 0")
    case None
    then show ?thesis using assms by (auto simp: scan_bytes_spec find_upt_None free_bit_def)
  next
    case (Some k)
    then have "free_bit ok bm k" "\<forall>i < k. \<not> free_bit ok bm i" using assms by (auto simp: scan_bytes_spec find_upt_Some)
    moreover from this have "(LEAST k. free_bit ok bm k) = k" by (intro Least_equality) (auto simp: not_less [symmetric])
    ultimately show ?thesis using Some by auto
  qed
  have clear: "find_clear bm m 4096 = (if \<exists>k. free_bit (\<lambda>k. m \<le> k) bm k then Some (LEAST k. free_bit (\<lambda>k. m \<le> k) bm k) else None)" for m
  proof (cases "find_clear bm m 4096")
    case None
    then show ?thesis by (auto simp: find_clear_None free_bit_def)
  next
    case (Some k)
    then have "free_bit (\<lambda>k. m \<le> k) bm k" "\<forall>i < k. \<not> free_bit (\<lambda>k. m \<le> k) bm i" by (auto simp: find_clear_Some free_bit_def)
    moreover from this have "(LEAST k. free_bit (\<lambda>k. m \<le> k) bm k) = k" by (intro Least_equality) (auto simp: not_less [symmetric])
    ultimately show ?thesis using Some by auto
  qed
  have "(\<lambda>k :: nat. 2 < k + 1) = (\<lambda>k. 2 \<le> k)" by (rule ext) auto
  then show "scan_bytes (\<lambda>k. 2 < k + 1) bm 0 = find_clear bm 2 4096" using first clear by simp
  show "scan_bytes (\<lambda>k. True) bm 0 = find_clear bm 0 4096" using first [of "\<lambda>k. True"] clear [of 0] by simp
qed

section \<open>Directory sectors\<close>

text \<open>The inode number and the name of entry \<open>i\<close>. A sound directory sector has 512 bytes and every
  name in use ends within its 30.\<close>

definition ino :: "u8 list \<Rightarrow> nat \<Rightarrow> u16" where
  "ino b i = le_word (take 2 (drop (32 * i) b))"

definition ename :: "u8 list \<Rightarrow> nat \<Rightarrow> u8 list" where
  "ename b i = cstr (take 30 (entry_name b i))"

definition dir_ok :: "u8 list \<Rightarrow> bool" where
  "dir_ok b \<longleftrightarrow> length b = 512 \<and> (\<forall>i < 16. ino b i \<noteq> 0 \<longrightarrow> terminated (take 30 (entry_name b i)))"

definition find_name :: "u8 list \<Rightarrow> u8 list \<Rightarrow> nat option" where
  "find_name b nm = find (\<lambda>i. ino b i \<noteq> 0 \<and> ename b i = nm) [0..<16]"

definition lookup :: "u8 list \<Rightarrow> u8 list \<Rightarrow> u16" where
  "lookup b nm = (case find_name b nm of None \<Rightarrow> 0 | Some i \<Rightarrow> ino b i)"

lemma entry_inode_ino: "length b = 512 \<Longrightarrow> i < 16 \<Longrightarrow> entry_inode b i = Some (ino b i)"
  by (simp add: entry_inode_def ino_def get16_def buf_get_def)

lemma terminated_take: "terminated (take n s) \<Longrightarrow> terminated s \<and> cstr (take n s) = cstr s"
proof -
  assume a: "terminated (take n s)"
  then have "terminated s" by (auto simp: terminated_def dest: in_set_takeD)
  moreover obtain r where "take n s = cstr (take n s) @ 0 # r" using cstr_split [OF a] by blast
  then have "s = cstr (take n s) @ 0 # (r @ drop n s)" by (metis append.assoc append_Cons append_take_drop_id)
  then have "cstr s = cstr (take n s)" using cstr_id [OF cstr_nonzero] by metis
  ultimately show ?thesis by simp
qed

lemma dir_find_step:
  assumes ok: "dir_ok b" and name: "terminated name" and i: "i < 16"
  shows "dir_find b name i =
    (if ino b i \<noteq> 0 \<and> ename b i = cstr name then Some (Some i) else dir_find b name (Suc i))"
proof (cases "ino b i = 0")
  case True
  have e: "entry_inode b i = Some (ino b i)" using ok i by (intro entry_inode_ino) (simp_all add: dir_ok_def)
  show ?thesis using True e i by (subst dir_find.simps) simp
next
  case False
  have e: "entry_inode b i = Some (ino b i)" using ok i by (intro entry_inode_ino) (simp_all add: dir_ok_def)
  have t: "terminated (take 30 (entry_name b i))" using ok i False by (simp add: dir_ok_def)
  have nm: "terminated (entry_name b i)" "ename b i = cstr (entry_name b i)" using terminated_take [OF t] by (simp_all add: ename_def)
  obtain r where r: "strcmp (entry_name b i) name = Some r" "r = 0 \<longleftrightarrow> ename b i = cstr name"
    using strcmp_spec [OF nm(1) name] nm(2) by auto
  have "dir_find b name i = (if r = 0 then Some (Some i) else dir_find b name (Suc i))"
    by (subst dir_find.simps) (simp only: e r(1) False i bind.bind_lunit not_False_eq_True if_True if_False)
  then show ?thesis using r(2) False by simp
qed

lemma dir_find_spec:
  assumes "dir_ok b" and "terminated name"
  shows "dir_find b name i = Some (find (\<lambda>i. ino b i \<noteq> 0 \<and> ename b i = cstr name) [i..<16])"
proof (induction "16 - i" arbitrary: i)
  case 0
  then show ?case by (subst dir_find.simps) simp
next
  case (Suc n)
  then have "dir_find b name (Suc i) = Some (find (\<lambda>i. ino b i \<noteq> 0 \<and> ename b i = cstr name) [Suc i..<16])"
    and i: "i < 16" by simp_all
  then show ?case using dir_find_step [OF assms i] by (simp only: upt_conv_Cons [OF i] find.simps split: if_split) simp
qed

lemma dir_lookup_spec:
  assumes "dir_ok b" and "terminated name"
  shows "dir_lookup b name = Some (lookup b (cstr name))"
proof -
  have "entry_inode b i = Some (ino b i)" if "find_name b (cstr name) = Some i" for i
    using that assms(1) by (intro entry_inode_ino) (auto simp: dir_ok_def find_name_def find_upt_Some)
  then show ?thesis
    by (simp add: dir_lookup_def dir_find_spec [OF assms] lookup_def find_name_def [symmetric] split: option.splits)
qed

lemma dir_inode_spec:
  assumes "length b = 512"
  shows "dir_inode b no i = Some (find (\<lambda>i. ino b i = no) [i..<16])"
  using assms
proof (induction b no i rule: dir_inode.induct)
  case (1 b no i)
  show ?case
  proof (cases "i < 16")
    case True
    then have "[i..<16] = i # [Suc i..<16]" by (rule upt_conv_Cons)
    then show ?thesis using 1 True entry_inode_ino [of b i] by (subst dir_inode.simps) auto
  next
    case False
    then show ?thesis by (subst dir_inode.simps) simp
  qed
qed

section \<open>Inodes on the disk\<close>

text \<open>Fields of sectors, and a disk all of whose sectors have 512 bytes. The structure of 34 bytes lies inside its sector
  unless the number is a multiple of 16.\<close>

definition fld16 :: "u8 list \<Rightarrow> nat \<Rightarrow> u16" where
  "fld16 b off = le_word (take 2 (drop off b))"

definition fld32 :: "u8 list \<Rightarrow> nat \<Rightarrow> u32" where
  "fld32 b off = le_word (take 4 (drop off b))"

definition disk_ok :: "disk \<Rightarrow> bool" where
  "disk_ok d \<longleftrightarrow> (\<forall>l. length (d l) = 512)"

definition fits :: "u16 \<Rightarrow> bool" where
  "fits n \<longleftrightarrow> unat n mod 16 \<noteq> 0"

definition inode_bytes :: "disk \<Rightarrow> u16 \<Rightarrow> u8 list" where
  "inode_bytes d n = take sizeof_inode (drop (inode_offset n) (sector_read (inode_sector n) d))"

definition inode_mode :: "disk \<Rightarrow> u16 \<Rightarrow> u16" where "inode_mode d n = fld16 (inode_bytes d n) 0"
definition inode_size :: "disk \<Rightarrow> u16 \<Rightarrow> u32" where "inode_size d n = fld32 (inode_bytes d n) 4"
definition inode_zone :: "disk \<Rightarrow> u16 \<Rightarrow> nat \<Rightarrow> u16" where "inode_zone d n k = fld16 (inode_bytes d n) (14 + 2 * k)"

lemma length_sector [simp]: "disk_ok d \<Longrightarrow> length (sector_read lba d) = 512"
  by (simp add: sector_read_def disk_ok_def)

lemma disk_ok_write: "disk_ok d \<Longrightarrow> length b = 512 \<Longrightarrow> disk_ok (sector_write lba b d)"
  by (simp add: disk_ok_def sector_write_def)

lemma fits_offset: "fits n \<Longrightarrow> inode_offset n + 64 \<le> 512 \<and> n \<noteq> 0"
proof -
  assume a: "fits n"
  then have "unat n mod 16 \<noteq> 0" by (simp add: fits_def)
  moreover have "m mod 16 \<noteq> 0 \<Longrightarrow> m \<noteq> 0 \<and> (m - 1) mod 16 \<le> 14" for m :: nat
    by (cases m) (auto simp: mod_Suc split: if_splits)
  ultimately have "unat n \<noteq> 0" "(unat n - 1) mod 16 \<le> 14" by blast+
  then show ?thesis by (auto simp: inode_offset_def)
qed

lemma get_fld16: "off + 2 \<le> length b \<Longrightarrow> get16 b off = Some (fld16 b off)"
  by (simp add: get16_def buf_get_def fld16_def)

lemma get_fld32: "off + 4 \<le> length b \<Longrightarrow> get32 b off = Some (fld32 b off)"
  by (simp add: get32_def buf_get_def fld32_def)

lemma ino_fld16: "ino b i = fld16 b (32 * i)"
  by (simp add: ino_def fld16_def)

lemma length_inode_bytes: "disk_ok d \<Longrightarrow> fits n \<Longrightarrow> length (inode_bytes d n) = 34"
  using fits_offset [of n] by (auto simp: inode_bytes_def sizeof_inode_def min_def)

lemma minix_GetInode_spec: "disk_ok d \<Longrightarrow> fits n \<Longrightarrow> minix_GetInode n d = Some (inode_bytes d n)"
  using fits_offset [of n]
  by (simp add: minix_GetInode_def memcpy_spec sizeof_inode_def inode_bytes_def)

lemma inode_fields:
  assumes "disk_ok d" and "fits n"
  shows "i_mode (inode_bytes d n) 0 = Some (inode_mode d n)" and "i_size (inode_bytes d n) 0 = Some (inode_size d n)"
    and "k < 7 \<Longrightarrow> i_zone (inode_bytes d n) 0 k = Some (inode_zone d n k)"
  using length_inode_bytes [OF assms]
  by (simp_all add: i_mode_def i_size_def i_zone_def get_fld16 get_fld32 inode_mode_def inode_size_def inode_zone_def)

section \<open>Paths\<close>

text \<open>The last component of a path, and the directories before it. \<open>resolve\<close> looks the directories up one after the
  other; 0 is the answer for a missing one and for one that is no directory.\<close>

definition path_name :: "u8 list \<Rightarrow> u8 list" where
  "path_name p = rev (takeWhile (\<lambda>c. c \<noteq> 47) (rev p))"

definition path_dirs :: "u8 list \<Rightarrow> u8 list list" where
  "path_dirs p = tokens {47} (rev (tl (dropWhile (\<lambda>c. c \<noteq> 47) (rev p))))"

fun resolve :: "disk \<Rightarrow> u32 \<Rightarrow> u8 list list \<Rightarrow> u32" where
  "resolve d s [] = s"
| "resolve d s (c # cs) =
     (let n = lookup (sector_read s d) c
      in if n = 0 \<or> inode_mode d n AND 0x4000 \<noteq> 0x4000 then 0 else resolve d (ucast (inode_zone d n 0) * 2) cs)"

text \<open>The directories read on the way are sound.\<close>

fun path_ok :: "disk \<Rightarrow> u32 \<Rightarrow> u8 list list \<Rightarrow> bool" where
  "path_ok d s [] \<longleftrightarrow> True"
| "path_ok d s (c # cs) \<longleftrightarrow> dir_ok (sector_read s d) \<and>
     (let n = lookup (sector_read s d) c
      in n \<noteq> 0 \<longrightarrow> fits n \<and> (inode_mode d n AND 0x4000 = 0x4000 \<longrightarrow> path_ok d (ucast (inode_zone d n 0) * 2) cs))"

text \<open>The tokens \<^verbatim>\<open>strtok\<close> still has to deliver.\<close>

fun token_state :: "u8 list list \<Rightarrow> u8 list \<Rightarrow> nat option \<Rightarrow> nat option \<Rightarrow> bool" where
  "token_state [] temp lst token \<longleftrightarrow> token = None"
| "token_state (c # cs) temp lst token \<longleftrightarrow>
     (\<exists>t. token = Some t \<and> terminated (drop t temp) \<and> cstr (drop t temp) = c) \<and>
     (\<exists>lst' token' temp'. strtok lst None temp (c_str ''/'') = Some (token', lst', temp') \<and> token_state cs temp' lst' token')"

lemma slash_str: "terminated (c_str ''/'')" "set (cstr (c_str ''/'')) = {47}"
  by (simp_all add: c_str_def)

lemma token_end_ge: "token_end s D i = Some e \<Longrightarrow> i \<le> e \<and> e < length s"
proof (induction "length s - i" arbitrary: i rule: less_induct)
  case less
  have step: "Suc i \<le> e \<and> e < length s" if "i < length s" "token_end s D (Suc i) = Some e"
    using less.hyps [OF _ that(2)] that(1) by simp
  show ?case
    using less.prems step by (subst (asm) token_end.simps) (auto split: option.splits if_splits)
qed

lemma strtok_terminated:
  assumes "strtok (Some pos) None s D = Some (Some start, lst, s')"
  shows "terminated (drop start s')"
proof -
  obtain en where en: "token_end s D start = Some en" "s' = s[en := 0] \<or> s' = s \<and> s ! en = 0"
    using assms by (auto simp: strtok_def split: bind_splits if_splits)
  then have "start \<le> en" "en < length s" using token_end_ge by auto
  then have "s' ! en = 0" "start \<le> en" "en < length s'" using en(2) by auto
  then have "drop start s' ! (en - start) = 0" "en - start < length (drop start s')" by auto
  then show ?thesis unfolding terminated_def by (metis nth_mem)
qed

lemma token_state_intro:
  assumes "terminated (drop pos s)" and "strtok (Some pos) None s (c_str ''/'') = Some (token, lst, s')"
  shows "token_state (tokens {47} (cstr (drop pos s))) s' lst token"
  using assms
proof (induction "length s - pos" arbitrary: pos s token lst s' rule: less_induct)
  case less
  let ?P = "{47} :: u8 set"
  define r where "r = dropWhile (\<lambda>c. c \<in> ?P) (cstr (drop pos s))"
  note spec = strtok_spec [OF slash_str(1) less.prems(1), unfolded slash_str(2), folded r_def]
  show ?case
  proof (cases "r = []")
    case True
    then have "tokens ?P (cstr (drop pos s)) = []" by (subst tokens.simps) (simp add: r_def Let_def)
    then show ?thesis using spec True less.prems(2) by simp
  next
    case False
    then obtain start where call: "token = Some start" "cstr (drop start s') = takeWhile (\<lambda>c. c \<notin> ?P) r" "length s' = length s"
      "case lst of None \<Rightarrow> dropWhile (\<lambda>c. c \<notin> ?P) r = []
       | Some pos' \<Rightarrow> pos < pos' \<and> terminated (drop pos' s') \<and>
           (\<exists>d\<in>?P. dropWhile (\<lambda>c. c \<notin> ?P) r = d # cstr (drop pos' s'))"
      using spec less.prems(2) by auto
    have tk: "tokens ?P (cstr (drop pos s)) = takeWhile (\<lambda>c. c \<notin> ?P) r # tokens ?P (dropWhile (\<lambda>c. c \<notin> ?P) r)"
      using False by (subst tokens.simps) (simp add: r_def Let_def)
    have "terminated (drop start s')" using strtok_terminated less.prems(2) call(1) by blast
    then have head: "\<exists>t. token = Some t \<and> terminated (drop t s') \<and> cstr (drop t s') = takeWhile (\<lambda>c. c \<notin> ?P) r"
      using call(1,2) by blast
    have "\<exists>lst' token' temp'. strtok lst None s' (c_str ''/'') = Some (token', lst', temp') \<and>
        token_state (tokens ?P (dropWhile (\<lambda>c. c \<notin> ?P) r)) temp' lst' token'"
    proof (cases lst)
      case None
      then have "dropWhile (\<lambda>c. c \<notin> ?P) r = []" using call(4) by simp
      then show ?thesis using None by (simp only: strtok_null tokens_Nil) simp
    next
      case (Some pos')
      then have p: "pos < pos'" "terminated (drop pos' s')"
        and d: "tokens ?P (dropWhile (\<lambda>c. c \<notin> ?P) r) = tokens ?P (cstr (drop pos' s'))"
        using call(4) by (auto simp: tokens_skip)
      have "pos' < length s'" using p(2) by (auto simp: terminated_def intro: ccontr)
      then have less_len: "length s' - pos' < length s - pos" using p(1) call(3) by linarith
      obtain token' lst' temp' where "strtok (Some pos') None s' (c_str ''/'') = Some (token', lst', temp')"
        using strtok_spec [OF slash_str(1) p(2)] by (auto split: if_splits)
      then show ?thesis using less.hyps [OF less_len p(2)] Some d by auto
    qed
    then show ?thesis using head unfolding tk by simp
  qed
qed

lemma path_walk_resolve:
  assumes "disk_ok d"
  shows "token_state cs temp lst token \<Longrightarrow> path_ok d s cs \<Longrightarrow> path_walk d temp lst token s = Some (resolve d s cs)"
proof (induction cs arbitrary: temp lst token s)
  case Nil
  then show ?case by (subst path_walk.simps) simp
next
  case (Cons c cs)
  obtain t lst' token' temp' where tok: "token = Some t" "terminated (drop t temp)" "cstr (drop t temp) = c"
    "strtok lst None temp (c_str ''/'') = Some (token', lst', temp')" "token_state cs temp' lst' token'"
    using Cons.prems(1) by auto
  let ?n = "lookup (sector_read s d) c"
  have dir: "dir_lookup (sector_read s d) (drop t temp) = Some ?n"
    using dir_lookup_spec [of "sector_read s d" "drop t temp"] Cons.prems(2) tok by simp
  show ?case
  proof (cases "?n = 0")
    case True
    then show ?thesis using dir tok by (subst path_walk.simps) simp
  next
    case False
    then have fit: "fits ?n" using Cons.prems(2) by (simp add: Let_def)
    note inode = minix_GetInode_spec [OF assms fit] inode_fields [OF assms fit]
    show ?thesis
    proof (cases "inode_mode d ?n AND 0x4000 = 0x4000")
      case True
      then have "path_walk d temp' lst' token' (ucast (inode_zone d ?n 0) * 2) = Some (resolve d (ucast (inode_zone d ?n 0) * 2) cs)"
        using Cons.IH [OF tok(5)] Cons.prems(2) False by (simp add: Let_def)
      then show ?thesis using dir tok inode True False by (subst path_walk.simps) (simp add: Let_def)
    next
      case no: False
      then show ?thesis using dir tok inode False by (subst path_walk.simps) (simp add: Let_def)
    qed
  qed
qed

text \<open>The name as \<^verbatim>\<open>strncpy\<close> leaves it in the array: 30 bytes, the last two keep their old content.\<close>

definition fname :: "u8 list \<Rightarrow> u8 list \<Rightarrow> u8 list" where
  "fname u nm = take 30 (nm @ replicate 30 0) @ drop 30 u"

lemma fname_cstr:
  assumes "0 \<notin> set nm" and "length nm < 30"
  shows "terminated (fname u nm)" and "cstr (fname u nm) = nm"
proof -
  have e: "fname u nm = nm @ 0 # (replicate (29 - length nm) 0 @ drop 30 u)"
  proof -
    have "30 - length nm = Suc (29 - length nm)" using assms(2) by simp
    then have "replicate (30 - length nm) 0 = (0 :: u8) # replicate (29 - length nm) 0" by (simp only: replicate_Suc)
    then show ?thesis using assms(2) by (simp add: fname_def)
  qed
  show "terminated (fname u nm)" unfolding e by (simp add: terminated_def)
  show "cstr (fname u nm) = nm" unfolding e by (rule cstr_id [OF assms(1)])
qed

lemma last_slash_split:
  assumes "k < length p" and "p ! k = 47" and "\<forall>j. k < j \<and> j < length p \<longrightarrow> p ! j \<noteq> 47"
  shows "path_name p = drop (Suc k) p" and "path_dirs p = tokens {47} (take k p)"
proof -
  have p: "p = take k p @ 47 # drop (Suc k) p" using assms(1,2) by (metis id_take_nth_drop)
  have all: "\<forall>c \<in> set (rev (drop (Suc k) p)). c \<noteq> 47" using assms(3) by (auto simp: in_set_conv_nth)
  have rp: "rev p = rev (drop (Suc k) p) @ 47 # rev (take k p)" by (subst p) simp
  have cut: "takeWhile Q (xs @ 47 # ys) = xs" "dropWhile Q (xs @ 47 # ys) = 47 # ys"
    if "\<forall>c \<in> set xs. Q c" "\<not> Q 47" for Q and xs ys :: "u8 list" using that by (induction xs) auto
  have tw: "takeWhile (\<lambda>c. c \<noteq> 47) (rev p) = rev (drop (Suc k) p)" "dropWhile (\<lambda>c. c \<noteq> 47) (rev p) = 47 # rev (take k p)"
    unfolding rp by (rule cut [OF all], simp)+
  show "path_name p = drop (Suc k) p" and "path_dirs p = tokens {47} (take k p)"
    unfolding path_name_def path_dirs_def tw by simp_all
qed

lemma no_slash_split:
  assumes "47 \<notin> set p"
  shows "path_name p = p" and "path_dirs p = []"
proof -
  have "\<forall>c \<in> set (rev p). c \<noteq> 47" using assms by auto
  then have e: "takeWhile (\<lambda>c. c \<noteq> 47) (rev p) = rev p" "dropWhile (\<lambda>c. c \<noteq> 47) (rev p) = []" by simp_all
  show "path_name p = p" "path_dirs p = []" unfolding path_name_def path_dirs_def e by simp_all
qed

lemma FindSectorOfPathDir_spec:
  assumes d: "disk_ok d" and path: "terminated path" "length (cstr path) < 255" and u: "length u = 32"
    and ok: "path_ok d 438 (path_dirs (cstr path))"
  shows "FindSectorOfPathDir path u d = Some (resolve d 438 (path_dirs (cstr path)), fname u (path_name (cstr path)))"
proof -
  let ?p = "cstr path"
  let ?temp = "?p @ replicate (256 - length ?p) 0"
  have copy: "strncpy (replicate 256 0) path 255 = Some (take 255 (?p @ replicate 255 0) @ [0])"
    by (subst strncpy_spec) (use path in simp_all)
  have temp: "(take 255 (?p @ replicate 255 0) @ [0])[255 := 0] = ?temp"
    using path(2) by (intro nth_equalityI) (auto simp: nth_append nth_list_update)
  have nz: "0 \<notin> set ?p" by (rule cstr_nonzero)
  have zeros: "replicate (256 - length ?p) (0 :: u8) = 0 # replicate (255 - length ?p) 0"
    using path(2) by (simp add: Suc_diff_le flip: replicate_Suc)
  have ct: "cstr ?temp = ?p" "terminated ?temp" using cstr_id [OF nz] by (simp_all add: zeros terminated_def)
  have out: "strncpy u s 30 = Some (fname u (cstr s))" if "terminated s" for s
    using strncpy_spec [of 30 u s] that u by (simp add: fname_def)
  have char: "of_char (CHR ''/'') = (47 :: u8)" by simp
  note F = FindSectorOfPathDir_def [of path u d, unfolded copy bind.bind_lunit Let_def temp char]
  show ?thesis
  proof (cases "47 \<in> set ?p")
    case False
    then have "strrchr ?temp 47 = Some None"
      using strrchr_from_spec [of 0 ?temp 47 None] ct by (simp add: strrchr_def)
    then show ?thesis using no_slash_split [OF False]
      by (simp add: F out [OF path(1)])
  next
    case True
    then obtain k where k: "strrchr ?temp 47 = Some (Some k)" "k < length ?p" "?temp ! k = 47"
      "\<forall>j. k < j \<and> j < length ?p \<longrightarrow> ?temp ! j \<noteq> 47"
      using strrchr_from_spec [of 0 ?temp 47 None] ct by (auto simp: strrchr_def)
    then have pk: "?p ! k = 47" "\<forall>j. k < j \<and> j < length ?p \<longrightarrow> ?p ! j \<noteq> 47" by (auto simp: nth_append)
    note sp = last_slash_split [OF k(2) pk]
    show ?thesis
    proof (cases "k = 0")
      case True
      have "terminated (drop 1 path)" "cstr (drop 1 path) = drop 1 ?p"
        using cstr_drop [of 0 path 1] path(1) k(2) by simp_all
      then show ?thesis using sp True k(1)
        by (simp add: F out)
    next
      case False
      let ?t = "?temp[k := 0]"
      have cut: "cstr ?t = take k ?p" using cstr_cut [of k ?temp] k(2) ct(1) by simp
      have trm: "terminated (drop 0 ?t)" using k(2) by (auto simp: terminated_def in_set_conv_nth intro!: exI [of _ k])
      have rest: "terminated (drop (Suc k) ?t)" "cstr (drop (Suc k) ?t) = drop (Suc k) ?p"
      proof -
        have "drop (Suc k) ?t = drop (Suc k) ?temp" by simp
        moreover have "cstr (drop (0 + Suc k) ?temp) = drop (Suc k) (cstr (drop 0 ?temp))" "terminated (drop (0 + Suc k) ?temp)"
          using cstr_drop [of 0 ?temp "Suc k"] ct k(2) by (simp_all del: drop_append)
        ultimately show "terminated (drop (Suc k) ?t)" "cstr (drop (Suc k) ?t) = drop (Suc k) ?p"
          using ct(1) by (simp_all del: drop_append)
      qed
      obtain token lst temp' where tok: "strtok (Some 0) None ?t (c_str ''/'') = Some (token, lst, temp')"
        using strtok_spec [OF slash_str(1) trm] by (auto split: if_splits)
      then have tok': "strtok None (Some 0) ?t (c_str ''/'') = Some (token, lst, temp')" by (simp add: strtok_def)
      have "token_state (path_dirs ?p) temp' lst token"
        using token_state_intro [OF trm tok] cut sp(2) by simp
      from path_walk_resolve [OF d this ok] show ?thesis
        using k(1) False tok' out [OF rest(1)] rest(2) sp(1)
        by (simp add: F del: drop_append)
    qed
  qed
qed

lemma path_name_nonzero: "0 \<notin> set p \<Longrightarrow> 0 \<notin> set (path_name p)"
  by (auto simp: path_name_def dest!: set_takeWhileD)

text \<open>\<open>names d path s nm\<close>: the path is a terminated string of fewer than 255 characters whose last component \<open>nm\<close> has
  fewer than 30, the directories on the way are sound, and \<open>s\<close> is the sector they lead to (0 for none).\<close>

definition names :: "disk \<Rightarrow> u8 list \<Rightarrow> u32 \<Rightarrow> u8 list \<Rightarrow> bool" where
  "names d path s nm \<longleftrightarrow> terminated path \<and> length (cstr path) < 255 \<and> nm = path_name (cstr path) \<and> length nm < 30 \<and>
     path_ok d 438 (path_dirs (cstr path)) \<and> s = resolve d 438 (path_dirs (cstr path)) \<and>
     (s \<noteq> 0 \<longrightarrow> dir_ok (sector_read s d))"

lemma names_find:
  assumes "disk_ok d" and "names d path s nm" and "length u = 32"
  shows "FindSectorOfPathDir path u d = Some (s, fname u nm)"
    and "FindEntry u path d = Some (if s = 0 then 0 else lookup (sector_read s d) nm)"
    and "terminated (fname u nm)" and "cstr (fname u nm) = nm"
proof -
  have n: "terminated path" "length (cstr path) < 255" "nm = path_name (cstr path)" "length nm < 30"
    "path_ok d 438 (path_dirs (cstr path))" "s = resolve d 438 (path_dirs (cstr path))" "s \<noteq> 0 \<longrightarrow> dir_ok (sector_read s d)"
    using assms(2) unfolding names_def by blast+
  show F: "FindSectorOfPathDir path u d = Some (s, fname u nm)"
    unfolding n(3,6) by (rule FindSectorOfPathDir_spec [OF assms(1) n(1,2) assms(3) n(5)])
  have "0 \<notin> set nm" using path_name_nonzero cstr_nonzero n(3) by blast
  then show c: "terminated (fname u nm)" "cstr (fname u nm) = nm" using fname_cstr n(4) by blast+
  show "FindEntry u path d = Some (if s = 0 then 0 else lookup (sector_read s d) nm)"
    using F n(7) c by (simp add: FindEntry_def dir_lookup_spec)
qed

end
