(* ===== verification/MinixFile.thy ===== *)
theory MinixFile
  imports MinixDir
begin

text \<open>
  What the operations on files do: creating, deleting, reading and writing, on the level of directory
  entries, inodes and bitmaps.
\<close>

section \<open>Sectors\<close>

lemma mask28: "(l :: u32) < 0x10000000 \<Longrightarrow> l AND 0x0FFFFFFF = l"
proof -
  assume "l < 0x10000000"
  then have "l AND mask 28 = l" by (intro less_mask_eq) simp
  moreover have "mask 28 = (0x0FFFFFFF :: u32)" by (simp add: mask_eq_exp_minus_1)
  ultimately show ?thesis by simp
qed

lemma read_write_same [simp]: "sector_read l (sector_write l b d) = b"
  by (simp add: sector_read_def sector_write_def)

lemma read_write_other: "l < 0x10000000 \<Longrightarrow> l' < 0x10000000 \<Longrightarrow> l \<noteq> l' \<Longrightarrow> sector_read l (sector_write l' b d) = sector_read l d"
  by (simp add: sector_read_def sector_write_def mask28)

lemma write_other: "l' < 0x10000000 \<Longrightarrow> l \<noteq> l' \<Longrightarrow> sector_write l' b d l = d l"
  by (simp add: sector_write_def mask28)

lemma unat_zone_sector: "unat (ucast (z :: u16) * 2 :: u32) = 2 * unat z"
proof -
  have "unat z < 65536" using unsigned_less [of z] by simp
  then have "2 * unat z < 4294967296" by linarith
  then show ?thesis by (simp add: unat_word_ariths mult.commute)
qed

lemma zone_small: "ucast (z :: u16) * 2 < (0x10000000 :: u32)"
proof -
  have "unat z < 65536" using unsigned_less [of z] by simp
  then have "2 * unat z < 0x10000000" by linarith
  then show ?thesis unfolding word_less_nat_alt unat_zone_sector by simp
qed

lemma unat_inode_sector: "unat (inode_sector n) = 10 + (unat n - 1) div 16 \<and> (unat n - 1) div 16 < 4096"
proof -
  have "unat n < 65536" using unsigned_less [of n] by simp
  then have lt: "(unat n - 1) div 16 < 4096" by (intro less_mult_imp_div_less) linarith
  then have "10 + (unat n - 1) div 16 < 2 ^ 32" by (rule less_trans [OF add_strict_left_mono]) simp
  then show ?thesis unfolding inode_sector_def using lt by (subst unat_of_nat_small) simp_all
qed

lemma inode_sector_small: "inode_sector n < 0x10000000" and inode_sector_ge: "10 \<le> inode_sector n"
  using unat_inode_sector [of n] by (simp_all only: word_less_nat_alt word_le_nat_alt) simp_all

lemma resolve_small: "s < 0x10000000 \<Longrightarrow> resolve d s cs < 0x10000000"
  by (induction cs arbitrary: s) (simp_all add: Let_def zone_small)

lemma names_small: "names d path s nm \<Longrightarrow> s < 0x10000000"
  using resolve_small [of 438 d "path_dirs (cstr path)"] by (auto simp: names_def)

section \<open>Writing directory entries\<close>

definition with_entry :: "u8 list \<Rightarrow> nat \<Rightarrow> u16 \<Rightarrow> u8 list \<Rightarrow> u8 list" where
  "with_entry b i n nm = take (32 * i) b @ le_bytes 2 n @ take 30 (nm @ replicate 30 0) @ drop (32 * i + 32) b"

lemma length_with_entry [simp]: "length b = 512 \<Longrightarrow> i < 16 \<Longrightarrow> length (with_entry b i n nm) = 512"
  by (simp add: with_entry_def)

lemma set_entry_spec:
  assumes "length b = 512" and "i < 16" and "terminated name"
  shows "\<exists>b1. set_entry_inode b i n = Some b1 \<and> set_entry_name b1 i name = Some (with_entry b i n (cstr name)) \<and>
    clear_entry_name b1 i = Some (with_entry b i n [])"
proof -
  let ?b1 = "take (32 * i) b @ le_bytes 2 n @ drop (32 * i + 2) b"
  have one: "set_entry_inode b i n = Some ?b1"
    using assms(1,2) by (simp add: set_entry_inode_def put16_def buf_put_def)
  have len: "length ?b1 = 512" using assms(1,2) by simp
  have tk: "take (32 * i + 2) ?b1 = take (32 * i) b @ le_bytes 2 n" and dr: "drop (32 * i + 2) ?b1 = drop (32 * i + 2) b"
    using assms(1,2) by simp_all
  have "strncpy (drop (32 * i + 2) b) name 30 = Some (take 30 (cstr name @ replicate 30 0) @ drop (32 * i + 32) b)"
    using assms by (subst strncpy_spec) (simp_all add: add.commute)
  then have two: "set_entry_name ?b1 i name = Some (with_entry b i n (cstr name))"
    unfolding set_entry_name_def entry_name_def tk dr by (simp add: with_entry_def)
  have "drop (32 * i + 2 + 30) ?b1 = drop (32 * i + 32) b" using assms(1,2) by (simp add: add.commute)
  then have "clear_entry_name ?b1 i = Some (with_entry b i n [])"
    unfolding clear_entry_name_def using memset_spec [of "32 * i + 2" 30 ?b1 0] len assms(2) tk by (simp add: with_entry_def)
  then show ?thesis using one two by blast
qed

lemma slice_take: "j + k \<le> m \<Longrightarrow> m \<le> length b \<Longrightarrow> take k (drop j (take m b @ r)) = take k (drop j b)"
  by (rule nth_equalityI) (auto simp: nth_append)

lemma slice_drop: "length a \<le> j \<Longrightarrow> take k (drop j (a @ r)) = take k (drop (j - length a) r)"
  by simp

lemma with_entry_other:
  assumes "length b = 512" and "i < 16" and "j < 16" and "j \<noteq> i" and "o' + k \<le> 32"
  shows "take k (drop (32 * j + o') (with_entry b i n nm)) = take k (drop (32 * j + o') b)"
proof (cases "j < i")
  case True
  then have "32 * j + o' + k \<le> 32 * i" using assms(5) by simp
  then show ?thesis unfolding with_entry_def using assms by (intro slice_take) simp_all
next
  case False
  then have le: "32 * i + 32 \<le> 32 * j + o'" using assms(4) by simp
  have "with_entry b i n nm = (take (32 * i) b @ le_bytes 2 n @ take 30 (nm @ replicate 30 0)) @ drop (32 * i + 32) b"
    by (simp add: with_entry_def)
  then show ?thesis using le assms(1,2) by (auto simp: min_def)
qed

lemma with_entry_same:
  assumes "length b = 512" and "i < 16"
  shows "take 2 (drop (32 * i) (with_entry b i n nm)) = le_bytes 2 n"
    and "take 30 (drop (32 * i + 2) (with_entry b i n nm)) = take 30 (nm @ replicate 30 0)"
  using assms by (simp_all add: with_entry_def)

lemma take30_cstr: "0 \<notin> set nm \<Longrightarrow> length nm < 30 \<Longrightarrow> terminated (take 30 (nm @ replicate 30 0)) \<and> cstr (take 30 (nm @ replicate 30 0)) = nm"
  using fname_cstr [of nm "[]"] by (simp add: fname_def)

lemma ino_with_entry: "length b = 512 \<Longrightarrow> i < 16 \<Longrightarrow> j < 16 \<Longrightarrow> ino (with_entry b i n nm) j = (if j = i then n else ino b j)"
  using with_entry_same(1) [of b i n nm] with_entry_other [of b i j 0 2 n nm] by (simp add: ino_def)

lemma ename_with_entry:
  assumes "length b = 512" and "i < 16" and "j < 16" and "0 \<notin> set nm" and "length nm < 30"
  shows "ename (with_entry b i n nm) j = (if j = i then nm else ename b j)"
  using with_entry_same(2) [OF assms(1,2), of n nm] with_entry_other [OF assms(1-3), of 2 30 n nm] take30_cstr [OF assms(4,5)]
  by (simp add: ename_def entry_name_def)

lemma dir_ok_with_entry:
  assumes "dir_ok b" and "i < 16" and "0 \<notin> set nm" and "length nm < 30"
  shows "dir_ok (with_entry b i n nm)"
proof -
  have b: "length b = 512" using assms(1) by (simp add: dir_ok_def)
  have "terminated (take 30 (entry_name (with_entry b i n nm) j))" if "j < 16" "ino (with_entry b i n nm) j \<noteq> 0" for j
    using with_entry_same(2) [OF b assms(2), of n nm] with_entry_other [OF b assms(2) that(1), of 2 30 n nm]
      take30_cstr [OF assms(3,4)] that(2) assms(1) ino_with_entry [OF b assms(2) that(1), of n nm] \<open>j < 16\<close>
    by (cases "j = i") (simp_all add: entry_name_def dir_ok_def)
  then show ?thesis using b assms(2) by (simp add: dir_ok_def)
qed

definition free_slot :: "u8 list \<Rightarrow> nat option" where
  "free_slot b = find (\<lambda>i. ino b i = 0) [0..<16]"

lemma free_slot_Some: "free_slot b = Some i \<Longrightarrow> i < 16 \<and> ino b i = 0"
  by (auto simp: free_slot_def find_upt_Some)

lemma find_name_Some: "find_name b x = Some i \<Longrightarrow> i < 16 \<and> ino b i \<noteq> 0 \<and> ename b i = x"
  by (auto simp: find_name_def find_upt_Some)

text \<open>Looking up after a free slot has got a new name, and after an entry has been cleared.\<close>

lemma lookup_enter:
  assumes b: "length b = 512" and i: "i < 16" "ino b i = 0" and nm: "0 \<notin> set nm" "length nm < 30" and new: "lookup b nm = 0" and n: "n \<noteq> 0"
  shows "lookup (with_entry b i n nm) x = (if x = nm then n else lookup b x)"
proof -
  let ?b = "with_entry b i n nm"
  note simps = ino_with_entry [OF b i(1)] ename_with_entry [OF b i(1) _ nm]
  show ?thesis
  proof (cases "x = nm")
    case True
    have none: "find_name b nm = None" using new find_name_Some by (fastforce simp: lookup_def split: option.splits)
    have "find_name ?b nm = Some i"
      using none i n by (auto simp: find_name_def find_upt_Some find_upt_None simps)
    then show ?thesis using True simps i by (simp add: lookup_def)
  next
    case False
    have "find_name ?b x = find_name b x"
      unfolding find_name_def using False i(2) by (intro find_cong) (auto simp: simps)
    moreover have "ino ?b j = ino b j" if "find_name b x = Some j" for j
      using find_name_Some [OF that] i(2) by (auto simp: simps)
    ultimately show ?thesis using False by (simp add: lookup_def split: option.split)
  qed
qed

lemma lookup_remove:
  assumes b: "length b = 512" and i: "i < 16" and x: "x \<noteq> ename b i"
  shows "lookup (with_entry b i 0 []) x = lookup b x"
proof -
  note simps = ino_with_entry [OF b i] ename_with_entry [OF b i]
  have "find_name (with_entry b i 0 []) x = find_name b x"
    unfolding find_name_def using x by (intro find_cong) (auto simp: simps)
  moreover have "ino (with_entry b i 0 []) j = ino b j" if "find_name b x = Some j" for j
    using find_name_Some [OF that] x by (auto simp: simps)
  ultimately show ?thesis by (simp add: lookup_def split: option.split)
qed

lemma enter_name_spec:
  assumes "disk_ok d" and "terminated filename"
  shows "enter_name s n filename d =
    (case free_slot (sector_read s d) of
       None \<Rightarrow> Some (err ENOSPC, d)
     | Some i \<Rightarrow> Some (0, sector_write s (with_entry (sector_read s d) i n (cstr filename)) d))"
proof (cases "free_slot (sector_read s d)")
  case None
  then show ?thesis using assms(1) by (simp add: enter_name_def Let_def dir_inode_spec free_slot_def)
next
  case (Some i)
  then have "i < 16" using free_slot_Some by blast
  then show ?thesis using Some assms set_entry_spec [of "sector_read s d" i filename n]
    by (auto simp: enter_name_def Let_def dir_inode_spec free_slot_def)
qed

lemma remove_entry_spec:
  assumes "disk_ok d" and "i < 16"
  shows "remove_entry s i d = Some (sector_write s (with_entry (sector_read s d) i 0 []) d)"
  using set_entry_spec [of "sector_read s d" i "[0]" 0] assms by (auto simp: remove_entry_def)

section \<open>Writing inodes\<close>

definition inode_image :: "u16 \<Rightarrow> u32 \<Rightarrow> u8 \<Rightarrow> u8 list" where
  "inode_image mode sz nlinks =
     le_bytes 2 mode @ replicate 2 0 @ le_bytes 4 sz @ replicate 5 0 @ le_bytes 1 nlinks @ replicate 20 0"

definition put_inode :: "u8 list \<Rightarrow> nat \<Rightarrow> u8 list \<Rightarrow> u8 list" where
  "put_inode b p img = take p b @ img @ drop (p + 34) b"

lemma length_inode_image [simp]: "length (inode_image mode sz nlinks) = 34"
  by (simp add: inode_image_def)

lemma length_put_inode [simp]: "length b = 512 \<Longrightarrow> p + 34 \<le> 512 \<Longrightarrow> length img = 34 \<Longrightarrow> length (put_inode b p img) = 512"
  by (simp add: put_inode_def)

lemma buf_put_inside:
  assumes "q + length ys \<le> length x" and "p = length a + q"
  shows "buf_put (a @ x @ c) p ys = Some (a @ (take q x @ ys @ drop (q + length ys) x) @ c)"
  using assms by (simp add: buf_put_def)

lemma fresh_inode_spec:
  assumes "length b = 512" and "p + 34 \<le> 512"
  shows "fresh_inode b p mode sz nlinks = Some (put_inode b p (inode_image mode sz nlinks))"
proof -
  let ?a = "take p b" and ?c = "drop (p + 34) b"
  have a: "length ?a = p" using assms by simp
  have "memset b p 0 sizeof_inode = Some (?a @ replicate 34 0 @ ?c)"
    using assms by (simp add: memset_spec sizeof_inode_def)
  moreover have "put16 (?a @ replicate 34 0 @ ?c) p mode = Some (?a @ (le_bytes 2 mode @ replicate 32 0) @ ?c)"
    unfolding put16_def by (subst buf_put_inside [of 0]) (use a in simp_all)
  moreover have "put32 (?a @ (le_bytes 2 mode @ replicate 32 0) @ ?c) (p + 4) sz =
      Some (?a @ (le_bytes 2 mode @ replicate 2 0 @ le_bytes 4 sz @ replicate 26 0) @ ?c)"
    unfolding put32_def by (subst buf_put_inside [of 4]) (use a in simp_all)
  moreover have "put8 (?a @ (le_bytes 2 mode @ replicate 2 0 @ le_bytes 4 sz @ replicate 26 0) @ ?c) (p + 13) nlinks =
      Some (?a @ inode_image mode sz nlinks @ ?c)"
    unfolding put8_def by (subst buf_put_inside [of 13]) (use a in \<open>simp_all add: inode_image_def\<close>)
  ultimately show ?thesis by (simp add: fresh_inode_def put_inode_def)
qed

lemma inode_written:
  assumes "length b = 512" and "fits n" and "length img = 34"
  shows "inode_bytes (sector_write (inode_sector n) (put_inode b (inode_offset n) img) d) n = img"
  using assms fits_offset [OF assms(2)] by (simp add: inode_bytes_def put_inode_def sizeof_inode_def)

lemma fld16_image: "fld16 (inode_image mode sz nlinks) 0 = mode"
  by (simp add: fld16_def inode_image_def)

lemma fld32_image: "fld32 (inode_image mode sz nlinks) 4 = sz"
  by (simp add: fld32_def inode_image_def)

lemma zone_image: "k < 7 \<Longrightarrow> fld16 (inode_image mode sz nlinks) (14 + 2 * k) = 0"
proof -
  assume k: "k < 7"
  have "drop (14 + 2 * k) (inode_image mode sz nlinks) = replicate (20 - 2 * k) 0" using k by (simp add: inode_image_def)
  then show ?thesis by (simp add: fld16_def)
qed

lemma next_inode:
  assumes "fits n" and "n < 0xFFFF"
  shows "inode_sector (n + 1) = inode_sector n" and "inode_offset (n + 1) = inode_offset n + 32"
proof -
  have n: "unat n mod 16 \<noteq> 0" using assms(1) by (simp add: fits_def)
  have "unat n < 0xFFFF" using assms(2) by (simp add: word_less_nat_alt)
  then have u: "unat (n + 1) = unat n + 1" by (subst unat_plus_small) simp_all
  have q: "(m - 1) div 16 = m div 16 \<and> m mod 16 = Suc ((m - 1) mod 16)" if "m mod 16 \<noteq> 0" for m :: nat
    using that by (cases m) (auto simp: mod_Suc div_Suc split: if_splits)
  have "unat n \<noteq> 0" using n by (intro notI) simp
  then have "n \<noteq> 0" by (simp add: unat_eq_0)
  moreover have "n + 1 \<noteq> 0" using u by (metis add_is_0 one_neq_zero unat_0)
  ultimately show "inode_sector (n + 1) = inode_sector n" "inode_offset (n + 1) = inode_offset n + 32"
    using q [OF n] u by (simp_all add: inode_sector_def inode_offset_def)
qed

text \<open>The last two of the 34 bytes are the mode of the next inode.\<close>

lemma next_mode:
  assumes "length b = 512" and "fits n" and "n < 0xFFFF" and "length img = 34"
  shows "inode_mode (sector_write (inode_sector n) (put_inode b (inode_offset n) img) d) (n + 1) = le_word (drop 32 img)"
proof -
  note nx = next_inode [OF assms(2,3)]
  have off: "inode_offset n + 64 \<le> 512" using fits_offset [OF assms(2)] by simp
  have "take 2 (take 34 (drop (inode_offset n + 32) (put_inode b (inode_offset n) img))) = drop 32 img"
    using assms(1,4) off by (simp add: put_inode_def min_def)
  then show ?thesis by (simp add: inode_mode_def inode_bytes_def nx sizeof_inode_def fld16_def)
qed

section \<open>Allocating inodes\<close>

lemma AllocateInode_spec:
  assumes "disk_ok d"
  shows "minix_AllocateInode d =
    (case find_clear (sector_read 2 d) 2 4096 of None \<Rightarrow> (0, d)
     | Some k \<Rightarrow> (of_nat (k + 1), sector_write 2 (SET_BIT (sector_read 2 d) k) d))"
  using assms inode_scan(1) [of "sector_read 2 d"] by (simp add: minix_AllocateInode_def INODE_BITMAP_LBA_def split: option.split)

lemma allocate_zone_spec:
  assumes "disk_ok d"
  shows "allocate_zone d = map_option (\<lambda>k. (of_nat k, sector_write 3 (SET_BIT (sector_read 3 d) k) d)) (find_clear (sector_read 3 d) 0 4096)"
  using assms inode_scan(2) [of "sector_read 3 d"] by (simp add: allocate_zone_def Let_def split: option.split)

lemma clear_bit_in_spec:
  "disk_ok d \<Longrightarrow> n < 4096 \<Longrightarrow> clear_bit_in l n d = Some (sector_write l (CLEAR_BIT (sector_read l d) n) d)"
  by (simp add: clear_bit_in_def Let_def less_mult_imp_div_less)

lemma unat_new_inode: "k < 4096 \<Longrightarrow> unat (of_nat (k + 1) :: u16) = k + 1"
  by (intro unat_of_nat_small) simp

lemma CLEAR_SET_BIT:
  assumes "k < 8 * length bm" and "\<not> TEST_BIT bm k"
  shows "CLEAR_BIT (SET_BIT bm k) k = bm"
proof -
  let ?x = "bm ! (k div 8)" and ?m = "push_bit (k mod 8) 1 :: u8"
  have "(x OR m) AND NOT m = x" if "x AND m = 0" for x m :: u8
  proof (rule bit_eqI)
    fix j
    assume "possible_bit TYPE(8 word) j"
    have "\<not> bit (x AND m) j" using that by simp
    then show "bit ((x OR m) AND NOT m) j = bit x j" using \<open>possible_bit _ j\<close> by (auto simp: bit_and_iff bit_or_iff bit_not_iff)
  qed
  moreover have "?x AND ?m = 0" using assms(2) by (simp add: TEST_BIT_def)
  ultimately have "(?x OR ?m) AND NOT ?m = ?x" by blast
  moreover have "k div 8 < length bm" using assms(1) by (simp add: less_mult_imp_div_less mult.commute)
  ultimately show ?thesis by (simp add: CLEAR_BIT_def SET_BIT_def)
qed

text \<open>Allocation and release of inodes. \<^verbatim>\<open>minix_AllocateInode\<close> finds the lowest clear bit above the
  first two, sets exactly that bit and answers the number one above it, or 0 when there is none, with the disk unchanged;
  \<^verbatim>\<open>minix_FreeInode\<close> of the number restores the disk.\<close>

lemma alloc_free_inode:
  assumes "disk_ok d"
  shows "case find_clear (sector_read 2 d) 2 4096 of
      None \<Rightarrow> minix_AllocateInode d = (0, d)
    | Some k \<Rightarrow> (\<exists>d'. minix_AllocateInode d = (of_nat (k + 1), d') \<and> d' = d(2 := SET_BIT (d 2) k) \<and>
        minix_FreeInode (of_nat (k + 1)) d' = Some d)"
proof (cases "find_clear (sector_read 2 d) 2 4096")
  case None
  then show ?thesis using AllocateInode_spec [OF assms] by simp
next
  case (Some k)
  then have k: "k < 4096" "\<not> TEST_BIT (sector_read 2 d) k" by (auto simp: find_clear_Some)
  let ?d = "sector_write 2 (SET_BIT (sector_read 2 d) k) d"
  have ok: "disk_ok ?d" using assms by (simp add: disk_ok_write)
  have two: "sector_read 2 x = x 2" "sector_write 2 y x = x(2 := y)" for x y by (simp_all add: sector_read_def sector_write_def)
  have "of_nat (k + 1) \<noteq> (0 :: u16)" using unat_new_inode [OF k(1)] by (metis add_is_0 one_neq_zero unat_0)
  moreover have "CLEAR_BIT (SET_BIT (d 2) k) k = d 2"
    using k assms by (intro CLEAR_SET_BIT) (simp_all add: two disk_ok_def)
  ultimately have "minix_FreeInode (of_nat (k + 1)) ?d = Some d"
    using clear_bit_in_spec [OF ok, of k 2] k(1) unat_new_inode [OF k(1)]
    by (simp add: minix_FreeInode_def INODE_BITMAP_LBA_def two)
  then show ?thesis using Some AllocateInode_spec [OF assms] by (simp add: two)
qed

section \<open>Creating a file\<close>

definition with_new_inode :: "disk \<Rightarrow> nat \<Rightarrow> u16 \<Rightarrow> disk" where
  "with_new_inode d k n = sector_write (inode_sector n)
     (put_inode (sector_read (inode_sector n) d) (inode_offset n) (inode_image 0x81ED 0 1))
     (sector_write 2 (SET_BIT (sector_read 2 d) k) d)"

lemma low_sectors: "inode_sector n \<noteq> 2" "inode_sector n \<noteq> 3" "2 < (0x10000000 :: u32)" "3 < (0x10000000 :: u32)"
  using inode_sector_ge [of n] by (auto simp: word_le_nat_alt)

lemma CreateFile_spec:
  assumes d: "disk_ok d" and path: "names d path s nm" and u: "length u = 32" and s: "s \<noteq> 0"
    and new: "lookup (sector_read s d) nm = 0"
    and k: "find_clear (sector_read 2 d) 2 4096 = Some k" and n: "n = of_nat (k + 1)" and fit: "fits n"
    and sec: "s \<noteq> 2" "s \<noteq> inode_sector n"
  shows "disk_ok (with_new_inode d k n)" and "sector_read s (with_new_inode d k n) = sector_read s d"
    and "minix_CreateFile u path d =
    (case free_slot (sector_read s d) of
       None \<Rightarrow> Some (err ENOSPC, with_new_inode d k n)
     | Some i \<Rightarrow> Some (0, sector_write s (with_entry (sector_read s d) i n nm) (with_new_inode d k n)))"
proof -
  let ?d1 = "sector_write 2 (SET_BIT (sector_read 2 d) k) d" and ?d2 = "with_new_inode d k n"
  note off = fits_offset [OF fit]
  have d1: "disk_ok ?d1" using d by (simp add: disk_ok_write)
  have same: "sector_read (inode_sector n) ?d1 = sector_read (inode_sector n) d"
    using low_sectors by (intro read_write_other inode_sector_small) auto
  show d2: "disk_ok ?d2" unfolding with_new_inode_def using d d1 off by (intro disk_ok_write) simp_all
  show b: "sector_read s ?d2 = sector_read s d"
    using sec names_small [OF path] low_sectors inode_sector_small by (simp add: with_new_inode_def read_write_other)
  have fresh: "fresh_inode (sector_read (inode_sector n) d) (inode_offset n) 0x81ED 0 1 =
      Some (put_inode (sector_read (inode_sector n) d) (inode_offset n) (inode_image 0x81ED 0 1))"
    using d off by (intro fresh_inode_spec) simp_all
  have alloc: "minix_AllocateInode d = (n, ?d1)" using AllocateInode_spec [OF d] k n by simp
  note f = names_find [OF d path u]
  have "minix_CreateFile u path d = enter_name s n (fname u nm) ?d2"
    using f(1,2) new s off alloc same fresh by (simp add: minix_CreateFile_def Let_def with_new_inode_def)
  then show "minix_CreateFile u path d =
    (case free_slot (sector_read s d) of
       None \<Rightarrow> Some (err ENOSPC, ?d2)
     | Some i \<Rightarrow> Some (0, sector_write s (with_entry (sector_read s d) i n nm) ?d2))"
    using enter_name_spec [OF d2 f(3), of s n] f(4) b by (simp split: option.split)
qed

lemma CreateFile_errors:
  assumes d: "disk_ok d" and path: "names d path s nm" and u: "length u = 32"
  shows "s = 0 \<Longrightarrow> minix_CreateFile u path d = Some (err ENOENT, d)"
    and "s \<noteq> 0 \<Longrightarrow> lookup (sector_read s d) nm \<noteq> 0 \<Longrightarrow> minix_CreateFile u path d = Some (err EEXIST, d)"
    and "s \<noteq> 0 \<Longrightarrow> lookup (sector_read s d) nm = 0 \<Longrightarrow> find_clear (sector_read 2 d) 2 4096 = None \<Longrightarrow>
      minix_CreateFile u path d = Some (err ENOSPC, d)"
  using names_find(1,2) [OF d path u] AllocateInode_spec [OF d] by (simp_all add: minix_CreateFile_def Let_def)

lemma new_inode_number: "find_clear bm 2 4096 = Some k \<Longrightarrow> k < 4096 \<and> 2 \<le> k \<and> unat (of_nat (k + 1) :: u16) = k + 1 \<and>
    (of_nat (k + 1) :: u16) < 0xFFFF \<and> of_nat (k + 1) \<noteq> (0 :: u16)"
proof -
  assume "find_clear bm 2 4096 = Some k"
  then have k: "k < 4096" "2 \<le> k" by (auto simp: find_clear_Some)
  moreover note unat_new_inode [OF k(1)]
  moreover from this have "of_nat (k + 1) \<noteq> (0 :: u16)" by (metis add_is_0 one_neq_zero unat_0)
  ultimately show ?thesis using k by (simp add: word_less_nat_alt)
qed

lemma put_inode_write:
  assumes "disk_ok d" and "fits n" and "length img = 34" and "n < 0xFFFF"
  defines "d' \<equiv> sector_write (inode_sector n) (put_inode (sector_read (inode_sector n) d) (inode_offset n) img) d"
  shows "inode_bytes d' n = img" and "inode_mode d' (n + 1) = le_word (drop 32 img)"
  unfolding d'_def using assms(1-4) by (auto intro!: inode_written next_mode)

lemma created_file:
  assumes d: "disk_ok d" and path: "names d path s nm" and u: "length u = 32" and s: "s \<noteq> 0"
    and new: "lookup (sector_read s d) nm = 0"
    and k: "find_clear (sector_read 2 d) 2 4096 = Some k" and n: "n = of_nat (k + 1)" and fit: "fits n"
    and sec: "s \<noteq> 2" "s \<noteq> inode_sector n" and slot: "free_slot (sector_read s d) = Some i"
  shows "\<exists>d'. minix_CreateFile u path d = Some (0, d') \<and> disk_ok d' \<and> dir_ok (sector_read s d') \<and>
    sector_read 2 d' = SET_BIT (sector_read 2 d) k \<and>
    inode_mode d' n = 0x81ED \<and> inode_size d' n = 0 \<and> (\<forall>z < 7. inode_zone d' n z = 0) \<and>
    (\<forall>x. lookup (sector_read s d') x = (if x = nm then n else lookup (sector_read s d) x)) \<and>
    (\<forall>l. l \<notin> {2, inode_sector n, s} \<longrightarrow> d' l = d l) \<and>
    inode_mode d' (n + 1) = 0"
proof -
  let ?d1 = "with_new_inode d k n" and ?b = "sector_read s d"
  let ?d' = "sector_write s (with_entry ?b i n nm) ?d1"
  note c = CreateFile_spec [OF d path u s new k n fit sec]
  note nn = new_inode_number [OF k, folded n]
  have sm: "s < 0x10000000" by (rule names_small [OF path])
  have dir: "dir_ok ?b" "nm = path_name (cstr path)" "length nm < 30" using path s unfolding names_def by blast+
  have b: "length ?b = 512" using d by simp
  have nm: "0 \<notin> set nm" unfolding dir(2) by (rule path_name_nonzero [OF cstr_nonzero])
  have i: "i < 16" "ino ?b i = 0" using free_slot_Some [OF slot] by auto
  have run: "minix_CreateFile u path d = Some (0, ?d')" using c(3) slot by simp
  have ok: "disk_ok ?d'" using c(1) b i by (simp add: disk_ok_write)
  have isec: "sector_read (inode_sector n) ?d' = sector_read (inode_sector n) ?d1"
    using sec sm inode_sector_small by (intro read_write_other) auto
  let ?d0 = "sector_write 2 (SET_BIT (sector_read 2 d) k) d"
  have d0: "disk_ok ?d0" using d by (simp add: disk_ok_write)
  have same: "sector_read (inode_sector n) ?d0 = sector_read (inode_sector n) d"
    using low_sectors by (intro read_write_other inode_sector_small) auto
  note w = put_inode_write [OF d0 fit length_inode_image [of "0x81ED" 0 1], unfolded same]
  have img: "inode_bytes ?d' n = inode_image 0x81ED 0 1" "inode_mode ?d' (n + 1) = le_word (drop 32 (inode_image 0x81ED 0 1))"
    using w nn isec next_inode(1) [OF fit] by (simp_all add: inode_bytes_def inode_mode_def with_new_inode_def)
  have "sector_read 2 ?d' = sector_read 2 ?d1" using sec sm low_sectors by (intro read_write_other) auto
  also have "\<dots> = SET_BIT (sector_read 2 d) k"
    using low_sectors inode_sector_small by (simp add: with_new_inode_def read_write_other)
  finally have two: "sector_read 2 ?d' = SET_BIT (sector_read 2 d) k" .
  have look: "lookup (sector_read s ?d') x = (if x = nm then n else lookup ?b x)" for x
    using lookup_enter [OF b i nm dir(3) new] nn by simp
  have frame: "?d' l = d l" if "l \<notin> {2, inode_sector n, s}" for l
    using that sm low_sectors inode_sector_small by (simp add: with_new_inode_def write_other)
  have "drop 32 (inode_image 0x81ED 0 1) = replicate 2 0" by (simp add: inode_image_def)
  then show ?thesis
    using run ok dir_ok_with_entry [OF dir(1) i(1) nm dir(3), of n] two img look frame
    by (intro exI [of _ ?d']) (simp add: inode_mode_def inode_size_def inode_zone_def fld16_image fld32_image zone_image)
qed

lemma created_inode_sector:
  assumes d: "disk_ok d" and path: "names d path s nm" and u: "length u = 32" and s: "s \<noteq> 0"
    and new: "lookup (sector_read s d) nm = 0"
    and k: "find_clear (sector_read 2 d) 2 4096 = Some k" and n: "n = of_nat (k + 1)" and fit: "fits n"
    and sec: "s \<noteq> 2" "s \<noteq> inode_sector n" and slot: "free_slot (sector_read s d) = Some i"
    and run: "minix_CreateFile u path d = Some (0, d')"
  shows "sector_read (inode_sector n) d' =
      put_inode (sector_read (inode_sector n) d) (inode_offset n) (inode_image 0x81ED 0 1)"
    and "sector_read s d' = with_entry (sector_read s d) i n nm"
proof -
  note c = CreateFile_spec [OF d path u s new k n fit sec]
  have sm: "s < 0x10000000" by (rule names_small [OF path])
  have d': "d' = sector_write s (with_entry (sector_read s d) i n nm) (with_new_inode d k n)" using c(3) slot run by simp
  show "sector_read (inode_sector n) d' =
      put_inode (sector_read (inode_sector n) d) (inode_offset n) (inode_image 0x81ED 0 1)"
    unfolding d' using sec sm inode_sector_small by (simp add: read_write_other with_new_inode_def)
  show "sector_read s d' = with_entry (sector_read s d) i n nm" unfolding d' by simp
qed

lemma CreateFile_enters:
  assumes "disk_ok d" and "names d path s nm" and "length u = 32"
    and "s \<noteq> 0" and "lookup (sector_read s d) nm = 0" and "find_clear (sector_read 2 d) 2 4096 = Some k" and "n = of_nat (k + 1)"
    and "fits n" and "s \<noteq> 2" and "s \<noteq> inode_sector n"
  shows "\<exists>d'. sector_read 2 d' = SET_BIT (sector_read 2 d) k \<and>
    (case free_slot (sector_read s d) of
       None \<Rightarrow> minix_CreateFile u path d = Some (err ENOSPC, d')
     | Some i \<Rightarrow> minix_CreateFile u path d = Some (0, d') \<and>
         inode_mode d' n = 0x81ED \<and> inode_size d' n = 0 \<and> (\<forall>z < 7. inode_zone d' n z = 0) \<and>
         (\<forall>x. lookup (sector_read s d') x = (if x = nm then n else lookup (sector_read s d) x)) \<and>
         (\<forall>l. l \<notin> {2, inode_sector n, s} \<longrightarrow> d' l = d l) \<and> inode_mode d' (n + 1) = 0)"
proof (cases "free_slot (sector_read s d)")
  case None
  have "sector_read 2 (with_new_inode d k n) = SET_BIT (sector_read 2 d) k"
    using low_sectors inode_sector_small by (simp add: with_new_inode_def read_write_other)
  then show ?thesis using CreateFile_spec(3) [OF assms] None by auto
next
  case (Some i)
  from created_file [OF assms Some] obtain d' where d':
    "minix_CreateFile u path d = Some (0, d')" "sector_read 2 d' = SET_BIT (sector_read 2 d) k"
    "inode_mode d' n = 0x81ED" "inode_size d' n = 0" "\<forall>z < 7. inode_zone d' n z = 0"
    "\<forall>x. lookup (sector_read s d') x = (if x = nm then n else lookup (sector_read s d) x)"
    "\<forall>l. l \<notin> {2, inode_sector n, s} \<longrightarrow> d' l = d l" "inode_mode d' (n + 1) = 0" by blast
  show ?thesis unfolding Some option.case by (rule exI [of _ d']) (intro conjI d')
qed

text \<open>Every sixteenth inode overruns the buffer: the last inode of a sector is at offset 480, and 34 bytes are cleared there.\<close>

lemma memset_overrun: "length dest < d + n \<Longrightarrow> d \<le> length dest \<Longrightarrow> memset dest d val n = None"
proof (induction n arbitrary: dest d)
  case (Suc n)
  show ?case
  proof (cases "d < length dest")
    case True
    then show ?thesis using Suc.IH [of "dest[d := val]" "Suc d"] Suc.prems by (simp add: wr_def)
  qed (simp add: wr_def)
qed simp

lemma CreateFile_overruns:
  assumes d: "disk_ok d" and path: "names d path s nm" and u: "length u = 32" and s: "s \<noteq> 0"
    and new: "lookup (sector_read s d) nm = 0"
    and k: "find_clear (sector_read 2 d) 2 4096 = Some k" and n: "n = of_nat (k + 1)" and fit: "\<not> fits n"
  shows "minix_CreateFile u path d = None"
proof -
  let ?d1 = "sector_write 2 (SET_BIT (sector_read 2 d) k) d"
  note nn = new_inode_number [OF k, folded n]
  have alloc: "minix_AllocateInode d = (n, ?d1)" using AllocateInode_spec [OF d] k n by simp

  have off: "inode_offset n = 480" using fit nn by (simp add: fits_def inode_offset_def) presburger
  have "disk_ok ?d1" using d by (simp add: disk_ok_write)
  then have "length (sector_read (inode_sector n) ?d1) = 512" by simp
  then have "fresh_inode (sector_read (inode_sector n) ?d1) (inode_offset n) 0x81ED 0 1 = None"
    by (simp add: fresh_inode_def off memset_overrun sizeof_inode_def)
  then show ?thesis using names_find(1,2) [OF d path u] new s alloc nn by (simp add: minix_CreateFile_def Let_def)
qed

text \<open>C30: Creating a file. A missing directory, a name in use and a full inode bitmap are errors that change nothing.
  Otherwise the lowest free inode \<open>n\<close> is taken. When its number is a multiple of 16 the code writes past its buffer on the
  stack (undefined, the model's \<open>None\<close>). When it is not, and the directory's entries are neither in the bitmap's sector nor
  in the one of the inode, the inode is marked and written as an empty regular file and the name is entered into the first
  free slot: afterwards this directory looks up the new name to it and every other name as before, and only the bitmap
  sector, the inode's sector and the directory's sector have changed. A full directory is an error too, but the inode stays
  marked. The 34 bytes written to the inode also clear the mode of the inode \<open>n + 1\<close>, so that a directory with that inode
  is none any more.\<close>

theorem CreateFile_outcomes:
  assumes "disk_ok d" and "names d path s nm" and "length u = 32"
  shows "(s = 0 \<longrightarrow> minix_CreateFile u path d = Some (err ENOENT, d)) \<and>
    (s \<noteq> 0 \<and> lookup (sector_read s d) nm \<noteq> 0 \<longrightarrow> minix_CreateFile u path d = Some (err EEXIST, d)) \<and>
    (s \<noteq> 0 \<and> lookup (sector_read s d) nm = 0 \<longrightarrow>
      (case find_clear (sector_read 2 d) 2 4096 of
         None \<Rightarrow> minix_CreateFile u path d = Some (err ENOSPC, d)
       | Some k \<Rightarrow> let n = of_nat (k + 1) in
           (\<not> fits n \<longrightarrow> minix_CreateFile u path d = None) \<and>
           (fits n \<and> s \<noteq> 2 \<and> s \<noteq> inode_sector n \<longrightarrow>
            (\<exists>d'. sector_read 2 d' = SET_BIT (sector_read 2 d) k \<and>
              (case free_slot (sector_read s d) of
                 None \<Rightarrow> minix_CreateFile u path d = Some (err ENOSPC, d')
               | Some i \<Rightarrow> minix_CreateFile u path d = Some (0, d') \<and>
                   inode_mode d' n = 0x81ED \<and> inode_size d' n = 0 \<and> (\<forall>z < 7. inode_zone d' n z = 0) \<and>
                   (\<forall>x. lookup (sector_read s d') x = (if x = nm then n else lookup (sector_read s d) x)) \<and>
                   (\<forall>l. l \<notin> {2, inode_sector n, s} \<longrightarrow> d' l = d l) \<and> inode_mode d' (n + 1) = 0)))))"
proof (intro conjI impI)
  note err = CreateFile_errors [OF assms]
  show "s = 0 \<Longrightarrow> minix_CreateFile u path d = Some (err ENOENT, d)" by (rule err(1))
  show "s \<noteq> 0 \<and> lookup (sector_read s d) nm \<noteq> 0 \<Longrightarrow> minix_CreateFile u path d = Some (err EEXIST, d)" using err(2) by blast
  assume a: "s \<noteq> 0 \<and> lookup (sector_read s d) nm = 0"
  note a = conjunct1 [OF a] conjunct2 [OF a]
  show "case find_clear (sector_read 2 d) 2 4096 of
         None \<Rightarrow> minix_CreateFile u path d = Some (err ENOSPC, d)
       | Some k \<Rightarrow> let n = of_nat (k + 1) in
           (\<not> fits n \<longrightarrow> minix_CreateFile u path d = None) \<and>
           (fits n \<and> s \<noteq> 2 \<and> s \<noteq> inode_sector n \<longrightarrow>
            (\<exists>d'. sector_read 2 d' = SET_BIT (sector_read 2 d) k \<and>
              (case free_slot (sector_read s d) of
                 None \<Rightarrow> minix_CreateFile u path d = Some (err ENOSPC, d')
               | Some i \<Rightarrow> minix_CreateFile u path d = Some (0, d') \<and>
                   inode_mode d' n = 0x81ED \<and> inode_size d' n = 0 \<and> (\<forall>z < 7. inode_zone d' n z = 0) \<and>
                   (\<forall>x. lookup (sector_read s d') x = (if x = nm then n else lookup (sector_read s d) x)) \<and>
                   (\<forall>l. l \<notin> {2, inode_sector n, s} \<longrightarrow> d' l = d l) \<and> inode_mode d' (n + 1) = 0)))"
  proof (cases "find_clear (sector_read 2 d) 2 4096")
    case None
    then show ?thesis using err(3) [OF a] by simp
  next
    case (Some k)
    show ?thesis unfolding Some option.case Let_def
      using CreateFile_enters [OF assms a Some refl] CreateFile_overruns [OF assms a Some refl] by blast
  qed
qed

section \<open>Deleting a file\<close>

text \<open>The special names, and the zones of an inode as the numbers of their bits.\<close>

definition dots :: "u8 list \<Rightarrow> bool" where
  "dots nm \<longleftrightarrow> nm = [46] \<or> nm = [46, 46]"

lemma dot_name_spec: "terminated f \<Longrightarrow> dot_name f = Some (dots (cstr f))"
proof -
  assume f: "terminated f"
  have c: "c_str ''.'' = [46, 0]" "c_str ''..'' = [46, 46, 0]" by (simp_all add: c_str_def)
  obtain r1 r2 where "strcmp f [46, 0] = Some r1" "r1 = 0 \<longleftrightarrow> cstr f = [46]" "strcmp f [46, 46, 0] = Some r2" "r2 = 0 \<longleftrightarrow> cstr f = [46, 46]"
    using strcmp_spec [OF f, of "[46, 0]"] strcmp_spec [OF f, of "[46, 46, 0]"] by auto
  then show ?thesis by (simp add: dot_name_def c dots_def)
qed

lemma FreeZone_spec: "disk_ok d \<Longrightarrow> unat z < 4096 \<Longrightarrow>
    \<exists>d'. FreeZone z d = Some d' \<and> disk_ok d' \<and> (\<forall>l. l \<noteq> 3 \<longrightarrow> d' l = d l) \<and>
      (\<forall>j < 4096. TEST_BIT (d' 3) j \<longleftrightarrow> TEST_BIT (d 3) j \<and> \<not> (z \<noteq> 0 \<and> unat z = j))"
proof -
  assume d: "disk_ok d" and z: "unat z < 4096"
  have three: "sector_read 3 x = x 3" "sector_write 3 y x = x(3 := y)" for x y by (simp_all add: sector_read_def sector_write_def)
  have len: "length (d 3) = 512" using d by (simp add: disk_ok_def)
  have ok: "disk_ok (d(3 := CLEAR_BIT (d 3) (unat z)))" using d by (simp add: disk_ok_def)
  show ?thesis
  proof (cases "z = 0")
    case False
    then show ?thesis using clear_bit_in_spec [OF d z, of 3] ok z len
      by (auto simp: FreeZone_def ZONE_BITMAP_LBA_def three bits_simps)
  qed (use d in \<open>simp add: FreeZone_def\<close>)
qed

definition zone_at :: "u8 list \<Rightarrow> nat \<Rightarrow> nat \<Rightarrow> u16" where
  "zone_at b p k = fld16 b (p + 14 + 2 * k)"

lemma zone_at_put:
  assumes "length b = 512" and "p + 34 \<le> 512" and "z < 7" and "k < 7" and "k \<noteq> z"
    and "put16 b (p + 14 + 2 * z) v = Some b'"
  shows "zone_at b' p k = zone_at b p k"
proof -
  have "p + 14 + 2 * k + 2 \<le> p + 14 + 2 * z \<or> p + 14 + 2 * z + length (le_bytes 2 v) \<le> p + 14 + 2 * k" using assms(5) by auto
  then have "buf_get b' (p + 14 + 2 * k) 2 = buf_get b (p + 14 + 2 * k) 2"
    using assms(6) by (intro buf_get_put_other) (auto simp: put16_def)
  moreover have "length b' = 512" using assms(1,6) by (auto simp: put16_def dest: buf_put_length)
  ultimately show ?thesis using assms(1,2,4) by (simp add: zone_at_def fld16_def buf_get_def)
qed

lemma put16_outside:
  assumes "put16 b q v = Some b'" and "p \<le> q" and "q + 2 \<le> e" and "e \<le> length b"
  shows "length b' = length b" and "take p b' = take p b" and "drop e b' = drop e b"
proof -
  have b': "b' = take q b @ le_bytes 2 v @ drop (q + 2) b" "q + 2 \<le> length b" using assms by (auto simp: put16_def buf_put_def split: if_splits)
  then show "length b' = length b" by simp
  show "take p b' = take p b" using b' assms(2) by (simp add: min_def)
  obtain f where "e = q + 2 + f" using assms(3) by (auto simp: le_iff_add)
  then show "drop e b' = drop e b" using b' by (simp add: add_ac)
qed

lemma free_zones_spec:
  assumes "disk_ok d" and "length b = 512" and "p + 34 \<le> 512" and "distinct zs" and "set zs \<subseteq> {..<7}"
    and "\<forall>k \<in> set zs. unat (zone_at b p k) < 4096"
  shows "\<exists>b' d'. free_zones zs b p d = Some (b', d') \<and> length b' = 512 \<and> take p b' = take p b \<and> drop (p + 34) b' = drop (p + 34) b \<and>
    disk_ok d' \<and> (\<forall>l. l \<noteq> 3 \<longrightarrow> d' l = d l) \<and>
    (\<forall>j < 4096. TEST_BIT (d' 3) j \<longleftrightarrow> TEST_BIT (d 3) j \<and> \<not> (\<exists>k \<in> set zs. zone_at b p k \<noteq> 0 \<and> unat (zone_at b p k) = j))"
  using assms
proof (induction zs arbitrary: b d)
  case (Cons z zs)
  have z: "z < 7" "unat (zone_at b p z) < 4096" using Cons.prems by auto
  have get: "i_zone b p z = Some (zone_at b p z)" using Cons.prems(2,3) z by (simp add: i_zone_def get_fld16 zone_at_def)
  show ?case
  proof (cases "zone_at b p z = 0")
    case True
    then show ?thesis using Cons.IH [of d b] Cons.prems get by simp
  next
    case False
    obtain d1 where d1: "FreeZone (zone_at b p z) d = Some d1" "disk_ok d1" "\<forall>l. l \<noteq> 3 \<longrightarrow> d1 l = d l"
      "\<forall>j < 4096. TEST_BIT (d1 3) j \<longleftrightarrow> TEST_BIT (d 3) j \<and> \<not> (zone_at b p z \<noteq> 0 \<and> unat (zone_at b p z) = j)"
      using FreeZone_spec [OF Cons.prems(1) z(2)] by blast
    obtain b1 where b1: "put16 b (p + 14 + 2 * z) 0 = Some b1"
      using buf_put_Some [of "p + 14 + 2 * z" "le_bytes 2 (0 :: u16)" b] Cons.prems(2,3) z by (auto simp: put16_def)
    have out: "length b1 = 512" "take p b1 = take p b" "drop (p + 34) b1 = drop (p + 34) b"
      using put16_outside [OF b1, of p "p + 34"] Cons.prems(2,3) z by simp_all
    have keep: "zone_at b1 p k = zone_at b p k" if "k \<in> set zs" for k
      using that Cons.prems z by (intro zone_at_put [OF _ _ z(1) _ _ b1]) auto
    then have small: "\<forall>k \<in> set zs. unat (zone_at b1 p k) < 4096" using Cons.prems(6) by simp
    obtain b' d' where r: "free_zones zs b1 p d1 = Some (b', d')" "length b' = 512" "take p b' = take p b1"
      "drop (p + 34) b' = drop (p + 34) b1" "disk_ok d'" "\<forall>l. l \<noteq> 3 \<longrightarrow> d' l = d1 l"
      "\<forall>j < 4096. TEST_BIT (d' 3) j \<longleftrightarrow> TEST_BIT (d1 3) j \<and> \<not> (\<exists>k \<in> set zs. zone_at b1 p k \<noteq> 0 \<and> unat (zone_at b1 p k) = j)"
      using Cons.IH [OF d1(2) out(1) Cons.prems(3) _ _ small] Cons.prems(4,5) by auto
    have "free_zones (z # zs) b p d = Some (b', d')" using get False d1(1) b1 r(1) by simp
    moreover have "\<forall>j < 4096. TEST_BIT (d' 3) j \<longleftrightarrow> TEST_BIT (d 3) j \<and>
        \<not> (\<exists>k \<in> set (z # zs). zone_at b p k \<noteq> 0 \<and> unat (zone_at b p k) = j)"
      using r(7) d1(4) keep by auto
    ultimately show ?thesis using r out d1(3) by auto
  qed
qed simp

definition after_delete :: "disk \<Rightarrow> u32 \<Rightarrow> nat \<Rightarrow> u16 \<Rightarrow> disk \<Rightarrow> disk" where
  "after_delete d s i n d1 =
     (let d2 = sector_write (inode_sector n) (put_inode (sector_read (inode_sector n) d) (inode_offset n) (replicate 34 0)) d1;
          d3 = sector_write 2 (CLEAR_BIT (sector_read 2 d) (unat n)) d2
      in sector_write s (with_entry (sector_read s d) i 0 []) d3)"

lemma DeleteFile_spec:
  assumes d: "disk_ok d" and path: "names d path s nm" and u: "length u = 32" and s: "s \<noteq> 0" and nd: "\<not> dots nm"
    and i: "find_name (sector_read s d) nm = Some i" and n: "n = ino (sector_read s d) i" and fit: "fits n" "unat n < 4096"
    and zones: "\<forall>k < 7. unat (inode_zone d n k) < 4096" and sec: "s \<noteq> 2" "s \<noteq> 3" "s \<noteq> inode_sector n"
  shows "\<exists>d1. minix_DeleteFile u path d = Some (0, after_delete d s i n d1) \<and> disk_ok d1 \<and> (\<forall>l. l \<noteq> 3 \<longrightarrow> d1 l = d l) \<and>
    (\<forall>j < 4096. TEST_BIT (d1 3) j \<longleftrightarrow> TEST_BIT (d 3) j \<and> \<not> (\<exists>k < 7. inode_zone d n k \<noteq> 0 \<and> unat (inode_zone d n k) = j))"
proof -
  let ?b = "sector_read s d" and ?ib = "sector_read (inode_sector n) d" and ?p = "inode_offset n"
  note off = fits_offset [OF fit(1)]
  note f = names_find [OF d path u]
  have sm: "s < 0x10000000" by (rule names_small [OF path])
  have dir: "dir_ok ?b" using path s unfolding names_def by blast
  have zone_eq: "zone_at ?ib ?p k = inode_zone d n k" if "k < 7" for k
  proof -
    have "take 2 (drop (14 + 2 * k) (take 34 xs)) = take 2 (drop (14 + 2 * k) xs)" for xs :: "u8 list"
      using that by (simp add: drop_take min_def)
    then show ?thesis by (simp add: zone_at_def inode_zone_def inode_bytes_def fld16_def sizeof_inode_def add_ac)
  qed
  obtain b' d1 where fz: "free_zones [0..<7] ?ib ?p d = Some (b', d1)" "length b' = 512" "take ?p b' = take ?p ?ib"
    "drop (?p + 34) b' = drop (?p + 34) ?ib" "disk_ok d1" "\<forall>l. l \<noteq> 3 \<longrightarrow> d1 l = d l"
    "\<forall>j < 4096. TEST_BIT (d1 3) j \<longleftrightarrow> TEST_BIT (d 3) j \<and> \<not> (\<exists>k \<in> set [0..<7]. zone_at ?ib ?p k \<noteq> 0 \<and> unat (zone_at ?ib ?p k) = j)"
    using free_zones_spec [OF d, of ?ib ?p "[0..<7]"] d off zones zone_eq by (auto simp: atLeast0LessThan)
  have zero: "memset b' ?p 0 sizeof_inode = Some (put_inode ?ib ?p (replicate 34 0))"
    using fz(2-4) off by (simp add: memset_spec sizeof_inode_def put_inode_def)
  let ?d2 = "sector_write (inode_sector n) (put_inode ?ib ?p (replicate 34 0)) d1"
  have d2: "disk_ok ?d2" using fz(5) d off by (intro disk_ok_write) simp_all
  have old: "sector_read l d1 = sector_read l d" if "l < 0x10000000" "l \<noteq> 3" for l
    using that fz(6) by (simp add: sector_read_def mask28)
  have two: "sector_read 2 ?d2 = sector_read 2 d"
    using low_sectors(1,2) [of n] low_sectors(3,4) inode_sector_small [of n] old [of 2] by (simp add: read_write_other)
  let ?d3 = "sector_write 2 (CLEAR_BIT (sector_read 2 d) (unat n)) ?d2"
  have c: "clear_bit_in INODE_BITMAP_LBA (unat n) ?d2 = Some ?d3"
    using clear_bit_in_spec [OF d2 fit(2), of 2] two by (simp add: INODE_BITMAP_LBA_def)
  have d3: "disk_ok ?d3" by (rule disk_ok_write [OF d2]) (use d in simp)
  have b3: "sector_read s ?d3 = ?b"
    using sec sm low_sectors inode_sector_small [of n] old [of s] by (simp add: read_write_other)
  have i16: "i < 16" using find_name_Some [OF i] by simp
  have e: "remove_entry s i ?d3 = Some (sector_write s (with_entry ?b i 0 []) ?d3)"
    using remove_entry_spec [OF d3 i16] b3 by simp
  have ent: "entry_inode ?b i = Some n" using entry_inode_ino [of ?b i] d i16 n by simp
  have found: "dir_find ?b (fname u nm) 0 = Some (Some i)"
    using dir_find_spec [OF dir f(3), of 0] f(4) i by (simp add: find_name_def)
  have "minix_DeleteFile u path d = Some (0, after_delete d s i n d1)"
    using f(1) s dot_name_spec [OF f(3)] f(4) nd found ent fz(1) zero c e
    by (simp add: minix_DeleteFile_def Let_def after_delete_def del: upt_Suc upt_rec_numeral)
  then show ?thesis using fz zone_eq by (intro exI [of _ d1]) (auto simp: atLeast0LessThan)
qed

text \<open>What the deleting leaves: the bitmap bit above the inode's is the one that is cleared.\<close>

lemma deleted_facts:
  assumes d: "disk_ok d" "disk_ok d1" and same: "\<forall>l. l \<noteq> 3 \<longrightarrow> d1 l = d l" and s: "s < 0x10000000" "s \<noteq> 2" "s \<noteq> 3" "s \<noteq> inode_sector n"
    and i: "i < 16" and fit: "fits n" "n < 0xFFFF"
  defines "d' \<equiv> after_delete d s i n d1"
  shows "disk_ok d'" and "sector_read 2 d' = CLEAR_BIT (sector_read 2 d) (unat n)"
    and "sector_read s d' = with_entry (sector_read s d) i 0 []"
    and "inode_bytes d' n = replicate 34 0" and "inode_mode d' (n + 1) = 0"
    and "l \<notin> {2, 3, inode_sector n, s} \<Longrightarrow> d' l = d l" and "d' 3 = d1 3"
proof -
  let ?ib = "sector_read (inode_sector n) d"
  note off = fits_offset [OF fit(1)]
  note small = low_sectors(1,2) [of n] low_sectors(3,4) inode_sector_small [of n] s
  let ?w = "sector_write (inode_sector n) (put_inode ?ib (inode_offset n) (replicate 34 0)) d1"
  have ib: "length ?ib = 512" using d by simp
  show "disk_ok d'" unfolding d'_def after_delete_def Let_def using d i off ib by (intro disk_ok_write) simp_all
  show "sector_read 2 d' = CLEAR_BIT (sector_read 2 d) (unat n)" "sector_read s d' = with_entry (sector_read s d) i 0 []"
    using small by (simp_all add: d'_def after_delete_def Let_def read_write_other)
  have r: "sector_read (inode_sector n) d' = sector_read (inode_sector n) ?w"
    using small by (simp add: d'_def after_delete_def Let_def read_write_other)
  have "inode_bytes ?w n = replicate 34 0" using ib fit by (intro inode_written) simp_all
  then show "inode_bytes d' n = replicate 34 0" using r by (simp add: inode_bytes_def)
  have "inode_mode ?w (n + 1) = le_word (drop 32 (replicate 34 0))" using ib fit by (intro next_mode) simp_all
  then show "inode_mode d' (n + 1) = 0" using r next_inode(1) [OF fit] by (simp add: inode_mode_def inode_bytes_def)
  show "d' l = d l" if "l \<notin> {2, 3, inode_sector n, s}" using that small same by (simp add: d'_def after_delete_def Let_def write_other)
  show "d' 3 = d1 3" using small by (simp add: d'_def after_delete_def Let_def write_other)
qed

section \<open>Files of the root directory\<close>

definition root_path :: "u8 list \<Rightarrow> u8 list \<Rightarrow> bool" where
  "root_path path nm \<longleftrightarrow> terminated path \<and> length (cstr path) < 255 \<and> path_dirs (cstr path) = [] \<and>
     nm = path_name (cstr path) \<and> length nm < 30"

abbreviation "root d \<equiv> sector_read 438 d"

lemma root_names: "root_path path nm \<Longrightarrow> dir_ok (root d) \<Longrightarrow> names d path 438 nm"
  unfolding root_path_def names_def by (elim conjE) simp

lemma root_find:
  "disk_ok d \<Longrightarrow> dir_ok (root d) \<Longrightarrow> root_path path nm \<Longrightarrow> length u = 32 \<Longrightarrow> FindEntry u path d = Some (lookup (root d) nm)"
  using names_find(2) [OF _ root_names] by simp

lemma root_name: "root_path path nm \<Longrightarrow> 0 \<notin> set nm \<and> length nm < 30"
  unfolding root_path_def using path_name_nonzero [OF cstr_nonzero] by blast

lemma root_sector: "unat n < 4097 \<Longrightarrow> inode_sector n \<noteq> 438"
proof
  assume n: "unat n < 4097" and eq: "inode_sector n = 438"
  have "(unat n - 1) div 16 \<le> 4096 div 16" using n by (intro div_le_mono) simp
  moreover have "10 + (unat n - 1) div 16 = 438" using unat_inode_sector [of n] eq by simp
  ultimately show False by simp
qed

lemma lookup_index: "lookup b nm = n \<Longrightarrow> n \<noteq> 0 \<Longrightarrow> \<exists>i. find_name b nm = Some i \<and> i < 16 \<and> ino b i = n \<and> ename b i = nm"
  using find_name_Some by (fastforce simp: lookup_def split: option.splits)

lemma freed_next_bit:
  assumes "length bm = 512" and "2 \<le> n" and "n < 4096" and "\<forall>j. 2 \<le> j \<and> j \<le> n \<longrightarrow> TEST_BIT bm j"
  shows "find_clear (CLEAR_BIT bm n) 2 4096 = Some n"
  using assms by (auto simp: find_clear_Some bits_simps)

text \<open>C31: Two files in one inode. Deleting a file of the root directory clears the bitmap bit of the inode behind its
  own. If that one belongs to another file and all lower inodes are in use, the next file created is given the
  other file's inode: both names lead to it, and the content of the other file is gone.\<close>

theorem deleted_inode_shared:
  assumes d: "disk_ok d" "dir_ok (root d)" and u: "length u = 32"
    and paths: "root_path pa a" "root_path pb b" "root_path pc c" and names: "distinct [a, b, c]" "\<not> dots a"
    and inodes: "lookup (root d) a = n" "lookup (root d) b = n + 1" "lookup (root d) c = 0"
    and fit: "fits n" "fits (n + 1)" "2 \<le> unat n" "unat n < 4095"
    and zones: "\<forall>k < 7. unat (inode_zone d n k) < 4096"
    and used: "\<forall>j. 2 \<le> j \<and> j \<le> unat n \<longrightarrow> TEST_BIT (sector_read 2 d) j"
  shows "\<exists>d1 d2. minix_DeleteFile u pa d = Some (0, d1) \<and> minix_CreateFile u pc d1 = Some (0, d2) \<and>
    FindEntry u pb d2 = Some (n + 1) \<and> FindEntry u pc d2 = Some (n + 1) \<and>
    inode_size d2 (n + 1) = 0 \<and> (\<forall>z < 7. inode_zone d2 (n + 1) z = 0)"
proof -
  have n0: "n \<noteq> 0" "n < 0xFFFF" using fits_offset [OF fit(1)] fit(4) by (simp_all add: word_less_nat_alt)
  have un: "unat (n + 1) = unat n + 1" using fit(4) by (subst unat_plus_small) simp_all
  obtain i where i: "find_name (root d) a = Some i" "i < 16" "ino (root d) i = n" "ename (root d) i = a"
    using lookup_index [OF inodes(1) n0(1)] by blast
  have sec: "(438 :: u32) \<noteq> 2" "(438 :: u32) \<noteq> 3" "438 \<noteq> inode_sector n" "438 \<noteq> inode_sector (n + 1)" "(438 :: u32) < 0x10000000"
    using root_sector [of n] root_sector [of "n + 1"] fit(4) un by auto
  obtain dz where del: "minix_DeleteFile u pa d = Some (0, after_delete d 438 i n dz)" "disk_ok dz" "\<forall>l. l \<noteq> 3 \<longrightarrow> dz l = d l"
    using DeleteFile_spec [OF d(1) root_names [OF paths(1) d(2)] u _ names(2) i(1) i(3) [symmetric] fit(1) _ zones sec(1-3)] fit(4)
    by auto
  let ?d1 = "after_delete d 438 i n dz"
  note f = deleted_facts [OF d(1) del(2,3) sec(5,1,2,3) i(2) fit(1) n0(2)]
  have b: "length (root d) = 512" using d(1) by simp
  have root1: "root ?d1 = with_entry (root d) i 0 []" by (rule f(3))
  have dir1: "dir_ok (root ?d1)" unfolding root1 by (rule dir_ok_with_entry [OF d(2) i(2)]) simp_all
  have look: "lookup (root ?d1) x = lookup (root d) x" if "x \<noteq> a" for x
    unfolding root1 using that i(4) by (intro lookup_remove [OF b i(2)]) simp
  have bits: "find_clear (sector_read 2 ?d1) 2 4096 = Some (unat n)"
    unfolding f(2) using fit used d(1) by (intro freed_next_bit) simp_all
  have num: "n + 1 = of_nat (unat n + 1)" by simp
  have "ino (root ?d1) i = 0" unfolding root1 by (simp add: ino_with_entry [OF b i(2) i(2)])
  then obtain j where j: "free_slot (root ?d1) = Some j"
    using i(2) by (cases "free_slot (root ?d1)") (auto simp: free_slot_def find_upt_None)
  have newc: "lookup (root ?d1) c = 0" using look [of c] names(1) inodes(3) by auto
  obtain d2 where d2: "minix_CreateFile u pc ?d1 = Some (0, d2)" "disk_ok d2" "dir_ok (root d2)"
    "inode_size d2 (n + 1) = 0" "\<forall>z < 7. inode_zone d2 (n + 1) z = 0"
    "\<forall>x. lookup (root d2) x = (if x = c then n + 1 else lookup (root ?d1) x)"
    using created_file [OF f(1) root_names [OF paths(3) dir1] u _ newc bits num fit(2) sec(1,4) j] by auto
  have "lookup (root d2) b = n + 1" "lookup (root d2) c = n + 1" using d2(6) look [of b] names(1) inodes(2) by auto
  then show ?thesis
    using del(1) d2 root_find [OF d2(2,3) paths(2) u] root_find [OF d2(2,3) paths(3) u] by auto
qed

section \<open>Writing and reading\<close>

lemma fld_inside:
  assumes "length b = 512" and "p + 34 \<le> 512"
  shows "o' + 2 \<le> 34 \<Longrightarrow> fld16 (take 34 (drop p b)) o' = fld16 b (p + o')"
    and "o' + 4 \<le> 34 \<Longrightarrow> fld32 (take 34 (drop p b)) o' = fld32 b (p + o')"
  using assms by (simp_all add: fld16_def fld32_def drop_take min_def add.commute)

text \<open>Two sectors that agree outside the 34 bytes of one inode, and what that means for the other inodes.\<close>

definition same_around :: "nat \<Rightarrow> u8 list \<Rightarrow> u8 list \<Rightarrow> bool" where
  "same_around p b b' \<longleftrightarrow> take p b' = take p b \<and> drop (p + 34) b' = drop (p + 34) b"

lemma same_around_refl: "same_around p b b"
  by (simp add: same_around_def)

lemma same_around_trans: "same_around p a b \<Longrightarrow> same_around p b c \<Longrightarrow> same_around p a c"
  by (simp add: same_around_def)

lemma buf_put_around:
  assumes "buf_put b q bs = Some b'" and "p \<le> q" and "q + length bs \<le> p + 34" and "p + 34 \<le> length b"
  shows "same_around p b b'"
proof -
  have b': "b' = take q b @ bs @ drop (q + length bs) b" "q + length bs \<le> length b" using assms by (auto simp: buf_put_def split: if_splits)
  obtain f where "p + 34 = q + length bs + f" using assms(3) by (auto simp: le_iff_add)
  then show ?thesis using b' assms(2) by (simp add: same_around_def min_def add_ac)
qed

lemma put_inode_around:
  assumes "p + 34 \<le> length b" and "length img = 34"
  shows "same_around p b (put_inode b p img)"
  using assms by (simp add: same_around_def put_inode_def)

lemma slice_around:
  assumes same: "same_around p b b'" and "q + k \<le> p \<or> p + 34 \<le> q"
  shows "take k (drop q b') = take k (drop q b)"
  using assms(2)
proof
  assume "q + k \<le> p"
  then have "take k (drop q x) = take k (drop q (take p x))" for x :: "u8 list" by (simp add: drop_take min_def)
  then show ?thesis using same by (metis same_around_def)
next
  assume "p + 34 \<le> q"
  then have "drop q x = drop (q - (p + 34)) (drop (p + 34) x)" for x :: "u8 list" by simp
  then show ?thesis using same by (metis same_around_def)
qed

lemma inode_places:
  assumes "fits n" and "fits m" and "m \<noteq> n" and "inode_sector m = inode_sector n"
  shows "inode_offset m + 32 \<le> inode_offset n \<or> inode_offset n + 32 \<le> inode_offset m"
    and "m \<noteq> n + 1 \<Longrightarrow> inode_offset m + 32 \<le> inode_offset n \<or> inode_offset n + 64 \<le> inode_offset m"
proof -
  define u v where "u = unat m - 1" and "v = unat n - 1"
  have pos: "0 < unat m" "0 < unat n" using assms(1,2) by (auto simp: fits_def intro: ccontr)
  then have off: "inode_offset m = u mod 16 * 32" "inode_offset n = v mod 16 * 32" by (auto simp: inode_offset_def u_def v_def)
  have "10 + u div 16 = 10 + v div 16" using unat_inode_sector [of m] unat_inode_sector [of n] assms(4) by (simp add: u_def v_def)
  then have "u div 16 = v div 16" by simp
  moreover have "u \<noteq> v" using assms(3) pos by (auto simp: u_def v_def unat_eq_iff [symmetric])
  ultimately have ne: "u mod 16 \<noteq> v mod 16" by (metis div_mult_mod_eq)
  then show "inode_offset m + 32 \<le> inode_offset n \<or> inode_offset n + 32 \<le> inode_offset m" unfolding off by linarith
  assume m: "m \<noteq> n + 1"
  have "u \<noteq> v + 1"
  proof
    assume "u = v + 1"
    then have "unat m = unat n + 1" using pos by (simp add: u_def v_def)
    then have "(of_nat (unat m) :: u16) = of_nat (unat n + 1)" by (rule arg_cong)
    then show False using m by simp
  qed
  then have "u mod 16 \<noteq> v mod 16 + 1" using \<open>u div 16 = v div 16\<close> by (metis add.assoc div_mult_mod_eq)
  then show "inode_offset m + 32 \<le> inode_offset n \<or> inode_offset n + 64 \<le> inode_offset m" unfolding off using ne by linarith
qed

lemma other_inode_kept:
  assumes same: "same_around (inode_offset n) (sector_read (inode_sector n) d) (sector_read (inode_sector n) d')"
    and other: "inode_sector m \<noteq> inode_sector n \<longrightarrow> sector_read (inode_sector m) d' = sector_read (inode_sector m) d"
    and m: "fits n" "fits m" "m \<noteq> n"
  shows "inode_size d' m = inode_size d m" and "k < 7 \<Longrightarrow> inode_zone d' m k = inode_zone d m k"
    and "m \<noteq> n + 1 \<Longrightarrow> inode_mode d' m = inode_mode d m"
proof -
  let ?o = "inode_offset m"
  have fields: "inode_size x m = le_word (take 4 (drop (?o + 4) (sector_read (inode_sector m) x)))"
    "k < 7 \<Longrightarrow> inode_zone x m k = le_word (take 2 (drop (?o + (14 + 2 * k)) (sector_read (inode_sector m) x)))"
    "inode_mode x m = le_word (take 2 (drop ?o (sector_read (inode_sector m) x)))" for x
    by (simp_all add: inode_size_def inode_zone_def inode_mode_def inode_bytes_def sizeof_inode_def fld32_def fld16_def drop_take min_def add.commute)
  note place = inode_places [OF m]
  have keep: "take i (drop q (sector_read (inode_sector m) d')) = take i (drop q (sector_read (inode_sector m) d))"
    if "inode_sector m = inode_sector n \<Longrightarrow> q + i \<le> inode_offset n \<or> inode_offset n + 34 \<le> q" for i q
    using that other slice_around [OF same] by (cases "inode_sector m = inode_sector n") simp_all
  show "inode_size d' m = inode_size d m" unfolding fields using place(1) by (subst keep) auto
  show "inode_zone d' m k = inode_zone d m k" if "k < 7" unfolding fields(2) [OF that] using place(1) that by (subst keep) auto
  show "inode_mode d' m = inode_mode d m" if "m \<noteq> n + 1" unfolding fields(3) using place(2) that by (subst keep) auto
qed

text \<open>The zone a write goes to, and the disk with it marked.\<close>

definition target_zone :: "disk \<Rightarrow> u16 \<Rightarrow> (u16 \<times> disk) option" where
  "target_zone d n =
     (if inode_zone d n 0 \<noteq> 0 then Some (inode_zone d n 0, d)
      else map_option (\<lambda>k. (of_nat k, sector_write 3 (SET_BIT (sector_read 3 d) k) d)) (find_clear (sector_read 3 d) 0 4096))"

lemma zone_field:
  assumes "disk_ok d" and "fits n"
  shows "i_zone (sector_read (inode_sector n) d) (inode_offset n) 0 = Some (inode_zone d n 0)"
    and "i_size (sector_read (inode_sector n) d) (inode_offset n) = Some (inode_size d n)"
  using assms fits_offset [OF assms(2)] fld_inside [of "sector_read (inode_sector n) d" "inode_offset n"]
  by (simp_all add: i_zone_def i_size_def get_fld16 get_fld32 inode_zone_def inode_size_def inode_bytes_def sizeof_inode_def)

lemma put16_fields:
  assumes "length b = 512" and "p + 34 \<le> 512"
  shows "\<exists>b'. put16 b (p + 14) z = Some b' \<and> length b' = 512 \<and> i_zone b' p 0 = Some z \<and> i_size b' p = i_size b p \<and> same_around p b b'"
proof -
  obtain b' where b': "buf_put b (p + 14) (le_bytes 2 z) = Some b'" using buf_put_Some [of "p + 14" "le_bytes 2 z" b] assms by auto
  then have "length b' = 512" using buf_put_length assms(1) by auto
  moreover have "i_size b' p = i_size b p" using buf_get_put_other [OF b', of "p + 4" 4] by (simp add: i_size_def get32_def)
  moreover have "i_zone b' p 0 = Some z" using buf_get_put_same [OF b', of 2] by (simp add: i_zone_def get16_def)
  moreover have "same_around p b b'" using assms by (intro buf_put_around [OF b']) simp_all
  ultimately show ?thesis using b' by (auto simp: put16_def)
qed

lemma put32_fields:
  assumes "length b = 512" and "p + 34 \<le> 512"
  shows "\<exists>b'. put32 b (p + 4) sz = Some b' \<and> length b' = 512 \<and> i_zone b' p 0 = i_zone b p 0 \<and> i_size b' p = Some sz \<and> same_around p b b'"
proof -
  obtain b' where b': "buf_put b (p + 4) (le_bytes 4 sz) = Some b'" using buf_put_Some [of "p + 4" "le_bytes 4 sz" b] assms by auto
  then have "length b' = 512" using buf_put_length assms(1) by auto
  moreover have "i_zone b' p 0 = i_zone b p 0" using buf_get_put_other [OF b', of "p + 14" 2] by (simp add: i_zone_def get16_def)
  moreover have "i_size b' p = Some sz" using buf_get_put_same [OF b', of 4] by (simp add: i_size_def get32_def)
  moreover have "same_around p b b'" using assms by (intro buf_put_around [OF b']) simp_all
  ultimately show ?thesis using b' by (auto simp: put32_def)
qed

lemma small_int: "unat (count :: u32) \<le> 512 \<Longrightarrow> sint count = int (unat count) \<and> \<not> 512 < sint count \<and> \<not> sint count < 0"
proof -
  assume "unat count \<le> 512"
  then have "int (unat count) \<le> int 512" by (simp only: of_nat_le_iff)
  then have le: "uint count \<le> 512" by (simp only: uint_nat [symmetric] of_nat_numeral)
  then have "sint count = uint count" unfolding sint_uint
    by (intro signed_take_bit_int_eq_self order_trans [OF _ uint_ge_0 [of count]]) simp_all
  then show ?thesis using le by (simp add: uint_nat [symmetric])
qed

lemma ensure_zone_spec:
  assumes "disk_ok d" and "fits n" and "target_zone d n = Some (z, d1)"
  shows "\<exists>b. ensure_zone (sector_read (inode_sector n) d) (inode_offset n) d = Some (Some (b, d1)) \<and> length b = 512 \<and>
    i_zone b (inode_offset n) 0 = Some z \<and> i_size b (inode_offset n) = Some (inode_size d n) \<and>
    same_around (inode_offset n) (sector_read (inode_sector n) d) b \<and> disk_ok d1 \<and> (\<forall>l. l \<noteq> 3 \<longrightarrow> d1 l = d l)"
proof (cases "inode_zone d n 0 = 0")
  case False
  then have "z = inode_zone d n 0" "d1 = d" using assms(3) by (auto simp: target_zone_def)
  then show ?thesis using False assms(1) zone_field [OF assms(1,2)] by (simp add: ensure_zone_def same_around_refl)
next
  case True
  then obtain k where k: "find_clear (sector_read 3 d) 0 4096 = Some k" "z = of_nat k" "d1 = sector_write 3 (SET_BIT (sector_read 3 d) k) d"
    using assms(3) by (auto simp: target_zone_def)
  obtain b where b: "put16 (sector_read (inode_sector n) d) (inode_offset n + 14) z = Some b" "length b = 512"
    "i_zone b (inode_offset n) 0 = Some z" "i_size b (inode_offset n) = Some (inode_size d n)"
    "same_around (inode_offset n) (sector_read (inode_sector n) d) b"
    using put16_fields [of "sector_read (inode_sector n) d" "inode_offset n" z] assms(1) fits_offset [OF assms(2)] zone_field [OF assms(1,2)]
    by auto
  have "disk_ok d1" using assms(1) k(3) by (simp add: disk_ok_write)
  moreover have "\<forall>l. l \<noteq> 3 \<longrightarrow> d1 l = d l" using k(3) low_sectors(4) by (simp add: write_other)
  ultimately show ?thesis using b k True zone_field [OF assms(1,2)] allocate_zone_spec [OF assms(1)]
    by (simp add: ensure_zone_def)
qed

lemma WriteFile_spec:
  assumes d: "disk_ok d" and entry: "FindEntry u path d = Some n" and fit: "fits n"
    and zone: "target_zone d n = Some (z, d1)" and count: "unat count \<le> 512" "unat count \<le> length input"
  shows "\<exists>b. minix_WriteFile u path input count d = Some (int (unat count), sector_write (inode_sector n) b
      (sector_write (ucast z * 2) (take (unat count) input @ replicate (512 - unat count) 0) d1)) \<and> length b = 512 \<and>
    i_zone b (inode_offset n) 0 = Some z \<and> i_size b (inode_offset n) = Some (max (inode_size d n) count) \<and>
    same_around (inode_offset n) (sector_read (inode_sector n) d) b"
proof -
  let ?p = "inode_offset n"
  note off = fits_offset [OF fit]
  obtain b where b: "ensure_zone (sector_read (inode_sector n) d) ?p d = Some (Some (b, d1))" "length b = 512"
    "i_zone b ?p 0 = Some z" "i_size b ?p = Some (inode_size d n)" "same_around ?p (sector_read (inode_sector n) d) b"
    using ensure_zone_spec [OF d fit zone] by auto
  obtain b' where b': "(if inode_size d n < count then put32 b (?p + 4) count else Some b) = Some b'" "length b' = 512"
    "i_zone b' ?p 0 = Some z" "i_size b' ?p = Some (max (inode_size d n) count)" "same_around ?p b b'"
    using put32_fields [of b ?p count] b(2-4) off same_around_refl
    by (cases "inode_size d n < count") (auto simp: max_def not_less dest: less_imp_le)
  note around = same_around_trans [OF b(5) b'(5)]
  have "memcpy (replicate 512 0) 0 input 0 (unat count) = Some (take (unat count) input @ replicate (512 - unat count) 0)"
    using memcpy_spec [of 0 "unat count" "replicate 512 0" 0 input] count by simp
  then show ?thesis using entry off b(1-4) b'(1-4) small_int [OF count(1)] around
    by (intro exI [of _ b']) (simp add: minix_WriteFile_def Let_def)
qed

lemma ReadFile_spec:
  assumes d: "disk_ok d" and entry: "FindEntry u path d = Some n" and fit: "fits n"
    and z: "inode_zone d n 0 \<noteq> 0" and count: "unat count \<le> 512" "unat count \<le> length outp" "count \<le> inode_size d n"
  shows "minix_ReadFile u path outp count d =
    Some (int (unat count), take (unat count) (sector_read (ucast (inode_zone d n 0) * 2) d) @ drop (unat count) outp)"
proof -
  let ?data = "sector_read (ucast (inode_zone d n 0) * 2) d"
  have "memcpy outp 0 ?data 0 (unat count) = Some (take (unat count) ?data @ drop (unat count) outp)"
    using memcpy_spec [of 0 "unat count" outp 0 ?data] count d by simp
  moreover have "0 < sint count \<longleftrightarrow> unat count \<noteq> 0"
    using small_int [OF count(1)] by (simp only: of_nat_0_less_iff neq0_conv)
  ultimately show ?thesis using entry fits_offset [OF fit] minix_GetInode_spec [OF d fit] inode_fields [OF d fit] z count small_int [OF count(1)]
    by (cases "unat count = 0") (simp_all add: minix_ReadFile_def Let_def not_less [symmetric])
qed

lemma written_read:
  assumes d: "disk_ok d" "dir_ok (root d)" and u: "length u = 32" and path: "root_path path nm"
    and n: "lookup (root d) nm = n" "fits n" "unat n < 4097"
    and z: "target_zone d n = Some (z, d1)" "z \<noteq> 0" "ucast z * 2 \<noteq> (438 :: u32)" "ucast z * 2 \<noteq> inode_sector n"
    and count: "unat count \<le> 512" "unat count \<le> length input"
  shows "\<exists>d'. minix_WriteFile u path input count d = Some (int (unat count), d') \<and>
    (\<forall>outp. unat count \<le> length outp \<longrightarrow>
       minix_ReadFile u path outp count d' = Some (int (unat count), take (unat count) input @ drop (unat count) outp)) \<and>
    inode_size d' n = max (inode_size d n) count \<and>
    (\<forall>l. l \<notin> {3, inode_sector n, ucast z * 2} \<longrightarrow> d' l = d l) \<and> disk_ok d' \<and>
    same_around (inode_offset n) (sector_read (inode_sector n) d) (sector_read (inode_sector n) d')"
proof -
  let ?data = "take (unat count) input @ replicate (512 - unat count) 0"
  note off = fits_offset [OF n(2)]
  have entry: "FindEntry u path d = Some n" using root_find [OF d path u] n(1) by simp
  obtain b where b: "minix_WriteFile u path input count d =
      Some (int (unat count), sector_write (inode_sector n) b (sector_write (ucast z * 2) ?data d1))" "length b = 512"
    "i_zone b (inode_offset n) 0 = Some z" "i_size b (inode_offset n) = Some (max (inode_size d n) count)"
    "same_around (inode_offset n) (sector_read (inode_sector n) d) b"
    using WriteFile_spec [OF d(1) entry n(2) z(1) count] by auto
  have d1: "disk_ok d1" "\<forall>l. l \<noteq> 3 \<longrightarrow> d1 l = d l" using ensure_zone_spec [OF d(1) n(2) z(1)] by auto
  let ?d' = "sector_write (inode_sector n) b (sector_write (ucast z * 2) ?data d1)"
  have len: "length ?data = 512" using count by simp
  have ok: "disk_ok ?d'" using d1(1) b(2) len by (intro disk_ok_write) simp_all
  have frame: "?d' l = d l" if "l \<notin> {3, inode_sector n, ucast z * 2}" for l
    using that d1(2) zone_small inode_sector_small by (simp add: write_other)
  have root: "root ?d' = root d"
    using frame [of 438] root_sector [OF n(3)] z(3) by (auto simp: sector_read_def)
  have entry': "FindEntry u path ?d' = Some n" using root_find [OF ok _ path u] d(2) root n(1) by simp
  have fld: "inode_zone ?d' n 0 = z" "inode_size ?d' n = max (inode_size d n) count"
    using zone_field [OF ok n(2)] b(2-4) by simp_all
  have data: "sector_read (ucast z * 2) ?d' = ?data"
    using z(4) zone_small inode_sector_small by (simp add: read_write_other)
  have le: "count \<le> max (inode_size d n) count" by simp
  have "minix_ReadFile u path outp count ?d' = Some (int (unat count), take (unat count) input @ drop (unat count) outp)"
    if "unat count \<le> length outp" for outp
    using ReadFile_spec [OF ok entry' n(2) _ count(1) that] fld z(2) le data count by simp
  then show ?thesis using b(1,5) frame fld ok by (intro exI [of _ ?d']) simp
qed

text \<open>C29: Reading back what was written. Writing at most 512 bytes to a file of the root directory answers their
  number, and reading as many bytes afterwards gives exactly them; the file's zone, a free one for a file that had
  none, must not be zone 0 and its sector not one of the directory's or the inode's. Only the zone bitmap, the inode's sector and the zone's first
  sector change.\<close>

theorem write_read:
  assumes d: "disk_ok d" "dir_ok (root d)" and u: "length u = 32" and path: "root_path path nm"
    and n: "lookup (root d) nm = n" "fits n" "unat n < 4097"
    and z: "target_zone d n = Some (z, d1)" "z \<noteq> 0" "ucast z * 2 \<noteq> (438 :: u32)" "ucast z * 2 \<noteq> inode_sector n"
    and count: "unat count \<le> 512" "unat count \<le> length input"
  shows "\<exists>d'. minix_WriteFile u path input count d = Some (int (unat count), d') \<and>
    (\<forall>outp. unat count \<le> length outp \<longrightarrow>
       minix_ReadFile u path outp count d' = Some (int (unat count), take (unat count) input @ drop (unat count) outp)) \<and>
    inode_size d' n = max (inode_size d n) count \<and>
    (\<forall>l. l \<notin> {3, inode_sector n, ucast z * 2} \<longrightarrow> d' l = d l)"
  using written_read [OF assms] by blast

section \<open>Looking up and inode bounds\<close>

text \<open>C27: Path names. For a path with sound directories on the way \<^verbatim>\<open>FindEntry\<close> answers the inode number found by
  looking its components up one after the other from the root directory, 0 when there is none, whatever its
  uninitialised name buffer holds; splitting with \<^verbatim>\<open>strrchr\<close>, \<^verbatim>\<open>strncpy\<close> and
  \<^verbatim>\<open>strtok\<close> stays inside every array.\<close>

theorem FindEntry_resolves:
  assumes "disk_ok d" and "names d path s nm" and "length u = 32"
  shows "FindEntry u path d =
    Some (if resolve d 438 (path_dirs (cstr path)) = 0 then 0
          else lookup (sector_read (resolve d 438 (path_dirs (cstr path))) d) (path_name (cstr path)))"
proof -
  have "s = resolve d 438 (path_dirs (cstr path))" "nm = path_name (cstr path)" using assms(2) unfolding names_def by blast+
  then show ?thesis using names_find(2) [OF assms] by simp
qed

text \<open>The structure is two bytes longer than the room it has. Reading or writing an inode whose number is a multiple of 16
  leaves the sector buffer; writing any other one overwrites the mode of the next.\<close>

theorem inode_overlap:
  assumes "disk_ok d" and "length img = sizeof_inode" and "n \<noteq> 0" and "n < 0xFFFF"
  shows "(\<not> fits n \<longrightarrow> minix_GetInode n d = None \<and> minix_WriteInode n img d = None) \<and>
    (fits n \<longrightarrow> (\<exists>d'. minix_WriteInode n img d = Some d' \<and> minix_GetInode n d' = Some img \<and>
       inode_mode d' (n + 1) = le_word (drop 32 img)))"
proof (intro conjI impI)
  have len: "length (sector_read (inode_sector n) d) = 512" using assms(1) by simp
  {
    assume "\<not> fits n"
    moreover have "m mod 16 = 0 \<Longrightarrow> m \<noteq> 0 \<Longrightarrow> (m - 1) mod 16 = 15" for m :: nat by (cases m) (auto simp: mod_Suc split: if_splits)
    moreover have "unat n \<noteq> 0" using assms(3) by (simp add: unat_eq_0)
    ultimately have "inode_offset n = 480" using assms(3) by (simp add: fits_def inode_offset_def)
    then show "minix_GetInode n d = None" "minix_WriteInode n img d = None"
      using len by (simp_all add: minix_GetInode_def minix_WriteInode_def memcpy_None sizeof_inode_def Let_def)
  next
    assume fit: "fits n"
    let ?d = "sector_write (inode_sector n) (put_inode (sector_read (inode_sector n) d) (inode_offset n) img) d"
    note off = fits_offset [OF fit]
    have img: "length img = 34" using assms(2) by (simp add: sizeof_inode_def)
    have "minix_WriteInode n img d = Some ?d"
      using memcpy_spec [of "inode_offset n" 34 "sector_read (inode_sector n) d" 0 img] len off img
      by (simp add: minix_WriteInode_def sizeof_inode_def put_inode_def Let_def)
    moreover have "disk_ok ?d" using assms(1) off img len by (intro disk_ok_write) simp_all
    ultimately show "\<exists>d'. minix_WriteInode n img d = Some d' \<and> minix_GetInode n d' = Some img \<and>
       inode_mode d' (n + 1) = le_word (drop 32 img)"
      using put_inode_write [OF assms(1) fit img assms(4)] minix_GetInode_spec [OF _ fit] by auto
  }
qed

section \<open>An example disk\<close>

text \<open>A root directory with the files \<^verbatim>\<open>a\<close> (inode 3) and \<^verbatim>\<open>b\<close> (inode 4), the first four inodes and the first
  eight zones marked.\<close>

definition example_disk :: disk where
  "example_disk = (\<lambda>l. if l = 2 then 0x0F # replicate 511 0
     else if l = 3 then 0xFF # replicate 511 0
     else if l = 438 then with_entry (with_entry (replicate 512 0) 0 3 [97]) 1 4 [98]
     else replicate 512 0)"

lemma zero_dir: "ino (replicate 512 0) i = 0" "dir_ok (replicate 512 0)" "lookup (replicate 512 0) x = 0"
proof -
  show z: "ino (replicate 512 0) i = 0" for i by (simp add: ino_def)
  show "dir_ok (replicate 512 0)" by (simp add: dir_ok_def z)
  show "lookup (replicate 512 0) x = 0" by (simp add: lookup_def find_name_def z find_None_iff split: option.split)
qed

lemma example_sectors: "sector_read 2 example_disk = 0x0F # replicate 511 0"
    "root example_disk = with_entry (with_entry (replicate 512 0) 0 3 [97]) 1 4 [98]"
  by (simp_all add: sector_read_def example_disk_def)

lemma example_disk_ok: "disk_ok example_disk" "dir_ok (root example_disk)"
proof -
  show "disk_ok example_disk" by (simp add: disk_ok_def example_disk_def)
  show "dir_ok (root example_disk)"
    unfolding example_sectors by (intro dir_ok_with_entry zero_dir) simp_all
qed

lemma example_lookup: "lookup (root example_disk) x = (if x = [98] then 4 else if x = [97] then 3 else 0)"
proof -
  let ?b = "with_entry (replicate 512 0) 0 3 [97]"
  have b: "lookup ?b x = (if x = [97] then 3 else 0)" for x using zero_dir by (subst lookup_enter) simp_all
  have "ino ?b 1 = 0" using zero_dir by (simp add: ino_with_entry)
  then show ?thesis unfolding example_sectors using b by (subst lookup_enter) simp_all
qed

lemma example_bits: "j < 4096 \<Longrightarrow> TEST_BIT (sector_read 2 example_disk) j \<longleftrightarrow> j < 4"
proof -
  assume j: "j < 4096"
  have m: "(15 :: u8) = mask 4" by (simp add: mask_eq_exp_minus_1)
  show ?thesis
  proof (cases "j < 8")
    case True
    then have "TEST_BIT (sector_read 2 example_disk) j \<longleftrightarrow> bit (mask 4 :: u8) j"
      unfolding TEST_BIT_bit example_sectors by (simp add: m [symmetric])
    then show ?thesis by (simp add: bit_mask_iff) linarith
  next
    case False
    then have "0 < j div 8" by (simp add: div_greater_zero_iff)
    moreover have "j div 8 < 512" using j by (simp add: less_mult_imp_div_less)
    ultimately have "(15 # replicate 511 0) ! (j div 8) = (0 :: u8)" by (cases "j div 8") simp_all
    then show ?thesis using False unfolding TEST_BIT_bit example_sectors by simp
  qed
qed

lemma example_path: "root_path [47, x, 0] [x]" if "x \<noteq> 0" "x \<noteq> 47" for x :: u8
  using that by (simp add: root_path_def path_dirs_def path_name_def terminated_def)

lemma example_clear: "find_clear (sector_read 2 example_disk) 2 4096 = Some 4"
  unfolding find_clear_Some by (auto simp: example_bits)

lemma example_zone: "inode_zone example_disk n k = 0" if "unat n < 4097"
proof -
  have "inode_sector n \<noteq> 438" "inode_sector n \<noteq> 2" "inode_sector n \<noteq> 3" using root_sector [OF that] low_sectors by auto
  then have "sector_read (inode_sector n) example_disk = replicate 512 0"
    using inode_sector_small [of n] by (simp add: sector_read_def mask28 example_disk_def)
  then show ?thesis by (simp add: inode_zone_def inode_bytes_def fld16_def)
qed

lemma example_zone_clear: "find_clear (sector_read 3 example_disk) 0 4096 = Some 8"
proof -
  have three: "sector_read 3 example_disk = 0xFF # replicate 511 0" by (simp add: sector_read_def example_disk_def)
  have full: "TEST_BIT (0xFF # replicate 511 0) j" if "j < 8" for j
    using TEST_BIT_replicate_FF [of j 1] that by (simp add: TEST_BIT_bit)
  then show ?thesis unfolding find_clear_Some three by (simp add: TEST_BIT_bit)
qed

lemma example_slot: "free_slot (root example_disk) = Some 2"
  unfolding example_sectors free_slot_def find_upt_Some
  by (auto simp: ino_with_entry zero_dir dest!: less_2_cases)

abbreviation "example_u \<equiv> replicate 32 (0xAA :: u8)"

theorem alloc_free_inode_witness:
  "\<exists>d'. minix_AllocateInode example_disk = (5, d') \<and> minix_FreeInode 5 d' = Some example_disk"
  using alloc_free_inode [OF example_disk_ok(1)] by (simp add: example_clear)

theorem CreateFile_outcomes_witness:
  "minix_CreateFile example_u [47, 97, 0] example_disk = Some (- 17, example_disk) \<and>
   (\<exists>d'. minix_CreateFile example_u [47, 99, 0] example_disk = Some (0, d') \<and> lookup (root d') [99] = 5)"
proof -
  have n: "names example_disk [47, x, 0] 438 [x]" if "x \<noteq> 0" "x \<noteq> 47" for x
    by (rule root_names [OF example_path [OF that] example_disk_ok(2)])
  have "fits 5" "inode_sector 5 \<noteq> (438 :: u32)" by (simp_all add: fits_def inode_sector_def)
  then show ?thesis
    using CreateFile_outcomes [OF example_disk_ok(1) n, of 97 example_u] CreateFile_outcomes [OF example_disk_ok(1) n, of 99 example_u]
    by (auto simp: example_lookup example_clear example_slot)
qed

theorem deleted_inode_shared_witness:
  "\<exists>d1 d2. minix_DeleteFile example_u [47, 97, 0] example_disk = Some (0, d1) \<and>
     minix_CreateFile example_u [47, 99, 0] d1 = Some (0, d2) \<and>
     FindEntry example_u [47, 98, 0] d2 = Some 4 \<and> FindEntry example_u [47, 99, 0] d2 = Some 4"
proof -
  have p: "root_path [47, 97, 0] [97]" "root_path [47, 98, 0] [98]" "root_path [47, 99, 0] [99]"
    by (rule example_path, simp_all)+
  have f: "fits 3" "fits (3 + 1)" by (simp_all add: fits_def)
  have used: "\<forall>j. 2 \<le> j \<and> j \<le> unat (3 :: u16) \<longrightarrow> TEST_BIT (sector_read 2 example_disk) j" using example_bits by simp
  show ?thesis
    using deleted_inode_shared [OF example_disk_ok _ p _ _ _ _ _ f _ _ _ used, of example_u]
    by (simp add: example_lookup example_zone dots_def) blast
qed

theorem write_read_witness:
  "\<exists>d'. minix_WriteFile example_u [47, 97, 0] [104, 105] 2 example_disk = Some (2, d') \<and>
     minix_ReadFile example_u [47, 97, 0] [0, 0, 0] 2 d' = Some (2, [104, 105, 0])"
proof -
  have z: "target_zone example_disk 3 = Some (8, sector_write 3 (SET_BIT (sector_read 3 example_disk) 8) example_disk)"
    by (simp add: target_zone_def example_zone example_zone_clear)
  have f: "fits 3" by (simp add: fits_def)
  have p: "root_path [47, 97, 0] [97]" by (rule example_path) simp_all
  obtain d' where d': "minix_WriteFile example_u [47, 97, 0] [104, 105] 2 example_disk = Some (2, d')"
    "\<forall>outp. 2 \<le> length outp \<longrightarrow> minix_ReadFile example_u [47, 97, 0] outp 2 d' = Some (2, take 2 [104, 105] @ drop 2 outp)"
    using write_read [OF example_disk_ok _ p _ f _ z, where u = example_u and count = 2 and input = "[104, 105]"]
    by (auto simp: example_lookup inode_sector_def)
  have "minix_ReadFile example_u [47, 97, 0] [0, 0, 0] 2 d' = Some (2, [104, 105, 0])" using d'(2) [rule_format, of "[0, 0, 0]"] by simp
  then show ?thesis using d'(1) by blast
qed

theorem FindEntry_resolves_witness: "FindEntry example_u [47, 98, 0] example_disk = Some 4"
proof -
  have "names example_disk [47, 98, 0] 438 [98]" by (rule root_names [OF example_path example_disk_ok(2)]) simp_all
  from FindEntry_resolves [OF example_disk_ok(1) this, of example_u] show ?thesis
    by (simp add: example_lookup path_dirs_def path_name_def)
qed

theorem inode_overlap_witness:
  "minix_GetInode 16 example_disk = None \<and>
   (\<exists>d'. minix_WriteInode 3 (replicate 32 0 @ [0xED, 0x41]) example_disk = Some d' \<and> inode_mode d' 4 = 0x41ED)"
  using inode_overlap [OF example_disk_ok(1), of "replicate 34 0" 16]
    inode_overlap [OF example_disk_ok(1), of "replicate 32 0 @ [0xED, 0x41]" 3]
  by (auto simp: sizeof_inode_def fits_def)

end
