(* ===== verification/Ide.thy ===== *)
theory Ide
  imports MinixDir
begin

text \<open>
  The disk driver \<^verbatim>\<open>kernel/drivers/ide.c\<close> on the port instructions of \<^verbatim>\<open>include/asm/io.h\<close>.
  The hardware is a parameter: what a port instruction does to it, and what interrupt ends a \<^verbatim>\<open>hlt\<close>. Of a drive only what
  the ATA standard promises is assumed; a command it is given while it is busy may do anything.
\<close>

section \<open>Port instructions\<close>

record 'd ports =
  port_outb :: "u16 \<Rightarrow> u8 \<Rightarrow> 'd \<Rightarrow> 'd"
  port_inb :: "u16 \<Rightarrow> 'd \<Rightarrow> u8 \<times> 'd"
  port_outw :: "u16 \<Rightarrow> u16 \<Rightarrow> 'd \<Rightarrow> 'd"
  port_inw :: "u16 \<Rightarrow> 'd \<Rightarrow> u16 \<times> 'd"
  next_interrupt :: "'d \<Rightarrow> bool \<times> 'd" \<comment> \<open>whether the interrupt that ends the next halt is the disk's\<close>

text \<open>The machine: the devices, and the flag the handler of the disk's interrupt sets.\<close>

record 'd machine =
  dev :: 'd
  ide_irq_fired :: u8

definition outb :: "'d ports \<Rightarrow> u16 \<Rightarrow> u8 \<Rightarrow> 'd machine \<Rightarrow> 'd machine" where
  "outb P port val s = s\<lparr>dev := port_outb P port val (dev s)\<rparr>"

definition inb :: "'d ports \<Rightarrow> u16 \<Rightarrow> 'd machine \<Rightarrow> u8 \<times> 'd machine" where
  "inb P port s = (let (ret, d) = port_inb P port (dev s) in (ret, s\<lparr>dev := d\<rparr>))"

definition outw :: "'d ports \<Rightarrow> u16 \<Rightarrow> u16 \<Rightarrow> 'd machine \<Rightarrow> 'd machine" where
  "outw P port val s = s\<lparr>dev := port_outw P port val (dev s)\<rparr>"



section \<open>The driver\<close>

definition ATA_PRIMARY_DATA :: u16 where "ATA_PRIMARY_DATA = 0x1F0"
definition ATA_PRIMARY_SECCOUNT :: u16 where "ATA_PRIMARY_SECCOUNT = 0x1F2"
definition ATA_PRIMARY_LBA_LOW :: u16 where "ATA_PRIMARY_LBA_LOW = 0x1F3"
definition ATA_PRIMARY_LBA_MID :: u16 where "ATA_PRIMARY_LBA_MID = 0x1F4"
definition ATA_PRIMARY_LBA_HIGH :: u16 where "ATA_PRIMARY_LBA_HIGH = 0x1F5"
definition ATA_PRIMARY_DRIVE_SEL :: u16 where "ATA_PRIMARY_DRIVE_SEL = 0x1F6"
definition ATA_PRIMARY_COMM_STAT :: u16 where "ATA_PRIMARY_COMM_STAT = 0x1F7"
definition ATA_CMD_READ_PIO :: u8 where "ATA_CMD_READ_PIO = 0x20"

text \<open>Both waits are loops that need not end.\<close>

partial_function (option) ide_wait_bsy :: "'d ports \<Rightarrow> 'd machine \<Rightarrow> 'd machine option" where
  "ide_wait_bsy P s =
     (let (status, s') = inb P ATA_PRIMARY_COMM_STAT s
      in if status AND 0x80 \<noteq> 0 then ide_wait_bsy P s' else Some s')"


text \<open>The head both transfers share: select drive and sector, then give the command.\<close>

definition select_sector :: "'d ports \<Rightarrow> u32 \<Rightarrow> 'd machine \<Rightarrow> 'd machine" where
  "select_sector P lba s =
     (let s1 = outb P ATA_PRIMARY_DRIVE_SEL (0xE0 OR ucast (drop_bit 24 lba AND 0x0F)) s;
          s2 = outb P ATA_PRIMARY_SECCOUNT 1 s1;
          s3 = outb P ATA_PRIMARY_LBA_LOW (ucast lba) s2;
          s4 = outb P ATA_PRIMARY_LBA_MID (ucast (drop_bit 8 lba)) s3
      in outb P ATA_PRIMARY_LBA_HIGH (ucast (drop_bit 16 lba)) s4)"


fun write_words :: "'d ports \<Rightarrow> nat \<Rightarrow> nat \<Rightarrow> u8 list \<Rightarrow> 'd machine \<Rightarrow> 'd machine option" where
  "write_words P i 0 buffer s = Some s"
| "write_words P i (Suc n) buffer s =
     do { w \<leftarrow> get16 buffer (2 * i); write_words P (Suc i) n buffer (outw P ATA_PRIMARY_DATA w s) }"


definition ide_write_sector :: "'d ports \<Rightarrow> u32 \<Rightarrow> u8 list \<Rightarrow> 'd machine \<Rightarrow> 'd machine option" where
  "ide_write_sector P lba buffer s =
     do { s1 \<leftarrow> ide_wait_bsy P (outb P 0x3F6 0 s);
          let s2 = (select_sector P lba s1)\<lparr>ide_irq_fired := 0\<rparr>;
          s3 \<leftarrow> ide_wait_bsy P (outb P ATA_PRIMARY_COMM_STAT 0x30 s2);
          s4 \<leftarrow> write_words P 0 256 buffer s3;
          ide_wait_bsy P (outb P ATA_PRIMARY_COMM_STAT 0xE7 s4) }"

section \<open>What the driver relies on\<close>

text \<open>The documented behaviour of an ATA drive in 28-bit LBA mode, one sector at a time: the registers, the transfer
  under way, the number of times the status still reads busy, and the number of other interrupts before its own
  (\<open>None\<close> when it has none to raise).\<close>

datatype transfer = Idle | Reading "u16 list" | Writing u32 "u16 list"

record ata =
  contents :: disk
  drive_sel :: u8
  sec_count :: u8
  lba_low :: u8
  lba_mid :: u8
  lba_high :: u8
  transfer :: transfer
  busy :: nat
  irq_in :: "nat option"

definition sector_words :: "u8 list \<Rightarrow> u16 list" where
  "sector_words bs = map (\<lambda>i. le_word (take 2 (drop (2 * i) bs))) [0..<256]"

definition word_bytes :: "u16 list \<Rightarrow> u8 list" where
  "word_bytes ws = concat (map (le_bytes 2) ws)"

definition lba_of :: "ata \<Rightarrow> u32" where
  "lba_of a = push_bit 24 (ucast (drive_sel a AND 0x0F)) OR push_bit 16 (ucast (lba_high a)) OR push_bit 8 (ucast (lba_mid a)) OR
     ucast (lba_low a)"

definition ready :: "ata \<Rightarrow> bool" where
  "ready a \<longleftrightarrow> transfer a = Idle \<and> sec_count a = 1 \<and> drive_sel a AND 0xF0 = 0xE0"

text \<open>\<open>ata_device P view\<close>: seen through \<open>view\<close>, the hardware behind the ports is such a drive. How long it is busy and when
  its interrupt comes is its own choice. Nothing is promised of a register or a command that is written while the drive is
  busy or a transfer is under way: the standard leaves that indeterminate.\<close>

definition registers_ok :: "'d ports \<Rightarrow> ('d \<Rightarrow> ata) \<Rightarrow> bool" where
  "registers_ok P view \<longleftrightarrow> (\<forall>v d.
     view (port_outb P 0x3F6 v d) = view d \<and>
     (busy (view d) = 0 \<and> transfer (view d) = Idle \<longrightarrow>
       view (port_outb P 0x1F2 v d) = (view d)\<lparr>sec_count := v\<rparr> \<and> view (port_outb P 0x1F3 v d) = (view d)\<lparr>lba_low := v\<rparr> \<and>
       view (port_outb P 0x1F4 v d) = (view d)\<lparr>lba_mid := v\<rparr> \<and> view (port_outb P 0x1F5 v d) = (view d)\<lparr>lba_high := v\<rparr> \<and>
       view (port_outb P 0x1F6 v d) = (view d)\<lparr>drive_sel := v\<rparr>))"

definition commands_ok :: "'d ports \<Rightarrow> ('d \<Rightarrow> ata) \<Rightarrow> bool" where
  "commands_ok P view \<longleftrightarrow> (\<forall>d. ready (view d) \<and> busy (view d) = 0 \<longrightarrow>
     (\<exists>b k. view (port_outb P 0x1F7 0x20 d) =
        (view d)\<lparr>transfer := Reading (sector_words (contents (view d) (lba_of (view d)))), busy := b, irq_in := Some k\<rparr>) \<and>
     (\<exists>b. view (port_outb P 0x1F7 0x30 d) = (view d)\<lparr>transfer := Writing (lba_of (view d)) [], busy := b, irq_in := None\<rparr>) \<and>
     (\<exists>b k. view (port_outb P 0x1F7 0xE7 d) = (view d)\<lparr>busy := b, irq_in := k\<rparr>))"

definition waits_ok :: "'d ports \<Rightarrow> ('d \<Rightarrow> ata) \<Rightarrow> bool" where
  "waits_ok P view \<longleftrightarrow> (\<forall>d.
     (fst (port_inb P 0x1F7 d) AND 0x80 \<noteq> 0 \<longleftrightarrow> busy (view d) \<noteq> 0) \<and>
     view (snd (port_inb P 0x1F7 d)) = (view d)\<lparr>busy := busy (view d) - 1\<rparr> \<and>
     (\<forall>k. irq_in (view d) = Some k \<longrightarrow> (fst (next_interrupt P d) \<longleftrightarrow> k = 0) \<and>
        view (snd (next_interrupt P d)) =
          (if k = 0 then (view d)\<lparr>irq_in := None, busy := 0\<rparr> else (view d)\<lparr>irq_in := Some (k - 1)\<rparr>)))"

definition data_ok :: "'d ports \<Rightarrow> ('d \<Rightarrow> ata) \<Rightarrow> bool" where
  "data_ok P view \<longleftrightarrow> (\<forall>d.
     (\<forall>w ws. transfer (view d) = Reading (w # ws) \<and> irq_in (view d) = None \<and> busy (view d) = 0 \<longrightarrow>
        fst (port_inw P 0x1F0 d) = w \<and>
        view (snd (port_inw P 0x1F0 d)) = (view d)\<lparr>transfer := (if ws = [] then Idle else Reading ws)\<rparr>) \<and>
     (\<forall>v l ws. transfer (view d) = Writing l ws \<and> busy (view d) = 0 \<longrightarrow>
        (if length ws < 255 then view (port_outw P 0x1F0 v d) = (view d)\<lparr>transfer := Writing l (ws @ [v])\<rparr>
         else \<exists>b k. view (port_outw P 0x1F0 v d) =
           (view d)\<lparr>transfer := Idle, contents := (contents (view d))(l := word_bytes (ws @ [v])), busy := b, irq_in := k\<rparr>)))"

definition ata_device :: "'d ports \<Rightarrow> ('d \<Rightarrow> ata) \<Rightarrow> bool" where
  "ata_device P view \<longleftrightarrow> registers_ok P view \<and> commands_ok P view \<and> waits_ok P view \<and> data_ok P view"

section \<open>The driver implements the disk\<close>

lemmas port_numbers = ATA_PRIMARY_DATA_def ATA_PRIMARY_SECCOUNT_def ATA_PRIMARY_LBA_LOW_def ATA_PRIMARY_LBA_MID_def
  ATA_PRIMARY_LBA_HIGH_def ATA_PRIMARY_DRIVE_SEL_def ATA_PRIMARY_COMM_STAT_def ATA_CMD_READ_PIO_def

lemma status_read:
  assumes "waits_ok P view"
  shows "fst (port_inb P 0x1F7 d) AND 0x80 = 0 \<longleftrightarrow> busy (view d) = 0"
    and "view (snd (port_inb P 0x1F7 d)) = (view d)\<lparr>busy := busy (view d) - 1\<rparr>"
  using assms unfolding waits_ok_def by blast+

lemma wait_bsy_ends:
  assumes "waits_ok P view"
  shows "\<exists>s'. ide_wait_bsy P s = Some s' \<and> view (dev s') = (view (dev s))\<lparr>busy := 0\<rparr> \<and> ide_irq_fired s' = ide_irq_fired s"
proof (induction "busy (view (dev s))" arbitrary: s)
  case 0
  then show ?case using status_read [OF assms, of "dev s"]
    by (subst ide_wait_bsy.simps) (auto simp: inb_def port_numbers split_def Let_def)
next
  case (Suc n)
  have r: "fst (port_inb P 0x1F7 (dev s)) AND 0x80 \<noteq> 0" "view (snd (port_inb P 0x1F7 (dev s))) = (view (dev s))\<lparr>busy := n\<rparr>"
    using status_read [OF assms, of "dev s"] Suc(2) [symmetric] by simp_all
  let ?s = "s\<lparr>dev := snd (port_inb P 0x1F7 (dev s))\<rparr>"
  obtain s' where "ide_wait_bsy P ?s = Some s'" "view (dev s') = (view (dev ?s))\<lparr>busy := 0\<rparr>" "ide_irq_fired s' = ide_irq_fired ?s"
    using Suc(1) [of ?s] r(2) by auto
  then show ?case using r by (subst ide_wait_bsy.simps) (auto simp: inb_def port_numbers split_def Let_def)
qed


lemma bit_constants:
  "(0xE0 :: u8) = push_bit 5 (mask 3)" "(0x0F :: u8) = mask 4" "(0xF0 :: u8) = push_bit 4 (mask 4)"
  "(0x0F :: u32) = mask 4" "(0x0FFFFFFF :: u32) = mask 28"
  by (simp_all add: mask_eq_exp_minus_1)

lemma lba_parts:
  fixes lba :: u32
  shows "push_bit 24 (ucast ((0xE0 OR ucast (drop_bit 24 lba AND 0x0F) :: u8) AND 0x0F)) OR push_bit 16 (ucast (ucast (drop_bit 16 lba) :: u8)) OR
      push_bit 8 (ucast (ucast (drop_bit 8 lba) :: u8)) OR ucast (ucast lba :: u8) = lba AND 0x0FFFFFFF"
  unfolding bit_constants
proof (rule bit_word_eqI)
  fix n
  assume "n < LENGTH(32)"
  then show "bit (push_bit 24 (ucast ((push_bit 5 (mask 3) OR ucast (drop_bit 24 lba AND mask 4) :: u8) AND mask 4)) OR
      push_bit 16 (ucast (ucast (drop_bit 16 lba) :: u8)) OR push_bit 8 (ucast (ucast (drop_bit 8 lba) :: u8)) OR ucast (ucast lba :: u8) :: u32) n \<longleftrightarrow>
      bit (lba AND mask 28) n"
  proof -
    consider "n < 8" | "8 \<le> n" "n < 16" | "16 \<le> n" "n < 24" | "24 \<le> n" by linarith
    then show ?thesis by cases (auto simp: bit_simps)
  qed
qed

lemma drive_bits: "(0xE0 OR ucast (w AND 0x0F :: u32) :: u8) AND 0xF0 = 0xE0"
  unfolding bit_constants by (rule bit_word_eqI) (auto simp: bit_simps)

lemma select_sector_spec:
  assumes "registers_ok P view" and "busy (view (dev s)) = 0" and "transfer (view (dev s)) = Idle"
  shows "\<exists>s'. select_sector P lba s = s' \<and> lba_of (view (dev s')) = lba AND 0x0FFFFFFF \<and> sec_count (view (dev s')) = 1 \<and>
    drive_sel (view (dev s')) AND 0xF0 = 0xE0 \<and> contents (view (dev s')) = contents (view (dev s)) \<and>
    transfer (view (dev s')) = Idle \<and> busy (view (dev s')) = 0"
proof -
  have r: "view (port_outb P 0x1F2 v d) = (view d)\<lparr>sec_count := v\<rparr>" "view (port_outb P 0x1F3 v d) = (view d)\<lparr>lba_low := v\<rparr>"
     "view (port_outb P 0x1F4 v d) = (view d)\<lparr>lba_mid := v\<rparr>" "view (port_outb P 0x1F5 v d) = (view d)\<lparr>lba_high := v\<rparr>"
     "view (port_outb P 0x1F6 v d) = (view d)\<lparr>drive_sel := v\<rparr>" if "busy (view d) = 0" "transfer (view d) = Idle" for v d
    using assms(1) that unfolding registers_ok_def by blast+
  show ?thesis
    by (simp add: select_sector_def Let_def outb_def port_numbers r assms(2,3) drive_bits) (simp add: lba_of_def lba_parts)
qed


lemma write_words_spec:
  assumes "data_ok P view"
  shows "transfer (view (dev s)) = Writing l ws \<Longrightarrow> busy (view (dev s)) = 0 \<Longrightarrow> length ws + n = 256 \<Longrightarrow> 0 < n \<Longrightarrow>
    length buffer = 512 \<Longrightarrow> i = length ws \<Longrightarrow>
    \<exists>s' b k. write_words P i n buffer s = Some s' \<and>
      view (dev s') = (view (dev s))\<lparr>transfer := Idle, contents := (contents (view (dev s)))(l := word_bytes (ws @ drop i (sector_words buffer))),
        busy := b, irq_in := k\<rparr>"
proof (induction n arbitrary: i ws s)
  case (Suc n)
  let ?w = "sector_words buffer ! i" and ?d = "port_outw P 0x1F0 (sector_words buffer ! i) (dev s)"
  have len: "length (sector_words buffer) = 256" by (simp add: sector_words_def)
  have i: "i < 256" using Suc.prems by simp
  have get: "get16 buffer (2 * i) = Some ?w"
    using i Suc.prems(5) by (simp add: get16_def buf_get_def sector_words_def)
  have dr: "drop i (sector_words buffer) = ?w # drop (Suc i) (sector_words buffer)" using len i by (simp add: Cons_nth_drop_Suc)
  show ?case
  proof (cases n)
    case 0
    then have "\<not> length ws < 255" "drop (Suc i) (sector_words buffer) = []" using Suc.prems len by simp_all
    then obtain b k where "view ?d = (view (dev s))\<lparr>transfer := Idle,
        contents := (contents (view (dev s)))(l := word_bytes (ws @ [?w])), busy := b, irq_in := k\<rparr>"
      using assms Suc.prems(1,2) unfolding data_ok_def by meson
    moreover have "write_words P i (Suc n) buffer s = Some (s\<lparr>dev := ?d\<rparr>)" using 0 get by (simp add: outw_def port_numbers)
    moreover have "drop i (sector_words buffer) = [?w]" unfolding dr \<open>drop (Suc i) _ = []\<close> ..
    moreover have "dev (s\<lparr>dev := ?d\<rparr>) = ?d" by simp
    ultimately show ?thesis by metis
  next
    case (Suc m)
    then have "length ws < 255" using Suc.prems by simp
    then have v: "view ?d = (view (dev s))\<lparr>transfer := Writing l (ws @ [?w])\<rparr>"
      using assms Suc.prems(1,2) unfolding data_ok_def by meson
    let ?s = "s\<lparr>dev := ?d\<rparr>"
    have pre: "transfer (view (dev ?s)) = Writing l (ws @ [?w])" "busy (view (dev ?s)) = 0" "length (ws @ [?w]) + n = 256" "0 < n"
      "length buffer = 512" "Suc i = length (ws @ [?w])"
      using v Suc.prems Suc by simp_all
    have "(ws @ [?w]) @ drop (Suc i) (sector_words buffer) = ws @ drop i (sector_words buffer)" using dr by simp
    moreover have "dev ?s = ?d" "contents (view ?d) = contents (view (dev s))" using v by simp_all
    ultimately obtain s' b k where "write_words P (Suc i) n buffer ?s = Some s'" "view (dev s') = (view ?d)
        \<lparr>transfer := Idle, contents := (contents (view (dev s)))(l := word_bytes (ws @ drop i (sector_words buffer))), busy := b, irq_in := k\<rparr>"
      using Suc.IH [OF pre] by metis
    moreover have "(view ?d)\<lparr>transfer := Idle, contents := c, busy := b, irq_in := k\<rparr> =
        (view (dev s))\<lparr>transfer := Idle, contents := c, busy := b, irq_in := k\<rparr>" for c unfolding v by simp
    moreover have "write_words P i (Suc n) buffer s = write_words P (Suc i) n buffer ?s" using get by (simp add: outw_def port_numbers)
    ultimately show ?thesis by metis
  qed
qed simp

lemma le_bytes_le_word2: "le_bytes 2 (ucast a OR push_bit 8 (ucast b) :: u16) = [a, b]"
proof -
  have "ucast (ucast a OR push_bit 8 (ucast b) :: u16) = a" "ucast (drop_bit 8 (ucast a OR push_bit 8 (ucast b) :: u16)) = b"
    by (rule bit_word_eqI, auto simp: bit_simps dest: bit_imp_le_length)+
  then show ?thesis by (simp add: le_bytes_def upt_rec)
qed

lemma word_bytes_sector:
  assumes "length bs = 512"
  shows "word_bytes (sector_words bs) = bs"
proof -
  have "concat (map (\<lambda>i. le_bytes 2 (le_word (take 2 (drop (2 * i) bs)) :: u16)) [0..<n]) = bs" if "length bs = 2 * n" for n and bs :: "u8 list"
    using that
  proof (induction n arbitrary: bs)
    case (Suc n)
    then obtain a b r where bs: "bs = a # b # r" "length r = 2 * n"
      by (cases bs; cases "tl bs") auto
    have "[0..<Suc n] = 0 # map Suc [0..<n]" by (simp add: map_Suc_upt upt_conv_Cons del: upt_Suc)
    then show ?case using Suc.IH [OF bs(2)] by (simp add: bs(1) comp_def le_bytes_le_word2 del: upt_Suc)
  qed simp
  from this [of bs 256] show ?thesis using assms by (simp add: word_bytes_def sector_words_def comp_def)
qed

text \<open>What both transfers begin with: the drive waited for, the sector selected.\<close>

lemma drive_selected:
  assumes "ata_device P view" and "transfer (view (dev s)) = Idle"
  shows "\<exists>s1 b k b'. ide_wait_bsy P (outb P 0x3F6 0 s) = Some s1 \<and>
    (let s2 = (select_sector P lba s1)\<lparr>ide_irq_fired := 0\<rparr> in ready (view (dev s2)) \<and> lba_of (view (dev s2)) = lba AND 0x0FFFFFFF \<and> contents (view (dev s2)) = contents (view (dev s)) \<and>
     view (port_outb P 0x1F7 0x20 (dev s2)) = (view (dev s2))
        \<lparr>transfer := Reading (sector_words (sector_read lba (contents (view (dev s))))), busy := b, irq_in := Some k\<rparr> \<and>
     view (port_outb P 0x1F7 0x30 (dev s2)) = (view (dev s2))\<lparr>transfer := Writing (lba AND 0x0FFFFFFF) [], busy := b', irq_in := None\<rparr>)"
proof -
  have ok: "registers_ok P view" "commands_ok P view" "waits_ok P view" "data_ok P view" using assms(1) by (simp_all add: ata_device_def)
  have v0: "view (dev (outb P 0x3F6 0 s)) = view (dev s)" using ok(1) by (simp add: registers_ok_def outb_def)
  obtain s1 where s1: "ide_wait_bsy P (outb P 0x3F6 0 s) = Some s1" "view (dev s1) = (view (dev s))\<lparr>busy := 0\<rparr>"
    using wait_bsy_ends [OF ok(3), of "outb P 0x3F6 0 s"] v0 by auto
  define s2 where "s2 = (select_sector P lba s1)\<lparr>ide_irq_fired := 0\<rparr>"
  have s2: "lba_of (view (dev s2)) = lba AND 0x0FFFFFFF" "ready (view (dev s2)) \<and> busy (view (dev s2)) = 0"
    "contents (view (dev s2)) = contents (view (dev s))" "ide_irq_fired s2 = 0"
    using select_sector_spec [OF ok(1), of s1 lba] s1(2) assms(2) by (auto simp: s2_def ready_def)
  obtain b k b' where c: "view (port_outb P 0x1F7 0x20 (dev s2)) = (view (dev s2))
        \<lparr>transfer := Reading (sector_words (sector_read lba (contents (view (dev s))))), busy := b, irq_in := Some k\<rparr>"
      "view (port_outb P 0x1F7 0x30 (dev s2)) = (view (dev s2))\<lparr>transfer := Writing (lba AND 0x0FFFFFFF) [], busy := b', irq_in := None\<rparr>"
    using ok(2) s2 unfolding commands_ok_def sector_read_def by metis
  show ?thesis using s1(1) s2(1-3) c unfolding Let_def s2_def by blast
qed


text \<open>The first part of a write: up to the last word of the sector.\<close>

definition sector_sent :: "'d ports \<Rightarrow> u32 \<Rightarrow> u8 list \<Rightarrow> 'd machine \<Rightarrow> 'd machine option" where
  "sector_sent P lba buffer s =
     do { s1 \<leftarrow> ide_wait_bsy P (outb P 0x3F6 0 s);
          let s2 = (select_sector P lba s1)\<lparr>ide_irq_fired := 0\<rparr>;
          s3 \<leftarrow> ide_wait_bsy P (outb P ATA_PRIMARY_COMM_STAT 0x30 s2);
          write_words P 0 256 buffer s3 }"

lemma ide_write_sector_sent:
  "ide_write_sector P lba buffer s =
     do { s4 \<leftarrow> sector_sent P lba buffer s; ide_wait_bsy P (outb P ATA_PRIMARY_COMM_STAT 0xE7 s4) }"
  by (simp add: ide_write_sector_def sector_sent_def Let_def)

lemma sector_sent_spec:
  assumes "ata_device P view" and "transfer (view (dev s)) = Idle" and "length buffer = 512"
  shows "\<exists>s4. sector_sent P lba buffer s = Some s4 \<and> ready (view (dev s4)) \<and> lba_of (view (dev s4)) = lba AND 0x0FFFFFFF \<and>
    contents (view (dev s4)) = sector_write lba buffer (contents (view (dev s))) \<and> transfer (view (dev s4)) = Idle"
proof -
  have ok: "waits_ok P view" "data_ok P view" "commands_ok P view" using assms(1) by (simp_all add: ata_device_def)
  obtain s1 b k b' where s1: "ide_wait_bsy P (outb P 0x3F6 0 s) = Some s1" and sel: "let s2 = (select_sector P lba s1)\<lparr>ide_irq_fired := 0\<rparr> in
     ready (view (dev s2)) \<and> lba_of (view (dev s2)) = lba AND 0x0FFFFFFF \<and> contents (view (dev s2)) = contents (view (dev s)) \<and>
     view (port_outb P 0x1F7 0x20 (dev s2)) = (view (dev s2))
        \<lparr>transfer := Reading (sector_words (sector_read lba (contents (view (dev s))))), busy := b, irq_in := Some k\<rparr> \<and>
     view (port_outb P 0x1F7 0x30 (dev s2)) = (view (dev s2))\<lparr>transfer := Writing (lba AND 0x0FFFFFFF) [], busy := b', irq_in := None\<rparr>"
    using drive_selected [OF assms(1,2)] by blast
  define s2 where "s2 = (select_sector P lba s1)\<lparr>ide_irq_fired := 0\<rparr>"
  have s2: "ready (view (dev s2))" "contents (view (dev s2)) = contents (view (dev s))" "lba_of (view (dev s2)) = lba AND 0x0FFFFFFF"
    and c: "view (port_outb P 0x1F7 0x30 (dev s2)) = (view (dev s2))\<lparr>transfer := Writing (lba AND 0x0FFFFFFF) [], busy := b', irq_in := None\<rparr>"
    using sel unfolding Let_def s2_def [symmetric] by (simp_all add: s2_def)
  obtain s3 where s3: "ide_wait_bsy P (outb P 0x1F7 0x30 s2) = Some s3"
    "view (dev s3) = (view (dev s2))\<lparr>transfer := Writing (lba AND 0x0FFFFFFF) [], busy := 0, irq_in := None\<rparr>"
    using wait_bsy_ends [OF ok(1), of "outb P 0x1F7 0x30 s2"] c by (auto simp: outb_def)
  obtain s4 b k where s4: "write_words P 0 256 buffer s3 = Some s4"
    "view (dev s4) = (view (dev s3))\<lparr>transfer := Idle, contents := (contents (view (dev s3)))(lba AND 0x0FFFFFFF := buffer), busy := b, irq_in := k\<rparr>"
    using write_words_spec [OF ok(2), of s3 "lba AND 0x0FFFFFFF" "[]" 256 buffer 0] s3(2) assms(3) word_bytes_sector [OF assms(3)] by auto
  have "sector_sent P lba buffer s = Some s4" using s1 s3(1) s4(1) by (simp add: sector_sent_def s2_def port_numbers Let_def)
  moreover have "ready (view (dev s4)) \<and> lba_of (view (dev s4)) = lba AND 0x0FFFFFFF"
    using s4(2) s3(2) s2(1,3) by (simp add: ready_def lba_of_def)
  ultimately show ?thesis using s4(2) s3(2) s2(2) by (auto simp: sector_write_def)
qed



text \<open>A drive that is busy for three status reads after a command and raises its interrupt as the third; after a sector has
  been written it is busy for a time of its own. What it does with a command it gets while it is busy is a parameter.\<close>

definition example_drive :: "nat \<Rightarrow> (ata \<Rightarrow> ata) \<Rightarrow> ata ports" where
  "example_drive slow f =
     \<lparr>port_outb = (\<lambda>port v a. if port = 0x3F6 then a
        else if busy a \<noteq> 0 \<or> transfer a \<noteq> Idle then (if port = 0x1F7 then f a else a)
        else if port = 0x1F2 then a\<lparr>sec_count := v\<rparr> else if port = 0x1F3 then a\<lparr>lba_low := v\<rparr>
        else if port = 0x1F4 then a\<lparr>lba_mid := v\<rparr> else if port = 0x1F5 then a\<lparr>lba_high := v\<rparr>
        else if port = 0x1F6 then a\<lparr>drive_sel := v\<rparr>
        else if port = 0x1F7 \<and> v = 0x20 then a\<lparr>transfer := Reading (sector_words (contents a (lba_of a))), busy := 3, irq_in := Some 2\<rparr>
        else if port = 0x1F7 \<and> v = 0x30 then a\<lparr>transfer := Writing (lba_of a) [], busy := 3, irq_in := None\<rparr>
        else if port = 0x1F7 \<and> v = 0xE7 then a\<lparr>busy := 3, irq_in := None\<rparr> else a),
      port_inb = (\<lambda>port a. (if busy a = 0 then 0x50 else 0xD0, a\<lparr>busy := busy a - 1\<rparr>)),
      port_outw = (\<lambda>port v a. case transfer a of
          Writing l ws \<Rightarrow> if length ws < 255 then a\<lparr>transfer := Writing l (ws @ [v])\<rparr>
            else a\<lparr>transfer := Idle, contents := (contents a)(l := word_bytes (ws @ [v])), busy := slow, irq_in := None\<rparr>
        | _ \<Rightarrow> a),
      port_inw = (\<lambda>port a. case transfer a of
          Reading (w # ws) \<Rightarrow> (w, a\<lparr>transfer := (if ws = [] then Idle else Reading ws)\<rparr>) | _ \<Rightarrow> (0, a)),
      next_interrupt = (\<lambda>a. case irq_in a of None \<Rightarrow> (False, a)
        | Some k \<Rightarrow> (k = 0, if k = 0 then a\<lparr>irq_in := None, busy := 0\<rparr> else a\<lparr>irq_in := Some (k - 1)\<rparr>))\<rparr>"

lemma example_drive_ok: "ata_device (example_drive slow f) id"
proof -
  have "(0x50 :: u8) AND 0x80 = 0" "(0xD0 :: u8) AND 0x80 \<noteq> 0" by simp_all
  then show ?thesis
    unfolding ata_device_def
  proof (intro conjI)
    show "registers_ok (example_drive slow f) id" by (simp add: registers_ok_def example_drive_def)
    show "commands_ok (example_drive slow f) id" by (simp add: commands_ok_def ready_def example_drive_def) (metis (no_types))
    show "waits_ok (example_drive slow f) id" by (simp add: waits_ok_def example_drive_def split: option.split)
    show "data_ok (example_drive slow f) id" by (simp add: data_ok_def example_drive_def) (metis (no_types))
  qed
qed

text \<open>The busy time after the last word of a sector.\<close>

lemma example_drive_busy:
  "transfer (dev s) = Writing l ws \<Longrightarrow> length ws + n = 256 \<Longrightarrow> 0 < n \<Longrightarrow>
   write_words (example_drive slow f) i n buffer s = Some s' \<Longrightarrow> busy (dev s') = slow"
proof (induction n arbitrary: i ws s)
  case (Suc n)
  obtain w where w: "write_words (example_drive slow f) (Suc i) n buffer (outw (example_drive slow f) ATA_PRIMARY_DATA w s) = Some s'"
    using Suc.prems(4) by (auto split: bind_splits)
  have o: "dev (outw (example_drive slow f) ATA_PRIMARY_DATA w s) =
      (if length ws < 255 then (dev s)\<lparr>transfer := Writing l (ws @ [w])\<rparr>
       else (dev s)\<lparr>transfer := Idle, contents := (contents (dev s))(l := word_bytes (ws @ [w])), busy := slow, irq_in := None\<rparr>)"
    using Suc.prems(1) by (simp add: outw_def example_drive_def)
  show ?case
  proof (cases "n = 0")
    case True
    then show ?thesis using w o Suc.prems(2) by auto
  next
    case False
    then show ?thesis using Suc.IH [OF _ _ _ w, of "ws @ [w]"] o Suc.prems(2) by simp
  qed
qed simp


text \<open>A drive that throws the sector away which it is still busy with.\<close>

definition drop_sector :: "ata \<Rightarrow> ata" where
  "drop_sector a = a\<lparr>contents := (contents a)(lba_of a := replicate 512 0), busy := 0\<rparr>"

text \<open>C24: A sector can be lost. The driver does not wait for the drive between the last word of a sector and the command to flush
  the cache. On a drive that does everything the standard asks for, but takes some time over a sector and drops it when
  a command comes in meanwhile, every write returns without complaint and leaves zeros where the buffer should be.\<close>

theorem ide_write_lost:
  assumes "transfer (dev s) = Idle" and "length buffer = 512" and "0 < slow"
  shows "ata_device (example_drive slow drop_sector) id \<and>
    (\<exists>s'. ide_write_sector (example_drive slow drop_sector) lba buffer s = Some s' \<and>
      sector_read lba (contents (dev s')) = replicate 512 0)"
proof -
  let ?P = "example_drive slow drop_sector"
  note dev = example_drive_ok [of slow drop_sector]
  obtain s4 where s4: "sector_sent ?P lba buffer s = Some s4" "lba_of (dev s4) = lba AND 0x0FFFFFFF"
    using sector_sent_spec [OF dev, of s buffer lba] assms(1,2) by auto
  have "busy (dev s4) = slow"
  proof -
    obtain s1 where s1: "ide_wait_bsy ?P (outb ?P 0x3F6 0 s) = Some s1" "dev s1 = (dev (outb ?P 0x3F6 0 s))\<lparr>busy := 0\<rparr>"
      using wait_bsy_ends [of ?P id "outb ?P 0x3F6 0 s"] dev by (auto simp: ata_device_def)
    have "transfer (dev s1) = Idle" "busy (dev s1) = 0" using s1(2) assms(1) by (simp_all add: outb_def example_drive_def)
    then obtain s2 where s2: "(select_sector ?P lba s1)\<lparr>ide_irq_fired := 0\<rparr> = s2" "transfer (dev s2) = Idle" "busy (dev s2) = 0"
      using select_sector_spec [of ?P id s1 lba] dev by (auto simp: ata_device_def)
    obtain s3 where s3: "ide_wait_bsy ?P (outb ?P 0x1F7 0x30 s2) = Some s3" "dev s3 = (dev (outb ?P 0x1F7 0x30 s2))\<lparr>busy := 0\<rparr>"
      using wait_bsy_ends [of ?P id "outb ?P 0x1F7 0x30 s2"] dev by (auto simp: ata_device_def)
    have "transfer (dev s3) = Writing (lba_of (dev s2)) []" using s3(2) s2 by (simp add: outb_def example_drive_def)
    moreover have "write_words ?P 0 256 buffer s3 = Some s4"
      using s4(1) s1(1) s2(1) s3(1) by (simp add: sector_sent_def port_numbers Let_def)
    ultimately show ?thesis using example_drive_busy [of s3 _ "[]" 256] by simp
  qed
  then have "dev (outb ?P 0x1F7 0xE7 s4) = drop_sector (dev s4)"
    using assms(3) by (simp add: outb_def example_drive_def)
  then obtain s5 where "ide_wait_bsy ?P (outb ?P 0x1F7 0xE7 s4) = Some s5" "dev s5 = (drop_sector (dev s4))\<lparr>busy := 0\<rparr>"
    using wait_bsy_ends [of ?P id "outb ?P 0x1F7 0xE7 s4"] dev by (auto simp: ata_device_def)
  then show ?thesis using s4 dev by (auto simp: ide_write_sector_sent port_numbers drop_sector_def sector_read_def)
qed

theorem ide_write_lost_witness:
  "\<exists>s s'. ide_write_sector (example_drive 3 drop_sector) 438 (replicate 512 0xFF) s = Some s' \<and>
     sector_read 438 (contents (dev s')) = replicate 512 0"
proof -
  let ?a = "\<lparr>contents = (\<lambda>_. replicate 512 7), drive_sel = 0, sec_count = 0, lba_low = 0, lba_mid = 0, lba_high = 0,
    transfer = Idle, busy = 0, irq_in = None\<rparr>"
  show ?thesis using ide_write_lost [of "\<lparr>dev = ?a, ide_irq_fired = 0\<rparr>" "replicate 512 0xFF" 3 438] by auto
qed

end
