(* ===== verification/Clock.thy ===== *)
theory Clock
  imports Ide
begin

text \<open>
  The real-time clock, \<^verbatim>\<open>kernel/time.c\<close>: \<^verbatim>\<open>time_init\<close> reads the registers of the CMOS clock until the
  seconds agree before and after, and converts them. The clock chip is a parameter with its documented
  encodings; an update cycle, during which the registers hold anything, may begin or end between any two reads.
\<close>

section \<open>The code\<close>

record tm =
  tm_sec :: int
  tm_min :: int
  tm_hour :: int
  tm_mday :: int
  tm_mon :: int
  tm_year :: int

definition CMOS_READ :: "'d ports \<Rightarrow> u8 \<Rightarrow> 'd machine \<Rightarrow> u8 \<times> 'd machine" where
  "CMOS_READ P addr s = inb P 0x71 (outb P 0x70 (0x80 OR addr) s)"

definition BCD_TO_BIN :: "int \<Rightarrow> int" where
  "BCD_TO_BIN val = (val AND 0x0F) + drop_bit 4 val * 10"

text \<open>The body of the \<^verbatim>\<open>do\<close> loop, with \<^verbatim>\<open>last_sec\<close>.\<close>

definition read_fields :: "'d ports \<Rightarrow> 'd machine \<Rightarrow> tm \<times> u8 \<times> 'd machine" where
  "read_fields P s =
     (let (sec, s1) = CMOS_READ P 0x00 s;
          (mn, s2) = CMOS_READ P 0x02 s1;
          (hour, s3) = CMOS_READ P 0x04 s2;
          (mday, s4) = CMOS_READ P 0x07 s3;
          (mon, s5) = CMOS_READ P 0x08 s4;
          (year, s6) = CMOS_READ P 0x09 s5;
          (last_sec, s7) = CMOS_READ P 0x00 s6
      in (\<lparr>tm_sec = uint sec, tm_min = uint mn, tm_hour = uint hour, tm_mday = uint mday, tm_mon = uint mon,
           tm_year = uint year\<rparr>, last_sec, s7))"

partial_function (option) read_loop :: "'d ports \<Rightarrow> 'd machine \<Rightarrow> (tm \<times> 'd machine) option" where
  "read_loop P s =
     (let (t, last_sec, s') = read_fields P s
      in if tm_sec t \<noteq> uint last_sec then read_loop P s' else Some (t, s'))"

definition bcd_fields :: "tm \<Rightarrow> tm" where
  "bcd_fields t = \<lparr>tm_sec = BCD_TO_BIN (tm_sec t), tm_min = BCD_TO_BIN (tm_min t), tm_hour = BCD_TO_BIN (tm_hour t),
     tm_mday = BCD_TO_BIN (tm_mday t), tm_mon = BCD_TO_BIN (tm_mon t), tm_year = BCD_TO_BIN (tm_year t)\<rparr>"

definition time_init :: "'d ports \<Rightarrow> 'd machine \<Rightarrow> (tm \<times> 'd machine) option" where
  "time_init P s =
     do { (t, s1) \<leftarrow> read_loop P s;
          let (status_b, s2) = CMOS_READ P 0x0B s1;
          let t1 = (if status_b AND 0x04 = 0 then bcd_fields t else t);
          let t2 = (if status_b AND 0x02 = 0 \<and> tm_hour t1 AND 0x80 \<noteq> 0
                    then t1\<lparr>tm_hour := ((tm_hour t1 AND 0x7F) + 12) mod 24\<rparr> else t1);
          Some (t2\<lparr>tm_mon := tm_mon t2 - 1, tm_year := tm_year t2 + 2000\<rparr>, s2) }"

section \<open>The clock chip\<close>

text \<open>Calendar time, and how the chip shows it: in binary or in decimal digits, the hour counted to 24 or to 12 with
  the top bit for the afternoon.\<close>

record calendar =
  sec :: nat
  minute :: nat
  hour :: nat
  mday :: nat
  month :: nat
  year :: nat

definition calendar_ok :: "calendar \<Rightarrow> bool" where
  "calendar_ok c \<longleftrightarrow> sec c < 60 \<and> minute c < 60 \<and> hour c < 24 \<and> mday c < 32 \<and> month c < 13 \<and> year c < 100"

definition rtc_digits :: "u8 \<Rightarrow> nat \<Rightarrow> u8" where
  "rtc_digits status v = (if bit status 2 then of_nat v else of_nat (16 * (v div 10) + v mod 10))"

definition half_day :: "nat \<Rightarrow> nat" where
  "half_day h = (if h mod 12 = 0 then 12 else h mod 12)"

definition rtc_register :: "u8 \<Rightarrow> calendar \<Rightarrow> u8 \<Rightarrow> u8" where
  "rtc_register status c r =
     (if r = 0 then rtc_digits status (sec c)
      else if r = 2 then rtc_digits status (minute c)
      else if r = 4
      then (if bit status 1 then rtc_digits status (hour c)
            else rtc_digits status (half_day (hour c)) OR (if 12 \<le> hour c then 0x80 else 0))
      else if r = 7 then rtc_digits status (mday c)
      else if r = 8 then rtc_digits status (month c)
      else if r = 9 then rtc_digits status (year c)
      else if r = 0x0B then status
      else 0)"

text \<open>The chip: the second it is in, how many more reads the update cycle lasts it is in (0 outside one), how many
  more reads there are before the next update cycle, and the register selected. Between two update cycles there is almost a
  second, more than enough for thirteen reads; the cycle itself may fall between two reads or last over any number of them.\<close>

record rtc =
  instant :: nat
  upd :: nat
  left :: nat
  index :: u8

inductive rtc_next :: "rtc \<Rightarrow> rtc \<Rightarrow> bool" where
  Counting: "upd c = 0 \<Longrightarrow> 0 < left c \<Longrightarrow> rtc_next c (c\<lparr>left := left c - 1\<rparr>)"
| Unseen: "upd c = 0 \<Longrightarrow> left c = 0 \<Longrightarrow> 13 \<le> n \<Longrightarrow> rtc_next c (c\<lparr>instant := Suc (instant c), left := n\<rparr>)"
| Starts: "upd c = 0 \<Longrightarrow> left c = 0 \<Longrightarrow> 0 < u \<Longrightarrow> rtc_next c (c\<lparr>upd := u\<rparr>)"
| Updating: "1 < upd c \<Longrightarrow> rtc_next c (c\<lparr>upd := upd c - 1\<rparr>)"
| Ends: "upd c = 1 \<Longrightarrow> 13 \<le> n \<Longrightarrow> rtc_next c (c\<lparr>upd := 0, instant := Suc (instant c), left := n\<rparr>)"

inductive_cases rtc_nextE: "rtc_next c c'"

text \<open>What the data sheet promises: outside an update cycle a register shows the current second. During the cycle the
  registers of the time are undefined; only the status register can be read then.\<close>

definition rtc_ok :: "'d ports \<Rightarrow> ('d \<Rightarrow> rtc) \<Rightarrow> u8 \<Rightarrow> (nat \<Rightarrow> calendar) \<Rightarrow> bool" where
  "rtc_ok P view status cal \<longleftrightarrow>
     (\<forall>t. calendar_ok (cal t) \<and> sec (cal (Suc t)) = (sec (cal t) + 1) mod 60) \<and>
     (\<forall>d v. view (port_outb P 0x70 v d) = (view d)\<lparr>index := v AND 0x7F\<rparr>) \<and>
     (\<forall>d. (upd (view d) = 0 \<or> index (view d) = 0x0B \<longrightarrow>
           fst (port_inb P 0x71 d) = rtc_register status (cal (instant (view d))) (index (view d))) \<and>
        rtc_next (view d) (view (snd (port_inb P 0x71 d))))"

section \<open>Reading in one second\<close>

fun read_all :: "'d ports \<Rightarrow> u8 list \<Rightarrow> 'd machine \<Rightarrow> u8 list \<times> 'd machine" where
  "read_all P [] s = ([], s)"
| "read_all P (r # rs) s = (let (v, s1) = CMOS_READ P r s; (vs, s2) = read_all P rs s1 in (v # vs, s2))"

lemma read_all_append:
  "read_all P (as @ bs) s =
     (let (us, s1) = read_all P as s; (vs, s2) = read_all P bs s1 in (us @ vs, s2))"
  by (induction as arbitrary: s) (simp_all add: split_def Let_def)

lemma length_read_all: "length (fst (read_all P rs s)) = length rs"
  by (induction rs arbitrary: s) (simp_all add: split_def Let_def)

lemma index_mask:
  assumes "r < 0x80"
  shows "(0x80 OR r) AND 0x7F = (r :: u8)"
proof -
  have top: "\<not> bit r 7"
  proof
    assume "bit r 7"
    then have "bit (unat r) 7" by (simp add: bit_unsigned_iff)
    then have "odd (unat r div 2 ^ 7)" unfolding bit_iff_odd .
    moreover have "unat r div 2 ^ 7 = 0" using assms by (simp add: word_less_nat_alt)
    ultimately show False by (metis even_zero)
  qed
  have "(0x80 OR r) AND 0x7F = (2 ^ 7 OR r) AND mask 7" by (simp add: mask_eq_exp_minus_1)
  also have "\<dots> = r"
  proof (rule bit_word_eqI)
    fix n
    assume "n < LENGTH(8)"
    then show "bit ((2 ^ 7 OR r) AND mask 7) n \<longleftrightarrow> bit r n"
      using top by (cases "n = 7") (auto simp only: bit_and_iff bit_or_iff bit_exp_iff bit_mask_iff possible_bit_word, auto)
  qed
  finally show ?thesis .
qed

text \<open>One read moves the chip on by one step, and shows the current second unless an update cycle is on.\<close>

lemma cmos_read:
  assumes "rtc_ok P view status cal" and "r < 0x80"
  shows "\<exists>v s'. CMOS_READ P r s = (v, s') \<and>
    (upd (view (dev s)) = 0 \<or> r = 0x0B \<longrightarrow> v = rtc_register status (cal (instant (view (dev s)))) r) \<and>
    rtc_next ((view (dev s))\<lparr>index := r\<rparr>) (view (dev s'))"
proof -
  let ?d = "port_outb P 0x70 (0x80 OR r) (dev s)"
  have v: "view ?d = (view (dev s))\<lparr>index := r\<rparr>" using assms(1) by (simp add: rtc_ok_def index_mask [OF assms(2)])
  have "upd (view ?d) = 0 \<or> index (view ?d) = 0x0B \<longrightarrow>
      fst (port_inb P 0x71 ?d) = rtc_register status (cal (instant (view ?d))) (index (view ?d))"
    and n: "rtc_next (view ?d) (view (snd (port_inb P 0x71 ?d)))"
    using assms(1) unfolding rtc_ok_def by blast+
  then show ?thesis unfolding v
    by (intro exI [of _ "fst (port_inb P 0x71 ?d)"] exI [of _ "s\<lparr>dev := snd (port_inb P 0x71 ?d)\<rparr>"])
      (simp add: CMOS_READ_def inb_def outb_def split_def Let_def)
qed

lemma rtc_next_mono: "rtc_next c c' \<Longrightarrow> instant c \<le> instant c'"
  by (auto elim: rtc_nextE)

lemma read_all_mono:
  assumes ok: "rtc_ok P view status cal" and "\<forall>r \<in> set rs. r < 0x80"
  shows "instant (view (dev s)) \<le> instant (view (dev (snd (read_all P rs s))))"
  using assms(2)
proof (induction rs arbitrary: s)
  case (Cons r rs)
  obtain v s1 where "CMOS_READ P r s = (v, s1)" "rtc_next ((view (dev s))\<lparr>index := r\<rparr>) (view (dev s1))"
    using cmos_read [OF ok, of r s] Cons.prems by auto
  moreover from this(2) have "instant (view (dev s)) \<le> instant (view (dev s1))" using rtc_next_mono by fastforce
  moreover have "instant (view (dev s1)) \<le> instant (view (dev (snd (read_all P rs s1))))" using Cons by simp
  ultimately show ?case by (simp add: split_def Let_def)
qed simp

text \<open>Reads well before the next update cycle all show the current second.\<close>

lemma read_all_same:
  assumes ok: "rtc_ok P view status cal"
  shows "upd (view (dev s)) = 0 \<Longrightarrow> length rs \<le> left (view (dev s)) \<Longrightarrow> \<forall>r \<in> set rs. r < 0x80 \<Longrightarrow>
    \<exists>s'. read_all P rs s = (map (rtc_register status (cal (instant (view (dev s))))) rs, s') \<and> upd (view (dev s')) = 0 \<and>
      instant (view (dev s')) = instant (view (dev s)) \<and> left (view (dev s')) = left (view (dev s)) - length rs"
proof (induction rs arbitrary: s)
  case (Cons r rs)
  obtain v s1 where s1: "CMOS_READ P r s = (v, s1)" "v = rtc_register status (cal (instant (view (dev s)))) r"
    "rtc_next ((view (dev s))\<lparr>index := r\<rparr>) (view (dev s1))"
    using cmos_read [OF ok, of r s] Cons.prems by auto
  have n: "upd (view (dev s1)) = 0" "instant (view (dev s1)) = instant (view (dev s))" "left (view (dev s1)) = left (view (dev s)) - 1"
    using s1(3) Cons.prems by (auto elim!: rtc_nextE)
  then have "length rs \<le> left (view (dev s1))" "\<forall>r \<in> set rs. r < 0x80" using Cons.prems by auto
  from Cons.IH [OF n(1) this] show ?case using s1 n by auto
qed simp

text \<open>Reads during an update cycle come closer to its end, or pass it: then the next one is far away.\<close>

lemma read_all_updating:
  assumes ok: "rtc_ok P view status cal"
  shows "0 < upd (view (dev s)) \<Longrightarrow> length rs \<le> 13 \<Longrightarrow> \<forall>r \<in> set rs. r < 0x80 \<Longrightarrow>
    \<exists>vs s'. read_all P rs s = (vs, s') \<and>
      (if length rs < upd (view (dev s))
       then upd (view (dev s')) = upd (view (dev s)) - length rs \<and> instant (view (dev s')) = instant (view (dev s))
       else upd (view (dev s')) = 0 \<and> instant (view (dev s')) = Suc (instant (view (dev s))) \<and>
         13 + upd (view (dev s)) \<le> left (view (dev s')) + length rs)"
proof (induction rs arbitrary: s)
  case (Cons r rs)
  obtain v s1 where s1: "CMOS_READ P r s = (v, s1)" "rtc_next ((view (dev s))\<lparr>index := r\<rparr>) (view (dev s1))"
    using cmos_read [OF ok, of r s] Cons.prems by auto
  have small: "length rs \<le> 13" "\<forall>r \<in> set rs. r < 0x80" using Cons.prems by auto
  show ?case
  proof (cases "upd (view (dev s)) = 1")
    case True
    then have n: "upd (view (dev s1)) = 0" "instant (view (dev s1)) = Suc (instant (view (dev s)))" "13 \<le> left (view (dev s1))"
      using s1(2) by (auto elim!: rtc_nextE)
    have "length rs \<le> left (view (dev s1))" using n(3) small(1) by linarith
    from read_all_same [OF ok n(1) this small(2)] show ?thesis using s1(1) n True by auto
  next
    case False
    then have "1 < upd (view (dev s))" using Cons.prems(1) by linarith
    then have n: "upd (view (dev s1)) = upd (view (dev s)) - 1" "instant (view (dev s1)) = instant (view (dev s))"
      using s1(2) by (auto elim!: rtc_nextE)
    have "0 < upd (view (dev s1))" using n(1) \<open>1 < _\<close> by linarith
    from Cons.IH [OF this small] obtain vs s2 where "read_all P rs s1 = (vs, s2)"
      "if length rs < upd (view (dev s1))
       then upd (view (dev s2)) = upd (view (dev s1)) - length rs \<and> instant (view (dev s2)) = instant (view (dev s1))
       else upd (view (dev s2)) = 0 \<and> instant (view (dev s2)) = Suc (instant (view (dev s1))) \<and>
         13 + upd (view (dev s1)) \<le> left (view (dev s2)) + length rs" by blast
    then show ?thesis using s1(1) n \<open>1 < _\<close> by (auto split: if_splits)
  qed
qed simp

text \<open>Up to thirteen reads that begin outside an update cycle and reach the next one.\<close>

lemma read_all_across:
  assumes ok: "rtc_ok P view status cal" and u: "upd (view (dev s)) = 0" and g: "left (view (dev s)) < length rs"
    and len: "length rs \<le> 13" and small: "\<forall>r \<in> set rs. r < 0x80"
  shows "\<exists>vs s'. read_all P rs s = (vs, s') \<and> vs ! 0 = rtc_register status (cal (instant (view (dev s)))) (rs ! 0) \<and>
    (0 < upd (view (dev s')) \<and> instant (view (dev s')) = instant (view (dev s)) \<or>
     upd (view (dev s')) = 0 \<and> instant (view (dev s')) = Suc (instant (view (dev s))) \<and> 14 \<le> left (view (dev s')) + length rs)"
proof -
  let ?t = "instant (view (dev s))" and ?g = "left (view (dev s))"
  let ?as = "take ?g rs" and ?r = "rs ! ?g" and ?bs = "drop (Suc ?g) rs"
  have rs: "rs = ?as @ ?r # ?bs" using g by (rule id_take_nth_drop)
  have sm: "\<forall>r \<in> set ?as. r < 0x80" "?r < 0x80" "\<forall>r \<in> set ?bs. r < 0x80"
    using small g by (auto dest: in_set_takeD in_set_dropD)
  obtain s1 where s1: "read_all P ?as s = (map (rtc_register status (cal ?t)) ?as, s1)" "upd (view (dev s1)) = 0"
      "instant (view (dev s1)) = ?t" "left (view (dev s1)) = 0"
    using read_all_same [OF ok u, of ?as] sm(1) g by auto
  obtain v s2 where s2: "CMOS_READ P ?r s1 = (v, s2)" "v = rtc_register status (cal ?t) ?r"
      "rtc_next ((view (dev s1))\<lparr>index := ?r\<rparr>) (view (dev s2))"
    using cmos_read [OF ok sm(2), of s1] s1(2,3) by auto
  have next2: "0 < upd (view (dev s2)) \<and> instant (view (dev s2)) = ?t \<or>
      upd (view (dev s2)) = 0 \<and> instant (view (dev s2)) = Suc ?t \<and> 13 \<le> left (view (dev s2))"
    using s2(3) s1(2-4) by (auto elim!: rtc_nextE)
  have lb: "length ?bs \<le> 13" "length ?bs < length rs" using len g by auto
  obtain ws s3 where s3: "read_all P ?bs s2 = (ws, s3)"
    "0 < upd (view (dev s3)) \<and> instant (view (dev s3)) = ?t \<or>
     upd (view (dev s3)) = 0 \<and> instant (view (dev s3)) = Suc ?t \<and> 13 \<le> left (view (dev s3)) + length ?bs"
    using next2
  proof
    assume "0 < upd (view (dev s2)) \<and> instant (view (dev s2)) = ?t"
    then show thesis using read_all_updating [OF ok _ lb(1) sm(3), of s2] that by (auto split: if_splits)
  next
    assume n: "upd (view (dev s2)) = 0 \<and> instant (view (dev s2)) = Suc ?t \<and> 13 \<le> left (view (dev s2))"
    then have "length ?bs \<le> left (view (dev s2))" using lb(1) by linarith
    then show thesis using read_all_same [OF ok _ _ sm(3), of s2] that n by auto
  qed
  have all: "read_all P rs s = (map (rtc_register status (cal ?t)) ?as @ v # ws, s3)"
    by (subst rs) (simp add: read_all_append s1(1) s2(1) s3(1) Let_def)
  have "(map (rtc_register status (cal ?t)) ?as @ v # ws) ! 0 = rtc_register status (cal ?t) (rs ! 0)"
    using s2(2) g by (cases "?g = 0") (simp_all add: nth_append)
  then show ?thesis using all s3(2) lb(2) by (intro exI [of _ "map (rtc_register status (cal ?t)) ?as @ v # ws"] exI [of _ s3]) auto
qed

section \<open>The loop\<close>

definition shown :: "u8 \<Rightarrow> calendar \<Rightarrow> tm" where
  "shown status c =
     \<lparr>tm_sec = uint (rtc_register status c 0), tm_min = uint (rtc_register status c 2), tm_hour = uint (rtc_register status c 4),
      tm_mday = uint (rtc_register status c 7), tm_mon = uint (rtc_register status c 8), tm_year = uint (rtc_register status c 9)\<rparr>"

definition pass_result :: "u8 list \<Rightarrow> tm" where
  "pass_result vs = \<lparr>tm_sec = uint (vs ! 0), tm_min = uint (vs ! 1), tm_hour = uint (vs ! 2), tm_mday = uint (vs ! 3),
     tm_mon = uint (vs ! 4), tm_year = uint (vs ! 5)\<rparr>"

lemma read_loop_step:
  assumes "read_all P [0, 2, 4, 7, 8, 9, 0] s = (vs, s')"
  shows "read_loop P s = (if vs ! 0 \<noteq> vs ! 6 then read_loop P s' else Some (pass_result vs, s'))"
proof -
  have "read_fields P s = (let (vs, s') = read_all P [0, 2, 4, 7, 8, 9, 0] s in (pass_result vs, vs ! 6, s'))"
    by (simp add: read_fields_def pass_result_def split_def Let_def)
  then have "read_fields P s = (pass_result vs, vs ! 6, s')" unfolding assms by simp
  moreover have "uint (vs ! 0) = uint (vs ! 6) \<longleftrightarrow> vs ! 0 = vs ! 6" by (simp add: word_uint_eq_iff)
  ultimately show ?thesis by (subst read_loop.simps) (simp add: pass_result_def)
qed

lemma rtc_digits_value:
  assumes "v < 100"
  shows "unat (rtc_digits status v) = (if bit status 2 then v else 16 * (v div 10) + v mod 10)"
proof -
  have "16 * (v div 10) + v mod 10 < 2 ^ LENGTH(8)" "v < 2 ^ LENGTH(8)" using assms by simp_all
  then have "unat (of_nat (16 * (v div 10) + v mod 10) :: u8) = 16 * (v div 10) + v mod 10" "unat (of_nat v :: u8) = v"
    by (simp_all only: unat_of_nat_small)
  then show ?thesis unfolding rtc_digits_def by (simp only: if_distrib [of unat] split: if_split)
qed

definition number_shown :: "u8 \<Rightarrow> nat \<Rightarrow> nat" where
  "number_shown status w = (if bit status 2 then w else w div 16 * 10 + w mod 16)"

lemma number_shown_rtc:
  assumes "v < 100"
  shows "number_shown status (unat (rtc_digits status v)) = v"
proof -
  have d: "(16 * (v div 10) + v mod 10) div 16 = v div 10" "(16 * (v div 10) + v mod 10) mod 16 = v mod 10"
    by (simp_all add: div_mult_self4 less_trans [OF mod_less_divisor [of 10]])
  show ?thesis unfolding rtc_digits_value [OF assms] number_shown_def by (simp add: d)
qed

lemma rtc_digits_inj: "u < 100 \<Longrightarrow> v < 100 \<Longrightarrow> rtc_digits status u = rtc_digits status v \<Longrightarrow> u = v"
  by (metis number_shown_rtc)

lemma nth_split: "i < length xs \<Longrightarrow> (map f (take k xs) @ map g (drop k xs)) ! i = (if i < k then f (xs ! i) else g (xs ! i))"
  by (auto simp: nth_append min_def)

lemma nth_torn:
  assumes "length xs = 7" and "0 < k" and "k < 7"
  shows "(map f (take k xs) @ map g (drop k xs)) ! 0 = f (xs ! 0)" "(map f (take k xs) @ map g (drop k xs)) ! 6 = g (xs ! 6)"
  using assms by (simp_all add: nth_split)

text \<open>The pass of the loop whose result is taken: the state in which its reads begin.\<close>

partial_function (option) accepted_pass :: "'d ports \<Rightarrow> 'd machine \<Rightarrow> 'd machine option" where
  "accepted_pass io s =
     (let (t, last_sec, s') = read_fields io s
      in if tm_sec t \<noteq> uint last_sec then accepted_pass io s' else Some s)"

definition pass_registers :: "u8 list" where
  "pass_registers = [0, 2, 4, 7, 8, 9, 0]"

lemma pass_registers_small: "\<forall>r \<in> set pass_registers. r < 0x80" "length pass_registers = 7" "pass_registers ! 0 = 0"
  by (simp_all add: pass_registers_def)

lemma read_fields_all:
  "read_fields P s = (let (vs, s') = read_all P pass_registers s in (pass_result vs, vs ! 6, s'))"
  by (simp add: read_fields_def pass_registers_def pass_result_def split_def Let_def)

lemma accepted_pass_step:
  assumes "read_all P pass_registers s = (vs, s')"
  shows "accepted_pass P s = (if vs ! 0 \<noteq> vs ! 6 then accepted_pass P s' else Some s)"
proof -
  have "read_fields P s = (pass_result vs, vs ! 6, s')" unfolding read_fields_all assms by simp
  moreover have "uint (vs ! 0) = uint (vs ! 6) \<longleftrightarrow> vs ! 0 = vs ! 6" by (simp add: word_uint_eq_iff)
  ultimately show ?thesis by (subst accepted_pass.simps) (simp add: pass_result_def)
qed

lemma accepted_pass_here:
  assumes ok: "rtc_ok P view status cal" and "upd (view (dev s)) = 0" and "7 \<le> left (view (dev s))"
  shows "accepted_pass P s = Some s"
proof -
  obtain s' where "read_all P pass_registers s = (map (rtc_register status (cal (instant (view (dev s))))) pass_registers, s')"
    using read_all_same [OF ok assms(2), of pass_registers] assms(3) pass_registers_small by auto
  then show ?thesis by (simp add: accepted_pass_step pass_registers_def)
qed

text \<open>The loop ends: a pass that is not taken comes closer to the end of the update cycle it meets, and the one after the
  cycle is taken.\<close>

lemma accepted_pass_updating:
  assumes ok: "rtc_ok P view status cal"
  shows "0 < upd (view (dev s)) \<Longrightarrow> \<exists>s0. accepted_pass P s = Some s0"
proof (induction "upd (view (dev s))" arbitrary: s rule: less_induct)
  case less
  obtain vs s' where s': "read_all P pass_registers s = (vs, s')"
    "if 7 < upd (view (dev s)) then upd (view (dev s')) = upd (view (dev s)) - 7
     else upd (view (dev s')) = 0 \<and> 13 + upd (view (dev s)) \<le> left (view (dev s')) + 7"
    using read_all_updating [OF ok less.prems, of pass_registers] pass_registers_small by (auto split: if_splits)
  have "\<exists>s0. accepted_pass P s' = Some s0"
  proof (cases "7 < upd (view (dev s))")
    case True
    then show ?thesis using less.hyps [of s'] s'(2) by simp
  next
    case False
    then have "upd (view (dev s')) = 0" "7 \<le> left (view (dev s'))" using s'(2) less.prems by simp_all
    then show ?thesis using accepted_pass_here [OF ok] by blast
  qed
  then show ?case using accepted_pass_step [OF s'(1)] by simp
qed

lemma accepted_pass_total:
  assumes ok: "rtc_ok P view status cal"
  shows "\<exists>s0. accepted_pass P s = Some s0"
proof -
  consider "0 < upd (view (dev s))" | "upd (view (dev s)) = 0" "7 \<le> left (view (dev s))"
    | "upd (view (dev s)) = 0" "left (view (dev s)) < 7" by linarith
  then show ?thesis
  proof cases
    case 1
    then show ?thesis by (rule accepted_pass_updating [OF ok])
  next
    case 2
    then show ?thesis using accepted_pass_here [OF ok] by blast
  next
    case 3
    obtain vs s' where s': "read_all P pass_registers s = (vs, s')"
      "0 < upd (view (dev s')) \<or> upd (view (dev s')) = 0 \<and> 14 \<le> left (view (dev s')) + 7"
      using read_all_across [OF ok 3(1), of pass_registers] 3(2) pass_registers_small by auto
    have "\<exists>s0. accepted_pass P s' = Some s0"
      using s'(2) accepted_pass_updating [OF ok, of s'] accepted_pass_here [OF ok, of s'] by auto
    then show ?thesis using accepted_pass_step [OF s'(1)] by simp
  qed
qed

text \<open>What the loop returns is what that pass has read.\<close>

lemma accepted_pass_result:
  assumes ok: "rtc_ok P view status cal" and "accepted_pass P s = Some s0"
  shows "\<exists>vs s'. read_all P pass_registers s0 = (vs, s') \<and> vs ! 0 = vs ! 6 \<and> read_loop P s = Some (pass_result vs, s') \<and>
    instant (view (dev s)) \<le> instant (view (dev s0))"
proof (rule accepted_pass.raw_induct [where P = "\<lambda>P s s0. rtc_ok P view status cal \<longrightarrow> (\<exists>vs s'.
    read_all P pass_registers s0 = (vs, s') \<and> vs ! 0 = vs ! 6 \<and> read_loop P s = Some (pass_result vs, s') \<and>
    instant (view (dev s)) \<le> instant (view (dev s0)))", OF _ assms(2), rule_format, OF _ ok])
  fix f :: "'a ports \<Rightarrow> 'a machine \<Rightarrow> 'a machine option" and P s s0
  assume IH: "\<And>P s s0. f P s = Some s0 \<Longrightarrow> rtc_ok P view status cal \<Longrightarrow> \<exists>vs s'.
      read_all P pass_registers s0 = (vs, s') \<and> vs ! 0 = vs ! 6 \<and> read_loop P s = Some (pass_result vs, s') \<and>
      instant (view (dev s)) \<le> instant (view (dev s0))"
    and run: "(let (t, last_sec, s') = read_fields P s in if tm_sec t \<noteq> uint last_sec then f P s' else Some s) = Some s0"
    and ok: "rtc_ok P view status cal"
  obtain vs s' where vs: "read_all P pass_registers s = (vs, s')" by (cases "read_all P pass_registers s")
  have "uint (vs ! 0) = uint (vs ! 6) \<longleftrightarrow> vs ! 0 = vs ! 6" by (simp add: word_uint_eq_iff)
  then have step: "(if vs ! 0 \<noteq> vs ! 6 then f P s' else Some s) = Some s0"
    using run by (simp add: read_fields_all vs pass_result_def)
  note loop = read_loop_step [of P s vs s', folded pass_registers_def, OF vs]
  show "\<exists>vs s'. read_all P pass_registers s0 = (vs, s') \<and> vs ! 0 = vs ! 6 \<and> read_loop P s = Some (pass_result vs, s') \<and>
      instant (view (dev s)) \<le> instant (view (dev s0))"
  proof (cases "vs ! 0 = vs ! 6")
    case True
    then show ?thesis using step vs loop by auto
  next
    case False
    have "instant (view (dev s)) \<le> instant (view (dev s'))"
      using read_all_mono [OF ok pass_registers_small(1), of s] vs by simp
    then show ?thesis using IH [of P s' s0] step loop ok False by fastforce
  qed
qed

text \<open>A pass that begins and ends outside an update cycle shows one second, when it is taken.\<close>

lemma pass_of_one_second:
  assumes ok: "rtc_ok P view status cal" and pass: "read_all P pass_registers s = (vs, s')" "vs ! 0 = vs ! 6"
    and u: "upd (view (dev s)) = 0" "upd (view (dev (snd (read_all P (butlast pass_registers) s)))) = 0"
  shows "pass_result vs = shown status (cal (instant (view (dev s))))"
proof -
  let ?t = "instant (view (dev s))" and ?six = "[0, 2, 4, 7, 8, 9] :: u8 list"
  have b: "butlast pass_registers = ?six" "pass_registers = ?six @ [0]" by (simp_all add: pass_registers_def)
  obtain us s6 where us: "read_all P ?six s = (us, s6)" by (cases "read_all P ?six s")
  obtain v s7 where v: "CMOS_READ P 0 s6 = (v, s7)" by (cases "CMOS_READ P 0 s6")
  have len: "length us = 6" using length_read_all [of P ?six s] us by simp
  have u6: "upd (view (dev s6)) = 0" using u(2) us by (simp add: b)
  have vs: "vs = us @ [v]" using pass(1) unfolding b(2) read_all_append us by (simp add: v Let_def)
  have last: "v = us ! 0" using pass(2) len by (simp add: vs nth_append)
  have v6: "v = rtc_register status (cal (instant (view (dev s6)))) 0" using cmos_read [OF ok, of 0 s6] u6 v by simp
  have "us = map (rtc_register status (cal ?t)) ?six"
  proof (cases "6 \<le> left (view (dev s))")
    case True
    then show ?thesis using read_all_same [OF ok u(1), of ?six] us by auto
  next
    case False
    then have "us ! 0 = rtc_register status (cal ?t) 0" "instant (view (dev s6)) = Suc ?t"
      using read_all_across [OF ok u(1), of ?six] us u6 by auto
    then have "rtc_digits status (sec (cal ?t)) = rtc_digits status (sec (cal (Suc ?t)))" using v6 last by (simp add: rtc_register_def)
    moreover have c: "sec (cal (Suc ?t)) = (sec (cal ?t) + 1) mod 60" "calendar_ok (cal ?t)" "calendar_ok (cal (Suc ?t))"
      using ok unfolding rtc_ok_def by blast+
    moreover from c(2,3) have "sec (cal ?t) < 60" "sec (cal ?t) < 100" "sec (cal (Suc ?t)) < 100"
      unfolding calendar_ok_def by linarith+
    ultimately have "sec (cal ?t) = (sec (cal ?t) + 1) mod 60" "sec (cal ?t) < 60"
      using rtc_digits_inj [of "sec (cal ?t)" "sec (cal (Suc ?t))" status] by metis+
    then have False by (cases "sec (cal ?t) = 59") auto
    then show ?thesis by blast
  qed
  then show ?thesis using len by (simp add: vs pass_result_def shown_def)
qed

section \<open>Conversion\<close>

lemma BCD_nat: "BCD_TO_BIN (int n) = int (n mod 16 + n div 16 * 10)"
proof -
  have "(int n :: int) AND 0x0F = int n mod 16" using take_bit_eq_mask [of 4 "int n"] by (simp add: mask_eq_exp_minus_1 take_bit_eq_mod)
  then show ?thesis by (simp add: BCD_TO_BIN_def drop_bit_eq_div zmod_int zdiv_int)
qed

lemma and_2_4: "(status :: u8) AND 0x02 = 0 \<longleftrightarrow> \<not> bit status 1" "(status :: u8) AND 0x04 = 0 \<longleftrightarrow> \<not> bit status 2"
  using and_exp_eq_0_iff_not_bit [of status 1] and_exp_eq_0_iff_not_bit [of status 2] by simp_all

definition to_number :: "u8 \<Rightarrow> int \<Rightarrow> int" where
  "to_number status v = (if bit status 2 then v else BCD_TO_BIN v)"

lemma to_number_rtc:
  assumes "v < 100"
  shows "to_number status (uint (rtc_digits status v)) = int v"
proof -
  have u: "uint (rtc_digits status v) = int (unat (rtc_digits status v))" by simp
  have n: "number_shown status (unat (rtc_digits status v)) = v" by (rule number_shown_rtc [OF assms])
  show ?thesis
  proof (cases "bit status 2")
    case True
    then have "unat (rtc_digits status v) = v" using n by (simp only: number_shown_def if_True)
    then show ?thesis unfolding u using True by (simp only: to_number_def if_True)
  next
    case False
    then have "unat (rtc_digits status v) mod 16 + unat (rtc_digits status v) div 16 * 10 = v" using n by (simp only: number_shown_def if_False add.commute)
    then show ?thesis unfolding u using False by (simp only: to_number_def if_False BCD_nat)
  qed
qed

text \<open>The hour that ends up in \<^verbatim>\<open>time.tm_hour\<close>.\<close>

definition clock_hour :: "u8 \<Rightarrow> nat \<Rightarrow> nat" where
  "clock_hour status h =
     (if bit status 1 then h
      else if h < 12 then half_day h
      else if bit status 2 then (half_day h + 12) mod 24
      else 80 + half_day h)"

definition final_hour :: "u8 \<Rightarrow> int \<Rightarrow> int" where
  "final_hour status v =
     (if \<not> bit status 1 \<and> to_number status v AND 0x80 \<noteq> 0 then ((to_number status v AND 0x7F) + 12) mod 24 else to_number status v)"

lemma int_small_bits:
  "n < 128 \<Longrightarrow> int n AND 0x80 = 0" "n < 128 \<Longrightarrow> (int n + 128) AND 0x80 \<noteq> 0" "n < 128 \<Longrightarrow> (int n + 128) AND 0x7F = int n"
proof -
  assume n: "n < 128"
  show "int n AND 0x80 = 0" using and_exp_eq_0_iff_not_bit [of "int n" 7] n by (simp add: bit_iff_odd)
  have "(int n + 128) div 128 = 1" using n by simp
  then show "(int n + 128) AND 0x80 \<noteq> 0" using and_exp_eq_0_iff_not_bit [of "int n + 128" 7] n by (simp add: bit_iff_odd)
  show "(int n + 128) AND 0x7F = int n" using take_bit_eq_mask [of 7 "int n + 128"] n by (simp add: mask_eq_exp_minus_1 take_bit_eq_mod)
qed

lemma rtc_digits_top:
  assumes "k \<le> 12"
  shows "uint (rtc_digits status k OR 0x80) = uint (rtc_digits status k) + 128" "uint (rtc_digits status k) < 128"
proof -
  have "k = 0 \<or> k = 1 \<or> k = 2 \<or> k = 3 \<or> k = 4 \<or> k = 5 \<or> k = 6 \<or> k = 7 \<or> k = 8 \<or> k = 9 \<or> k = 10 \<or> k = 11 \<or> k = 12"
    using assms by arith
  then show "uint (rtc_digits status k OR 0x80) = uint (rtc_digits status k) + 128" "uint (rtc_digits status k) < 128"
    by (elim disjE; simp add: rtc_digits_def)+
qed

lemma to_number_pm:
  assumes "k \<le> 12"
  shows "to_number status (uint (rtc_digits status k OR 0x80)) = (if bit status 2 then int k + 128 else 80 + int k)"
proof -
  let ?n = "unat (rtc_digits status k)"
  have d: "uint (rtc_digits status k) = int ?n" by simp
  have v: "unat (rtc_digits status k) = (if bit status 2 then k else 16 * (k div 10) + k mod 10)" using assms by (intro rtc_digits_value) simp
  have "(n + 128) mod 16 = n mod 16" "(n + 128) div 16 = n div 16 + 8" for n :: nat
    using mod_mult_self1 [of n 8 16] div_mult_self1 [of 16 n 8] by simp_all
  then have "BCD_TO_BIN (int (?n + 128)) = BCD_TO_BIN (int ?n) + 80" unfolding BCD_nat by simp
  moreover have "\<not> bit status 2 \<Longrightarrow> BCD_TO_BIN (int ?n) = int k"
    using to_number_rtc [of k status] assms by (simp only: to_number_def if_False d)
  moreover have "int ?n + 128 = int (?n + 128)" by simp
  moreover have "bit status 2 \<Longrightarrow> ?n = k" using v by (simp only: if_True)
  ultimately show ?thesis unfolding to_number_def rtc_digits_top(1) [OF assms] d
    by (cases "bit status 2") (simp_all only: if_True if_False add.commute [of 80] not_False_eq_True True_implies_equals)
qed

lemma final_hour_spec:
  assumes "hour c < 24"
  shows "final_hour status (uint (rtc_register status c 4)) = int (clock_hour status (hour c))"
proof -
  let ?h = "half_day (hour c)"
  have h: "?h \<le> 12" "?h < 100" "hour c < 100" using assms by (auto simp: half_day_def)
  consider "bit status 1" | "\<not> bit status 1" "hour c < 12" | "\<not> bit status 1" "\<not> hour c < 12" by blast
  then show ?thesis
  proof cases
    case 1
    then show ?thesis using to_number_rtc [OF h(3)] by (simp add: final_hour_def rtc_register_def clock_hour_def)
  next
    case 2
    then show ?thesis using to_number_rtc [OF h(2)] int_small_bits(1) [of ?h] h
      by (simp add: final_hour_def rtc_register_def clock_hour_def)
  next
    case 3
    then show ?thesis using to_number_pm [OF h(1)] int_small_bits [of ?h] int_small_bits(1) [of "80 + ?h"] h(1)
      by (auto simp: final_hour_def rtc_register_def clock_hour_def zmod_int)
  qed
qed

section \<open>The time that is set\<close>

definition clock_time :: "u8 \<Rightarrow> calendar \<Rightarrow> tm" where
  "clock_time status c =
     \<lparr>tm_sec = int (sec c), tm_min = int (minute c), tm_hour = int (clock_hour status (hour c)), tm_mday = int (mday c),
      tm_mon = int (month c) - 1, tm_year = int (year c) + 2000\<rparr>"

lemma convert_fields:
  fixes status :: u8 and c :: calendar
  assumes "calendar_ok c"
  defines "t1 \<equiv> (if bit status 2 then shown status c else bcd_fields (shown status c))"
  shows "t1\<lparr>tm_hour := final_hour status (tm_hour (shown status c)), tm_mon := tm_mon t1 - 1, tm_year := tm_year t1 + 2000\<rparr> =
    clock_time status c"
proof -
  have t1: "t1 = \<lparr>tm_sec = to_number status (tm_sec (shown status c)), tm_min = to_number status (tm_min (shown status c)),
      tm_hour = to_number status (tm_hour (shown status c)), tm_mday = to_number status (tm_mday (shown status c)),
      tm_mon = to_number status (tm_mon (shown status c)), tm_year = to_number status (tm_year (shown status c))\<rparr>"
    by (simp add: t1_def to_number_def bcd_fields_def shown_def)
  have r: "rtc_register status c 0 = rtc_digits status (sec c)" "rtc_register status c 2 = rtc_digits status (minute c)"
    "rtc_register status c 7 = rtc_digits status (mday c)" "rtc_register status c 8 = rtc_digits status (month c)"
    "rtc_register status c 9 = rtc_digits status (year c)" by (simp_all add: rtc_register_def)
  have v: "to_number status (uint (rtc_digits status (sec c))) = int (sec c)" "to_number status (uint (rtc_digits status (minute c))) = int (minute c)"
    "to_number status (uint (rtc_digits status (mday c))) = int (mday c)" "to_number status (uint (rtc_digits status (month c))) = int (month c)"
    "to_number status (uint (rtc_digits status (year c))) = int (year c)"
    using assms(1) by (intro to_number_rtc, simp add: calendar_ok_def)+
  show ?thesis using final_hour_spec [of c status] assms(1) by (simp add: t1 shown_def r v clock_time_def calendar_ok_def)
qed

lemma time_init_result:
  assumes ok: "rtc_ok P view status cal"
  shows "\<exists>s0 t m. accepted_pass P s = Some s0 \<and> time_init P s = Some (t, m) \<and>
    instant (view (dev s)) \<le> instant (view (dev s0)) \<and> instant (view (dev s0)) \<le> instant (view (dev m)) \<and>
    (upd (view (dev s0)) = 0 \<and> upd (view (dev (snd (read_all P (butlast pass_registers) s0)))) = 0 \<longrightarrow>
      t = clock_time status (cal (instant (view (dev s0))))) \<and>
    (upd (view (dev s)) = 0 \<and> 7 \<le> left (view (dev s)) \<longrightarrow> t = clock_time status (cal (instant (view (dev s)))))"
proof -
  obtain s0 where s0: "accepted_pass P s = Some s0" using accepted_pass_total [OF ok] by blast
  obtain vs s1 where s1: "read_all P pass_registers s0 = (vs, s1)" "vs ! 0 = vs ! 6" "read_loop P s = Some (pass_result vs, s1)"
    "instant (view (dev s)) \<le> instant (view (dev s0))" using accepted_pass_result [OF ok s0] by blast
  obtain s2 where s2: "CMOS_READ P 0x0B s1 = (status, s2)" "instant (view (dev s1)) \<le> instant (view (dev s2))"
    using cmos_read [OF ok, of "0x0B" s1] rtc_next_mono by (fastforce simp: rtc_register_def)
  have m: "instant (view (dev s0)) \<le> instant (view (dev s2))"
    using read_all_mono [OF ok pass_registers_small(1), of s0] s1(1) s2(2) by simp
  define t where "t = fst (the (time_init P s))"
  have t: "time_init P s = Some (t, s2)" by (simp add: t_def time_init_def s1(3) s2(1) Let_def)
  have exact: "t = clock_time status (cal i)" if "pass_result vs = shown status (cal i)" for i
  proof -
    have c: "calendar_ok (cal i)" using ok by (simp add: rtc_ok_def)
    have "time_init P s = Some (clock_time status (cal i), s2)"
      unfolding convert_fields [OF c, symmetric]
      by (simp add: time_init_def s1(3) s2(1) that Let_def and_2_4 final_hour_def to_number_def bcd_fields_def)
    then show ?thesis using t by simp
  qed
  have "t = clock_time status (cal (instant (view (dev s))))" if u: "upd (view (dev s)) = 0" "7 \<le> left (view (dev s))"
  proof -
    have "s0 = s" using accepted_pass_here [OF ok u] s0 by simp
    then have "pass_result vs = shown status (cal (instant (view (dev s))))"
      using read_all_same [OF ok u(1), of pass_registers] u(2) s1(1) pass_registers_small
      by (auto simp: pass_registers_def pass_result_def shown_def)
    then show ?thesis by (rule exact)
  qed
  then show ?thesis using s0 t s1(4) m exact [OF pass_of_one_second [OF ok s1(1,2)]]
    by (intro exI [of _ s0] exI [of _ t] exI [of _ s2]) simp
qed

text \<open>What other devices show is left alone: \<^verbatim>\<open>time_init\<close> uses the two ports of the clock only.\<close>

lemma cmos_read_keeps:
  assumes "\<forall>d v. f (port_outb P 0x70 v d) = f d" and "\<forall>d. f (snd (port_inb P 0x71 d)) = f d"
  shows "f (dev (snd (CMOS_READ P r s))) = f (dev s)"
  using assms by (simp add: CMOS_READ_def inb_def outb_def split_def Let_def)

lemma read_all_keeps:
  assumes "\<forall>d v. f (port_outb P 0x70 v d) = f d" and "\<forall>d. f (snd (port_inb P 0x71 d)) = f d"
  shows "f (dev (snd (read_all P rs s))) = f (dev s)"
  by (induction rs arbitrary: s) (simp_all add: split_def Let_def cmos_read_keeps [OF assms])

lemma read_loop_keeps:
  assumes keep: "\<forall>d v. f (port_outb P 0x70 v d) = f d" "\<forall>d. f (snd (port_inb P 0x71 d)) = f d"
    and "accepted_pass P s = Some s0"
  shows "f (dev s0) = f (dev s)"
proof (rule accepted_pass.raw_induct [where P = "\<lambda>Q s s0. Q = P \<longrightarrow> f (dev s0) = f (dev s)", OF _ assms(3), rule_format, OF _ refl])
  fix g :: "'a ports \<Rightarrow> 'a machine \<Rightarrow> 'a machine option" and Q s s0
  assume IH: "\<And>Q s s0. g Q s = Some s0 \<Longrightarrow> Q = P \<Longrightarrow> f (dev s0) = f (dev s)"
    and run: "(let (t, last_sec, s') = read_fields Q s in if tm_sec t \<noteq> uint last_sec then g Q s' else Some s) = Some s0"
    and Q: "Q = P"
  obtain vs s' where vs: "read_all P pass_registers s = (vs, s')" by (cases "read_all P pass_registers s")
  have k: "f (dev s') = f (dev s)" using read_all_keeps [OF keep, of pass_registers s] vs by simp
  have "g P s' = Some s0 \<or> s0 = s" using run by (auto simp: Q read_fields_all vs split: if_splits)
  then show "f (dev s0) = f (dev s)" using IH [of P s' s0] k by auto
qed

lemma time_init_keeps:
  assumes ok: "rtc_ok P view status cal" and keep: "\<forall>d v. f (port_outb P 0x70 v d) = f d" "\<forall>d. f (snd (port_inb P 0x71 d)) = f d"
    and run: "time_init P s = Some (t, m)"
  shows "f (dev m) = f (dev s)"
proof -
  obtain s0 where s0: "accepted_pass P s = Some s0" using accepted_pass_total [OF ok] by blast
  obtain vs s1 where s1: "read_all P pass_registers s0 = (vs, s1)" "read_loop P s = Some (pass_result vs, s1)"
    using accepted_pass_result [OF ok s0] by blast
  have "m = snd (CMOS_READ P 0x0B s1)" using run by (simp add: time_init_def s1(2) Let_def split_def)
  then have "f (dev m) = f (dev s1)" using cmos_read_keeps [OF keep] by simp
  also have "\<dots> = f (dev s0)" using read_all_keeps [OF keep, of pass_registers s0] s1(1) by simp
  also have "\<dots> = f (dev s)" by (rule read_loop_keeps [OF keep s0])
  finally show ?thesis .
qed

text \<open>C34: Setting the clock. Whatever update cycles the chip goes through while it is read, the loop returns. When the pass
  it takes reads the seconds outside an update cycle both times, the time it leaves is the one of a single second during the
  call; and when the call begins outside a cycle and at least seven reads before the next one, it is the time of the call. In
  the 24-hour mode it is that time exactly, whether the chip counts in binary or in decimal digits. In the 12-hour mode the
  hour is wrong: midnight becomes 12 and, in binary, noon becomes 0, and in decimal digits every afternoon hour is 80 more
  than the hour on the dial, because the afternoon bit has been taken for a digit. (During a cycle the registers are undefined
  and the code does not look whether one is on: \<^verbatim>\<open>time_init_torn\<close>.)\<close>

theorem time_init_sets_clock:
  assumes "rtc_ok P view status cal"
  shows "\<exists>s0 t m. accepted_pass P s = Some s0 \<and> time_init P s = Some (t, m) \<and>
    instant (view (dev s)) \<le> instant (view (dev s0)) \<and> instant (view (dev s0)) \<le> instant (view (dev m)) \<and>
    (upd (view (dev s0)) = 0 \<and> upd (view (dev (snd (read_all P (butlast pass_registers) s0)))) = 0 \<longrightarrow>
      t = clock_time status (cal (instant (view (dev s0))))) \<and>
    (upd (view (dev s)) = 0 \<and> 7 \<le> left (view (dev s)) \<longrightarrow> t = clock_time status (cal (instant (view (dev s)))))"
  using assms by (rule time_init_result)

text \<open>A chip in the 12-hour decimal mode, at five in the afternoon. It has an update cycle of two reads after every twenty-one
  others, and shows zeros during a cycle.\<close>

definition example_calendar :: "nat \<Rightarrow> calendar" where
  "example_calendar t = \<lparr>sec = t mod 60, minute = 30, hour = 17, mday = 14, month = 3, year = 26\<rparr>"

definition chip_step :: "rtc \<Rightarrow> rtc" where
  "chip_step c =
     (if 1 < upd c then c\<lparr>upd := upd c - 1\<rparr>
      else if upd c = 1 then c\<lparr>upd := 0, instant := Suc (instant c), left := 20\<rparr>
      else if left c = 0 then c\<lparr>upd := 2\<rparr>
      else c\<lparr>left := left c - 1\<rparr>)"

definition example_chip :: "rtc ports" where
  "example_chip =
     \<lparr>port_outb = (\<lambda>port v c. if port = 0x70 then c\<lparr>index := v AND 0x7F\<rparr> else c),
      port_inb = (\<lambda>port c. (if upd c = 0 \<or> index c = 0x0B then rtc_register 0 (example_calendar (instant c)) (index c) else 0,
        chip_step c)),
      port_outw = (\<lambda>_ _ c. c), port_inw = (\<lambda>_ c. (0, c)), next_interrupt = (\<lambda>c. (False, c))\<rparr>"

lemma chip_step_next: "rtc_next c (chip_step c)"
  using Updating [of c] Ends [of c 20] Starts [of c 2] Counting [of c]
  by (cases "upd c = 0"; cases "left c = 0"; cases "upd c = 1") (simp_all add: chip_step_def)

lemma example_calendar_ok:
  "calendar_ok (example_calendar t)" "sec (example_calendar (Suc t)) = (sec (example_calendar t) + 1) mod 60"
  by (simp_all add: example_calendar_def calendar_ok_def mod_Suc_eq)

lemma example_chip_ok: "rtc_ok example_chip id 0 example_calendar"
  unfolding rtc_ok_def using example_calendar_ok chip_step_next by (simp add: example_chip_def)

theorem time_init_sets_clock_witness:
  "\<exists>t s s'. time_init example_chip s = Some (t, s') \<and> tm_hour t = 85 \<and> tm_year t = 2026"
proof -
  let ?s = "\<lparr>dev = \<lparr>instant = 0, upd = 0, left = 8, index = 0\<rparr>, ide_irq_fired = 0\<rparr>"
  obtain s' where "time_init example_chip ?s = Some (clock_time 0 (example_calendar 0), s')"
    using time_init_sets_clock [OF example_chip_ok, of ?s] by auto
  moreover have "tm_hour (clock_time 0 (example_calendar 0)) = 85 \<and> tm_year (clock_time 0 (example_calendar 0)) = 2026"
    by (simp add: clock_time_def clock_hour_def half_day_def example_calendar_def)
  ultimately show ?thesis by blast
qed

text \<open>The same chip read during an update cycle: both reads of the seconds show the same wrong number, so the pass is taken,
  and the clock is set to the zeroth day of the month before the first, a time that never was.\<close>

theorem time_init_torn:
  "rtc_ok example_chip id 0 example_calendar \<and>
   map_option fst (time_init example_chip \<lparr>dev = \<lparr>instant = 0, upd = 9, left = 0, index = 0\<rparr>, ide_irq_fired = 0\<rparr>) =
     Some \<lparr>tm_sec = 0, tm_min = 0, tm_hour = 0, tm_mday = 0, tm_mon = - 1, tm_year = 2000\<rparr>"
proof -
  let ?c = "\<lambda>n i. \<lparr>instant = 0, upd = n, left = 0, index = i\<rparr> :: rtc"
  have r: "CMOS_READ example_chip i \<lparr>dev = ?c n j, ide_irq_fired = 0\<rparr> = (0, \<lparr>dev = ?c (n - 1) i, ide_irq_fired = 0\<rparr>)"
    if "1 < n" "i < 0x80" "i \<noteq> 0x0B" for n i j
    using that by (simp add: CMOS_READ_def inb_def outb_def example_chip_def chip_step_def index_mask Let_def)
  have "read_all example_chip pass_registers \<lparr>dev = ?c 9 0, ide_irq_fired = 0\<rparr> =
      ([0, 0, 0, 0, 0, 0, 0], \<lparr>dev = ?c 2 0, ide_irq_fired = 0\<rparr>)"
    by (simp add: pass_registers_def r)
  from read_loop_step [OF this [unfolded pass_registers_def]]
  have loop: "read_loop example_chip \<lparr>dev = ?c 9 0, ide_irq_fired = 0\<rparr> =
      Some (pass_result [0, 0, 0, 0, 0, 0, 0], \<lparr>dev = ?c 2 0, ide_irq_fired = 0\<rparr>)" by simp
  have b: "BCD_TO_BIN 0 = 0" using BCD_nat [of 0] by simp
  have "\<exists>m. CMOS_READ example_chip 0x0B \<lparr>dev = ?c 2 0, ide_irq_fired = 0\<rparr> = (0, m)"
    by (simp add: CMOS_READ_def inb_def outb_def example_chip_def index_mask rtc_register_def Let_def)
  then show ?thesis
    using example_chip_ok by (auto simp: time_init_def loop pass_result_def bcd_fields_def b)
qed

end
