(* ===== verification/Keyboard.thy ===== *)
theory Keyboard
  imports Console Tasks Ide
begin

text \<open>
  The keyboard: scan codes to characters (\<^verbatim>\<open>kernel/IRQ/scancode.c\<close>) and the interrupt handler that
  echoes them (\<^verbatim>\<open>keyboard_handler\<close> of \<^verbatim>\<open>kernel/IRQ/traps.c\<close>). The 8042 controller is behind the ports. The US layout is
  stated independently of the code's tables, with the keys that differ from it named.
\<close>

section \<open>State\<close>

record keyboard =
  CapslockActive :: bool
  ShiftActive :: bool

record 'd input =
  kb :: keyboard
  con :: console
  mach :: "'d machine"

section \<open>The controller\<close>

text \<open>\<^verbatim>\<open>while (inb(0x64) & 2);\<close>, which need not end.\<close>

partial_function (option) kbd_ready :: "'d ports \<Rightarrow> 'd machine \<Rightarrow> 'd machine option" where
  "kbd_ready P s =
     (let (status, s') = inb P 0x64 s
      in if status AND 2 \<noteq> 0 then kbd_ready P s' else Some s')"

definition update_kbd_leds :: "'d ports \<Rightarrow> bool \<Rightarrow> 'd machine \<Rightarrow> 'd machine option" where
  "update_kbd_leds P caps s =
     do { s1 \<leftarrow> kbd_ready P s;
          s2 \<leftarrow> kbd_ready P (outb P 0x60 0xED s1);
          Some (outb P 0x60 (if caps then 0x04 else 0x00) s2) }"

section \<open>Scan codes\<close>

text \<open>The \<^verbatim>\<open>switch\<close>: keys with the character under shift and the one without, letters in upper and in lower case, and
  the keys that shift does not change.\<close>

definition shift_keys :: "(u16 \<times> char \<times> char) list" where
  "shift_keys =
     [(0x02, CHR ''!'', CHR ''1''), (0x03, CHR ''@'', CHR ''2''), (0x04, CHR ''#'', CHR ''3''), (0x05, CHR ''$'', CHR ''4''),
      (0x06, CHR ''%'', CHR ''5''), (0x07, CHR ''^'', CHR ''6''), (0x08, CHR ''&'', CHR ''7''), (0x09, CHR ''*'', CHR ''8''),
      (0x0A, CHR ''('', CHR ''9''), (0x0B, CHR '')'', CHR ''0''), (0x0C, CHR ''_'', CHR ''-''), (0x0D, CHR ''+'', CHR ''=''),
      (0x27, CHR '':'', CHR '';''), (0x28, CHR 0x22, CHR 0x27), (0x1A, CHR ''['', CHR ''{''), (0x1B, CHR '']'', CHR ''}''),
      (0x33, CHR ''<'', CHR '',''), (0x34, CHR ''>'', CHR ''.''), (0x35, CHR ''?'', CHR ''/'')]"

definition letter_keys :: "(u16 \<times> char \<times> char) list" where
  "letter_keys =
     [(0x1E, CHR ''A'', CHR ''a''), (0x30, CHR ''B'', CHR ''b''), (0x2E, CHR ''C'', CHR ''c''), (0x20, CHR ''D'', CHR ''d''),
      (0x12, CHR ''E'', CHR ''e''), (0x21, CHR ''F'', CHR ''f''), (0x22, CHR ''G'', CHR ''g''), (0x23, CHR ''H'', CHR ''h''),
      (0x17, CHR ''I'', CHR ''i''), (0x24, CHR ''J'', CHR ''j''), (0x25, CHR ''K'', CHR ''k''), (0x26, CHR ''L'', CHR ''l''),
      (0x32, CHR ''M'', CHR ''m''), (0x31, CHR ''N'', CHR ''n''), (0x18, CHR ''O'', CHR ''o''), (0x19, CHR ''P'', CHR ''p''),
      (0x10, CHR ''Q'', CHR ''q''), (0x13, CHR ''R'', CHR ''r''), (0x1F, CHR ''S'', CHR ''s''), (0x14, CHR ''T'', CHR ''t''),
      (0x16, CHR ''U'', CHR ''u''), (0x2F, CHR ''V'', CHR ''v''), (0x11, CHR ''W'', CHR ''w''), (0x2D, CHR ''X'', CHR ''x''),
      (0x15, CHR ''Y'', CHR ''y''), (0x2C, CHR ''Z'', CHR ''z'')]"

definition plain_keys :: "(u16 \<times> u8) list" where
  "plain_keys = [(0x0F, 9), (0x39, 32), (0x1C, 10), (0x0E, 8)]"

definition key_char :: "bool \<Rightarrow> bool \<Rightarrow> u16 \<Rightarrow> u8" where
  "key_char shift upper code =
     (case map_of shift_keys code of
        Some (u, l) \<Rightarrow> of_char (if shift then u else l)
      | None \<Rightarrow>
          (case map_of letter_keys code of
             Some (u, l) \<Rightarrow> of_char (if upper then u else l)
           | None \<Rightarrow> (case map_of plain_keys code of Some c \<Rightarrow> c | None \<Rightarrow> 0)))"

text \<open>What \<^verbatim>\<open>ListTask\<close> prints.\<close>

definition print_tasks :: "psf1_font \<Rightarrow> framebuffer_info \<Rightarrow> sched \<Rightarrow> console \<Rightarrow> console option" where
  "print_tasks font fb sch c =
     fold_opt (\<lambda>(p, nm) c. map_option snd
         (printk font fb (butlast (c_str ''[%d] Name:%s'') @ [10, 0]) [VInt (of_int p), VStr (nm @ [0])] c))
       (ListTask sch) c"

definition keyboard_transform ::
    "psf1_font \<Rightarrow> framebuffer_info \<Rightarrow> sched \<Rightarrow> 'd ports \<Rightarrow> u16 \<Rightarrow> 'd input \<Rightarrow> (u8 \<times> 'd input) option" where
  "keyboard_transform font fb sch P code s =
     (let raw_code = ucast (code AND 0xFF) :: u8; k = kb s in
      if raw_code = 0x2A \<or> raw_code = 0x36 then Some (0, s\<lparr>kb := k\<lparr>ShiftActive := True\<rparr>\<rparr>)
      else if raw_code = 0xAA \<or> raw_code = 0xB6 then Some (0, s\<lparr>kb := k\<lparr>ShiftActive := False\<rparr>\<rparr>)
      else if raw_code = 0x3A
      then do { m \<leftarrow> update_kbd_leds P (\<not> CapslockActive k) (mach s);
                Some (0, s\<lparr>kb := k\<lparr>CapslockActive := \<not> CapslockActive k\<rparr>, mach := m\<rparr>) }
      else if code AND 0x80 \<noteq> 0 \<and> code AND 0xFF00 \<noteq> 0xE000 then Some (0, s)
      else if code = 0x01
      then do { c \<leftarrow> print_tasks font fb sch ((con s)\<lparr>c_mem := clear_screen fb 0 (c_mem (con s))\<rparr>);
                Some (0, s\<lparr>con := c\<rparr>) }
      else Some (key_char (ShiftActive k) (CapslockActive k \<noteq> ShiftActive k) code, s))"

text \<open>The handler passes the byte it reads, so no code has a prefix. A \<^verbatim>\<open>char\<close> is signed.\<close>

definition keyboard_handler ::
    "psf1_font \<Rightarrow> framebuffer_info \<Rightarrow> sched \<Rightarrow> 'd ports \<Rightarrow> 'd input \<Rightarrow> 'd input option" where
  "keyboard_handler font fb sch P s =
     (let (scancode, m1) = inb P 0x60 (mach s) in
      do { (c, s2) \<leftarrow> keyboard_transform font fb sch P (ucast scancode) (s\<lparr>mach := m1\<rparr>);
           c3 \<leftarrow> (if c \<noteq> 0 then map_option snd (printk font fb (c_str ''%c'') [VInt (scast c)] (con s2)) else Some (con s2));
           Some (s2\<lparr>con := c3, mach := outb P 0x20 0x20 (mach s2)\<rparr>) })"

section \<open>The layout meant\<close>

text \<open>The rows of a US keyboard: the code of the first key, the characters without and with shift. (The key left of the digits has the
  code after the one of the quotes, and the one of the backslash the code before \<^verbatim>\<open>z\<close>.)\<close>

definition us_rows :: "(nat \<times> string \<times> string) list" where
  "us_rows =
     [(0x02, ''1234567890-='', ''!@#$%^&*()_+''),
      (0x10, ''qwertyuiop[]'', ''QWERTYUIOP{}''),
      (0x1E, ''asdfghjkl;'' @ [CHR 0x27, CHR 0x60], ''ASDFGHJKL:'' @ [CHR 0x22, CHR 0x7E]),
      (0x2B, [CHR 0x5C], ''|''),
      (0x2C, ''zxcvbnm,./'', ''ZXCVBNM<>?'')]"

definition is_letter :: "char \<Rightarrow> bool" where
  "is_letter ch \<longleftrightarrow> ch \<in> set ''abcdefghijklmnopqrstuvwxyz''"

definition us_char :: "bool \<Rightarrow> bool \<Rightarrow> nat \<Rightarrow> u8" where
  "us_char shift caps code =
     (case find (\<lambda>(b, lo, up). b \<le> code \<and> code < b + length lo) us_rows of
        Some (b, lo, up) \<Rightarrow>
          (let l = lo ! (code - b); u = up ! (code - b)
           in of_char (if (if is_letter l then shift \<noteq> caps else shift) then u else l))
      | None \<Rightarrow> if code = 0x0F then 9 else if code = 0x39 then 32 else if code = 0x1C then 10 else if code = 0x0E then 8 else 0)"

lemmas key_tables = key_char_def us_char_def shift_keys_def letter_keys_def plain_keys_def us_rows_def is_letter_def

lemma key_char_us_0:
  "\<forall>n \<in> set [0..<26]. key_char shift (caps \<noteq> shift) (of_nat n) = us_char shift caps n"
  by (simp add: key_tables upt_rec)

lemma key_char_us_26:
  "\<forall>n \<in> set [26..<28]. key_char shift (caps \<noteq> shift) (of_nat n) = us_char (\<not> shift) caps n"
  by (simp add: key_tables upt_rec)

lemma key_char_us_28:
  "\<forall>n \<in> set [28..<60]. n \<noteq> 41 \<longrightarrow> n \<noteq> 43 \<longrightarrow> key_char shift (caps \<noteq> shift) (of_nat n) = us_char shift caps n"
  by (simp add: key_tables upt_rec)

lemma key_char_missing: "key_char shift upper 41 = 0" "key_char shift upper 43 = 0"
  by (simp_all add: key_tables)

text \<open>Beyond the last key of the tables there are no characters.\<close>

lemma no_key:
  assumes "60 \<le> n" and "n < 256"
  shows "key_char shift upper (of_nat n) = 0" "us_char shift caps n = 0"
proof -
  have n: "unat (of_nat n :: u16) = n" using assms(2) by (intro unat_of_nat_small) simp
  have below: "\<forall>k \<in> fst ` set shift_keys \<union> fst ` set letter_keys \<union> fst ` set plain_keys. unat k < 60"
    by (simp add: shift_keys_def letter_keys_def plain_keys_def)
  have "of_nat n \<notin> fst ` set shift_keys \<union> fst ` set letter_keys \<union> fst ` set plain_keys"
  proof
    assume "of_nat n \<in> fst ` set shift_keys \<union> fst ` set letter_keys \<union> fst ` set plain_keys"
    from bspec [OF below this] show False using assms(1) unfolding n by simp
  qed
  then have "map_of shift_keys (of_nat n) = None" "map_of letter_keys (of_nat n) = None" "map_of plain_keys (of_nat n) = None"
    by (simp_all add: map_of_eq_None_iff)
  then show "key_char shift upper (of_nat n) = 0" by (simp add: key_char_def)
  show "us_char shift caps n = 0" using assms(1) by (simp add: us_char_def us_rows_def)
qed

text \<open>The code deviates from the layout at four keys: the two bracket keys have their characters the wrong way round, and the keys of
  the back quote and of the backslash have none. Every other key is right.\<close>

definition code_char :: "bool \<Rightarrow> bool \<Rightarrow> nat \<Rightarrow> u8" where
  "code_char shift caps n =
     (if n = 0x1A \<or> n = 0x1B then us_char (\<not> shift) caps n
      else if n = 0x29 \<or> n = 0x2B then 0
      else us_char shift caps n)"

lemma key_char_us:
  assumes "n < 256"
  shows "key_char shift (caps \<noteq> shift) (of_nat n) = code_char shift caps n"
proof -
  consider "n < 26" | "n = 26 \<or> n = 27" | "n = 41 \<or> n = 43" | "28 \<le> n" "n < 60" "n \<noteq> 41" "n \<noteq> 43" | "60 \<le> n" by linarith
  then show ?thesis
  proof cases
    case 1
    then have "n \<in> set [0..<26]" unfolding set_upt atLeastLessThan_iff by blast
    from bspec [OF key_char_us_0 this] show ?thesis using 1 by (simp add: code_char_def)
  next
    case 2
    then have "n \<in> set [26..<28]" by auto
    then have "key_char shift (caps \<noteq> shift) (of_nat n) = us_char (\<not> shift) caps n" using key_char_us_26 [of shift caps] by blast
    then show ?thesis using 2 by (simp add: code_char_def)
  next
    case 3
    then show ?thesis using key_char_missing by (auto simp: code_char_def)
  next
    case 4
    then have "n \<in> set [28..<60]" by (simp only: set_upt atLeastLessThan_iff)
    from bspec [OF key_char_us_28 this] show ?thesis using 4 by (simp add: code_char_def)
  next
    case 5
    then show ?thesis using no_key [OF 5 assms] by (simp add: code_char_def)
  qed
qed

section \<open>What typing does\<close>

text \<open>The controller as documented: the bytes waiting (key codes, and the acknowledgements of commands behind them), and for how many
  more status reads its input buffer is full.\<close>

record ps2 =
  queue :: "u8 list"
  pending :: nat

definition ps2_ok :: "'d ports \<Rightarrow> ('d \<Rightarrow> ps2) \<Rightarrow> bool" where
  "ps2_ok P view \<longleftrightarrow> (\<forall>d.
     (\<forall>c ks. queue (view d) = c # ks \<longrightarrow> fst (port_inb P 0x60 d) = c \<and> queue (view (snd (port_inb P 0x60 d))) = ks) \<and>
     (fst (port_inb P 0x64 d) AND 2 \<noteq> 0 \<longleftrightarrow> pending (view d) \<noteq> 0) \<and>
     view (snd (port_inb P 0x64 d)) = (view d)\<lparr>pending := pending (view d) - 1\<rparr> \<and>
     (\<forall>v. \<exists>n. queue (view (port_outb P 0x60 v d)) = queue (view d) @ replicate n 0xFA) \<and>
     (\<forall>v. queue (view (port_outb P 0x20 v d)) = queue (view d)))"

text \<open>The meaning of a sequence of codes: the two modifiers after it, and the characters typed.\<close>

fun shift_after :: "u8 list \<Rightarrow> bool \<Rightarrow> bool" where
  "shift_after [] sh = sh"
| "shift_after (c # ks) sh = shift_after ks (if c \<in> {0x2A, 0x36} then True else if c \<in> {0xAA, 0xB6} then False else sh)"

definition caps_after :: "u8 list \<Rightarrow> bool \<Rightarrow> bool" where
  "caps_after ks caps \<longleftrightarrow> caps \<noteq> odd (count_list ks 0x3A)"

definition typed_char :: "u8 \<Rightarrow> bool \<Rightarrow> bool \<Rightarrow> u8 list" where
  "typed_char c sh caps =
     (let ch = code_char sh caps (unat c)
      in if c \<in> {0x2A, 0x36, 0x3A} \<or> 0x80 \<le> c \<or> ch = 0 then [] else [ch])"

fun typed :: "u8 list \<Rightarrow> bool \<Rightarrow> bool \<Rightarrow> u8 list" where
  "typed [] sh caps = []"
| "typed (c # ks) sh caps = typed_char c sh caps @ typed ks (shift_after [c] sh) (caps_after [c] caps)"

lemma status_6:
  assumes "ps2_ok P view"
  shows "fst (port_inb P 0x64 d) AND 2 = 0 \<longleftrightarrow> pending (view d) = 0"
    and "view (snd (port_inb P 0x64 d)) = (view d)\<lparr>pending := pending (view d) - 1\<rparr>"
  using assms unfolding ps2_ok_def by blast+

lemma kbd_ready_ends:
  assumes "ps2_ok P view"
  shows "\<exists>s'. kbd_ready P s = Some s' \<and> queue (view (dev s')) = queue (view (dev s))"
proof (induction "pending (view (dev s))" arbitrary: s)
  case 0
  then show ?case using status_6 [OF assms, of "dev s"]
    by (subst kbd_ready.simps) (auto simp: inb_def split_def Let_def)
next
  case (Suc n)
  have r: "fst (port_inb P 0x64 (dev s)) AND 2 \<noteq> 0" "view (snd (port_inb P 0x64 (dev s))) = (view (dev s))\<lparr>pending := n\<rparr>"
    using status_6 [OF assms, of "dev s"] Suc(2) [symmetric] by simp_all
  let ?s = "s\<lparr>dev := snd (port_inb P 0x64 (dev s))\<rparr>"
  obtain s' where "kbd_ready P ?s = Some s'" "queue (view (dev s')) = queue (view (dev ?s))"
    using Suc(1) [of ?s] r(2) by auto
  then show ?case using r by (subst kbd_ready.simps) (auto simp: inb_def split_def Let_def)
qed

lemma outb_60:
  assumes "ps2_ok P view"
  shows "\<exists>n. queue (view (dev (outb P 0x60 v s))) = queue (view (dev s)) @ replicate n 0xFA"
  using assms unfolding ps2_ok_def outb_def by simp

lemma update_kbd_leds_ends:
  assumes "ps2_ok P view"
  shows "\<exists>s' n. update_kbd_leds P caps s = Some s' \<and> queue (view (dev s')) = queue (view (dev s)) @ replicate n 0xFA"
proof -
  obtain s1 where s1: "kbd_ready P s = Some s1" "queue (view (dev s1)) = queue (view (dev s))"
    using kbd_ready_ends [OF assms] by blast
  obtain n1 where n1: "queue (view (dev (outb P 0x60 0xED s1))) = queue (view (dev s)) @ replicate n1 0xFA"
    using outb_60 [OF assms] s1(2) by metis
  obtain s2 where s2: "kbd_ready P (outb P 0x60 0xED s1) = Some s2" "queue (view (dev s2)) = queue (view (dev (outb P 0x60 0xED s1)))"
    using kbd_ready_ends [OF assms] by blast
  obtain n2 where "queue (view (dev (outb P 0x60 (if caps then 0x04 else 0x00) s2))) = queue (view (dev s)) @ replicate n1 0xFA @ replicate n2 0xFA"
    using outb_60 [OF assms] s2(2) n1 by (metis append.assoc)
  then show ?thesis using s1(1) s2(1)
    by (intro exI [of _ "outb P 0x60 (if caps then 0x04 else 0x00) s2"] exI [of _ "n1 + n2"])
      (simp add: update_kbd_leds_def replicate_add)
qed

text \<open>\<^verbatim>\<open>printk("%c", c)\<close> puts one character on the console.\<close>

lemma printk_char:
  "printk font fb (c_str ''%c'') [VInt (scast (c :: u8))] s = Some (1, snd (putchar font fb (sint c) s))"
proof -
  have "terminated (c_str ''%c'')" "cstr (c_str ''%c'') = [37, 99]" by (simp_all add: c_str_def terminated_def cstr_def)
  moreover have "ucast (scast c :: u64) = c" by (rule bit_word_eqI) (simp add: bit_simps)
  ultimately show ?thesis using printk_spec [of "c_str ''%c''" "[VInt (scast c)]" "[c]"] by simp
qed

lemma ucast_code: "ucast ((ucast (c :: u8) :: u16) AND 0xFF) = c"
proof -
  have m: "(0xFF :: u16) = mask 8" by (simp add: mask_eq_exp_minus_1)
  show ?thesis unfolding m by (intro bit_word_eqI) (simp only: bit_and_iff bit_mask_iff bit_ucast_iff, auto)
qed

lemma code_bits:
  fixes c :: u8
  shows "(ucast c :: u16) AND 0x80 = 0 \<longleftrightarrow> c < 0x80" "(ucast c :: u16) AND 0xFF00 = 0" "ucast c = (of_nat (unat c) :: u16)"
proof -
  have "(ucast c :: u16) AND 0x80 = 0 \<longleftrightarrow> \<not> bit c 7"
    using and_exp_eq_0_iff_not_bit [of "ucast c :: u16" 7] by (simp add: bit_simps)
  also have "bit c 7 \<longleftrightarrow> bit (unat c) 7" by (simp add: bit_unsigned_iff)
  also have "\<dots> \<longleftrightarrow> odd (unat c div 2 ^ 7)" by (rule bit_iff_odd)
  also have "\<dots> \<longleftrightarrow> \<not> c < 0x80"
  proof (cases "c < 0x80")
    case True
    then have "unat c div 2 ^ 7 = 0" by (simp add: word_less_nat_alt)
    then show ?thesis using True by simp
  next
    case False
    then have "\<not> unat c < 128" by (simp add: word_less_nat_alt)
    then have "128 * 1 \<le> unat c" "unat c < 128 * Suc 1" using unat_lt8 [of c] by (linarith, presburger)
    then have "unat c div 128 = 1" by (rule div_nat_eqI)
    then show ?thesis using False by simp
  qed
  finally show "(ucast c :: u16) AND 0x80 = 0 \<longleftrightarrow> c < 0x80" by simp
  have m: "(0xFF00 :: u16) = push_bit 8 (mask 8)" by (simp add: mask_eq_exp_minus_1)
  show "(ucast c :: u16) AND 0xFF00 = 0" unfolding m
    by (intro bit_word_eqI) (simp only: bit_and_iff bit_push_bit_iff bit_ucast_iff bit_0_eq bot_apply, auto dest: bit_imp_le_length)
  show "ucast c = (of_nat (unat c) :: u16)" by simp
qed

lemma transform_key:
  assumes "ps2_ok P view" and "c \<noteq> 1"
  shows "\<exists>s' n. keyboard_transform font fb sch P (ucast c) s =
      Some (case typed_char c (ShiftActive (kb s)) (CapslockActive (kb s)) of [] \<Rightarrow> 0 | ch # _ \<Rightarrow> ch, s') \<and>
    kb s' = \<lparr>CapslockActive = caps_after [c] (CapslockActive (kb s)), ShiftActive = shift_after [c] (ShiftActive (kb s))\<rparr> \<and>
    con s' = con s \<and> queue (view (dev (mach s'))) = queue (view (dev (mach s))) @ replicate n 0xFA"
proof -
  let ?k = "kb s"
  obtain m n where m: "update_kbd_leds P (\<not> CapslockActive ?k) (mach s) = Some m" "queue (view (dev m)) = queue (view (dev (mach s))) @ replicate n 0xFA"
    using update_kbd_leds_ends [OF assms(1)] by blast
  have one: "(ucast c :: u16) \<noteq> 1"
  proof
    assume "(ucast c :: u16) = 1"
    then have "ucast ((1 :: u16) AND 0xFF) = c" using ucast_code [of c] by simp
    then show False using assms(2) by simp
  qed
  consider "c \<in> {0x2A, 0x36}" | "c \<in> {0xAA, 0xB6}" | "c = 0x3A" | "c \<notin> {0x2A, 0x36, 0xAA, 0xB6, 0x3A}" "0x80 \<le> c"
    | "c \<notin> {0x2A, 0x36, 0xAA, 0xB6, 0x3A}" "c < 0x80" by fastforce
  then show ?thesis
  proof cases
    case 1
    then show ?thesis by (auto simp: keyboard_transform_def ucast_code typed_char_def caps_after_def Let_def)
  next
    case 2
    then show ?thesis by (auto simp: keyboard_transform_def ucast_code typed_char_def caps_after_def Let_def)
  next
    case 3
    then show ?thesis using m by (auto simp: keyboard_transform_def ucast_code typed_char_def caps_after_def Let_def)
  next
    case 4
    then show ?thesis using code_bits(1,2) [of c]
      by (auto simp: keyboard_transform_def ucast_code typed_char_def caps_after_def Let_def not_less [symmetric])
  next
    case 5
    define ch where "ch = code_char (ShiftActive ?k) (CapslockActive ?k) (unat c)"
    have "key_char (ShiftActive ?k) (CapslockActive ?k \<noteq> ShiftActive ?k) (ucast c) = ch"
      unfolding ch_def code_bits(3) using key_char_us [OF unat_lt8 [of c], of "ShiftActive ?k" "CapslockActive ?k"] by simp
    then have "keyboard_transform font fb sch P (ucast c) s = Some (ch, s)"
      using 5 one code_bits(1,2) [of c] by (simp add: keyboard_transform_def ucast_code)
    moreover have "typed_char c (ShiftActive ?k) (CapslockActive ?k) = (if ch = 0 then [] else [ch])"
      using 5 unfolding typed_char_def ch_def [symmetric] Let_def by (auto simp: word_le_nat_alt word_less_nat_alt)
    moreover have "kb s = \<lparr>CapslockActive = caps_after [c] (CapslockActive ?k), ShiftActive = shift_after [c] (ShiftActive ?k)\<rparr>"
      using 5 by (simp add: caps_after_def)
    ultimately show ?thesis by (intro exI [of _ s] exI [of _ 0]) simp
  qed
qed

lemma typed_char_cases: "typed_char c sh caps = [] \<or> (\<exists>ch. ch \<noteq> 0 \<and> typed_char c sh caps = [ch])"
  by (auto simp: typed_char_def Let_def)

lemma handler_key:
  assumes ok: "ps2_ok P view" and "queue (view (dev (mach s))) = c # ks" and "c \<noteq> 1"
  shows "\<exists>s' n. keyboard_handler font fb sch P s = Some s' \<and>
    kb s' = \<lparr>CapslockActive = caps_after [c] (CapslockActive (kb s)), ShiftActive = shift_after [c] (ShiftActive (kb s))\<rparr> \<and>
    con s' = fold (\<lambda>ch s. snd (putchar font fb (sint ch) s)) (typed_char c (ShiftActive (kb s)) (CapslockActive (kb s))) (con s) \<and>
    queue (view (dev (mach s'))) = ks @ replicate n 0xFA"
proof -
  let ?s = "s\<lparr>mach := (mach s)\<lparr>dev := snd (port_inb P 0x60 (dev (mach s)))\<rparr>\<rparr>"
  have q: "fst (port_inb P 0x60 (dev (mach s))) = c" "queue (view (dev (mach ?s))) = ks"
    using ok assms(2) unfolding ps2_ok_def by simp_all
  obtain s2 n where s2: "keyboard_transform font fb sch P (ucast c) ?s =
      Some (case typed_char c (ShiftActive (kb s)) (CapslockActive (kb s)) of [] \<Rightarrow> 0 | ch # _ \<Rightarrow> ch, s2)"
    "kb s2 = \<lparr>CapslockActive = caps_after [c] (CapslockActive (kb s)), ShiftActive = shift_after [c] (ShiftActive (kb s))\<rparr>"
    "con s2 = con s" "queue (view (dev (mach s2))) = ks @ replicate n 0xFA"
    using transform_key [OF ok assms(3), of font fb sch ?s] q(2) by auto
  have eoi: "queue (view (port_outb P 0x20 0x20 (dev (mach s2)))) = ks @ replicate n 0xFA"
    using ok s2(4) unfolding ps2_ok_def by simp
  consider "typed_char c (ShiftActive (kb s)) (CapslockActive (kb s)) = []"
    | ch where "typed_char c (ShiftActive (kb s)) (CapslockActive (kb s)) = [ch]" "ch \<noteq> 0"
    using typed_char_cases by blast
  then show ?thesis
    using s2 eoi by cases (auto simp: keyboard_handler_def inb_def outb_def split_def Let_def q(1) printk_char)
qed

lemma shift_after_append: "shift_after (c # ks) sh = shift_after ks (shift_after [c] sh)"
  by simp

lemma caps_after_append: "caps_after (c # ks) caps = caps_after ks (caps_after [c] caps)"
  by (auto simp: caps_after_def)

fun run_keyboard :: "psf1_font \<Rightarrow> framebuffer_info \<Rightarrow> sched \<Rightarrow> 'd ports \<Rightarrow> nat \<Rightarrow> 'd input \<Rightarrow> 'd input option" where
  "run_keyboard font fb sch P 0 s = Some s"
| "run_keyboard font fb sch P (Suc n) s = do { s' \<leftarrow> keyboard_handler font fb sch P s; run_keyboard font fb sch P n s' }"

text \<open>C32: Typing. Whatever keys are pressed and released (Esc, which lists the tasks, apart), the interrupts echo the characters of
  the US layout for the shift and caps-lock state of the moment, with four keys excepted: shift is down after the last press until a
  release of either shift key, caps lock changes with every press. The two bracket keys give the brackets with
  shift and the braces without, and the keys of the back quote and of the backslash echo nothing. The lights are switched with every
  caps lock, whatever time the controller takes.\<close>

theorem keyboard_types:
  assumes "ps2_ok P view" and "queue (view (dev (mach s))) = ks @ rest" and "1 \<notin> set ks"
  shows "\<exists>s' n. run_keyboard font fb sch P (length ks) s = Some s' \<and>
    kb s' = \<lparr>CapslockActive = caps_after ks (CapslockActive (kb s)), ShiftActive = shift_after ks (ShiftActive (kb s))\<rparr> \<and>
    con s' = fold (\<lambda>ch s. snd (putchar font fb (sint ch) s)) (typed ks (ShiftActive (kb s)) (CapslockActive (kb s))) (con s) \<and>
    queue (view (dev (mach s'))) = rest @ replicate n 0xFA"
  using assms(2,3)
proof (induction ks arbitrary: s rest)
  case Nil
  then show ?case by (auto simp: caps_after_def intro: exI [of _ 0])
next
  case (Cons c ks)
  have q: "queue (view (dev (mach s))) = c # (ks @ rest)" "c \<noteq> 1" using Cons.prems by auto
  obtain s1 n where s1: "keyboard_handler font fb sch P s = Some s1"
    "kb s1 = \<lparr>CapslockActive = caps_after [c] (CapslockActive (kb s)), ShiftActive = shift_after [c] (ShiftActive (kb s))\<rparr>"
    "con s1 = fold (\<lambda>ch s. snd (putchar font fb (sint ch) s)) (typed_char c (ShiftActive (kb s)) (CapslockActive (kb s))) (con s)"
    "queue (view (dev (mach s1))) = ks @ (rest @ replicate n 0xFA)"
    using handler_key [OF assms(1) q, of font fb sch] by auto
  from Cons.IH [OF s1(4)] Cons.prems(2) s1(1-3) show ?case
    by (auto simp: replicate_add [symmetric] caps_after_append [of c ks])
qed

text \<open>A controller that needs two status reads after each command byte and acknowledges it at once. The keys: caps lock, the
  letter, shift with the left bracket, and the bracket alone.\<close>

definition example_controller :: "ps2 ports" where
  "example_controller =
     \<lparr>port_outb = (\<lambda>port v c. if port = 0x60 then c\<lparr>queue := queue c @ [0xFA], pending := 2\<rparr> else c),
      port_inb = (\<lambda>port c. if port = 0x60 then (case queue c of [] \<Rightarrow> (0, c) | k # ks \<Rightarrow> (k, c\<lparr>queue := ks\<rparr>))
        else if port = 0x64 then (if pending c = 0 then 0 else 2, c\<lparr>pending := pending c - 1\<rparr>) else (0, c)),
      port_outw = (\<lambda>_ _ c. c), port_inw = (\<lambda>_ c. (0, c)), next_interrupt = (\<lambda>c. (False, c))\<rparr>"

lemma example_controller_ok: "ps2_ok example_controller id"
proof -
  have "\<exists>n. [0xFA :: u8] = replicate n 0xFA" by (rule exI [of _ 1]) simp
  moreover have "\<exists>n. [] = replicate n (0xFA :: u8)" by (rule exI [of _ 0]) simp
  ultimately show ?thesis by (simp add: ps2_ok_def example_controller_def)
qed

definition example_keys :: "u8 list" where
  "example_keys = [0x3A, 0xBA, 0x1E, 0x2A, 0x1A, 0xAA, 0x1A]"

definition example_input :: "ps2 input" where
  "example_input = \<lparr>kb = \<lparr>CapslockActive = False, ShiftActive = False\<rparr>, con = example_console,
     mach = \<lparr>dev = \<lparr>queue = example_keys, pending = 0\<rparr>, ide_irq_fired = 0\<rparr>\<rparr>"

theorem keyboard_types_witness:
  "\<exists>s'. run_keyboard example_font example_fb example_sched example_controller 7 example_input = Some s' \<and>
     con s' = fold (\<lambda>ch s. snd (putchar example_font example_fb (sint ch) s)) [65 :: u8, 91, 123] example_console"
proof -
  have t: "typed example_keys False False = [65, 91, 123]"
    by (simp add: example_keys_def typed_char_def caps_after_def code_char_def us_char_def us_rows_def is_letter_def)
  have q: "queue (id (dev (mach example_input))) = example_keys @ []" and e: "1 \<notin> set example_keys"
    by (simp_all add: example_input_def example_keys_def)
  have n: "length example_keys = 7" and p: "ShiftActive (kb example_input) = False" "CapslockActive (kb example_input) = False"
      "con example_input = example_console"
    by (simp_all add: example_input_def example_keys_def)
  show ?thesis
    using keyboard_types [OF example_controller_ok q e, of example_font example_fb example_sched] unfolding n p t by (elim exE conjE) (intro exI conjI, assumption+)
qed

end
