(* ===== verification/Mouse.thy ===== *)
theory Mouse
  imports Console Ide
begin

text \<open>
  The mouse: the variables of \<^verbatim>\<open>kernel/IRQ/mouse.c\<close> and \<^verbatim>\<open>mouse_handler\<close> of \<^verbatim>\<open>kernel/IRQ/traps.c\<close>, which
  collects packets of three bytes, moves the pointer and draws it over the screen, keeping what it covers.
\<close>

section \<open>State\<close>

definition WIDTH_SCREEN :: int where "WIDTH_SCREEN = 1024"
definition HEIGHT_SCREEN :: int where "HEIGHT_SCREEN = 768"
definition MOUSE_W :: nat where "MOUSE_W = 11"
definition MOUSE_H :: nat where "MOUSE_H = 18"

text \<open>The bytes of a packet are signed.\<close>

record mouse =
  mouse_x :: int
  mouse_y :: int
  mouse_cycle :: u8
  mouse_packet :: "u8 list"
  mouse_initialized :: bool
  mouse_bg_buffer :: "u32 list"

definition mouse_start :: mouse where
  "mouse_start = \<lparr>mouse_x = WIDTH_SCREEN div 2, mouse_y = HEIGHT_SCREEN div 2, mouse_cycle = 0,
     mouse_packet = replicate 3 0, mouse_initialized = False, mouse_bg_buffer = replicate (MOUSE_W * MOUSE_H) 0\<rparr>"

definition mouse_cursor_shape :: "u8 list" where
  "mouse_cursor_shape =
    [1,0,0,0,0,0,0,0,0,0,0,
     1,1,0,0,0,0,0,0,0,0,0,
     1,2,1,0,0,0,0,0,0,0,0,
     1,2,2,1,0,0,0,0,0,0,0,
     1,2,2,2,1,0,0,0,0,0,0,
     1,2,2,2,2,1,0,0,0,0,0,
     1,2,2,2,2,2,1,0,0,0,0,
     1,2,2,2,2,2,2,1,0,0,0,
     1,2,2,2,2,2,2,2,1,0,0,
     1,2,2,2,2,2,2,2,2,1,0,
     1,2,2,2,2,2,1,1,1,1,1,
     1,2,2,1,2,2,1,0,0,0,0,
     1,2,1,0,1,2,2,1,0,0,0,
     1,1,0,0,1,2,2,1,0,0,0,
     0,0,0,0,0,1,2,2,1,0,0,
     0,0,0,0,0,1,2,2,1,0,0,
     0,0,0,0,0,0,1,1,0,0,0,
     0,0,0,0,0,0,0,0,0,0,0]"

section \<open>The handler\<close>

text \<open>The three loops over the pointer's rectangle.\<close>

definition visible :: "mouse \<Rightarrow> nat \<Rightarrow> nat \<Rightarrow> bool" where
  "visible m x y \<longleftrightarrow> mouse_x m + int x < WIDTH_SCREEN \<and> mouse_y m + int y < HEIGHT_SCREEN"

definition restore_background :: "framebuffer_info \<Rightarrow> mouse \<Rightarrow> mem \<Rightarrow> mem" where
  "restore_background fb m =
     fold (\<lambda>y. fold (\<lambda>x scr.
         if visible m x y
         then put_pixel fb (of_int (mouse_x m + int x)) (of_int (mouse_y m + int y)) (mouse_bg_buffer m ! (y * MOUSE_W + x)) scr
         else scr) [0..<MOUSE_W]) [0..<MOUSE_H]"

definition save_background :: "framebuffer_info \<Rightarrow> mouse \<Rightarrow> mem \<Rightarrow> u32 list" where
  "save_background fb m scr =
     fold (\<lambda>y. fold (\<lambda>x bg.
         if visible m x y
         then bg[y * MOUSE_W + x := get_pixel fb (of_int (mouse_x m + int x)) (of_int (mouse_y m + int y)) scr]
         else bg) [0..<MOUSE_W]) [0..<MOUSE_H] (mouse_bg_buffer m)"

definition draw_cursor :: "framebuffer_info \<Rightarrow> mouse \<Rightarrow> mem \<Rightarrow> mem" where
  "draw_cursor fb m =
     fold (\<lambda>y. fold (\<lambda>x scr.
         if \<not> visible m x y then scr
         else (let type = mouse_cursor_shape ! (y * MOUSE_W + x)
               in if type = 1 then put_pixel fb (of_int (mouse_x m + int x)) (of_int (mouse_y m + int y)) 0x000000 scr
                  else if type = 2 then put_pixel fb (of_int (mouse_x m + int x)) (of_int (mouse_y m + int y)) 0xFFFFFF scr
                  else scr)) [0..<MOUSE_W]) [0..<MOUSE_H]"

definition clamp :: "int \<Rightarrow> int \<Rightarrow> int" where
  "clamp limit v = (let v1 = (if v < 0 then 0 else v) in if limit - 1 \<le> v1 then limit - 1 else v1)"

definition mouse_move :: "framebuffer_info \<Rightarrow> mouse \<Rightarrow> mem \<Rightarrow> mouse \<times> mem" where
  "mouse_move fb m scr =
     (let dx = sint (mouse_packet m ! 1);
          dy = - sint (mouse_packet m ! 2);
          scr1 = (if mouse_initialized m then restore_background fb m scr else scr);
          m1 = m\<lparr>mouse_x := clamp WIDTH_SCREEN (mouse_x m + dx), mouse_y := clamp HEIGHT_SCREEN (mouse_y m + dy), mouse_cycle := 0\<rparr>;
          m2 = m1\<lparr>mouse_bg_buffer := save_background fb m1 scr1\<rparr>;
          scr2 = draw_cursor fb m2 scr1
      in (m2\<lparr>mouse_initialized := True\<rparr>, scr2))"

text \<open>\<^verbatim>\<open>mouse_packet[mouse_cycle++] = data\<close> and what follows; an index outside the array is \<open>None\<close>.\<close>

definition mouse_data :: "framebuffer_info \<Rightarrow> u8 \<Rightarrow> mouse \<times> mem \<Rightarrow> (mouse \<times> mem) option" where
  "mouse_data fb data ms =
     (let (m, scr) = ms in
      do { packet \<leftarrow> wr (mouse_packet m) (unat (mouse_cycle m)) data;
           let m1 = m\<lparr>mouse_packet := packet, mouse_cycle := mouse_cycle m + 1\<rparr>;
           if mouse_cycle m1 < 3 then Some (m1, scr)
           else if packet ! 0 AND 0x08 = 0 then Some (m1\<lparr>mouse_cycle := 0\<rparr>, scr)
           else Some (mouse_move fb m1 scr) })"

record 'd pointer =
  p_mouse :: mouse
  p_scr :: mem
  pmach :: "'d machine"

definition mouse_handler :: "framebuffer_info \<Rightarrow> 'd ports \<Rightarrow> 'd pointer \<Rightarrow> 'd pointer option" where
  "mouse_handler fb P s =
     (let (status, m1) = inb P 0x64 (pmach s) in
      do { s2 \<leftarrow> (if status AND 0x20 = 0 then Some (s\<lparr>pmach := m1\<rparr>)
                  else (let (data, m2) = inb P 0x60 m1
                        in do { (m, scr') \<leftarrow> mouse_data fb data (p_mouse s, p_scr s);
                                Some (s\<lparr>p_mouse := m, p_scr := scr', pmach := m2\<rparr>) }));
           Some (s2\<lparr>pmach := outb P 0x20 0x20 (outb P 0xA0 0x20 (pmach s2))\<rparr>) })"

section \<open>Writing pixels back\<close>

lemma fold_grid:
  "fold (\<lambda>y. fold (f y) xs) ys s = fold (\<lambda>(y, x). f y x) (List.product ys xs) s"
proof (induction ys arbitrary: s)
  case (Cons y ys)
  have "fold (\<lambda>(y, x). f y x) (map (Pair y) xs) t = fold (f y) xs t" for t by (induction xs arbitrary: t) simp_all
  then show ?case using Cons by simp
qed simp

definition pixel_bytes :: "framebuffer_info \<Rightarrow> u32 \<Rightarrow> u32 \<Rightarrow> u64 set" where
  "pixel_bytes fb x y = (if on_screen fb x y \<and> fb_addr fb \<noteq> 0 then {a. unat (a - pixel_addr fb x y) < 4} else {})"

lemma le_bytes_le_word4:
  assumes "length bs = 4"
  shows "le_bytes 4 (le_word bs :: u32) = bs"
proof -
  obtain a b c d where bs: "bs = [a, b, c, d]" using assms by (auto simp: numeral_eq_Suc length_Suc_conv)
  let ?w = "ucast a OR push_bit 8 (ucast b OR push_bit 8 (ucast c OR push_bit 8 (ucast d))) :: u32"
  have "ucast ?w = a" "ucast (drop_bit 8 ?w) = b" "ucast (drop_bit 16 ?w) = c" "ucast (drop_bit 24 ?w) = d"
    by (rule bit_word_eqI, auto simp: bit_simps dest: bit_imp_le_length)+
  then show ?thesis by (simp add: bs le_bytes_def upt_rec)
qed

lemma put_pixel_outside: "a \<notin> pixel_bytes fb x y \<Longrightarrow> put_pixel fb x y c m a = m a"
  by (auto simp: pixel_bytes_def put_pixel_def on_screen_def st32_def stn_def Let_def split: if_splits)

lemma put_pixel_back:
  "put_pixel fb x y (get_pixel fb x y m0) m a = (if a \<in> pixel_bytes fb x y then m0 a else m a)"
proof (cases "a \<in> pixel_bytes fb x y")
  case True
  let ?p = "pixel_addr fb x y"
  have on: "on_screen fb x y" "fb_addr fb \<noteq> 0" and i: "unat (a - ?p) < 4"
    using True by (simp_all add: pixel_bytes_def split: if_splits)
  have "get_pixel fb x y m0 = le_word (ldn m0 ?p 4)" using on by (simp add: get_pixel_def on_screen_def ld32_def)
  then have "put_pixel fb x y (get_pixel fb x y m0) m = stn m ?p (ldn m0 ?p 4)"
    using on by (simp add: put_pixel_def on_screen_def st32_def le_bytes_le_word4)
  moreover have "ldn m0 ?p 4 ! unat (a - ?p) = m0 a" using i by (simp add: ldn_def)
  ultimately show ?thesis using True i by (simp add: stn_def Let_def)
qed (simp add: put_pixel_outside)

text \<open>Whatever happened inside the rectangle, putting back the pixels of an earlier picture gives that picture.\<close>

lemma fold_put_back:
  assumes "\<And>p. p \<in> set ps \<Longrightarrow> v p = get_pixel fb (X p) (Y p) m0"
  shows "fold (\<lambda>p. put_pixel fb (X p) (Y p) (v p)) ps m a =
    (if \<exists>p \<in> set ps. a \<in> pixel_bytes fb (X p) (Y p) then m0 a else m a)"
  using assms by (induction ps arbitrary: m) (auto simp: put_pixel_back)

lemma fold_put_outside:
  assumes "\<And>p. p \<in> set ps \<Longrightarrow> a \<notin> pixel_bytes fb (X p) (Y p)"
    and "\<And>p m. f p m = m \<or> (\<exists>c. f p m = put_pixel fb (X p) (Y p) c m)"
  shows "fold f ps m a = m a"
  using assms(1)
proof (induction ps arbitrary: m)
  case (Cons p ps)
  have "f p m a = m a" using assms(2) [of p m] Cons.prems [of p] by (auto simp: put_pixel_outside)
  then show ?case using Cons by simp
qed simp

section \<open>The picture under the pointer\<close>

definition cells :: "mouse \<Rightarrow> (nat \<times> nat) list" where
  "cells m = filter (\<lambda>(y, x). visible m x y) (List.product [0..<MOUSE_H] [0..<MOUSE_W])"

definition cell_x :: "mouse \<Rightarrow> nat \<times> nat \<Rightarrow> u32" where
  "cell_x m p = of_int (mouse_x m + int (snd p))"

definition cell_y :: "mouse \<Rightarrow> nat \<times> nat \<Rightarrow> u32" where
  "cell_y m p = of_int (mouse_y m + int (fst p))"

definition cell_index :: "nat \<times> nat \<Rightarrow> nat" where
  "cell_index p = fst p * MOUSE_W + snd p"

lemma fold_filter_if: "fold (\<lambda>p t. if P p then f p t else t) ps t = fold f (filter P ps) t"
  by (induction ps arbitrary: t) simp_all

lemma restore_background_cells:
  "restore_background fb m scr =
    fold (\<lambda>p. put_pixel fb (cell_x m p) (cell_y m p) (mouse_bg_buffer m ! cell_index p)) (cells m) scr"
proof -
  have "restore_background fb m scr = fold (\<lambda>p scr. if (case p of (y, x) \<Rightarrow> visible m x y)
      then put_pixel fb (cell_x m p) (cell_y m p) (mouse_bg_buffer m ! cell_index p) scr else scr) (List.product [0..<MOUSE_H] [0..<MOUSE_W]) scr"
    unfolding restore_background_def fold_grid
    by (rule fold_cong) (auto simp: cell_x_def cell_y_def cell_index_def)
  then show ?thesis by (simp only: fold_filter_if cells_def)
qed

lemma save_background_cells:
  "save_background fb m scr = fold (\<lambda>p bg. bg[cell_index p := get_pixel fb (cell_x m p) (cell_y m p) scr]) (cells m) (mouse_bg_buffer m)"
proof -
  have "save_background fb m scr = fold (\<lambda>p bg. if (case p of (y, x) \<Rightarrow> visible m x y)
      then bg[cell_index p := get_pixel fb (cell_x m p) (cell_y m p) scr] else bg) (List.product [0..<MOUSE_H] [0..<MOUSE_W]) (mouse_bg_buffer m)"
    unfolding save_background_def fold_grid
    by (rule fold_cong) (auto simp: cell_x_def cell_y_def cell_index_def)
  then show ?thesis by (simp only: fold_filter_if cells_def)
qed

lemma cells_bounds: "p \<in> set (cells m) \<Longrightarrow> fst p < MOUSE_H \<and> snd p < MOUSE_W"
  by (auto simp: cells_def)

lemma cell_index_inj:
  assumes "snd p < MOUSE_W" and "snd q < MOUSE_W" and "cell_index p = cell_index q"
  shows "p = q"
proof -
  have d: "cell_index r div MOUSE_W = fst r" "cell_index r mod MOUSE_W = snd r" if "snd r < MOUSE_W" for r
    using that by (simp_all add: cell_index_def MOUSE_W_def)
  show ?thesis using d [OF assms(1)] d [OF assms(2)] assms(3) by (simp add: prod_eq_iff)
qed

lemma cell_index_less:
  assumes "p \<in> set (cells m)"
  shows "cell_index p < MOUSE_W * MOUSE_H"
  using cells_bounds [OF assms] by (simp add: cell_index_def MOUSE_W_def MOUSE_H_def)

lemma fold_update_length: "length (fold (\<lambda>p bg. bg[i p := v p]) ps bg) = length bg"
  by (induction ps arbitrary: bg) simp_all

lemma fold_update_nth:
  assumes "p \<in> set ps" and "i p < length bg" and "\<And>q. q \<in> set ps \<Longrightarrow> i q = i p \<Longrightarrow> q = p"
  shows "fold (\<lambda>p bg. bg[i p := v p]) ps bg ! i p = v p"
proof -
  have keep: "fold (\<lambda>p bg. bg[i p := v p]) qs bg ! i p = v p"
    if "set qs \<subseteq> set ps" "bg ! i p = v p" "i p < length bg" for qs bg
    using that
  proof (induction qs arbitrary: bg)
    case (Cons q qs)
    have "i q = i p \<Longrightarrow> q = p" using assms(3) [of q] Cons.prems(1) by simp
    then have "bg[i q := v q] ! i p = v p" using Cons.prems(2,3) by (cases "i q = i p") simp_all
    then show ?case using Cons by simp
  qed simp
  obtain as bs where ps: "ps = as @ p # bs" using split_list [OF assms(1)] by blast
  show ?thesis using keep [of bs "(fold (\<lambda>p bg. bg[i p := v p]) as bg)[i p := v p]"] assms(2)
    by (auto simp: ps fold_update_length)
qed

lemma save_background_nth:
  assumes "length (mouse_bg_buffer m) = MOUSE_W * MOUSE_H" and "p \<in> set (cells m)"
  shows "save_background fb m scr ! cell_index p = get_pixel fb (cell_x m p) (cell_y m p) scr"
  unfolding save_background_cells
proof (rule fold_update_nth [OF assms(2)])
  show "cell_index p < length (mouse_bg_buffer m)" using cell_index_less [OF assms(2)] assms(1) by simp
  show "q = p" if "q \<in> set (cells m)" "cell_index q = cell_index p" for q
    using cell_index_inj that cells_bounds assms(2) by blast
qed

text \<open>Drawing the pointer changes nothing outside its cells.\<close>

lemma draw_cursor_outside:
  assumes "\<And>p. p \<in> set (cells m) \<Longrightarrow> a \<notin> pixel_bytes fb (cell_x m p) (cell_y m p)"
  shows "draw_cursor fb m scr a = scr a"
proof -
  define f where "f p scr = (let type = mouse_cursor_shape ! cell_index p
      in if type = 1 then put_pixel fb (cell_x m p) (cell_y m p) 0x000000 scr
         else if type = 2 then put_pixel fb (cell_x m p) (cell_y m p) 0xFFFFFF scr else scr)" for p scr
  have "draw_cursor fb m scr = fold (\<lambda>p scr. if (case p of (y, x) \<Rightarrow> visible m x y) then f p scr else scr)
      (List.product [0..<MOUSE_H] [0..<MOUSE_W]) scr"
    unfolding draw_cursor_def fold_grid
    by (rule fold_cong) (auto simp: f_def cell_x_def cell_y_def cell_index_def Let_def)
  then have "draw_cursor fb m scr = fold f (cells m) scr" by (simp only: fold_filter_if cells_def)
  moreover have "f p m' = m' \<or> (\<exists>c. f p m' = put_pixel fb (cell_x m p) (cell_y m p) c m')" for p m'
    by (auto simp: f_def Let_def)
  ultimately show ?thesis using fold_put_outside [of "cells m" a fb "cell_x m" "cell_y m" f scr] assms by simp
qed

text \<open>The picture: what the screen shows without the pointer.\<close>

definition picture :: "framebuffer_info \<Rightarrow> mouse \<Rightarrow> mem \<Rightarrow> mem" where
  "picture fb m scr = (if mouse_initialized m then restore_background fb m scr else scr)"

lemma same_cells:
  "cells (m\<lparr>mouse_bg_buffer := b\<rparr>) = cells m" "cell_x (m\<lparr>mouse_bg_buffer := b\<rparr>) = cell_x m" "cell_y (m\<lparr>mouse_bg_buffer := b\<rparr>) = cell_y m"
  "cells (m\<lparr>mouse_initialized := i\<rparr>) = cells m" "cell_x (m\<lparr>mouse_initialized := i\<rparr>) = cell_x m" "cell_y (m\<lparr>mouse_initialized := i\<rparr>) = cell_y m"
  by (simp_all add: cells_def visible_def cell_x_def [abs_def] cell_y_def [abs_def])

lemma redraw_restores:
  fixes fb :: framebuffer_info and scr :: mem
  assumes "length (mouse_bg_buffer m) = MOUSE_W * MOUSE_H"
  defines "m2 \<equiv> m\<lparr>mouse_bg_buffer := save_background fb m scr\<rparr>"
  shows "restore_background fb (m2\<lparr>mouse_initialized := True\<rparr>) (draw_cursor fb m2 scr) = scr"
proof
  fix a
  have saved: "mouse_bg_buffer (m2\<lparr>mouse_initialized := True\<rparr>) ! cell_index p = get_pixel fb (cell_x m p) (cell_y m p) scr"
    if "p \<in> set (cells m)" for p
    using save_background_nth [OF assms(1) that] by (simp add: m2_def)
  have "draw_cursor fb m2 scr a = scr a" if "\<not> (\<exists>p \<in> set (cells m). a \<in> pixel_bytes fb (cell_x m p) (cell_y m p))"
    using draw_cursor_outside [of m2 a fb scr] that by (auto simp: m2_def same_cells)
  then show "restore_background fb (m2\<lparr>mouse_initialized := True\<rparr>) (draw_cursor fb m2 scr) a = scr a"
    unfolding restore_background_cells same_cells
    using fold_put_back [OF saved, of "cells m" "\<lambda>p. p" "draw_cursor fb m2 scr" a] 
    by (simp add: m2_def same_cells)
qed

section \<open>Moving\<close>

definition mouse_ok :: "mouse \<Rightarrow> bool" where
  "mouse_ok m \<longleftrightarrow> 0 \<le> mouse_x m \<and> mouse_x m < WIDTH_SCREEN \<and> 0 \<le> mouse_y m \<and> mouse_y m < HEIGHT_SCREEN \<and>
     mouse_cycle m < 3 \<and> length (mouse_packet m) = 3 \<and> length (mouse_bg_buffer m) = MOUSE_W * MOUSE_H"

lemma picture_cong:
  assumes "mouse_x m' = mouse_x m" and "mouse_y m' = mouse_y m" and "mouse_bg_buffer m' = mouse_bg_buffer m"
    and "mouse_initialized m' = mouse_initialized m"
  shows "picture fb m' scr = picture fb m scr"
  unfolding picture_def restore_background_def visible_def assms ..

lemma clamp_bounds: "0 < limit \<Longrightarrow> 0 \<le> clamp limit v \<and> clamp limit v < limit"
  by (auto simp: clamp_def Let_def)

lemma save_background_length: "length (save_background fb m scr) = length (mouse_bg_buffer m)"
  by (simp add: save_background_cells fold_update_length)

lemma mouse_move_ok:
  assumes "length (mouse_packet m) = 3" and "length (mouse_bg_buffer m) = MOUSE_W * MOUSE_H" and "mouse_move fb m scr = (m', scr')"
  shows "mouse_ok m'" and "picture fb m' scr' = picture fb m scr"
proof -
  define m1 where "m1 = m\<lparr>mouse_x := clamp WIDTH_SCREEN (mouse_x m + sint (mouse_packet m ! 1)),
    mouse_y := clamp HEIGHT_SCREEN (mouse_y m - sint (mouse_packet m ! 2)), mouse_cycle := 0\<rparr>"
  define m2 where "m2 = m1\<lparr>mouse_bg_buffer := save_background fb m1 (picture fb m scr)\<rparr>"
  have r: "m' = m2\<lparr>mouse_initialized := True\<rparr>" "scr' = draw_cursor fb m2 (picture fb m scr)"
    using assms(3) by (simp_all add: mouse_move_def Let_def m1_def m2_def picture_def)
  have "length (mouse_bg_buffer m1) = MOUSE_W * MOUSE_H" using assms(2) by (simp add: m1_def)
  from redraw_restores [OF this, of fb "picture fb m scr"] show "picture fb m' scr' = picture fb m scr"
    unfolding r m2_def [symmetric] by (subst picture_def) simp
  show "mouse_ok m'"
    using assms(1,2) clamp_bounds [of WIDTH_SCREEN] clamp_bounds [of HEIGHT_SCREEN]
    by (simp add: r m2_def m1_def mouse_ok_def save_background_length WIDTH_SCREEN_def HEIGHT_SCREEN_def)
qed

lemma mouse_data_ok:
  assumes "mouse_ok m"
  shows "\<exists>m' scr'. mouse_data fb data (m, scr) = Some (m', scr') \<and> mouse_ok m' \<and> picture fb m' scr' = picture fb m scr"
proof -
  have c: "unat (mouse_cycle m) < 3" using assms by (simp add: mouse_ok_def word_less_nat_alt)
  define m1 where "m1 = m\<lparr>mouse_packet := (mouse_packet m)[unat (mouse_cycle m) := data], mouse_cycle := mouse_cycle m + 1\<rparr>"
  have run: "mouse_data fb data (m, scr) =
      (if mouse_cycle m1 < 3 then Some (m1, scr)
       else if mouse_packet m1 ! 0 AND 0x08 = 0 then Some (m1\<lparr>mouse_cycle := 0\<rparr>, scr) else Some (mouse_move fb m1 scr))"
    using c assms by (simp add: mouse_data_def wr_def m1_def mouse_ok_def Let_def)
  have p1: "picture fb (m1\<lparr>mouse_cycle := k\<rparr>) scr = picture fb m scr" "picture fb m1 scr = picture fb m scr" for k
    by (rule picture_cong; simp add: m1_def)+
  have l: "length (mouse_packet m1) = 3" "length (mouse_bg_buffer m1) = MOUSE_W * MOUSE_H" using assms by (simp_all add: m1_def mouse_ok_def)
  obtain m2 s2 where mv: "mouse_move fb m1 scr = (m2, s2)" by (cases "mouse_move fb m1 scr")
  show ?thesis
    using run p1 assms mouse_move_ok [OF l mv] mv by (auto simp: m1_def mouse_ok_def)
qed

lemma mouse_handler_ok:
  assumes "mouse_ok (p_mouse s)"
  shows "\<exists>s'. mouse_handler fb P s = Some s' \<and> mouse_ok (p_mouse s') \<and>
    picture fb (p_mouse s') (p_scr s') = picture fb (p_mouse s) (p_scr s)"
proof -
  obtain status m1 where st: "inb P 0x64 (pmach s) = (status, m1)" by (cases "inb P 0x64 (pmach s)")
  obtain data m2 where d: "inb P 0x60 m1 = (data, m2)" by (cases "inb P 0x60 m1")
  obtain m scr where "mouse_data fb data (p_mouse s, p_scr s) = Some (m, scr)" "mouse_ok m"
    "picture fb m scr = picture fb (p_mouse s) (p_scr s)"
    using mouse_data_ok [OF assms] by blast
  then show ?thesis using assms by (simp add: mouse_handler_def st d)
qed

fun run_mouse :: "framebuffer_info \<Rightarrow> 'd ports \<Rightarrow> nat \<Rightarrow> 'd pointer \<Rightarrow> 'd pointer option" where
  "run_mouse fb P 0 s = Some s"
| "run_mouse fb P (Suc n) s = do { s' \<leftarrow> mouse_handler fb P s; run_mouse fb P n s' }"

text \<open>C33: The pointer never damages the picture. Whatever the hardware delivers, the handler stays inside its arrays,
  the pointer stays on the screen, and taking it away (putting back the saved colours) leaves every byte of the screen as
  it was before the first interrupt, at the edges of the screen and over a smaller framebuffer too. A whole packet whose first byte
  has bit 3 set moves the pointer by its two signed offsets, the second one upwards, up to the edge.\<close>

theorem mouse_keeps_picture:
  assumes "mouse_ok (p_mouse s)"
  shows "(\<exists>s'. run_mouse fb P n s = Some s' \<and> mouse_ok (p_mouse s') \<and>
      picture fb (p_mouse s') (p_scr s') = picture fb (p_mouse s) (p_scr s)) \<and>
    (mouse_cycle (p_mouse s) = 0 \<and> bit b0 3 \<longrightarrow>
      (\<exists>m scr'. fold_opt (mouse_data fb) [b0, b1, b2] (p_mouse s, p_scr s) = Some (m, scr') \<and> mouse_cycle m = 0 \<and>
        mouse_x m = max 0 (min 1023 (mouse_x (p_mouse s) + sint b1)) \<and> mouse_y m = max 0 (min 767 (mouse_y (p_mouse s) - sint b2))))"
proof
  show "\<exists>s'. run_mouse fb P n s = Some s' \<and> mouse_ok (p_mouse s') \<and>
      picture fb (p_mouse s') (p_scr s') = picture fb (p_mouse s) (p_scr s)"
    using assms
  proof (induction n arbitrary: s)
    case (Suc n)
    obtain s1 where s1: "mouse_handler fb P s = Some s1" "mouse_ok (p_mouse s1)"
      "picture fb (p_mouse s1) (p_scr s1) = picture fb (p_mouse s) (p_scr s)"
      using mouse_handler_ok [OF Suc.prems] by blast
    then show ?case using Suc.IH [OF s1(2)] by simp
  qed simp
  show "mouse_cycle (p_mouse s) = 0 \<and> bit b0 3 \<longrightarrow>
      (\<exists>m scr'. fold_opt (mouse_data fb) [b0, b1, b2] (p_mouse s, p_scr s) = Some (m, scr') \<and> mouse_cycle m = 0 \<and>
        mouse_x m = max 0 (min 1023 (mouse_x (p_mouse s) + sint b1)) \<and> mouse_y m = max 0 (min 767 (mouse_y (p_mouse s) - sint b2)))"
  proof
    assume h: "mouse_cycle (p_mouse s) = 0 \<and> bit b0 3"
    let ?m = "p_mouse s"
    have l: "length (mouse_packet ?m) = 3" using assms by (simp add: mouse_ok_def)
    have b: "b0 AND 8 \<noteq> 0" using h and_exp_eq_0_iff_not_bit [of b0 3] by simp
    have cl: "clamp WIDTH_SCREEN v = max 0 (min 1023 v)" "clamp HEIGHT_SCREEN v = max 0 (min 767 v)" for v
      by (auto simp: clamp_def WIDTH_SCREEN_def HEIGHT_SCREEN_def Let_def)
    define m1 where "m1 = ?m\<lparr>mouse_packet := (mouse_packet ?m)[0 := b0, Suc 0 := b1, 2 := b2], mouse_cycle := 3\<rparr>"
    have "fold_opt (mouse_data fb) [b0, b1, b2] (?m, p_scr s) = Some (mouse_move fb m1 (p_scr s))"
      using l h b by (simp add: mouse_data_def wr_def m1_def Let_def)
    then show "\<exists>m scr'. fold_opt (mouse_data fb) [b0, b1, b2] (?m, p_scr s) = Some (m, scr') \<and> mouse_cycle m = 0 \<and>
        mouse_x m = max 0 (min 1023 (mouse_x ?m + sint b1)) \<and> mouse_y m = max 0 (min 767 (mouse_y ?m - sint b2))"
      using l by (simp add: mouse_move_def Let_def cl m1_def)
  qed
qed

theorem mouse_keeps_picture_witness:
  "\<exists>m scr. fold_opt (mouse_data example_fb) [0x08, 0xF6, 0x14] (mouse_start, \<lambda>_. 7) = Some (m, scr) \<and> mouse_x m = 502 \<and> mouse_y m = 364"
proof -
  have ok: "mouse_ok mouse_start" by (simp add: mouse_ok_def mouse_start_def WIDTH_SCREEN_def HEIGHT_SCREEN_def MOUSE_W_def MOUSE_H_def)
  let ?s = "\<lparr>p_mouse = mouse_start, p_scr = (\<lambda>_. 7), pmach = \<lparr>dev = (), ide_irq_fired = 0\<rparr>\<rparr>"
  have c: "mouse_cycle (p_mouse ?s) = 0 \<and> bit (0x08 :: u8) 3" by (simp add: mouse_start_def)
  have x: "p_mouse ?s = mouse_start" "p_scr ?s = (\<lambda>_. 7)" "max 0 (min 1023 (mouse_x mouse_start + sint (0xF6 :: u8))) = 502"
    "max 0 (min 767 (mouse_y mouse_start - sint (0x14 :: u8))) = 364"
    by (simp_all add: mouse_start_def WIDTH_SCREEN_def HEIGHT_SCREEN_def)
  have "mouse_ok (p_mouse ?s)" using ok by simp
  from mp [OF conjunct2 [OF mouse_keeps_picture [OF this, of example_fb _ 0 "0x08" "0xF6" "0x14"]] c]
  show ?thesis unfolding x by blast
qed

end
