(* ===== verification/Faults.thy ===== *)
theory Faults
  imports Sched Console Ide
begin

text \<open>
  The handlers of \<^verbatim>\<open>kernel/IRQ/traps.c\<close> that end or switch tasks: the faults, the timer interrupt (entered through
  \<^verbatim>\<open>irq0_handler\<close>, which \<^verbatim>\<open>Irq\<close> models), the disk's and the system
  controller's interrupts, and what a timer interrupt does in the middle of \<^verbatim>\<open>CreateTask\<close>.
\<close>

section \<open>Faults\<close>

record 'd world =
  w_sched :: sched
  w_con :: console
  w_mach :: "'d machine"

text \<open>How a fault ends: the kernel has printed its message and spins, or the flow of control is that of the scheduler.\<close>

datatype trap_end = Panicked | Flow flow

definition panic_idle :: "psf1_font \<Rightarrow> framebuffer_info \<Rightarrow> string \<Rightarrow> 'd world \<Rightarrow> (trap_end \<times> 'd world) option" where
  "panic_idle font fb msg w = map_option (\<lambda>c. (Panicked, w\<lparr>w_con := c\<rparr>)) (panic font fb (c_str msg) (w_con w))"

definition divide_by_zero_handler ::
    "labels \<Rightarrow> psf1_font \<Rightarrow> framebuffer_info \<Rightarrow> 'd world \<Rightarrow> (trap_end \<times> 'd world) option" where
  "divide_by_zero_handler L font fb w =
     (if CurrentTaskPID (w_sched w) = 0 then panic_idle font fb ''Divide By Zero in idle thread.'' w
      else do { (fl, s) \<leftarrow> ExitTask L (-1) (w_sched w); Some (Flow fl, w\<lparr>w_sched := s\<rparr>) })"

text \<open>\<^verbatim>\<open>KillTask(CurrentTaskPID); Schedule();\<close>, the second call only when the first returns.\<close>

definition kill_current :: "labels \<Rightarrow> 'd world \<Rightarrow> (trap_end \<times> 'd world) option" where
  "kill_current L w =
     do { (fl, s) \<leftarrow> KillTask L (CurrentTaskPID (w_sched w)) (w_sched w);
          case fl of
            Returned r \<Rightarrow> do { (sw, s') \<leftarrow> Schedule L s; Some (Flow (if sw then Switched else Returned 0), w\<lparr>w_sched := s'\<rparr>) }
          | _ \<Rightarrow> Some (Flow fl, w\<lparr>w_sched := s\<rparr>) }"

definition general_protection_handler ::
    "labels \<Rightarrow> psf1_font \<Rightarrow> framebuffer_info \<Rightarrow> 'd world \<Rightarrow> (trap_end \<times> 'd world) option" where
  "general_protection_handler L font fb w =
     (if CurrentTaskPID (w_sched w) = 0 then panic_idle font fb ''General Protection Fault in idle thread.'' w
      else kill_current L w)"

definition page_handler ::
    "labels \<Rightarrow> psf1_font \<Rightarrow> framebuffer_info \<Rightarrow> 'd world \<Rightarrow> (trap_end \<times> 'd world) option" where
  "page_handler L font fb w =
     (if CurrentTaskPID (w_sched w) = 0 then panic_idle font fb ''Page Fault in idle thread.'' w
      else kill_current L w)"

section \<open>Interrupts\<close>

definition timer_callback :: "labels \<Rightarrow> 'd ports \<Rightarrow> 'd world \<Rightarrow> (bool \<times> 'd world) option" where
  "timer_callback L P w =
     (let m = outb P 0x20 0x20 (w_mach w);
          s = (w_sched w)\<lparr>ticks := ticks (w_sched w) + 1\<rparr>
      in do { (sw, s') \<leftarrow> Schedule L s; Some (sw, w\<lparr>w_sched := s', w_mach := m\<rparr>) })"

definition ide_handler :: "'d ports \<Rightarrow> 'd machine \<Rightarrow> 'd machine" where
  "ide_handler P m =
     (let m1 = m\<lparr>ide_irq_fired := 1\<rparr>;
          (_, m2) = inb P 0x1F7 m1;
          (_, m3) = inb P 0x177 m2
      in outb P 0x20 0x20 (outb P 0xA0 0x20 m3))"

definition sci_handler :: "'d ports \<Rightarrow> 'd machine \<Rightarrow> 'd machine" where
  "sci_handler P m = outb P 0x20 0x20 (outb P 0xA0 0x20 m)"

section \<open>A faulting task never runs on\<close>

text \<open>The console when the text \<open>t\<close> has been printed, and the text of a panic.\<close>

definition shown :: "psf1_font \<Rightarrow> framebuffer_info \<Rightarrow> u8 list \<Rightarrow> console \<Rightarrow> console" where
  "shown font fb t s = fold (\<lambda>b s. snd (putchar font fb (sint b) s)) t s"

definition panic_line :: "string \<Rightarrow> u8 list" where
  "panic_line msg = map (\<lambda>c. of_nat (of_char c)) ''Kernel panic: '' @ cstr (c_str msg) @ [10, 13]"

lemma panic_shows:
  assumes "length msg < 1000"
  shows "panic font fb (c_str msg) con = Some (shown font fb (panic_line msg) con)"
proof -
  let ?fmt = "butlast (c_str ''Kernel panic: %s'') @ [10, 13, 0]"
  have f: "terminated ?fmt" by (simp add: c_str_def terminated_def)
  have t: "terminated (c_str msg)" by (simp add: c_str_def terminated_def)
  have l: "length (cstr (c_str msg)) \<le> length msg + 1"
    unfolding cstr_def c_str_def by (rule order_trans [OF length_takeWhile_le]) simp
  have "render (cstr ?fmt) [VStr (c_str msg)] = Some (panic_line msg)"
    using t by (simp add: panic_line_def c_str_def cstr_def [of "_ @ [10, 13, 0]"])
  moreover have "length (panic_line msg) = length (cstr (c_str msg)) + 16" by (simp add: panic_line_def)
  ultimately show ?thesis using printk_spec [OF f, of _ "panic_line msg" font fb con] l assms by (simp add: panic_def shown_def)
qed

text \<open>C19: Faults are contained. A division error, a protection fault or a page fault in a task other than the idle task ends that
  task: the processor goes on with another one, the slot of the faulting task is empty, and every other task but the one resumed is as it
  was but for one tick. In the idle task the kernel stops, nothing but the console having changed: it shows the message of the fault.\<close>

theorem faults_contained:
  assumes "sched_ready (w_sched w)" and "stack_clear (s_cpu (w_sched w)) (s_mm (w_sched w))"
    and h: "(h, msg) \<in> {(divide_by_zero_handler L font fb, ''Divide By Zero in idle thread.''),
      (general_protection_handler L font fb, ''General Protection Fault in idle thread.''), (page_handler L font fb, ''Page Fault in idle thread.'')}"
  shows "if CurrentTaskPID (w_sched w) = 0
    then h w = Some (Panicked, w\<lparr>w_con := shown font fb (panic_line msg) (w_con w)\<rparr>)
    else \<exists>s'. h w = Some (Flow Switched, w\<lparr>w_sched := s'\<rparr>) \<and> sched_ready s' \<and>
      CurrentTaskPID s' \<noteq> CurrentTaskPID (w_sched w) \<and>
      state (TaskTable s' ! nat (CurrentTaskPID (w_sched w))) = TASK_EMPTY \<and>
      (\<forall>j < MAX_TASK_COUNT. int j \<noteq> CurrentTaskPID (w_sched w) \<and> int j \<noteq> CurrentTaskPID s' \<longrightarrow>
        TaskTable s' ! j = tick_task j (TaskTable (w_sched w) ! j))"
proof (cases "CurrentTaskPID (w_sched w) = 0")
  case True
  have "panic_idle font fb m w = Some (Panicked, w\<lparr>w_con := shown font fb (panic_line m) (w_con w)\<rparr>)" if "length m < 1000" for m
    using panic_shows [OF that, of font fb "w_con w"] by (simp add: panic_idle_def)
  then show ?thesis using True h
    by (auto simp: divide_by_zero_handler_def general_protection_handler_def page_handler_def)
next
  case False
  let ?s = "w_sched w" and ?c = "nat (CurrentTaskPID (w_sched w))"
  note z = dying_ok [OF assms(1) False, where code = "-1"]
  have inv: "sched_inv ?s" and alive: "state (TaskTable ?s ! ?c) \<noteq> TASK_EMPTY" using assms(1) by (auto simp: sched_ready_def)
  have c: "?c < MAX_TASK_COUNT" "?c \<noteq> 0" using False sched_invD(2,3) [OF inv] by (auto simp: nat_less_iff)
  obtain s' s1 where e: "ExitTask L (-1) ?s = Some (Switched, s')" "sched_ready s'" "housekeeping (dying (-1) ?s) = Some s1"
    "schedule_post L (dying (-1) ?s) s1 True s'"
    using ExitTask_ready [OF assms(1,2), of L "-1"] False by auto
  have tick: "TaskTable s1 ! j = tick_task j (TaskTable (dying (-1) ?s) ! j)" if "j < MAX_TASK_COUNT" for j
    using housekeeping_result [OF z(1)] e(3) that by auto
  have dead: "state (TaskTable s1 ! ?c) = TASK_EMPTY" using tick [OF c(1)] c(2) z(6) by (simp add: tick_task_def zero_task_facts)
  have post: "CurrentTaskPID s' \<noteq> CurrentTaskPID ?s" "state (TaskTable s' ! ?c) = TASK_EMPTY"
    "\<forall>j < MAX_TASK_COUNT. int j \<noteq> CurrentTaskPID ?s \<and> int j \<noteq> CurrentTaskPID s' \<longrightarrow> TaskTable s' ! j = TaskTable s1 ! j"
    using e(4) dead unfolding schedule_post_def z(3) by simp_all
  have "TaskTable s' ! j = tick_task j (TaskTable ?s ! j)"
    if "j < MAX_TASK_COUNT" "int j \<noteq> CurrentTaskPID ?s" "int j \<noteq> CurrentTaskPID s'" for j
  proof -
    have "j \<noteq> ?c" using that(2) sched_invD(2) [OF inv] by auto
    then show ?thesis using post(3) tick [OF that(1)] z(7) [of j] that by simp
  qed
  moreover have "h w = Some (Flow Switched, w\<lparr>w_sched := s'\<rparr>)"
  proof -
    have "0 < CurrentTaskPID ?s" "CurrentTaskPID ?s < int MAX_TASK_COUNT" using False sched_invD(2,3) [OF inv] by auto
    then have "KillTask L (CurrentTaskPID ?s) ?s = Some (Switched, s')"
      using KillTask_ready [OF assms(1,2), of L "CurrentTaskPID ?s"] alive e(1) by auto
    then show ?thesis using h e(1) False
      by (auto simp: divide_by_zero_handler_def general_protection_handler_def page_handler_def kill_current_def)
  qed
  ultimately show ?thesis using False e(2) post(1,2) by auto
qed

definition example_world :: "unit world" where
  "example_world = \<lparr>w_sched = example_sched, w_con = example_console, w_mach = \<lparr>dev = (), ide_irq_fired = 0\<rparr>\<rparr>"

theorem faults_contained_witness:
  "page_handler example_labels example_font example_fb example_world = Some (Panicked,
     example_world\<lparr>w_con := shown example_font example_fb (panic_line ''Page Fault in idle thread.'') (w_con example_world)\<rparr>)"
proof -
  have w: "w_sched example_world = example_sched" "CurrentTaskPID example_sched = 0"
    by (simp_all add: example_world_def example_sched_def)
  show ?thesis
    using faults_contained [of example_world "page_handler example_labels example_font example_fb" "''Page Fault in idle thread.''" example_labels example_font example_fb,
        unfolded w(1), OF example_sched_ready example_sched_clear] w(2) by simp
qed

section \<open>Ticks\<close>

text \<open>Before \<^verbatim>\<open>sched_init\<close> a timer interrupt only counts.\<close>

lemma early_tick:
  assumes "\<not> scheduler_started (w_sched w)"
  shows "timer_callback L P w =
    Some (False, w\<lparr>w_sched := (w_sched w)\<lparr>ticks := ticks (w_sched w) + 1\<rparr>, w_mach := outb P 0x20 0x20 (w_mach w)\<rparr>)"
  using assms by (simp add: timer_callback_def Schedule_def)

section \<open>A tick in the middle of CreateTask\<close>

text \<open>\<^verbatim>\<open>CreateTask\<close> runs with interrupts on. Its two halves: the slot is entered as a waiting task; then the stack is allocated
  and the stack pointer set.\<close>

definition create_enter :: "u8 list \<Rightarrow> int \<Rightarrow> sched \<Rightarrow> (int + nat \<times> sched) option" where
  "create_enter nm parent s =
     (if int MAX_TASK_COUNT \<le> TaskCount s then Some (Inl (-1))
      else case find_empty (TaskTable s) of
        None \<Rightarrow> Some (Inl (-1))
      | Some i \<Rightarrow>
          do { let t = TaskTable s ! i;
               n \<leftarrow> strncpy (name t) nm (MAX_TASK_NAME - 1);
               Some (Inr (i, put_task (int i)
                 (t\<lparr>pid := int i, ppid := parent, state := TASK_WAITING, priority := 1, name := n\<rparr>) s)) })"

definition create_finish :: "labels \<Rightarrow> u64 \<Rightarrow> nat \<Rightarrow> sched \<Rightarrow> (int \<times> sched) option" where
  "create_finish L task i s =
     do { let t = TaskTable s ! i;
          (stack, hs) \<leftarrow> kmalloc 4096 (s_mm s);
          let t2 = t\<lparr>kstack := stack\<rparr>;
          let s1 = (put_task (int i) t2 s)\<lparr>s_mm := hs\<rparr>;
          if stack = 0 then Some (err ENOMEM, s1)
          else (let (sp, m) = initial_frame L task (stack + 4096) (mm_mem hs)
                in Some (int i, (put_task (int i) (t2\<lparr>t_rsp := sp\<rparr>) s1)
                     \<lparr>s_mm := hs\<lparr>mm_mem := m\<rparr>, TaskCount := TaskCount s1 + 1\<rparr>)) }"

lemma CreateTask_halves:
  "CreateTask L nm task parent s =
    do { r \<leftarrow> create_enter nm parent s; (case r of Inl e \<Rightarrow> Some (e, s) | Inr (i, s1) \<Rightarrow> create_finish L task i s1) }"
proof (cases "find_empty (TaskTable s)")
  case (Some i)
  then have "i < length (TaskTable s)" by (simp add: find_empty_Some)
  then show ?thesis using Some
    by (cases "strncpy (name (TaskTable s ! i)) nm (MAX_TASK_NAME - 1)"; cases "kmalloc 4096 (s_mm s)")
      (auto simp: CreateTask_def create_enter_def create_finish_def put_task_def Let_def split: prod.split)
qed (simp add: CreateTask_def create_enter_def)

text \<open>After the first half the table is still well formed, with the new task waiting on whatever stack pointer its slot had.\<close>

lemma create_enter_ready:
  assumes "sched_ready (w_sched w)" and "terminated nm"
    and slot: "find_empty (TaskTable (w_sched w)) = Some i" "kstack (TaskTable (w_sched w) ! i) = 0"
    and room: "TaskCount (w_sched w) < int MAX_TASK_COUNT"
  shows "\<exists>t s1. create_enter nm parent (w_sched w) = Some (Inr (i, s1)) \<and> s1 = (w_sched w)\<lparr>TaskTable := (TaskTable (w_sched w))[i := t]\<rparr> \<and>
    state t = TASK_WAITING \<and> t_rsp t = t_rsp (TaskTable (w_sched w) ! i) \<and> sched_inv (s1\<lparr>ticks := ticks s1 + 1\<rparr>) \<and>
    i < MAX_TASK_COUNT \<and> i < length (TaskTable (w_sched w)) \<and> int i \<noteq> CurrentTaskPID (w_sched w)"
proof -
  let ?s = "w_sched w" and ?t = "TaskTable (w_sched w) ! i"
  have inv: "sched_inv ?s" and st: "scheduler_started ?s"
    and alive: "state (TaskTable ?s ! nat (CurrentTaskPID ?s)) \<noteq> TASK_EMPTY" using assms(1) by (auto simp: sched_ready_def)
  note D = sched_invD [OF inv]
  have i: "i < length (TaskTable ?s)" "state ?t = TASK_EMPTY" using slot(1) by (auto simp: find_empty_Some)
  have im: "i < MAX_TASK_COUNT" and i0: "i \<noteq> 0" using i D(1,7) by (auto intro: ccontr)
  have ic: "int i \<noteq> CurrentTaskPID ?s"
  proof
    assume "int i = CurrentTaskPID ?s"
    then have "nat (CurrentTaskPID ?s) = i" by (simp add: nat_eq_iff)
    then show False using alive i(2) by simp
  qed
  obtain n where n: "strncpy (name ?t) nm (MAX_TASK_NAME - 1) = Some n" "length n = MAX_TASK_NAME" "n ! 31 = 0"
    using name_copy [OF D(5) [OF im] assms(2)] by auto
  define t where "t = ?t\<lparr>pid := int i, ppid := parent, state := TASK_WAITING, priority := 1, name := n\<rparr>"
  define s1 where "s1 = ?s\<lparr>TaskTable := (TaskTable ?s)[i := t]\<rparr>"
  have enter: "create_enter nm parent ?s = Some (Inr (i, s1))"
    using room slot(1) n(1) by (simp add: create_enter_def put_task_def s1_def t_def Let_def)
  have tt: "state t = TASK_WAITING" "kstack t = 0" "t_rsp t = t_rsp ?t" "name_ok t" "prio_ok (priority t)"
    using slot(2) n by (simp_all add: t_def name_ok_def prio_ok_def)
  have stk: "stacks_ok ((TaskTable ?s)[i := t]) (s_mm ?s)"
    using D(10) i tt(1,2) by (auto simp: stacks_ok_def nth_list_update)
  define s2 where "s2 = s1\<lparr>ticks := ticks s1 + 1\<rparr>"
  have s2: "TaskTable s2 = (TaskTable ?s)[i := t]" "s_mm s2 = s_mm ?s" "CurrentTaskPID s2 = CurrentTaskPID ?s" "s_cpu s2 = s_cpu ?s"
    "scheduler_started s2" using st by (simp_all add: s2_def s1_def)
  have inv2: "sched_inv s2"
    by (rule sched_inv_update [OF inv im tt(4,5) _ _ D(9) stk s2(1-3)]) (use tt(1) i0 in simp_all)
  show ?thesis using enter tt(1,3) inv2 im i(1) ic by (intro exI [of _ t] exI [of _ s1]) (simp add: s1_def s2_def)
qed

text \<open>C20: A tick between the halves is fatal. While a task creates another with no third one ready, as in \<^verbatim>\<open>start_kernel\<close>, a timer interrupt
  after the slot is marked waiting switches to the new task at once, with the stack pointer the slot happens to hold: 0 in a slot never used
  before, the stack of a dead task otherwise. The processor's registers, the return address included, are read from there.\<close>

theorem CreateTask_preempted:
  assumes "sched_ready (w_sched w)" and "stack_clear (s_cpu (w_sched w)) (s_mm (w_sched w))" and "terminated nm"
    and others: "\<forall>j < MAX_TASK_COUNT. state (TaskTable (w_sched w) ! j) \<in> {TASK_EMPTY, TASK_RUNNING, TASK_BLOCKED}"
    and slot: "find_empty (TaskTable (w_sched w)) = Some i" "kstack (TaskTable (w_sched w) ! i) = 0"
    and room: "TaskCount (w_sched w) < int MAX_TASK_COUNT"
  shows "\<exists>s1 w'. create_enter nm parent (w_sched w) = Some (Inr (i, s1)) \<and>
    timer_callback L P (w\<lparr>w_sched := s1\<rparr>) = Some (True, w') \<and> CurrentTaskPID (w_sched w') = int i \<and>
    (let m = mm_mem (s_mm (w_sched w')); p = t_rsp (TaskTable (w_sched w) ! i) in
       rsp (s_cpu (w_sched w')) = p + 56 \<and> rip (s_cpu (w_sched w')) = ld64 m (p + 48) \<and> rbp (s_cpu (w_sched w')) = ld64 m (p + 40))"
proof -
  let ?s = "w_sched w" and ?t = "TaskTable (w_sched w) ! i"
  have st: "scheduler_started ?s" using assms(1) by (simp add: sched_ready_def)
  obtain t s1 where E: "create_enter nm parent ?s = Some (Inr (i, s1))" "s1 = ?s\<lparr>TaskTable := (TaskTable ?s)[i := t]\<rparr>"
    "state t = TASK_WAITING" "t_rsp t = t_rsp ?t" "sched_inv (s1\<lparr>ticks := ticks s1 + 1\<rparr>)"
    "i < MAX_TASK_COUNT" "i < length (TaskTable ?s)" "int i \<noteq> CurrentTaskPID ?s"
    using create_enter_ready [OF assms(1,3) slot room, of parent] by blast
  note enter = E(1) and im = E(6) and ic = E(8)
  define s2 where "s2 = s1\<lparr>ticks := ticks s1 + 1\<rparr>"
  have s2: "TaskTable s2 = (TaskTable ?s)[i := t]" "s_mm s2 = s_mm ?s" "CurrentTaskPID s2 = CurrentTaskPID ?s" "s_cpu s2 = s_cpu ?s"
    "scheduler_started s2" using st by (simp_all add: s2_def E(2))
  have inv2: "sched_inv s2" using E(5) by (simp add: s2_def)
  have clear2: "stack_clear (s_cpu s2) (s_mm s2)" using assms(2) s2 by simp
  obtain s3 sw s' where r: "housekeeping s2 = Some s3" "Schedule L s2 = Some (sw, s')" "schedule_post L s2 s3 sw s'"
    using Schedule_result [OF inv2 s2(5) clear2, of L] by blast
  have tick: "TaskTable s3 ! j = (TaskTable ?s)[i := t] ! j" if "j < MAX_TASK_COUNT" for j
  proof -
    have "TaskTable s3 ! j = tick_task j (TaskTable s2 ! j)" using housekeeping_result [OF inv2] r(1) that by auto
    moreover have "state (TaskTable s2 ! j) \<notin> {TASK_ZOMBIE, TASK_SLEEPING}"
      using others that E(3) E(7) by (cases "j = i") (auto simp: s2(1))
    ultimately show ?thesis by (simp add: tick_task_def s2(1))
  qed
  have new: "TaskTable s3 ! i = t" using tick [OF im] E(7) by simp
  have only: "j = i" if "j < MAX_TASK_COUNT" "state (TaskTable s3 ! j) = TASK_WAITING" for j
    using others that tick [OF that(1)] by (cases "j = i") auto
  have wait: "\<exists>j < MAX_TASK_COUNT. state (TaskTable s3 ! j) = TASK_WAITING" using im new E(3) by auto
  have "picks (TaskTable s3) (CurrentTaskPID s2) (nat (CurrentTaskPID s'))" and pos: "0 \<le> CurrentTaskPID s'"
    using r(3) wait unfolding schedule_post_def chosen_def by simp_all
  then have "nat (CurrentTaskPID s') = i" using only by (auto simp: picks_def)
  then have cur: "CurrentTaskPID s' = int i" using pos by auto
  have sw: "sw" using r(3) cur ic s2(3) unfolding schedule_post_def by simp
  have cpu: "s_cpu s' = load_context (t_rsp ?t) (mm_mem (s_mm s')) (s_cpu ?s)"
    using r(3) sw cur new E(4) s2(4) unfolding schedule_post_def by simp
  define w' where "w' = w\<lparr>w_sched := s', w_mach := outb P 0x20 0x20 (w_mach w)\<rparr>"
  have "timer_callback L P (w\<lparr>w_sched := s1\<rparr>) = Some (True, w')"
    using r(2) sw by (simp add: timer_callback_def s2_def w'_def)
  then show ?thesis using enter cur cpu by (intro exI [of _ s1] exI [of _ w']) (simp add: w'_def load_context_eq Let_def)
qed

definition idle_ports :: "unit ports" where
  "idle_ports = \<lparr>port_outb = (\<lambda>_ _ d. d), port_inb = (\<lambda>_ d. (0, d)), port_outw = (\<lambda>_ _ d. d), port_inw = (\<lambda>_ d. (0, d)),
     next_interrupt = (\<lambda>d. (False, d))\<rparr>"

theorem CreateTask_preempted_witness:
  "\<exists>s1 w'. create_enter (c_str ''task1'') 0 example_sched = Some (Inr (1, s1)) \<and>
     timer_callback example_labels idle_ports (example_world\<lparr>w_sched := s1\<rparr>) = Some (True, w') \<and> rsp (s_cpu (w_sched w')) = 56"
proof -
  have w: "w_sched example_world = example_sched" by (simp add: example_world_def)
  have nth: "TaskTable example_sched ! j = (if j = 0 then zero_task\<lparr>state := TASK_RUNNING\<rparr> else zero_task)" if "j < MAX_TASK_COUNT" for j
    using that by (cases j) (simp_all add: example_sched_def MAX_TASK_COUNT_def)
  have one: "TaskTable example_sched ! 1 = zero_task" using nth [of 1] by (simp add: MAX_TASK_COUNT_def)
  have t: "terminated (c_str ''task1'')" by (simp add: c_str_def terminated_def)
  have o: "\<forall>j < MAX_TASK_COUNT. state (TaskTable example_sched ! j) \<in> {TASK_EMPTY, TASK_RUNNING, TASK_BLOCKED}"
    using nth by (simp add: zero_task_def)
  have k: "kstack (TaskTable example_sched ! 1) = 0" "t_rsp (TaskTable example_sched ! 1) = 0" using one by (simp_all add: zero_task_def)
  have c: "TaskCount example_sched < int MAX_TASK_COUNT" by (simp add: example_sched_def MAX_TASK_COUNT_def)
  note p = CreateTask_preempted [of example_world, unfolded w, OF example_sched_ready example_sched_clear t o example_sched_slot(1) k(1) c,
      of 0 example_labels idle_ports]
  then show ?thesis unfolding Let_def k(2) by auto
qed

end
