(* ===== verification/Irq.thy ===== *)
theory Irq
  imports Tasks
begin

text \<open>
  The way into the timer interrupt and out of it: \<^verbatim>\<open>irq0_handler\<close> of \<^verbatim>\<open>kernel/IRQ/irq.asm\<close>, instruction by instruction, on
  the whole register file; and \<^verbatim>\<open>syscall_interrupt_handler\<close> of \<^verbatim>\<open>kernel/IRQ/traps.c\<close>, which reads four of the
  registers and spins.
\<close>

section \<open>The register file\<close>

text \<open>The registers of \<open>cpu\<close> and the caller-saved ones, which the C code may change.\<close>

record regs =
  core :: cpu
  rax :: u64
  rcx :: u64
  rdx :: u64
  rsi :: u64
  rdi :: u64
  r8 :: u64
  r9 :: u64
  r10 :: u64
  r11 :: u64

definition align16 :: "u64 \<Rightarrow> u64" where
  "align16 a = a AND NOT 0xF"

text \<open>What the processor does on an interrupt in ring 0: it aligns the stack pointer to 16 bytes, pushes the five words \<^verbatim>\<open>iretq\<close>
  pops again, and goes to the handler.\<close>

definition take_interrupt :: "u64 \<Rightarrow> regs \<Rightarrow> mem \<Rightarrow> regs \<times> mem" where
  "take_interrupt handler r m =
     (let c = core r;
          (sp, m') = push (rip c) (push (cs c) (push (rflags c) (push (rsp c) (push (ss c) (align16 (rsp c), m)))))
      in (r\<lparr>core := c\<lparr>rsp := sp, rip := handler, rflags := rflags c AND NOT 0x200\<rparr>\<rparr>, m'))"

section \<open>The handler\<close>

text \<open>From the first instruction to the call of \<^verbatim>\<open>timer_callback\<close>: all registers on the stack, the first argument and \<^verbatim>\<open>rbp\<close> point
  to them, the stack aligned.\<close>

definition irq0_enter :: "u64 \<Rightarrow> u64 \<Rightarrow> regs \<Rightarrow> mem \<Rightarrow> regs \<times> mem" where
  "irq0_enter callback after_call r m =
     (let c = core r;
          (sp, m1) =
            push (rax r) (push (rbx c) (push (rcx r) (push (rdx r) (push (rsi r) (push (rdi r) (push (rbp c)
              (push (r8 r) (push (r9 r) (push (r10 r) (push (r11 r) (push (r12 c) (push (r13 c) (push (r14 c) (push (r15 c)
                (rsp c, m)))))))))))))));
          (sp', m2) = push after_call (align16 sp, m1)
      in (r\<lparr>rdi := sp, core := c\<lparr>rbp := sp, rsp := sp', rip := callback\<rparr>\<rparr>, m2))"

text \<open>From the return of the call to \<^verbatim>\<open>iretq\<close>.\<close>

definition irq0_leave :: "mem \<Rightarrow> regs \<Rightarrow> regs" where
  "irq0_leave m r =
     (let (a_ax, sp) = pop m (rbp (core r)); (a_bx, sp) = pop m sp; (a_cx, sp) = pop m sp; (a_dx, sp) = pop m sp;
          (a_si, sp) = pop m sp; (a_di, sp) = pop m sp; (a_bp, sp) = pop m sp; (a8, sp) = pop m sp; (a9, sp) = pop m sp;
          (a10, sp) = pop m sp; (a11, sp) = pop m sp; (a12, sp) = pop m sp; (a13, sp) = pop m sp; (a14, sp) = pop m sp;
          (a15, sp) = pop m sp
      in r\<lparr>rax := a_ax, rcx := a_cx, rdx := a_dx, rsi := a_si, rdi := a_di, r8 := a8, r9 := a9, r10 := a10, r11 := a11,
           core := iretq m ((core r)\<lparr>rbx := a_bx, rbp := a_bp, r12 := a12, r13 := a13, r14 := a14, r15 := a15, rsp := sp\<rparr>)\<rparr>)"

section \<open>The interrupted code sees nothing\<close>

text \<open>The twenty words on the stack of the interrupted task, top first.\<close>

definition frame_words :: "regs \<Rightarrow> (u64 \<times> u64) list" where
  "frame_words r = (let c = core r in
     [(8, ss c), (16, rsp c), (24, rflags c), (32, cs c), (40, rip c), (48, r15 c), (56, r14 c), (64, r13 c), (72, r12 c), (80, r11 r),
      (88, r10 r), (96, r9 r), (104, r8 r), (112, rbp c), (120, rdi r), (128, rsi r), (136, rdx r), (144, rcx r), (152, rbx c),
      (160, rax r)])"

definition frame_at :: "regs \<Rightarrow> u64 \<Rightarrow> mem \<Rightarrow> bool" where
  "frame_at r p m \<longleftrightarrow> (\<forall>(d, v) \<in> set (frame_words r). ld64 m (p - d) = v)"

lemma aligned_frame: "align16 (align16 p - 160) = align16 p - 160"
proof -
  have m: "(0xF :: u64) = mask 4" by (simp add: mask_eq_exp_minus_1)
  define q where "q = drop_bit 4 p"
  have p: "align16 p = push_bit 4 q"
    unfolding m q_def align16_def by (rule bit_word_eqI) (auto simp: bit_and_iff bit_not_iff bit_mask_iff bit_push_bit_iff bit_drop_bit_eq)
  have "push_bit 4 q - 160 = push_bit 4 (q - 10 :: u64)" by (simp add: push_bit_eq_mult algebra_simps)
  moreover have "push_bit 4 (q - 10) AND NOT (mask 4) = push_bit 4 (q - 10 :: u64)"
    by (rule bit_word_eqI) (auto simp: bit_and_iff bit_not_iff bit_mask_iff bit_push_bit_iff)
  ultimately show ?thesis by (simp only: p) (simp only: align16_def m)
qed

lemma irq0_frame_eq:
  assumes "take_interrupt handler r m = (r1, m1)" and "irq0_enter callback ret r1 m1 = (r2, m2)"
  defines "p \<equiv> align16 (rsp (core r))"
  shows "m2 = fold (\<lambda>(d, v) m. st64 m (p - d) v) (frame_words r @ [(168, ret)]) m"
    and "r2 = r\<lparr>rdi := p - 160, core := (core r)\<lparr>rbp := p - 160, rsp := p - 168, rip := callback, rflags := rflags (core r) AND NOT 0x200\<rparr>\<rparr>"
proof -
  have r1: "r1 = r\<lparr>core := (core r)\<lparr>rsp := p - 40, rip := handler, rflags := rflags (core r) AND NOT 0x200\<rparr>\<rparr>"
    and m1: "m1 = fold (\<lambda>(d, v) m. st64 m (p - d) v) (take 5 (frame_words r)) m"
    using assms(1) by (auto simp: take_interrupt_def push_def Let_def frame_words_def p_def)
  have al: "align16 (p - 160) = p - 160" unfolding p_def by (rule aligned_frame)
  show "m2 = fold (\<lambda>(d, v) m. st64 m (p - d) v) (frame_words r @ [(168, ret)]) m"
    and "r2 = r\<lparr>rdi := p - 160, core := (core r)\<lparr>rbp := p - 160, rsp := p - 168, rip := callback, rflags := rflags (core r) AND NOT 0x200\<rparr>\<rparr>"
    using assms(2) al unfolding r1 m1 by (auto simp: irq0_enter_def push_def Let_def frame_words_def)
qed

text \<open>Words stored at distinct multiples of eight below \<open>p\<close> are all there afterwards.\<close>

lemma fold_words_other:
  assumes "\<And>d v. (d, v) \<in> set ws \<Longrightarrow> 8 \<le> unat (d - k) \<and> 8 \<le> unat (k - d)"
  shows "ld64 (fold (\<lambda>(d, v) m. st64 m (p - d) v) ws m) (p - k) = ld64 m (p - k)"
  using assms
proof (induction ws arbitrary: m)
  case (Cons w ws)
  obtain d v where w: "w = (d, v)" by force
  have "ld64 (st64 m (p - d) v) (p - k) = ld64 m (p - k)" using Cons.prems [of d v] by (simp add: w mem_simps stack_apart)
  moreover have "ld64 (fold (\<lambda>(d, v) m. st64 m (p - d) v) ws (st64 m (p - d) v)) (p - k) = ld64 (st64 m (p - d) v) (p - k)"
    by (rule Cons.IH, rule Cons.prems) (rule list.set_intros)
  ultimately show ?case by (simp add: w)
qed simp

lemma fold_words_read:
  assumes "\<And>i j. i < length ws \<Longrightarrow> j < length ws \<Longrightarrow> i \<noteq> j \<Longrightarrow> 8 \<le> unat (fst (ws ! i) - fst (ws ! j))"
    and "(d, v) \<in> set ws"
  shows "ld64 (fold (\<lambda>(d, v) m. st64 m (p - d) v) ws m) (p - d) = v"
proof -
  obtain i where i: "i < length ws" "ws ! i = (d, v)" using assms(2) by (auto simp: in_set_conv_nth)
  let ?rest = "drop (Suc i) ws" and ?f = "\<lambda>(d, v) m. st64 m (p - d) (v :: u64)"
  have ws: "ws = take i ws @ (d, v) # ?rest" using id_take_nth_drop [OF i(1)] i(2) by simp
  have f: "fold ?f ws m = fold ?f ?rest (st64 (fold ?f (take i ws) m) (p - d) v)" by (subst ws) simp
  have "8 \<le> unat (e - d) \<and> 8 \<le> unat (d - e)" if e: "(e, u) \<in> set ?rest" for e u
  proof -
    obtain j where "j < length ?rest" "?rest ! j = (e, u)" using e by (auto simp: in_set_conv_nth)
    then have "Suc (i + j) < length ws" "fst (ws ! Suc (i + j)) = e" using i(1) by (auto simp: nth_drop)
    then show ?thesis using assms(1) [of "Suc (i + j)" i] assms(1) [of i "Suc (i + j)"] i by auto
  qed
  then show ?thesis unfolding f by (subst fold_words_other) (auto simp: mem_simps)
qed

lemma slot_distance:
  assumes "i < 21" and "j < 21" and "i \<noteq> j"
  shows "8 \<le> unat (of_nat (8 * (i + 1)) - of_nat (8 * (j + 1)) :: u64)"
proof -
  have "unat (of_nat (8 * (i + 1)) :: u64) = 8 * (i + 1)" "unat (of_nat (8 * (j + 1)) :: u64) = 8 * (j + 1)"
    using assms(1,2) by (intro unat_nat64; simp)+
  then show ?thesis using assms by (simp only: unat_sub_if' split: if_split) auto
qed

lemma frame_slots: "map fst (frame_words r @ [(168, ret)]) = map (\<lambda>i. of_nat (8 * (i + 1))) [0..<21]"
  by (simp add: frame_words_def Let_def upt_rec)

lemma irq0_enters:
  assumes "take_interrupt handler r m = (r1, m1)" and "irq0_enter callback ret r1 m1 = (r2, m2)"
  defines "p \<equiv> align16 (rsp (core r))"
  shows "frame_at r p m2" and "ld64 m2 (p - 168) = ret"
proof -
  let ?ws = "frame_words r @ [(168, ret)]"
  have m2: "m2 = fold (\<lambda>(d, v) m. st64 m (p - d) v) ?ws m" using irq0_frame_eq(1) [OF assms(1,2)] by (simp only: p_def)
  have len: "length ?ws = 21" by (simp add: frame_words_def Let_def)
  have "8 \<le> unat (fst (?ws ! i) - fst (?ws ! j))" if "i < length ?ws" "j < length ?ws" "i \<noteq> j" for i j
  proof -
    have "fst (?ws ! k) = of_nat (8 * (k + 1))" if "k < length ?ws" for k
      using arg_cong [OF frame_slots, of "\<lambda>xs. xs ! k" r ret] that nth_map [of k "?ws" fst] len
        nth_map [of k "[0..<21]" "\<lambda>i. of_nat (8 * (i + 1)) :: u64"] by (simp only: length_map length_upt) (simp del: map_append)
    then show ?thesis using slot_distance [of i j] that len by simp
  qed
  note rd = fold_words_read [OF this, where p = p and m = m, folded m2]
  show "frame_at r p m2" using rd by (auto simp: frame_at_def)
  show "ld64 m2 (p - 168) = ret" by (rule rd) simp_all
qed

lemma irq0_leaves:
  assumes "frame_at r p m" and "rbp (core r') = p - 160"
  shows "irq0_leave m r' = r"
  using assms by (cases r; cases "core r")
    (simp add: irq0_leave_def iretq_def pop_def Let_def frame_at_def frame_words_def)

text \<open>The timer interrupt is invisible. Whatever the callback and the tasks it switches to do, when control comes back behind the
  call with \<^verbatim>\<open>rbp\<close> kept, as the calling convention demands of compiled code and \<^verbatim>\<open>switch_to\<close> does, and the twenty words the interrupt put on
  the task's stack are still there, the interrupted code continues with every register as it was.\<close>

theorem irq0_resumes:
  assumes "take_interrupt handler r m = (r1, m1)" and "irq0_enter callback ret r1 m1 = (r2, m2)"
    and "rbp (core r3) = rbp (core r2)"
    and "\<forall>d \<in> fst ` set (frame_words r). ld64 m3 (align16 (rsp (core r)) - d) = ld64 m2 (align16 (rsp (core r)) - d)"
  shows "irq0_leave m3 r3 = r"
proof (rule irq0_leaves)
  note e = irq0_enters [OF assms(1,2)]
  show "rbp (core r3) = align16 (rsp (core r)) - 160" using assms(3) irq0_frame_eq(2) [OF assms(1,2)] by simp
  show "frame_at r (align16 (rsp (core r))) m3" using e(1) assms(4) by (force simp: frame_at_def)
qed

definition example_regs :: regs where
  "example_regs = \<lparr>core = example_cpu, rax = 1, rcx = 2, rdx = 3, rsi = 4, rdi = 5, r8 = 6, r9 = 7, r10 = 8, r11 = 9\<rparr>"

theorem irq0_resumes_witness:
  "\<exists>r1 m1 r2 m2. take_interrupt 0x5000 example_regs (\<lambda>_. 0) = (r1, m1) \<and> irq0_enter 0x6000 0x5020 r1 m1 = (r2, m2) \<and>
     irq0_leave m2 (r2\<lparr>rax := 0, rcx := 0\<rparr>) = example_regs"
proof -
  obtain r1 m1 r2 m2 where e: "take_interrupt 0x5000 example_regs (\<lambda>_. 0) = (r1, m1)" "irq0_enter 0x6000 0x5020 r1 m1 = (r2, m2)"
    by (metis surj_pair)
  then show ?thesis using irq0_resumes [OF e, of "r2\<lparr>rax := 0, rcx := 0\<rparr>" m2] by auto
qed

section \<open>System calls\<close>

text \<open>The handler of interrupt 0x80, whose gate ring 3 may use, never returns.\<close>

partial_function (option) spin :: "'a \<Rightarrow> unit option" where
  "spin x = spin x"

definition syscall_interrupt_handler :: "regs \<Rightarrow> unit option" where
  "syscall_interrupt_handler r =
     (let rax_val = rax r; rdx_val = rdx r; rdi_val = rdi r; rsi_val = rsi r
      in spin (rax_val, rdx_val, rdi_val, rsi_val))"

lemma spin_forever: "spin x = None"
proof (rule ccontr)
  assume "spin x \<noteq> None"
  then obtain y where "spin x = Some y" by (cases "spin x") auto
  then show False by (rule spin.raw_induct [where P = "\<lambda>_ _. False", rotated])
qed

lemma syscall_hangs: "syscall_interrupt_handler r = None"
  by (simp add: syscall_interrupt_handler_def spin_forever)

end
