(* ===== verification/Idt.thy ===== *)
theory Idt
  imports Ide
begin

text \<open>
  The interrupt descriptor table and the interrupt controllers, \<^verbatim>\<open>traps_init\<close> and \<^verbatim>\<open>irq_init\<close> of
  \<^verbatim>\<open>kernel/IRQ/traps.c\<close>. The 8259 and 8042 controllers are behind the ports; the
  8042 is assumed to take a byte only when its input buffer is empty.
\<close>

section \<open>Gates\<close>

record idt_entry =
  offset_low :: u16
  selector :: u16
  gate_ist :: u8
  attributes :: u8
  offset_mid :: u16
  offset_high :: u32
  reserved :: u32

record 'd irq_state =
  idt_table :: "idt_entry list"
  i_mach :: "'d machine"
  i_flag :: bool

definition set_idt_gate :: "nat \<Rightarrow> u64 \<Rightarrow> u8 \<Rightarrow> idt_entry list \<Rightarrow> idt_entry list option" where
  "set_idt_gate vector handler dpl idt =
     (if vector < length idt
      then Some (idt[vector :=
        \<lparr>offset_low = ucast (handler AND 0xFFFF), selector = 0x08, gate_ist = 0,
         attributes = 0x8E OR push_bit 5 (dpl AND 0x3),
         offset_mid = ucast (drop_bit 16 handler AND 0xFFFF),
         offset_high = ucast (drop_bit 32 handler AND 0xFFFFFFFF), reserved = 0\<rparr>])
      else None)"

text \<open>The addresses of the handlers, which the linker chooses.\<close>

record handlers =
  divide_by_zero_h :: u64
  general_protection_h :: u64
  page_h :: u64
  syscall_h :: u64
  irq0_h :: u64
  keyboard_h :: u64
  sci_h :: u64
  mouse_h :: u64
  ide_h :: u64

section \<open>Initialisation\<close>

definition outs :: "'d ports \<Rightarrow> (u16 \<times> u8) list \<Rightarrow> 'd machine \<Rightarrow> 'd machine" where
  "outs P vs s = fold (\<lambda>(port, val). outb P port val) vs s"

definition pic_remap :: "'d ports \<Rightarrow> 'd machine \<Rightarrow> 'd machine" where
  "pic_remap P s =
     outs P [(0x20, 0x11), (0xA0, 0x11), (0x21, 0x20), (0xA1, 0x28), (0x21, 0x04), (0xA1, 0x02), (0x21, 0x01), (0xA1, 0x01),
       (0x21, 0x00), (0xA1, 0x00)] s"

text \<open>\<^verbatim>\<open>while (!(inb(0x64) & 1));\<close> and \<^verbatim>\<open>while (inb(0x64) & 2);\<close>\<close>

partial_function (option) wait_output :: "'d ports \<Rightarrow> 'd machine \<Rightarrow> 'd machine option" where
  "wait_output io s = (let (status, s') = inb io 0x64 s in if status AND 1 = 0 then wait_output io s' else Some s')"

partial_function (option) wait_input :: "'d ports \<Rightarrow> 'd machine \<Rightarrow> 'd machine option" where
  "wait_input io s = (let (status, s') = inb io 0x64 s in if status AND 2 \<noteq> 0 then wait_input io s' else Some s')"

definition irq_init :: "handlers \<Rightarrow> 'd ports \<Rightarrow> idt_entry list \<times> 'd machine \<Rightarrow> (idt_entry list \<times> 'd machine) option" where
  "irq_init H P im =
     (let (idt, s) = im; s1 = pic_remap P s in
      do { t1 \<leftarrow> set_idt_gate 32 (irq0_h H) 0 idt;
           t2 \<leftarrow> set_idt_gate 33 (keyboard_h H) 0 t1;
           t3 \<leftarrow> set_idt_gate 41 (sci_h H) 0 t2;
           t4 \<leftarrow> set_idt_gate 44 (mouse_h H) 0 t3;
           t5 \<leftarrow> set_idt_gate 46 (ide_h H) 0 t4;
           t6 \<leftarrow> set_idt_gate 47 (ide_h H) 0 t5;
           s2 \<leftarrow> wait_output P (outb P 0x64 0x20 (outb P 0x64 0xA8 s1));
           let (c, s3) = inb P 0x60 s2;
           let b = (c OR 2) AND NOT 0x20;
           s4 \<leftarrow> wait_input P (outb P 0x64 0x60 s3);
           s5 \<leftarrow> wait_input P (outb P 0x64 0xD4 (outb P 0x60 b s4));
           s6 \<leftarrow> wait_output P (outb P 0x60 0xF4 s5);
           let (_, s7) = inb P 0x60 s6;
           let (mask, s8) = inb P 0xA1 s7;
           Some (t6, outb P 0xA1 (mask AND NOT (push_bit 1 1)) s8) })"

definition traps_init :: "handlers \<Rightarrow> 'd ports \<Rightarrow> 'd irq_state \<Rightarrow> 'd irq_state option" where
  "traps_init H P s =
     do { let s0 = s\<lparr>i_flag := False\<rparr>;
          t1 \<leftarrow> set_idt_gate 0 (divide_by_zero_h H) 0 (idt_table s0);
          t2 \<leftarrow> set_idt_gate 13 (general_protection_h H) 0 t1;
          t3 \<leftarrow> set_idt_gate 14 (page_h H) 0 t2;
          t4 \<leftarrow> set_idt_gate 0x80 (syscall_h H) 3 t3;
          (t5, m) \<leftarrow> irq_init H P (t4, i_mach s0);
          Some (s0\<lparr>idt_table := t5, i_mach := m, i_flag := True\<rparr>) }"

section \<open>The controllers\<close>

text \<open>An 8259: which initialisation word is next (0 for none), the vector of its line 0, its cascade word and its mask. Documented
  effects of a command byte (bit 4 starts the initialisation) and of a data byte. An initialisation is of interest here
  with the cascade word and the fourth word announced (bit 1 clear, bit 0 set), the kind the kernel starts.\<close>

record pic =
  icw_next :: nat
  vec_base :: u8
  cascade :: u8
  mask_reg :: u8

definition pic_cmd :: "u8 \<Rightarrow> pic \<Rightarrow> pic" where
  "pic_cmd v p = (if bit v 4 then p\<lparr>icw_next := 2, mask_reg := 0\<rparr> else p)"

definition pic_data :: "u8 \<Rightarrow> pic \<Rightarrow> pic" where
  "pic_data v p =
     (if icw_next p = 2 then p\<lparr>vec_base := v AND 0xF8, icw_next := 3\<rparr>
      else if icw_next p = 3 then p\<lparr>cascade := v, icw_next := 4\<rparr>
      else if icw_next p = 4 then p\<lparr>icw_next := 0\<rparr>
      else p\<lparr>mask_reg := v\<rparr>)"

definition pics_ok :: "'d ports \<Rightarrow> ('d \<Rightarrow> pic) \<Rightarrow> ('d \<Rightarrow> pic) \<Rightarrow> bool" where
  "pics_ok P master slave \<longleftrightarrow>
     (\<forall>v d. (bit v 4 \<longrightarrow> bit v 0 \<and> \<not> bit v 1) \<longrightarrow>
        master (port_outb P 0x20 v d) = pic_cmd v (master d) \<and> slave (port_outb P 0xA0 v d) = pic_cmd v (slave d)) \<and>
     (\<forall>v d. slave (port_outb P 0x20 v d) = slave d \<and> master (port_outb P 0xA0 v d) = master d \<and>
        master (port_outb P 0x21 v d) = pic_data v (master d) \<and> slave (port_outb P 0x21 v d) = slave d \<and>
        master (port_outb P 0xA1 v d) = master d \<and> slave (port_outb P 0xA1 v d) = pic_data v (slave d)) \<and>
     (\<forall>port \<in> {0x60, 0x64}. \<forall>v d. master (port_outb P port v d) = master d \<and> slave (port_outb P port v d) = slave d) \<and>
     (\<forall>port \<in> {0x60, 0x64, 0xA1}. \<forall>d. master (snd (port_inb P port d)) = master d \<and> slave (snd (port_inb P port d)) = slave d) \<and>
     (\<forall>d. fst (port_inb P 0xA1 d) = mask_reg (slave d))"

text \<open>The 8042: the last command, for how many status reads its input buffer stays full, and after how many its output
  buffer is full (\<open>None\<close> when nothing is to come). A byte it gets while its input buffer is empty it takes; nothing is
  promised of one it gets while the buffer is full. It answers the command that reads its configuration byte and bytes sent
  on to the mouse, and has then emptied its input buffer. The devices at other ports do not affect it.\<close>

record kbc =
  last_cmd :: u8
  in_busy :: nat
  out_wait :: "nat option"

definition answers :: "kbc \<Rightarrow> bool" where
  "answers k \<longleftrightarrow> (\<exists>n. out_wait k = Some n \<and> in_busy k \<le> n)"

definition kbc_ok :: "'d ports \<Rightarrow> ('d \<Rightarrow> kbc) \<Rightarrow> bool" where
  "kbc_ok P view \<longleftrightarrow>
     (\<forall>d. (fst (port_inb P 0x64 d) AND 2 \<noteq> 0 \<longleftrightarrow> in_busy (view d) \<noteq> 0) \<and>
        (fst (port_inb P 0x64 d) AND 1 \<noteq> 0 \<longleftrightarrow> out_wait (view d) = Some 0) \<and>
        view (snd (port_inb P 0x64 d)) = (view d)\<lparr>in_busy := in_busy (view d) - 1, out_wait := map_option (\<lambda>k. k - 1) (out_wait (view d))\<rparr>) \<and>
     (\<forall>d. in_busy (view (snd (port_inb P 0x60 d))) = in_busy (view d) \<and> last_cmd (view (snd (port_inb P 0x60 d))) = last_cmd (view d)) \<and>
     (\<forall>d v. in_busy (view d) = 0 \<longrightarrow>
        last_cmd (view (port_outb P 0x64 v d)) = v \<and> (v = 0x20 \<longrightarrow> answers (view (port_outb P 0x64 v d))) \<and>
        last_cmd (view (port_outb P 0x60 v d)) = last_cmd (view d) \<and>
        (last_cmd (view d) = 0xD4 \<longrightarrow> answers (view (port_outb P 0x60 v d)))) \<and>
     (\<forall>port d v. port \<notin> {0x60, 0x64} \<longrightarrow> view (port_outb P port v d) = view d \<and> view (snd (port_inb P port d)) = view d)"

text \<open>\<^verbatim>\<open>irq_init\<close> twice gives the controller a byte directly after another, without waiting for the first to be taken:
  after the command that enables the mouse and after the new configuration byte. That works on a controller which
  takes these two bytes before the processor's next instruction.\<close>

definition kbc_prompt :: "'d ports \<Rightarrow> ('d \<Rightarrow> kbc) \<Rightarrow> bool" where
  "kbc_prompt P view \<longleftrightarrow> (\<forall>d v. in_busy (view d) = 0 \<longrightarrow>
     in_busy (view (port_outb P 0x64 0xA8 d)) = 0 \<and> (last_cmd (view d) = 0x60 \<longrightarrow> in_busy (view (port_outb P 0x60 v d)) = 0))"

section \<open>The table that is set up\<close>

definition gate_for :: "u64 \<Rightarrow> u8 \<Rightarrow> idt_entry" where
  "gate_for h dpl =
     \<lparr>offset_low = ucast h, selector = 8, gate_ist = 0, attributes = 0x8E OR push_bit 5 (dpl AND 3), offset_mid = ucast (drop_bit 16 h),
      offset_high = ucast (drop_bit 32 h), reserved = 0\<rparr>"

text \<open>What the processor reads from a gate: the address it jumps to, whether the gate is present, and the privilege
  level allowed to call it.\<close>

definition gate_target :: "idt_entry \<Rightarrow> u64" where
  "gate_target g = ucast (offset_low g) OR push_bit 16 (ucast (offset_mid g)) OR push_bit 32 (ucast (offset_high g))"

definition gate_present :: "idt_entry \<Rightarrow> bool" where
  "gate_present g \<longleftrightarrow> bit (attributes g) 7"

definition gate_dpl :: "idt_entry \<Rightarrow> nat" where
  "gate_dpl g = unat (drop_bit 5 (attributes g) AND 3)"

definition installed :: "handlers \<Rightarrow> nat \<Rightarrow> (u64 \<times> u8) option" where
  "installed H = [0 \<mapsto> (divide_by_zero_h H, 0), 13 \<mapsto> (general_protection_h H, 0), 14 \<mapsto> (page_h H, 0), 0x80 \<mapsto> (syscall_h H, 3),
     32 \<mapsto> (irq0_h H, 0), 33 \<mapsto> (keyboard_h H, 0), 41 \<mapsto> (sci_h H, 0), 44 \<mapsto> (mouse_h H, 0), 46 \<mapsto> (ide_h H, 0), 47 \<mapsto> (ide_h H, 0)]"

definition empty_gate :: idt_entry where
  "empty_gate = \<lparr>offset_low = 0, selector = 0, gate_ist = 0, attributes = 0, offset_mid = 0, offset_high = 0, reserved = 0\<rparr>"

lemma masked_parts:
  fixes h :: u64
  shows "ucast (h AND mask 16) = (ucast h :: u16)" "ucast (h AND mask 32) = (ucast h :: u32)"
  by (rule bit_word_eqI, simp only: bit_ucast_iff bit_and_iff bit_mask_iff, auto)+

lemma set_idt_gate_for:
  assumes "vector < length idt"
  shows "set_idt_gate vector h dpl idt = Some (idt[vector := gate_for h dpl])"
proof -
  have m: "(0xFFFF :: u64) = mask 16" "(0xFFFFFFFF :: u64) = mask 32" by (simp_all add: mask_eq_exp_minus_1)
  show ?thesis unfolding set_idt_gate_def gate_for_def m masked_parts using assms by simp
qed

lemma address_parts:
  fixes h :: u64
  shows "ucast (ucast h :: u16) OR push_bit 16 (ucast (ucast (drop_bit 16 h) :: u16)) OR push_bit 32 (ucast (ucast (drop_bit 32 h) :: u32)) = h"
proof (rule bit_word_eqI)
  fix n
  assume "n < LENGTH(64)"
  then show "bit (ucast (ucast h :: u16) OR push_bit 16 (ucast (ucast (drop_bit 16 h) :: u16)) OR
      push_bit 32 (ucast (ucast (drop_bit 32 h) :: u32)) :: u64) n = bit h n"
    by (cases "n < 16"; cases "n < 32") (auto simp: bit_simps)
qed

lemma attribute_bits:
  fixes dpl :: u8
  shows "bit (0x8E OR push_bit 5 (dpl AND 3)) 7" "drop_bit 5 (0x8E OR push_bit 5 (dpl AND 3)) AND 3 = dpl AND 3"
proof -
  define x where "x = dpl AND 3"
  have "x \<le> 3" unfolding x_def by (rule word_and_le1)
  then have "unat x \<le> 3" by (simp add: word_le_nat_alt)
  then have "unat x = 0 \<or> unat x = 1 \<or> unat x = 2 \<or> unat x = 3" by arith
  then have "x = 0 \<or> x = 1 \<or> x = 2 \<or> x = 3" by (auto simp: word_unat_eq_iff)
  then have "bit (0x8E OR push_bit 5 x) 7 \<and> drop_bit 5 (0x8E OR push_bit 5 x) AND 3 = x"
    by (elim disjE) (simp_all add: bit_or_iff)
  then show "bit (0x8E OR push_bit 5 (dpl AND 3)) 7" "drop_bit 5 (0x8E OR push_bit 5 (dpl AND 3)) AND 3 = dpl AND 3"
    unfolding x_def by blast+
qed

lemma gate_for_facts: "gate_target (gate_for h dpl) = h" "gate_present (gate_for h dpl)" "gate_dpl (gate_for h dpl) = unat (dpl AND 3)"
  using address_parts [of h] attribute_bits [of dpl] by (simp_all add: gate_target_def gate_present_def gate_dpl_def gate_for_def)

section \<open>What traps_init sets up\<close>

lemma kbc_status:
  assumes "kbc_ok P view"
  shows "fst (port_inb P 0x64 d) AND 2 \<noteq> 0 \<longleftrightarrow> in_busy (view d) \<noteq> 0"
    and "fst (port_inb P 0x64 d) AND 1 \<noteq> 0 \<longleftrightarrow> out_wait (view d) = Some 0"
    and "view (snd (port_inb P 0x64 d)) =
      (view d)\<lparr>in_busy := in_busy (view d) - 1, out_wait := map_option (\<lambda>k. k - 1) (out_wait (view d))\<rparr>"
  using assms unfolding kbc_ok_def by blast+

text \<open>What a status read keeps, a wait that ends has kept.\<close>

lemma wait_output_keeps:
  assumes f: "\<forall>d. f (snd (port_inb P 0x64 d)) = f d" and run: "wait_output P s = Some s'"
  shows "f (dev s') = f (dev s)"
proof (rule wait_output.raw_induct [where P = "\<lambda>Q s s'. Q = P \<longrightarrow> f (dev s') = f (dev s)", OF _ run, rule_format, OF _ refl])
  fix g :: "'a ports \<Rightarrow> 'a machine \<Rightarrow> 'a machine option" and Q s s'
  assume "\<And>Q s s'. g Q s = Some s' \<Longrightarrow> Q = P \<Longrightarrow> f (dev s') = f (dev s)" and "Q = P"
    and "(let (status, s') = inb Q 0x64 s in if status AND 1 = 0 then g Q s' else Some s') = Some s'"
  then show "f (dev s') = f (dev s)"
    using f by (fastforce simp: inb_def split_def Let_def split: if_splits)
qed

lemma wait_input_keeps:
  assumes f: "\<forall>d. f (snd (port_inb P 0x64 d)) = f d" and run: "wait_input P s = Some s'"
  shows "f (dev s') = f (dev s)"
proof (rule wait_input.raw_induct [where P = "\<lambda>Q s s'. Q = P \<longrightarrow> f (dev s') = f (dev s)", OF _ run, rule_format, OF _ refl])
  fix g :: "'a ports \<Rightarrow> 'a machine \<Rightarrow> 'a machine option" and Q s s'
  assume "\<And>Q s s'. g Q s = Some s' \<Longrightarrow> Q = P \<Longrightarrow> f (dev s') = f (dev s)" and "Q = P"
    and "(let (status, s') = inb Q 0x64 s in if status AND 2 \<noteq> 0 then g Q s' else Some s') = Some s'"
  then show "f (dev s') = f (dev s)"
    using f by (fastforce simp: inb_def split_def Let_def split: if_splits)
qed

text \<open>Waiting for an answer that is not to come does not end.\<close>

lemma wait_output_hangs:
  assumes ok: "kbc_ok P view" and "out_wait (view (dev s)) = None"
  shows "wait_output P s = None"
proof (rule ccontr)
  assume "wait_output P s \<noteq> None"
  then obtain s' where run: "wait_output P s = Some s'" by blast
  have "out_wait (view (dev s)) \<noteq> None"
  proof (rule wait_output.raw_induct [where P = "\<lambda>Q s s'. Q = P \<longrightarrow> out_wait (view (dev s)) \<noteq> None", OF _ run, rule_format, OF _ refl])
    fix g :: "'a ports \<Rightarrow> 'a machine \<Rightarrow> 'a machine option" and Q s s'
    assume IH: "\<And>Q s s'. g Q s = Some s' \<Longrightarrow> Q = P \<Longrightarrow> out_wait (view (dev s)) \<noteq> None" and Q: "Q = P"
      and run: "(let (status, s') = inb Q 0x64 s in if status AND 1 = 0 then g Q s' else Some s') = Some s'"
    let ?s = "s\<lparr>dev := snd (port_inb P 0x64 (dev s))\<rparr>"
    have "out_wait (view (dev s)) = Some 0 \<or> g P ?s = Some s'"
      using run kbc_status(2) [OF ok, of "dev s"] by (auto simp: Q inb_def split_def Let_def split: if_splits)
    moreover have "out_wait (view (dev ?s)) = map_option (\<lambda>k. k - 1) (out_wait (view (dev s)))"
      using kbc_status(3) [OF ok, of "dev s"] by simp
    ultimately show "out_wait (view (dev s)) \<noteq> None" using IH [of P ?s s'] by auto
  qed
  then show False using assms(2) by blast
qed

text \<open>Both waits end, with the input buffer empty.\<close>

lemma wait_input_ends:
  assumes "kbc_ok P view"
  shows "\<exists>s'. wait_input P s = Some s' \<and> last_cmd (view (dev s')) = last_cmd (view (dev s)) \<and> in_busy (view (dev s')) = 0"
proof (induction "in_busy (view (dev s))" arbitrary: s)
  case 0
  then have "\<not> fst (port_inb P 0x64 (dev s)) AND 2 \<noteq> 0" using kbc_status(1) [OF assms(1)] by metis
  then show ?case using kbc_status(3) [OF assms(1), of "dev s"] 0
    by (subst wait_input.simps) (simp add: inb_def split_def Let_def)
next
  case (Suc n)
  have r: "fst (port_inb P 0x64 (dev s)) AND 2 \<noteq> 0" using kbc_status(1) [OF assms(1), of "dev s"] Suc(2) by linarith
  let ?s = "s\<lparr>dev := snd (port_inb P 0x64 (dev s))\<rparr>"
  have v: "in_busy (view (dev ?s)) = n" "last_cmd (view (dev ?s)) = last_cmd (view (dev s))"
    using kbc_status(3) [OF assms(1), of "dev s"] Suc(2) [symmetric] by simp_all
  obtain s' where "wait_input P ?s = Some s'" "last_cmd (view (dev s')) = last_cmd (view (dev ?s))" "in_busy (view (dev s')) = 0"
    using Suc(1) [of ?s] v(1) by auto
  then show ?case using r v(2) by (subst wait_input.simps) (simp add: inb_def split_def Let_def)
qed

lemma wait_output_ends:
  assumes "kbc_ok P view" and "answers (view (dev s))"
  shows "\<exists>s'. wait_output P s = Some s' \<and> last_cmd (view (dev s')) = last_cmd (view (dev s)) \<and> in_busy (view (dev s')) = 0"
proof -
  have "\<exists>s'. wait_output P s = Some s' \<and> last_cmd (view (dev s')) = last_cmd (view (dev s)) \<and> in_busy (view (dev s')) = 0"
    if "out_wait (view (dev s)) = Some k" "in_busy (view (dev s)) \<le> k" for k
    using that
  proof (induction k arbitrary: s)
    case 0
    then have "fst (port_inb P 0x64 (dev s)) AND 1 \<noteq> 0" using kbc_status(2) [OF assms(1)] by metis
    then show ?case using kbc_status(3) [OF assms(1), of "dev s"] 0
      by (subst wait_output.simps) (simp add: inb_def split_def Let_def)
  next
    case (Suc n)
    then have r: "fst (port_inb P 0x64 (dev s)) AND 1 = 0" using kbc_status(2) [OF assms(1), of "dev s"] by (metis nat.distinct(1) option.inject)
    let ?s = "s\<lparr>dev := snd (port_inb P 0x64 (dev s))\<rparr>"
    have v: "out_wait (view (dev ?s)) = Some n" "in_busy (view (dev ?s)) \<le> n" "last_cmd (view (dev ?s)) = last_cmd (view (dev s))"
      using kbc_status(3) [OF assms(1), of "dev s"] Suc(2,3) by simp_all
    obtain s' where "wait_output P ?s = Some s'" "last_cmd (view (dev s')) = last_cmd (view (dev ?s))" "in_busy (view (dev s')) = 0"
      using Suc(1) [of ?s] v by auto
    then show ?case using r v(3) by (subst wait_output.simps) (simp add: inb_def split_def Let_def)
  qed
  then show ?thesis using assms(2) by (auto simp: answers_def)
qed

lemma pics_okD:
  assumes "pics_ok P master slave"
  shows "(bit v 4 \<longrightarrow> bit v 0 \<and> \<not> bit v 1) \<Longrightarrow> master (port_outb P 0x20 v d) = pic_cmd v (master d)" "slave (port_outb P 0x20 v d) = slave d"
    "master (port_outb P 0x21 v d) = pic_data v (master d)" "slave (port_outb P 0x21 v d) = slave d"
    "master (port_outb P 0xA0 v d) = master d" "(bit v 4 \<longrightarrow> bit v 0 \<and> \<not> bit v 1) \<Longrightarrow> slave (port_outb P 0xA0 v d) = pic_cmd v (slave d)"
    "master (port_outb P 0xA1 v d) = master d" "slave (port_outb P 0xA1 v d) = pic_data v (slave d)"
    "master (port_outb P 0x60 v d) = master d" "slave (port_outb P 0x60 v d) = slave d"
    "master (port_outb P 0x64 v d) = master d" "slave (port_outb P 0x64 v d) = slave d"
    "master (snd (port_inb P 0x60 d)) = master d" "slave (snd (port_inb P 0x60 d)) = slave d"
    "master (snd (port_inb P 0x64 d)) = master d" "slave (snd (port_inb P 0x64 d)) = slave d"
    "master (snd (port_inb P 0xA1 d)) = master d" "slave (snd (port_inb P 0xA1 d)) = slave d"
    "fst (port_inb P 0xA1 d) = mask_reg (slave d)"
  using assms unfolding pics_ok_def by blast+

definition pic_ready :: "u8 \<Rightarrow> u8 \<Rightarrow> pic" where
  "pic_ready base casc = \<lparr>icw_next = 0, vec_base = base, cascade = casc, mask_reg = 0\<rparr>"

lemma pic_remap_effect:
  assumes "pics_ok P master slave"
  shows "master (dev (pic_remap P s)) = pic_ready 32 4" "slave (dev (pic_remap P s)) = pic_ready 40 2"
  by (simp_all add: pic_remap_def outs_def outb_def pics_okD [OF assms] pic_cmd_def pic_data_def pic_ready_def)

text \<open>What \<^verbatim>\<open>irq_init\<close> has done when it returns.\<close>

definition irq_gates :: "handlers \<Rightarrow> idt_entry list \<Rightarrow> idt_entry list" where
  "irq_gates H idt = idt[32 := gate_for (irq0_h H) 0, 33 := gate_for (keyboard_h H) 0, 41 := gate_for (sci_h H) 0,
     44 := gate_for (mouse_h H) 0, 46 := gate_for (ide_h H) 0, 47 := gate_for (ide_h H) 0]"

text \<open>The conversation with the keyboard controller.\<close>

definition mouse_on :: "'d ports \<Rightarrow> 'd machine \<Rightarrow> 'd machine option" where
  "mouse_on P s1 =
     do { s2 \<leftarrow> wait_output P (outb P 0x64 0x20 (outb P 0x64 0xA8 s1));
          let (c, s3) = inb P 0x60 s2;
          let b = (c OR 2) AND NOT 0x20;
          s4 \<leftarrow> wait_input P (outb P 0x64 0x60 s3);
          s5 \<leftarrow> wait_input P (outb P 0x64 0xD4 (outb P 0x60 b s4));
          s6 \<leftarrow> wait_output P (outb P 0x60 0xF4 s5);
          Some (snd (inb P 0x60 s6)) }"

definition unmask_mouse :: "'d ports \<Rightarrow> 'd machine \<Rightarrow> 'd machine" where
  "unmask_mouse P s7 = (let (mask, s8) = inb P 0xA1 s7 in outb P 0xA1 (mask AND NOT (push_bit 1 1)) s8)"

lemma irq_init_parts:
  assumes "length idt = 256"
  shows "irq_init H P (idt, s) = map_option (\<lambda>m. (irq_gates H idt, unmask_mouse P m)) (mouse_on P (pic_remap P s))"
proof -
  have b: "map_option f (Option.bind m g) = Option.bind m (\<lambda>x. map_option f (g x))" for m f and g :: "'x \<Rightarrow> 'y option"
    by (cases m) simp_all
  show ?thesis
    using assms by (simp add: irq_init_def mouse_on_def unmask_mouse_def irq_gates_def set_idt_gate_for Let_def split_def b)
qed

lemma mouse_on_keeps:
  assumes f: "\<And>port v d. port \<in> {0x60, 0x64} \<Longrightarrow> f (port_outb P port v d) = f d"
    "\<And>port d. port \<in> {0x60, 0x64} \<Longrightarrow> f (snd (port_inb P port d)) = f d"
    and run: "mouse_on P s = Some s'"
  shows "f (dev s') = f (dev s)"
proof -
  have o: "f (dev (outb P port v t)) = f (dev t)" if "port \<in> {0x60, 0x64}" for port v t using f(1) that by (auto simp: outb_def)
  have i: "f (dev (snd (inb P 0x60 t))) = f (dev t)" for t using f(2) [of "0x60"] by (simp add: inb_def split_def Let_def)
  have "\<forall>d. f (snd (port_inb P 0x64 d)) = f d" using f(2) by simp
  note w = wait_output_keeps [OF this] wait_input_keeps [OF this]
  obtain s2 s4 s5 s6 b where s: "wait_output P (outb P 0x64 0x20 (outb P 0x64 0xA8 s)) = Some s2"
    "wait_input P (outb P 0x64 0x60 (snd (inb P 0x60 s2))) = Some s4" "wait_input P (outb P 0x64 0xD4 (outb P 0x60 b s4)) = Some s5"
    "wait_output P (outb P 0x60 0xF4 s5) = Some s6" "s' = snd (inb P 0x60 s6)"
    using run by (auto simp: mouse_on_def Let_def split_def split: bind_splits)
  show ?thesis
    using w(1) [OF s(1)] w(2) [OF s(2)] w(2) [OF s(3)] w(1) [OF s(4)] o i by (simp add: s(5))
qed

lemma mouse_on_returns:
  assumes ok: "kbc_ok P view" and prompt: "kbc_prompt P view" and free: "in_busy (view (dev s)) = 0"
  shows "\<exists>s'. mouse_on P s = Some s'"
proof -
  let ?k = "\<lambda>t. view (dev t)"
  have take64: "last_cmd (?k (outb P 0x64 v t)) = v \<and> (v = 0x20 \<longrightarrow> answers (?k (outb P 0x64 v t)))" if "in_busy (?k t) = 0" for v t
    using ok that by (simp add: kbc_ok_def outb_def)
  have take60: "last_cmd (?k t) = 0xD4 \<longrightarrow> answers (?k (outb P 0x60 v t))" if "in_busy (?k t) = 0" for v t
    using ok that by (simp add: kbc_ok_def outb_def)
  have i: "in_busy (?k (snd (inb P 0x60 t))) = in_busy (?k t)" for t
    using ok by (simp add: kbc_ok_def inb_def split_def Let_def)
  have A8: "in_busy (?k (outb P 0x64 0xA8 s)) = 0" using prompt free by (simp add: kbc_prompt_def outb_def)
  obtain s2 where s2: "wait_output P (outb P 0x64 0x20 (outb P 0x64 0xA8 s)) = Some s2" "in_busy (?k s2) = 0"
    using wait_output_ends [OF ok] take64 [OF A8] by blast
  obtain s4 where s4: "wait_input P (outb P 0x64 0x60 (snd (inb P 0x60 s2))) = Some s4" "last_cmd (?k s4) = 0x60" "in_busy (?k s4) = 0"
    using wait_input_ends [OF ok, of "outb P 0x64 0x60 (snd (inb P 0x60 s2))"] take64 [of "snd (inb P 0x60 s2)" "0x60"] i [of s2] s2(2) by auto
  define b where "b = (fst (inb P 0x60 s2) OR 2) AND NOT 0x20"
  have "in_busy (?k (outb P 0x60 b s4)) = 0" using prompt s4(2,3) by (simp add: kbc_prompt_def outb_def)
  then obtain s5 where s5: "wait_input P (outb P 0x64 0xD4 (outb P 0x60 b s4)) = Some s5" "last_cmd (?k s5) = 0xD4" "in_busy (?k s5) = 0"
    using wait_input_ends [OF ok, of "outb P 0x64 0xD4 (outb P 0x60 b s4)"] take64 [of "outb P 0x60 b s4" "0xD4"] by auto
  obtain s6 where s6: "wait_output P (outb P 0x60 0xF4 s5) = Some s6"
    using wait_output_ends [OF ok, of "outb P 0x60 0xF4 s5"] take60 [OF s5(3)] s5(2) by blast
  show ?thesis using s2(1) s4(1) s5(1) s6 by (simp add: mouse_on_def Let_def split_def b_def)
qed

lemma irq_init_state:
  assumes "pics_ok P master slave" and len: "length idt = 256" and run: "irq_init H P (idt, s) = Some (idt', s')"
  shows "idt' = irq_gates H idt \<and> master (dev s') = pic_ready 32 4 \<and> slave (dev s') = pic_ready 40 2"
proof -
  let ?f = "\<lambda>d. (master d, slave d)"
  note D = pics_okD [OF assms(1)]
  obtain m where m: "mouse_on P (pic_remap P s) = Some m" "idt' = irq_gates H idt" "s' = unmask_mouse P m"
    using run by (auto simp: irq_init_parts [OF len])
  have "?f (dev m) = ?f (dev (pic_remap P s))"
    by (rule mouse_on_keeps [OF _ _ m(1)]) (auto simp: D)
  then have "?f (dev m) = (pic_ready 32 4, pic_ready 40 2)" using pic_remap_effect [OF assms(1)] by simp
  then show ?thesis
    by (simp add: m(2,3) unmask_mouse_def inb_def outb_def split_def Let_def D pic_data_def pic_ready_def)
qed

lemma kbc_other_port: "kbc_ok P view \<Longrightarrow> port \<notin> {0x60, 0x64} \<Longrightarrow> view (port_outb P port v d) = view d"
  "kbc_ok P view \<Longrightarrow> port \<notin> {0x60, 0x64} \<Longrightarrow> view (snd (port_inb P port d)) = view d"
  unfolding kbc_ok_def by blast+

lemma pic_remap_kbc: "kbc_ok P view \<Longrightarrow> view (dev (pic_remap P s)) = view (dev s)"
  by (simp add: pic_remap_def outs_def outb_def kbc_other_port)

lemma irq_init_returns:
  assumes "kbc_ok P view" and "kbc_prompt P view" and "in_busy (view (dev s)) = 0" and len: "length idt = 256"
  shows "\<exists>r. irq_init H P (idt, s) = Some r"
  using mouse_on_returns [OF assms(1,2), of "pic_remap P s"] assms(3) pic_remap_kbc [OF assms(1)] by (auto simp: irq_init_parts [OF len])

definition exception_gates :: "handlers \<Rightarrow> idt_entry list \<Rightarrow> idt_entry list" where
  "exception_gates H idt = idt[0 := gate_for (divide_by_zero_h H) 0, 13 := gate_for (general_protection_h H) 0, 14 := gate_for (page_h H) 0,
     0x80 := gate_for (syscall_h H) 3]"

lemma traps_init_parts:
  assumes "length (idt_table s) = 256"
  shows "traps_init H P s =
    map_option (\<lambda>(t, m). s\<lparr>idt_table := t, i_mach := m, i_flag := True\<rparr>) (irq_init H P (exception_gates H (idt_table s), i_mach s))"
  using assms by (cases "irq_init H P (exception_gates H (idt_table s), i_mach s)")
    (auto simp: traps_init_def exception_gates_def Let_def set_idt_gate_for)

lemma traps_init_returns:
  assumes "kbc_ok P view" and "kbc_prompt P view" and "in_busy (view (dev (i_mach s))) = 0" and len: "length (idt_table s) = 256"
  shows "\<exists>s'. traps_init H P s = Some s'"
  using irq_init_returns [OF assms(1-3), of "exception_gates H (idt_table s)" H] len
  by (auto simp: traps_init_parts [OF len] exception_gates_def)

lemma traps_init_result:
  assumes pics: "pics_ok P master slave" and len: "length (idt_table s) = 256" and run: "traps_init H P s = Some s'"
  shows "i_flag s' \<and> length (idt_table s') = 256 \<and>
    (\<forall>v < 256. case installed H v of
        Some (h, dpl) \<Rightarrow> gate_present (idt_table s' ! v) \<and> gate_target (idt_table s' ! v) = h \<and> gate_dpl (idt_table s' ! v) = unat dpl
      | None \<Rightarrow> idt_table s' ! v = idt_table s ! v) \<and>
    master (dev (i_mach s')) = pic_ready 32 4 \<and> slave (dev (i_mach s')) = pic_ready 40 2 \<and>
    (idt_table s = replicate 256 empty_gate \<longrightarrow> {line. line < 16 \<and> gate_present (idt_table s' ! (32 + line))} = {0, 1, 9, 12, 14, 15})"
proof -
  let ?g = "\<lambda>(h, dpl). gate_for h dpl"
  define u where "u = irq_gates H (exception_gates H (idt_table s))"
  have "length (exception_gates H (idt_table s)) = 256" using len by (simp add: exception_gates_def)
  note parts = irq_init_state [OF pics this, of H "i_mach s"]
  obtain m where m: "s' = s\<lparr>idt_table := u, i_mach := m, i_flag := True\<rparr>" "master (dev m) = pic_ready 32 4" "slave (dev m) = pic_ready 40 2"
    using run parts unfolding traps_init_parts [OF len] u_def by auto
  have lu: "length u = 256" using len by (simp add: u_def irq_gates_def exception_gates_def)
  have u: "u ! v = (case installed H v of Some e \<Rightarrow> ?g e | None \<Rightarrow> idt_table s ! v)" if "v < 256" for v
    using that len by (simp add: nth_list_update installed_def u_def irq_gates_def exception_gates_def)
  have gates: "case installed H v of
        Some (h, dpl) \<Rightarrow> gate_present (u ! v) \<and> gate_target (u ! v) = h \<and> gate_dpl (u ! v) = unat dpl
      | None \<Rightarrow> u ! v = idt_table s ! v" if "v < 256" for v
  proof (cases "installed H v")
    case (Some e)
    have "snd e AND 3 = snd e" using Some by (auto simp: installed_def split: if_splits)
    then show ?thesis using u [OF that] Some gate_for_facts [of "fst e" "snd e"] by (simp add: split_def)
  qed (use u [OF that] in simp)
  have present: "gate_present (u ! (32 + line)) \<longleftrightarrow> line \<in> {0, 1, 9, 12, 14, 15}"
    if "idt_table s = replicate 256 empty_gate" "line < 16" for line
  proof -
    have "installed H (32 + line) \<noteq> None \<longleftrightarrow> line \<in> {0, 1, 9, 12, 14, 15}" using that(2) by (auto simp: installed_def)
    moreover have "gate_present (u ! (32 + line)) \<longleftrightarrow> installed H (32 + line) \<noteq> None"
      using u [of "32 + line"] that gate_for_facts(2)
      by (cases "installed H (32 + line)") (auto simp: gate_present_def empty_gate_def)
    ultimately show ?thesis by simp
  qed
  have lines: "{line. line < 16 \<and> gate_present (u ! (32 + line))} = {0, 1, 9, 12, 14, 15}" if "idt_table s = replicate 256 empty_gate"
  proof -
    have "line < 16 \<and> gate_present (u ! (32 + line)) \<longleftrightarrow> line \<in> {0, 1, 9, 12, 14, 15}" for line
      using present [OF that, of line] by (cases "line < 16") auto
    then show ?thesis by blast
  qed
  have s': "idt_table s' = u" "dev (i_mach s') = dev m" "i_flag s'" by (simp_all add: m(1))
  show ?thesis unfolding s'(1,2) by (intro conjI allI impI s'(3) lu m(2,3) gates lines)
qed

text \<open>C40: Whenever \<^verbatim>\<open>traps_init\<close> returns, interrupts are on, the two 8259 deliver their lines at the vectors 32 to 47 with every line
  unmasked, and exactly ten entries of the interrupt table are set: each leads to its handler, ring 3 may call only vector 128, and all
  other entries are as they were. With the table the kernel starts with, all zero, ten of the sixteen unmasked lines have no gate: an
  interrupt there is a protection fault, whose handler kills the task that happens to run. And it returns on a keyboard controller that
  starts with an empty input buffer and is prompt at the two places where the code does not wait for it; one that is not may leave it
  waiting for ever (\<^verbatim>\<open>traps_init_can_hang\<close>).\<close>

theorem traps_init_installs:
  assumes pics: "pics_ok P master slave" and len: "length (idt_table s) = 256"
  shows "(\<forall>s'. traps_init H P s = Some s' \<longrightarrow> i_flag s' \<and> length (idt_table s') = 256 \<and>
      (\<forall>v < 256. case installed H v of
          Some (h, dpl) \<Rightarrow> gate_present (idt_table s' ! v) \<and> gate_target (idt_table s' ! v) = h \<and> gate_dpl (idt_table s' ! v) = unat dpl
        | None \<Rightarrow> idt_table s' ! v = idt_table s ! v) \<and>
      master (dev (i_mach s')) = pic_ready 32 4 \<and> slave (dev (i_mach s')) = pic_ready 40 2 \<and>
      (idt_table s = replicate 256 empty_gate \<longrightarrow> {line. line < 16 \<and> gate_present (idt_table s' ! (32 + line))} = {0, 1, 9, 12, 14, 15})) \<and>
    (kbc_ok P view \<and> kbc_prompt P view \<and> in_busy (view (dev (i_mach s))) = 0 \<longrightarrow> (\<exists>s'. traps_init H P s = Some s'))"
proof (rule conjI)
  show "kbc_ok P view \<and> kbc_prompt P view \<and> in_busy (view (dev (i_mach s))) = 0 \<longrightarrow> (\<exists>s'. traps_init H P s = Some s')"
    using traps_init_returns [of P view s H] len by blast
qed (use traps_init_result [OF assms] in blast)

section \<open>Hardware that fits\<close>

text \<open>Two 8259 and an 8042 that is busy for two reads after every byte and answers after three, but needs \<open>n\<close> reads for the bytes
  the code does not wait for. A byte that comes while its input buffer is full is lost.\<close>

definition write_kbc :: "nat \<Rightarrow> u16 \<Rightarrow> u8 \<Rightarrow> kbc \<Rightarrow> kbc" where
  "write_kbc n port v k =
     (if in_busy k \<noteq> 0 then k
      else if port = 0x64 then \<lparr>last_cmd = v, in_busy = (if v = 0xA8 then n else 2), out_wait = (if v = 0x20 then Some 3 else out_wait k)\<rparr>
      else if port = 0x60 then k\<lparr>in_busy := (if last_cmd k = 0x60 then n else 2), out_wait := (if last_cmd k = 0xD4 then Some 3 else out_wait k)\<rparr>
      else k)"

definition example_chips :: "nat \<Rightarrow> (pic \<times> pic \<times> kbc) ports" where
  "example_chips n = \<lparr>
     port_outb = (\<lambda>port v (m, s, k).
       (if port = 0x20 then pic_cmd v m else if port = 0x21 then pic_data v m else m,
        if port = 0xA0 then pic_cmd v s else if port = 0xA1 then pic_data v s else s, write_kbc n port v k)),
     port_inb = (\<lambda>port (m, s, k).
       if port = 0x64 then ((if in_busy k \<noteq> 0 then 2 else 0) OR (if out_wait k = Some 0 then 1 else 0),
         (m, s, k\<lparr>in_busy := in_busy k - 1, out_wait := map_option (\<lambda>k. k - 1) (out_wait k)\<rparr>))
       else if port = 0xA1 then (mask_reg s, (m, s, k))
       else (0, (m, s, k))),
     port_outw = (\<lambda>_ _ d. d), port_inw = (\<lambda>_ d. (0, d)), next_interrupt = (\<lambda>d. (False, d))\<rparr>"

lemma example_chips_ok: "pics_ok (example_chips n) fst (fst \<circ> snd)" "kbc_ok (example_chips n) (snd \<circ> snd)"
  by (simp_all add: pics_ok_def kbc_ok_def answers_def example_chips_def write_kbc_def split_def)

lemma example_chips_prompt: "kbc_prompt (example_chips 0) (snd \<circ> snd)"
  by (simp add: kbc_prompt_def example_chips_def write_kbc_def split_def)

definition example_handlers :: handlers where
  "example_handlers = \<lparr>divide_by_zero_h = 0x101000, general_protection_h = 0x101100, page_h = 0x101200, syscall_h = 0x101300, irq0_h = 0x101400,
     keyboard_h = 0x101500, sci_h = 0x101600, mouse_h = 0x101700, ide_h = 0x101800\<rparr>"

definition example_irq_state :: "(pic \<times> pic \<times> kbc) irq_state" where
  "example_irq_state = \<lparr>idt_table = replicate 256 empty_gate,
     i_mach = \<lparr>dev = (pic_ready 8 0, pic_ready 0x70 0, \<lparr>last_cmd = 0, in_busy = 0, out_wait = None\<rparr>), ide_irq_fired = 0\<rparr>, i_flag = False\<rparr>"

theorem traps_init_installs_witness:
  "\<exists>s'. traps_init example_handlers (example_chips 0) example_irq_state = Some s' \<and> gate_target (idt_table s' ! 14) = 0x101200 \<and>
     {line. line < 16 \<and> gate_present (idt_table s' ! (32 + line))} = {0, 1, 9, 12, 14, 15}"
proof -
  have z: "idt_table example_irq_state = replicate 256 empty_gate" "length (idt_table example_irq_state) = 256"
    "in_busy ((snd \<circ> snd) (dev (i_mach example_irq_state))) = 0"
    by (simp_all add: example_irq_state_def)
  note installs = traps_init_installs [OF example_chips_ok(1) z(2), where H = example_handlers and view = "snd \<circ> snd"]
  obtain s' where r: "traps_init example_handlers (example_chips 0) example_irq_state = Some s'"
    using installs example_chips_ok(2) example_chips_prompt z(3) by blast
  then have s': "\<forall>v < 256. case installed example_handlers v of
          Some (h, dpl) \<Rightarrow> gate_present (idt_table s' ! v) \<and> gate_target (idt_table s' ! v) = h \<and> gate_dpl (idt_table s' ! v) = unat dpl
        | None \<Rightarrow> idt_table s' ! v = idt_table example_irq_state ! v"
      "{line. line < 16 \<and> gate_present (idt_table s' ! (32 + line))} = {0, 1, 9, 12, 14, 15}"
    using installs z(1) by blast+
  have "installed example_handlers 14 = Some (0x101200, 0)" by (simp add: installed_def example_handlers_def)
  then have "gate_target (idt_table s' ! 14) = 0x101200" using s'(1) [rule_format, of 14] by simp
  then show ?thesis using r s'(2) by blast
qed

text \<open>A controller that takes two status reads over the command that enables the mouse has not taken it when the next command comes, which it
  loses: the configuration byte never arrives, and the kernel waits for it for ever.\<close>

theorem traps_init_can_hang:
  "kbc_ok (example_chips 2) (snd \<circ> snd) \<and> traps_init example_handlers (example_chips 2) example_irq_state = None"
proof -
  let ?P = "example_chips 2"
  let ?s = "pic_remap ?P (i_mach example_irq_state)"
  note ok = example_chips_ok(2) [of 2]
  have len: "length (idt_table example_irq_state) = 256" "length (exception_gates example_handlers (idt_table example_irq_state)) = 256"
    by (simp_all add: example_irq_state_def exception_gates_def)
  have k: "(snd \<circ> snd) (dev ?s) = \<lparr>last_cmd = 0, in_busy = 0, out_wait = None\<rparr>"
    using pic_remap_kbc [OF ok, of "i_mach example_irq_state"] by (simp add: example_irq_state_def)
  have "out_wait ((snd \<circ> snd) (dev (outb ?P 0x64 0x20 (outb ?P 0x64 0xA8 ?s)))) = None"
    using k by (simp add: outb_def example_chips_def write_kbc_def split_def)
  then have "wait_output ?P (outb ?P 0x64 0x20 (outb ?P 0x64 0xA8 ?s)) = None" by (rule wait_output_hangs [OF ok])
  then have "mouse_on ?P ?s = None" by (simp add: mouse_on_def)
  then show ?thesis using ok by (simp add: traps_init_parts [OF len(1)] irq_init_parts [OF len(2)])
qed

end
