(* ===== verification/MinixTree.thy ===== *)
theory MinixTree
  imports MinixFile
begin

text \<open>
  What the operations on the directory tree do: \<^verbatim>\<open>minix_RenameFile\<close>, \<^verbatim>\<open>minix_CreateDir\<close> and
  \<^verbatim>\<open>minix_DeleteDir\<close> of \<^verbatim>\<open>kernel/fs/minix/file.c\<close>.
\<close>

section \<open>Renaming\<close>

definition distinct_names :: "u8 list \<Rightarrow> bool" where
  "distinct_names b \<longleftrightarrow> (\<forall>i < 16. \<forall>j < 16. ino b i \<noteq> 0 \<and> ino b j \<noteq> 0 \<and> ename b i = ename b j \<longrightarrow> i = j)"

lemma lookup_None: "lookup b nm = 0 \<longleftrightarrow> find_name b nm = None"
  using find_name_Some by (fastforce simp: lookup_def split: option.splits)

lemma lookup_removed:
  assumes b: "length b = 512" and i: "find_name b nm = Some i" and d: "distinct_names b"
  shows "lookup (with_entry b i 0 []) x = (if x = nm then 0 else lookup b x)"
proof -
  note f = find_name_Some [OF i]
  note simps = ino_with_entry [OF b, of i] ename_with_entry [OF b, of i]
  show ?thesis
  proof (cases "x = nm")
    case True
    have "find_name (with_entry b i 0 []) nm = None"
      using d f unfolding distinct_names_def find_name_def find_upt_None by (auto simp: simps)
    then show ?thesis using True lookup_None by simp
  next
    case False
    then show ?thesis using lookup_remove [OF b, of i x] f by simp
  qed
qed

lemma fname_find:
  assumes "disk_ok d" "names d path s nm" "length u = 32" "s \<noteq> 0"
  shows "dir_find (sector_read s d) (fname u nm) 0 = Some (find_name (sector_read s d) nm)"
proof -
  have "dir_ok (sector_read s d)" using assms(2,4) unfolding names_def by blast
  then show ?thesis using dir_find_spec [of "sector_read s d" "fname u nm" 0] names_find(3,4) [OF assms(1-3)] by (simp add: find_name_def)
qed

lemma RenameFile_eq:
  assumes d: "disk_ok d" and old: "names d path s nm" and new: "names d path' s' nm'" and u: "length u = 32"
  shows "minix_RenameFile u path path' d =
    (if s = 0 \<or> s' = 0 then Some (err ENOENT, d)
     else if lookup (sector_read s' d) nm' \<noteq> 0 then Some (err EEXIST, d)
     else (case find_name (sector_read s d) nm of
        None \<Rightarrow> Some (err ENOENT, d)
      | Some i \<Rightarrow> enter_name s' (ino (sector_read s d) i) (fname u nm')
          (sector_write s (with_entry (sector_read s d) i 0 []) d)))"
proof -
  note f = names_find [OF d old u] and f' = names_find [OF d new u]
  have "remove_entry s i d = Some (sector_write s (with_entry (sector_read s d) i 0 []) d)"
    "entry_inode (sector_read s d) i = Some (ino (sector_read s d) i)" if "find_name (sector_read s d) nm = Some i" for i
    using find_name_Some [OF that] remove_entry_spec [OF d, of i s] d by (simp_all add: entry_inode_ino)
  then show ?thesis
    using f(1) f'(1,2) fname_find [OF d old u] by (auto simp: minix_RenameFile_def Let_def split: option.split)
qed

text \<open>Both names are accepted: the old entry is gone, and the new one is entered where the directory has room.\<close>

lemma RenameFile_moves:
  assumes d: "disk_ok d" and old: "names d path s nm" and new: "names d path' s' nm'" and u: "length u = 32"
    and nz: "s \<noteq> 0" "s' \<noteq> 0" and free: "lookup (sector_read s' d) nm' = 0" and n: "lookup (sector_read s d) nm \<noteq> 0"
    and dn: "distinct_names (sector_read s d)"
  shows "\<exists>d1. (\<forall>l. l \<noteq> s \<longrightarrow> d1 l = d l) \<and>
    (\<forall>x. lookup (sector_read s d1) x = (if x = nm then 0 else lookup (sector_read s d) x)) \<and>
    (if s \<noteq> s' \<and> free_slot (sector_read s' d) = None
     then minix_RenameFile u path path' d = Some (err ENOSPC, d1)
     else \<exists>d'. minix_RenameFile u path path' d = Some (0, d') \<and> (\<forall>l. l \<noteq> s' \<longrightarrow> d' l = d1 l) \<and>
       (\<forall>x. lookup (sector_read s' d') x = (if x = nm' then lookup (sector_read s d) nm else lookup (sector_read s' d1) x)))"
proof -
  note f' = names_find [OF d new u]
  have sm: "s < 0x10000000" "s' < 0x10000000" by (rule names_small [OF old], rule names_small [OF new])
  let ?b = "sector_read s d" and ?n = "lookup (sector_read s d) nm"
  obtain i where i: "find_name ?b nm = Some i" "i < 16" "ino ?b i = ?n" "ename ?b i = nm" using lookup_index [OF refl n] by blast
  let ?d1 = "sector_write s (with_entry ?b i 0 []) d"
  have b: "length ?b = 512" using d by simp
  have d1: "disk_ok ?d1" using d i(2) by (intro disk_ok_write) simp_all
  have frame: "\<forall>l. l \<noteq> s \<longrightarrow> ?d1 l = d l" using sm by (simp add: write_other)
  have look: "\<forall>x. lookup (sector_read s ?d1) x = (if x = nm then 0 else lookup ?b x)" using lookup_removed [OF b i(1) dn] by simp
  have run: "minix_RenameFile u path path' d = enter_name s' ?n (fname u nm') ?d1" using RenameFile_eq [OF d old new u] nz free n i(1,3) by simp
  let ?b' = "sector_read s' ?d1"
  have free': "lookup ?b' nm' = 0"
  proof (cases "s = s'")
    case False
    then show ?thesis using free sm by (simp add: read_write_other)
  qed (use free look in auto)
  have slot: "free_slot ?b' = None \<longleftrightarrow> s \<noteq> s' \<and> free_slot (sector_read s' d) = None"
  proof (cases "s = s'")
    case True
    have "ino (with_entry ?b i 0 []) i = 0" using ino_with_entry [OF b i(2) i(2)] by simp
    then show ?thesis using True i(2) by (auto simp: free_slot_def find_upt_None)
  next
    case False
    then show ?thesis using sm by (simp add: read_write_other)
  qed
  have nm': "0 \<notin> set nm'" "length nm' < 30"
    using new path_name_nonzero [OF cstr_nonzero] unfolding names_def by auto
  show ?thesis
  proof (cases "free_slot ?b'")
    case None
    then show ?thesis
      using slot run enter_name_spec [OF d1 f'(3), of s' ?n] frame look by (intro exI [of _ ?d1]) simp
  next
    case (Some k)
    have k: "k < 16" "ino ?b' k = 0" using free_slot_Some [OF Some] by auto
    let ?d' = "sector_write s' (with_entry ?b' k ?n nm') ?d1"
    have "minix_RenameFile u path path' d = Some (0, ?d')"
      using run enter_name_spec [OF d1 f'(3), of s' ?n] f'(4) Some by simp
    moreover have "\<forall>x. lookup (sector_read s' ?d') x = (if x = nm' then ?n else lookup ?b' x)"
      using lookup_enter [OF _ k nm' free' n] d1 by simp
    moreover have "\<forall>l. l \<noteq> s' \<longrightarrow> ?d' l = ?d1 l" using sm by (simp add: write_other)
    ultimately show ?thesis using slot Some frame look by (intro exI [of _ ?d1]) auto
  qed
qed

text \<open>C36: What \<^verbatim>\<open>minix_RenameFile\<close> does. A missing directory, a name in use and a missing file are refused with nothing
  changed. Otherwise the old name is gone from its directory and, if the target directory has room, the new name leads to the file's inode;
  every other name of both directories leads where it did and no other sector changes. But the old entry is written back before the room
  is looked for: when the target is full, the answer is an error and the file has no name any more.\<close>

theorem RenameFile_outcomes:
  assumes d: "disk_ok d" and old: "names d path s nm" and new: "names d path' s' nm'" and u: "length u = 32"
  shows "(s = 0 \<or> s' = 0 \<longrightarrow> minix_RenameFile u path path' d = Some (err ENOENT, d)) \<and>
    (s \<noteq> 0 \<and> s' \<noteq> 0 \<and> lookup (sector_read s' d) nm' \<noteq> 0 \<longrightarrow> minix_RenameFile u path path' d = Some (err EEXIST, d)) \<and>
    (s \<noteq> 0 \<and> s' \<noteq> 0 \<and> lookup (sector_read s' d) nm' = 0 \<and> lookup (sector_read s d) nm = 0 \<longrightarrow>
      minix_RenameFile u path path' d = Some (err ENOENT, d)) \<and>
    (s \<noteq> 0 \<and> s' \<noteq> 0 \<and> lookup (sector_read s' d) nm' = 0 \<and> lookup (sector_read s d) nm \<noteq> 0 \<and> distinct_names (sector_read s d) \<longrightarrow>
      (\<exists>d1. (\<forall>l. l \<noteq> s \<longrightarrow> d1 l = d l) \<and>
        (\<forall>x. lookup (sector_read s d1) x = (if x = nm then 0 else lookup (sector_read s d) x)) \<and>
        (if s \<noteq> s' \<and> free_slot (sector_read s' d) = None
         then minix_RenameFile u path path' d = Some (err ENOSPC, d1)
         else \<exists>d'. minix_RenameFile u path path' d = Some (0, d') \<and> (\<forall>l. l \<noteq> s' \<longrightarrow> d' l = d1 l) \<and>
           (\<forall>x. lookup (sector_read s' d') x = (if x = nm' then lookup (sector_read s d) nm else lookup (sector_read s' d1) x)))))"
  using RenameFile_eq [OF d old new u] RenameFile_moves [OF d old new u] lookup_None [of "sector_read s d" nm]
  by (simp split: option.split)

theorem RenameFile_outcomes_witness:
  "\<exists>d'. minix_RenameFile example_u [47, 97, 0] [47, 99, 0] example_disk = Some (0, d') \<and>
     lookup (root d') [99] = 3 \<and> lookup (root d') [97] = 0 \<and> lookup (root d') [98] = 4"
proof -
  have n: "names example_disk [47, x, 0] 438 [x]" if "x \<noteq> 0" "x \<noteq> 47" for x
    by (rule root_names [OF example_path [OF that] example_disk_ok(2)])
  have "distinct_names (root example_disk)"
    unfolding distinct_names_def example_sectors by (auto simp: ino_with_entry ename_with_entry zero_dir split: if_splits)
  then show ?thesis
    using RenameFile_outcomes [OF example_disk_ok(1) n n, of 97 99 example_u] by (auto simp: example_lookup)
qed

section \<open>Creating a directory\<close>

definition dir_image :: "u16 \<Rightarrow> u8 list" where
  "dir_image zone = take 14 (inode_image 0x41ED 64 2) @ le_bytes 2 zone @ replicate 18 0"

lemma length_dir_image [simp]: "length (dir_image z) = 34"
  by (simp add: dir_image_def inode_image_def)

lemma dir_image_fields: "fld16 (dir_image z) 0 = 0x41ED" "fld32 (dir_image z) 4 = 64" "fld16 (dir_image z) 14 = z"
  by (simp_all add: fld16_def fld32_def dir_image_def inode_image_def)

lemma dir_inode_written:
  assumes "length b = 512" and "p + 34 \<le> 512"
  shows "do { b1 \<leftarrow> fresh_inode b p 0x41ED 64 2; put16 b1 (p + 14) z } = Some (put_inode b p (dir_image z))"
proof -
  have "put16 (put_inode b p (inode_image 0x41ED 64 2)) (p + 14) z = Some (put_inode b p (dir_image z))"
    unfolding put16_def put_inode_def by (subst buf_put_inside [of 14]) (use assms in \<open>simp_all add: inode_image_def dir_image_def\<close>)
  then show ?thesis using fresh_inode_spec [OF assms] by simp
qed

definition empty_dir :: "u16 \<Rightarrow> u16 \<Rightarrow> u8 list" where
  "empty_dir n m = with_entry (with_entry (replicate 512 0) 0 n [46]) 1 m [46, 46]"

lemma dot_entries_spec: "dot_entries n m = Some (empty_dir n m)"
proof -
  have c: "terminated (c_str ''.'')" "cstr (c_str ''.'') = [46]" "terminated (c_str ''..'')" "cstr (c_str ''..'') = [46, 46]"
    by (simp_all add: c_str_def terminated_def cstr_def)
  show ?thesis
    using set_entry_spec [of "replicate 512 0" 0 "c_str ''.''" n] set_entry_spec [of "with_entry (replicate 512 0) 0 n [46]" 1 "c_str ''..''" m] c
    by (auto simp: dot_entries_def empty_dir_def)
qed

lemma empty_dir_facts:
  assumes "n \<noteq> 0"
  shows "length (empty_dir n m) = 512" "dir_ok (empty_dir n m)"
    "lookup (empty_dir n m) x = (if x = [46] then n else if x = [46, 46] then m else 0)"
proof -
  let ?b = "with_entry (replicate 512 0) 0 n [46]"
  show "length (empty_dir n m) = 512" by (simp add: empty_dir_def)
  show "dir_ok (empty_dir n m)" unfolding empty_dir_def by (intro dir_ok_with_entry zero_dir) simp_all
  have b: "lookup ?b x = (if x = [46] then n else 0)" for x using zero_dir assms by (subst lookup_enter) simp_all
  have one: "ino ?b 1 = 0" using zero_dir by (simp add: ino_with_entry)
  show "lookup (empty_dir n m) x = (if x = [46] then n else if x = [46, 46] then m else 0)"
  proof (cases "m = 0")
    case False
    then show ?thesis unfolding empty_dir_def using b one by (subst lookup_enter) simp_all
  next
    case True
    have "ino (empty_dir n m) i = ino ?b i" "ino (empty_dir n m) i \<noteq> 0 \<Longrightarrow> ename (empty_dir n m) i = ename ?b i" if "i < 16" for i
      using that one True by (auto simp: empty_dir_def ino_with_entry ename_with_entry)
    then have "find_name (empty_dir n m) x = find_name ?b x" unfolding find_name_def by (intro find_cong) auto
    moreover have "ino (empty_dir n m) j = ino ?b j" if "j < 16" for j using that one True by (simp add: empty_dir_def ino_with_entry)
    ultimately have "lookup (empty_dir n m) x = lookup ?b x"
      using find_name_Some by (auto simp: lookup_def split: option.split)
    then show ?thesis using b True by simp
  qed
qed

lemma created_dir:
  assumes d: "disk_ok d" and path: "names d path s nm" and u: "length u = 32" and s: "s \<noteq> 0"
    and new: "lookup (sector_read s d) nm = 0"
    and k: "find_clear (sector_read 2 d) 2 4096 = Some k" and n: "n = of_nat (k + 1)" and fit: "fits n"
    and z: "find_clear (sector_read 3 d) 0 4096 = Some z" "2 \<le> z" and zs: "zs = ucast (of_nat z :: u16) * 2"
    and sec: "s \<noteq> 2" "s \<noteq> 3" "s \<noteq> inode_sector n" "s \<noteq> zs" "zs \<noteq> inode_sector n" and slot: "free_slot (sector_read s d) = Some i"
  shows "\<exists>d'. minix_CreateDir u path d = Some (0, d') \<and> disk_ok d' \<and> sector_read s d' = with_entry (sector_read s d) i n nm \<and>
    sector_read 2 d' = SET_BIT (sector_read 2 d) k \<and> sector_read 3 d' = SET_BIT (sector_read 3 d) z \<and>
    inode_mode d' n = 0x41ED \<and> inode_size d' n = 64 \<and> inode_zone d' n 0 = of_nat z \<and>
    (\<forall>x. lookup (sector_read s d') x = (if x = nm then n else lookup (sector_read s d) x)) \<and>
    resolve d' s [nm] = zs \<and> dir_ok (sector_read zs d') \<and> sector_read zs d' = empty_dir n (ino (sector_read s d) 0) \<and>
    (\<forall>x. lookup (sector_read zs d') x = (if x = [46] then n else if x = [46, 46] then ino (sector_read s d) 0 else 0)) \<and>
    (\<forall>l. l \<notin> {2, 3, inode_sector n, zs, s} \<longrightarrow> d' l = d l)"
proof -
  note nn = new_inode_number [OF k, folded n]
  note off = fits_offset [OF fit]
  note f = names_find [OF d path u]
  have sm: "s < 0x10000000" by (rule names_small [OF path])
  have z4: "z < 4096" using z(1) by (auto simp: find_clear_Some)
  then have uz: "unat (of_nat z :: u16) = z" by (intro unat_of_nat_small) simp
  have usz: "unat zs = 2 * z" unfolding zs unat_zone_sector uz by simp
  have zsm: "zs < 0x10000000" unfolding zs by (rule zone_small)
  have zs23: "zs \<noteq> 2" "zs \<noteq> 3"
  proof -
    have "2 * z \<noteq> 2" "2 * z \<noteq> 3" using z(2) by (simp, presburger)
    then show "zs \<noteq> 2" "zs \<noteq> 3" using usz by auto
  qed
  note small = sm zsm zs23 sec low_sectors(1,2) [of n] low_sectors(3,4) inode_sector_small [of n]
  let ?b = "sector_read s d" and ?is = "inode_sector n" and ?z = "of_nat z :: u16"
  define d1 where "d1 = sector_write 2 (SET_BIT (sector_read 2 d) k) d"
  define d2 where "d2 = sector_write 3 (SET_BIT (sector_read 3 d) z) d1"
  define d3 where "d3 = sector_write ?is (put_inode (sector_read ?is d) (inode_offset n) (dir_image ?z)) d2"
  define d4 where "d4 = sector_write zs (empty_dir n (ino ?b 0)) d3"
  define d' where "d' = sector_write s (with_entry ?b i n nm) d4"
  note defs = d1_def d2_def d3_def d4_def d'_def
  have ok: "disk_ok d1" "disk_ok d2" "disk_ok d3" "disk_ok d4"
    using d off nn empty_dir_facts(1) by (auto simp: defs intro!: disk_ok_write)
  have alloc: "minix_AllocateInode d = (n, d1)" using AllocateInode_spec [OF d] k n by (simp add: d1_def)
  have "sector_read 3 d1 = sector_read 3 d" using small by (simp add: d1_def read_write_other)
  then have zone: "allocate_zone d1 = Some (?z, d2)" using allocate_zone_spec [OF ok(1)] z(1) by (simp add: d2_def)
  have r: "sector_read ?is d2 = sector_read ?is d" "sector_read s d3 = ?b" "sector_read s d4 = ?b"
    using small by (simp_all add: defs read_write_other)
  have fresh: "do { b1 \<leftarrow> fresh_inode (sector_read ?is d2) (inode_offset n) 0x41ED 64 2; put16 b1 (inode_offset n + 14) ?z } =
      Some (put_inode (sector_read ?is d) (inode_offset n) (dir_image ?z))"
    unfolding r(1) using off d by (intro dir_inode_written) simp_all
  then obtain b1 where b1: "fresh_inode (sector_read ?is d2) (inode_offset n) 0x41ED 64 2 = Some b1"
    "put16 b1 (inode_offset n + 14) ?z = Some (put_inode (sector_read ?is d) (inode_offset n) (dir_image ?z))"
    by (auto simp: bind_eq_Some_conv)
  have ent: "entry_inode ?b 0 = Some (ino ?b 0)" using d by (intro entry_inode_ino) simp_all
  have n2: "\<not> n \<le> 2" using nn by (simp add: word_le_nat_alt)
  have run: "minix_CreateDir u path d = Some (0, d')"
  proof -
    have "minix_CreateDir u path d = enter_name s n (fname u nm) d4"
      using f(1,2) s new alloc n2 zone b1 ent dot_entries_spec r(2) by (simp add: minix_CreateDir_def Let_def d3_def d4_def zs)
    then show ?thesis using enter_name_spec [OF ok(4) f(3), of s n] r(3) slot f(4) by (simp add: d'_def)
  qed
  have i: "i < 16" "ino ?b i = 0" using free_slot_Some [OF slot] by auto
  have dir: "dir_ok ?b" "nm = path_name (cstr path)" "length nm < 30" using path s unfolding names_def by blast+
  have nm: "0 \<notin> set nm" unfolding dir(2) by (rule path_name_nonzero [OF cstr_nonzero])
  have ok': "disk_ok d'" using ok(4) d i by (simp add: d'_def disk_ok_write)
  have rd: "sector_read 2 d' = SET_BIT (sector_read 2 d) k" "sector_read 3 d' = SET_BIT (sector_read 3 d) z"
    "sector_read zs d' = empty_dir n (ino ?b 0)" "sector_read s d' = with_entry ?b i n nm" "sector_read ?is d' = sector_read ?is d3"
    using small by (simp_all add: defs read_write_other)
  have img: "inode_bytes d' n = dir_image ?z"
    using put_inode_write(1) [OF ok(2) fit, of "dir_image ?z"] nn rd(5) r(1) by (simp add: inode_bytes_def d3_def)
  have fld: "inode_mode d' n = 0x41ED" "inode_size d' n = 64" "inode_zone d' n 0 = ?z"
    using img by (simp_all add: inode_mode_def inode_size_def inode_zone_def dir_image_fields)
  have look: "lookup (sector_read s d') x = (if x = nm then n else lookup ?b x)" for x
    unfolding rd(4) using lookup_enter [OF _ i nm dir(3) new] nn d by simp
  have "n \<noteq> 0" using nn by blast
  note e = empty_dir_facts [OF this, of "ino ?b 0"]
  have "resolve d' s [nm] = zs" using look nn fld by (simp add: Let_def zs)
  moreover have "\<forall>l. l \<notin> {2, 3, ?is, zs, s} \<longrightarrow> d' l = d l" using small by (simp add: defs write_other)
  ultimately show ?thesis
    using run ok' rd(1,2,4) fld look e unfolding rd(3) [symmetric] by (intro exI [of _ d']) blast
qed

text \<open>C37: Creating a directory. The lowest free inode becomes a directory inode whose zone is the lowest free zone; the zone's
  first sector gets an entry for itself and one for the inode of the parent's first entry; the name is entered into the parent. Afterwards the
  path resolution steps from the parent through the new name into the new sector, the parent's other names lead where they did, and no other
  sector than the two bitmaps and the three written changes.\<close>

theorem CreateDir_outcome:
  assumes d: "disk_ok d" and path: "names d path s nm" and u: "length u = 32" and s: "s \<noteq> 0"
    and new: "lookup (sector_read s d) nm = 0"
    and k: "find_clear (sector_read 2 d) 2 4096 = Some k" and n: "n = of_nat (k + 1)" and fit: "fits n"
    and z: "find_clear (sector_read 3 d) 0 4096 = Some z" "2 \<le> z" and zs: "zs = ucast (of_nat z :: u16) * 2"
    and sec: "s \<noteq> 2" "s \<noteq> 3" "s \<noteq> inode_sector n" "s \<noteq> zs" "zs \<noteq> inode_sector n" and slot: "free_slot (sector_read s d) = Some i"
  shows "\<exists>d'. minix_CreateDir u path d = Some (0, d') \<and> disk_ok d' \<and>
    sector_read 2 d' = SET_BIT (sector_read 2 d) k \<and> sector_read 3 d' = SET_BIT (sector_read 3 d) z \<and>
    inode_mode d' n = 0x41ED \<and> inode_size d' n = 64 \<and> inode_zone d' n 0 = of_nat z \<and>
    (\<forall>x. lookup (sector_read s d') x = (if x = nm then n else lookup (sector_read s d) x)) \<and>
    resolve d' s [nm] = zs \<and> dir_ok (sector_read zs d') \<and>
    (\<forall>x. lookup (sector_read zs d') x = (if x = [46] then n else if x = [46, 46] then ino (sector_read s d) 0 else 0)) \<and>
    (\<forall>l. l \<notin> {2, 3, inode_sector n, zs, s} \<longrightarrow> d' l = d l)"
  using created_dir [OF assms] by blast

section \<open>Deleting a directory\<close>

lemma DeleteDir_runs:
  assumes d: "disk_ok d" and path: "names d path s nm" and u: "length u = 32" and s: "s \<noteq> 0" and nd: "\<not> dots nm"
    and n: "lookup (sector_read s d) nm = n" "n \<noteq> 0" "fits n" "unat n < 4096"
    and isdir: "inode_mode d n AND 0x4000 = 0x4000" "inode_size d n \<le> 64"
    and z: "inode_zone d n 0 = z" "z \<noteq> 0" "unat z < 4096" and zs: "ucast z * 2 \<notin> {2, inode_sector n, s}"
    and uniq: "distinct_names (sector_read s d)" "\<forall>i < 16. ino (sector_read s d) i = n \<longrightarrow> ename (sector_read s d) i = nm"
    and sec: "s \<noteq> 2" "s \<noteq> 3" "s \<noteq> inode_sector n"
    and i: "find_name (sector_read s d) nm = Some i" "i < 16" "ino (sector_read s d) i = n" "ename (sector_read s d) i = nm"
    and d1: "FreeZone z d = Some d1" "disk_ok d1" "\<forall>l. l \<noteq> 3 \<longrightarrow> d1 l = d l"
  shows "minix_DeleteDir u path d = Some (0, after_delete d s i n d1)"
proof -
  note off = fits_offset [OF n(3)]
  note f = names_find [OF d path u]
  have sm: "s < 0x10000000" by (rule names_small [OF path])
  note small = sm sec low_sectors(1,2) [of n] low_sectors(3,4) inode_sector_small [of n]
  let ?b = "sector_read s d" and ?is = "inode_sector n"
  have b: "length ?b = 512" using d by simp
  have first: "find (\<lambda>i. ino ?b i = n) [0..<16] = Some i"
  proof -
    have "\<not> ino ?b j = n" if "j < i" for j
    proof
      assume e: "ino ?b j = n"
      then have "ename ?b j = nm" using uniq(2) that i(2) by auto
      then show False using uniq(1) [unfolded distinct_names_def, rule_format, of j i] e i(2-4) that n(2) by simp
    qed
    then show ?thesis using i(2,3) by (auto simp: find_upt_Some)
  qed
  have old: "sector_read l d1 = sector_read l d" if "l < 0x10000000" "l \<noteq> 3" for l
    using that d1(3) by (simp add: sector_read_def mask28)
  define d2 where "d2 = sector_write ?is (put_inode (sector_read ?is d) (inode_offset n) (replicate 34 0)) d1"
  define d3 where "d3 = sector_write 2 (CLEAR_BIT (sector_read 2 d) (unat n)) d2"
  have d2: "disk_ok d2" unfolding d2_def using d1(2) d off by (intro disk_ok_write) simp_all
  have d3: "disk_ok d3" unfolding d3_def by (rule disk_ok_write [OF d2]) (use d in simp)
  have zero: "memset (sector_read ?is d1) (inode_offset n) 0 sizeof_inode =
      Some (put_inode (sector_read ?is d) (inode_offset n) (replicate 34 0))"
    using old [of ?is] small d off by (simp add: memset_spec sizeof_inode_def put_inode_def)
  have "sector_read 2 d2 = sector_read 2 d" unfolding d2_def using small old [of 2] by (simp add: read_write_other)
  then have c: "clear_bit_in 2 (unat n) d2 = Some d3" using clear_bit_in_spec [OF d2 n(4), of 2] by (simp add: d3_def)
  have b3: "sector_read s d3 = ?b" using small old [of s] by (simp add: d3_def d2_def read_write_other)
  have fin: "sector_write s (with_entry ?b i 0 []) d3 = after_delete d s i n d1" by (simp add: after_delete_def Let_def d3_def d2_def)
  have e: "remove_entry s i d3 = Some (after_delete d s i n d1)" using remove_entry_spec [OF d3 i(2)] b3 fin by simp
  show "minix_DeleteDir u path d = Some (0, after_delete d s i n d1)"
    using f(1,2) s dot_name_spec [OF f(3)] f(4) nd n(1,2) minix_GetInode_spec [OF d n(3)] inode_fields [OF d n(3)] isdir z(1) d1(1) zero c
      dir_inode_spec [OF b, of n 0] first b3 e
    by (simp add: minix_DeleteDir_def Let_def d2_def [symmetric])
qed

lemma deleted_dir:
  assumes d: "disk_ok d" and path: "names d path s nm" and u: "length u = 32" and s: "s \<noteq> 0" and nd: "\<not> dots nm"
    and n: "lookup (sector_read s d) nm = n" "n \<noteq> 0" "fits n" "unat n < 4096"
    and isdir: "inode_mode d n AND 0x4000 = 0x4000" "inode_size d n \<le> 64"
    and z: "inode_zone d n 0 = z" "z \<noteq> 0" "unat z < 4096" and zs: "ucast z * 2 \<notin> {2, inode_sector n, s}"
    and uniq: "distinct_names (sector_read s d)" "\<forall>i < 16. ino (sector_read s d) i = n \<longrightarrow> ename (sector_read s d) i = nm"
    and sec: "s \<noteq> 2" "s \<noteq> 3" "s \<noteq> inode_sector n"
  shows "\<exists>d'. minix_DeleteDir u path d = Some (0, d') \<and>
    (\<forall>x. lookup (sector_read s d') x = (if x = nm then 0 else lookup (sector_read s d) x)) \<and>
    inode_bytes d' n = replicate 34 0 \<and>
    (\<forall>j < 4096. TEST_BIT (d' 3) j \<longleftrightarrow> TEST_BIT (d 3) j \<and> j \<noteq> unat z) \<and>
    (\<forall>j < 4096. TEST_BIT (d' 2) j \<longleftrightarrow> TEST_BIT (d 2) j \<and> j \<noteq> unat n) \<and>
    sector_read (ucast z * 2) d' = sector_read (ucast z * 2) d \<and>
    (\<forall>l. l \<notin> {2, 3, inode_sector n, s} \<longrightarrow> d' l = d l) \<and>
    inode_mode d' (n + 1) = 0 \<and>
    same_around (inode_offset n) (sector_read (inode_sector n) d) (sector_read (inode_sector n) d')"
proof -
  let ?b = "sector_read s d" and ?is = "inode_sector n"
  have b: "length ?b = 512" using d by simp
  have sm: "s < 0x10000000" by (rule names_small [OF path])
  obtain i where i: "find_name ?b nm = Some i" "i < 16" "ino ?b i = n" "ename ?b i = nm" using lookup_index [OF n(1,2)] by blast
  obtain d1 where d1: "FreeZone z d = Some d1" "disk_ok d1" "\<forall>l. l \<noteq> 3 \<longrightarrow> d1 l = d l"
    "\<forall>j < 4096. TEST_BIT (d1 3) j \<longleftrightarrow> TEST_BIT (d 3) j \<and> \<not> (z \<noteq> 0 \<and> unat z = j)"
    using FreeZone_spec [OF d z(3)] by blast
  have "minix_DeleteDir u path d = Some (0, after_delete d s i n d1)" by (rule DeleteDir_runs [OF assms i d1(1-3)])
  moreover have n0: "n < 0xFFFF" using n(4) by (simp add: word_less_nat_alt)
  note g = deleted_facts [OF d d1(2,3) sm sec i(2) n(3) n0]
  have "\<forall>x. lookup (sector_read s (after_delete d s i n d1)) x = (if x = nm then 0 else lookup ?b x)"
    unfolding g(3) using lookup_removed [OF b i(1) uniq(1)] by simp
  moreover have "\<forall>j < 4096. TEST_BIT (after_delete d s i n d1 3) j \<longleftrightarrow> TEST_BIT (d 3) j \<and> j \<noteq> unat z"
    unfolding g(7) using d1(4) z(2) by auto
  moreover have "\<forall>j < 4096. TEST_BIT (after_delete d s i n d1 2) j \<longleftrightarrow> TEST_BIT (d 2) j \<and> j \<noteq> unat n"
  proof -
    have "after_delete d s i n d1 2 = CLEAR_BIT (d 2) (unat n)" using g(2) by (simp add: sector_read_def)
    then show ?thesis using d n(4) by (auto simp: disk_ok_def bits_simps)
  qed
  moreover have "sector_read (ucast z * 2) (after_delete d s i n d1) = sector_read (ucast z * 2) d"
  proof -
    have "unat (ucast z * 2 :: u32) \<noteq> 3" unfolding unat_zone_sector by presburger
    then have "ucast z * 2 \<noteq> (3 :: u32)" by auto
    then show ?thesis using g(6) [of "ucast z * 2"] zs zone_small [of z] by (simp add: sector_read_def mask28)
  qed
  moreover have "same_around (inode_offset n) (sector_read (inode_sector n) d) (sector_read (inode_sector n) (after_delete d s i n d1))"
  proof -
    have "sector_read (inode_sector n) (after_delete d s i n d1) = put_inode (sector_read (inode_sector n) d) (inode_offset n) (replicate 34 0)"
      using sm sec low_sectors(1,2) [of n] low_sectors(3,4) inode_sector_small [of n]
      by (simp add: after_delete_def Let_def read_write_other)
    then show ?thesis using put_inode_around [of "inode_offset n" "sector_read (inode_sector n) d" "replicate 34 0"] fits_offset [OF n(3)] d by simp
  qed
  ultimately show ?thesis using g(4-6) by (intro exI [of _ "after_delete d s i n d1"]) blast
qed

text \<open>C38: Deleting a directory with files in it. Any directory whose size field says at most 64, which is all that creating files in it leaves
  there, is deleted whatever its sector holds: the name is gone from its parent, the inode is cleared, the zone is free for other files, and the
  bitmap bit that is cleared is the one above the inode's. The entries of the files in it stay where they are, although nothing leads to them any
  more, and every file keeps its size and zones. A file with any other inode than the next one also keeps its mode and stays marked in the
  bitmap, so that its inode is lost; the file with the next inode, usually the first one created in the directory, has its mode cleared and
  its inode marked free.\<close>

theorem DeleteDir_orphans:
  assumes d: "disk_ok d" and path: "names d path s nm" and u: "length u = 32" and s: "s \<noteq> 0" and nd: "\<not> dots nm"
    and n: "lookup (sector_read s d) nm = n" "n \<noteq> 0" "fits n" "unat n < 4096"
    and isdir: "inode_mode d n AND 0x4000 = 0x4000" "inode_size d n \<le> 64"
    and z: "inode_zone d n 0 = z" "z \<noteq> 0" "unat z < 4096" and zs: "ucast z * 2 \<notin> {2, inode_sector n, s}"
    and uniq: "distinct_names (sector_read s d)" "\<forall>i < 16. ino (sector_read s d) i = n \<longrightarrow> ename (sector_read s d) i = nm"
    and sec: "s \<noteq> 2" "s \<noteq> 3" "s \<noteq> inode_sector n"
  shows "\<exists>d'. minix_DeleteDir u path d = Some (0, d') \<and>
    (\<forall>x. lookup (sector_read s d') x = (if x = nm then 0 else lookup (sector_read s d) x)) \<and>
    inode_bytes d' n = replicate 34 0 \<and>
    (\<forall>j < 4096. TEST_BIT (d' 3) j \<longleftrightarrow> TEST_BIT (d 3) j \<and> j \<noteq> unat z) \<and>
    (\<forall>j < 4096. TEST_BIT (d' 2) j \<longleftrightarrow> TEST_BIT (d 2) j \<and> j \<noteq> unat n) \<and>
    sector_read (ucast z * 2) d' = sector_read (ucast z * 2) d \<and>
    (\<forall>l. l \<notin> {2, 3, inode_sector n, s} \<longrightarrow> d' l = d l) \<and>
    (\<forall>x f. lookup (sector_read (ucast z * 2) d) x = f \<and> f \<noteq> 0 \<and> f \<noteq> n \<and> fits f \<and> unat f \<le> 4096 \<and> inode_sector f \<noteq> s \<longrightarrow>
      lookup (sector_read (ucast z * 2) d') x = f \<and> inode_size d' f = inode_size d f \<and>
      (\<forall>k < 7. inode_zone d' f k = inode_zone d f k) \<and>
      (if f = n + 1 then inode_mode d' f = 0 \<and> \<not> TEST_BIT (d' 2) (unat f - 1)
       else inode_mode d' f = inode_mode d f \<and> (TEST_BIT (d' 2) (unat f - 1) \<longleftrightarrow> TEST_BIT (d 2) (unat f - 1))))"
proof -
  obtain d' where d': "minix_DeleteDir u path d = Some (0, d')"
    "\<forall>x. lookup (sector_read s d') x = (if x = nm then 0 else lookup (sector_read s d) x)"
    "inode_bytes d' n = replicate 34 0"
    "\<forall>j < 4096. TEST_BIT (d' 3) j \<longleftrightarrow> TEST_BIT (d 3) j \<and> j \<noteq> unat z"
    "\<forall>j < 4096. TEST_BIT (d' 2) j \<longleftrightarrow> TEST_BIT (d 2) j \<and> j \<noteq> unat n"
    "sector_read (ucast z * 2) d' = sector_read (ucast z * 2) d"
    "\<forall>l. l \<notin> {2, 3, inode_sector n, s} \<longrightarrow> d' l = d l" "inode_mode d' (n + 1) = 0"
    "same_around (inode_offset n) (sector_read (inode_sector n) d) (sector_read (inode_sector n) d')"
    using deleted_dir [OF assms] by blast
  have next_no: "unat (n + 1) = unat n + 1" using n(4) by (subst unat_plus_small) simp_all
  have files: "lookup (sector_read (ucast z * 2) d') x = f \<and> inode_size d' f = inode_size d f \<and>
      (\<forall>k < 7. inode_zone d' f k = inode_zone d f k) \<and>
      (if f = n + 1 then inode_mode d' f = 0 \<and> \<not> TEST_BIT (d' 2) (unat f - 1)
       else inode_mode d' f = inode_mode d f \<and> (TEST_BIT (d' 2) (unat f - 1) \<longleftrightarrow> TEST_BIT (d 2) (unat f - 1)))"
    if f: "lookup (sector_read (ucast z * 2) d) x = f" "f \<noteq> 0" "f \<noteq> n" "fits f" "unat f \<le> 4096" "inode_sector f \<noteq> s" for x f
  proof -
    have other: "inode_sector f \<noteq> inode_sector n \<longrightarrow> sector_read (inode_sector f) d' = sector_read (inode_sector f) d"
      using d'(7) f(6) low_sectors(1,2) [of f] inode_sector_small [of f] by (simp add: sector_read_def mask28)
    note kept = other_inode_kept [OF d'(9) other n(3) f(4,3)]
    have pos: "0 < unat f" using f(4) by (auto simp: fits_def intro: ccontr)
    then have bit: "TEST_BIT (d' 2) (unat f - 1) \<longleftrightarrow> TEST_BIT (d 2) (unat f - 1) \<and> unat f - 1 \<noteq> unat n"
      using d'(5) f(5) by (intro d'(5) [rule_format]) linarith
    have "f = n + 1 \<longleftrightarrow> unat f - 1 = unat n" using pos next_no unat_eq_iff [of f "n + 1"] by auto
    then show ?thesis using kept bit d'(6,8) f(1) by auto
  qed
  show ?thesis by (rule exI [of _ d'], intro conjI d'(1-7)) (use files in blast)
qed

section \<open>Copying\<close>

text \<open>Reading with a buffer larger than the file: the rest is zeroed.\<close>

lemma ReadFile_whole:
  assumes d: "disk_ok d" and entry: "FindEntry u path d = Some n" and fit: "fits n" and z: "inode_zone d n 0 \<noteq> 0"
    and sz: "unat (inode_size d n) \<le> 512" and b: "length b = 512"
  shows "minix_ReadFile u path b 512 d = Some (int (unat (inode_size d n)),
    take (unat (inode_size d n)) (sector_read (ucast (inode_zone d n 0) * 2) d) @ replicate (512 - unat (inode_size d n)) 0)"
proof -
  let ?sz = "inode_size d n" and ?data = "sector_read (ucast (inode_zone d n 0) * 2) d"
  have count: "(if ?sz < 512 then ?sz else 512) = ?sz" using sz by (cases "?sz < 512") (auto simp: word_less_nat_alt word_unat_eq_iff)
  then have pad: "(if ?sz < 512 then 512 - ?sz else 0) = 512 - ?sz" by (cases "?sz < 512") simp_all
  have up: "unat (512 - ?sz) = 512 - unat ?sz" using sz by (subst unat_sub) (simp_all add: word_le_nat_alt)
  have s: "0 < sint ?sz \<longleftrightarrow> unat ?sz \<noteq> 0" "\<not> sint ?sz < 0" using small_int [OF sz] by (simp_all only: of_nat_0_less_iff neq0_conv)
  have sp: "0 < sint (512 - ?sz) \<longleftrightarrow> 512 - unat ?sz \<noteq> 0" using small_int [of "512 - ?sz"] up by (simp only: diff_le_self of_nat_0_less_iff neq0_conv)
  have copy: "(if 0 < sint ?sz \<and> inode_zone d n 0 \<noteq> 0 then memcpy b 0 ?data 0 (unat ?sz) else Some b) = Some (take (unat ?sz) ?data @ drop (unat ?sz) b)"
    using memcpy_spec [of 0 "unat ?sz" b 0 ?data] d b sz z s by auto
  have fill: "(if 0 < sint (512 - ?sz) then if sint ?sz < 0 then None
        else memset (take (unat ?sz) ?data @ drop (unat ?sz) b) (unat ?sz) 0 (unat (512 - ?sz))
      else Some (take (unat ?sz) ?data @ drop (unat ?sz) b)) = Some (take (unat ?sz) ?data @ replicate (512 - unat ?sz) 0)"
    using memset_spec [of "unat ?sz" "512 - unat ?sz" "take (unat ?sz) ?data @ drop (unat ?sz) b" 0] d b sz s sp up by auto
  have "minix_ReadFile u path b 512 d = do { o1 \<leftarrow> (if 0 < sint ?sz \<and> inode_zone d n 0 \<noteq> 0 then memcpy b 0 ?data 0 (unat ?sz) else Some b);
      o2 \<leftarrow> (if 0 < sint (512 - ?sz) then if sint ?sz < 0 then None else memset o1 (unat ?sz) 0 (unat (512 - ?sz)) else Some o1);
      Some (sint ?sz, o2) }"
    using entry fits_offset [OF fit] minix_GetInode_spec [OF d fit] inode_fields [OF d fit] by (simp add: minix_ReadFile_def Let_def count pad)
  then show ?thesis unfolding copy Option.bind.simps fill using small_int [OF sz] by simp
qed

text \<open>C35: Copying. A file of the root directory of at most 512 bytes, whose inode and zone are marked as used and whose data are not in
  a sector the system keeps for itself, is copied to a new name of the root directory: the copy has its size, and reading the
  copy gives the bytes of the original. The original is still there: its name leads to the same inode, which has the same size and, unless it is the one
  after the new inode, whose mode the creation clears, the same mode, and reading it gives the same bytes.\<close>

theorem CopyFile_copies:
  assumes d: "disk_ok d" "dir_ok (root d)" and u: "length u = 32" and b: "length b = 512"
    and paths: "root_path src a" "root_path dst c"
    and orig: "lookup (root d) a = m" "m \<noteq> 0" "fits m" "inode_zone d m 0 = y" "y \<noteq> 0" "inode_size d m = sz" "unat sz \<le> 512"
    and used: "TEST_BIT (sector_read 2 d) (unat m - 1)" "TEST_BIT (sector_read 3 d) (unat y)" "ucast y * 2 \<notin> {2, inode_sector n, 438}"
      "inode_sector m \<noteq> 438"
    and new: "lookup (root d) c = 0" "find_clear (sector_read 2 d) 2 4096 = Some k" "n = of_nat (k + 1)" "fits n"
      "free_slot (root d) = Some i" "inode_sector n \<noteq> 438"
    and z: "find_clear (sector_read 3 d) 0 4096 = Some z" "z \<noteq> 0" "z \<noteq> 219" "ucast (of_nat z :: u16) * 2 \<notin> {inode_sector n, inode_sector m}"
  shows "\<exists>d'. minix_CopyFile u b src dst d = Some (0, d') \<and> inode_size d' n = sz \<and>
    (\<forall>outp. unat sz \<le> length outp \<longrightarrow>
      minix_ReadFile u dst outp sz d' = Some (int (unat sz), take (unat sz) (sector_read (ucast y * 2) d) @ drop (unat sz) outp) \<and>
      minix_ReadFile u src outp sz d' = Some (int (unat sz), take (unat sz) (sector_read (ucast y * 2) d) @ drop (unat sz) outp)) \<and>
    lookup (root d') a = m \<and> inode_size d' m = sz \<and> inode_zone d' m 0 = y \<and> (m \<noteq> n + 1 \<longrightarrow> inode_mode d' m = inode_mode d m)"
proof -
  let ?data = "take (unat sz) (sector_read (ucast y * 2) d) @ replicate (512 - unat sz) 0"
  have rd: "minix_ReadFile u src b 512 d = Some (int (unat sz), ?data)"
    using ReadFile_whole [OF d(1) _ orig(3) _ _ b, of u src] root_find [OF d paths(1) u] orig by simp
  note names = root_names [OF paths(2) d(2)]
  obtain d1 where d1: "minix_CreateFile u dst d = Some (0, d1)" "disk_ok d1" "dir_ok (root d1)" "inode_size d1 n = 0" "inode_zone d1 n 0 = 0"
    "\<forall>x. lookup (root d1) x = (if x = c then n else lookup (root d) x)" "\<forall>l. l \<notin> {2, inode_sector n, 438} \<longrightarrow> d1 l = d l"
    using created_file [OF d(1) names u _ new(1-4) _ _ new(5)] new(6) by auto
  have nn: "n \<noteq> 0" "unat n < 4097" "unat n = k + 1" using new_inode_number [OF new(2)] new(3) by simp_all
  have look: "lookup (root d1) c = n" "lookup (root d1) a = m" using d1(6) orig(1,2) new(1) by auto
  have z4: "z < 4096" "\<not> TEST_BIT (sector_read 3 d) z" using z(1) by (auto simp: find_clear_Some)
  then have uz: "unat (of_nat z :: u16) = z" by (intro unat_of_nat_small) simp
  have "sector_read 3 d1 = sector_read 3 d" using d1(7) low_sectors(2) [of n] by (simp add: sector_read_def)
  then have tz: "target_zone d1 n = Some (of_nat z, sector_write 3 (SET_BIT (sector_read 3 d1) z) d1)" using z(1) d1(5) by (simp add: target_zone_def)
  have z0: "of_nat z \<noteq> (0 :: u16)" using uz z(2) by (metis unat_0)
  have "unat (ucast (of_nat z :: u16) * 2 :: u32) \<noteq> 438" unfolding unat_zone_sector uz using z(3) by presburger
  then have z438: "ucast (of_nat z :: u16) * 2 \<noteq> (438 :: u32)" by auto
  have zn: "ucast (of_nat z :: u16) * 2 \<noteq> inode_sector n" "ucast (of_nat z :: u16) * 2 \<noteq> inode_sector m" using z(4) by auto
  have len: "unat sz \<le> length ?data" using orig(7) d(1) by simp
  obtain d' where d': "minix_WriteFile u dst ?data sz d1 = Some (int (unat sz), d')"
    "\<forall>outp. unat sz \<le> length outp \<longrightarrow> minix_ReadFile u dst outp sz d' = Some (int (unat sz), take (unat sz) ?data @ drop (unat sz) outp)"
    "inode_size d' n = max (inode_size d1 n) sz" "\<forall>l. l \<notin> {3, inode_sector n, ucast (of_nat z :: u16) * 2} \<longrightarrow> d' l = d1 l" "disk_ok d'"
    "same_around (inode_offset n) (sector_read (inode_sector n) d1) (sector_read (inode_sector n) d')"
    using written_read [OF d1(2,3) u paths(2) look(1) new(4) nn(2) tz z0 z438 zn(1) orig(7) len] by blast
  have data: "take (unat sz) ?data = take (unat sz) (sector_read (ucast y * 2) d)" using orig(7) d(1) by simp
  have copy: "minix_CopyFile u b src dst d = Some (0, d')" using rd d1(1) d'(1) by (simp add: minix_CopyFile_def)
  \<comment> \<open>the original\<close>
  have old: "sector_read l d' = sector_read l d" if "l < 0x10000000" "l \<notin> {2, 3, inode_sector n, 438, ucast (of_nat z :: u16) * 2}" for l
    using that d'(4) d1(7) by (simp add: sector_read_def mask28)
  have mn: "m \<noteq> n"
  proof
    assume "m = n"
    then have "unat m - 1 = k" using nn(3) by simp
    then show False using used(1) new(2) by (simp add: find_clear_Some)
  qed
  have root: "root d' = root d1" using d'(4) new(6) z438 by (simp add: sector_read_def)
  have "same_around (inode_offset n) (sector_read (inode_sector n) d) (sector_read (inode_sector n) d1)"
    using created_inode_sector(1) [OF d(1) names u _ new(1-4) _ _ new(5) d1(1)] new(6) fits_offset [OF new(4)] d(1) put_inode_around by simp
  then have around: "same_around (inode_offset n) (sector_read (inode_sector n) d) (sector_read (inode_sector n) d')"
    using d'(6) same_around_trans by blast
  have other: "inode_sector m \<noteq> inode_sector n \<longrightarrow> sector_read (inode_sector m) d' = sector_read (inode_sector m) d"
    using old [of "inode_sector m"] low_sectors(1,2) [of m] inode_sector_small [of m] used(4) zn(2) by auto
  note kept = other_inode_kept [OF around other new(4) orig(3) mn]
  have "of_nat z \<noteq> y" using used(2) z4(2) uz by auto
  then have "unat y \<noteq> z" using uz by (auto simp: unat_eq_iff)
  then have "unat (ucast y * 2 :: u32) \<noteq> unat (ucast (of_nat z :: u16) * 2 :: u32)" "unat (ucast y * 2 :: u32) \<noteq> 3"
    unfolding unat_zone_sector uz by (simp, presburger)
  then have "ucast y * 2 \<noteq> (ucast (of_nat z :: u16) * 2 :: u32)" "ucast y * 2 \<noteq> (3 :: u32)" by auto
  then have ydata: "sector_read (ucast y * 2) d' = sector_read (ucast y * 2) d" using old [OF zone_small] used(3) by auto
  have entry: "FindEntry u src d' = Some m" using root_find [OF d'(5) _ paths(1) u] d1(3) look(2) root by simp
  have fields: "inode_size d' m = sz" "inode_zone d' m 0 = y" using kept(1,2) orig(4,6) by simp_all
  have "minix_ReadFile u src outp sz d' = Some (int (unat sz), take (unat sz) (sector_read (ucast y * 2) d) @ drop (unat sz) outp)"
    if "unat sz \<le> length outp" for outp
    using ReadFile_spec [OF d'(5) entry orig(3) _ orig(7) that] fields orig(5) ydata by simp
  then show ?thesis using copy data d'(2,3) d1(4) fields kept(3) root look(2) by (intro exI [of _ d']) simp
qed

section \<open>Examples\<close>

text \<open>A directory \<^verbatim>\<open>d\<close> in the root directory, and its deletion.\<close>

lemma example_dir_hyps:
  "names example_disk [47, 100, 0] 438 [100]" "fits 5" "(438 :: u32) \<noteq> inode_sector 5" "ucast (8 :: u16) * 2 \<noteq> inode_sector 5"
  by (rule root_names [OF example_path example_disk_ok(2)]) (simp_all add: fits_def inode_sector_def)

theorem CreateDir_outcome_witness:
  "\<exists>d'. minix_CreateDir example_u [47, 100, 0] example_disk = Some (0, d') \<and> lookup (root d') [100] = 5 \<and> resolve d' 438 [[100]] = 16 \<and>
     lookup (sector_read 16 d') [46] = 5"
proof -
  note h = example_dir_hyps
  show ?thesis
    using CreateDir_outcome [OF example_disk_ok(1) h(1) _ _ _ example_clear _ _ example_zone_clear _ refl _ _ _ _ _ example_slot, of example_u 5] h
    by (auto simp: example_lookup)
qed

text \<open>Two files created in that directory before it is deleted.\<close>

definition example_sub :: "disk \<Rightarrow> bool" where
  "example_sub d \<longleftrightarrow> disk_ok d \<and> root d = with_entry (root example_disk) 2 5 [100] \<and> inode_mode d 5 = 0x41ED \<and> inode_size d 5 = 64 \<and>
     inode_zone d 5 0 = 8 \<and> dir_ok (sector_read 16 d)"

lemma sub_root:
  assumes "example_sub d"
  shows "dir_ok (root d)" "lookup (root d) [100] = 5" "distinct_names (root d)" "\<forall>i < 16. ino (root d) i = 5 \<longrightarrow> ename (root d) i = [100]"
proof -
  have r: "root d = with_entry (root example_disk) 2 5 [100]" using assms by (simp add: example_sub_def)
  have b: "length (root example_disk) = 512" using example_disk_ok(1) by simp
  have ents: "ino (root d) i = (if i = 0 then 3 else if i = 1 then 4 else if i = 2 then 5 else 0)"
    "ename (root d) i = (if i = 0 then [97] else if i = 1 then [98] else if i = 2 then [100] else ename (replicate 512 0) i)" if "i < 16" for i
    unfolding r example_sectors using that by (simp_all add: ino_with_entry ename_with_entry zero_dir)
  show "distinct_names (root d)" unfolding distinct_names_def by (auto simp: ents split: if_splits)
  show "\<forall>i < 16. ino (root d) i = 5 \<longrightarrow> ename (root d) i = [100]" by (auto simp: ents split: if_splits)
  show "dir_ok (root d)" unfolding r by (rule dir_ok_with_entry [OF example_disk_ok(2)]) simp_all
  have "ino (root example_disk) 2 = 0" using free_slot_Some [OF example_slot] by blast
  then show "lookup (root d) [100] = 5" unfolding r using b by (subst lookup_enter) (simp_all add: example_lookup)
qed

lemma sub_names:
  assumes "example_sub d" and "x \<noteq> 0" and "x \<noteq> 47"
  shows "names d [47, 100, 47, x, 0] 16 [x]"
proof -
  have m: "(0x41ED :: u16) AND 0x4000 = 0x4000" by simp
  have c: "cstr [47, 100, 47, x, 0] = [47, 100, 47, x]" using assms(2) by (simp add: cstr_def)
  have "tokens {47} [47, 100 :: u8] = [[100]]" by (subst tokens.simps) (simp add: tokens.simps)
  then have p: "path_dirs [47, 100, 47, x] = [[100]]" "path_name [47, 100, 47, x] = [x]" using assms(3) by (simp_all add: path_dirs_def path_name_def)
  have f: "fits 5" by (simp add: fits_def)
  show ?thesis
    using assms(1,2) sub_root [OF assms(1)] f m by (simp add: names_def c p example_sub_def terminated_def Let_def)
qed

lemma sub_created:
  assumes d: "example_sub d" and x: "x \<noteq> 0" "x \<noteq> 47" and new: "lookup (sector_read 16 d) [x] = 0"
    and k: "find_clear (sector_read 2 d) 2 4096 = Some k" "5 \<le> k" "k < 15" and slot: "free_slot (sector_read 16 d) = Some i"
  shows "\<exists>d'. minix_CreateFile example_u [47, 100, 47, x, 0] d = Some (0, d') \<and> example_sub d' \<and>
    sector_read 2 d' = SET_BIT (sector_read 2 d) k \<and> sector_read 16 d' = with_entry (sector_read 16 d) i (of_nat (k + 1)) [x] \<and>
    (\<forall>y. lookup (sector_read 16 d') y = (if y = [x] then of_nat (k + 1) else lookup (sector_read 16 d) y))"
proof -
  let ?n = "of_nat (k + 1) :: u16"
  have nm: "names d [47, 100, 47, x, 0] 16 [x]" by (rule sub_names [OF d x])
  have ok: "disk_ok d" using d by (simp add: example_sub_def)
  have un: "unat ?n = k + 1" using new_inode_number [OF k(1)] by blast
  then have fit: "fits ?n" "fits 5" using k(3) by (simp_all add: fits_def)
  have sec: "inode_sector ?n = 10" "inode_sector 5 = 10" using un k(3) by (simp_all add: inode_sector_def)
  have five: "(5 :: u16) \<noteq> ?n" "5 \<noteq> ?n + 1"
  proof -
    show "5 \<noteq> ?n" using un k(2) by auto
    have "unat (?n + 1) = k + 2" using un k(3) by (subst unat_plus_small) simp_all
    then show "5 \<noteq> ?n + 1" using k(2) by auto
  qed
  have h: "length example_u = 32" "(16 :: u32) \<noteq> 0" "(16 :: u32) \<noteq> 2" "(16 :: u32) \<noteq> inode_sector ?n" using sec by simp_all
  obtain d' where d': "minix_CreateFile example_u [47, 100, 47, x, 0] d = Some (0, d')" "disk_ok d'" "dir_ok (sector_read 16 d')"
    "sector_read 2 d' = SET_BIT (sector_read 2 d) k"
    "\<forall>y. lookup (sector_read 16 d') y = (if y = [x] then ?n else lookup (sector_read 16 d) y)" "\<forall>l. l \<notin> {2, inode_sector ?n, 16} \<longrightarrow> d' l = d l"
    using created_file [OF ok nm h(1,2) new k(1) refl fit(1) h(3,4) slot] by blast
  note s = created_inode_sector [OF ok nm h(1,2) new k(1) refl fit(1) h(3,4) slot d'(1)]
  have "same_around (inode_offset ?n) (sector_read (inode_sector ?n) d) (sector_read (inode_sector ?n) d')"
    unfolding s(1) using fits_offset [OF fit(1)] ok by (intro put_inode_around) simp_all
  note kept = other_inode_kept [OF this _ fit five(1)]
  have "inode_mode d' 5 = inode_mode d 5" "inode_size d' 5 = inode_size d 5" "inode_zone d' 5 0 = inode_zone d 5 0"
    using kept five(2) sec by simp_all
  moreover have "root d' = root d" using d'(6) sec by (simp add: sector_read_def)
  ultimately have "example_sub d'" using d d'(2,3) by (simp add: example_sub_def)
  then show ?thesis using d'(1,4,5) s(2) by blast
qed

theorem DeleteDir_orphans_witness:
  "\<exists>d1 d2 d3 d4. minix_CreateDir example_u [47, 100, 0] example_disk = Some (0, d1) \<and>
     minix_CreateFile example_u [47, 100, 47, 101, 0] d1 = Some (0, d2) \<and> minix_CreateFile example_u [47, 100, 47, 103, 0] d2 = Some (0, d3) \<and>
     minix_DeleteDir example_u [47, 100, 0] d3 = Some (0, d4) \<and> lookup (root d4) [100] = 0 \<and>
     lookup (sector_read 16 d4) [101] = 6 \<and> \<not> TEST_BIT (d4 2) 5 \<and> lookup (sector_read 16 d4) [103] = 7 \<and> TEST_BIT (d4 2) 6"
proof -
  note h = example_dir_hyps
  obtain d1 where d1: "minix_CreateDir example_u [47, 100, 0] example_disk = Some (0, d1)" "disk_ok d1"
    "root d1 = with_entry (root example_disk) 2 5 [100]" "sector_read 2 d1 = SET_BIT (sector_read 2 example_disk) 4"
    "inode_mode d1 5 = 0x41ED" "inode_size d1 5 = 64" "inode_zone d1 5 0 = 8"
    "dir_ok (sector_read 16 d1)" "sector_read 16 d1 = empty_dir 5 (ino (root example_disk) 0)"
    "\<forall>x. lookup (sector_read 16 d1) x = (if x = [46] then 5 else if x = [46, 46] then ino (root example_disk) 0 else 0)"
    using created_dir [OF example_disk_ok(1) h(1) _ _ _ example_clear _ _ example_zone_clear _ refl _ _ _ _ _ example_slot, of example_u 5] h
    by (auto simp: example_lookup)
  have sub1: "example_sub d1" using d1 by (simp add: example_sub_def)
  have i3: "ino (root example_disk) 0 = 3" unfolding example_sectors by (simp add: ino_with_entry)
  have len: "length (sector_read 2 example_disk) = 512" using example_disk_ok(1) by simp
  have bits1: "TEST_BIT (sector_read 2 d1) j \<longleftrightarrow> j < 5" if "j < 4096" for j
    unfolding d1(4) using that len example_bits [OF that] by (auto simp: bits_simps)
  have c1: "find_clear (sector_read 2 d1) 2 4096 = Some 5" unfolding find_clear_Some by (auto simp: bits1)
  have ino1: "ino (sector_read 16 d1) j = (if j = 0 then 5 else if j = 1 then 3 else 0)" if "j < 16" for j
    unfolding d1(9) i3 empty_dir_def using that by (simp add: ino_with_entry zero_dir)
  have s1: "free_slot (sector_read 16 d1) = Some 2" unfolding free_slot_def find_upt_Some by (auto simp: ino1)
  obtain d2 where d2: "minix_CreateFile example_u [47, 100, 47, 101, 0] d1 = Some (0, d2)" "example_sub d2"
    "sector_read 2 d2 = SET_BIT (sector_read 2 d1) 5" "sector_read 16 d2 = with_entry (sector_read 16 d1) 2 (of_nat (5 + 1)) [101]"
    "\<forall>y. lookup (sector_read 16 d2) y = (if y = [101] then of_nat (5 + 1) else lookup (sector_read 16 d1) y)"
    using sub_created [OF sub1 _ _ _ c1 _ _ s1, of 101] d1(10) by auto
  have bits2: "TEST_BIT (sector_read 2 d2) j \<longleftrightarrow> j < 6" if "j < 4096" for j
    unfolding d2(3) using that d1(2) bits1 [OF that] by (auto simp: bits_simps)
  have c2: "find_clear (sector_read 2 d2) 2 4096 = Some 6" unfolding find_clear_Some by (auto simp: bits2)
  have ino2: "ino (sector_read 16 d2) j = (if j = 2 then 6 else ino (sector_read 16 d1) j)" if "j < 16" for j
    unfolding d2(4) using that d1(2) by (simp add: ino_with_entry)
  have s2: "free_slot (sector_read 16 d2) = Some 3" unfolding free_slot_def find_upt_Some by (auto simp: ino1 ino2)
  have "lookup (sector_read 16 d2) [103] = 0" using d2(5) d1(10) by simp
  then obtain d3 where d3: "minix_CreateFile example_u [47, 100, 47, 103, 0] d2 = Some (0, d3)" "example_sub d3"
    "sector_read 2 d3 = SET_BIT (sector_read 2 d2) 6"
    "\<forall>y. lookup (sector_read 16 d3) y = (if y = [103] then of_nat (6 + 1) else lookup (sector_read 16 d2) y)"
    using sub_created [OF d2(2) _ _ _ c2 _ _ s2, of 103] by auto
  have ok3: "disk_ok d3" "inode_mode d3 5 = 0x41ED" "inode_size d3 5 = 64" "inode_zone d3 5 0 = 8" using d3(2) by (simp_all add: example_sub_def)
  have bits3: "TEST_BIT (d3 2) 6"
  proof -
    have "length (sector_read 2 d2) = 512" using d2(2) by (simp add: example_sub_def)
    moreover have "d3 2 = SET_BIT (sector_read 2 d2) 6" using d3(3) by (simp add: sector_read_def)
    ultimately show ?thesis by (simp add: bits_simps)
  qed
  have look3: "lookup (sector_read 16 d3) [101] = 6" "lookup (sector_read 16 d3) [103] = 7" using d3(4) d2(5) by simp_all
  note r = sub_root [OF d3(2)]
  have n: "names d3 [47, 100, 0] 438 [100]" by (rule root_names [OF example_path r(1)]) simp_all
  have dots: "\<not> dots [100]" by (simp add: dots_def)
  have m: "inode_mode d3 5 AND 0x4000 = 0x4000" "inode_size d3 5 \<le> 64" "unat (5 :: u16) < 4096" "unat (8 :: u16) < 4096"
    "ucast (8 :: u16) * 2 \<notin> {2, inode_sector 5, 438 :: u32}" "(5 :: u16) \<noteq> 0" "(8 :: u16) \<noteq> 0" "(438 :: u32) \<noteq> 0" "(438 :: u32) \<noteq> 2" "(438 :: u32) \<noteq> 3"
    "length example_u = 32"
    using ok3 by (simp_all add: inode_sector_def)
  obtain d4 where d4: "minix_DeleteDir example_u [47, 100, 0] d3 = Some (0, d4)" "lookup (root d4) [100] = 0"
    and files: "\<And>x f. lookup (sector_read (ucast (8 :: u16) * 2) d3) x = f \<and> f \<noteq> 0 \<and> f \<noteq> 5 \<and> fits f \<and> unat f \<le> 4096 \<and> inode_sector f \<noteq> 438 \<Longrightarrow>
      lookup (sector_read (ucast (8 :: u16) * 2) d4) x = f \<and>
      (if f = 5 + 1 then \<not> TEST_BIT (d4 2) (unat f - 1) else TEST_BIT (d4 2) (unat f - 1) \<longleftrightarrow> TEST_BIT (d3 2) (unat f - 1))"
    using DeleteDir_orphans [OF ok3(1) n m(11) m(8) dots r(2) m(6) h(2) m(3) m(1,2) ok3(4) m(7,4,5) r(3,4) m(9,10) h(3)]
    by (elim exE conjE) (rule that, assumption, simp, fastforce split: if_splits)
  have f67: "fits 6" "fits 7" "inode_sector 6 \<noteq> 438" "inode_sector 7 \<noteq> 438" by (simp_all add: fits_def inode_sector_def)
  have "lookup (sector_read 16 d4) [101] = 6 \<and> \<not> TEST_BIT (d4 2) 5" using files [of "[101]" 6] look3 f67 by simp
  moreover have "lookup (sector_read 16 d4) [103] = 7 \<and> TEST_BIT (d4 2) 6" using files [of "[103]" 7] look3 f67 bits3 by simp
  ultimately show ?thesis using d1(1) d2(1) d3(1) d4 by blast
qed

text \<open>The example disk with 64 bytes in zone 7 for the file \<^verbatim>\<open>a\<close>.\<close>

definition example_full :: disk where
  "example_full = sector_write (inode_sector 3) (put_inode (replicate 512 0) (inode_offset 3) (dir_image 7)) example_disk"

theorem CopyFile_copies_witness:
  "\<exists>d'. minix_CopyFile example_u (replicate 512 1) [47, 97, 0] [47, 99, 0] example_full = Some (0, d') \<and> inode_size d' 5 = 64 \<and>
     lookup (root d') [97] = 3 \<and> inode_zone d' 3 0 = 7"
proof -
  have s3: "inode_sector 3 = 10" "inode_offset 3 = 64" "inode_sector 5 = 10" "inode_sector 5 \<noteq> 438" "ucast (of_nat 8 :: u16) * 2 \<noteq> inode_sector 5"
    by (simp_all add: inode_sector_def inode_offset_def)
  have f: "fits 3" "fits 5" by (simp_all add: fits_def)
  have ok: "disk_ok example_full" unfolding example_full_def s3 by (rule disk_ok_write [OF example_disk_ok(1)]) simp
  have same: "sector_read l example_full = sector_read l example_disk" if "l \<in> {2, 3, 438}" for l
    using that by (auto simp: example_full_def s3 read_write_other)
  have img: "inode_bytes example_full 3 = dir_image 7"
    unfolding example_full_def by (rule inode_written [OF _ f(1)]) simp_all
  have fld: "inode_zone example_full 3 0 = 7" "inode_size example_full 3 = 64"
    using img by (simp_all add: inode_zone_def inode_size_def dir_image_fields)
  have root: "root example_full = root example_disk" "dir_ok (root example_full)" using same example_disk_ok(2) by simp_all
  have p: "root_path [47, 97, 0] [97]" "root_path [47, 99, 0] [99]" by (rule example_path, simp_all)+
  have used: "TEST_BIT (sector_read 2 example_full) (unat (3 :: u16) - 1)" "TEST_BIT (sector_read 3 example_full) (unat (7 :: u16))"
    using same example_bits [of 2] example_zone_clear by (simp_all add: find_clear_Some)
  have y: "ucast (7 :: u16) * 2 \<notin> {2, inode_sector 5, 438 :: u32}" "inode_sector 3 \<noteq> 438"
    "ucast (of_nat 8 :: u16) * 2 \<notin> {inode_sector 5, inode_sector 3}" by (simp_all add: inode_sector_def)
  have h: "lookup (root example_full) [97] = 3" "lookup (root example_full) [99] = 0" "find_clear (sector_read 2 example_full) 2 4096 = Some 4"
    "free_slot (root example_full) = Some 2" "find_clear (sector_read 3 example_full) 0 4096 = Some 8"
    using root same example_lookup example_clear example_slot example_zone_clear by simp_all
  show ?thesis
    using CopyFile_copies [OF ok root(2) _ _ p h(1) _ f(1) fld(1) _ fld(2) _ used y(1,2) h(2,3) _ f(2) h(4) s3(4) h(5) _ _ y(3),
        of example_u "replicate 512 1"] by auto
qed

end
