(* ===== verification/Vfs.thy ===== *)
theory Vfs
  imports MinixFile
begin

text \<open>
  The virtual file system of \<^verbatim>\<open>kernel/fs/vfs.c\<close>: the table of operations of \<^verbatim>\<open>include/LySys/vfs.h\<close>, the
  table of the Minix driver in \<^verbatim>\<open>kernel/fs/minix/fs.c\<close>, and the functions that call through it. A contract of all
  operations on the disk is stated as a locale and discharged for the Minix driver.
\<close>

section \<open>The table of operations\<close>

text \<open>\<^verbatim>\<open>struct filesystem\<close>. An operation on the disk also takes what the arrays it leaves uninitialised on the stack hold.\<close>

type_synonym stack_junk = "u8 list \<times> u8 list"

record filesystem =
  fs_name :: string
  ReadFile_op :: "stack_junk \<Rightarrow> u8 list \<Rightarrow> u8 list \<Rightarrow> u32 \<Rightarrow> disk \<Rightarrow> (int \<times> u8 list) option"
  WriteFile_op :: "stack_junk \<Rightarrow> u8 list \<Rightarrow> u8 list \<Rightarrow> u32 \<Rightarrow> disk \<Rightarrow> (int \<times> disk) option"
  CreateFile_op :: "stack_junk \<Rightarrow> u8 list \<Rightarrow> disk \<Rightarrow> (int \<times> disk) option"
  DeleteFile_op :: "stack_junk \<Rightarrow> u8 list \<Rightarrow> disk \<Rightarrow> (int \<times> disk) option"
  RenameFile_op :: "stack_junk \<Rightarrow> u8 list \<Rightarrow> u8 list \<Rightarrow> disk \<Rightarrow> (int \<times> disk) option"
  CopyFile_op :: "stack_junk \<Rightarrow> u8 list \<Rightarrow> u8 list \<Rightarrow> disk \<Rightarrow> (int \<times> disk) option"
  CreateDir_op :: "stack_junk \<Rightarrow> u8 list \<Rightarrow> disk \<Rightarrow> (int \<times> disk) option"
  DeleteDir_op :: "stack_junk \<Rightarrow> u8 list \<Rightarrow> disk \<Rightarrow> (int \<times> disk) option"
  ListDir_op :: "stack_junk \<Rightarrow> u8 list option \<Rightarrow> disk \<Rightarrow> print_call list option"
  fs_init_op :: "disk \<Rightarrow> (int \<times> minix2_superblock \<times> print_call list) option"

definition minix_driver :: filesystem where
  "minix_driver = \<lparr>fs_name = ''minix2'',
     ReadFile_op = (\<lambda>(u, _). minix_ReadFile u),
     WriteFile_op = (\<lambda>(u, _). minix_WriteFile u),
     CreateFile_op = (\<lambda>(u, _). minix_CreateFile u),
     DeleteFile_op = (\<lambda>(u, _). minix_DeleteFile u),
     RenameFile_op = (\<lambda>(u, _). minix_RenameFile u),
     CopyFile_op = (\<lambda>(u, data_buffer). minix_CopyFile u data_buffer),
     CreateDir_op = (\<lambda>(u, _). minix_CreateDir u),
     DeleteDir_op = (\<lambda>(u, _). minix_DeleteDir u),
     ListDir_op = (\<lambda>(u, _). minix_ListDir u),
     fs_init_op = minixfs_init\<rparr>"

text \<open>\<^verbatim>\<open>active_fs\<close>, which no code assigns.\<close>

definition active_fs :: filesystem where
  "active_fs = minix_driver"

definition ListDir :: "stack_junk \<Rightarrow> u8 list option \<Rightarrow> disk \<Rightarrow> print_call list option" where
  "ListDir j name d = ListDir_op active_fs j name d"

definition CreateFile :: "stack_junk \<Rightarrow> u8 list \<Rightarrow> disk \<Rightarrow> (int \<times> disk) option" where
  "CreateFile j name d = CreateFile_op active_fs j name d"

definition DeleteFile :: "stack_junk \<Rightarrow> u8 list \<Rightarrow> disk \<Rightarrow> (int \<times> disk) option" where
  "DeleteFile j name d = DeleteFile_op active_fs j name d"

definition ReadFile :: "stack_junk \<Rightarrow> u8 list \<Rightarrow> u8 list \<Rightarrow> u32 \<Rightarrow> disk \<Rightarrow> (int \<times> u8 list) option" where
  "ReadFile j name output count d = ReadFile_op active_fs j name output count d"

definition WriteFile :: "stack_junk \<Rightarrow> u8 list \<Rightarrow> u8 list \<Rightarrow> u32 \<Rightarrow> disk \<Rightarrow> (int \<times> disk) option" where
  "WriteFile j name input count d = WriteFile_op active_fs j name input count d"

definition RenameFile :: "stack_junk \<Rightarrow> u8 list \<Rightarrow> u8 list \<Rightarrow> disk \<Rightarrow> (int \<times> disk) option" where
  "RenameFile j old_name new_name d = RenameFile_op active_fs j old_name new_name d"

definition CopyFile :: "stack_junk \<Rightarrow> u8 list \<Rightarrow> u8 list \<Rightarrow> disk \<Rightarrow> (int \<times> disk) option" where
  "CopyFile j source dest d = CopyFile_op active_fs j source dest d"

definition fs_init :: "disk \<Rightarrow> (int \<times> minix2_superblock \<times> print_call list) option" where
  "fs_init d = minixfs_init d"

section \<open>Calls\<close>

text \<open>A call of the interface, with the directory operations reached through the table alone. Reading leaves the disk alone.\<close>

datatype vfs_call = Create "u8 list" | Delete "u8 list" | Read "u8 list" "u8 list" u32 | Write "u8 list" "u8 list" u32
  | Rename "u8 list" "u8 list" | Copy "u8 list" "u8 list" | MakeDir "u8 list" | RemoveDir "u8 list" | List "u8 list option"

fun vfs_run :: "stack_junk \<Rightarrow> vfs_call \<Rightarrow> disk \<Rightarrow> (int \<times> disk) option" where
  "vfs_run j (Create name) d = CreateFile j name d"
| "vfs_run j (Delete name) d = DeleteFile j name d"
| "vfs_run j (Read name output count) d = map_option (\<lambda>(r, _). (r, d)) (ReadFile j name output count d)"
| "vfs_run j (Write name input count) d = WriteFile j name input count d"
| "vfs_run j (Rename old_name new_name) d = RenameFile j old_name new_name d"
| "vfs_run j (Copy source dest) d = CopyFile j source dest d"
| "vfs_run j (MakeDir name) d = CreateDir_op active_fs j name d"
| "vfs_run j (RemoveDir name) d = DeleteDir_op active_fs j name d"
| "vfs_run j (List name) d = map_option (\<lambda>_. (0, d)) (ListDir j name d)"

text \<open>The answers a call can give, and those that refuse it.\<close>

fun answers :: "vfs_call \<Rightarrow> int set" where
  "answers (Create _) = {0, err EEXIST, err ENOENT, err ENOSPC}"
| "answers (Delete _) = {0, err ENOENT, err EACCES}"
| "answers (Read _ _ count) = {err ENOENT} \<union> {- (2 ^ 31) ..< 2 ^ 31}"
| "answers (Write _ _ _) = {err ENOENT, err ENOSPC} \<union> {0..512}"
| "answers (Rename _ _) = {0, err ENOENT, err EEXIST, err ENOSPC}"
| "answers (Copy _ _) = {0, - 1, err ENOENT, err EEXIST, err ENOSPC}"
| "answers (MakeDir _) = {0, err EEXIST, err ENOENT, err ENOSPC}"
| "answers (RemoveDir _) = {0, err ENOENT, err EPERM, err ENOTDIR}"
| "answers (List _) = {0}"

fun refusals :: "vfs_call \<Rightarrow> int set" where
  "refusals (Read _ _ _) = UNIV"
| "refusals (List _) = UNIV"
| "refusals (RemoveDir _) = {err ENOENT, err EPERM, err ENOTDIR}"
| "refusals (Write _ _ _) = {err ENOENT, err ENOSPC}"
| "refusals _ = {err EEXIST, err ENOENT, err EACCES}"

section \<open>The contract\<close>

text \<open>The answers of a sequence of calls and the state after it.\<close>

fun history :: "('c \<Rightarrow> 'd \<Rightarrow> (int \<times> 'd) option) \<Rightarrow> 'c list \<Rightarrow> 'd \<Rightarrow> (int list \<times> 'd) option" where
  "history run [] d = Some ([], d)"
| "history run (c # cs) d = do { (r, d1) \<leftarrow> run c d; (rs, d2) \<leftarrow> history run cs d1; Some (r # rs, d2) }"

text \<open>What any run of the calls of a file system keeps: an invariant of the storage; a call answers one of its codes; a refused call
  changes nothing.\<close>

locale file_system =
  fixes run :: "'c \<Rightarrow> 'd \<Rightarrow> (int \<times> 'd) option"
    and ok :: "'d \<Rightarrow> bool"
    and codes :: "'c \<Rightarrow> int set"
    and refused :: "'c \<Rightarrow> int set"
  assumes keeps: "ok d \<Longrightarrow> run c d = Some (r, d') \<Longrightarrow> ok d'"
    and answer: "ok d \<Longrightarrow> run c d = Some (r, d') \<Longrightarrow> r \<in> codes c"
    and unchanged: "ok d \<Longrightarrow> run c d = Some (r, d') \<Longrightarrow> r \<in> refused c \<Longrightarrow> d' = d"
begin

lemma history_keeps: "ok d \<Longrightarrow> history run cs d = Some (rs, d') \<Longrightarrow> ok d' \<and> list_all2 (\<lambda>c r. r \<in> codes c) cs rs"
proof (induction cs arbitrary: d rs)
  case (Cons c cs)
  then obtain r d1 rs1 where "run c d = Some (r, d1)" "history run cs d1 = Some (rs1, d')" "rs = r # rs1"
    by (auto simp: bind_eq_Some_conv)
  then show ?case using Cons.IH [of d1 rs1] keeps [OF Cons.prems(1)] answer [OF Cons.prems(1)] by auto
qed simp

lemma history_refused:
  "ok d \<Longrightarrow> history run cs d = Some (rs, d') \<Longrightarrow> list_all2 (\<lambda>c r. r \<in> refused c) cs rs \<Longrightarrow> d' = d"
proof (induction cs arbitrary: d rs)
  case (Cons c cs)
  then obtain r d1 rs1 where "run c d = Some (r, d1)" "history run cs d1 = Some (rs1, d')" "rs = r # rs1"
    by (auto simp: bind_eq_Some_conv)
  moreover have "d1 = d" using unchanged [OF Cons.prems(1)] calculation Cons.prems(3) by auto
  ultimately show ?case using Cons by auto
qed simp

end

section \<open>The Minix driver keeps the contract\<close>

text \<open>\<open>lands A R d x\<close>: if the operation returns, the disk is sound, the answer is in \<open>A\<close>, and one in \<open>R\<close> means that the disk is
  still \<open>d\<close>. The rules follow the structure of the operations.\<close>

named_theorems lands_intro

definition lands :: "int set \<Rightarrow> int set \<Rightarrow> disk \<Rightarrow> (int \<times> disk) option \<Rightarrow> bool" where
  "lands A R d x \<longleftrightarrow> (\<forall>r d'. x = Some (r, d') \<longrightarrow> disk_ok d' \<and> r \<in> A \<and> (r \<in> R \<longrightarrow> d' = d))"

lemma lands_bind [lands_intro]: "(\<And>y. x = Some y \<Longrightarrow> lands A R d (f y)) \<Longrightarrow> lands A R d (Option.bind x f)"
  by (cases x) (auto simp: lands_def)

lemma lands_if [lands_intro]: "(c \<Longrightarrow> lands A R d x) \<Longrightarrow> (\<not> c \<Longrightarrow> lands A R d y) \<Longrightarrow> lands A R d (if c then x else y)"
  by simp

lemma lands_option [lands_intro]: "(x = None \<Longrightarrow> lands A R d y) \<Longrightarrow> (\<And>z. x = Some z \<Longrightarrow> lands A R d (f z)) \<Longrightarrow>
    lands A R d (case x of None \<Rightarrow> y | Some z \<Rightarrow> f z)"
  by (cases x) auto

lemma lands_pair [lands_intro]: "(\<And>a b. p = (a, b) \<Longrightarrow> lands A R d (f a b)) \<Longrightarrow> lands A R d (case p of (a, b) \<Rightarrow> f a b)"
  by (cases p) auto

lemma lands_let [lands_intro]: "lands A R d (f x) \<Longrightarrow> lands A R d (let y = x in f y)"
  by simp

lemma lands_None [lands_intro]: "lands A R d None"
  by (simp add: lands_def)

lemma lands_Some [lands_intro]: "disk_ok d' \<Longrightarrow> r \<in> A \<Longrightarrow> (r \<in> R \<Longrightarrow> d' = d) \<Longrightarrow> lands A R d (Some (r, d'))"
  by (simp add: lands_def)

text \<open>No array changes its length.\<close>

lemma memset_length: "memset dest i val n = Some b \<Longrightarrow> length b = length dest"
  by (induction dest i val n rule: memset.induct) (auto split: option.splits)

lemma memcpy_length: "memcpy dest i src s n = Some b \<Longrightarrow> length b = length dest"
  by (induction dest i src s n rule: memcpy.induct) (auto split: option.splits)

lemma strncpy_copy_length: "strncpy_copy dest src n i = Some (k, b) \<Longrightarrow> length b = length dest"
proof (induction dest src n i rule: strncpy_copy.induct)
  case (1 dest src n i)
  from 1(2) [unfolded strncpy_copy.simps [of dest src n i]] 1(1) show ?case by (auto split: if_splits option.splits)
qed

lemma strncpy_fill_length: "strncpy_fill dest n i = Some b \<Longrightarrow> length b = length dest"
proof (induction dest n i rule: strncpy_fill.induct)
  case (1 dest n i)
  from 1(2) [unfolded strncpy_fill.simps [of dest n i]] 1(1) show ?case by (auto split: if_splits option.splits)
qed

lemma strncpy_length: "strncpy dest src n = Some b \<Longrightarrow> length b = length dest"
  by (auto simp: strncpy_def bind_eq_Some_conv split: option.splits dest!: strncpy_copy_length strncpy_fill_length)

lemma put_512:
  "put16 b p v = Some b' \<Longrightarrow> length b = 512 \<Longrightarrow> length b' = 512"
  "memset b p x n = Some b' \<Longrightarrow> length b = 512 \<Longrightarrow> length b' = 512"
  "memcpy b p s q n = Some b' \<Longrightarrow> length b = 512 \<Longrightarrow> length b' = 512"
  by (auto simp: put16_def dest: buf_put_length memset_length memcpy_length)

lemma entry_512:
  "set_entry_inode b i m = Some b' \<Longrightarrow> length b = 512 \<Longrightarrow> length b' = 512"
  "set_entry_name b i nm = Some b' \<Longrightarrow> i < 16 \<Longrightarrow> length b = 512 \<Longrightarrow> length b' = 512"
  "clear_entry_name b i = Some b' \<Longrightarrow> length b = 512 \<Longrightarrow> length b' = 512"
  by (auto simp: set_entry_inode_def put16_def set_entry_name_def entry_name_def clear_entry_name_def
      dest: buf_put_length strncpy_length memset_length)

lemma inode_512:
  "fresh_inode b p m s l = Some b' \<Longrightarrow> length b = 512 \<Longrightarrow> length b' = 512"
  "free_zones zs b p d = Some (b', d') \<Longrightarrow> length b = 512 \<Longrightarrow> length b' = 512"
proof -
  show "fresh_inode b p m s l = Some b' \<Longrightarrow> length b = 512 \<Longrightarrow> length b' = 512"
    by (auto simp: fresh_inode_def bind_eq_Some_conv put8_def put16_def put32_def dest!: buf_put_length memset_length)
  show "free_zones zs b p d = Some (b', d') \<Longrightarrow> length b = 512 \<Longrightarrow> length b' = 512"
    by (induction zs b p d rule: free_zones.induct) (auto simp: bind_eq_Some_conv put_512 split: if_splits)
qed

lemma bitmap_keeps:
  "clear_bit_in l n d = Some d' \<Longrightarrow> disk_ok d \<Longrightarrow> disk_ok d'"
  "minix_AllocateInode d = (m, d') \<Longrightarrow> disk_ok d \<Longrightarrow> disk_ok d'"
  "allocate_zone d = Some (z, d') \<Longrightarrow> disk_ok d \<Longrightarrow> disk_ok d'"
  by (auto simp: clear_bit_in_def minix_AllocateInode_def allocate_zone_def Let_def disk_ok_write split: if_splits option.splits)

lemma FreeZone_keeps: "FreeZone z d = Some d' \<Longrightarrow> disk_ok d \<Longrightarrow> disk_ok d'"
  by (auto simp: FreeZone_def bitmap_keeps split: if_splits)

lemma free_zones_keeps: "free_zones zs b p d = Some (b', d') \<Longrightarrow> disk_ok d \<Longrightarrow> disk_ok d'"
  by (induction zs b p d rule: free_zones.induct) (auto simp: bind_eq_Some_conv FreeZone_keeps split: if_splits)

lemma dir_find_index: "dir_find b nm i = Some (Some k) \<Longrightarrow> k < 16"
proof (induction b nm i rule: dir_find.induct)
  case (1 b nm i)
  from 1(3) [unfolded dir_find.simps [of b nm i]] 1(1-2) show ?case by (auto simp: bind_eq_Some_conv split: if_splits)
qed

lemma dir_inode_index: "dir_inode b no i = Some (Some k) \<Longrightarrow> k < 16"
proof (induction b no i rule: dir_inode.induct)
  case (1 b no i)
  from 1(2) [unfolded dir_inode.simps [of b no i]] 1(1) show ?case by (auto simp: bind_eq_Some_conv split: if_splits)
qed

lemma lands_mono: "lands A' R' d x \<Longrightarrow> A' \<subseteq> A \<Longrightarrow> A' \<inter> R \<subseteq> R' \<Longrightarrow> lands A R d x"
  unfolding lands_def by blast

lemma remove_entry_keeps: "remove_entry s i d = Some d' \<Longrightarrow> disk_ok d \<Longrightarrow> disk_ok d'"
  unfolding remove_entry_def bind_eq_Some_conv
  by (elim exE conjE) (simp, hypsubst_thin?, (erule entry_512 | rule disk_ok_write | assumption | simp)+)

lemma dot_entries_512: "dot_entries n m = Some b \<Longrightarrow> length b = 512"
  unfolding dot_entries_def bind_eq_Some_conv by (elim exE conjE) (erule entry_512 | simp)+

lemma ensure_zone_keeps:
  "ensure_zone b p d = Some (Some (b', d')) \<Longrightarrow> disk_ok d \<Longrightarrow> disk_ok d'"
  "ensure_zone b p d = Some (Some (b', d')) \<Longrightarrow> length b = 512 \<Longrightarrow> length b' = 512"
  by (auto simp: ensure_zone_def bind_eq_Some_conv bitmap_keeps put_512 split: if_splits option.splits)

lemmas keeps = disk_ok_write length_sector
lemmas keeps_from = dir_find_index dir_inode_index put_512 entry_512 inode_512 bitmap_keeps FreeZone_keeps free_zones_keeps remove_entry_keeps dot_entries_512 ensure_zone_keeps

lemma enter_name_lands: "disk_ok d1 \<Longrightarrow> lands {0, err ENOSPC} {} d (enter_name s n f d1)"
  unfolding enter_name_def
  by (intro lands_intro; (simp; fail | hypsubst_thin?, (erule keeps_from | rule keeps | assumption)+ | auto; fail))

lemma CreateFile_lands: "disk_ok d \<Longrightarrow> lands (answers (Create nm)) (refusals (Create nm)) d (minix_CreateFile u nm d)"
  unfolding minix_CreateFile_def
  by (intro lands_intro lands_mono [OF enter_name_lands]; (simp; fail | hypsubst_thin?, (erule keeps_from | rule keeps | assumption)+ | auto; fail))

lemma DeleteFile_lands: "disk_ok d \<Longrightarrow> lands (answers (Delete nm)) (refusals (Delete nm)) d (minix_DeleteFile u nm d)"
  unfolding minix_DeleteFile_def
  by (intro lands_intro; (simp; fail | hypsubst_thin?, (erule keeps_from | rule keeps | assumption)+ | auto; fail))

lemma RenameFile_lands: "disk_ok d \<Longrightarrow> lands (answers (Rename nm nm')) (refusals (Rename nm nm')) d (minix_RenameFile u nm nm' d)"
  unfolding minix_RenameFile_def
  by (intro lands_intro lands_mono [OF enter_name_lands]; (simp; fail | hypsubst_thin?, (erule keeps_from | rule keeps | assumption)+ | auto; fail))

lemma CreateDir_lands: "disk_ok d \<Longrightarrow> lands (answers (MakeDir nm)) (refusals (MakeDir nm)) d (minix_CreateDir u nm d)"
  unfolding minix_CreateDir_def
  by (intro lands_intro lands_mono [OF enter_name_lands]; (simp; fail | hypsubst_thin?, (erule keeps_from | rule keeps | assumption)+ | auto; fail))

lemma DeleteDir_lands: "disk_ok d \<Longrightarrow> lands (answers (RemoveDir nm)) (refusals (RemoveDir nm)) d (minix_DeleteDir u nm d)"
  unfolding minix_DeleteDir_def
  by (intro lands_intro; (simp; fail | hypsubst_thin?, (erule keeps_from | rule keeps | assumption)+ | auto; fail))

lemma to_write_range:
  assumes "(if sint (if 512 < sint (count :: u32) then 512 else count) < 0 then None else x) = Some y"
  shows "sint (if 512 < sint count then 512 else count) \<in> {0..512}"
  using assms by (auto split: if_splits)

lemma WriteFile_lands:
  assumes "disk_ok d"
  shows "lands (answers (Write nm inp count)) (refusals (Write nm inp count)) d (minix_WriteFile u nm inp count d)"
proof -
  have 1: "sint (if 512 < sint count then 512 else count) \<in> answers (Write nm inp count)"
      "sint (if 512 < sint count then 512 else count) \<in> refusals (Write nm inp count) \<Longrightarrow> P"
    if "(if sint (if 512 < sint count then 512 else count) < 0 then None else x) = Some y" for x P and y :: "u8 list"
    using to_write_range [OF that] by auto
  have 2: "length b' = 512" if "(if c then None else memcpy (replicate 512 0) 0 s 0 n) = Some b'" for c b' and s :: "u8 list" and n
    using that put_512(3) [of "replicate 512 0"] by (auto split: if_splits)
  have 3: "length b' = 512" if "(if c then put32 b q v else Some b) = Some b'" "length b = 512" for c b b' q and v :: u32
    using that by (auto simp: put32_def dest: buf_put_length split: if_splits)
  show ?thesis
    unfolding minix_WriteFile_def
    by (insert assms) (intro lands_intro;
      (simp; fail | hypsubst_thin?, (erule keeps_from 2 3 | rule keeps | assumption)+ | erule (1) 1 | erule 1(1)))
qed

lemma ReadFile_answer:
  assumes "minix_ReadFile u nm outp count d = Some (r, outp')"
  shows "r \<in> answers (Read nm outp count)" and "length outp' = length outp" and "count = 512 \<Longrightarrow> r = err ENOENT \<or> 0 \<le> r \<and> r \<le> 512"
proof -
  obtain n where n: "FindEntry u nm d = Some n" using assms by (auto simp: minix_ReadFile_def bind_eq_Some_conv)
  show "r \<in> answers (Read nm outp count)"
  proof (cases "n = 0")
    case False
    have range: "sint (x :: u32) \<in> {- (2 ^ 31) ..< 2 ^ 31}" for x using sint_lt [of x] sint_ge [of x] by simp
    obtain sz where "r = sint (if sz < count then sz else count)"
      using assms n False by (auto simp: minix_ReadFile_def bind_eq_Some_conv Let_def)
    then show ?thesis using range by simp
  qed (use assms n in \<open>simp add: minix_ReadFile_def\<close>)
  show "length outp' = length outp"
    using assms n by (auto simp: minix_ReadFile_def bind_eq_Some_conv Let_def split: if_splits dest!: memset_length memcpy_length)
  assume count: "count = 512"
  show "r = err ENOENT \<or> 0 \<le> r \<and> r \<le> 512"
  proof (cases "n = 0")
    case False
    obtain sz where sz: "r = sint (if sz < count then sz else count)"
      using assms n False by (auto simp: minix_ReadFile_def bind_eq_Some_conv Let_def)
    have "unat (if sz < count then sz else count) \<le> 512" using count by (simp add: word_less_nat_alt)
    then show ?thesis using small_int [of "if sz < count then sz else count"] sz by simp
  qed (use assms n in \<open>simp add: minix_ReadFile_def\<close>)
qed

lemma CopyFile_lands:
  assumes "disk_ok d"
  shows "lands (answers (Copy nm nm')) (refusals (Copy nm nm')) d (minix_CopyFile u b nm nm' d)"
  unfolding lands_def
proof (intro allI impI)
  fix r d'
  assume run: "minix_CopyFile u b nm nm' d = Some (r, d')"
  obtain n data where rd: "minix_ReadFile u nm b 512 d = Some (n, data)" using run by (auto simp: minix_CopyFile_def bind_eq_Some_conv)
  show "disk_ok d' \<and> r \<in> answers (Copy nm nm') \<and> (r \<in> refusals (Copy nm nm') \<longrightarrow> d' = d)"
  proof (cases "n < 0")
    case True
    then have "r = err ENOENT" "d' = d" using run rd ReadFile_answer(3) [OF rd] by (auto simp: minix_CopyFile_def)
    then show ?thesis using assms by simp
  next
    case False
    obtain res d1 where c: "minix_CreateFile u nm' d = Some (res, d1)" using run rd False by (auto simp: minix_CopyFile_def bind_eq_Some_conv)
    then have c': "disk_ok d1" "res \<in> answers (Create nm')" "res \<in> refusals (Create nm') \<Longrightarrow> d1 = d"
      using CreateFile_lands [OF assms, of nm' u] unfolding lands_def by blast+
    show ?thesis
    proof (cases "res = 0")
      case True
      then obtain k where k: "minix_WriteFile u nm' data (of_int n) d1 = Some (k, d')" "r = (if k \<noteq> n then - 1 else 0)"
        using run rd False c by (auto simp: minix_CopyFile_def bind_eq_Some_conv split: if_splits)
      have "disk_ok d'" using WriteFile_lands [OF c'(1), of nm' data "of_int n" u] k(1) unfolding lands_def by blast
      then show ?thesis using k(2) by simp
    next
      case False
      then have "r = res" "d' = d1" using run rd \<open>\<not> n < 0\<close> c by (auto simp: minix_CopyFile_def)
      then show ?thesis using c' by auto
    qed
  qed
qed

section \<open>The contract holds\<close>

lemmas vfs_defs = ListDir_def CreateFile_def DeleteFile_def ReadFile_def WriteFile_def RenameFile_def CopyFile_def active_fs_def minix_driver_def

lemma vfs_run_lands:
  assumes "disk_ok d"
  shows "lands (answers c) (refusals c) d (vfs_run j c d)"
proof -
  obtain u b where j: "j = (u, b)" by (cases j)
  show ?thesis
  proof (cases c)
    case (Read nm outp count)
    show ?thesis using assms ReadFile_answer(1) unfolding lands_def Read
      by (auto simp: vfs_defs j simp del: answers.simps)
  next
    case (List nm)
    then show ?thesis using assms by (auto simp: lands_def vfs_defs j)
  qed (use CreateFile_lands DeleteFile_lands WriteFile_lands RenameFile_lands CopyFile_lands CreateDir_lands DeleteDir_lands assms in
        \<open>simp_all only: vfs_run.simps vfs_defs filesystem.simps j prod.case\<close>)
qed

text \<open>A history gives every call its own content of the uninitialised arrays.\<close>

interpretation fs_contract: file_system "\<lambda>(j, c). vfs_run j c" disk_ok "answers \<circ> snd" "refusals \<circ> snd"
  using vfs_run_lands unfolding lands_def by unfold_locales (auto simp: split_beta)

text \<open>C39: Types and errors of the file system interface. Over any sequence of calls that return, made through the table of the
  mounted file system, each with whatever its uninitialised arrays hold, every sector keeps its 512 bytes and each call answers one of
  the codes listed for it; a sequence in which every call is refused leaves the disk as it was.\<close>

theorem vfs_history:
  assumes "disk_ok d" and "history (\<lambda>(j, c). vfs_run j c) jcs d = Some (rs, d')"
  shows "disk_ok d' \<and> list_all2 (\<lambda>(j, c) r. r \<in> answers c) jcs rs \<and>
    (list_all2 (\<lambda>(j, c) r. r \<in> refusals c) jcs rs \<longrightarrow> d' = d)"
  using fs_contract.history_keeps [OF assms] fs_contract.history_refused [OF assms] by (simp add: case_prod_unfold)

theorem vfs_history_witness:
  "\<exists>rs d'. history (\<lambda>(j, c). vfs_run j c)
       [((example_u, []), Create [47, 97, 0]), ((rev example_u, [1]), Read [47, 120, 0] [7, 7] 2)] example_disk = Some (rs, d') \<and>
     rs = [- 17, - 2] \<and> d' = example_disk"
proof -
  have c: "minix_CreateFile example_u [47, 97, 0] example_disk = Some (- 17, example_disk)"
    using CreateFile_errors(2) [OF example_disk_ok(1) root_names [OF example_path example_disk_ok(2)], of 97 example_u] by (simp add: example_lookup)
  have "FindEntry (rev example_u) [47, 120, 0] example_disk = Some 0"
    using root_find [OF example_disk_ok example_path, of 120 "rev example_u"] by (simp add: example_lookup)
  then have run: "history (\<lambda>(j, c). vfs_run j c)
      [((example_u, []), Create [47, 97, 0]), ((rev example_u, [1]), Read [47, 120, 0] [7, 7] 2)] example_disk = Some ([- 17, - 2], example_disk)"
    using c by (simp add: vfs_defs minix_ReadFile_def)
  show ?thesis using vfs_history [OF example_disk_ok(1) run] run by blast
qed

end
