(* ===== verification/Boot.thy ===== *)
theory Boot
  imports Mbi AddressSpace Clock Idt Faults Vfs
begin

text \<open>
  Start-up: \<^verbatim>\<open>start_kernel\<close> of \<^verbatim>\<open>init/init.c\<close> and \<^verbatim>\<open>cpu_init\<close> of
  \<^verbatim>\<open>include/LySys/cpu.h\<close>, composed of the components in the order of the code, and what the
  components' contracts give together: the state of the machine before the first task, and the first switch to it.
\<close>

section \<open>The kernel's state\<close>

text \<open>What the linker and the boot loader provide.\<close>

record boot_env =
  k_start :: u64
  k_end :: u64
  mbi_address :: u32
  k_handlers :: handlers
  k_labels :: labels
  k_font :: psf1_font
  kernelthread1 :: u64

text \<open>The globals of the components. The processor's interrupt flag is \<open>if_flag\<close> in the scheduler's state and
  \<open>i_flag\<close> while the traps are set up.\<close>

record 'd kernel =
  k_sched :: sched
  k_fb :: framebuffer_info
  k_irq :: "'d irq_state"
  k_time :: tm
  k_sb :: minix2_superblock
  k_con :: console
  k_disk :: disk

section \<open>Start-up\<close>

definition boot_phys :: "boot_env \<Rightarrow> u64" where
  "boot_phys E =
     (let phys_mbi = ucast (mbi_address E)
      in if KERNEL_VIRTUAL_BASE < phys_mbi then phys_mbi - KERNEL_VIRTUAL_BASE else phys_mbi)"

text \<open>The calls \<^verbatim>\<open>start_kernel\<close> and \<^verbatim>\<open>cpu_init\<close> have in common.\<close>

definition machine_init :: "boot_env \<Rightarrow> 'd ports \<Rightarrow> 'd kernel \<Rightarrow> 'd kernel option" where
  "machine_init E P k =
     do { let s = k_sched k;
          p \<leftarrow> pmm_init (mm_mem (s_mm s)) (k_start E) (k_end E) (boot_phys E) (mm_pmm (s_mm s));
          b \<leftarrow> mbi_parse (mm_mem (s_mm s)) (ucast (boot_phys E)) \<lparr>b_pmm = p, b_fb = k_fb k\<rparr>;
          mm1 \<leftarrow> paging_init (k_end E) (b_fb b) ((s_mm s)\<lparr>mm_pmm := b_pmm b\<rparr>);
          (t, m) \<leftarrow> time_init P (i_mach (k_irq k));
          irq \<leftarrow> traps_init (k_handlers E) P ((k_irq k)\<lparr>i_mach := m\<rparr>);
          mm2 \<leftarrow> heap_init (k_end E) HEAP_START_ADDR (HEAP_START_ADDR + HEAP_SIZE) mm1;
          Some (k\<lparr>k_sched := s\<lparr>s_mm := mm2, if_flag := i_flag irq\<rparr>, k_fb := b_fb b, k_irq := irq, k_time := t\<rparr>) }"

text \<open>\<^verbatim>\<open>cpu_init\<close>, which no code calls; \<^verbatim>\<open>cpuid_detect\<close> is not in the source.\<close>

definition cpu_init :: "('d kernel \<Rightarrow> 'd kernel) \<Rightarrow> boot_env \<Rightarrow> 'd ports \<Rightarrow> 'd kernel \<Rightarrow> 'd kernel option" where
  "cpu_init cpuid_detect E P k =
     do { k1 \<leftarrow> machine_init E P k;
          let k2 = cpuid_detect k1;
          Some (k2\<lparr>k_sched := sti (k_sched k2)\<rparr>) }"

definition start_tasks :: "boot_env \<Rightarrow> sched \<Rightarrow> sched option" where
  "start_tasks E s =
     do { s1 \<leftarrow> sched_init s;
          (r, s2) \<leftarrow> CreateTask (k_labels E) (c_str ''task1'') (kernelthread1 E) 0 s1;
          Some s2 }"

definition print_calls :: "psf1_font \<Rightarrow> framebuffer_info \<Rightarrow> print_call list \<Rightarrow> console \<Rightarrow> console option" where
  "print_calls font fb = fold_opt (\<lambda>(fmt, args) con. map_option snd (printk font fb fmt args con))"

text \<open>How \<^verbatim>\<open>start_kernel\<close> ends: it spins after a message, or it is the idle task in its endless loop.\<close>

datatype boot_end = Stopped | Idle_loop

definition start_kernel :: "boot_env \<Rightarrow> 'd ports \<Rightarrow> 'd kernel \<Rightarrow> (boot_end \<times> 'd kernel) option" where
  "start_kernel E P k =
     do { k1 \<leftarrow> machine_init E P (k\<lparr>k_sched := cli (k_sched k)\<rparr>);
          (r, sb, out) \<leftarrow> fs_init (k_disk k1);
          con \<leftarrow> print_calls (k_font E) (k_fb k1) out (k_con k1);
          let k2 = k1\<lparr>k_sb := sb, k_con := con\<rparr>;
          if r \<noteq> 0
          then do { con' \<leftarrow> panic (k_font E) (k_fb k2) (c_str ''FS Mount Error!'') con; Some (Stopped, k2\<lparr>k_con := con'\<rparr>) }
          else do { s \<leftarrow> start_tasks E (k_sched k2); Some (Idle_loop, k2\<lparr>k_sched := s\<rparr>) } }"

section \<open>The heap does not touch the page tables\<close>

lemma ld64_below:
  assumes "\<forall>x. unat x < K \<longrightarrow> m' x = m x" and "unat a + 8 \<le> K" and "K < 2 ^ 64"
  shows "ld64 m' a = ld64 m a"
proof -
  have "ldn m' a 8 = ldn m a 8"
  proof (rule ldn_cong)
    fix i :: nat assume i: "i < 8"
    have "unat (of_nat i :: u64) = i" using i by (intro unat_nat64) simp
    then have "unat (a + of_nat i) = unat a + i" using assms(2,3) i by (subst unat_plus_small) simp_all
    then show "m' (a + of_nat i) = m (a + of_nat i)" using assms(1,2) i by simp
  qed
  then show ?thesis by (simp add: ld64_def)
qed

lemma slot_below:
  assumes "b < MAX_BLOCKS" and "i < (512 :: u64)" and same: "\<forall>x. unat x < 0xFFFFFFFF90000000 \<longrightarrow> m' x = m x"
  shows "ld64 m' (tbl b + 8 * i) = ld64 m (tbl b + 8 * i)"
proof (rule ld64_below [OF same])
  have "unat i < 512" using assms(2) by (simp add: word_less_nat_alt)
  then show "unat (tbl b + 8 * i) + 8 \<le> 0xFFFFFFFF90000000"
    using unat_slot [OF assms(1,2)] assms(1) by (simp add: MAX_BLOCKS_def)
qed simp_all

lemma pt_lookup_below:
  assumes "tree_inv m p pml4" and same: "\<forall>x. unat x < 0xFFFFFFFF90000000 \<longrightarrow> m' x = m x"
  shows "Paging.path_ok is \<Longrightarrow> pt_lookup m' pml4 is = pt_lookup m pml4 is"
proof (induction "is" rule: rev_induct)
  case (snoc j "is")
  have j: "Paging.path_ok is" "j < 512" using path_ok_snoc [OF snoc.prems] by auto
  have "ld64 m' (u + 8 * j) = ld64 m (u + 8 * j)" if "pt_lookup m pml4 is = Some u" for u
    using tree_invD(2) [OF assms(1) j(1) that] slot_below [OF _ j(2) same] by blast
  then show ?case using snoc.IH [OF j(1)] by (simp add: pt_lookup_snoc split: option.split)
qed simp

lemma translate_below:
  assumes "pt_inv s" and "kernel_pml4 s' = kernel_pml4 s" and same: "\<forall>x. unat x < 0xFFFFFFFF90000000 \<longrightarrow> mm_mem s' x = mm_mem s x"
  shows "translate s' va = translate s va"
proof -
  have inv: "tree_inv (mm_mem s) (mm_pmm s) (kernel_pml4 s)" using assms(1) by (simp add: pt_inv_def)
  have "pt_lookup (mm_mem s') (kernel_pml4 s') (page_indices va) = pt_lookup (mm_mem s) (kernel_pml4 s) (page_indices va)"
    unfolding assms(2) by (rule pt_lookup_below [OF inv same page_indices_ok(1)])
  moreover have "ld64 (mm_mem s') (u + 8 * pt_index va) = ld64 (mm_mem s) (u + 8 * pt_index va)"
    if "pt_lookup (mm_mem s) (kernel_pml4 s) (page_indices va) = Some u" for u
    using tree_invD(2) [OF inv page_indices_ok(1) that] slot_below [OF _ page_indices_ok(3) same] by blast
  ultimately show ?thesis by (simp add: translate_def leaf_def split: option.split)
qed

section \<open>The machine before the first task\<close>

lemma boot_phys_eq: "boot_phys E = ucast (mbi_address E)" and boot_phys_back: "ucast (ucast (mbi_address E) :: u64) = mbi_address E"
proof -
  define n where "n = unat (mbi_address E)"
  have "unat (ucast (mbi_address E) :: u64) = n" "n < 2 ^ 32" "unat KERNEL_VIRTUAL_BASE = 0xFFFFFFFF80000000"
    by (simp_all add: n_def KERNEL_VIRTUAL_BASE_def)
  then have "\<not> KERNEL_VIRTUAL_BASE < (ucast (mbi_address E) :: u64)" unfolding word_less_nat_alt by simp
  then show "boot_phys E = ucast (mbi_address E)" by (simp add: boot_phys_def Let_def)
  show "ucast (ucast (mbi_address E) :: u64) = mbi_address E" by (rule bit_word_eqI) (simp add: bit_simps)
qed

text \<open>The 2560 pages of the heap lie behind one another; everywhere else the address space is that of \<^verbatim>\<open>paging_init\<close>.\<close>

definition heap_page :: nat where
  "heap_page = 0xFFFFD0000"

definition boot_space :: "nat \<Rightarrow> nat \<Rightarrow> nat list \<Rightarrow> nat \<Rightarrow> u64 option" where
  "boot_space F M fs n =
     (if heap_page \<le> n \<and> n < heap_page + length fs then Some (heap_pte (fs ! (n - heap_page))) else map_option pte (kernel_space F M n))"

lemma heap_page_no:
  assumes "j < 2560"
  shows "unat (page_no (HEAP_START_ADDR + of_nat (4096 * j))) = heap_page + j"
proof -
  have "unat HEAP_START_ADDR + 4096 * j < 2 ^ 64" using assms by (simp add: HEAP_START_ADDR_def)
  then have "unat (HEAP_START_ADDR + of_nat (4096 * j)) = unat HEAP_START_ADDR + 4096 * j" by (rule unat_page_addr)
  then have "unat (page_no (HEAP_START_ADDR + of_nat (4096 * j))) = (0xFFFFFFFFD0000000 + 4096 * j) div 4096 mod 2 ^ 36"
    unfolding unat_page_no by (simp add: HEAP_START_ADDR_def)
  moreover have "(0xFFFFFFFFD0000000 + 4096 * j) div 4096 = 0xFFFFFFFFD0000 + j" by simp
  moreover have "(0xFFFFFFFFD0000 + j) mod 2 ^ 36 = heap_page + j"
  proof -
    have "(0xFFFFFFFFD0000 + j) mod 2 ^ 36 = ((heap_page + j) + 2 ^ 36 * 0xFFFF) mod 2 ^ 36" by (simp add: heap_page_def)
    then show ?thesis using assms by (simp only: mod_mult_self2) (simp add: heap_page_def)
  qed
  ultimately show ?thesis by simp
qed

lemma maps_heap_space:
  assumes "maps_heap s HEAP_START_ADDR fs s1" and "length fs = 2560"
    and "\<And>va. translate s va = map_option pte (kernel_space F M (unat (page_no va)))"
  shows "translate s1 va = boot_space F M fs (unat (page_no va))"
proof (cases "heap_page \<le> unat (page_no va) \<and> unat (page_no va) < heap_page + 2560")
  case True
  define j where "j = unat (page_no va) - heap_page"
  have j: "j < 2560" "unat (page_no va) = heap_page + j" using True by (auto simp: j_def)
  then have "page_no va = page_no (HEAP_START_ADDR + of_nat (4096 * j))" unfolding word_unat_eq_iff using heap_page_no [OF j(1)] by (simp only:)
  then have "translate s1 va = Some (heap_pte (fs ! j))" using assms(1,2) j(1) unfolding maps_heap_def by auto
  then show ?thesis using j assms(2) by (simp add: boot_space_def)
next
  case False
  have "page_no va \<noteq> page_no (HEAP_START_ADDR + of_nat (4096 * j))" if "j < length fs" for j
    using False heap_page_no [of j] that assms(2) by auto
  then have "translate s1 va = translate s va" using assms(1) unfolding maps_heap_def by blast
  moreover have "boot_space F M fs (unat (page_no va)) = map_option pte (kernel_space F M (unat (page_no va)))"
    unfolding boot_space_def assms(2) using False by (rule if_not_P)
  ultimately show ?thesis using assms(3) by simp
qed

lemma pt_inv_below:
  assumes "pt_inv s" and "kernel_pml4 s' = kernel_pml4 s" and "mm_pmm s' = mm_pmm s"
    and same: "\<forall>x. unat x < 0xFFFFFFFF90000000 \<longrightarrow> mm_mem s' x = mm_mem s x"
  shows "pt_inv s'"
proof -
  have inv: "tree_inv (mm_mem s) (mm_pmm s) (kernel_pml4 s)" using assms(1) by (simp add: pt_inv_def)
  have eq: "pt_lookup (mm_mem s') (kernel_pml4 s) qs = pt_lookup (mm_mem s) (kernel_pml4 s) qs" if "Paging.path_ok qs" for qs
    by (rule pt_lookup_below [OF inv same that])
  show ?thesis
    unfolding pt_inv_def assms(2,3) tree_inv_def
  proof (intro conjI allI impI)
    show "pmm_inv (mm_pmm s)" by (rule tree_invD(1) [OF inv])
  qed (use tree_invD(2,3) [OF inv] eq in metis)+
qed

text \<open>What the memory is like when the heap is set up: \<open>frames\<close> are the free frames the heap may take its pages from.\<close>

definition memory_ready :: "nat set \<Rightarrow> nat \<Rightarrow> nat \<Rightarrow> mm \<Rightarrow> bool" where
  "memory_ready frames F M s \<longleftrightarrow>
     heap_start s = HEAP_START_ADDR \<and> heap_inv s [(unat HEAP_SIZE - sizeof_header, True)] \<and> pt_inv s \<and>
     (\<exists>fs. length fs = 2560 \<and> distinct fs \<and> set fs \<subseteq> frames \<and>
        (\<forall>va. translate s va = boot_space F M fs (unat (page_no va))))"

text \<open>The available frames behind the kernel image.\<close>

definition frames_behind :: "u64 \<Rightarrow> mem \<Rightarrow> u64 list \<Rightarrow> (u64 \<Rightarrow> u64 list) \<Rightarrow> nat set" where
  "frames_behind kernel_end m ts es = {b \<in> frames_of (available_pages m ts es). unat (V2P kernel_end) < 4096 * b}"

lemma heap_ready:
  assumes inv: "pt_inv mm1" and c: "unat (V2P ke) < 4096 * c" "\<forall>j \<le> c. frame_used (mm_pmm mm1) j"
    and room: "4 * 2560 \<le> free_above ke (mm_pmm mm1)"
    and space: "\<And>va. translate mm1 va = map_option pte (kernel_space F M (unat (page_no va)))"
    and frames: "\<And>b. b < MAX_BLOCKS \<Longrightarrow> \<not> frame_used (mm_pmm mm1) b \<Longrightarrow> unat (V2P ke) < 4096 * b \<Longrightarrow> b \<in> frames"
  shows "\<exists>mm2. heap_init ke HEAP_START_ADDR (HEAP_START_ADDR + HEAP_SIZE) mm1 = Some mm2 \<and> memory_ready frames F M mm2"
proof -
  have z: "frame_used (mm_pmm mm1) 0" using c(2) by simp
  obtain s1 fs mm2 where h: "heap_init ke HEAP_START_ADDR (HEAP_START_ADDR + HEAP_SIZE) mm1 = Some mm2"
    "length fs = 2560" "maps_heap mm1 HEAP_START_ADDR fs s1" "heap_inv mm2 [(PAGE_SIZE * 2560 - sizeof_header, True)]"
    "heap_start mm2 = HEAP_START_ADDR" "mm_pmm mm2 = mm_pmm s1" "kernel_pml4 mm2 = kernel_pml4 s1"
    "same_outside (unat HEAP_START_ADDR) (unat HEAP_START_ADDR + sizeof_header) (mm_mem s1) (mm_mem mm2)"
    using heap_init_maps_range [OF inv z room, of HEAP_START_ADDR "HEAP_START_ADDR + HEAP_SIZE"]
    by (auto simp: HEAP_START_ADDR_def HEAP_SIZE_def PAGE_SIZE_def)
  have same: "\<forall>x. unat x < 0xFFFFFFFF90000000 \<longrightarrow> mm_mem mm2 x = mm_mem s1 x"
    using h(8) by (auto simp: same_outside_def HEAP_START_ADDR_def)
  have s1: "pt_inv s1" "distinct fs" "\<And>b. b \<in> set fs \<Longrightarrow> b < MAX_BLOCKS \<and> \<not> frame_used (mm_pmm mm1) b"
    using h(3) by (auto simp: maps_heap_def)
  have "set fs \<subseteq> frames"
  proof
    fix b assume b: "b \<in> set fs"
    have "\<not> b \<le> c" using s1(3) [OF b] c(2) by blast
    then show "b \<in> frames" using s1(3) [OF b] c(1) by (intro frames) auto
  qed
  moreover have "translate mm2 va = boot_space F M fs (unat (page_no va))" for va
    using translate_below [OF s1(1) h(7) same] maps_heap_space [OF h(3,2) space] by simp
  ultimately show ?thesis
    using h s1(2) pt_inv_below [OF s1(1) h(7,6) same] by (auto simp: memory_ready_def HEAP_SIZE_def PAGE_SIZE_def)
qed

lemma memory_init_result:
  assumes mbi: "mbi_layout (mm_mem s) (ucast phys) ts es"
    and image: "unat (V2P ke) + 4096 \<le> 2 ^ 64" "total_blocks (mm_pmm s) = of_nat MAX_BLOCKS"
    and f: "f = fb_of_tags (mm_mem s) ts g" "fb_addr f = page_addr F" "F + fb_page_count f \<le> 2 ^ 28" "fb_page_count f \<le> 2 ^ 19"
    and memory: "11057 + 6 * (fb_page_count f div 512) \<le> card (frames_behind ke (mm_mem s) ts es)"
  shows "\<exists>p b mm1 mm2. pmm_init (mm_mem s) ks ke (ucast phys) (mm_pmm s) = Some p \<and>
    mbi_parse (mm_mem s) phys \<lparr>b_pmm = p, b_fb = g\<rparr> = Some b \<and> b_fb b = f \<and>
    paging_init ke f (s\<lparr>mm_pmm := b_pmm b\<rparr>) = Some mm1 \<and>
    heap_init ke HEAP_START_ADDR (HEAP_START_ADDR + HEAP_SIZE) mm1 = Some mm2 \<and>
    memory_ready (frames_behind ke (mm_mem s) ts es) F (fb_page_count f) mm2"
proof -
  let ?M = "fb_page_count f" and ?fr = "frames_behind ke (mm_mem s) ts es"
  obtain p where p: "pmm_init (mm_mem s) ks ke (ucast phys) (mm_pmm s) = Some p"
    using pmm_init_result [OF mbi image] by blast
  obtain b where b: "mbi_parse (mm_mem s) phys \<lparr>b_pmm = p, b_fb = g\<rparr> = Some b" "pmm_inv (b_pmm b)" "b_fb b = f"
    "\<forall>i < MAX_BLOCKS. \<not> frame_used (b_pmm b) i \<longleftrightarrow> i \<in> frames_of (available_pages (mm_mem s) ts es)"
    using mbi_parse_result [OF mbi image p, of g] f(1) by blast
  define mm0 where "mm0 = s\<lparr>mm_pmm := b_pmm b\<rparr>"
  have "{i. i < MAX_BLOCKS \<and> \<not> frame_used (b_pmm b) i \<and> unat (V2P ke) < 4096 * i} = ?fr"
    using b(4) by (auto simp: frames_of_def frames_behind_def)
  then have free: "11057 + 6 * (?M div 512) \<le> free_above ke (mm_pmm mm0)" using memory by (simp add: free_above_def mm0_def)
  obtain mm1 c where mm1: "paging_init ke f mm0 = Some mm1" "pt_inv mm1"
    "unat (V2P ke) < 4096 * c" "\<forall>j \<le> c. frame_used (mm_pmm mm1) j"
    "takes ke (1 + 3 * (272 + 2 * (?M div 512))) (b_pmm b) (mm_pmm mm1)"
    "\<And>va. translate mm1 va = map_option pte (kernel_space F ?M (unat (page_no va)))"
    using paging_init_result [of mm0 f F ke] b(2) f(2-4) free by (auto simp: mm0_def)
  have room: "4 * 2560 \<le> free_above ke (mm_pmm mm1)" using mm1(5) free by (simp add: takes_def mm0_def)
  have frames: "i \<in> ?fr" if "i < MAX_BLOCKS" "\<not> frame_used (mm_pmm mm1) i" "unat (V2P ke) < 4096 * i" for i
    using that mm1(5) b(4) by (auto simp: takes_def frames_behind_def)
  show ?thesis
    using p b(1,3) mm1(1) heap_ready [OF mm1(2-4) room mm1(6) frames] unfolding mm0_def by blast
qed

lemma machine_init_result:
  assumes mbi: "mbi_layout (mm_mem (s_mm (k_sched k))) (ucast (mbi_address E)) ts es"
    and image: "unat (V2P (k_end E)) + 4096 \<le> 2 ^ 64" "total_blocks (mm_pmm (s_mm (k_sched k))) = of_nat MAX_BLOCKS"
    and f: "f = fb_of_tags (mm_mem (s_mm (k_sched k))) ts (k_fb k)" "fb_addr f = page_addr F" "F + fb_page_count f \<le> 2 ^ 28"
      "fb_page_count f \<le> 2 ^ 19"
    and memory: "11057 + 6 * (fb_page_count f div 512) \<le> card (frames_behind (k_end E) (mm_mem (s_mm (k_sched k))) ts es)"
    and clock: "rtc_ok P rtc_view status cal"
    and chips: "pics_ok P master slave" "length (idt_table (k_irq k)) = 256"
    and keyboard: "kbc_ok P kbc_view" "kbc_prompt P kbc_view" "in_busy (kbc_view (dev (i_mach (k_irq k)))) = 0"
  shows "\<exists>mm irq t m. machine_init E P k =
      Some (k\<lparr>k_sched := (k_sched k)\<lparr>s_mm := mm, if_flag := True\<rparr>, k_fb := f, k_irq := irq, k_time := t\<rparr>) \<and>
    memory_ready (frames_behind (k_end E) (mm_mem (s_mm (k_sched k))) ts es) F (fb_page_count f) mm \<and>
    time_init P (i_mach (k_irq k)) = Some (t, m) \<and>
    (upd (rtc_view (dev (i_mach (k_irq k)))) = 0 \<and> 7 \<le> left (rtc_view (dev (i_mach (k_irq k)))) \<longrightarrow>
      t = clock_time status (cal (instant (rtc_view (dev (i_mach (k_irq k))))))) \<and> i_flag irq \<and>
    (\<forall>v < 256. case installed (k_handlers E) v of
        Some (h, dpl) \<Rightarrow> gate_present (idt_table irq ! v) \<and> gate_target (idt_table irq ! v) = h
      | None \<Rightarrow> idt_table irq ! v = idt_table (k_irq k) ! v)"
proof -
  obtain p b mm1 mm2 where mm: "pmm_init (mm_mem (s_mm (k_sched k))) (k_start E) (k_end E) (ucast (mbi_address E)) (mm_pmm (s_mm (k_sched k))) = Some p"
    "mbi_parse (mm_mem (s_mm (k_sched k))) (mbi_address E) \<lparr>b_pmm = p, b_fb = k_fb k\<rparr> = Some b" "b_fb b = f"
    "paging_init (k_end E) f ((s_mm (k_sched k))\<lparr>mm_pmm := b_pmm b\<rparr>) = Some mm1"
    "heap_init (k_end E) HEAP_START_ADDR (HEAP_START_ADDR + HEAP_SIZE) mm1 = Some mm2"
    "memory_ready (frames_behind (k_end E) (mm_mem (s_mm (k_sched k))) ts es) F (fb_page_count f) mm2"
    using memory_init_result [OF mbi image f memory] by blast
  obtain t m where t: "time_init P (i_mach (k_irq k)) = Some (t, m)"
    "upd (rtc_view (dev (i_mach (k_irq k)))) = 0 \<and> 7 \<le> left (rtc_view (dev (i_mach (k_irq k)))) \<longrightarrow>
      t = clock_time status (cal (instant (rtc_view (dev (i_mach (k_irq k))))))"
    using time_init_result [OF clock, of "i_mach (k_irq k)"] by blast
  have len: "length (idt_table ((k_irq k)\<lparr>i_mach := m\<rparr>)) = 256" using chips(2) by simp
  have "kbc_view (dev m) = kbc_view (dev (i_mach (k_irq k)))"
    by (rule time_init_keeps [OF clock _ _ t(1)]) (simp_all add: kbc_other_port [OF keyboard(1)])
  then have "in_busy (kbc_view (dev (i_mach ((k_irq k)\<lparr>i_mach := m\<rparr>)))) = 0" using keyboard(3) by simp
  from traps_init_returns [OF keyboard(1,2) this len] obtain irq where
    run: "traps_init (k_handlers E) P ((k_irq k)\<lparr>i_mach := m\<rparr>) = Some irq" by blast
  then have irq: "traps_init (k_handlers E) P ((k_irq k)\<lparr>i_mach := m\<rparr>) = Some irq" "i_flag irq"
    "\<forall>v < 256. case installed (k_handlers E) v of
        Some (h, dpl) \<Rightarrow> gate_present (idt_table irq ! v) \<and> gate_target (idt_table irq ! v) = h \<and> gate_dpl (idt_table irq ! v) = unat dpl
      | None \<Rightarrow> idt_table irq ! v = idt_table ((k_irq k)\<lparr>i_mach := m\<rparr>) ! v"
    using traps_init_result [OF chips(1) len run] by blast+
  have gates: "case installed (k_handlers E) v of
        Some (h, dpl) \<Rightarrow> gate_present (idt_table irq ! v) \<and> gate_target (idt_table irq ! v) = h
      | None \<Rightarrow> idt_table irq ! v = idt_table (k_irq k) ! v" if "v < 256" for v
    using irq(3) [rule_format, OF that] by (auto split: option.splits)
  have start: "machine_init E P k = Some (k\<lparr>k_sched := (k_sched k)\<lparr>s_mm := mm2, if_flag := True\<rparr>, k_fb := f, k_irq := irq,
      k_time := t\<rparr>)"
    by (simp add: machine_init_def boot_phys_eq boot_phys_back Let_def mm(1-5) t(1) irq(1,2))
  show ?thesis using start mm(6) t irq(2) gates by blast
qed

text \<open>C2: Start-up succeeds. On a machine whose boot information is well formed, with enough memory behind the kernel image (43.2 MiB and
  three pages for every MiB of framebuffer), a clock, interrupt controllers, and a keyboard controller with an empty input buffer that is
  prompt at the two places where \<^verbatim>\<open>irq_init\<close> does not wait for it, the whole
  sequence of initialisations returns: the page tables map the kernel, the framebuffer and the heap, the heap is one free
  block of 10 MiB whose pages are distinct frames the loader declared available, none of them in the kernel image, although
  \<^verbatim>\<open>mbi_parse\<close> has freed the image's frames again; the framebuffer is the one of the boot information; the time is the one
  \<^verbatim>\<open>time_init\<close> reads at the start, which is that of the call unless the clock comes to update its registers meanwhile; the
  interrupt table leads to the handlers and interrupts are on.\<close>

theorem machine_init_starts:
  assumes mbi: "mbi_layout (mm_mem (s_mm (k_sched k))) (ucast (mbi_address E)) ts es"
    and image: "unat (V2P (k_end E)) + 4096 \<le> 2 ^ 64" "total_blocks (mm_pmm (s_mm (k_sched k))) = of_nat MAX_BLOCKS"
    and f: "f = fb_of_tags (mm_mem (s_mm (k_sched k))) ts (k_fb k)" "fb_addr f = page_addr F" "F + fb_page_count f \<le> 2 ^ 28"
      "fb_page_count f \<le> 2 ^ 19"
    and memory: "11057 + 6 * (fb_page_count f div 512) \<le> card (frames_behind (k_end E) (mm_mem (s_mm (k_sched k))) ts es)"
    and clock: "rtc_ok P rtc_view status cal"
    and chips: "pics_ok P master slave" "length (idt_table (k_irq k)) = 256"
    and keyboard: "kbc_ok P kbc_view" "kbc_prompt P kbc_view" "in_busy (kbc_view (dev (i_mach (k_irq k)))) = 0"
  shows "\<exists>mm irq t m. machine_init E P k =
      Some (k\<lparr>k_sched := (k_sched k)\<lparr>s_mm := mm, if_flag := True\<rparr>, k_fb := f, k_irq := irq, k_time := t\<rparr>) \<and>
    memory_ready (frames_behind (k_end E) (mm_mem (s_mm (k_sched k))) ts es) F (fb_page_count f) mm \<and>
    time_init P (i_mach (k_irq k)) = Some (t, m) \<and>
    (upd (rtc_view (dev (i_mach (k_irq k)))) = 0 \<and> 7 \<le> left (rtc_view (dev (i_mach (k_irq k)))) \<longrightarrow>
      t = clock_time status (cal (instant (rtc_view (dev (i_mach (k_irq k))))))) \<and> i_flag irq \<and>
    (\<forall>v < 256. case installed (k_handlers E) v of
        Some (h, dpl) \<Rightarrow> gate_present (idt_table irq ! v) \<and> gate_target (idt_table irq ! v) = h
      | None \<Rightarrow> idt_table irq ! v = idt_table (k_irq k) ! v)"
  using assms by (rule machine_init_result)

section \<open>Mounting the file system\<close>

text \<open>A call of \<^verbatim>\<open>printk\<close> that fits its buffer.\<close>

definition printable :: "print_call \<Rightarrow> bool" where
  "printable c \<longleftrightarrow> terminated (fst c) \<and> (\<exists>t. render (cstr (fst c)) (snd c) = Some t \<and> length t < 2048)"

lemma print_calls_total: "list_all printable calls \<Longrightarrow> \<exists>con'. print_calls font fb calls con = Some con'"
proof (induction calls arbitrary: con)
  case (Cons c calls)
  obtain fmt args where c: "c = (fmt, args)" by force
  obtain t where "terminated fmt" "render (cstr fmt) args = Some t" "length t < 2048"
    using Cons.prems by (auto simp: printable_def c)
  then obtain con1 where "map_option snd (printk font fb fmt args con) = Some con1" using printk_spec by auto
  then show ?case using Cons.IH [of con1] Cons.prems by (auto simp: print_calls_def c)
qed (simp add: print_calls_def)

lemma numeral_short: "length (itoa_text 10 (unat (v :: u64))) \<le> 64" "length (itoa_text 16 (unat v)) \<le> 64"
  using itoa_text_length_64 [of "10 :: u32" v] itoa_text_length_64 [of "16 :: u32" v] by simp_all

lemma root_lines:
  "printable (c_line ''--- Inode Bilgileri (Sektor 10) ---'', [])" "printable (c_line ''Zones:'', [])"
  "printable (c_line ''----------------------------------'', [])" "printable (c_line ''Mode:     %x'', [VInt v])"
  "printable (c_line ''UID:      %d'', [VInt v])" "printable (c_line ''GID:      %d'', [VInt v])"
  "printable (c_line ''Size:     %d bytes'', [VInt v])" "printable (c_line ''MTime:    %d'', [VInt v])"
  "printable (c_line ''NLinks:   %d'', [VInt v])" "printable (c_line ''  Zone[%d]: %d'', [VInt v, VInt w])"
  using numeral_short [of v] numeral_short [of w]
  by (simp_all add: printable_def c_line_def c_str_def terminated_def cstr_def)

lemma list_zones_prints:
  "length b = 512 \<Longrightarrow> \<forall>i \<in> set is. i < 200 \<Longrightarrow> \<exists>out. list_zones b is = Some out \<and> list_all printable out"
  by (induction "is") (auto simp: i_zone_def get16_def buf_get_def root_lines)

lemma root_inode_prints:
  assumes "length (sector_read 10 d) = 512"
  shows "\<exists>out. minix_GetRootInode d = Some out \<and> list_all printable out"
proof -
  obtain zs where "list_zones (sector_read 10 d) [0..<10] = Some zs" "list_all printable zs"
    using list_zones_prints [OF assms, of "[0..<10]"] by auto
  then show ?thesis
    using assms by (simp add: minix_GetRootInode_def Let_def i_mode_def i_uid_def i_gid_def i_size_def i_mtime_def i_nlinks_def
        get16_def get32_def get8_def buf_get_def root_lines)
qed

definition minix_magic :: "disk \<Rightarrow> bool" where
  "minix_magic d \<longleftrightarrow> get16 (sector_read 2 d) 16 \<in> {Some 0x2478, Some 0x2479}"

lemma fs_init_result:
  assumes "disk_ok d"
  shows "\<exists>sb out. fs_init d = Some (if minix_magic d then 0 else err EINVAL, sb, out) \<and> list_all printable out \<and>
    (\<not> minix_magic d \<longrightarrow> out = [])"
proof -
  have l: "length (sector_read 2 d) = 512" "length (sector_read 10 d) = 512" using assms by (simp_all add: length_sector)
  obtain sb where sb: "minix_GetSuperBlock d = Some (if minix_magic d then 0 else err EINVAL, sb)"
    using l(1) by (auto simp: minix_GetSuperBlock_def minix_magic_def get16_def get32_def buf_get_def Let_def)
  show ?thesis
    using root_inode_prints [OF l(2)] sb by (auto simp: fs_init_def minixfs_init_def)
qed

section \<open>The first switch\<close>

lemma first_run_cong:
  assumes "\<forall>i < 96. m' (sp + of_nat i) = m (sp + of_nat i)"
  shows "load_context sp m' c = load_context sp m c" "first_run sp m' c = first_run sp m c"
proof -
  have eq: "ld64 m' (sp + of_nat k) = ld64 m (sp + of_nat k)" if "k + 8 \<le> 96" for k
  proof -
    have "m' (sp + of_nat k + of_nat i) = m (sp + of_nat k + of_nat i)" if "i < 8" for i
      using assms [rule_format, of "k + i"] that \<open>k + 8 \<le> 96\<close> by (simp add: add.assoc)
    then have "ldn m' (sp + of_nat k) 8 = ldn m (sp + of_nat k) 8" by (rule ldn_cong)
    then show ?thesis by (simp only: ld64_def)
  qed
  note w = eq [of 0] eq [of 8] eq [of 16] eq [of 24] eq [of 32] eq [of 40] eq [of 48] eq [of 56] eq [of 64] eq [of 72] eq [of 80] eq [of 88]
  show "load_context sp m' c = load_context sp m c" using w by (simp add: load_context_eq)
  then show "first_run sp m' c = first_run sp m c" using w by (simp add: first_run_def iretq_def pop_def load_context_eq Let_def add.assoc)
qed

lemma stack_clear_below:
  assumes "56 \<le> unat (rsp c)" and "unat (rsp c) \<le> unat (heap_start h)"
  shows "stack_clear c h"
  unfolding stack_clear_def
proof (intro conjI allI impI)
  fix bs x assume "heap_inv h bs \<and> unat (rsp c) - 56 \<le> x \<and> x < unat (rsp c)"
  then show "\<not> in_header (unat (heap_start h)) bs x" using in_header_bounds [of "unat (heap_start h)" bs x] assms(2) by linarith
qed (rule assms)

text \<open>One task waits, the idle task runs on a stack below the heap: the next call of \<^verbatim>\<open>Schedule\<close> switches to the waiting task
  and leaves the content of its stack alone.\<close>

lemma only_task_runs:
  assumes inv: "sched_inv s" "scheduler_started s" and cur: "CurrentTaskPID s = 0" "state (TaskTable s ! 0) = TASK_RUNNING"
    and one: "state (TaskTable s ! 1) = TASK_WAITING" and none: "\<forall>j. 1 < j \<and> j < MAX_TASK_COUNT \<longrightarrow> state (TaskTable s ! j) = TASK_EMPTY"
    and low: "56 \<le> unat (rsp (s_cpu s))" "unat (rsp (s_cpu s)) \<le> unat (heap_start (s_mm s))"
    and stack: "allocated (s_mm s) stack n" "unat (heap_start (s_mm s)) \<le> unat stack"
  shows "\<exists>s'. Schedule L s = Some (True, s') \<and> CurrentTaskPID s' = 1 \<and>
    s_cpu s' = load_context (t_rsp (TaskTable s ! 1)) (mm_mem (s_mm s')) (s_cpu s) \<and>
    (\<forall>i < n. mm_mem (s_mm s') (stack + of_nat i) = mm_mem (s_mm s) (stack + of_nat i))"
proof -
  obtain s1 sw s' where r: "housekeeping s = Some s1" "Schedule L s = Some (sw, s')" "schedule_post L s s1 sw s'"
    using Schedule_result [OF inv stack_clear_below [OF low], of L] by blast
  have st: "state (TaskTable s ! j) = (if j = 0 then TASK_RUNNING else if j = 1 then TASK_WAITING else TASK_EMPTY)"
    if "j < MAX_TASK_COUNT" for j
    using cur(2) one none that by auto
  have nz: "state (TaskTable s ! j) \<noteq> TASK_ZOMBIE" if "j < MAX_TASK_COUNT" for j using st [OF that] by simp
  have h: "\<And>j. j < MAX_TASK_COUNT \<Longrightarrow> TaskTable s1 ! j = tick_task j (TaskTable s ! j)" "kept (s_mm s) (s_mm s1) stack"
    using housekeeping_result [OF inv(1)] r(1) nz by auto
  have same: "TaskTable s1 ! j = TaskTable s ! j" if "j < MAX_TASK_COUNT" for j
    using h(1) [OF that] st [OF that] by (auto simp: tick_task_def)
  have m: "1 < MAX_TASK_COUNT" by (simp add: MAX_TASK_COUNT_def)
  have "\<exists>j < MAX_TASK_COUNT. state (TaskTable s1 ! j) = TASK_WAITING" using same [OF m] one m by metis
  then have "picks (TaskTable s1) (CurrentTaskPID s) (nat (CurrentTaskPID s'))" "0 \<le> CurrentTaskPID s'"
    using r(3) unfolding schedule_post_def chosen_def by simp_all
  then have new: "CurrentTaskPID s' = 1" using st same by (fastforce simp: picks_def split: if_splits)
  then have sw: sw and cpu: "s_cpu s' = load_context (t_rsp (TaskTable s ! 1)) (mm_mem (s_mm s')) (s_cpu s)"
    and mem: "mm_mem (s_mm s') = snd (save_context (after_switch L) (s_cpu s) (mm_mem (s_mm s1)))"
    using r(3) cur(1) same [OF m] unfolding schedule_post_def by auto
  have "mm_mem (s_mm s') (stack + of_nat i) = mm_mem (s_mm s) (stack + of_nat i)" if i: "i < n" for i
  proof -
    obtain bs where bs: "heap_inv (s_mm s) bs" using sched_invD(9) [OF inv(1)] by (auto simp: heap_ok_def)
    have "unat stack + n < 2 ^ 64" by (rule allocated_bounds(2) [OF bs stack(1)])
    moreover from this i have "unat (of_nat i :: u64) = i" by (intro unat_nat64) simp
    ultimately have "unat (stack + of_nat i) = unat stack + i" using i by (subst unat_plus_small) simp_all
    then have "\<not> unat (stack + of_nat i) < unat (rsp (s_cpu s))" using low(2) stack(2) by linarith
    then have "mm_mem (s_mm s') (stack + of_nat i) = mm_mem (s_mm s1) (stack + of_nat i)"
      using save_context_outside [OF low(1), of "mm_mem (s_mm s1)" "after_switch L"] unfolding mem same_outside_def by blast
    then show ?thesis using h(2) stack(1) i unfolding kept_def by auto
  qed
  then show ?thesis using r(2) sw new cpu by auto
qed

section \<open>The first task\<close>

definition one_task_waits :: "sched \<Rightarrow> bool" where
  "one_task_waits s \<longleftrightarrow> sched_ready s \<and> CurrentTaskPID s = 0 \<and> TaskCount s = 2 \<and> state (TaskTable s ! 0) = TASK_RUNNING \<and>
     (let t = TaskTable s ! 1 in state t = TASK_WAITING \<and> pid t = 1 \<and> ppid t = 0 \<and> priority t = 1 \<and> cstr (name t) = cstr (c_str ''task1'')) \<and>
     (\<forall>j. 1 < j \<and> j < MAX_TASK_COUNT \<longrightarrow> state (TaskTable s ! j) = TASK_EMPTY)"

lemma first_stack:
  assumes "heap_inv h [(N, True)]" and "4096 \<le> N"
  shows "\<exists>stack hs. kmalloc 4096 h = Some (stack, hs) \<and> stack \<noteq> 0 \<and> unat (heap_start h) \<le> unat stack \<and> heap_start hs = heap_start h"
proof -
  have r: "unat (round_size 4096) = 4096" by (simp add: round_size_def)
  have b: "64 \<le> unat (heap_start h)" "unat (heap_start h) + 24 < 2 ^ 64" using assms(1) by (auto simp: heap_inv_def sizeof_header_def)
  obtain hs where k: "kmalloc 4096 h = Some (of_nat (unat (heap_start h) + 24), hs)" "hs = h\<lparr>mm_mem := mm_mem hs\<rparr>"
    using kmalloc_result [OF assms(1), of 4096] assms(2) r by (auto simp: sizeof_header_def split: if_splits)
  have u: "unat (of_nat (unat (heap_start h) + 24) :: u64) = unat (heap_start h) + 24" by (rule unat_nat64 [OF b(2)])
  have "(of_nat (unat (heap_start h) + 24) :: u64) \<noteq> 0"
  proof
    assume "(of_nat (unat (heap_start h) + 24) :: u64) = 0"
    then show False using u b(1) by (metis add_is_0 numeral_eq_one_iff not_numeral_le_zero unat_0)
  qed
  moreover have "heap_start hs = heap_start h" by (subst k(2)) simp
  ultimately show ?thesis using k(1) u by (intro exI [of _ "of_nat (unat (heap_start h) + 24)"] exI [of _ hs]) simp
qed

lemma sched_init_idle: "sched_init s = Some s1 \<Longrightarrow> state (TaskTable s1 ! 0) = TASK_RUNNING \<and> if_flag s1 = if_flag s"
  by (auto simp: sched_init_def Let_def MAX_TASK_COUNT_def split: bind_splits)

text \<open>What runs at the first tick: \<^verbatim>\<open>thread_starter\<close>, whose interrupt return enters the function.\<close>

definition enters :: "boot_env \<Rightarrow> sched \<Rightarrow> bool" where
  "enters E s \<longleftrightarrow> CurrentTaskPID s = 1 \<and> rip (s_cpu s) = thread_starter (k_labels E) \<and>
     (let c = iretq (mm_mem (s_mm s)) (s_cpu s) in rip c = kernelthread1 E \<and> cs c = 8 \<and> ss c = 0x10 \<and> rflags c = 0x202)"

lemma start_tasks_result:
  assumes "heap_inv (s_mm s) [(N, True)]" and "4096 \<le> N"
  shows "\<exists>s2 stack n. start_tasks E s = Some s2 \<and> one_task_waits s2 \<and> if_flag s2 = if_flag s \<and> heap_start (s_mm s2) = heap_start (s_mm s) \<and>
    allocated (s_mm s2) stack n \<and> 4096 \<le> n \<and> unat (heap_start (s_mm s)) \<le> unat stack \<and> t_rsp (TaskTable s2 ! 1) = stack + of_nat 4000 \<and>
    (\<forall>c. rip (load_context (stack + of_nat 4000) (mm_mem (s_mm s2)) c) = thread_starter (k_labels E) \<and>
      first_run (stack + of_nat 4000) (mm_mem (s_mm s2)) c = c\<lparr>r15 := 0, r14 := 0, r13 := 0, r12 := 0, rbx := 0, rbp := 0,
        rip := kernelthread1 E, cs := 8, rflags := 0x202,
        rsp := (if late_operand (k_labels E) then stack + 4096 - 8 else stack + 4096), ss := 0x10\<rparr>)"
proof -
  let ?L = "k_labels E"
  have ok: "heap_ok (s_mm s)" using assms(1) by (auto simp: heap_ok_def)
  obtain s1 where s1: "sched_init s = Some s1" "sched_ready s1" "CurrentTaskPID s1 = 0" "TaskCount s1 = 1"
    "\<forall>i. 0 < i \<and> i < MAX_TASK_COUNT \<longrightarrow> TaskTable s1 ! i = zero_task" "s_mm s1 = s_mm s"
    using sched_init_ready [OF ok] by blast
  note idle = sched_init_idle [OF s1(1)]
  have inv: "sched_inv s1" using s1(2) by (simp add: sched_ready_def)
  note len = sched_invD(1) [OF inv]
  have m: "1 < MAX_TASK_COUNT" by (simp add: MAX_TASK_COUNT_def)
  have slot: "find_empty (TaskTable s1) = Some 1"
    using s1(5) idle len m by (auto simp: find_empty_Some zero_task_facts)
  obtain stack hs where k: "kmalloc 4096 (s_mm s1) = Some (stack, hs)" "stack \<noteq> 0" "unat (heap_start (s_mm s)) \<le> unat stack"
    "heap_start hs = heap_start (s_mm s)"
    using first_stack [OF assms] unfolding s1(6) by blast
  have nm: "terminated (c_str ''task1'')" by (simp add: c_str_def terminated_def)
  have z: "name_ok (TaskTable s1 ! 1)" using s1(5) m by (simp add: zero_task_facts)
  have cnt: "TaskCount s1 < int MAX_TASK_COUNT" using s1(4) m by simp
  obtain nn mem sp where c: "cstr nn = take 31 (cstr (c_str ''task1''))" "initial_frame ?L (kernelthread1 E) (stack + 4096) (mm_mem hs) = (sp, mem)"
    "CreateTask ?L (c_str ''task1'') (kernelthread1 E) 0 s1 = Some (int 1,
      s1\<lparr>TaskTable := (TaskTable s1)[1 := (TaskTable s1 ! 1)\<lparr>pid := int 1, ppid := 0, state := TASK_WAITING,
           priority := 1, name := nn, kstack := stack, t_rsp := sp\<rparr>],
        s_mm := hs\<lparr>mm_mem := mem\<rparr>, TaskCount := TaskCount s1 + 1\<rparr>)"
    using CreateTask_ok [of s1 1 "c_str ''task1''" stack hs ?L "kernelthread1 E" 0] ok cnt slot z nm k(1,2) unfolding s1(6) by blast
  define s2 where "s2 = s1\<lparr>TaskTable := (TaskTable s1)[1 := (TaskTable s1 ! 1)\<lparr>pid := int 1, ppid := 0, state := TASK_WAITING,
           priority := 1, name := nn, kstack := stack, t_rsp := sp\<rparr>],
        s_mm := hs\<lparr>mm_mem := mem\<rparr>, TaskCount := TaskCount s1 + 1\<rparr>"
  have run: "start_tasks E s = Some s2" using s1(1) c(3) by (simp add: start_tasks_def s2_def)
  have sp: "sp = stack + of_nat 4000" using initial_frame_words(1) [OF c(2)] by simp
  have inv2: "sched_inv s2" using CreateTask_inv [OF inv nm, of ?L "kernelthread1 E" 0] c(3) by (auto simp: s2_def)
  have tab: "TaskTable s2 ! 0 = TaskTable s1 ! 0" "\<forall>j. 1 < j \<and> j < MAX_TASK_COUNT \<longrightarrow> state (TaskTable s2 ! j) = TASK_EMPTY"
    using s1(5) by (auto simp: s2_def zero_task_facts)
  have w: "one_task_waits s2"
    using inv2 s1(2-4) idle tab c(1) len m by (simp add: one_task_waits_def sched_ready_def s2_def cstr_def c_str_def)
  note g = granted_stack [OF ok [folded s1(6)] k(1,2)]
  obtain n where n: "4096 \<le> n" "allocated hs stack n" using g(1) by auto
  have "same_outside (unat (stack + 4096) - 96) (unat (stack + 4096)) (mm_mem hs) mem"
    using initial_frame_outside [of "stack + 4096" "mm_mem hs" ?L "kernelthread1 E"] g(3) c(2) by simp
  then have "same_outside (unat stack) (unat stack + n) (mm_mem hs) mem" using g(3) n(1) by (elim same_outside_mono) simp_all
  from heap_write_ok(2) [OF g(2) n(2) this] n(2) have "allocated (s_mm s2) stack n" by (simp add: s2_def)
  moreover have "t_rsp (TaskTable s2 ! 1) = sp" "mm_mem (s_mm s2) = mem" "heap_start (s_mm s2) = heap_start (s_mm s)" "if_flag s2 = if_flag s"
    using len m k(4) idle by (simp_all add: s2_def)
  ultimately show ?thesis using run w n(1) k(3) first_run_initial [OF c(2)] unfolding sp by (intro exI [of _ s2] exI [of _ stack] exI [of _ n]) simp
qed

lemma first_tick:
  assumes one: "one_task_waits s" and w: "w_sched w = s\<lparr>s_cpu := c\<rparr>"
    and low: "56 \<le> unat (rsp c)" "unat (rsp c) \<le> unat (heap_start (s_mm s))"
    and stack: "allocated (s_mm s) stack n" "4096 \<le> n" "unat (heap_start (s_mm s)) \<le> unat stack"
    and frame: "t_rsp (TaskTable s ! 1) = stack + of_nat 4000"
    and run: "\<forall>c. rip (load_context (stack + of_nat 4000) (mm_mem (s_mm s)) c) = thread_starter (k_labels E) \<and>
      first_run (stack + of_nat 4000) (mm_mem (s_mm s)) c = c\<lparr>r15 := 0, r14 := 0, r13 := 0, r12 := 0, rbx := 0, rbp := 0,
        rip := kernelthread1 E, cs := 8, rflags := 0x202,
        rsp := (if late_operand (k_labels E) then stack + 4096 - 8 else stack + 4096), ss := 0x10\<rparr>"
  shows "\<exists>w'. timer_callback (k_labels E) P w = Some (True, w') \<and> enters E (w_sched w')"
proof -
  let ?s = "(w_sched w)\<lparr>ticks := ticks (w_sched w) + 1\<rparr>"
  have f: "sched_inv ?s" "scheduler_started ?s" "CurrentTaskPID ?s = 0" "state (TaskTable ?s ! 0) = TASK_RUNNING"
    "state (TaskTable ?s ! 1) = TASK_WAITING" "\<forall>j. 1 < j \<and> j < MAX_TASK_COUNT \<longrightarrow> state (TaskTable ?s ! j) = TASK_EMPTY"
    using one unfolding one_task_waits_def sched_ready_def sched_inv_def w Let_def by simp_all
  have a: "56 \<le> unat (rsp (s_cpu ?s))" "unat (rsp (s_cpu ?s)) \<le> unat (heap_start (s_mm ?s))" "allocated (s_mm ?s) stack n"
    "unat (heap_start (s_mm ?s)) \<le> unat stack" using low stack by (simp_all add: w)
  obtain s' where s': "Schedule (k_labels E) ?s = Some (True, s')" "CurrentTaskPID s' = 1"
    "s_cpu s' = load_context (stack + of_nat 4000) (mm_mem (s_mm s')) c"
    "\<forall>i < n. mm_mem (s_mm s') (stack + of_nat i) = mm_mem (s_mm s) (stack + of_nat i)"
    using only_task_runs [OF f a, of "k_labels E"] frame by (auto simp: w)
  have "mm_mem (s_mm s') (stack + of_nat 4000 + of_nat i) = mm_mem (s_mm s) (stack + of_nat 4000 + of_nat i)" if "i < 96" for i
    using s'(4) [rule_format, of "4000 + i"] that stack(2) by (simp add: add.assoc)
  then have same: "\<forall>i < 96. mm_mem (s_mm s') (stack + of_nat 4000 + of_nat i) = mm_mem (s_mm s) (stack + of_nat 4000 + of_nat i)" by blast
  note cong = first_run_cong [OF same, of c]
  have "enters E s'"
    using s'(2) run [rule_format, of c] cong(2) unfolding enters_def s'(3) cong(1) first_run_def Let_def by simp
  then show ?thesis using s'(1) by (intro exI [of _ "w\<lparr>w_sched := s', w_mach := outb P 0x20 0x20 (w_mach w)\<rparr>"]) (simp add: timer_callback_def)
qed

section \<open>From start_kernel to the first task\<close>

text \<open>C1: The kernel boots. After the initialisations, \<^verbatim>\<open>start_kernel\<close> mounts the file system; without the magic number in the
  superblock it stops, the message of the failed mount on its console and nothing else done but the superblock read. Otherwise, when no tick falls into \<^verbatim>\<open>CreateTask\<close>, it ends as the idle task with exactly one other
  task waiting, \<^verbatim>\<open>task1\<close>; and the first timer interrupt, on any stack below the heap, switches to that task, whose interrupt return
  enters \<^verbatim>\<open>kernelthread1\<close> with interrupts on.\<close>

theorem start_kernel_boots:
  fixes E :: boot_env and k :: "'d kernel"
  assumes init: "machine_init E P (k\<lparr>k_sched := cli (k_sched k)\<rparr>) = Some k1"
    and mem: "memory_ready frames F M (s_mm (k_sched k1))" and disk: "disk_ok (k_disk k1)"
  shows "\<exists>k'. if minix_magic (k_disk k1)
    then start_kernel E P k = Some (Idle_loop, k') \<and> one_task_waits (k_sched k') \<and> if_flag (k_sched k') = if_flag (k_sched k1) \<and>
      (\<forall>c (w :: 'd world). w_sched w = (k_sched k')\<lparr>s_cpu := c\<rparr> \<and> 56 \<le> unat (rsp c) \<and> unat (rsp c) \<le> unat HEAP_START_ADDR \<longrightarrow>
        (\<exists>w'. timer_callback (k_labels E) P w = Some (True, w') \<and> enters E (w_sched w')))
    else start_kernel E P k = Some (Stopped, k') \<and> k_con k' = shown (k_font E) (k_fb k1) (panic_line ''FS Mount Error!'') (k_con k1) \<and>
      k' = k1\<lparr>k_sb := k_sb k', k_con := k_con k'\<rparr>"
proof -
  obtain sb out where fs: "fs_init (k_disk k1) = Some (if minix_magic (k_disk k1) then 0 else err EINVAL, sb, out)" "list_all printable out"
    "\<not> minix_magic (k_disk k1) \<longrightarrow> out = []"
    using fs_init_result [OF disk] by blast
  obtain con where con: "print_calls (k_font E) (k_fb k1) out (k_con k1) = Some con"
    using print_calls_total [OF fs(2)] by blast
  show ?thesis
  proof (cases "minix_magic (k_disk k1)")
    case False
    let ?con = "shown (k_font E) (k_fb k1) (panic_line ''FS Mount Error!'') (k_con k1)"
    have "con = k_con k1" using fs(3) False con by (simp add: print_calls_def)
    then have "panic (k_font E) (k_fb k1) (c_str ''FS Mount Error!'') con = Some ?con"
      using panic_shows [of "''FS Mount Error!''" "k_font E" "k_fb k1" "k_con k1"] by simp
    then show ?thesis using False init fs(1) con
      by (intro exI [of _ "k1\<lparr>k_sb := sb, k_con := ?con\<rparr>"]) (simp add: start_kernel_def Let_def)
  next
    case True
    let ?s = "k_sched k1"
    have heap: "heap_inv (s_mm ?s) [(unat HEAP_SIZE - sizeof_header, True)]" "heap_start (s_mm ?s) = HEAP_START_ADDR"
      "4096 \<le> unat HEAP_SIZE - sizeof_header"
      using mem by (auto simp: memory_ready_def HEAP_SIZE_def sizeof_header_def)
    from start_tasks_result [OF heap(1,3), of E] obtain s2 stack n where
      s2: "start_tasks E ?s = Some s2" "one_task_waits s2" "if_flag s2 = if_flag ?s" "heap_start (s_mm s2) = HEAP_START_ADDR"
        "allocated (s_mm s2) stack n" "4096 \<le> n" "unat (heap_start (s_mm s2)) \<le> unat stack" "t_rsp (TaskTable s2 ! 1) = stack + of_nat 4000"
      and frame: "\<forall>c. rip (load_context (stack + of_nat 4000) (mm_mem (s_mm s2)) c) = thread_starter (k_labels E) \<and>
        first_run (stack + of_nat 4000) (mm_mem (s_mm s2)) c = c\<lparr>r15 := 0, r14 := 0, r13 := 0, r12 := 0, rbx := 0, rbp := 0,
          rip := kernelthread1 E, cs := 8, rflags := 0x202,
          rsp := (if late_operand (k_labels E) then stack + 4096 - 8 else stack + 4096), ss := 0x10\<rparr>"
      unfolding heap(2) by auto
    have "\<exists>w'. timer_callback (k_labels E) P w = Some (True, w') \<and> enters E (w_sched w')"
      if "w_sched w = s2\<lparr>s_cpu := c\<rparr>" "56 \<le> unat (rsp c)" "unat (rsp c) \<le> unat HEAP_START_ADDR" for c and w :: "'d world"
      by (rule first_tick [OF s2(2) that(1,2) _ s2(5-8) frame]) (use that(3) s2(4) in simp)
    then show ?thesis using True init fs(1) con s2(1-3)
      by (intro exI [of _ "k1\<lparr>k_sb := sb, k_con := con, k_sched := s2\<rparr>"]) (simp add: start_kernel_def Let_def)
  qed
qed

section \<open>An example machine\<close>

text \<open>One available region from 1 MiB to 128 MiB, a kernel image that ends at 2 MiB, no framebuffer, the controllers of the
  example of \<^verbatim>\<open>traps_init\<close> beside the clock of the example of \<^verbatim>\<open>time_init\<close>.\<close>

definition boot_mbi :: mem where
  "boot_mbi = stn (\<lambda>_. 0) (P2V 0x9000)
     (le_bytes 4 (56 :: u32) @ le_bytes 4 (0 :: u32) @
      le_bytes 4 (6 :: u32) @ le_bytes 4 (40 :: u32) @ le_bytes 4 (24 :: u32) @ le_bytes 4 (0 :: u32) @
      le_bytes 8 (0x100000 :: u64) @ le_bytes 8 (0x7F00000 :: u64) @ le_bytes 4 (1 :: u32) @ le_bytes 4 (0 :: u32) @
      le_bytes 4 (0 :: u32) @ le_bytes 4 (8 :: u32))"

definition boot_ports :: "((pic \<times> pic \<times> kbc) \<times> rtc) ports" where
  "boot_ports = \<lparr>
     port_outb = (\<lambda>port v (c, r). (port_outb (example_chips 0) port v c, port_outb example_chip port v r)),
     port_inb = (\<lambda>port (c, r).
       if port = 0x71 then (let (v, r') = port_inb example_chip port r in (v, c, r'))
       else (let (v, c') = port_inb (example_chips 0) port c in (v, c', r))),
     port_outw = (\<lambda>_ _ d. d), port_inw = (\<lambda>_ d. (0, d)), next_interrupt = (\<lambda>d. (False, d))\<rparr>"

definition boot_disk :: disk where
  "boot_disk l = (if l = 2 then (replicate 512 0)[16 := 0x78, 17 := 0x24] else replicate 512 0)"

definition example_env :: boot_env where
  "example_env = \<lparr>k_start = P2V 0x100000, k_end = P2V 0x200000, mbi_address = 0x9000, k_handlers = example_handlers,
     k_labels = example_labels, k_font = example_font, kernelthread1 = 0x123456\<rparr>"

definition example_kernel :: "((pic \<times> pic \<times> kbc) \<times> rtc) kernel" where
  "example_kernel = \<lparr>
     k_sched = example_sched\<lparr>s_mm := \<lparr>mm_mem = boot_mbi, mm_pmm = pmm_static, kernel_pml4 = 0, heap_start = 0\<rparr>\<rparr>,
     k_fb = \<lparr>fb_addr = 0, fb_pitch = 0, fb_width = 0, fb_height = 0, fb_bpp = 0\<rparr>,
     k_irq = \<lparr>idt_table = replicate 256 empty_gate,
       i_mach = \<lparr>dev = ((pic_ready 8 0, pic_ready 0x70 0, \<lparr>last_cmd = 0, in_busy = 0, out_wait = None\<rparr>), \<lparr>instant = 7, upd = 0, left = 8, index = 0\<rparr>),
                 ide_irq_fired = 0\<rparr>, i_flag = False\<rparr>,
     k_time = \<lparr>tm_sec = 0, tm_min = 0, tm_hour = 0, tm_mday = 0, tm_mon = 0, tm_year = 0\<rparr>,
     k_sb = \<lparr>s_ninodes = 0, s_nzones = 0, s_imap_blocks = 0, s_zmap_blocks = 0, s_firstdatazone = 0, s_log_zone_size = 0,
       s_max_size = 0, s_magic = 0, s_state = 0, s_zones = 0\<rparr>,
     k_con = example_console, k_disk = boot_disk\<rparr>"

lemma boot_mbi_layout: "mbi_layout boot_mbi (ucast (0x9000 :: u32)) [P2V 0x9008] (\<lambda>_. [P2V 0x9018])"
  by (simp add: mbi_layout_def region_ok_def boot_mbi_def example_eval)

lemma boot_mbi_pages: "available_pages boot_mbi [P2V 0x9008] (\<lambda>_. [P2V 0x9018]) = page_range 0x100000 0x8000000"
  by (simp add: available_pages_def entry_pages_def boot_mbi_def example_eval)

lemma boot_mbi_fb: "fb_of_tags boot_mbi [P2V 0x9008] f = f"
  by (simp add: fb_of_tags_def boot_mbi_def example_eval)

lemma boot_frames: "11057 \<le> card (frames_behind (P2V 0x200000) boot_mbi [P2V 0x9008] (\<lambda>_. [P2V 0x9018]))"
proof -
  let ?F = "frames_behind (P2V 0x200000) boot_mbi [P2V 0x9008] (\<lambda>_. [P2V 0x9018])"
  have "{0x201..<0x8000} \<subseteq> ?F"
  proof
    fix b :: nat assume b: "b \<in> {0x201..<0x8000}"
    then have m: "b < MAX_BLOCKS" by (simp add: pmm_consts)
    have u: "unat (frame_addr b) = 4096 * b" by (rule unat_frame_addr [OF m])
    have "unat (0x8000000 :: u64) + 4096 \<le> 2 ^ 64" by simp
    then have "frame_addr b \<in> set (page_range 0x100000 0x8000000)"
      unfolding page_range_mem [OF \<open>unat (0x8000000 :: u64) + 4096 \<le> 2 ^ 64\<close>] u using b by (intro exI [of _ "b - 0x100"]) auto
    then show "b \<in> ?F"
      unfolding frames_behind_def boot_mbi_pages frames_of_def using b m unat_block_frame_addr [OF m] by auto
  qed
  then have "card {0x201..<0x8000 :: nat} \<le> card ?F" by (rule card_mono [rotated]) (simp add: frames_behind_def frames_of_def)
  then show ?thesis by simp
qed

lemma boot_clock: "rtc_ok boot_ports snd 0 example_calendar"
  unfolding rtc_ok_def using example_calendar_ok chip_step_next
  by (simp add: example_chip_def boot_ports_def split_def Let_def)

lemma boot_chips: "pics_ok boot_ports (fst \<circ> fst) (fst \<circ> snd \<circ> fst)" "kbc_ok boot_ports (snd \<circ> snd \<circ> fst)"
  "kbc_prompt boot_ports (snd \<circ> snd \<circ> fst)"
  by (simp_all add: pics_ok_def kbc_ok_def kbc_prompt_def answers_def boot_ports_def example_chips_def write_kbc_def split_def Let_def)

lemma boot_disk_ok: "disk_ok boot_disk" "minix_magic boot_disk"
proof -
  have "take 2 (drop 16 ((replicate 512 0)[16 := 0x78, 17 := 0x24 :: u8])) = [0x78, 0x24]"
    by (simp add: drop_update_swap take_update_swap numeral_2_eq_2)
  then show "minix_magic boot_disk" by (simp add: minix_magic_def sector_read_def boot_disk_def get16_def buf_get_def)
qed (simp add: disk_ok_def boot_disk_def)

lemma example_kernel_facts:
  "mm_mem (s_mm (k_sched example_kernel)) = boot_mbi" "mbi_address example_env = 0x9000" "k_end example_env = P2V 0x200000"
  "total_blocks (mm_pmm (s_mm (k_sched example_kernel))) = of_nat MAX_BLOCKS"
  "k_fb example_kernel = fb_of_tags boot_mbi [P2V 0x9008] (k_fb example_kernel)"
  "fb_addr (k_fb example_kernel) = page_addr 0" "fb_page_count (k_fb example_kernel) = 0"
  "length (idt_table (k_irq example_kernel)) = 256" "in_busy ((snd \<circ> snd \<circ> fst) (dev (i_mach (k_irq example_kernel)))) = 0" "k_disk example_kernel = boot_disk"
  by (simp_all add: example_kernel_def example_env_def pmm_static_def page_addr_def fb_page_count_def boot_mbi_fb)

lemma example_image: "unat (V2P (P2V 0x200000)) + 4096 \<le> 2 ^ 64"
  by simp

text \<open>The hypotheses of \<open>machine_init_starts\<close> at the example.\<close>

lemmas example_boot = boot_mbi_layout example_image example_kernel_facts(4-6) boot_frames boot_clock boot_chips(1) example_kernel_facts(8)
  boot_chips(2,3) example_kernel_facts(9)

lemma example_space:
  assumes "memory_ready frames 0 0 mm"
  shows "heap_inv mm [(10485736, True)]" and "translate mm 0xFFFFFFFF80100000 = Some 0x100003"
proof -
  show "heap_inv mm [(10485736, True)]" using assms by (simp add: memory_ready_def HEAP_SIZE_def sizeof_header_def)
  obtain fs where fs: "length fs = 2560" "\<And>va. translate mm va = boot_space 0 0 fs (unat (page_no va))"
    using assms by (auto simp: memory_ready_def)
  have "unat (page_no 0xFFFFFFFF80100000) = 0xFFFF80100" by (simp add: page_no_def)
  then show "translate mm 0xFFFFFFFF80100000 = Some 0x100003"
    using fs by (simp add: boot_space_def heap_page_def kernel_space_def pte_def page_addr_def PAGE_WRITE_def PAGE_PRESENT_def)
qed

theorem machine_init_starts_witness:
  "\<exists>k'. machine_init example_env boot_ports example_kernel = Some k' \<and> i_flag (k_irq k') \<and> tm_hour (k_time k') = 85 \<and>
     heap_inv (s_mm (k_sched k')) [(10485736, True)] \<and> translate (s_mm (k_sched k')) 0xFFFFFFFF80100000 = Some 0x100003 \<and>
     gate_target (idt_table (k_irq k') ! 14) = 0x101200"
proof -
  have c: "upd (snd (dev (i_mach (k_irq example_kernel)))) = 0 \<and> 7 \<le> left (snd (dev (i_mach (k_irq example_kernel))))"
    by (simp add: example_kernel_def)
  obtain mm irq t where r: "machine_init example_env boot_ports example_kernel =
      Some (example_kernel\<lparr>k_sched := (k_sched example_kernel)\<lparr>s_mm := mm, if_flag := True\<rparr>, k_fb := k_fb example_kernel, k_irq := irq,
        k_time := clock_time 0 (example_calendar t)\<rparr>)"
    "memory_ready (frames_behind (P2V 0x200000) boot_mbi [P2V 0x9008] (\<lambda>_. [P2V 0x9018])) 0 0 mm" "i_flag irq"
    "\<forall>v < 256. case installed (k_handlers example_env) v of
        Some (h, dpl) \<Rightarrow> gate_present (idt_table irq ! v) \<and> gate_target (idt_table irq ! v) = h
      | None \<Rightarrow> idt_table irq ! v = idt_table (k_irq example_kernel) ! v"
    using machine_init_starts [of example_kernel example_env "[P2V 0x9008]" "\<lambda>_. [P2V 0x9018]" "k_fb example_kernel" 0 boot_ports snd 0 example_calendar,
      unfolded example_kernel_facts(1-3,7), OF example_boot(1-5) _ _ _ example_boot(7-12)] boot_frames c by auto
  have "installed (k_handlers example_env) 14 = Some (0x101200, 0)" by (simp add: installed_def example_handlers_def example_env_def)
  then have "gate_target (idt_table irq ! 14) = 0x101200" using r(4) [rule_format, of 14] by simp
  moreover have "tm_hour (clock_time 0 (example_calendar t)) = 85"
    by (simp add: clock_time_def clock_hour_def half_day_def example_calendar_def)
  ultimately show ?thesis using r(1,3) example_space [OF r(2)] by simp
qed

theorem start_kernel_boots_witness:
  "\<exists>k' w'. start_kernel example_env boot_ports example_kernel = Some (Idle_loop, k') \<and> one_task_waits (k_sched k') \<and>
     timer_callback example_labels boot_ports
       \<lparr>w_sched = (k_sched k')\<lparr>s_cpu := example_cpu\<lparr>rsp := 0x80000\<rparr>\<rparr>, w_con = k_con k', w_mach = i_mach (k_irq k')\<rparr> = Some (True, w') \<and>
     rip (iretq (mm_mem (s_mm (w_sched w'))) (s_cpu (w_sched w'))) = 0x123456"
proof -
  let ?k = "example_kernel\<lparr>k_sched := cli (k_sched example_kernel)\<rparr>"
  have f: "mm_mem (s_mm (k_sched ?k)) = boot_mbi" "total_blocks (mm_pmm (s_mm (k_sched ?k))) = of_nat MAX_BLOCKS"
    "k_fb ?k = k_fb example_kernel" "length (idt_table (k_irq ?k)) = 256" "k_irq ?k = k_irq example_kernel"
    using example_kernel_facts by (simp_all add: cli_def)
  obtain mm irq t where r: "machine_init example_env boot_ports ?k =
      Some (?k\<lparr>k_sched := (k_sched ?k)\<lparr>s_mm := mm, if_flag := True\<rparr>, k_fb := k_fb example_kernel, k_irq := irq, k_time := t\<rparr>)"
    "memory_ready (frames_behind (P2V 0x200000) boot_mbi [P2V 0x9008] (\<lambda>_. [P2V 0x9018])) 0 0 mm"
    using machine_init_result [of ?k example_env "[P2V 0x9008]" "\<lambda>_. [P2V 0x9018]" "k_fb example_kernel" 0 boot_ports snd 0 example_calendar,
      unfolded f(1,3,5) example_kernel_facts(2,3,7), OF example_boot(1,2) f(2) example_boot(4,5) _ _ _ example_boot(7-12)] boot_frames by auto
  define k1 where "k1 = ?k\<lparr>k_sched := (k_sched ?k)\<lparr>s_mm := mm, if_flag := True\<rparr>, k_fb := k_fb example_kernel, k_irq := irq, k_time := t\<rparr>"
  have k1: "memory_ready (frames_behind (P2V 0x200000) boot_mbi [P2V 0x9008] (\<lambda>_. [P2V 0x9018])) 0 0 (s_mm (k_sched k1))" "k_disk k1 = boot_disk"
    using r(2) example_kernel_facts(10) by (simp_all add: k1_def)
  from start_kernel_boots [OF r(1) [folded k1_def] k1(1)] boot_disk_ok obtain k' where k': "start_kernel example_env boot_ports example_kernel = Some (Idle_loop, k')"
    "one_task_waits (k_sched k')"
    "\<And>c w. w_sched w = (k_sched k')\<lparr>s_cpu := c\<rparr> \<Longrightarrow> 56 \<le> unat (rsp c) \<Longrightarrow> unat (rsp c) \<le> unat HEAP_START_ADDR \<Longrightarrow>
        \<exists>w'. timer_callback (k_labels example_env) boot_ports w = Some (True, w') \<and> enters example_env (w_sched w')"
    unfolding k1(2) by auto
  define w where "w = \<lparr>w_sched = (k_sched k')\<lparr>s_cpu := example_cpu\<lparr>rsp := 0x80000\<rparr>\<rparr>, w_con = k_con k', w_mach = i_mach (k_irq k')\<rparr>"
  have e: "k_labels example_env = example_labels" "kernelthread1 example_env = 0x123456" by (simp_all add: example_env_def)
  obtain w' where "timer_callback example_labels boot_ports w = Some (True, w')" "enters example_env (w_sched w')"
    using k'(3) [of w "example_cpu\<lparr>rsp := 0x80000\<rparr>"] unfolding e by (auto simp: w_def HEAP_START_ADDR_def)
  then show ?thesis using k'(1,2) unfolding w_def enters_def Let_def e by blast
qed

end
