(* ===== verification/Spec2Isabelle.thy ===== *)
theory Spec2Isabelle
  imports Mbi Paging AddressSpace Kheap Libc Tasks Sched Console Bmp Logo Draw MinixFile Ide Clock Keyboard Mouse Faults Irq Idt
    MinixTree Vfs Boot
begin

text \<open>
  LySystem, a 64-bit hobby kernel in C: a model of the whole C program and the theorems that make its parts correct.

  \<^bold>\<open>The program.\<close> \<^verbatim>\<open>start_kernel\<close> (\<^verbatim>\<open>init/init.c\<close>) takes over from the boot loader. It builds a bitmap of the free page frames
  from the boot information, page tables from those frames, and a heap mapped through the page tables; it reads the clock,
  installs the interrupt gates, mounts the file system on the IDE disk, sets up the task table, creates one task and becomes the idle
  task. From then on everything happens in interrupts: the timer runs the scheduler, the keyboard prints what is typed, the mouse
  moves its pointer over the screen, faults end the task they happen in. Tasks have their stacks on the heap, decoded images live there,
  and all text goes through \<^verbatim>\<open>printk\<close> to the framebuffer.

  \<^bold>\<open>The theories, from the bottom up.\<close>

  \<^item> \<^verbatim>\<open>Prelude\<close>: widths of integers (\<^verbatim>\<open>include/LySys/types.h\<close>: C integers are words, so every sum wraps as in the code), error numbers
    (\<^verbatim>\<open>errno.h\<close>), shared lemmas. \<^verbatim>\<open>Bytes\<close>: little-endian fields of byte arrays and of the address space. \<^verbatim>\<open>Bitmap\<close>: bitmaps in bytes.
    \<^verbatim>\<open>Loops\<close>: loops over page addresses.
  \<^item> \<^verbatim>\<open>Multiboot\<close>, \<^verbatim>\<open>Mbi\<close>: the boot information (\<^verbatim>\<open>mbi.h\<close>, \<^verbatim>\<open>kernel/mbi.c\<close>). \<^verbatim>\<open>Pmm\<close>: the frame allocator (\<^verbatim>\<open>kernel/mem/pmm.c\<close>,
    \<^verbatim>\<open>ram.h\<close>). \<^verbatim>\<open>Paging\<close>, \<^verbatim>\<open>AddressSpace\<close>: page tables (\<^verbatim>\<open>kernel/mem/paging.c\<close>). \<^verbatim>\<open>Kheap\<close>: the heap (\<^verbatim>\<open>kernel/mem/heap.c\<close>).
  \<^item> \<^verbatim>\<open>Libc\<close>: strings (\<^verbatim>\<open>lib/string.c\<close>). \<^verbatim>\<open>Console\<close>: screen and formatted output (\<^verbatim>\<open>kernel/GPU/screen.c\<close>, \<^verbatim>\<open>kernel/printk.c\<close>,
    \<^verbatim>\<open>kernel/panic.c\<close>). \<^verbatim>\<open>Bmp\<close>, \<^verbatim>\<open>Logo\<close>, \<^verbatim>\<open>Draw\<close>: bitmap images, the logo, painting (\<^verbatim>\<open>kernel/GPU/bmp.c\<close>,
    \<^verbatim>\<open>include/img/lysyslogo.h\<close>).
  \<^item> \<^verbatim>\<open>Tasks\<close>, \<^verbatim>\<open>Sched\<close>: the task table, creation, forking, the context switch, user mode, kernel symbols, scheduling and sleeping
    (\<^verbatim>\<open>kernel/sched/\<close>, \<^verbatim>\<open>kernel/IRQ/timer.c\<close>, \<^verbatim>\<open>include/sys/user.h\<close>).
  \<^item> \<^verbatim>\<open>Ide\<close>: port instructions and the disk driver (\<^verbatim>\<open>include/asm/io.h\<close>, \<^verbatim>\<open>kernel/drivers/ide.c\<close>). \<^verbatim>\<open>Minix\<close>: the operations of
    \<^verbatim>\<open>kernel/fs/minix/\<close>; \<^verbatim>\<open>MinixDir\<close>, \<^verbatim>\<open>MinixFile\<close>, \<^verbatim>\<open>MinixTree\<close>: what they do to names, files and directories. \<^verbatim>\<open>Vfs\<close>: the table of
    operations above them (\<^verbatim>\<open>kernel/fs/vfs.c\<close>).
  \<^item> \<^verbatim>\<open>Clock\<close> (\<^verbatim>\<open>kernel/time.c\<close>), \<^verbatim>\<open>Keyboard\<close> (\<^verbatim>\<open>kernel/IRQ/scancode.c\<close>), \<^verbatim>\<open>Mouse\<close> (\<^verbatim>\<open>kernel/IRQ/mouse.c\<close>), \<^verbatim>\<open>Idt\<close>,
    \<^verbatim>\<open>Faults\<close> (\<^verbatim>\<open>kernel/IRQ/traps.c\<close>), \<^verbatim>\<open>Irq\<close> (\<^verbatim>\<open>kernel/IRQ/irq.asm\<close>). \<^verbatim>\<open>Boot\<close>: all of it in the order of \<^verbatim>\<open>start_kernel\<close>.
\<close>

text \<open>
  \<^bold>\<open>How the code is modelled.\<close> Definitions have the names of the C functions, types and macros they translate. The globals of a
  component are the fields of a record, and a function takes and returns that record: \<^verbatim>\<open>pmm\<close> is the bitmap and the counters of
  \<^verbatim>\<open>pmm.c\<close>; \<^verbatim>\<open>mm\<close> is the memory with the frame allocator, the root page table and the start of the heap; \<^verbatim>\<open>sched\<close> is the task
  table with its counters, the interrupt flag, the processor and the memory; \<^verbatim>\<open>console\<close> the text cursor and the framebuffer's bytes;
  \<^verbatim>\<open>kernel\<close>, in \<^verbatim>\<open>Boot\<close>, all of them. Memory is a function from 64-bit addresses to bytes, and a struct reached by a cast is its
  fields at their offsets, so heap headers, page tables, stacks and image headers are bytes of one memory. Local arrays and sectors are lists of bytes.

  The value \<open>None\<close> stands for what C leaves undefined (an access outside an array) and for a loop that does not end. Loops bounded by
  an array or a counter are recursive functions with a measure; loops that depend on memory or hardware (the heap's list, tags of the boot
  information, the search for a frame above the kernel, polling of a device, looking up a path) are \<open>partial_function\<close>s without fuel,
  and each theorem about them says that they return. Errors are the negative numbers of \<^verbatim>\<open>errno.h\<close>.

  Hardware is behind the ports: \<^verbatim>\<open>'d ports\<close> says what each port instruction does to a device state of any type \<^verbatim>\<open>'d\<close>, and the predicates
  \<^verbatim>\<open>ata_device\<close>, \<^verbatim>\<open>rtc_ok\<close>, \<^verbatim>\<open>pics_ok\<close>, \<^verbatim>\<open>kbc_ok\<close> and \<^verbatim>\<open>ps2_ok\<close> state the documented behaviour of the drive, the clock and the
  controllers that the theorems need, and no more: a drive may do anything with a command it gets while it is busy, the clock's registers may hold
  anything during an update cycle, the interrupt controllers are described for the initialisation the code performs, and the
  keyboard controller takes a byte only when its input buffer is empty. Every one is met by an example device in a witness. Where the code
  does not wait for a device, either the conclusion says when it is right (the drive no longer busy, the seconds read outside an update
  cycle) or promptness is a hypothesis of its own (\<^verbatim>\<open>kbc_prompt\<close>); and a device that is not so obliging is exhibited, with what
  the code then does (a lost sector in \<^verbatim>\<open>Ide\<close>, \<^verbatim>\<open>time_init_torn\<close>, \<^verbatim>\<open>traps_init_can_hang\<close>). The linker's addresses, the font, the labels of
  the assembly code and the compiler's choice of an evaluation order are parameters as well.

  \<^bold>\<open>Interfaces.\<close> \<^verbatim>\<open>bit_array\<close> (in \<^verbatim>\<open>Bitmap\<close>): tests after sets and clears; interpreted on the three macros and used by the frame allocator and the
  inode and zone bitmaps. \<^verbatim>\<open>frame_source\<close> (in \<^verbatim>\<open>Paging\<close>): lowest free frame first; interpreted on \<^verbatim>\<open>pmm_alloc_block\<close>, used by the page tables.
  \<^verbatim>\<open>allocator\<close> (in \<^verbatim>\<open>Kheap\<close>): live blocks are disjoint and keep their bytes; interpreted on \<^verbatim>\<open>kmalloc\<close> and \<^verbatim>\<open>kfree\<close>, used by tasks and images.
  \<^verbatim>\<open>file_system\<close> (in \<^verbatim>\<open>Vfs\<close>): the disk's invariant, answer codes and refused calls; interpreted on the calls through \<^verbatim>\<open>vfs.c\<close> with the Minix driver.
\<close>

text \<open>
  \<^bold>\<open>What is proved.\<close>

  \<^item> Memory: the allocator hands out the lowest free frame; after \<^verbatim>\<open>pmm_init\<close> exactly the available and unreserved frames are free, and
    \<^verbatim>\<open>mbi_parse\<close> takes the reservations back; \<^verbatim>\<open>safe_pmm_alloc\<close> returns exactly when a frame above the kernel is free, and then the lowest; \<^verbatim>\<open>map_page\<close>
    changes one translation of a well-formed tree of tables; \<^verbatim>\<open>paging_init\<close> gives every address the translation of \<^verbatim>\<open>kernel_space\<close>.
  \<^item> Heap: \<^verbatim>\<open>kmalloc\<close> and \<^verbatim>\<open>kfree\<close> refine first fit and coalescing on the list of blocks; any two live blocks are isolated from each other and from further requests; no history of
    calls leaks or corrupts.
  \<^item> Tasks: a created task enters its function, a forked one returns beside its parent, switching away and back restores the
    registers, and \<^verbatim>\<open>irq0_handler\<close> restores all of them; \<^verbatim>\<open>Schedule\<close> picks by priority and in turn, starves no task of priority 1, and all
    reachable states of the table are well formed; a fault ends only the task it happens in; a tick inside \<^verbatim>\<open>CreateTask\<close> is fatal.
  \<^item> Output: \<^verbatim>\<open>printk\<close> prints the rendering of its format, the cursor stays on the screen, an image is decoded to its colours and
    painted to exactly its pixels, the first rows of the logo among them. Strings: \<^verbatim>\<open>itoa\<close> reads back, \<^verbatim>\<open>strtok\<close> splits, the copies copy.
  \<^item> Files: path lookup; the outcomes of creating a file when the directory, the inode and the bitmap lie in different sectors, of renaming
    between sound directories, of making a directory; copying a small file within the root directory; what is written is read; what is lost when a
    file or a directory is deleted. The driver reads and writes a disk of sectors, as far as it waits for the drive; every history through
    \<^verbatim>\<open>vfs.c\<close> keeps the contract.
  \<^item> Devices: the clock is read at a single second unless an update cycle comes in between, typed characters are those of a US keyboard but for four
    keys, the mouse leaves the picture as it was, every installed gate leads to its handler.
  \<^item> Start-up: with well-formed boot information, enough memory and hardware that answers in time all initialisations return, and the first
    timer interrupt enters the first task.

  Several theorems state faults of the code exactly as it behaves: the reservations lost in \<^verbatim>\<open>mbi_parse\<close>, the alias of the framebuffer that wraps
  around, the inode number off by one in \<^verbatim>\<open>minix_DeleteFile\<close>, the file lost by \<^verbatim>\<open>minix_RenameFile\<close>, the files orphaned by \<^verbatim>\<open>minix_DeleteDir\<close>, the buffer overrun for every sixteenth inode, the sector
  lost by \<^verbatim>\<open>ide_write_sector\<close>, the hour in the 12-hour mode, the exchanged bracket keys and the two missing ones, the window in \<^verbatim>\<open>CreateTask\<close>.

  \<^bold>\<open>Bounds.\<close> There is no fuel. The numbers in hypotheses are sizes of the code: 65536 frames, 128 tasks with stacks of 4096 bytes, 512-byte sectors,
  2048 bytes of text for one \<^verbatim>\<open>printk\<close>, images of fewer than \<open>2 ^ 30\<close> pixels (beyond, the size of the block wraps around), 11057 frames for the page
  tables and the heap at start-up.

  \<^bold>\<open>Not modelled.\<close> The assembly before \<^verbatim>\<open>start_kernel\<close> (\<^verbatim>\<open>boot/main.asm\<close>, \<^verbatim>\<open>boot/main64.asm\<close>) and the converter that made the logo's array
  (\<^verbatim>\<open>img2c.py\<close>) are not C code of the kernel. Of the logo's 300 rows the first thirty are given; the rest, more of the same data, is a
  parameter. The structures of \<^verbatim>\<open>mbi.h\<close> for ACPI and some declarations of \<^verbatim>\<open>mouse.c\<close> are used by no code. Reloading \<^verbatim>\<open>cr3\<close> and the descriptor table and
  \<^verbatim>\<open>invlpg\<close> change nothing a theorem speaks of. The framebuffer in \<^verbatim>\<open>console\<close> and the disk in \<^verbatim>\<open>kernel\<close> are components of their own:
  that they are reached through the memory's mapping and the driver is the content of the theorems on \<^verbatim>\<open>paging_init\<close> and \<^verbatim>\<open>Ide\<close>. An interrupt is taken at a
  \<^verbatim>\<open>hlt\<close>, between operations, or at the one point inside \<^verbatim>\<open>CreateTask\<close> where it does harm; C frames between a handler and \<^verbatim>\<open>switch_to\<close> are not.
\<close>

end
